(* ===== verification/Prelude.thy ===== *)
theory Prelude
  imports Main
begin

text \<open>
  Shared material of the development: the result type that carries every abnormal
  exit of the C++ code, checked access to a heap of nodes, machine arithmetic on
  \<open>long long\<close>, linked paths through a heap, and the abstract dictionaries (sorted
  association lists) that the data structures implement.
\<close>

named_theorems res_simps \<open>evaluation rules for results and checked heap access\<close>
named_theorems path_simps \<open>rewriting of linked paths and sorted key lists\<close>

section \<open>Results\<close>

text \<open>
  A step of the code either yields a value (\<open>Inr\<close>) or leaves the function
  abnormally (\<open>Inl\<close>): a null or dangling dereference, a failed \<open>assert\<close>, a call
  of \<open>exit\<close>, a spin loop that only another thread can end (\<open>Blocked\<close>), an array
  index out of range, or a loop that has used up the fuel given to it (\<open>Timeout\<close>).
\<close>

datatype fault = NullDeref | Dangling | AssertFail | Exit | Blocked | OutOfBounds | Timeout

type_synonym 'a res = "fault + 'a"

fun obind :: "'a res \<Rightarrow> ('a \<Rightarrow> 'b res) \<Rightarrow> 'b res" where
  "obind (Inl e) f = Inl e"
| "obind (Inr x) f = f x"

definition require :: "fault \<Rightarrow> bool \<Rightarrow> unit res" where
  "require e b = (if b then Inr () else Inl e)"

declare obind.simps [res_simps]

lemma obind_Inr_iff [res_simps]:
  "obind m f = Inr y \<longleftrightarrow> (\<exists>x. m = Inr x \<and> f x = Inr y)"
  by (cases m) auto

lemma obind_Inl_iff:
  "obind m f = Inl e \<longleftrightarrow> m = Inl e \<or> (\<exists>x. m = Inr x \<and> f x = Inl e)"
  by (cases m) auto

lemma obind_assoc: "obind (obind m f) g = obind m (\<lambda>x. obind (f x) g)"
  by (cases m) auto

lemma obind_cong [fundef_cong]:
  "m = m' \<Longrightarrow> (\<And>x. m' = Inr x \<Longrightarrow> f x = g x) \<Longrightarrow> obind m f = obind m' g"
  by (cases m') auto

lemma require_Inr [res_simps]: "require e b = Inr u \<longleftrightarrow> b"
  by (simp add: require_def)

lemma require_True [res_simps]: "b \<Longrightarrow> require e b = Inr ()"
  by (simp add: require_def)

section \<open>Heaps of nodes\<close>

text \<open>
  The nodes a structure has allocated, in allocation order: an address is a
  position of the list, a C pointer is \<open>None\<close> (null) or \<open>Some\<close> of an address.
\<close>

type_synonym ptr = "nat option"

definition deref :: "'n list \<Rightarrow> ptr \<Rightarrow> 'n res" where
  "deref h p = (case p of None \<Rightarrow> Inl NullDeref
     | Some a \<Rightarrow> if a < length h then Inr (h ! a) else Inl Dangling)"

definition update_at :: "'n list \<Rightarrow> ptr \<Rightarrow> ('n \<Rightarrow> 'n) \<Rightarrow> 'n list res" where
  "update_at h p g = (case p of None \<Rightarrow> Inl NullDeref
     | Some a \<Rightarrow> if a < length h then Inr (h[a := g (h ! a)]) else Inl Dangling)"

lemma deref_Some [res_simps]: "a < length h \<Longrightarrow> deref h (Some a) = Inr (h ! a)"
  by (simp add: deref_def)

lemma deref_None [res_simps]: "deref h None = Inl NullDeref"
  by (simp add: deref_def)

lemma deref_Inr_iff:
  "deref h p = Inr n \<longleftrightarrow> (\<exists>a. p = Some a \<and> a < length h \<and> n = h ! a)"
  by (auto simp: deref_def split: option.splits if_splits)

lemma update_at_Some [res_simps]:
  "a < length h \<Longrightarrow> update_at h (Some a) g = Inr (h[a := g (h ! a)])"
  by (simp add: update_at_def)

lemma update_at_Inr_iff:
  "update_at h p g = Inr h' \<longleftrightarrow>
     (\<exists>a. p = Some a \<and> a < length h \<and> h' = h[a := g (h ! a)])"
  by (auto simp: update_at_def split: option.splits if_splits)

text \<open>Arrays with checked indices.\<close>

definition aref :: "'a list \<Rightarrow> nat \<Rightarrow> 'a res" where
  "aref xs i = (if i < length xs then Inr (xs ! i) else Inl OutOfBounds)"

definition aset :: "'a list \<Rightarrow> nat \<Rightarrow> 'a \<Rightarrow> 'a list res" where
  "aset xs i x = (if i < length xs then Inr (xs[i := x]) else Inl OutOfBounds)"

lemma aref_in [res_simps]: "i < length xs \<Longrightarrow> aref xs i = Inr (xs ! i)"
  by (simp add: aref_def)

lemma aset_in [res_simps]: "i < length xs \<Longrightarrow> aset xs i x = Inr (xs[i := x])"
  by (simp add: aset_def)

text \<open>A field of the nodes as a function of the address, with a default outside the heap.\<close>

definition fld :: "('n \<Rightarrow> 'f) \<Rightarrow> 'f \<Rightarrow> 'n list \<Rightarrow> nat \<Rightarrow> 'f" where
  "fld g d h a = (if a < length h then g (h ! a) else d)"

lemma fld_in [simp]: "a < length h \<Longrightarrow> fld g d h a = g (h ! a)"
  by (simp add: fld_def)

lemma fld_update: "a < length h \<Longrightarrow> fld g d (h[a := x]) = (fld g d h)(a := g x)"
  by (auto simp: fld_def fun_eq_iff nth_list_update)

lemma fld_update_same: "g x = g (h ! a) \<Longrightarrow> fld g d (h[a := x]) = fld g d h"
  by (cases "a < length h") (auto simp: fld_update list_update_beyond)

lemma fld_append: "fld g d (h @ [x]) = (fld g d h)(length h := g x)"
  by (auto simp: fld_def fun_eq_iff nth_append)

lemma fld_map: "(\<And>x. g (f x) = g' x) \<Longrightarrow> fld g d (map f h) = fld g' d h"
  by (auto simp: fld_def fun_eq_iff)

text \<open>A heap operation that does not look at what \<open>c\<close> changes in the nodes.\<close>

definition commutes :: "('h \<Rightarrow> 'h) \<Rightarrow> ('h \<Rightarrow> 'h res) \<Rightarrow> bool" where
  "commutes c f \<longleftrightarrow> (\<forall>h. f (c h) = obind (f h) (\<lambda>h'. Inr (c h')))"

lemma commutesD: "commutes c f \<Longrightarrow> f (c h) = obind (f h) (\<lambda>h'. Inr (c h'))"
  by (simp add: commutes_def)

lemma commutes_run: "commutes c f \<Longrightarrow> f h = Inr h' \<Longrightarrow> f (c h) = Inr (c h')"
  by (simp add: commutes_def)

lemma commutes_Inr [simp]: "commutes c Inr"
  by (simp add: commutes_def)

lemma commutes_obind:
  "commutes c f \<Longrightarrow> commutes c g \<Longrightarrow> commutes c (\<lambda>h. obind (f h) g)"
  by (simp add: commutes_def obind_assoc)

lemma commutes_read:
  "(\<And>h. r (c h) = r h) \<Longrightarrow> (\<And>x. commutes c (g x)) \<Longrightarrow> commutes c (\<lambda>h. obind (r h) (\<lambda>x. g x h))"
  by (simp add: commutes_def obind_assoc)

section \<open>Signed 64-bit arithmetic\<close>

text \<open>\<open>long long\<close> as an integer, with the wrap-around of the atomic increment written out.\<close>

definition LLONG_MAX :: int where
  "LLONG_MAX = 2 ^ 63 - 1"

definition ll_wrap :: "int \<Rightarrow> int" where
  "ll_wrap x = (x + 2 ^ 63) mod 2 ^ 64 - 2 ^ 63"

lemma ll_wrap_id: "- (2 ^ 63) \<le> x \<Longrightarrow> x \<le> LLONG_MAX \<Longrightarrow> ll_wrap x = x"
  unfolding ll_wrap_def LLONG_MAX_def by (subst mod_pos_pos_trivial) auto

lemma ll_wrap_range: "- (2 ^ 63) \<le> ll_wrap x \<and> ll_wrap x \<le> LLONG_MAX"
  unfolding ll_wrap_def LLONG_MAX_def
  using pos_mod_bound [of "2 ^ 64" "x + 2 ^ 63"] pos_mod_sign [of "2 ^ 64" "x + 2 ^ 63"]
  by simp

text \<open>The conversion of a wide integer to a 32-bit \<open>int\<close>.\<close>

definition INT_MAX :: int where
  "INT_MAX = 2 ^ 31 - 1"

definition int_wrap :: "int \<Rightarrow> int" where
  "int_wrap x = (x + 2 ^ 31) mod 2 ^ 32 - 2 ^ 31"

lemma int_wrap_id: "- (2 ^ 31) \<le> x \<Longrightarrow> x \<le> INT_MAX \<Longrightarrow> int_wrap x = x"
  unfolding int_wrap_def INT_MAX_def by (subst mod_pos_pos_trivial) auto

section \<open>Linked paths\<close>

text \<open>A list of addresses, each the successor of the one before it.\<close>

abbreviation linked :: "(nat \<Rightarrow> nat option) \<Rightarrow> nat list \<Rightarrow> bool" where
  "linked f \<equiv> successively (\<lambda>x y. f x = Some y)"

lemma linked_mid [path_simps]:
  "linked f (xs @ p # c # ys) \<longleftrightarrow> linked f (xs @ [p]) \<and> f p = Some c \<and> linked f (c # ys)"
  by (induction xs rule: induct_list012) auto

lemma linked_split:
  "linked f (xs @ p # ys) \<longleftrightarrow> linked f (xs @ [p]) \<and> linked f (p # ys)"
  by (induction xs rule: induct_list012) auto

lemma linked_cong:
  assumes "\<And>x. x \<in> set (butlast xs) \<Longrightarrow> f x = g x"
  shows "linked f xs = linked g xs"
  using assms by (induction xs rule: induct_list012) auto

lemma linked_cong_set:
  "(\<And>x. x \<in> set xs \<Longrightarrow> f x = g x) \<Longrightarrow> linked f xs = linked g xs"
  by (rule linked_cong) (auto dest: in_set_butlastD)

text \<open>The nodes met by following a successor function, with fuel.\<close>

fun walk :: "nat \<Rightarrow> (nat \<Rightarrow> nat option) \<Rightarrow> nat \<Rightarrow> nat list" where
  "walk 0 f a = []"
| "walk (Suc n) f a = a # (case f a of None \<Rightarrow> [] | Some b \<Rightarrow> walk n f b)"

lemma walk_linked:
  assumes "linked f (a # xs)" "f (last (a # xs)) = None" "length xs < n"
  shows "walk n f a = a # xs"
  using assms
proof (induction xs arbitrary: a n)
  case Nil
  then show ?case by (cases n) auto
next
  case (Cons b xs)
  then obtain m where n: "n = Suc m" by (cases n) auto
  have "walk m f b = b # xs" using Cons n by auto
  then show ?case using Cons n by auto
qed

lemma linked_unique:
  assumes "linked f (a # xs)" "f (last (a # xs)) = None"
    and "linked f (a # ys)" "f (last (a # ys)) = None"
  shows "xs = ys"
proof -
  let ?n = "Suc (length xs + length ys)"
  have "walk ?n f a = a # xs" by (rule walk_linked) (use assms in auto)
  moreover have "walk ?n f a = a # ys" by (rule walk_linked) (use assms in auto)
  ultimately show ?thesis by simp
qed

lemma distinct_bounded_length:
  assumes "distinct xs" "\<forall>x\<in>set xs. x < n"
  shows "length xs \<le> n"
proof -
  have "card (set xs) \<le> card {..<n}" using assms(2) by (intro card_mono) auto
  with assms(1) show ?thesis by (simp add: distinct_card)
qed

section \<open>Strictly sorted key lists\<close>

abbreviation ksorted :: "('a \<Rightarrow> int) \<Rightarrow> 'a list \<Rightarrow> bool" where
  "ksorted k xs \<equiv> sorted_wrt (\<lambda>x y. k x < k y) xs"

lemma ksorted_distinct: "ksorted k xs \<Longrightarrow> distinct xs"
  by (induction xs) auto

lemma ksorted_distinct_keys: "ksorted k xs \<Longrightarrow> distinct (map k xs)"
  by (induction xs) auto

lemma ksorted_inj: "ksorted k xs \<Longrightarrow> inj_on k (set xs)"
  using ksorted_distinct_keys by (auto simp: distinct_map)

lemma ksorted_length: "ksorted k xs \<Longrightarrow> \<forall>x\<in>set xs. x < n \<Longrightarrow> length xs \<le> (n::nat)"
  by (rule distinct_bounded_length) (auto dest: ksorted_distinct)

lemma ksorted_split:
  assumes "ksorted k (a # xs)" "k a < x" "x \<le> k (last (a # xs))"
  obtains us p c vs where "a # xs = us @ p # c # vs" "k p < x" "x \<le> k c"
  using assms
proof (induction xs arbitrary: a thesis)
  case Nil
  then show ?case by simp
next
  case (Cons b xs)
  show ?case
  proof (cases "k b < x")
    case True
    have *: "ksorted k (b # xs)" "x \<le> k (last (b # xs))" using Cons.prems by auto
    obtain us p c vs where "b # xs = us @ p # c # vs" "k p < x" "x \<le> k c"
      using Cons.IH [OF _ *(1) True *(2)] by metis
    then show ?thesis using Cons.prems(1) [of "a # us" p c vs] by simp
  next
    case False
    then show ?thesis using Cons.prems(1) [of "[]" a b xs] Cons.prems(3) by simp
  qed
qed

lemma ksorted_before:
  "ksorted k (us @ p # vs) \<Longrightarrow> x \<in> set us \<Longrightarrow> k x < k p"
  by (auto simp: sorted_wrt_append)

lemma ksorted_after:
  "ksorted k (us @ p # vs) \<Longrightarrow> x \<in> set vs \<Longrightarrow> k p < k x"
  by (auto simp: sorted_wrt_append)

section \<open>Abstract dictionaries\<close>

text \<open>
  What the ordered structures implement: a list of key-value pairs, strictly sorted by
  key. Insertion is "if absent", as every bundled structure's is.
\<close>

type_synonym dict = "(int \<times> int) list"

fun ins_kv :: "int \<Rightarrow> int \<Rightarrow> dict \<Rightarrow> dict" where
  "ins_kv k v [] = [(k, v)]"
| "ins_kv k v (e # es) =
     (if k < fst e then (k, v) # e # es else if k = fst e then e # es else e # ins_kv k v es)"

definition del_kv :: "int \<Rightarrow> dict \<Rightarrow> dict" where
  "del_kv k = filter (\<lambda>e. fst e \<noteq> k)"

definition range_kv :: "int \<Rightarrow> int \<Rightarrow> dict \<Rightarrow> dict" where
  "range_kv lo hi = filter (\<lambda>e. lo \<le> fst e \<and> fst e \<le> hi)"

lemma map_of_ins_kv:
  "ksorted fst es \<Longrightarrow>
     map_of (ins_kv k v es) x = (if x = k \<and> map_of es k = None then Some v else map_of es x)"
proof (induction es)
  case Nil
  then show ?case by simp
next
  case (Cons e es)
  have "k < fst e \<Longrightarrow> map_of es k = None"
    using Cons.prems by (auto simp: map_of_eq_None_iff)
  then show ?case using Cons by (cases e) auto
qed

lemma map_of_del_kv: "map_of (del_kv k es) x = (if x = k then None else map_of es x)"
  by (induction es) (auto simp: del_kv_def)

lemma ins_kv_between:
  assumes "\<forall>e\<in>set es. fst e < k" "\<forall>e\<in>set fs. k < fst e"
  shows "ins_kv k v (es @ fs) = es @ (k, v) # fs"
  using assms
proof (induction es)
  case Nil
  then show ?case by (cases fs) auto
next
  case (Cons e es)
  then show ?case by auto
qed

lemma ins_kv_present: "ksorted fst es \<Longrightarrow> k \<in> fst ` set es \<Longrightarrow> ins_kv k v es = es"
  by (induction es) auto

lemma del_kv_between:
  assumes "\<forall>e\<in>set es. fst e < k" "\<forall>e\<in>set fs. k < fst e"
  shows "del_kv k (es @ (k, v) # fs) = es @ fs"
proof -
  have "filter (\<lambda>e. fst e \<noteq> k) es = es" "filter (\<lambda>e. fst e \<noteq> k) fs = fs"
    using assms by (auto intro!: filter_True)
  then show ?thesis by (simp add: del_kv_def)
qed

lemma keys_apart:
  "\<forall>e\<in>set es. fst e < k \<Longrightarrow> \<forall>e\<in>set fs. k < fst e \<Longrightarrow> k \<notin> fst ` set (es @ fs)" for k :: int
  by force

lemma del_kv_absent: "k \<notin> fst ` set es \<Longrightarrow> del_kv k es = es"
  by (auto simp: del_kv_def intro!: filter_True)

end
