(* ===== verification/Versioned_Cell.thy ===== *)
theory Versioned_Cell
  imports Prelude
begin

text \<open>
  The contract that range queries rely on, whatever implements it: a cell that keeps
  the values a reference had, each with the timestamp from which it is valid. Reading
  a cell at a time returns the newest value not younger than that time. The linked
  and the circular bundle both provide it; every claim that an old snapshot stays
  readable while the structure is updated is proved here, once.
\<close>

type_synonym timestamp_t = int

text \<open>A pointer read from a cell; a cell with no version that old has no successor.\<close>

definition succ_of :: "ptr option \<Rightarrow> ptr" where
  "succ_of r = (case r of None \<Rightarrow> None | Some q \<Rightarrow> q)"

lemma succ_of_simps [simp]: "succ_of None = None" "succ_of (Some q) = q"
  by (simp_all add: succ_of_def)

locale versioned_cell =
  fixes stamp :: "timestamp_t \<Rightarrow> bool"
    and valid :: "'b \<Rightarrow> bool"
    and newest :: "'b \<Rightarrow> timestamp_t"
    and read :: "'b \<Rightarrow> timestamp_t \<Rightarrow> 'p option"
    and push :: "timestamp_t \<Rightarrow> 'p \<Rightarrow> 'b \<Rightarrow> 'b"
  assumes valid_push: "valid b \<Longrightarrow> stamp t \<Longrightarrow> newest b \<le> t \<Longrightarrow> valid (push t p b)"
    and newest_push: "valid b \<Longrightarrow> newest (push t p b) = t"
    and read_push: "valid b \<Longrightarrow> newest b \<le> t \<Longrightarrow>
      read (push t p b) u = (if t \<le> u then Some p else read b u)"
begin

lemma read_push_old:
  "valid b \<Longrightarrow> newest b \<le> t \<Longrightarrow> u < t \<Longrightarrow> read (push t p b) u = read b u"
  by (simp add: read_push)

lemma read_push_new:
  "valid b \<Longrightarrow> newest b \<le> t \<Longrightarrow> t \<le> u \<Longrightarrow> read (push t p b) u = Some p"
  by (simp add: read_push)

text \<open>
  A heap of cells in which some cells have received a new version at time \<open>t\<close> reads
  the same at every earlier time.
\<close>

lemma snapshot_stable:
  assumes "\<And>a. a \<in> A \<Longrightarrow> C' a = C a \<or>
      (\<exists>p. C' a = push t p (C a) \<and> valid (C a) \<and> newest (C a) \<le> t)"
    and "u < t" and "a \<in> A"
  shows "read (C' a) u = read (C a) u"
  using assms(1) [OF assms(3)] assms(2) by (auto simp: read_push)

end

text \<open>Cells whose old versions can be given back, down to a time that is still needed.\<close>

locale reclaimable_cell = versioned_cell +
  fixes reclaim :: "timestamp_t \<Rightarrow> 'a \<Rightarrow> 'a"
  assumes valid_reclaim: "valid b \<Longrightarrow> valid (reclaim t b)"
    and newest_reclaim: "valid b \<Longrightarrow> newest (reclaim t b) = newest b"
    and read_reclaim: "valid b \<Longrightarrow> t \<le> u \<Longrightarrow> read (reclaim t b) u = read b u"
begin

lemma read_push_reclaim:
  assumes "valid b" "newest b \<le> t" "t0 \<le> u"
  shows "read (push t p (reclaim t0 b)) u = read (push t p b) u"
  using assms by (simp add: read_push read_reclaim valid_reclaim newest_reclaim)

text \<open>Reclaiming any number of times leaves the reads that are still needed alone.\<close>

lemma read_reclaims:
  assumes "valid b" "\<forall>t\<in>set ts. t \<le> u"
  shows "valid (fold reclaim ts b) \<and> read (fold reclaim ts b) u = read b u"
  using assms by (induction ts arbitrary: b) (auto simp: read_reclaim valid_reclaim)

end

end
