(* ===== verification/Linked_Bundle.thy ===== *)
theory Linked_Bundle
  imports Versioned_Cell
begin

text \<open>
  The linked bundle of \<open>bundle/linked_bundle.h\<close> with the timestamps of
  \<open>bundle/common_bundle.h\<close>. A bundle is its list of entries, head first; \<open>next_\<close> of
  an entry is the rest of the list and the null head is the empty list. A wait for a
  pending entry, which only the updating thread can end, is \<open>Blocked\<close>.
\<close>

section \<open>Timestamps and entries\<close>

definition BUNDLE_PENDING_TIMESTAMP :: timestamp_t where
  "BUNDLE_PENDING_TIMESTAMP = LLONG_MAX"

definition BUNDLE_NULL_TIMESTAMP :: timestamp_t where
  "BUNDLE_NULL_TIMESTAMP = 0"

definition BUNDLE_MIN_TIMESTAMP :: timestamp_t where
  "BUNDLE_MIN_TIMESTAMP = 1"

definition BUNDLE_MAX_TIMESTAMP :: timestamp_t where
  "BUNDLE_MAX_TIMESTAMP = LLONG_MAX - 1"

lemmas timestamp_defs = BUNDLE_PENDING_TIMESTAMP_def BUNDLE_NULL_TIMESTAMP_def
  BUNDLE_MIN_TIMESTAMP_def BUNDLE_MAX_TIMESTAMP_def LLONG_MAX_def

record 'p bundle_entry =
  entry_ts :: timestamp_t
  entry_ptr :: "'p"
  deleted_ts :: timestamp_t

type_synonym 'p bundle_t = "'p bundle_entry list"

definition BundleEntry :: "timestamp_t \<Rightarrow> 'p \<Rightarrow> 'p bundle_entry" where
  "BundleEntry ts p = \<lparr>entry_ts = ts, entry_ptr = p, deleted_ts = BUNDLE_NULL_TIMESTAMP\<rparr>"

definition mark_entry :: "timestamp_t \<Rightarrow> 'p bundle_entry \<Rightarrow> 'p bundle_entry" where
  "mark_entry ts e = e\<lparr>deleted_ts := ts\<rparr>"

definition pending :: "'p bundle_entry \<Rightarrow> bool" where
  "pending e \<longleftrightarrow> entry_ts e = BUNDLE_PENDING_TIMESTAMP"

lemma BundleEntry_sel [simp]: "entry_ts (BundleEntry t p) = t" "entry_ptr (BundleEntry t p) = p"
  by (simp_all add: BundleEntry_def)

text \<open>\<open>BundleEntry::validate\<close>: reads \<open>next_\<close> without a null check.\<close>

definition validate_entry :: "'p bundle_entry \<Rightarrow> 'p bundle_t \<Rightarrow> unit res" where
  "validate_entry e nxt = (case nxt of [] \<Rightarrow> Inl NullDeref
     | n # _ \<Rightarrow> if entry_ts e < entry_ts n then Inl Exit else Inr ())"

section \<open>Operations\<close>

definition init_bundle :: "'p bundle_t" where
  "init_bundle = []"

text \<open>The destructor: the entries it deletes, in order, and the list it leaves.\<close>

fun destroy_bundle :: "'p bundle_t \<Rightarrow> 'p bundle_entry list \<times> 'p bundle_t" where
  "destroy_bundle [] = ([], [])"
| "destroy_bundle (cur # nxt) = (let (ds, b) = destroy_bundle nxt in (cur # ds, b))"

text \<open>\<open>prepare\<close> of the locked build: link a pending entry in front.\<close>

definition prepare :: "'p \<Rightarrow> 'p bundle_t \<Rightarrow> 'p bundle_t" where
  "prepare p b = BundleEntry BUNDLE_PENDING_TIMESTAMP p # b"

text \<open>
  \<open>prepare\<close> under \<open>BUNDLE_LOCKFREE\<close>: the head must exist and must not be pending,
  or the loop spins until another thread finalizes it.
\<close>

definition prepare_lockfree :: "'p \<Rightarrow> 'p bundle_t \<Rightarrow> 'p bundle_t res" where
  "prepare_lockfree p b = (case b of [] \<Rightarrow> Inl NullDeref
     | expected # _ \<Rightarrow> if entry_ts expected \<noteq> BUNDLE_PENDING_TIMESTAMP
         then Inr (BundleEntry BUNDLE_PENDING_TIMESTAMP p # b) else Inl Blocked)"

definition finalize :: "timestamp_t \<Rightarrow> 'p bundle_t \<Rightarrow> 'p bundle_t res" where
  "finalize ts b =
     (if ts = BUNDLE_PENDING_TIMESTAMP then Inl AssertFail
      else case b of [] \<Rightarrow> Inl NullDeref
        | e # es \<Rightarrow> if entry_ts e = BUNDLE_PENDING_TIMESTAMP then Inr (e\<lparr>entry_ts := ts\<rparr> # es)
            else Inl AssertFail)"

definition getPtr :: "'p bundle_t \<Rightarrow> 'p res" where
  "getPtr b = (case b of [] \<Rightarrow> Inl NullDeref
     | cur # _ \<Rightarrow> if entry_ts cur \<noteq> BUNDLE_PENDING_TIMESTAMP then Inr (entry_ptr cur)
         else Inl Blocked)"

text \<open>The traversal at the end of \<open>getPtrByTimestamp\<close>; \<open>None\<close> is its \<open>return false\<close>.\<close>

fun skip_newer :: "timestamp_t \<Rightarrow> 'p bundle_t \<Rightarrow> 'p option res" where
  "skip_newer ts [] = Inr None"
| "skip_newer ts (cur # nxt) =
     (if entry_ts cur > ts
      then (if entry_ts cur = BUNDLE_NULL_TIMESTAMP then Inl AssertFail else skip_newer ts nxt)
      else Inr (Some (entry_ptr cur)))"

definition getPtrByTimestamp :: "timestamp_t \<Rightarrow> 'p bundle_t \<Rightarrow> 'p option res" where
  "getPtrByTimestamp ts b = (case b of [] \<Rightarrow> Inl AssertFail
     | cur # nxt \<Rightarrow>
        if entry_ts cur \<le> ts then Inr (Some (entry_ptr cur))
        else (case nxt of
            [] \<Rightarrow> if entry_ts cur = BUNDLE_PENDING_TIMESTAMP then Inl Blocked else skip_newer ts b
          | second # _ \<Rightarrow>
              if entry_ts second = ts then Inr (Some (entry_ptr second))
              else if entry_ts second > ts then skip_newer ts nxt
              else if entry_ts cur = BUNDLE_PENDING_TIMESTAMP then Inl Blocked
              else skip_newer ts b))"

text \<open>
  \<open>reclaimEntries\<close> returns the entries that stay linked and the entries it marks and
  deletes. \<open>reclaim_from\<close> is its search and the unlinking, from the first entry that
  is not pending.
\<close>

fun reclaim_from :: "timestamp_t \<Rightarrow> 'p bundle_entry \<Rightarrow> 'p bundle_t \<Rightarrow> 'p bundle_t \<times> 'p bundle_t" where
  "reclaim_from ts pred [] = ([pred], [])"
| "reclaim_from ts pred (cur # nxt) =
     (if entry_ts pred > ts
      then (let (keep, freed) = reclaim_from ts cur nxt in (pred # keep, freed))
      else ([pred], map (mark_entry ts) (cur # nxt)))"

definition reclaimEntries :: "timestamp_t \<Rightarrow> 'p bundle_t \<Rightarrow> 'p bundle_t \<times> 'p bundle_t" where
  "reclaimEntries ts b = (case b of [] \<Rightarrow> ([], [])
     | h # nxt \<Rightarrow>
        if entry_ts h = BUNDLE_PENDING_TIMESTAMP
        then (case nxt of [] \<Rightarrow> (b, [])
          | pred # rest \<Rightarrow>
              (let (keep, freed) = reclaim_from ts pred rest in (h # keep, freed)))
        else reclaim_from ts h nxt)"

fun size_bundle :: "'p bundle_t \<Rightarrow> nat" where
  "size_bundle [] = 0"
| "size_bundle (cur # nxt) = Suc (size_bundle nxt)"

definition first_bundle :: "'p bundle_t \<Rightarrow> ('p \<times> timestamp_t) res" where
  "first_bundle b = (case b of [] \<Rightarrow> Inl NullDeref | e # _ \<Rightarrow> Inr (entry_ptr e, entry_ts e))"

definition get_bundle :: "'p bundle_t \<Rightarrow> ('p \<times> timestamp_t) list \<times> nat" where
  "get_bundle b = (map (\<lambda>e. (entry_ptr e, entry_ts e)) b, size_bundle b)"

section \<open>What a bundle promises\<close>

text \<open>
  The reference the bundle held at a time: the first entry, from the newest, that is
  not younger. This is the specification that \<open>getPtrByTimestamp\<close> implements with its
  shortcut through the second entry.
\<close>

definition read_at :: "'p bundle_t \<Rightarrow> timestamp_t \<Rightarrow> 'p option" where
  "read_at b ts = map_option entry_ptr (find (\<lambda>e. entry_ts e \<le> ts) b)"

text \<open>Timestamps fall along the list and are proper ones.\<close>

definition bundle_ok :: "'p bundle_t \<Rightarrow> bool" where
  "bundle_ok b \<longleftrightarrow> sorted_wrt (\<lambda>x y. entry_ts y \<le> entry_ts x) b \<and>
     (\<forall>e\<in>set b. BUNDLE_NULL_TIMESTAMP < entry_ts e \<and> entry_ts e < BUNDLE_PENDING_TIMESTAMP)"

definition newest_ts :: "'p bundle_t \<Rightarrow> timestamp_t" where
  "newest_ts b = (case b of [] \<Rightarrow> BUNDLE_NULL_TIMESTAMP | e # _ \<Rightarrow> entry_ts e)"

definition push_entry :: "timestamp_t \<Rightarrow> 'p \<Rightarrow> 'p bundle_t \<Rightarrow> 'p bundle_t" where
  "push_entry ts p b = BundleEntry ts p # b"

lemma bundle_ok_Nil [simp]: "bundle_ok []"
  by (simp add: bundle_ok_def)

lemma bundle_ok_Cons [simp]:
  "bundle_ok (e # b) \<longleftrightarrow> 0 < entry_ts e \<and> entry_ts e < LLONG_MAX \<and> (\<forall>x\<in>set b. entry_ts x \<le> entry_ts e) \<and> bundle_ok b"
  by (auto simp: bundle_ok_def timestamp_defs)

lemma newest_ts_simps [simp]: "newest_ts [] = 0" "newest_ts (e # b) = entry_ts e"
  by (simp_all add: newest_ts_def timestamp_defs)

lemma bundle_ok_le_newest: "bundle_ok b \<Longrightarrow> e \<in> set b \<Longrightarrow> entry_ts e \<le> newest_ts b"
  by (cases b) auto

lemma read_at_simps [simp]:
  "read_at [] u = None"
  "read_at (e # b) u = (if entry_ts e \<le> u then Some (entry_ptr e) else read_at b u)"
  by (simp_all add: read_at_def)

lemma finalize_prepare:
  "t \<noteq> BUNDLE_PENDING_TIMESTAMP \<Longrightarrow> finalize t (prepare p b) = Inr (push_entry t p b)"
  by (simp add: finalize_def prepare_def push_entry_def BundleEntry_def)

lemma newest_push_entry [simp]: "newest_ts (push_entry t p b) = t"
  by (simp add: push_entry_def)

lemma bundle_ok_push:
  "bundle_ok b \<Longrightarrow> 0 < t \<Longrightarrow> t < LLONG_MAX \<Longrightarrow> newest_ts b \<le> t \<Longrightarrow> bundle_ok (push_entry t p b)"
  by (fastforce simp: push_entry_def dest: bundle_ok_le_newest)

lemma read_push_entry [simp]:
  "read_at (push_entry t p b) u = (if t \<le> u then Some p else read_at b u)"
  by (simp add: push_entry_def)

section \<open>Lookup by timestamp\<close>

lemma skip_newer_correct:
  "\<forall>e\<in>set b. BUNDLE_NULL_TIMESTAMP < entry_ts e \<Longrightarrow> skip_newer u b = Inr (read_at b u)"
  by (induction b) (auto simp: timestamp_defs)

lemma bundle_ok_pos: "bundle_ok b \<Longrightarrow> \<forall>e\<in>set b. BUNDLE_NULL_TIMESTAMP < entry_ts e"
  by (simp add: bundle_ok_def)

lemma read_at_newest: "b \<noteq> [] \<Longrightarrow> newest_ts b \<le> u \<Longrightarrow> read_at b u = Some (entry_ptr (hd b))"
  by (cases b) auto

lemma read_at_None_iff: "read_at b u = None \<longleftrightarrow> (\<forall>e\<in>set b. u < entry_ts e)"
  by (induction b) auto

lemma read_at_Some_mem: "read_at b u = Some q \<Longrightarrow> \<exists>e\<in>set b. entry_ptr e = q \<and> entry_ts e \<le> u"
  by (induction b) (auto split: if_splits)

lemma getPtrByTimestamp_read:
  assumes "bundle_ok b" "b \<noteq> []"
  shows "getPtrByTimestamp u b = Inr (read_at b u)"
proof (cases b)
  case (Cons c r)
  have "skip_newer u b = Inr (read_at b u)" "skip_newer u r = Inr (read_at r u)"
    using assms Cons by (auto intro!: skip_newer_correct simp: timestamp_defs bundle_ok_def)
  then show ?thesis
    using assms Cons
    by (cases r) (auto simp: getPtrByTimestamp_def timestamp_defs)
qed (use assms in simp)

text \<open>
  C9: On a finalized bundle, \<open>getPtrByTimestamp\<close> (with its shortcut through the second
  entry) returns exactly the reference that was valid at the requested time, and
  \<open>false\<close> exactly when the bundle has no entry that old; no assertion fires.
\<close>

theorem getPtrByTimestamp_correct:
  assumes "bundle_ok b" "b \<noteq> []"
  shows "getPtrByTimestamp u b = Inr (read_at b u)"
  using assms by (rule getPtrByTimestamp_read)

theorem getPtrByTimestamp_correct_witness:
  "getPtrByTimestamp 4 [BundleEntry 5 ''c'', BundleEntry 3 ''b'', BundleEntry 1 ''a''] = Inr (Some ''b'')"
proof -
  have "bundle_ok [BundleEntry 5 ''c'', BundleEntry 3 ''b'', BundleEntry 1 ''a'']"
    by (simp add: LLONG_MAX_def)
  from getPtrByTimestamp_correct [OF this, of 4] show ?thesis by simp
qed

lemma getPtrByTimestamp_pending_cases:
  assumes "bundle_ok b" "u < BUNDLE_PENDING_TIMESTAMP"
  shows "getPtrByTimestamp u (prepare p b) =
    (if b \<noteq> [] \<and> u \<le> newest_ts b then Inr (read_at b u) else Inl Blocked)"
  using assms skip_newer_correct [OF bundle_ok_pos [OF assms(1)], of u]
  by (cases b) (auto simp: getPtrByTimestamp_def prepare_def timestamp_defs)

lemma pending_blocks_iff:
  assumes "bundle_ok b" "u < BUNDLE_PENDING_TIMESTAMP"
  shows "getPtrByTimestamp u (prepare p b) = Inl Blocked \<longleftrightarrow> (\<forall>e\<in>set b. entry_ts e < u)"
proof (cases b)
  case Nil
  then show ?thesis using assms by (simp add: getPtrByTimestamp_pending_cases)
next
  case (Cons c r)
  then show ?thesis using assms
    by (auto simp: getPtrByTimestamp_pending_cases dest: bundle_ok_le_newest)
qed

text \<open>
  C10: While an update is pending, a range query at time \<open>u\<close> waits exactly when the
  pending entry could still become visible at \<open>u\<close> (every finalized entry is older than
  \<open>u\<close>); otherwise it reads on without waiting.
\<close>

theorem getPtrByTimestamp_blocks_iff:
  assumes "bundle_ok b" "u < BUNDLE_PENDING_TIMESTAMP"
  shows "getPtrByTimestamp u (prepare p b) = Inl Blocked \<longleftrightarrow> (\<forall>e\<in>set b. entry_ts e < u)"
  using assms by (rule pending_blocks_iff)

theorem getPtrByTimestamp_blocks_iff_witness:
  "getPtrByTimestamp 4 (prepare ''n'' [BundleEntry 3 ''b'']) = Inl Blocked"
  using getPtrByTimestamp_blocks_iff [of "[BundleEntry 3 ''b'']" 4 "''n''"]
  by (simp add: timestamp_defs)

text \<open>
  What a range query reads past a pending entry is what it would read after the
  update: whatever timestamp \<open>f\<close> above the bundle's newest one the update is finalized
  with, the answer given before is the answer of the finalized bundle.
\<close>

theorem getPtrByTimestamp_pending_safe:
  assumes "bundle_ok b" "u < BUNDLE_PENDING_TIMESTAMP"
    and "getPtrByTimestamp u (prepare p b) = Inr r"
    and "newest_ts b < f" "f < BUNDLE_PENDING_TIMESTAMP"
  shows "\<exists>b'. finalize f (prepare p b) = Inr b' \<and> getPtrByTimestamp u b' = Inr r"
proof -
  have u: "u \<le> newest_ts b" and r: "r = read_at b u" and b: "b \<noteq> []"
    using assms(1-3) by (auto simp: getPtrByTimestamp_pending_cases split: if_splits)
  have "0 < newest_ts b" using assms(1) b by (cases b) auto
  then have ok: "bundle_ok (push_entry f p b)"
    using assms by (intro bundle_ok_push) (auto simp: timestamp_defs)
  have "getPtrByTimestamp u (push_entry f p b) = Inr (read_at (push_entry f p b) u)"
    by (rule getPtrByTimestamp_read [OF ok]) (simp add: push_entry_def)
  moreover have "finalize f (prepare p b) = Inr (push_entry f p b)"
    using assms(5) by (intro finalize_prepare) (simp add: timestamp_defs)
  ultimately show ?thesis using u r assms(4) by auto
qed

theorem getPtrByTimestamp_pending_safe_witness:
  "\<exists>b'. finalize 9 (prepare ''n'' [BundleEntry 5 ''c'', BundleEntry 3 ''b'']) = Inr b'
     \<and> getPtrByTimestamp 4 b' = Inr (Some ''b'')"
proof -
  have ok: "bundle_ok [BundleEntry 5 ''c'', BundleEntry 3 ''b'']"
    by (simp add: LLONG_MAX_def)
  have "getPtrByTimestamp 4 (prepare ''n'' [BundleEntry 5 ''c'', BundleEntry 3 ''b'']) = Inr (Some ''b'')"
    by (simp add: getPtrByTimestamp_def prepare_def timestamp_defs)
  from getPtrByTimestamp_pending_safe [OF ok _ this, of 9] show ?thesis
    by (simp add: timestamp_defs)
qed

text \<open>
  The strict inequality is needed. In a build where range queries advance the clock
  (\<open>BUNDLE_RQTS\<close>), two updates of one bundle may carry the same timestamp; then the test
  \<open>second_ts == ts\<close> answers with the old reference although the pending update becomes
  visible at that very time.
\<close>

theorem getPtrByTimestamp_equal_stamp_counterexample:
  "\<exists>b p q u b'. bundle_ok b \<and> newest_ts b \<le> u \<and> p \<noteq> q
     \<and> getPtrByTimestamp u (prepare p b) = Inr (Some (q :: nat))
     \<and> finalize u (prepare p b) = Inr b' \<and> getPtrByTimestamp u b' = Inr (Some p)"
proof (intro exI conjI)
  let ?b = "[BundleEntry 5 (1 :: nat)]"
  show "bundle_ok ?b" by (simp add: LLONG_MAX_def)
  show "newest_ts ?b \<le> 5" by simp
  show "(2 :: nat) \<noteq> 1" by simp
  show "getPtrByTimestamp 5 (prepare 2 ?b) = Inr (Some 1)"
    by (simp add: getPtrByTimestamp_def prepare_def timestamp_defs)
  show "finalize 5 (prepare 2 ?b) = Inr [BundleEntry 5 2, BundleEntry 5 1]"
    by (simp add: finalize_def prepare_def BundleEntry_def timestamp_defs)
  show "getPtrByTimestamp 5 [BundleEntry 5 2, BundleEntry 5 (1::nat)] = Inr (Some 2)"
    by (simp add: getPtrByTimestamp_def)
qed

section \<open>Bundles in the middle of an update\<close>

text \<open>
  \<open>mid_update b' b\<close>: a thread that reads the bundle \<open>b\<close> may find \<open>b'\<close>, because an update has
  prepared an entry that is not in \<open>b\<close> yet, or because \<open>b\<close> counts an update as done that has
  its timestamp but has not run \<open>finalize\<close> here.
\<close>

definition mid_update :: "'p bundle_t \<Rightarrow> 'p bundle_t \<Rightarrow> bool" where
  "mid_update b' b \<longleftrightarrow> b' = b \<or> (\<exists>p. b' = prepare p b)
     \<or> (\<exists>p f b0. b = push_entry f p b0 \<and> newest_ts b0 < f \<and> b' = prepare p b0)"

text \<open>The bundle makes a reader of time \<open>u\<close> wait: its head is pending, and all other entries are older than \<open>u\<close>.\<close>

definition waits_for :: "timestamp_t \<Rightarrow> 'p bundle_t \<Rightarrow> bool" where
  "waits_for u b' \<longleftrightarrow> (\<exists>p b0. b' = prepare p b0 \<and> (\<forall>e\<in>set b0. entry_ts e < u))"

lemma waits_for_pending: "waits_for u b' \<Longrightarrow> \<not> bundle_ok b'"
  by (auto simp: waits_for_def prepare_def timestamp_defs)

lemma mid_update_refl [simp]: "mid_update b b"
  by (simp add: mid_update_def)

lemma mid_update_prepare: "mid_update (prepare p b) b"
  by (auto simp: mid_update_def)

lemma mid_update_finalize: "newest_ts b < f \<Longrightarrow> mid_update (prepare p b) (push_entry f p b)"
  by (auto simp: mid_update_def)

text \<open>A reader that finds a bundle in the middle of an update waits, or reads what it would read otherwise.\<close>

lemma read_mid_update:
  assumes ok: "bundle_ok b" and u: "u < BUNDLE_PENDING_TIMESTAMP" and ne: "b \<noteq> []" and mid: "mid_update b' b"
  shows "getPtrByTimestamp u b' = Inr (read_at b u) \<or> getPtrByTimestamp u b' = Inl Blocked \<and> waits_for u b'"
proof -
  have wait: "getPtrByTimestamp u (prepare p b0) = Inr (read_at b0 u) \<and> u \<le> newest_ts b0
      \<or> getPtrByTimestamp u (prepare p b0) = Inl Blocked \<and> waits_for u (prepare p b0)" if "bundle_ok b0" for p b0
    using getPtrByTimestamp_pending_cases [OF that u, of p] pending_blocks_iff [OF that u, of p]
    by (auto simp: waits_for_def split: if_splits)
  consider "b' = b" | p where "b' = prepare p b"
    | p f b0 where "b = push_entry f p b0" "newest_ts b0 < f" "b' = prepare p b0"
    using mid by (auto simp: mid_update_def)
  then show ?thesis
  proof cases
    case 1
    then show ?thesis using getPtrByTimestamp_read [OF ok ne] by simp
  next
    case 2
    then show ?thesis using wait [OF ok] by blast
  next
    case 3
    then show ?thesis using wait [of b0 p] ok by (auto simp: push_entry_def)
  qed
qed

section \<open>Reclamation\<close>

lemma reclaim_from_split:
  "reclaim_from t e b = (keep, freed) \<Longrightarrow>
     \<exists>old. e # b = keep @ old \<and> freed = map (mark_entry t) old
       \<and> (\<forall>x\<in>set (butlast keep). t < entry_ts x) \<and> keep \<noteq> []
       \<and> hd keep = e \<and> (old \<noteq> [] \<longrightarrow> entry_ts (last keep) \<le> t)"
proof (induction t e b arbitrary: keep rule: reclaim_from.induct)
  case (1 t e)
  then show ?case by auto
next
  case (2 t e c nxt)
  show ?case
  proof (cases "t < entry_ts e")
    case True
    then obtain k where k: "reclaim_from t c nxt = (k, freed)" "keep = e # k"
      using "2.prems" by (auto split: prod.splits)
    from "2.IH" [OF True k(1)] obtain old where old:
      "c # nxt = k @ old" "freed = map (mark_entry t) old" "\<forall>x\<in>set (butlast k). t < entry_ts x"
      "k \<noteq> []" "old \<noteq> [] \<longrightarrow> entry_ts (last k) \<le> t" by auto
    then show ?thesis using k(2) True by (intro exI [of _ old]) auto
  next
    case False
    then show ?thesis using "2.prems" by auto
  qed
qed

lemma read_at_append_old:
  assumes "entry_ts (last k) \<le> u" "k \<noteq> []"
  shows "read_at (k @ old) u = read_at k u"
  using assms by (induction k) (auto split: if_splits)

lemma reclaim_from_read:
  assumes "reclaim_from t e b = (keep, freed)" "t \<le> u"
  shows "read_at keep u = read_at (e # b) u"
proof -
  obtain old where "e # b = keep @ old" "keep \<noteq> []" "old \<noteq> [] \<longrightarrow> entry_ts (last keep) \<le> t"
    using reclaim_from_split [OF assms(1)] by auto
  then show ?thesis using assms(2) read_at_append_old [of keep u old] by (cases old) auto
qed

lemma reclaimEntries_split:
  assumes "reclaimEntries t b = (keep, freed)"
  shows "\<exists>old. b = keep @ old \<and> freed = map (mark_entry t) old
     \<and> (old \<noteq> [] \<longrightarrow> keep \<noteq> [] \<and> entry_ts (last keep) \<le> t \<and>
          (\<forall>x\<in>set (butlast keep). t < entry_ts x \<or> pending x))"
proof (cases b)
  case Nil
  then show ?thesis using assms by (auto simp: reclaimEntries_def)
next
  case (Cons h nxt)
  show ?thesis
  proof (cases "entry_ts h = BUNDLE_PENDING_TIMESTAMP \<and> nxt \<noteq> []")
    case True
    then obtain c rest where n: "nxt = c # rest" by (cases nxt) auto
    obtain k where k: "reclaim_from t c rest = (k, freed)" "keep = h # k"
      using assms Cons True n by (auto simp: reclaimEntries_def split: prod.splits)
    obtain old where "c # rest = k @ old" "freed = map (mark_entry t) old"
      "\<forall>x\<in>set (butlast k). t < entry_ts x" "k \<noteq> []" "old \<noteq> [] \<longrightarrow> entry_ts (last k) \<le> t"
      using reclaim_from_split [OF k(1)] by auto
    then show ?thesis using Cons n k(2) True
      by (intro exI [of _ old]) (auto simp: pending_def)
  next
    case False
    show ?thesis
    proof (cases "entry_ts h = BUNDLE_PENDING_TIMESTAMP")
      case True
      then show ?thesis using False assms Cons by (auto simp: reclaimEntries_def)
    next
      case F: False
      then have "reclaim_from t h nxt = (keep, freed)"
        using assms Cons by (simp add: reclaimEntries_def)
      from reclaim_from_split [OF this] show ?thesis using Cons by blast
    qed
  qed
qed

lemma reclaimEntries_read:
  assumes "t \<le> u"
  shows "read_at (fst (reclaimEntries t b)) u = read_at b u"
proof -
  obtain keep freed where r: "reclaimEntries t b = (keep, freed)" by (cases "reclaimEntries t b")
  obtain old where "b = keep @ old" "old \<noteq> [] \<longrightarrow> keep \<noteq> [] \<and> entry_ts (last keep) \<le> t"
    using reclaimEntries_split [OF r] by blast
  then show ?thesis using r assms read_at_append_old [of keep u old] by (cases old) auto
qed

lemma reclaimEntries_prefix:
  obtains old where "b = fst (reclaimEntries t b) @ old"
    "old \<noteq> [] \<longrightarrow> fst (reclaimEntries t b) \<noteq> []"
  using reclaimEntries_split [of t b "fst (reclaimEntries t b)" "snd (reclaimEntries t b)"] by auto

lemma bundle_ok_append: "bundle_ok (xs @ ys) \<Longrightarrow> bundle_ok xs"
  by (auto simp: bundle_ok_def sorted_wrt_append)

lemma reclaimEntries_ok: "bundle_ok b \<Longrightarrow> bundle_ok (fst (reclaimEntries t b))"
  by (metis reclaimEntries_prefix bundle_ok_append)

lemma newest_append: "xs \<noteq> [] \<Longrightarrow> newest_ts (xs @ ys) = newest_ts xs"
  by (cases xs) auto

lemma reclaimEntries_newest: "newest_ts (fst (reclaimEntries t b)) = newest_ts b"
  by (metis reclaimEntries_prefix append_Nil2 newest_append)

text \<open>Exactly which entries go: those behind the newest one that is as old as \<open>t\<close>.\<close>

lemma reclaim_from_exact:
  "reclaim_from t e b = (takeWhile (\<lambda>x. t < entry_ts x) (e # b) @ take 1 (dropWhile (\<lambda>x. t < entry_ts x) (e # b)),
     map (mark_entry t) (drop 1 (dropWhile (\<lambda>x. t < entry_ts x) (e # b))))"
  by (induction t e b rule: reclaim_from.induct) auto

lemma reclaimEntries_exact:
  assumes "t < BUNDLE_PENDING_TIMESTAMP"
  shows "reclaimEntries t b = (takeWhile (\<lambda>x. t < entry_ts x) b @ take 1 (dropWhile (\<lambda>x. t < entry_ts x) b),
     map (mark_entry t) (drop 1 (dropWhile (\<lambda>x. t < entry_ts x) b)))"
  using assms
  by (auto simp: reclaimEntries_def reclaim_from_exact simp del: takeWhile.simps dropWhile.simps reclaim_from.simps
      split: list.splits)
     (simp_all add: takeWhile.simps dropWhile.simps)

text \<open>
  C11: \<open>reclaimEntries t\<close> is safe and frees as much as it may. The bundle keeps a prefix
  of its entries and the others are marked with \<open>t\<close> and freed. Every read at a time \<open>u \<ge> t\<close>
  (so every range query that is still active when \<open>t\<close> is the oldest announced one) gives the
  same reference as before, also past a pending head. What is kept is exactly the entries
  newer than \<open>t\<close> (a pending head among them) and the newest one that is not: every entry
  behind that one is freed.
\<close>

theorem reclaimEntries_safe:
  assumes "reclaimEntries t b = (keep, freed)"
  shows "(\<exists>old. b = keep @ old \<and> freed = map (mark_entry t) old)
    \<and> (\<forall>u\<ge>t. read_at keep u = read_at b u)
    \<and> (t < BUNDLE_PENDING_TIMESTAMP \<longrightarrow>
         keep = takeWhile (\<lambda>e. t < entry_ts e) b @ take 1 (dropWhile (\<lambda>e. t < entry_ts e) b)
         \<and> freed = map (mark_entry t) (drop 1 (dropWhile (\<lambda>e. t < entry_ts e) b)))"
  using reclaimEntries_split [OF assms] reclaimEntries_read [of t _ b] reclaimEntries_exact [of t b] assms
  by fastforce

theorem reclaimEntries_safe_witness:
  "reclaimEntries 4 [BundleEntry 5 ''c'', BundleEntry 3 ''b'', BundleEntry 1 ''a'']
     = ([BundleEntry 5 ''c'', BundleEntry 3 ''b''], [mark_entry 4 (BundleEntry 1 ''a'')])
   \<and> read_at [BundleEntry 5 ''c'', BundleEntry 3 ''b''] 4
        = read_at [BundleEntry 5 ''c'', BundleEntry 3 ''b'', BundleEntry 1 ''a''] 4"
proof -
  have r: "reclaimEntries 4 [BundleEntry 5 ''c'', BundleEntry 3 ''b'', BundleEntry 1 ''a'']
     = ([BundleEntry 5 ''c'', BundleEntry 3 ''b''], [mark_entry 4 (BundleEntry 1 ''a'')])"
    by (simp add: reclaimEntries_def timestamp_defs)
  from reclaimEntries_safe [OF r] r show ?thesis by blast
qed

interpretation lb: reclaimable_cell "\<lambda>t. 0 < t \<and> t < LLONG_MAX" bundle_ok newest_ts read_at
  push_entry "\<lambda>t b. fst (reclaimEntries t b)"
  by unfold_locales (auto intro: bundle_ok_push reclaimEntries_ok simp: reclaimEntries_newest reclaimEntries_read)

end
