(* ===== verification/RQ_Provider.thy ===== *)
theory RQ_Provider
  imports Linked_Bundle
begin

text \<open>
  The bundle range-query provider of \<open>rq/rq_bundle.h\<close>: the global timestamp, the
  announcement array, and the calls with which an update prepares, linearizes and
  finalizes its bundles. One call runs without interference here, except that
  \<open>getNextTS_env\<close> takes the steps of the other threads between its accesses as arguments.
\<close>

section \<open>State\<close>

text \<open>The build selected by the preprocessor symbols of the provider.\<close>

datatype build_mode =
    Update_Clock            \<comment> \<open>default: updates advance the timestamp\<close>
  | RQ_Clock                \<comment> \<open>\<open>BUNDLE_RQTS\<close>: range queries advance it\<close>
  | RQ_Clock_CAS            \<comment> \<open>\<open>BUNDLE_RQTS\<close> with \<open>BUNDLE_UPDATE_USES_CAS\<close>\<close>
  | Unsafe_Bundle           \<comment> \<open>\<open>BUNDLE_UNSAFE_BUNDLE\<close>\<close>
  | Unsafe_Relaxed int      \<comment> \<open>the same with \<open>BUNDLE_TIMESTAMP_RELAXATION\<close>\<close>

record rqp =
  num_processes :: nat
  curr_timestamp :: timestamp_t
  rq_lin_time :: "nat \<Rightarrow> timestamp_t"
  rq_flag :: "nat \<Rightarrow> bool"
  local_timestamp :: "nat \<Rightarrow> int"
  backoff_amt :: "nat \<Rightarrow> int"
  rq_init :: "nat \<Rightarrow> bool"
  mode :: build_mode
  cleanup_update :: bool    \<comment> \<open>\<open>BUNDLE_CLEANUP_UPDATE\<close>\<close>

definition RQProvider :: "nat \<Rightarrow> nat \<Rightarrow> build_mode \<Rightarrow> bool \<Rightarrow> rqp res" where
  "RQProvider max_tid_pow2 n md cl =
     (if n > max_tid_pow2 then Inl Exit
      else Inr \<lparr>num_processes = n, curr_timestamp = BUNDLE_MIN_TIMESTAMP,
        rq_lin_time = (\<lambda>_. BUNDLE_NULL_TIMESTAMP), rq_flag = (\<lambda>_. False),
        local_timestamp = (\<lambda>_. 0), backoff_amt = (\<lambda>_. 0), rq_init = (\<lambda>_. False),
        mode = md, cleanup_update = cl\<rparr>)"

definition rq_initThread :: "rqp \<Rightarrow> nat \<Rightarrow> rqp" where
  "rq_initThread p tid =
     (if rq_init p tid then p else p\<lparr>rq_init := (rq_init p)(tid := \<not> rq_init p tid)\<rparr>)"

definition rq_deinitThread :: "rqp \<Rightarrow> nat \<Rightarrow> rqp" where
  "rq_deinitThread p tid =
     (if \<not> rq_init p tid then p else p\<lparr>rq_init := (rq_init p)(tid := \<not> rq_init p tid)\<rparr>)"

section \<open>Timestamps\<close>

definition fetch_add_ts :: "rqp \<Rightarrow> timestamp_t \<times> rqp" where
  "fetch_add_ts p = (curr_timestamp p, p\<lparr>curr_timestamp := ll_wrap (curr_timestamp p + 1)\<rparr>)"

definition clamp_backoff :: "int \<Rightarrow> int" where
  "clamp_backoff b = (let b = (if b < 1 then 1 else b) in if b > 512 then 512 else b)"

text \<open>
  \<open>env1\<close> is what other threads do between the first load and the second (the backoff
  loop), \<open>env2\<close> what they do between the second load and the atomic increment.
\<close>

definition getNextTS_env :: "(rqp \<Rightarrow> rqp) \<Rightarrow> (rqp \<Rightarrow> rqp) \<Rightarrow> rqp \<Rightarrow> nat \<Rightarrow> timestamp_t \<times> rqp" where
  "getNextTS_env env1 env2 p tid =
     (let t = curr_timestamp p;
          p1 = env1 p;
          p2 = (if t = curr_timestamp p1 then
                  (let (old, q) = fetch_add_ts (env2 p1) in
                   q\<lparr>backoff_amt := (backoff_amt q)(tid :=
                       if old = t then backoff_amt q tid div 2 else backoff_amt q tid * 2)\<rparr>)
                else p1)
      in (ll_wrap (t + 1),
          p2\<lparr>backoff_amt := (backoff_amt p2)(tid := clamp_backoff (backoff_amt p2 tid))\<rparr>))"

definition getNextTS :: "rqp \<Rightarrow> nat \<Rightarrow> timestamp_t \<times> rqp" where
  "getNextTS = getNextTS_env id id"

definition get_update_lin_time :: "rqp \<Rightarrow> nat \<Rightarrow> timestamp_t \<times> rqp" where
  "get_update_lin_time p tid = (case mode p of
     RQ_Clock \<Rightarrow> (curr_timestamp p, p)
   | RQ_Clock_CAS \<Rightarrow> (curr_timestamp p, p)
   | Unsafe_Relaxed r \<Rightarrow>
      (let l = local_timestamp p tid;
           q = p\<lparr>local_timestamp := (local_timestamp p)(tid := l + 1)\<rparr> in
       if (l + 1) mod r = 0
       then (let (old, q') = fetch_add_ts q in (old + 1, q'))
       else (curr_timestamp q, q))
   | Unsafe_Bundle \<Rightarrow> (BUNDLE_MIN_TIMESTAMP, p)
   | Update_Clock \<Rightarrow> getNextTS p tid)"

definition get_curr_timestamp :: "rqp \<Rightarrow> timestamp_t" where
  "get_curr_timestamp p = curr_timestamp p"

text \<open>Announce a range query: raise the flag, store the time, lower the flag.\<close>

definition announce :: "rqp \<Rightarrow> nat \<Rightarrow> (rqp \<Rightarrow> timestamp_t \<times> rqp) \<Rightarrow> timestamp_t \<times> rqp" where
  "announce p tid get =
     (let p1 = p\<lparr>rq_flag := (rq_flag p)(tid := True)\<rparr>;
          (t, p2) = get p1;
          p3 = p2\<lparr>rq_lin_time := (rq_lin_time p2)(tid := t)\<rparr>;
          p4 = p3\<lparr>rq_flag := (rq_flag p3)(tid := False)\<rparr>
      in (rq_lin_time p4 tid, p4))"

definition start_traversal :: "rqp \<Rightarrow> nat \<Rightarrow> timestamp_t \<times> rqp" where
  "start_traversal p tid = (case mode p of
     RQ_Clock_CAS \<Rightarrow> (curr_timestamp p, snd (fetch_add_ts p))
   | RQ_Clock \<Rightarrow> announce p tid (\<lambda>q. let (t, q') = getNextTS q tid in (t - 1, q'))
   | Unsafe_Relaxed r \<Rightarrow>
      (let p1 = p\<lparr>local_timestamp := (local_timestamp p)(tid := local_timestamp p tid + 1)\<rparr> in
       if (local_timestamp p1 tid + 1) mod r = 0
       then (let p2 = p1\<lparr>local_timestamp := (local_timestamp p1)(tid := curr_timestamp p1)\<rparr>
             in (local_timestamp p2 tid, p2))
       else (local_timestamp p1 tid, p1))
   | Unsafe_Bundle \<Rightarrow> (BUNDLE_MIN_TIMESTAMP, p)
   | Update_Clock \<Rightarrow> announce p tid (\<lambda>q. (curr_timestamp q, q)))"

definition end_traversal :: "rqp \<Rightarrow> nat \<Rightarrow> rqp" where
  "end_traversal p tid = (case mode p of
     Unsafe_Bundle \<Rightarrow> p
   | Unsafe_Relaxed r \<Rightarrow> p
   | _ \<Rightarrow> p\<lparr>rq_lin_time := (rq_lin_time p)(tid := BUNDLE_NULL_TIMESTAMP)\<rparr>)"

text \<open>The scan over the announcements; it waits for a query that is announcing itself.\<close>

fun oldest_scan :: "rqp \<Rightarrow> nat list \<Rightarrow> timestamp_t \<Rightarrow> timestamp_t res" where
  "oldest_scan p [] oldest = Inr oldest"
| "oldest_scan p (i # is) oldest =
     (if rq_flag p i then Inl Blocked
      else (let curr_rq = rq_lin_time p i in
        oldest_scan p is
          (if curr_rq \<noteq> BUNDLE_NULL_TIMESTAMP \<and> curr_rq < oldest then curr_rq else oldest)))"

definition get_oldest_active_rq :: "rqp \<Rightarrow> timestamp_t res" where
  "get_oldest_active_rq p = oldest_scan p [0..<num_processes p] (curr_timestamp p)"

section \<open>Bundles of an update\<close>

text \<open>
  The null-terminated arrays of bundles and pointers, as a list of pairs of a bundle's
  place in the heap and the new reference. \<open>upd\<close> applies an operation to the bundle at
  a place; each structure supplies its own.
\<close>

fun prepare_bundles ::
    "rqp \<Rightarrow> ('h \<Rightarrow> 'r \<Rightarrow> ('p bundle_t \<Rightarrow> 'p bundle_t res) \<Rightarrow> 'h res) \<Rightarrow> ('r \<times> 'p) list \<Rightarrow> 'h \<Rightarrow> 'h res"
where
  "prepare_bundles p upd [] h = Inr h"
| "prepare_bundles p upd ((r, q) # rest) h =
     obind (upd h r (\<lambda>b. if cleanup_update p
        then obind (get_oldest_active_rq p) (\<lambda>old. Inr (fst (reclaimEntries old (prepare q b))))
        else Inr (prepare q b)))
     (prepare_bundles p upd rest)"

fun finalize_bundles ::
    "('h \<Rightarrow> 'r \<Rightarrow> ('p bundle_t \<Rightarrow> 'p bundle_t res) \<Rightarrow> 'h res) \<Rightarrow> ('r \<times> 'p) list \<Rightarrow> timestamp_t \<Rightarrow> 'h \<Rightarrow> 'h res"
where
  "finalize_bundles upd [] t h = Inr h"
| "finalize_bundles upd ((r, q) # rest) t h =
     obind (upd h r (finalize t)) (finalize_bundles upd rest t)"

text \<open>Take the linearization timestamp, then perform the write that linearizes the update.\<close>

definition linearize_update_at_write ::
    "rqp \<Rightarrow> nat \<Rightarrow> ('h \<Rightarrow> 'h res) \<Rightarrow> 'h \<Rightarrow> (timestamp_t \<times> rqp \<times> 'h) res" where
  "linearize_update_at_write p tid write h =
     (let (t, p') = get_update_lin_time p tid in obind (write h) (\<lambda>h'. Inr (t, p', h')))"

text \<open>\<open>physical_deletion_succeeded\<close>: hand the nodes, up to the null terminator, to the reclaimer.\<close>

definition physical_deletion_succeeded :: "ptr list \<Rightarrow> ptr list \<Rightarrow> ptr list" where
  "physical_deletion_succeeded retired deletedNodes =
     retired @ takeWhile (\<lambda>q. q \<noteq> None) deletedNodes"

definition linearize_update_at_cas ::
    "bool \<Rightarrow> 'v \<Rightarrow> 'v \<Rightarrow> 'v \<Rightarrow> ptr list \<Rightarrow> ptr list \<Rightarrow> 'v \<times> 'v \<times> ptr list" where
  "linearize_update_at_cas logicalDeletion lin_addr lin_oldval lin_newval retired deletedNodes =
     (let res = lin_addr;
          lin_addr' = (if lin_addr = lin_oldval then lin_newval else lin_addr)
      in if res = lin_oldval
         then (res, lin_addr',
               if \<not> logicalDeletion then physical_deletion_succeeded retired deletedNodes
               else retired)
         else (res, lin_addr', retired))"

section \<open>Collecting keys\<close>

text \<open>
  \<open>traversal_try_add\<close>: \<open>getKeys\<close> writes the keys and values of the node behind the
  \<open>start\<close> pairs already collected, fewer than \<open>RQ_DEBUGGING_MAX_KEYS_PER_NODE\<close>; the loop then
  moves the pairs in the range down.
\<close>

definition RQ_DEBUGGING_MAX_KEYS_PER_NODE :: nat where
  "RQ_DEBUGGING_MAX_KEYS_PER_NODE = 32"

fun compact :: "(int \<Rightarrow> bool) \<Rightarrow> dict \<Rightarrow> nat \<Rightarrow> nat \<Rightarrow> nat \<Rightarrow> dict \<times> nat" where
  "compact inRange arr i 0 location = (arr, location)"
| "compact inRange arr i (Suc n) location =
     (if inRange (fst (arr ! i))
      then compact inRange (arr[location := arr ! i]) (Suc i) n (Suc location)
      else compact inRange arr (Suc i) n location)"

definition traversal_try_add ::
    "('n \<Rightarrow> dict) \<Rightarrow> (int \<Rightarrow> int \<Rightarrow> int \<Rightarrow> bool) \<Rightarrow> 'n \<Rightarrow> dict \<Rightarrow> int \<Rightarrow> int \<Rightarrow> dict res" where
  "traversal_try_add getKeys isInRange nd result lo hi =
     (let start = length result;
          kvs = getKeys nd
      in obind (require AssertFail (length kvs < RQ_DEBUGGING_MAX_KEYS_PER_NODE)) (\<lambda>_.
         if kvs = [] then Inr result
         else (let (arr, location) =
                 compact (\<lambda>k. isInRange k lo hi) (result @ kvs) start (length kvs) start
               in Inr (take location arr))))"

section \<open>Properties of the timestamp\<close>

text \<open>What the other threads may do between two accesses: advance the clock, and never
  touch this thread's own entries.\<close>

definition interference :: "nat \<Rightarrow> (rqp \<Rightarrow> rqp) \<Rightarrow> bool" where
  "interference tid env \<longleftrightarrow> (\<forall>p. curr_timestamp p \<le> curr_timestamp (env p)
     \<and> backoff_amt (env p) tid = backoff_amt p tid)"

lemma interferenceD:
  "interference tid env \<Longrightarrow> curr_timestamp p \<le> curr_timestamp (env p)"
  by (simp add: interference_def)

lemma interference_id [simp]: "interference tid id"
  by (simp add: interference_def)

lemma clamp_backoff_bounds: "1 \<le> clamp_backoff b \<and> clamp_backoff b \<le> 512"
  by (simp add: clamp_backoff_def Let_def)

text \<open>
  C12: \<open>getNextTS\<close> is fresh under any interference: the timestamp it returns is larger
  than every timestamp issued before the call started and is not ahead of the clock when
  the call returns, even when another thread wins the race and both share it. The
  backoff stays within 1 and 512.
\<close>

theorem getNextTS_fresh:
  assumes "interference tid env1" "interference tid env2"
    and "BUNDLE_NULL_TIMESTAMP \<le> curr_timestamp p"
    and "curr_timestamp (env2 (env1 p)) < BUNDLE_MAX_TIMESTAMP"
    and "getNextTS_env env1 env2 p tid = (t, p')"
  shows "t = curr_timestamp p + 1 \<and> curr_timestamp p < t \<and> t \<le> curr_timestamp p'
    \<and> 1 \<le> backoff_amt p' tid \<and> backoff_amt p' tid \<le> 512"
proof -
  have mono: "curr_timestamp p \<le> curr_timestamp (env1 p)"
    "curr_timestamp (env1 p) \<le> curr_timestamp (env2 (env1 p))"
    using assms(1,2) by (auto dest: interferenceD)
  have wrap: "ll_wrap (curr_timestamp p + 1) = curr_timestamp p + 1"
    "ll_wrap (curr_timestamp (env2 (env1 p)) + 1) = curr_timestamp (env2 (env1 p)) + 1"
    using mono assms(3,4) by (auto intro!: ll_wrap_id simp: timestamp_defs)
  show ?thesis using assms(5) mono wrap clamp_backoff_bounds
    by (auto simp: getNextTS_env_def fetch_add_ts_def Let_def split: if_splits)
qed

theorem getNextTS_fresh_witness:
  "\<exists>p p'. getNextTS_env id (\<lambda>q. q\<lparr>curr_timestamp := curr_timestamp q + 1\<rparr>) p 0 = (8, p')
     \<and> 8 \<le> curr_timestamp p'"
proof -
  let ?p = "\<lparr>num_processes = 2, curr_timestamp = 7, rq_lin_time = (\<lambda>_. 0), rq_flag = (\<lambda>_. False),
    local_timestamp = (\<lambda>_. 0), backoff_amt = (\<lambda>_. 4), rq_init = (\<lambda>_. True), mode = Update_Clock,
    cleanup_update = False\<rparr>"
  let ?e = "\<lambda>q :: rqp. q\<lparr>curr_timestamp := curr_timestamp q + 1\<rparr>"
  obtain t p' where r: "getNextTS_env id ?e ?p 0 = (t, p')" by (cases "getNextTS_env id ?e ?p 0")
  have "interference 0 ?e" by (simp add: interference_def)
  from getNextTS_fresh [OF interference_id this _ _ r] have "t = 8" "8 \<le> curr_timestamp p'"
    by (simp_all add: timestamp_defs)
  with r show ?thesis by blast
qed

lemma getNextTS_seq:
  assumes "BUNDLE_NULL_TIMESTAMP \<le> curr_timestamp p" "curr_timestamp p < BUNDLE_MAX_TIMESTAMP"
  shows "\<exists>b. getNextTS p tid =
    (curr_timestamp p + 1, p\<lparr>curr_timestamp := curr_timestamp p + 1, backoff_amt := b\<rparr>)"
  using assms
  by (intro exI [of _ "(backoff_amt p)(tid := clamp_backoff (backoff_amt p tid div 2))"])
    (simp add: getNextTS_def getNextTS_env_def fetch_add_ts_def Let_def ll_wrap_id timestamp_defs)

definition clock_ok :: "rqp \<Rightarrow> bool" where
  "clock_ok p \<longleftrightarrow> mode p = Update_Clock \<and> \<not> cleanup_update p
     \<and> BUNDLE_NULL_TIMESTAMP \<le> curr_timestamp p \<and> curr_timestamp p < BUNDLE_MAX_TIMESTAMP"

lemma get_update_lin_time_seq:
  assumes "clock_ok p"
  shows "\<exists>b. get_update_lin_time p tid =
    (curr_timestamp p + 1, p\<lparr>curr_timestamp := curr_timestamp p + 1, backoff_amt := b\<rparr>)"
  using assms getNextTS_seq [of p tid] by (simp add: clock_ok_def get_update_lin_time_def)

text \<open>One tick of the clock, as an update causes it.\<close>

definition rq_tick :: "rqp \<Rightarrow> rqp \<Rightarrow> bool" where
  "rq_tick q q' \<longleftrightarrow> (\<exists>b. q' = q\<lparr>curr_timestamp := curr_timestamp q + 1, backoff_amt := b\<rparr>)"

lemma rq_tickD:
  assumes "rq_tick q q'"
  shows "curr_timestamp q' = curr_timestamp q + 1" "mode q' = mode q"
    "cleanup_update q' = cleanup_update q" "rq_lin_time q' = rq_lin_time q" "rq_flag q' = rq_flag q"
    "num_processes q' = num_processes q"
  using assms by (auto simp: rq_tick_def)

lemma linearize_ok:
  assumes "clock_ok q" "write h = Inr h'"
  shows "\<exists>q'. linearize_update_at_write q tid write h = Inr (curr_timestamp q + 1, q', h') \<and> rq_tick q q'"
  using get_update_lin_time_seq [OF assms(1), of tid] assms(2)
  by (auto simp: linearize_update_at_write_def rq_tick_def)

lemma linearize_init:
  assumes "RQProvider mt np Update_Clock False = Inr q"
  shows "clock_ok (rq_initThread q 0)" "curr_timestamp (rq_initThread q 0) = 1"
  using assms by (auto simp: RQProvider_def rq_initThread_def clock_ok_def timestamp_defs split: if_splits)

lemma start_end_traversal:
  assumes "mode q = Update_Clock"
  shows "\<exists>q'. start_traversal q tid = (curr_timestamp q, q') \<and> end_traversal q' tid =
    q\<lparr>rq_lin_time := (rq_lin_time q)(tid := BUNDLE_NULL_TIMESTAMP), rq_flag := (rq_flag q)(tid := False)\<rparr>"
  using assms by (simp add: start_traversal_def announce_def end_traversal_def)

lemma oldest_scan_sound:
  "oldest_scan p is t = Inr old \<Longrightarrow>
     old \<le> t \<and> (\<forall>i\<in>set is. \<not> rq_flag p i \<and>
       (rq_lin_time p i \<noteq> BUNDLE_NULL_TIMESTAMP \<longrightarrow> old \<le> rq_lin_time p i)) \<and>
     (old = t \<or> (\<exists>i\<in>set is. old = rq_lin_time p i))"
proof (induction p "is" t rule: oldest_scan.induct)
  case (1 p t)
  then show ?case by simp
next
  case (2 p i "is" t)
  let ?t = "if rq_lin_time p i \<noteq> BUNDLE_NULL_TIMESTAMP \<and> rq_lin_time p i < t
            then rq_lin_time p i else t"
  have f: "\<not> rq_flag p i" and s: "oldest_scan p is ?t = Inr old"
    using "2.prems" by (auto simp: Let_def split: if_splits)
  from "2.IH" [OF f refl s] f show ?case by (auto split: if_splits)
qed

text \<open>
  \<open>get_oldest_active_rq\<close> returns a time not above the clock and not above the
  linearization time of any announced range query, and it is one of these times; it
  waits (\<open>Blocked\<close>) exactly while some query is announcing itself.
\<close>

theorem get_oldest_active_rq_spec:
  "(get_oldest_active_rq p = Inl Blocked \<longleftrightarrow> (\<exists>i<num_processes p. rq_flag p i))
   \<and> (\<forall>old. get_oldest_active_rq p = Inr old \<longrightarrow>
        old \<le> curr_timestamp p
        \<and> (\<forall>i<num_processes p. rq_lin_time p i \<noteq> BUNDLE_NULL_TIMESTAMP \<longrightarrow> old \<le> rq_lin_time p i)
        \<and> (old = curr_timestamp p \<or> (\<exists>i<num_processes p. old = rq_lin_time p i)))"
proof -
  have "oldest_scan p is t = Inl Blocked \<longleftrightarrow> (\<exists>i\<in>set is. rq_flag p i)" for "is" t
    by (induction p "is" t rule: oldest_scan.induct) (auto simp: Let_def)
  then show ?thesis
    using oldest_scan_sound [of p "[0..<num_processes p]" "curr_timestamp p"]
    unfolding get_oldest_active_rq_def by auto
qed

theorem get_oldest_active_rq_spec_witness:
  "\<exists>p. get_oldest_active_rq p = Inr 3 \<and> curr_timestamp p = 7 \<and> 3 \<le> curr_timestamp p"
proof -
  let ?p = "\<lparr>num_processes = 2, curr_timestamp = 7, rq_lin_time = (\<lambda>_. 0)(1 := 3),
    rq_flag = (\<lambda>_. False), local_timestamp = (\<lambda>_. 0), backoff_amt = (\<lambda>_. 0),
    rq_init = (\<lambda>_. True), mode = Update_Clock, cleanup_update = False\<rparr>"
  have "get_oldest_active_rq ?p = Inr 3"
    by (simp add: get_oldest_active_rq_def timestamp_defs upt_rec)
  with get_oldest_active_rq_spec [of ?p] show ?thesis by (intro exI [of _ ?p]) simp
qed

section \<open>Bundles of a heap\<close>

text \<open>
  What the provider needs of a structure's heap: \<open>peek\<close> reads the bundle at a place,
  \<open>upd\<close> runs an operation on it, and neither the other bundles nor the remaining fields
  (\<open>frame\<close>) change. Each bundled structure interprets this on its own heap.
\<close>

locale bundle_store =
  fixes peek :: "'h \<Rightarrow> 'r \<Rightarrow> 'p bundle_t option"
    and upd :: "'h \<Rightarrow> 'r \<Rightarrow> ('p bundle_t \<Rightarrow> 'p bundle_t res) \<Rightarrow> 'h res"
    and frame :: "'h \<Rightarrow> 'f"
  assumes upd_ok: "peek h r = Some b \<Longrightarrow> g b = Inr b' \<Longrightarrow>
    \<exists>h'. upd h r g = Inr h' \<and> peek h' = (peek h)(r \<mapsto> b') \<and> frame h' = frame h"
begin

lemma prepare_bundles_ok:
  assumes "\<not> cleanup_update p" "distinct (map fst rqs)" "\<forall>r\<in>fst ` set rqs. peek h r \<noteq> None"
  shows "\<exists>h'. prepare_bundles p upd rqs h = Inr h' \<and> frame h' = frame h
    \<and> (\<forall>r. peek h' r = (case map_of rqs r of None \<Rightarrow> peek h r
         | Some q \<Rightarrow> map_option (prepare q) (peek h r)))"
  using assms(2,3)
proof (induction rqs arbitrary: h)
  case Nil
  then show ?case by simp
next
  case (Cons e rqs)
  obtain r q where e: "e = (r, q)" by (cases e)
  obtain b where b: "peek h r = Some b" using Cons.prems(2) e by auto
  obtain h1 where h1: "upd h r (\<lambda>b. Inr (prepare q b)) = Inr h1"
    "peek h1 = (peek h)(r \<mapsto> prepare q b)" "frame h1 = frame h"
    using upd_ok [OF b, of "\<lambda>b. Inr (prepare q b)"] by auto
  have p1: "\<forall>r\<in>fst ` set rqs. peek h1 r \<noteq> None" using Cons.prems h1(2) by auto
  have "distinct (map fst rqs)" using Cons.prems(1) by simp
  from Cons.IH [OF this p1] obtain h' where
    h': "prepare_bundles p upd rqs h1 = Inr h'" "frame h' = frame h1"
      "\<forall>r. peek h' r = (case map_of rqs r of None \<Rightarrow> peek h1 r
         | Some q \<Rightarrow> map_option (prepare q) (peek h1 r))"
    by auto
  have "prepare_bundles p upd (e # rqs) h = Inr h'" using e h1(1) h'(1) assms(1) by simp
  moreover have "map_of rqs r = None" using Cons.prems(1) e by (simp add: map_of_eq_None_iff)
  ultimately show ?case using h' h1 b e by (intro exI [of _ h']) (auto split: option.splits)
qed

lemma finalize_bundles_ok:
  assumes "t \<noteq> BUNDLE_PENDING_TIMESTAMP" "distinct (map fst rqs)"
    and "\<forall>(r, q)\<in>set rqs. \<exists>b. B r = Some b \<and> peek h r = Some (prepare q b)"
  shows "\<exists>h'. finalize_bundles upd rqs t h = Inr h' \<and> frame h' = frame h
    \<and> (\<forall>r. peek h' r = (case map_of rqs r of None \<Rightarrow> peek h r
         | Some q \<Rightarrow> map_option (push_entry t q) (B r)))"
  using assms(2,3)
proof (induction rqs arbitrary: h)
  case Nil
  then show ?case by simp
next
  case (Cons e rqs)
  obtain r q where e: "e = (r, q)" by (cases e)
  obtain b where b: "B r = Some b" "peek h r = Some (prepare q b)" using Cons.prems(2) e by auto
  obtain h1 where h1: "upd h r (finalize t) = Inr h1"
    "peek h1 = (peek h)(r \<mapsto> push_entry t q b)" "frame h1 = frame h"
    using upd_ok [OF b(2), of "finalize t"] finalize_prepare [OF assms(1), of q b] by auto
  have p1: "\<forall>(r, q)\<in>set rqs. \<exists>b. B r = Some b \<and> peek h1 r = Some (prepare q b)"
    using Cons.prems h1(2) e by (force simp: rev_image_eqI)
  have "distinct (map fst rqs)" using Cons.prems(1) by simp
  from Cons.IH [OF this p1] obtain h' where
    h': "finalize_bundles upd rqs t h1 = Inr h'" "frame h' = frame h1"
      "\<forall>r. peek h' r = (case map_of rqs r of None \<Rightarrow> peek h1 r
         | Some q \<Rightarrow> map_option (push_entry t q) (B r))"
    by auto
  have "finalize_bundles upd (e # rqs) t h = Inr h'" using e h1(1) h'(1) by simp
  moreover have "map_of rqs r = None" using Cons.prems(1) e by (simp add: map_of_eq_None_iff)
  ultimately show ?case using h' h1 b e by (intro exI [of _ h']) (auto split: option.splits)
qed

text \<open>
  Between the two calls the listed bundles are in the middle of the update, seen from the
  state before the first call and seen from the state after the second; all others are as they were.
\<close>

lemma prepare_bundles_mid:
  assumes "\<not> cleanup_update p" "distinct (map fst rqs)" "\<forall>r\<in>fst ` set rqs. peek h r \<noteq> None"
  shows "\<exists>h'. prepare_bundles p upd rqs h = Inr h' \<and> frame h' = frame h
    \<and> (\<forall>r b. peek h r = Some b \<longrightarrow> (\<exists>b'. peek h' r = Some b' \<and> mid_update b' b))"
proof -
  obtain h' where h': "prepare_bundles p upd rqs h = Inr h'" "frame h' = frame h"
    "\<forall>r. peek h' r = (case map_of rqs r of None \<Rightarrow> peek h r | Some q \<Rightarrow> map_option (prepare q) (peek h r))"
    using prepare_bundles_ok [OF assms] by blast
  then show ?thesis using mid_update_refl mid_update_prepare
    by (intro exI [of _ h']) (auto split: option.split)
qed

lemma finalize_bundles_mid:
  assumes "t \<noteq> BUNDLE_PENDING_TIMESTAMP" "distinct (map fst rqs)"
    and "\<forall>(r, q)\<in>set rqs. \<exists>b. B r = Some b \<and> peek h r = Some (prepare q b) \<and> newest_ts b < t"
  shows "\<exists>h'. finalize_bundles upd rqs t h = Inr h' \<and> frame h' = frame h
    \<and> (\<forall>r b. peek h' r = Some b \<longrightarrow> (\<exists>b'. peek h r = Some b' \<and> mid_update b' b))"
proof -
  obtain h' where h': "finalize_bundles upd rqs t h = Inr h'" "frame h' = frame h"
    "\<forall>r. peek h' r = (case map_of rqs r of None \<Rightarrow> peek h r | Some q \<Rightarrow> map_option (push_entry t q) (B r))"
    using finalize_bundles_ok [OF assms(1,2), of B h] assms(3) by fastforce
  have "\<exists>b'. peek h r = Some b' \<and> mid_update b' b" if "peek h' r = Some b" for r b
  proof (cases "map_of rqs r")
    case (Some q)
    then obtain b0 where "B r = Some b0" "peek h r = Some (prepare q b0)" "newest_ts b0 < t"
      using assms(3) map_of_SomeD by fastforce
    then show ?thesis using h'(3) Some that mid_update_finalize by auto
  qed (use h'(3) that in simp)
  then show ?thesis using h'(1,2) by blast
qed

text \<open>
  Prepare, one write that leaves the bundles alone, finalize: every listed bundle gets
  one new entry with the update's timestamp, no other bundle changes.
\<close>

lemma update_bundles_ok:
  assumes "\<not> cleanup_update p" "t \<noteq> BUNDLE_PENDING_TIMESTAMP" "distinct (map fst rqs)"
    and "\<forall>r\<in>fst ` set rqs. peek h r \<noteq> None"
    and "\<And>h1. frame h1 = frame h \<Longrightarrow>
       \<exists>h2. write h1 = Inr h2 \<and> frame h2 = F \<and> peek h2 = peek h1"
  shows "\<exists>h1 h2 h3. prepare_bundles p upd rqs h = Inr h1 \<and> write h1 = Inr h2
    \<and> finalize_bundles upd rqs t h2 = Inr h3 \<and> frame h3 = F
    \<and> (\<forall>r. peek h3 r = (case map_of rqs r of None \<Rightarrow> peek h r
         | Some q \<Rightarrow> map_option (push_entry t q) (peek h r)))"
proof -
  obtain h1 where h1: "prepare_bundles p upd rqs h = Inr h1" "frame h1 = frame h"
    "\<forall>r. peek h1 r = (case map_of rqs r of None \<Rightarrow> peek h r
         | Some q \<Rightarrow> map_option (prepare q) (peek h r))"
    using prepare_bundles_ok [OF assms(1,3,4)] by auto
  obtain h2 where h2: "write h1 = Inr h2" "frame h2 = F" "peek h2 = peek h1"
    using assms(5) [OF h1(2)] by auto
  have "\<forall>(r, q)\<in>set rqs. \<exists>b. peek h r = Some b \<and> peek h2 r = Some (prepare q b)"
    using assms(3,4) h1(3) h2(3) by force
  from finalize_bundles_ok [OF assms(2,3) this] obtain h3 where
    h3: "finalize_bundles upd rqs t h2 = Inr h3" "frame h3 = frame h2"
      "\<forall>r. peek h3 r = (case map_of rqs r of None \<Rightarrow> peek h2 r
         | Some q \<Rightarrow> map_option (push_entry t q) (peek h r))"
    by auto
  have "\<forall>r. peek h3 r = (case map_of rqs r of None \<Rightarrow> peek h r
         | Some q \<Rightarrow> map_option (push_entry t q) (peek h r))"
    using h3(3) h1(3) h2(3) by (simp split: option.splits)
  then show ?thesis using h1 h2 h3 by blast
qed

end

section \<open>Properties of the collection\<close>

lemma compact_take:
  assumes "loc \<le> length pre" "length pre \<le> length arr" "compact P arr (length pre) n loc = (arr', loc')"
    "length arr = length pre + n" "take (length pre) arr = pre" 
  shows "take loc' arr' = take loc arr @ filter (\<lambda>e. P (fst e)) (drop (length pre) arr)"
  using assms
proof (induction n arbitrary: pre arr loc)
  case 0
  then show ?case by simp
next
  case (Suc n)
  let ?i = "length pre"
  have i: "?i < length arr" using Suc.prems(4) by simp
  have d: "drop ?i arr = arr ! ?i # drop (Suc ?i) arr" using i by (simp add: Cons_nth_drop_Suc)
  show ?case
  proof (cases "P (fst (arr ! ?i))")
    case True
    let ?a = "arr[loc := arr ! ?i]"
    have "take loc' arr' = take (Suc loc) ?a @ filter (\<lambda>e. P (fst e)) (drop (Suc ?i) ?a)"
      using Suc.IH [of "Suc loc" "take (Suc ?i) ?a" ?a] Suc.prems True i by auto
    moreover have "take (Suc loc) ?a = take loc arr @ [arr ! ?i]"
      using Suc.prems(1) i by (simp add: take_Suc_conv_app_nth)
    moreover have "drop (Suc ?i) ?a = drop (Suc ?i) arr" using Suc.prems(1) by simp
    ultimately show ?thesis using d True by simp
  next
    case False
    have "take loc' arr' = take loc arr @ filter (\<lambda>e. P (fst e)) (drop (Suc ?i) arr)"
      using Suc.IH [of loc "take (Suc ?i) arr" arr] Suc.prems False i by auto
    then show ?thesis using d False by simp
  qed
qed

text \<open>
  The in-place loop of \<open>traversal_try_add\<close> appends to the pairs collected so far
  exactly the pairs of the node whose key lies in the range, in the node's order.
\<close>

lemma traversal_try_add_eq:
  "traversal_try_add getKeys isInRange nd result lo hi =
     (if length (getKeys nd) < RQ_DEBUGGING_MAX_KEYS_PER_NODE
      then Inr (result @ filter (\<lambda>e. isInRange (fst e) lo hi) (getKeys nd)) else Inl AssertFail)"
proof -
  obtain arr loc where c: "compact (\<lambda>k. isInRange k lo hi) (result @ getKeys nd)
      (length result) (length (getKeys nd)) (length result) = (arr, loc)"
    by (cases "compact (\<lambda>k. isInRange k lo hi) (result @ getKeys nd)
      (length result) (length (getKeys nd)) (length result)")
  have "take loc arr = result @ filter (\<lambda>e. isInRange (fst e) lo hi) (getKeys nd)"
    using compact_take [of "length result" result "result @ getKeys nd", OF _ _ c] by simp
  then show ?thesis using c by (auto simp: traversal_try_add_def require_def Let_def)
qed

end
