(* ===== verification/Bundle_Path.thy ===== *)
theory Bundle_Path
  imports RQ_Provider
begin

text \<open>
  What the bundled linked structures (lazy list, bottom level of the skip list) have in
  common: the loops of the code that search a sorted chain and that follow bundles at a
  timestamp, and the invariant under which these loops compute the snapshot of that time.
  The loops take the field accesses of the structure as arguments; the invariant speaks
  of the fields as functions of the address.
\<close>

section \<open>The loops\<close>

text \<open>\<open>while (curr->key < key) { pred = curr; curr = curr->next; }\<close>, with fuel.\<close>

fun search_from ::
    "nat \<Rightarrow> (ptr \<Rightarrow> int res) \<Rightarrow> (ptr \<Rightarrow> ptr res) \<Rightarrow> int \<Rightarrow> ptr \<Rightarrow> ptr \<Rightarrow> (ptr \<times> ptr) res"
where
  "search_from 0 key_of next_of k pred cur = Inl Timeout"
| "search_from (Suc n) key_of next_of k pred cur =
     obind (key_of cur) (\<lambda>ck.
       if ck < k then obind (next_of cur) (\<lambda>nx. search_from n key_of next_of k cur nx)
       else Inr (pred, cur))"

text \<open>The same loop with a null check: \<open>while (curr != nullptr && curr->key < lo)\<close>.\<close>

fun rq_walk ::
    "nat \<Rightarrow> (ptr \<Rightarrow> int res) \<Rightarrow> (ptr \<Rightarrow> ptr res) \<Rightarrow> int \<Rightarrow> ptr \<Rightarrow> ptr \<Rightarrow> (ptr \<times> ptr) res"
where
  "rq_walk 0 key_of next_of lo pred cur = Inl Timeout"
| "rq_walk (Suc n) key_of next_of lo pred cur =
     (if cur = None then Inr (pred, cur)
      else obind (key_of cur) (\<lambda>ck.
        if ck < lo then obind (next_of cur) (\<lambda>nx. rq_walk n key_of next_of lo cur nx)
        else Inr (pred, cur)))"

text \<open>\<open>while (curr->key < key) ok = curr->rqbundle.getPtr(tid, &curr);\<close>\<close>

fun getPtr_loop ::
    "nat \<Rightarrow> (ptr \<Rightarrow> int res) \<Rightarrow> (ptr \<Rightarrow> ptr bundle_t res) \<Rightarrow> int \<Rightarrow> ptr \<Rightarrow> ptr res"
where
  "getPtr_loop 0 key_of bundle_of k cur = Inl Timeout"
| "getPtr_loop (Suc n) key_of bundle_of k cur =
     obind (key_of cur) (\<lambda>ck.
       if ck < k then obind (bundle_of cur) (\<lambda>b. obind (getPtr b) (getPtr_loop n key_of bundle_of k))
       else Inr cur)"

text \<open>One step along a bundle, with the \<open>assert(ok)\<close> that follows it in the code.\<close>

definition follow :: "(ptr \<Rightarrow> ptr bundle_t res) \<Rightarrow> timestamp_t \<Rightarrow> ptr \<Rightarrow> ptr res" where
  "follow bundle_of t cur = obind (bundle_of cur) (\<lambda>b. obind (getPtrByTimestamp t b)
     (\<lambda>r. case r of None \<Rightarrow> Inl AssertFail | Some q \<Rightarrow> Inr q))"

text \<open>\<open>while (curr != nullptr && curr->key < lo)\<close>: enter the range along the bundles.\<close>

fun rq_enter ::
    "nat \<Rightarrow> (ptr \<Rightarrow> int res) \<Rightarrow> (ptr \<Rightarrow> ptr bundle_t res) \<Rightarrow> timestamp_t \<Rightarrow> int \<Rightarrow> ptr \<Rightarrow> ptr res"
where
  "rq_enter 0 key_of bundle_of t lo cur = Inl Timeout"
| "rq_enter (Suc n) key_of bundle_of t lo cur =
     (if cur = None then Inr cur
      else obind (key_of cur) (\<lambda>ck.
        if ck < lo then obind (follow bundle_of t cur) (rq_enter n key_of bundle_of t lo)
        else Inr cur))"

text \<open>\<open>while (curr != nullptr && curr->key <= hi)\<close>: collect the range.\<close>

fun rq_collect ::
    "nat \<Rightarrow> (ptr \<Rightarrow> int res) \<Rightarrow> (ptr \<Rightarrow> dict res) \<Rightarrow> (ptr \<Rightarrow> ptr bundle_t res) \<Rightarrow> timestamp_t
      \<Rightarrow> int \<Rightarrow> int \<Rightarrow> ptr \<Rightarrow> dict \<Rightarrow> (ptr \<times> dict) res"
where
  "rq_collect 0 key_of getKeys bundle_of t lo hi cur result = Inl Timeout"
| "rq_collect (Suc n) key_of getKeys bundle_of t lo hi cur result =
     (if cur = None then Inr (cur, result)
      else obind (key_of cur) (\<lambda>ck.
        if ck \<le> hi
        then obind (if ck \<ge> lo then obind (getKeys cur) (\<lambda>kvs. Inr (result @ kvs)) else Inr result)
          (\<lambda>result'. obind (follow bundle_of t cur)
            (\<lambda>q. rq_collect n key_of getKeys bundle_of t lo hi q result'))
        else Inr (cur, result)))"

section \<open>Searching a sorted chain\<close>

lemma rq_walk_search:
  "search_from n K N lo p c = Inr r \<Longrightarrow> K None = Inl e \<Longrightarrow> rq_walk n K N lo p c = Inr r"
proof (induction n arbitrary: p c)
  case (Suc n)
  then have "c \<noteq> None" by (cases c) auto
  then show ?case using Suc by (auto simp: obind_Inr_iff split: if_splits)
qed simp

text \<open>The accesses of the code read the fields of the nodes of a path.\<close>

definition reads :: "(ptr \<Rightarrow> 'a res) \<Rightarrow> (nat \<Rightarrow> 'a) \<Rightarrow> nat list \<Rightarrow> bool" where
  "reads get f xs \<longleftrightarrow> (\<forall>a\<in>set xs. get (Some a) = Inr (f a))"

lemma readsD: "reads get f xs \<Longrightarrow> a \<in> set xs \<Longrightarrow> get (Some a) = Inr (f a)"
  by (simp add: reads_def)

lemma reads_mono: "reads get f xs \<Longrightarrow> set ys \<subseteq> set xs \<Longrightarrow> reads get f ys"
  by (auto simp: reads_def)

lemma search_from_finds:
  assumes "linked nx (p # c # vs)" "ksorted key (p # c # vs)" "key p < k"
    and "k \<le> key (last (c # vs))"
    and "reads K key (p # c # vs)" "reads N nx (p # c # vs)" "length vs < n"
  shows "\<exists>us p' c' ws. p # c # vs = us @ p' # c' # ws \<and> key p' < k \<and> k \<le> key c'
    \<and> search_from n K N k (Some p) (Some c) = Inr (Some p', Some c')"
  using assms
proof (induction vs arbitrary: n p c)
  case Nil
  then show ?case
    by (intro exI [of _ "[]"] exI [of _ p] exI [of _ c])
      (cases n; simp add: reads_def res_simps)
next
  case (Cons d vs)
  obtain m where n: "n = Suc m" using Cons.prems(7) by (cases n) auto
  have kc: "K (Some c) = Inr (key c)" "N (Some c) = Inr (nx c)" "nx c = Some d"
    using Cons.prems by (auto simp: reads_def)
  show ?case
  proof (cases "key c < k")
    case True
    have "\<exists>us p' c' ws. c # d # vs = us @ p' # c' # ws \<and> key p' < k \<and> k \<le> key c'
      \<and> search_from m K N k (Some c) (Some d) = Inr (Some p', Some c')"
      using Cons.prems n True by (intro Cons.IH) (auto elim: reads_mono)
    then obtain us p' c' ws where u: "c # d # vs = us @ p' # c' # ws" "key p' < k" "k \<le> key c'"
      "search_from m K N k (Some c) (Some d) = Inr (Some p', Some c')" by blast
    have "p # c # d # vs = (p # us) @ p' # c' # ws" using u(1) by simp
    moreover have "search_from n K N k (Some p) (Some c) = Inr (Some p', Some c')"
      using u(4) kc n True by simp
    ultimately show ?thesis using u(2,3) by blast
  next
    case False
    then have "search_from n K N k (Some p) (Some c) = Inr (Some p, Some c)" using kc n by simp
    then show ?thesis using False Cons.prems(3)
      by (intro exI [of _ "[]"] exI [of _ p] exI [of _ c] exI [of _ "d # vs"]) simp
  qed
qed

section \<open>Snapshots\<close>

definition bsucc :: "(nat \<Rightarrow> ptr bundle_t) \<Rightarrow> timestamp_t \<Rightarrow> nat \<Rightarrow> ptr" where
  "bsucc bun t a = succ_of (read_at (bun a) t)"

text \<open>
  \<open>Q\<close> is the chain of the nodes \<open>0 .. n - 1\<close> that the bundles describe at time \<open>t\<close>; a node
  that is not in it either has no entry that old or sends the reader back to the head.
\<close>

definition snap_path ::
    "(nat \<Rightarrow> int) \<Rightarrow> (nat \<Rightarrow> ptr bundle_t) \<Rightarrow> nat \<Rightarrow> nat \<Rightarrow> nat \<Rightarrow> timestamp_t \<Rightarrow> nat list \<Rightarrow> bool"
where
  "snap_path key bun n hd_a tl_a t Q \<longleftrightarrow>
     Q \<noteq> [] \<and> hd Q = hd_a \<and> last Q = tl_a \<and> linked (bsucc bun t) Q \<and> ksorted key Q
     \<and> (\<forall>a\<in>set Q. a < n) \<and> bun tl_a = []
     \<and> (\<forall>a<n. a \<notin> set Q \<longrightarrow> bsucc bun t a = None \<or> bsucc bun t a = Some hd_a)"

lemma snap_path_walk:
  assumes "snap_path key bun n ha ta t Q"
  shows "walk n (bsucc bun t) ha = Q"
proof -
  obtain xs where Q: "Q = ha # xs" using assms by (cases Q) (auto simp: snap_path_def)
  have "length Q \<le> n" using assms by (auto simp: snap_path_def intro!: ksorted_length)
  moreover have "bsucc bun t ta = None" using assms by (simp add: snap_path_def bsucc_def)
  ultimately show ?thesis using assms Q by (auto simp: snap_path_def intro!: walk_linked)
qed

lemma snap_path_unique:
  "snap_path key bun n ha ta t Q \<Longrightarrow> snap_path key bun n ha ta t R \<Longrightarrow> Q = R"
  using snap_path_walk by metis

section \<open>Following bundles computes the snapshot\<close>

lemma follow_snap:
  assumes "reads B bun [a]" "bundle_ok (bun a)" "bsucc bun t a = Some q"
  shows "follow B t (Some a) = Inr (Some q)"
proof -
  have "read_at (bun a) t = Some (Some q)"
    using assms(3) by (auto simp: bsucc_def succ_of_def split: option.splits)
  moreover from this have "bun a \<noteq> []" by auto
  ultimately show ?thesis
    using assms by (simp add: follow_def reads_def getPtrByTimestamp_read)
qed

lemma rq_enter_path:
  assumes "linked (bsucc bun t) (a # vs)" "lo \<le> key (last (a # vs))"
    and "reads K key (a # vs)" "reads B bun (a # vs)" "\<forall>x\<in>set (a # vs). bundle_ok (bun x)"
    and "length vs < n"
  shows "rq_enter n K B t lo (Some a) = Inr (Some (hd (dropWhile (\<lambda>x. key x < lo) (a # vs))))"
  using assms
proof (induction vs arbitrary: a n)
  case Nil
  then show ?case by (cases n) (auto simp: reads_def)
next
  case (Cons b vs)
  obtain m where n: "n = Suc m" using Cons.prems(6) by (cases n) auto
  have k: "K (Some a) = Inr (key a)" using Cons.prems(3) by (auto simp: reads_def)
  have f: "follow B t (Some a) = Inr (Some b)"
    using Cons.prems by (intro follow_snap) (auto simp: reads_def)
  have "rq_enter m K B t lo (Some b) = Inr (Some (hd (dropWhile (\<lambda>x. key x < lo) (b # vs))))"
    using Cons.prems n by (intro Cons.IH) (auto elim: reads_mono)
  then show ?case using n k f by simp
qed

lemma rq_collect_path:
  assumes "linked (bsucc bun t) (a # vs)" "hi < key (last (a # vs))"
    and "reads K key (a # vs)" "reads B bun (a # vs)" "\<forall>x\<in>set (a # vs). bundle_ok (bun x)"
    and "reads G (\<lambda>x. [kv x]) (a # vs)" "length vs < n"
  shows "rq_collect n K G B t lo hi (Some a) acc =
    Inr (Some (hd (dropWhile (\<lambda>x. key x \<le> hi) (a # vs))),
      acc @ map kv (filter (\<lambda>x. lo \<le> key x) (takeWhile (\<lambda>x. key x \<le> hi) (a # vs))))"
  using assms
proof (induction vs arbitrary: a n acc)
  case Nil
  then show ?case by (cases n) (auto simp: reads_def)
next
  case (Cons b vs)
  obtain m where n: "n = Suc m" using Cons.prems(7) by (cases n) auto
  have k: "K (Some a) = Inr (key a)" "G (Some a) = Inr [kv a]"
    using Cons.prems(3,6) by (auto simp: reads_def)
  have f: "follow B t (Some a) = Inr (Some b)"
    using Cons.prems by (intro follow_snap) (auto simp: reads_def)
  have "rq_collect m K G B t lo hi (Some b) acc' =
    Inr (Some (hd (dropWhile (\<lambda>x. key x \<le> hi) (b # vs))),
      acc' @ map kv (filter (\<lambda>x. lo \<le> key x) (takeWhile (\<lambda>x. key x \<le> hi) (b # vs))))" for acc'
    using Cons.prems n by (intro Cons.IH) (auto elim: reads_mono)
  then show ?case using n k f by simp
qed

lemma takeWhile_sorted:
  "ksorted key xs \<Longrightarrow> takeWhile (\<lambda>x. key x \<le> hi) xs = filter (\<lambda>x. key x \<le> hi) xs"
proof (induction xs)
  case (Cons a xs)
  have "\<not> key a \<le> hi \<Longrightarrow> filter (\<lambda>x. key x \<le> hi) xs = []"
    using Cons.prems by (fastforce simp: filter_empty_conv)
  then show ?case using Cons by auto
qed simp

lemma dropWhile_sorted:
  "ksorted key xs \<Longrightarrow> dropWhile (\<lambda>x. key x < lo) xs = filter (\<lambda>x. lo \<le> key x) xs"
proof (induction xs)
  case (Cons a xs)
  have "\<not> key a < lo \<Longrightarrow> filter (\<lambda>x. lo \<le> key x) xs = xs"
    using Cons.prems by (fastforce simp: filter_id_conv)
  then show ?case using Cons by auto
qed simp

text \<open>The loop along the newest entries ends at the first node that is not in front of the key.\<close>

lemma getPtr_loop_path:
  assumes "linked nxt (a # vs)" "k \<le> key (last (a # vs))"
    and "reads K key (a # vs)" "reads B bun (a # vs)"
    and "\<forall>x\<in>set (butlast (a # vs)). getPtr (bun x) = Inr (nxt x)" "length vs < n"
  shows "getPtr_loop n K B k (Some a) = Inr (Some (hd (dropWhile (\<lambda>x. key x < k) (a # vs))))"
  using assms
proof (induction vs arbitrary: a n)
  case Nil
  then show ?case by (cases n) (auto simp: reads_def)
next
  case (Cons b vs)
  obtain m where n: "n = Suc m" using Cons.prems(6) by (cases n) auto
  have r: "K (Some a) = Inr (key a)" "B (Some a) = Inr (bun a)" using Cons.prems(3,4) by (auto simp: reads_def)
  have "getPtr (bun a) = Inr (Some b)" using Cons.prems(1,5) by simp
  moreover have "getPtr_loop m K B k (Some b) = Inr (Some (hd (dropWhile (\<lambda>x. key x < k) (b # vs))))"
    using Cons.prems n by (intro Cons.IH) (auto elim: reads_mono)
  ultimately show ?case using n r by simp
qed

text \<open>Entering and collecting from a node of a sorted chain.\<close>

lemma rq_range_from:
  assumes lnk: "linked (bsucc bun t) (q # vs)" and srt: "ksorted key (q # vs)"
    and hi: "hi < key (last (q # vs))" "lo \<le> key (last (q # vs))"
    and acc: "reads K key (q # vs)" "reads B bun (q # vs)" "\<forall>x\<in>set (q # vs). bundle_ok (bun x)"
      "reads G (\<lambda>x. [kv x]) (q # vs)" and len: "length vs < m"
  shows "\<exists>c1 c'. rq_enter m K B t lo (Some q) = Inr (Some c1) \<and>
    rq_collect m K G B t lo hi (Some c1) res =
      Inr (Some c', res @ map kv (filter (\<lambda>x. lo \<le> key x \<and> key x \<le> hi) (q # vs)))"
proof -
  let ?d = "dropWhile (\<lambda>x. key x < lo) (q # vs)"
  have e: "rq_enter m K B t lo (Some q) = Inr (Some (hd ?d))"
    using lnk hi(2) acc len by (intro rq_enter_path) auto
  have "\<exists>x\<in>set (q # vs). \<not> key x < lo" using hi(2) by (metis last_in_set list.discI not_less)
  then have "?d \<noteq> []" by (auto simp: dropWhile_eq_Nil_conv)
  then obtain c1 ws where d: "?d = c1 # ws" by (cases ?d) auto
  obtain zs where zs: "q # vs = zs @ c1 # ws" using d by (metis takeWhile_dropWhile_id)
  have cs: "ksorted key (c1 # ws)" using srt zs by (simp add: sorted_wrt_append)
  have cset: "set (c1 # ws) \<subseteq> set (q # vs)" unfolding zs by auto
  have "linked (bsucc bun t) (c1 # ws)" using lnk zs linked_split by metis
  moreover have "last (c1 # ws) = last (q # vs)" unfolding zs by simp
  moreover have "length ws < m" using len zs by (cases zs) auto
  ultimately have col: "rq_collect m K G B t lo hi (Some c1) res =
    Inr (Some (hd (dropWhile (\<lambda>x. key x \<le> hi) (c1 # ws))),
      res @ map kv (filter (\<lambda>x. lo \<le> key x) (takeWhile (\<lambda>x. key x \<le> hi) (c1 # ws))))"
    using hi acc cset by (intro rq_collect_path) (auto elim!: reads_mono)
  have "takeWhile (\<lambda>x. key x \<le> hi) (c1 # ws) = filter (\<lambda>x. key x \<le> hi) (c1 # ws)"
    by (rule takeWhile_sorted [OF cs])
  moreover have "c1 # ws = filter (\<lambda>x. lo \<le> key x) (q # vs)"
    using d dropWhile_sorted [OF srt, of lo] by simp
  ultimately have "filter (\<lambda>x. lo \<le> key x) (takeWhile (\<lambda>x. key x \<le> hi) (c1 # ws)) =
      filter (\<lambda>x. lo \<le> key x \<and> key x \<le> hi) (q # vs)"
    by (simp only: filter_filter) (rule filter_cong; auto)
  with col have "rq_collect m K G B t lo hi (Some c1) res =
    Inr (Some (hd (dropWhile (\<lambda>x. key x \<le> hi) (c1 # ws))),
      res @ map kv (filter (\<lambda>x. lo \<le> key x \<and> key x \<le> hi) (q # vs)))"
    by (simp only:)
  moreover have "rq_enter m K B t lo (Some q) = Inr (Some c1)" using e d by simp
  ultimately show ?thesis by (intro exI conjI)
qed

lemma filter_butlast: "xs \<noteq> [] \<Longrightarrow> \<not> P (last xs) \<Longrightarrow> filter P (butlast xs) = filter P xs"
  by (induction xs rule: rev_induct) auto

text \<open>
  From which node the query may start: one in the chain in front of the range (or the
  head itself), or one outside the chain, which sends the query back to the head.
\<close>

lemma rq_start:
  assumes snap: "snap_path key bun n ha ta t Q"
    and p: "p < n" "bsucc bun t p = Some q" "key p < lo \<or> p = ha"
    and hi: "hi < key ta" and ha: "p \<notin> set Q \<longrightarrow> key ha < lo"
  shows "\<exists>us vs. Q = us @ q # vs \<and>
    filter (\<lambda>x. lo \<le> key x \<and> key x \<le> hi) (q # vs) =
    filter (\<lambda>x. lo \<le> key x \<and> key x \<le> hi) (butlast (tl Q))"
proof (cases "p \<in> set Q")
  case True
  let ?P = "\<lambda>x. lo \<le> key x \<and> key x \<le> hi"
  have Q: "Q \<noteq> []" "hd Q = ha" "last Q = ta" "linked (bsucc bun t) Q" "ksorted key Q"
    using snap by (auto simp: snap_path_def)
  have nta: "p \<noteq> ta" using snap p(2) by (auto simp: snap_path_def bsucc_def)
  obtain us vs where s: "Q = us @ p # vs" using True by (auto simp: in_set_conv_decomp)
  then obtain v ws where v: "vs = v # ws" using Q(3) nta by (cases vs) auto
  then have vq: "v = q" using Q(4) s p(2) by (simp add: linked_mid)
  have last: "last (q # ws) = ta" using Q(3) s v vq by simp
  have A: "filter ?P (butlast (q # ws)) = filter ?P (q # ws)"
    using last hi by (intro filter_butlast) auto
  show ?thesis
  proof (cases us)
    case Nil
    then have "tl Q = q # ws" using s v vq by simp
    then show ?thesis using A s v vq by (intro exI [of _ "us @ [p]"] exI [of _ ws]) simp
  next
    case (Cons u us')
    then have "key ha < key p" using Q(2,5) s by (auto simp: sorted_wrt_append)
    then have lt: "key p < lo" using p(3) by auto
    then have "\<forall>x\<in>set (us' @ [p]). key x < lo"
      using Q(5) s Cons by (force simp: sorted_wrt_append)
    then have "filter ?P (us' @ [p]) = []" unfolding filter_empty_conv by force
    moreover have "butlast (tl Q) = (us' @ [p]) @ butlast (q # ws)"
      using s v vq Cons by (simp add: butlast_append)
    ultimately have "filter ?P (butlast (tl Q)) = filter ?P (butlast (q # ws))"
      by (simp only: filter_append append_Nil)
    then have "filter ?P (butlast (tl Q)) = filter ?P (q # ws)" by (simp only: A)
    then show ?thesis using s v vq by (intro exI [of _ "us @ [p]"] exI [of _ ws]) simp
  qed
next
  case False
  let ?P = "\<lambda>x. lo \<le> key x \<and> key x \<le> hi"
  have Q: "Q \<noteq> []" "hd Q = ha" "last Q = ta" using snap by (auto simp: snap_path_def)
  have q: "q = ha" using snap p False by (auto simp: snap_path_def)
  have lt: "key ha < lo" using ha False by simp
  obtain vs where s: "Q = ha # vs" using Q by (cases Q) auto
  show ?thesis
  proof (cases "vs = []")
    case True
    then show ?thesis using s q lt by (intro exI [of _ "[]"] exI [of _ vs]) simp
  next
    case F: False
    then have "last vs = ta" using Q(3) s by simp
    then have "filter ?P (butlast vs) = filter ?P vs" using hi F by (intro filter_butlast) auto
    then show ?thesis using s q lt by (intro exI [of _ "[]"] exI [of _ vs]) simp
  qed
qed

text \<open>
  Phases 2 and 3 of a range query from any node \<open>p\<close> that has an entry for the snapshot,
  in the chain or not: the query ends at a node behind the range and has collected
  exactly the nodes of the snapshot in the range.
\<close>

lemma rq_phases:
  assumes snap: "snap_path key bun n ha ta t Q"
    and p: "p < n" "bsucc bun t p \<noteq> None" "key p < lo \<or> p = ha"
    and hi: "hi < key ta" "lo \<le> key ta"
    and acc: "reads K key [0..<n]" "reads B bun [0..<n]" "\<forall>x<n. bundle_ok (bun x)"
      "reads G (\<lambda>x. [kv x]) [0..<n]" "n \<le> m"
    and ha: "p \<notin> set Q \<longrightarrow> key ha < lo"
  shows "\<exists>c c1 c'. follow B t (Some p) = Inr (Some c) \<and> rq_enter m K B t lo (Some c) = Inr (Some c1)
    \<and> rq_collect m K G B t lo hi (Some c1) res =
        Inr (Some c', res @ map kv (filter (\<lambda>x. lo \<le> key x \<and> key x \<le> hi) (butlast (tl Q))))"
proof -
  obtain q where q: "bsucc bun t p = Some q" using p(2) by auto
  have f: "follow B t (Some p) = Inr (Some q)"
    using acc p q by (intro follow_snap) (auto simp: reads_def)
  obtain us vs where s: "Q = us @ q # vs"
    and flt: "filter (\<lambda>x. lo \<le> key x \<and> key x \<le> hi) (q # vs) =
      filter (\<lambda>x. lo \<le> key x \<and> key x \<le> hi) (butlast (tl Q))"
    using rq_start [OF snap p(1) q p(3) hi(1) ha] by auto
  have Q: "last Q = ta" "linked (bsucc bun t) Q" "ksorted key Q" "\<forall>a\<in>set Q. a < n"
    using snap by (auto simp: snap_path_def)
  have lnk: "linked (bsucc bun t) (q # vs)" using Q(2) s linked_split by metis
  have srt: "ksorted key (q # vs)" using Q(3) s by (simp add: sorted_wrt_append)
  have sub: "set (q # vs) \<subseteq> set [0..<n]" "\<forall>x\<in>set (q # vs). x < n" using Q(4) s by auto
  have "length (q # vs) \<le> n" using ksorted_length [OF srt sub(2)] .
  then have "length vs < m" using acc(5) by simp
  moreover have "last (q # vs) = ta" using Q(1) s by simp
  ultimately obtain c1 c' where
    "rq_enter m K B t lo (Some q) = Inr (Some c1)"
    "rq_collect m K G B t lo hi (Some c1) res =
      Inr (Some c', res @ map kv (filter (\<lambda>x. lo \<le> key x \<and> key x \<le> hi) (q # vs)))"
    using rq_range_from [OF lnk srt, of hi lo K B G kv m res] hi
      acc(1,2,4) [THEN reads_mono, OF sub(1)] acc(3) sub(2) by auto
  then show ?thesis unfolding flt using f by (intro exI conjI)
qed

end
