(* ===== verification/Bundle_Chain.thy ===== *)
theory Bundle_Chain
  imports Bundle_Path
begin

text \<open>
  The invariant of a sorted chain whose links are bundled, and its preservation by the
  two updates: linking a new node and unlinking a node. Both push one entry, with the
  timestamp of the update, on the two bundles they concern; every older snapshot is left
  as it was, by the laws of versioned cells.
\<close>

text \<open>
  \<open>P\<close> is the current chain: its nodes are live and their newest bundle entry agrees with
  \<open>nxt\<close>; every other node is dead and its newest entry leads back to the head. Linked or dead,
  a node's \<open>nxt\<close> leads to a larger key, so that an old search always arrives.
\<close>

definition chain_inv ::
    "(nat \<Rightarrow> int) \<Rightarrow> (nat \<Rightarrow> ptr) \<Rightarrow> (nat \<Rightarrow> ptr bundle_t) \<Rightarrow> (nat \<Rightarrow> bool) \<Rightarrow> nat
      \<Rightarrow> nat \<Rightarrow> nat \<Rightarrow> timestamp_t \<Rightarrow> nat list \<Rightarrow> bool"
where
  "chain_inv key nxt bun dead n ha ta now P \<longleftrightarrow>
     P \<noteq> [] \<and> hd P = ha \<and> last P = ta \<and> linked nxt P \<and> ksorted key P
     \<and> (\<forall>a\<in>set P. a < n \<and> \<not> dead a) \<and> nxt ta = None \<and> bun ta = []
     \<and> (\<forall>a<n. bundle_ok (bun a) \<and> newest_ts (bun a) \<le> now)
     \<and> (\<forall>a\<in>set P. a \<noteq> ta \<longrightarrow> bun a \<noteq> [] \<and> entry_ptr (hd (bun a)) = nxt a)
     \<and> (\<forall>a<n. a \<notin> set P \<longrightarrow> dead a \<and> bun a \<noteq> [] \<and> entry_ptr (hd (bun a)) = Some ha)
     \<and> (\<forall>a<n. a \<noteq> ta \<longrightarrow> (\<exists>b<n. nxt a = Some b \<and> key a < key b))"

definition snaps_inv ::
    "timestamp_t \<Rightarrow> (nat \<Rightarrow> int) \<Rightarrow> (nat \<Rightarrow> ptr bundle_t) \<Rightarrow> nat \<Rightarrow> nat \<Rightarrow> nat \<Rightarrow> timestamp_t \<Rightarrow> bool"
where
  "snaps_inv base key bun n ha ta now \<longleftrightarrow>
     (\<forall>u. base \<le> u \<and> u \<le> now \<longrightarrow> (\<exists>Q. snap_path key bun n ha ta u Q))"

lemma chain_invD:
  assumes "chain_inv key nxt bun dead n ha ta now P"
  shows "P \<noteq> []" "hd P = ha" "last P = ta" "linked nxt P" "ksorted key P"
    "\<forall>a\<in>set P. a < n \<and> \<not> dead a" "nxt ta = None" "bun ta = []"
    "\<forall>a<n. bundle_ok (bun a) \<and> newest_ts (bun a) \<le> now"
    "\<forall>a\<in>set P. a \<noteq> ta \<longrightarrow> bun a \<noteq> [] \<and> entry_ptr (hd (bun a)) = nxt a"
    "\<forall>a<n. a \<notin> set P \<longrightarrow> dead a \<and> bun a \<noteq> [] \<and> entry_ptr (hd (bun a)) = Some ha"
    "distinct P" "ta \<in> set P" "\<forall>a<n. a \<noteq> ta \<longrightarrow> (\<exists>b<n. nxt a = Some b \<and> key a < key b)"
  using assms ksorted_distinct last_in_set unfolding chain_inv_def by blast+

lemma chain_invI:
  assumes "P \<noteq> []" "hd P = ha" "last P = ta" "linked nxt P" "ksorted key P"
    "\<And>a. a \<in> set P \<Longrightarrow> a < n \<and> \<not> dead a" "nxt ta = None" "bun ta = []"
    "\<And>a. a < n \<Longrightarrow> bundle_ok (bun a) \<and> newest_ts (bun a) \<le> now"
    "\<And>a. a \<in> set P \<Longrightarrow> a \<noteq> ta \<Longrightarrow> bun a \<noteq> [] \<and> entry_ptr (hd (bun a)) = nxt a"
    "\<And>a. a < n \<Longrightarrow> a \<notin> set P \<Longrightarrow> dead a \<and> bun a \<noteq> [] \<and> entry_ptr (hd (bun a)) = Some ha"
    "\<And>a. a < n \<Longrightarrow> a \<noteq> ta \<Longrightarrow> \<exists>b<n. nxt a = Some b \<and> key a < key b"
  shows "chain_inv key nxt bun dead n ha ta now P"
  using assms by (simp add: chain_inv_def)

lemma hd_push [simp]: "push_entry t q b \<noteq> []" "entry_ptr (hd (push_entry t q b)) = q"
  by (simp_all add: push_entry_def)

lemma not_last: "distinct (us @ p # c # vs) \<Longrightarrow> last (us @ p # c # vs) \<noteq> p"
  using last_in_set [of "c # vs"] by auto

lemma bsucc_newest:
  "bun a \<noteq> [] \<Longrightarrow> newest_ts (bun a) \<le> u \<Longrightarrow> bsucc bun u a = entry_ptr (hd (bun a))"
  by (simp add: bsucc_def read_at_newest)

lemma bsucc_Nil: "bun a = [] \<Longrightarrow> bsucc bun u a = None"
  by (simp add: bsucc_def)

lemma last_butlast_distinct:
  "ksorted key P \<Longrightarrow> a \<in> set (butlast P) \<Longrightarrow> a \<noteq> last P"
  by (induction P rule: rev_induct) (auto simp: sorted_wrt_append)

text \<open>The snapshot of the present is the chain itself.\<close>

lemma chain_now:
  assumes "chain_inv key nxt bun dead n ha ta now P"
  shows "snap_path key bun n ha ta now P"
proof -
  have eq: "bsucc bun now a = nxt a" if "a \<in> set P" "a \<noteq> ta" for a
    using assms that by (subst bsucc_newest) (auto simp: chain_inv_def)
  have "linked (bsucc bun now) P \<longleftrightarrow> linked nxt P"
    using assms last_butlast_distinct [of key P]
    by (intro linked_cong) (auto simp: chain_inv_def dest: in_set_butlastD intro!: eq)
  moreover have "bsucc bun now a = Some ha" if "a < n" "a \<notin> set P" for a
    using assms that by (subst bsucc_newest) (auto simp: chain_inv_def)
  ultimately show ?thesis using assms by (auto simp: chain_inv_def snap_path_def)
qed

text \<open>Pushing entries with a later timestamp leaves an old snapshot as it was.\<close>

lemma snap_path_push:
  assumes snap: "snap_path key bun n ha ta u Q"
    and same: "\<And>a. a < n \<Longrightarrow> bun' a = bun a \<or> (\<exists>q. bun' a = push_entry t q (bun a)
        \<and> bundle_ok (bun a) \<and> newest_ts (bun a) \<le> t)"
    and new: "\<And>a. n \<le> a \<Longrightarrow> a < n' \<Longrightarrow> bsucc bun' u a = None"
    and u: "u < t" and n: "n \<le> n'" and key: "\<And>a. a < n \<Longrightarrow> key' a = key a"
    and ta: "bun' ta = []"
  shows "snap_path key' bun' n' ha ta u Q"
proof -
  have eq: "bsucc bun' u a = bsucc bun u a" if "a < n" for a
    using lb.snapshot_stable [of "{..<n}" bun' bun t u a] same u that
    by (auto simp: bsucc_def)
  have "linked (bsucc bun' u) Q \<longleftrightarrow> linked (bsucc bun u) Q"
    using snap by (intro linked_cong) (auto simp: snap_path_def dest: in_set_butlastD intro!: eq)
  moreover have "ksorted key' Q"
    using snap key by (auto simp: snap_path_def elim!: sorted_wrt_mono_rel [rotated])
  moreover have "bsucc bun' u a = None \<or> bsucc bun' u a = Some ha" if "a < n'" "a \<notin> set Q" for a
    using snap that eq [of a] new [of a] by (cases "a < n") (auto simp: snap_path_def)
  ultimately show ?thesis using snap n ta by (auto simp: snap_path_def)
qed

section \<open>Linking a node\<close>

definition ins_nxt where
  "ins_nxt nxt p c nn = (nxt :: nat \<Rightarrow> ptr)(p := Some nn, nn := Some c)"

definition ins_bun where
  "ins_bun bun t p c nn = (bun :: nat \<Rightarrow> ptr bundle_t)
     (p := push_entry t (Some nn) (bun p), nn := push_entry t (Some c) [])"

lemma chain_insert:
  assumes inv: "chain_inv key nxt bun dead n ha ta now (us @ p # c # vs)"
    and k: "key p < k" "k < key c" and t: "0 \<le> now" "now < t" "t < LLONG_MAX"
  shows "chain_inv (key(n := k)) (ins_nxt nxt p c n) (ins_bun bun t p c n) (dead(n := False))
    (Suc n) ha ta t (us @ p # n # c # vs)"
proof -
  let ?P = "us @ p # c # vs" and ?P' = "us @ p # n # c # vs"
  note i = chain_invD [OF inv]
  have fresh: "n \<notin> set ?P" using i(6) by auto
  have dist: "distinct ?P" by (rule i(12))
  have pta: "p \<noteq> ta" using not_last [OF dist] i(3) by simp
  have nta: "n \<noteq> ta" using i(13) fresh by metis
  have "linked (ins_nxt nxt p c n) (us @ [p]) \<longleftrightarrow> linked nxt (us @ [p])"
    using fresh dist by (intro linked_cong) (auto simp: ins_nxt_def)
  moreover have "linked (ins_nxt nxt p c n) (c # vs) \<longleftrightarrow> linked nxt (c # vs)"
    using fresh dist by (intro linked_cong_set) (auto simp: ins_nxt_def)
  ultimately have "linked (ins_nxt nxt p c n) ?P'"
    using i fresh by (auto simp: linked_mid ins_nxt_def)
  moreover have "ksorted (key(n := k)) ?P'"
  proof -
    have "ksorted (key(n := k)) ?P"
      using i fresh by (auto elim!: sorted_wrt_mono_rel [rotated])
    then show ?thesis using k fresh by (fastforce simp: sorted_wrt_append)
  qed
  moreover have "bundle_ok (ins_bun bun t p c n a) \<and> newest_ts (ins_bun bun t p c n a) \<le> t"
    if "a < Suc n" for a
  proof -
    have "a \<noteq> n \<Longrightarrow> bundle_ok (bun a) \<and> newest_ts (bun a) \<le> t"
      using i(9) that t by (force simp: less_Suc_eq)
    then show ?thesis using t by (auto simp: ins_bun_def intro!: bundle_ok_push)
  qed
  moreover have "hd ?P' = ha" "last ?P' = ta" using i(2,3) by (auto simp: hd_append)
  moreover have "ins_nxt nxt p c n ta = None" "ins_bun bun t p c n ta = []"
    using i(7,8) pta nta by (auto simp: ins_nxt_def ins_bun_def)
  moreover have "a < Suc n \<and> \<not> (dead(n := False)) a" if "a \<in> set ?P'" for a
    using bspec [OF i(6), of a] that by auto
  moreover have "ins_bun bun t p c n a \<noteq> [] \<and> entry_ptr (hd (ins_bun bun t p c n a)) = ins_nxt nxt p c n a"
    if "a \<in> set ?P'" "a \<noteq> ta" for a
    using i(10) that by (auto simp: ins_bun_def ins_nxt_def)
  moreover have "(dead(n := False)) a \<and> ins_bun bun t p c n a \<noteq> []
      \<and> entry_ptr (hd (ins_bun bun t p c n a)) = Some ha" if "a < Suc n" "a \<notin> set ?P'" for a
    using i(11) that by (auto simp: ins_bun_def)
  moreover have "\<exists>b<Suc n. ins_nxt nxt p c n a = Some b \<and> (key(n := k)) a < (key(n := k)) b"
    if "a < Suc n" "a \<noteq> ta" for a
  proof -
    have pn: "p < n" "c < n" "p \<noteq> n" "c \<noteq> n" using i(6) fresh by auto
    have *: "a \<noteq> n \<Longrightarrow> a \<noteq> p \<Longrightarrow> \<exists>b<n. nxt a = Some b \<and> key a < key b"
      using i(14) that by (metis less_SucE)
    show ?thesis
    proof (cases "a = n \<or> a = p")
      case True
      then show ?thesis using k pn by (auto simp: ins_nxt_def)
    next
      case False
      then obtain b where "b < n" "nxt a = Some b" "key a < key b" using * by blast
      then show ?thesis using False by (intro exI [of _ b]) (simp add: ins_nxt_def)
    qed
  qed
  ultimately show ?thesis by (intro chain_invI) simp_all
qed

lemma snaps_insert:
  assumes inv: "chain_inv key nxt bun dead n ha ta now (us @ p # c # vs)"
    and k: "key p < k" "k < key c" and t: "0 \<le> now" "t = now + 1" "t < LLONG_MAX"
    and sn: "snaps_inv base key bun n ha ta now"
  shows "snaps_inv base (key(n := k)) (ins_bun bun t p c n) (Suc n) ha ta t"
    and "\<And>u Q. u \<le> now \<Longrightarrow> snap_path key bun n ha ta u Q \<Longrightarrow>
      snap_path (key(n := k)) (ins_bun bun t p c n) (Suc n) ha ta u Q"
proof -
  note i = chain_invD [OF inv]
  have new: "chain_inv (key(n := k)) (ins_nxt nxt p c n) (ins_bun bun t p c n) (dead(n := False))
    (Suc n) ha ta t (us @ p # n # c # vs)"
    using chain_insert [OF inv k] t by simp
  show old: "snap_path (key(n := k)) (ins_bun bun t p c n) (Suc n) ha ta u Q"
    if "u \<le> now" "snap_path key bun n ha ta u Q" for u Q
  proof (rule snap_path_push [OF that(2), where t = t])
    show "ins_bun bun t p c n ta = []" using new by (simp add: chain_inv_def)
    show "ins_bun bun t p c n a = bun a \<or> (\<exists>q. ins_bun bun t p c n a = push_entry t q (bun a)
        \<and> bundle_ok (bun a) \<and> newest_ts (bun a) \<le> t)" if "a < n" for a
      using i(9) that t by (auto simp: ins_bun_def)
    show "bsucc (ins_bun bun t p c n) u a = None" if "n \<le> a" "a < Suc n" for a
      using that \<open>u \<le> now\<close> t by (simp add: ins_bun_def bsucc_def)
  qed (use that t in auto)
  show "snaps_inv base (key(n := k)) (ins_bun bun t p c n) (Suc n) ha ta t"
    unfolding snaps_inv_def
  proof (intro allI impI)
    fix u assume "base \<le> u \<and> u \<le> t"
    then have "u = t \<or> base \<le> u \<and> u \<le> now" using t(2) by auto
    then show "\<exists>Q. snap_path (key(n := k)) (ins_bun bun t p c n) (Suc n) ha ta u Q"
    proof
      assume "u = t"
      then show ?thesis using chain_now [OF new] by auto
    next
      assume u: "base \<le> u \<and> u \<le> now"
      then obtain Q where "snap_path key bun n ha ta u Q" using sn unfolding snaps_inv_def by blast
      from old [OF conjunct2 [OF u] this] show ?thesis by (rule exI)
    qed
  qed
qed

section \<open>Unlinking a node\<close>

definition del_bun where
  "del_bun bun t p c d ha = (bun :: nat \<Rightarrow> ptr bundle_t)
     (p := push_entry t (Some d) (bun p), c := push_entry t (Some ha) (bun c))"

lemma chain_erase:
  assumes inv: "chain_inv key nxt bun dead n ha ta now (us @ p # c # d # vs)"
    and t: "0 \<le> now" "now < t" "t < LLONG_MAX"
  shows "chain_inv key (nxt(p := Some d)) (del_bun bun t p c d ha) (dead(c := True))
    n ha ta t (us @ p # d # vs)"
proof -
  let ?P = "us @ p # c # d # vs" and ?P' = "us @ p # d # vs"
  note i = chain_invD [OF inv]
  have dist: "distinct ?P" by (rule i(12))
  have ta: "p \<noteq> ta" "c \<noteq> ta"
    using not_last [OF dist] not_last [of "us @ [p]" c d vs] dist i(3) by auto
  have "linked (nxt(p := Some d)) (us @ [p]) \<longleftrightarrow> linked nxt (us @ [p])"
    using dist by (intro linked_cong) auto
  moreover have "linked (nxt(p := Some d)) (d # vs) \<longleftrightarrow> linked nxt (d # vs)"
    using dist by (intro linked_cong_set) auto
  moreover have "linked nxt (us @ [p])" "linked nxt (d # vs)"
    using i linked_mid [of nxt us p c "d # vs"] by auto
  ultimately have "linked (nxt(p := Some d)) ?P'" by (auto simp: linked_mid)
  moreover have "ksorted key ?P'" using i by (auto simp: sorted_wrt_append)
  moreover have "bundle_ok (del_bun bun t p c d ha a) \<and> newest_ts (del_bun bun t p c d ha a) \<le> t"
    if "a < n" for a
  proof -
    have "bundle_ok (bun a) \<and> newest_ts (bun a) \<le> t" using i(9) that t by fastforce
    then show ?thesis using t by (auto simp: del_bun_def intro!: bundle_ok_push)
  qed
  moreover have "hd ?P' = ha" "last ?P' = ta" using i(2,3) by (auto simp: hd_append)
  moreover have "(nxt(p := Some d)) ta = None" "del_bun bun t p c d ha ta = []"
    using i(7,8) ta by (auto simp: del_bun_def)
  moreover have "a < n \<and> \<not> (dead(c := True)) a" if "a \<in> set ?P'" for a
    using i(6) dist that by force
  moreover have "del_bun bun t p c d ha a \<noteq> []
      \<and> entry_ptr (hd (del_bun bun t p c d ha a)) = (nxt(p := Some d)) a"
    if "a \<in> set ?P'" "a \<noteq> ta" for a
    using i(10) dist that by (auto simp: del_bun_def)
  moreover have "(dead(c := True)) a \<and> del_bun bun t p c d ha a \<noteq> []
      \<and> entry_ptr (hd (del_bun bun t p c d ha a)) = Some ha" if "a < n" "a \<notin> set ?P'" for a
    using i(11) that by (auto simp: del_bun_def)
  moreover have "\<exists>b<n. (nxt(p := Some d)) a = Some b \<and> key a < key b" if "a < n" "a \<noteq> ta" for a
  proof (cases "a = p")
    case True
    moreover have "key p < key d" "d < n" using i(5,6) by (auto simp: sorted_wrt_append)
    ultimately show ?thesis by simp
  next
    case False
    then show ?thesis using i(14) that by simp
  qed
  ultimately show ?thesis by (intro chain_invI) simp_all
qed

lemma snaps_erase:
  assumes inv: "chain_inv key nxt bun dead n ha ta now (us @ p # c # d # vs)"
    and t: "0 \<le> now" "t = now + 1" "t < LLONG_MAX"
    and sn: "snaps_inv base key bun n ha ta now"
  shows "snaps_inv base key (del_bun bun t p c d ha) n ha ta t"
    and "\<And>u Q. u \<le> now \<Longrightarrow> snap_path key bun n ha ta u Q \<Longrightarrow>
      snap_path key (del_bun bun t p c d ha) n ha ta u Q"
proof -
  note i = chain_invD [OF inv]
  have new: "chain_inv key (nxt(p := Some d)) (del_bun bun t p c d ha) (dead(c := True))
    n ha ta t (us @ p # d # vs)"
    using chain_erase [OF inv] t by simp
  show old: "snap_path key (del_bun bun t p c d ha) n ha ta u Q"
    if "u \<le> now" "snap_path key bun n ha ta u Q" for u Q
  proof (rule snap_path_push [OF that(2), where t = t])
    show "del_bun bun t p c d ha ta = []" using new by (simp add: chain_inv_def)
    show "del_bun bun t p c d ha a = bun a \<or> (\<exists>q. del_bun bun t p c d ha a = push_entry t q (bun a)
        \<and> bundle_ok (bun a) \<and> newest_ts (bun a) \<le> t)" if "a < n" for a
      using i(9) that t by (auto simp: del_bun_def)
  qed (use that t in auto)
  show "snaps_inv base key (del_bun bun t p c d ha) n ha ta t"
    unfolding snaps_inv_def
  proof (intro allI impI)
    fix u assume "base \<le> u \<and> u \<le> t"
    then have "u = t \<or> base \<le> u \<and> u \<le> now" using t(2) by auto
    then show "\<exists>Q. snap_path key (del_bun bun t p c d ha) n ha ta u Q"
    proof
      assume "u = t"
      then show ?thesis using chain_now [OF new] by auto
    next
      assume u: "base \<le> u \<and> u \<le> now"
      then obtain Q where "snap_path key bun n ha ta u Q" using sn unfolding snaps_inv_def by blast
      from old [OF conjunct2 [OF u] this] show ?thesis by (rule exI)
    qed
  qed
qed

lemma ins_bun_old: "u < t \<Longrightarrow> a \<noteq> nn \<Longrightarrow> bsucc (ins_bun bun t p c nn) u a = bsucc bun u a"
  by (simp add: ins_bun_def bsucc_def)

lemma del_bun_old: "u < t \<Longrightarrow> bsucc (del_bun bun t p c d ha) u a = bsucc bun u a"
  by (simp add: del_bun_def bsucc_def)

section \<open>Reclaiming entries\<close>

text \<open>Some bundles have been cut down to what a query at time \<open>t\<close> or later reads.\<close>

definition reclaimed :: "timestamp_t \<Rightarrow> (nat \<Rightarrow> ptr bundle_t) \<Rightarrow> (nat \<Rightarrow> ptr bundle_t) \<Rightarrow> bool" where
  "reclaimed t bun bun' \<longleftrightarrow> (\<forall>a. bun' a = bun a \<or> bun' a = fst (reclaimEntries t (bun a)))"

lemma reclaimed_at:
  assumes "reclaimed t bun bun'"
  shows "t \<le> u \<Longrightarrow> bsucc bun' u a = bsucc bun u a" "bundle_ok (bun a) \<Longrightarrow> bundle_ok (bun' a)"
    "newest_ts (bun' a) = newest_ts (bun a)" "bun' a = [] \<longleftrightarrow> bun a = []"
    "bun a \<noteq> [] \<Longrightarrow> hd (bun' a) = hd (bun a)"
proof -
  obtain old where old: "bun a = fst (reclaimEntries t (bun a)) @ old"
    "old \<noteq> [] \<longrightarrow> fst (reclaimEntries t (bun a)) \<noteq> []"
    by (rule reclaimEntries_prefix)
  have c: "bun' a = bun a \<or> bun' a = fst (reclaimEntries t (bun a))"
    using assms by (simp add: reclaimed_def)
  then show "t \<le> u \<Longrightarrow> bsucc bun' u a = bsucc bun u a" "bundle_ok (bun a) \<Longrightarrow> bundle_ok (bun' a)"
    "newest_ts (bun' a) = newest_ts (bun a)"
    by (auto simp: bsucc_def reclaimEntries_read reclaimEntries_newest intro: reclaimEntries_ok)
  show e: "bun' a = [] \<longleftrightarrow> bun a = []" using c old by (metis append_is_Nil_conv)
  show "bun a \<noteq> [] \<Longrightarrow> hd (bun' a) = hd (bun a)" using c old e by (metis hd_append2)
qed

lemma reclaimed_then:
  assumes "reclaimed t (b(a := fst (reclaimEntries t (b a)))) b'" "b' a = fst (reclaimEntries t (b a))"
  shows "reclaimed t b b'"
  unfolding reclaimed_def
proof
  fix x show "b' x = b x \<or> b' x = fst (reclaimEntries t (b x))"
    using assms(2) spec [OF assms(1) [unfolded reclaimed_def], of x] by (cases "x = a") simp_all
qed

lemma chain_reclaimed:
  assumes "chain_inv key nxt bun dead n ha ta now P" "reclaimed t bun bun'"
  shows "chain_inv key nxt bun' dead n ha ta now P"
proof -
  note i = chain_invD [OF assms(1)] and r = reclaimed_at(2-5) [OF assms(2)]
  show ?thesis
    using i(1-7) i(8-11) i(14) r by (intro chain_invI) simp_all
qed

lemma snaps_reclaimed:
  assumes "snaps_inv base key bun n ha ta now" "reclaimed t bun bun'" "base \<le> base'" "t \<le> base'"
  shows "snaps_inv base' key bun' n ha ta now"
    and "t \<le> u \<Longrightarrow> snap_path key bun n ha ta u Q \<Longrightarrow> snap_path key bun' n ha ta u Q"
proof -
  note r = reclaimed_at [OF assms(2)]
  show *: "t \<le> u \<Longrightarrow> snap_path key bun n ha ta u Q \<Longrightarrow> snap_path key bun' n ha ta u Q" for u Q
    using r(1) r(4) [of ta] by (simp add: snap_path_def)
  show "snaps_inv base' key bun' n ha ta now"
    unfolding snaps_inv_def
  proof (intro allI impI)
    fix u assume u: "base' \<le> u \<and> u \<le> now"
    then obtain Q where "snap_path key bun n ha ta u Q"
      using assms(1,3) unfolding snaps_inv_def by (metis order_trans)
    moreover have "t \<le> u" using u assms(4) by simp
    ultimately show "\<exists>Q. snap_path key bun' n ha ta u Q" using * by blast
  qed
qed

end
