(* ===== verification/Locks.thy ===== *)
theory Locks
  imports Prelude
begin

text \<open>
  The test-and-set lock of \<open>common/locks_impl.h\<close> on the lock word of a node. A lock that
  is held makes \<open>acquireLock\<close> spin until another thread releases it: \<open>Blocked\<close>.
\<close>

definition acquireLock :: "bool \<Rightarrow> bool res" where
  "acquireLock lock = (if lock then Inl Blocked else Inr True)"

definition releaseLock :: "bool \<Rightarrow> bool" where
  "releaseLock lock = False"

definition readLock :: "bool \<Rightarrow> bool" where
  "readLock lock = lock"

end
