(* ===== verification/Bundled_List.thy ===== *)
theory Bundled_List
  imports Bundle_Chain Locks
begin

text \<open>
  The bundled lazy list of \<open>bundle_lazylist/bundle_lazylist_impl.h\<close>. Every operation is
  one function of the whole code of the method, on an explicit heap. The optimistic
  search and the section under the locks are separate functions, so that the latter can
  be run on the result of a search made in an older state. Memory that is retired stays
  in the heap; the calls of the record manager are recorded.
\<close>

section \<open>State\<close>

record bl_node =
  key_bl :: int
  val_bl :: int
  next_bl :: ptr
  lock_bl :: bool
  marked_bl :: int
  rqbundle_bl :: "ptr bundle_t"

record bl_list =
  heap_bl :: "bl_node list"
  head_bl :: ptr
  rq_bl :: rqp
  retired_bl :: "ptr list"
  quiescent_bl :: "nat \<Rightarrow> bool"
  init_bl :: "nat \<Rightarrow> bool"
  KEY_MIN_bl :: int
  KEY_MAX_bl :: int
  NO_VALUE_bl :: int

definition leaveQuiescentState_bl :: "bl_list \<Rightarrow> nat \<Rightarrow> bl_list" where
  "leaveQuiescentState_bl s tid = s\<lparr>quiescent_bl := (quiescent_bl s)(tid := False)\<rparr>"

definition enterQuiescentState_bl :: "bl_list \<Rightarrow> nat \<Rightarrow> bl_list" where
  "enterQuiescentState_bl s tid = s\<lparr>quiescent_bl := (quiescent_bl s)(tid := True)\<rparr>"

definition initThread_bl :: "bl_list \<Rightarrow> nat \<Rightarrow> bl_list" where
  "initThread_bl s tid =
     (if init_bl s tid then s
      else s\<lparr>init_bl := (init_bl s)(tid := \<not> init_bl s tid),
             rq_bl := rq_initThread (rq_bl s) tid\<rparr>)"

definition deinitThread_bl :: "bl_list \<Rightarrow> nat \<Rightarrow> bl_list" where
  "deinitThread_bl s tid =
     (if \<not> init_bl s tid then s
      else s\<lparr>init_bl := (init_bl s)(tid := \<not> init_bl s tid),
             rq_bl := rq_deinitThread (rq_bl s) tid\<rparr>)"

section \<open>Access to nodes\<close>

definition keyof_bl :: "bl_node list \<Rightarrow> ptr \<Rightarrow> int res" where
  "keyof_bl h p = obind (deref h p) (\<lambda>n. Inr (key_bl n))"

definition nextof_bl :: "bl_node list \<Rightarrow> ptr \<Rightarrow> ptr res" where
  "nextof_bl h p = obind (deref h p) (\<lambda>n. Inr (next_bl n))"

definition bundleof_bl :: "bl_node list \<Rightarrow> ptr \<Rightarrow> ptr bundle_t res" where
  "bundleof_bl h p = obind (deref h p) (\<lambda>n. Inr (rqbundle_bl n))"

definition getKeys_bl :: "bl_node list \<Rightarrow> ptr \<Rightarrow> dict res" where
  "getKeys_bl h p = obind (deref h p) (\<lambda>n. Inr [(key_bl n, val_bl n)])"

definition upd_bundle_bl ::
    "bl_node list \<Rightarrow> ptr \<Rightarrow> (ptr bundle_t \<Rightarrow> ptr bundle_t res) \<Rightarrow> bl_node list res" where
  "upd_bundle_bl h p g = obind (deref h p) (\<lambda>n. obind (g (rqbundle_bl n))
     (\<lambda>b. update_at h p (\<lambda>n. n\<lparr>rqbundle_bl := b\<rparr>)))"

definition lock_node_bl :: "bl_list \<Rightarrow> ptr \<Rightarrow> bl_list res" where
  "lock_node_bl s p = obind (deref (heap_bl s) p) (\<lambda>n. obind (acquireLock (lock_bl n))
     (\<lambda>l. obind (update_at (heap_bl s) p (\<lambda>n. n\<lparr>lock_bl := l\<rparr>))
       (\<lambda>h. Inr (s\<lparr>heap_bl := h\<rparr>))))"

definition unlock_node_bl :: "bl_list \<Rightarrow> ptr \<Rightarrow> bl_list res" where
  "unlock_node_bl s p = obind (update_at (heap_bl s) p (\<lambda>n. n\<lparr>lock_bl := releaseLock (lock_bl n)\<rparr>))
     (\<lambda>h. Inr (s\<lparr>heap_bl := h\<rparr>))"

definition new_node_bl :: "bl_list \<Rightarrow> int \<Rightarrow> int \<Rightarrow> ptr \<Rightarrow> ptr \<times> bl_list" where
  "new_node_bl s key val nxt =
     (Some (length (heap_bl s)),
      s\<lparr>heap_bl := heap_bl s @ [\<lparr>key_bl = key, val_bl = val, next_bl = nxt, lock_bl = False,
         marked_bl = 0, rqbundle_bl = init_bundle\<rparr>]\<rparr>)"

definition validateLinks_bl :: "bl_list \<Rightarrow> ptr \<Rightarrow> ptr \<Rightarrow> bool res" where
  "validateLinks_bl s pred cur =
     obind (deref (heap_bl s) pred) (\<lambda>pn. obind (deref (heap_bl s) cur) (\<lambda>cn.
       Inr (marked_bl pn = 0 \<and> marked_bl cn = 0 \<and> next_bl pn = cur)))"

section \<open>Construction\<close>

definition bundle_lazylist :: "nat \<Rightarrow> nat \<Rightarrow> build_mode \<Rightarrow> bool \<Rightarrow> int \<Rightarrow> int \<Rightarrow> int \<Rightarrow> bl_list res" where
  "bundle_lazylist max_tid numProcesses md cl kmin kmax no_value =
     obind (RQProvider max_tid numProcesses md cl) (\<lambda>prov.
     (let s0 = initThread_bl \<lparr>heap_bl = [], head_bl = None, rq_bl = prov, retired_bl = [],
            quiescent_bl = (\<lambda>_. True), init_bl = (\<lambda>_. False),
            KEY_MIN_bl = kmin, KEY_MAX_bl = kmax, NO_VALUE_bl = no_value\<rparr> 0;
          (mx, s1) = new_node_bl s0 kmax 0 None;
          (hd_p, s2) = new_node_bl s1 kmin 0 None;
          s3 = s2\<lparr>head_bl := hd_p\<rparr>;
          bundles = [(hd_p, mx)]
      in obind (prepare_bundles (rq_bl s3) upd_bundle_bl bundles (heap_bl s3)) (\<lambda>h1.
         obind (linearize_update_at_write (rq_bl s3) 0
            (\<lambda>h. update_at h hd_p (\<lambda>n. n\<lparr>next_bl := mx\<rparr>)) h1) (\<lambda>(lin_time, rq', h2).
         obind (finalize_bundles upd_bundle_bl bundles lin_time h2) (\<lambda>h3.
         Inr (s3\<lparr>heap_bl := h3, rq_bl := rq'\<rparr>))))))"

section \<open>Operations\<close>

text \<open>The traversal along \<open>next\<close> with which \<open>doInsert\<close> and \<open>erase\<close> begin.\<close>

definition search_bl :: "bl_list \<Rightarrow> int \<Rightarrow> (ptr \<times> ptr) res" where
  "search_bl s key =
     obind (nextof_bl (heap_bl s) (head_bl s)) (\<lambda>cur.
       search_from (length (heap_bl s)) (keyof_bl (heap_bl s)) (nextof_bl (heap_bl s)) key (head_bl s) cur)"

definition contains_bl :: "bl_list \<Rightarrow> nat \<Rightarrow> int \<Rightarrow> (bl_list \<times> bool) res" where
  "contains_bl s tid key =
     (let s0 = leaveQuiescentState_bl s tid; h = heap_bl s0; n = Suc (length h) in
      obind (search_from n (keyof_bl h) (nextof_bl h) key (head_bl s0) (head_bl s0)) (\<lambda>(pred, _).
      obind (bundleof_bl h pred) (\<lambda>b. obind (getPtr b) (\<lambda>c0.
      obind (getPtr_loop n (keyof_bl h) (bundleof_bl h) key c0) (\<lambda>cur.
      obind (deref h cur) (\<lambda>cn.
        (let res = (if key_bl cn = key \<and> marked_bl cn = 0 then val_bl cn else NO_VALUE_bl s0)
         in Inr (enterQuiescentState_bl s0 tid, res \<noteq> NO_VALUE_bl s0))))))))"

text \<open>
  \<open>doInsert\<close> from the acquisition of \<open>pred->lock\<close> to the end of the iteration: \<open>None\<close>
  is the \<open>continue\<close> of the retry loop.
\<close>

definition insert_locked_bl ::
    "bl_list \<Rightarrow> nat \<Rightarrow> ptr \<Rightarrow> ptr \<Rightarrow> int \<Rightarrow> int \<Rightarrow> bool \<Rightarrow> (bl_list \<times> int option) res" where
  "insert_locked_bl s tid pred cur key val onlyIfAbsent =
     obind (lock_node_bl s pred) (\<lambda>s1.
     obind (validateLinks_bl s1 pred cur) (\<lambda>ok.
     if ok then
       obind (deref (heap_bl s1) cur) (\<lambda>cn.
       if key_bl cn = key then
         (if marked_bl cn \<noteq> 0 then
            obind (unlock_node_bl s1 pred) (\<lambda>s2. Inr (enterQuiescentState_bl s2 tid, None))
          else if onlyIfAbsent then
            (let result = val_bl cn in
             obind (unlock_node_bl s1 pred) (\<lambda>s2. Inr (enterQuiescentState_bl s2 tid, Some result)))
          else Inl Exit)
       else
         (let result = NO_VALUE_bl s1;
              (newnode, s2) = new_node_bl s1 key val cur in
          obind (lock_node_bl s2 newnode) (\<lambda>s3.
          (let bundles = [(newnode, cur), (pred, newnode)] in
           obind (prepare_bundles (rq_bl s3) upd_bundle_bl bundles (heap_bl s3)) (\<lambda>h1.
           obind (linearize_update_at_write (rq_bl s3) tid
              (\<lambda>h. update_at h pred (\<lambda>n. n\<lparr>next_bl := newnode\<rparr>)) h1) (\<lambda>(lin_time, rq', h2).
           obind (finalize_bundles upd_bundle_bl bundles lin_time h2) (\<lambda>h3.
           obind (unlock_node_bl (s3\<lparr>heap_bl := h3, rq_bl := rq'\<rparr>) newnode) (\<lambda>s4.
           obind (unlock_node_bl s4 pred) (\<lambda>s5.
           Inr (enterQuiescentState_bl s5 tid, Some result))))))))))
     else obind (unlock_node_bl s1 pred) (\<lambda>s2. Inr (enterQuiescentState_bl s2 tid, None))))"

text \<open>The retry loop; \<open>tries\<close> bounds the number of iterations.\<close>

fun doInsert_bl :: "nat \<Rightarrow> bl_list \<Rightarrow> nat \<Rightarrow> int \<Rightarrow> int \<Rightarrow> bool \<Rightarrow> (bl_list \<times> int) res" where
  "doInsert_bl 0 s tid key val onlyIfAbsent = Inl Timeout"
| "doInsert_bl (Suc tries) s tid key val onlyIfAbsent =
     (let s0 = leaveQuiescentState_bl s tid in
      obind (search_bl s0 key) (\<lambda>(pred, cur).
      obind (insert_locked_bl s0 tid pred cur key val onlyIfAbsent) (\<lambda>(s1, r).
      case r of None \<Rightarrow> doInsert_bl tries s1 tid key val onlyIfAbsent
        | Some result \<Rightarrow> Inr (s1, result))))"

definition insert_bl :: "nat \<Rightarrow> bl_list \<Rightarrow> nat \<Rightarrow> int \<Rightarrow> int \<Rightarrow> (bl_list \<times> int) res" where
  "insert_bl tries s tid key val = doInsert_bl tries s tid key val False"

definition insertIfAbsent_bl :: "nat \<Rightarrow> bl_list \<Rightarrow> nat \<Rightarrow> int \<Rightarrow> int \<Rightarrow> (bl_list \<times> int) res" where
  "insertIfAbsent_bl tries s tid key val = doInsert_bl tries s tid key val True"

text \<open>\<open>erase\<close> from the acquisition of the two locks (\<open>curr\<close> first).\<close>

definition erase_locked_bl ::
    "bl_list \<Rightarrow> nat \<Rightarrow> ptr \<Rightarrow> ptr \<Rightarrow> int \<Rightarrow> (bl_list \<times> int option) res" where
  "erase_locked_bl s tid pred cur key =
     obind (lock_node_bl s cur) (\<lambda>s0. obind (lock_node_bl s0 pred) (\<lambda>s1.
     obind (validateLinks_bl s1 pred cur) (\<lambda>ok.
     if ok then
       obind (deref (heap_bl s1) cur) (\<lambda>cn.
       obind (require AssertFail (key_bl cn = key)) (\<lambda>_.
       (let result = val_bl cn; c_nxt = next_bl cn;
            bundles = [(pred, c_nxt), (cur, head_bl s1)] in
        obind (prepare_bundles (rq_bl s1) upd_bundle_bl bundles (heap_bl s1)) (\<lambda>h1.
        obind (linearize_update_at_write (rq_bl s1) tid
           (\<lambda>h. update_at h cur (\<lambda>n. n\<lparr>marked_bl := 1\<rparr>)) h1) (\<lambda>(lin_time, rq', h2).
        obind (finalize_bundles upd_bundle_bl bundles lin_time h2) (\<lambda>h3.
        obind (update_at h3 pred (\<lambda>n. n\<lparr>next_bl := c_nxt\<rparr>)) (\<lambda>h4.
        (let s2 = s1\<lparr>heap_bl := h4, rq_bl := rq',
                retired_bl := physical_deletion_succeeded (retired_bl s1) [cur, None]\<rparr> in
         obind (unlock_node_bl s2 cur) (\<lambda>s3. obind (unlock_node_bl s3 pred) (\<lambda>s4.
         Inr (enterQuiescentState_bl s4 tid, Some result))))))))))) 
     else obind (unlock_node_bl s1 cur) (\<lambda>s2. obind (unlock_node_bl s2 pred) (\<lambda>s3.
       Inr (enterQuiescentState_bl s3 tid, None))))))"

fun erase_bl :: "nat \<Rightarrow> bl_list \<Rightarrow> nat \<Rightarrow> int \<Rightarrow> (bl_list \<times> int) res" where
  "erase_bl 0 s tid key = Inl Timeout"
| "erase_bl (Suc tries) s tid key =
     (let s0 = leaveQuiescentState_bl s tid in
      obind (search_bl s0 key) (\<lambda>(pred, cur).
      obind (keyof_bl (heap_bl s0) cur) (\<lambda>ck.
      if ck \<noteq> key then Inr (enterQuiescentState_bl s0 tid, NO_VALUE_bl s0)
      else obind (erase_locked_bl s0 tid pred cur key) (\<lambda>(s1, r).
        case r of None \<Rightarrow> erase_bl tries s1 tid key | Some result \<Rightarrow> Inr (s1, result)))))"

text \<open>
  A range query. Phase 1 walks along \<open>next\<close>; \<open>rq_phases_bl\<close> is the rest of an iteration,
  from \<open>start_traversal\<close>, for the node the walk ended at. The count is not reset when
  the loop starts over, so the result is passed along.
\<close>

definition rq_phases_bl ::
    "bl_list \<Rightarrow> nat \<Rightarrow> ptr \<Rightarrow> int \<Rightarrow> int \<Rightarrow> dict \<Rightarrow> (bl_list \<times> ptr \<times> dict) res" where
  "rq_phases_bl s tid pred lo hi result =
     (let h = heap_bl s; n = Suc (length h); (t, rq') = start_traversal (rq_bl s) tid in
      obind (follow (bundleof_bl h) t pred) (\<lambda>c0.
      obind (rq_enter n (keyof_bl h) (bundleof_bl h) t lo c0) (\<lambda>c1.
      obind (rq_collect n (keyof_bl h) (getKeys_bl h) (bundleof_bl h) t lo hi c1 result)
        (\<lambda>(cur, result').
         Inr (enterQuiescentState_bl (s\<lparr>rq_bl := end_traversal rq' tid\<rparr>) tid, cur, result')))))"

fun rangeQuery_bl :: "nat \<Rightarrow> bl_list \<Rightarrow> nat \<Rightarrow> int \<Rightarrow> int \<Rightarrow> dict \<Rightarrow> (bl_list \<times> dict) res" where
  "rangeQuery_bl 0 s tid lo hi result = Inl Timeout"
| "rangeQuery_bl (Suc tries) s tid lo hi result =
     (let s0 = leaveQuiescentState_bl s tid; h = heap_bl s0 in
      obind (rq_walk (Suc (length h)) (keyof_bl h) (nextof_bl h) lo (head_bl s0) (head_bl s0))
        (\<lambda>(pred, cur0).
      obind (require AssertFail (cur0 \<noteq> None)) (\<lambda>_.
      obind (rq_phases_bl s0 tid pred lo hi result) (\<lambda>(s1, cur, result').
        if cur \<noteq> None then Inr (s1, result') else rangeQuery_bl tries s1 tid lo hi result'))))"

text \<open>\<open>cleanup\<close>: reclaim the bundles of the head and of every linked node.\<close>

fun clean_from_bl :: "nat \<Rightarrow> timestamp_t \<Rightarrow> int \<Rightarrow> bl_node list \<Rightarrow> ptr \<Rightarrow> bl_node list res" where
  "clean_from_bl 0 t kmax h cur = Inl Timeout"
| "clean_from_bl (Suc n) t kmax h cur =
     obind (deref h cur) (\<lambda>cn.
       if key_bl cn \<noteq> kmax
       then obind (upd_bundle_bl h cur (\<lambda>b. Inr (fst (reclaimEntries t b))))
              (\<lambda>h'. clean_from_bl n t kmax h' (next_bl cn))
       else Inr h)"

definition cleanup_bl :: "bl_list \<Rightarrow> nat \<Rightarrow> bl_list res" where
  "cleanup_bl s tid =
     (let s0 = leaveQuiescentState_bl s tid in
      obind (get_oldest_active_rq (rq_bl s0)) (\<lambda>t.
      if head_bl s0 = None then Inr (enterQuiescentState_bl s0 tid)
      else
        obind (upd_bundle_bl (heap_bl s0) (head_bl s0) (\<lambda>b. Inr (fst (reclaimEntries t b)))) (\<lambda>h1.
        obind (nextof_bl h1 (head_bl s0)) (\<lambda>cur.
        obind (clean_from_bl (length h1) t (KEY_MAX_bl s0) h1 cur) (\<lambda>h2.
        Inr (enterQuiescentState_bl (s0\<lparr>heap_bl := h2\<rparr>) tid))))))"

text \<open>\<open>debugKeySum\<close>, \<open>getSizeInNodes\<close> and \<open>getSize\<close>: one pass along \<open>next\<close>.\<close>

fun keysum_from_bl :: "nat \<Rightarrow> bl_node list \<Rightarrow> int \<Rightarrow> ptr \<Rightarrow> int res" where
  "keysum_from_bl 0 h kmax cur = Inl Timeout"
| "keysum_from_bl (Suc n) h kmax cur =
     obind (deref h cur) (\<lambda>cn.
       if key_bl cn < kmax
       then obind (keysum_from_bl n h kmax (next_bl cn)) (\<lambda>r. Inr (key_bl cn + r))
       else Inr 0)"

definition debugKeySum_bl :: "bl_list \<Rightarrow> int res" where
  "debugKeySum_bl s = obind (nextof_bl (heap_bl s) (head_bl s))
     (keysum_from_bl (length (heap_bl s)) (heap_bl s) (KEY_MAX_bl s))"

fun size_from_bl :: "nat \<Rightarrow> bl_node list \<Rightarrow> int \<Rightarrow> bool \<Rightarrow> ptr \<Rightarrow> nat res" where
  "size_from_bl 0 h kmax all_nodes cur = Inl Timeout"
| "size_from_bl (Suc n) h kmax all_nodes cur =
     obind (deref h cur) (\<lambda>cn.
       if key_bl cn \<noteq> kmax
       then obind (size_from_bl n h kmax all_nodes (next_bl cn))
              (\<lambda>r. Inr ((if all_nodes \<or> marked_bl cn = 0 then 1 else 0) + r))
       else Inr 0)"

definition getSizeInNodes_bl :: "bl_list \<Rightarrow> nat res" where
  "getSizeInNodes_bl s = obind (nextof_bl (heap_bl s) (head_bl s))
     (size_from_bl (length (heap_bl s)) (heap_bl s) (KEY_MAX_bl s) True)"

definition getSize_bl :: "bl_list \<Rightarrow> nat res" where
  "getSize_bl s = obind (nextof_bl (heap_bl s) (head_bl s))
     (size_from_bl (length (heap_bl s)) (heap_bl s) (KEY_MAX_bl s) False)"

text \<open>\<open>validateBundles\<close> of a debugging build: does every newest entry match \<open>next\<close>?\<close>

fun validate_from_bl :: "nat \<Rightarrow> bl_node list \<Rightarrow> int \<Rightarrow> ptr \<Rightarrow> bool res" where
  "validate_from_bl 0 h kmax cur = Inl Timeout"
| "validate_from_bl (Suc n) h kmax cur =
     obind (deref h cur) (\<lambda>cn.
       if key_bl cn < kmax
       then obind (first_bundle (rqbundle_bl cn)) (\<lambda>(temp, _).
            obind (validate_from_bl n h kmax (next_bl cn)) (\<lambda>r. Inr (temp = next_bl cn \<and> r)))
       else Inr True)"

definition validateBundles_bl :: "bl_list \<Rightarrow> bool res" where
  "validateBundles_bl s =
     validate_from_bl (Suc (length (heap_bl s))) (heap_bl s) (KEY_MAX_bl s) (head_bl s)"

end
