(* ===== verification/Bundled_List_Correct.thy ===== *)
theory Bundled_List_Correct
  imports Bundled_List
begin

text \<open>
  Correctness of the bundled lazy list: the well-formedness of a list, the dictionary it
  holds now and at every earlier timestamp, and what each operation does to them.
\<close>

section \<open>Fields as functions of the address\<close>

abbreviation kf :: "bl_node list \<Rightarrow> nat \<Rightarrow> int" where "kf \<equiv> fld key_bl 0"
abbreviation vf :: "bl_node list \<Rightarrow> nat \<Rightarrow> int" where "vf \<equiv> fld val_bl 0"
abbreviation nf :: "bl_node list \<Rightarrow> nat \<Rightarrow> ptr" where "nf \<equiv> fld next_bl None"
abbreviation bf :: "bl_node list \<Rightarrow> nat \<Rightarrow> ptr bundle_t" where "bf \<equiv> fld rqbundle_bl []"
abbreviation df :: "bl_node list \<Rightarrow> nat \<Rightarrow> bool" where "df \<equiv> fld (\<lambda>n. marked_bl n \<noteq> 0) True"
abbreviation lf :: "bl_node list \<Rightarrow> nat \<Rightarrow> bool" where "lf \<equiv> fld lock_bl False"

definition peek_bl :: "bl_node list \<Rightarrow> ptr \<Rightarrow> ptr bundle_t option" where
  "peek_bl h p = (case p of None \<Rightarrow> None
     | Some a \<Rightarrow> if a < length h then Some (rqbundle_bl (h ! a)) else None)"

definition frame_bl :: "bl_node list \<Rightarrow> bl_node list" where
  "frame_bl h = map (\<lambda>n. n\<lparr>rqbundle_bl := []\<rparr>) h"

lemma peek_bl_Some [simp]: "a < length h \<Longrightarrow> peek_bl h (Some a) = Some (bf h a)"
  by (simp add: peek_bl_def)

lemma length_frame [simp]: "length (frame_bl h) = length h"
  by (simp add: frame_bl_def)

lemma frame_fields:
  "kf (frame_bl h) = kf h" "vf (frame_bl h) = vf h" "nf (frame_bl h) = nf h"
  "df (frame_bl h) = df h" "lf (frame_bl h) = lf h"
  by (simp_all add: frame_bl_def fld_map)

lemma frame_update [simp]:
  "frame_bl (h[a := n]) = (frame_bl h)[a := n\<lparr>rqbundle_bl := []\<rparr>]"
  by (simp add: frame_bl_def map_update)

lemma frame_nth [simp]: "a < length h \<Longrightarrow> frame_bl h ! a = (h ! a)\<lparr>rqbundle_bl := []\<rparr>"
  by (simp add: frame_bl_def)

lemma bundles_pushed:
  assumes "length g = length h"
    and "\<forall>r. peek_bl g r = (case map_of bs r of None \<Rightarrow> peek_bl h r
         | Some q \<Rightarrow> map_option (push_entry t q) (peek_bl h r))"
  shows "bf g a = (if a < length h then case map_of bs (Some a) of None \<Rightarrow> bf h a
         | Some q \<Rightarrow> push_entry t q (bf h a) else [])"
  using assms(1) spec [OF assms(2), of "Some a"]
  by (auto simp: peek_bl_def fld_def split: option.splits)

lemma bf_of_peek:
  assumes "length h' = length h" "\<And>r. peek_bl h' r = peek_bl h r"
  shows "bf h' = bf h"
proof
  fix a show "bf h' a = bf h a"
    using assms(1) assms(2) [of "Some a"] by (cases "a < length h") (auto simp: fld_def peek_bl_def)
qed

interpretation blb: bundle_store peek_bl upd_bundle_bl frame_bl
proof
  fix h :: "bl_node list" and r b and g :: "ptr bundle_t \<Rightarrow> ptr bundle_t res" and b'
  assume p: "peek_bl h r = Some b" and g: "g b = Inr b'"
  then obtain a where a: "r = Some a" "a < length h" "b = rqbundle_bl (h ! a)"
    by (auto simp: peek_bl_def split: option.splits if_splits)
  let ?h = "h[a := (h ! a)\<lparr>rqbundle_bl := b'\<rparr>]"
  have "upd_bundle_bl h r g = Inr ?h"
    using a g by (simp add: upd_bundle_bl_def res_simps)
  moreover have "peek_bl ?h = (peek_bl h)(r \<mapsto> b')"
    using a by (auto simp: peek_bl_def fun_eq_iff nth_list_update split: option.splits)
  moreover have "frame_bl ?h = frame_bl h"
    using a(2) by (simp add: list_update_same_conv)
  ultimately show "\<exists>h'. upd_bundle_bl h r g = Inr h' \<and> peek_bl h' = (peek_bl h)(r \<mapsto> b')
      \<and> frame_bl h' = frame_bl h" by blast
qed

lemma reads_bl:
  "reads (keyof_bl h) (kf h) [0..<length h]" "reads (nextof_bl h) (nf h) [0..<length h]"
  "reads (bundleof_bl h) (bf h) [0..<length h]"
  "reads (getKeys_bl h) (\<lambda>a. [(kf h a, vf h a)]) [0..<length h]"
  by (simp_all add: reads_def keyof_bl_def nextof_bl_def bundleof_bl_def getKeys_bl_def res_simps)

section \<open>Well-formed lists and their contents\<close>

definition chain_bl :: "bl_list \<Rightarrow> nat \<Rightarrow> nat \<Rightarrow> nat list \<Rightarrow> bool" where
  "chain_bl s ha ta P \<longleftrightarrow>
     (let h = heap_bl s in
      head_bl s = Some ha \<and>
      chain_inv (kf h) (nf h) (bf h) (df h) (length h) ha ta (curr_timestamp (rq_bl s)) P \<and>
      kf h ha = KEY_MIN_bl s \<and> kf h ta = KEY_MAX_bl s \<and> KEY_MIN_bl s < KEY_MAX_bl s \<and>
      (\<forall>a. \<not> lf h a))"

text \<open>
  A list all of whose snapshots from time \<open>base\<close> on can be read; no operation is between
  its lock and its unlock.
\<close>

definition wf_bl :: "timestamp_t \<Rightarrow> bl_list \<Rightarrow> bool" where
  "wf_bl base s \<longleftrightarrow>
     mode (rq_bl s) = Update_Clock \<and> \<not> cleanup_update (rq_bl s) \<and>
     0 < base \<and> base \<le> curr_timestamp (rq_bl s) \<and> curr_timestamp (rq_bl s) \<le> BUNDLE_MAX_TIMESTAMP \<and>
     (\<exists>ha ta P. chain_bl s ha ta P \<and>
        snaps_inv base (kf (heap_bl s)) (bf (heap_bl s)) (length (heap_bl s)) ha ta
          (curr_timestamp (rq_bl s)))"

definition pairs_bl :: "bl_list \<Rightarrow> nat list \<Rightarrow> dict" where
  "pairs_bl s Q = map (\<lambda>a. (kf (heap_bl s) a, vf (heap_bl s) a)) (butlast (tl Q))"

text \<open>The dictionary along \<open>next\<close>, and along the bundles at a time (sentinels left out).\<close>

definition contents_bl :: "bl_list \<Rightarrow> dict" where
  "contents_bl s = pairs_bl s (walk (length (heap_bl s)) (nf (heap_bl s)) (the (head_bl s)))"

definition snapshot_bl :: "bl_list \<Rightarrow> timestamp_t \<Rightarrow> dict" where
  "snapshot_bl s t =
     pairs_bl s (walk (length (heap_bl s)) (bsucc (bf (heap_bl s)) t) (the (head_bl s)))"

lemma chain_blD:
  assumes "chain_bl s ha ta P"
  shows "head_bl s = Some ha"
    "chain_inv (kf (heap_bl s)) (nf (heap_bl s)) (bf (heap_bl s)) (df (heap_bl s))
       (length (heap_bl s)) ha ta (curr_timestamp (rq_bl s)) P"
    "kf (heap_bl s) ha = KEY_MIN_bl s" "kf (heap_bl s) ta = KEY_MAX_bl s"
    "KEY_MIN_bl s < KEY_MAX_bl s" "\<And>a. \<not> lf (heap_bl s) a"
  using assms by (simp_all add: chain_bl_def Let_def)

lemma snap_snapshot_bl:
  assumes "head_bl s = Some ha"
    and "snap_path (kf (heap_bl s)) (bf (heap_bl s)) (length (heap_bl s)) ha ta t Q"
  shows "snapshot_bl s t = pairs_bl s Q"
  using assms snap_path_walk [OF assms(2)] by (simp add: snapshot_bl_def)

lemma contents_chain_bl:
  assumes "chain_bl s ha ta P"
  shows "contents_bl s = pairs_bl s P" "snapshot_bl s (curr_timestamp (rq_bl s)) = pairs_bl s P"
proof -
  note c = chain_blD [OF assms] and i = chain_invD [OF chain_blD(2) [OF assms]]
  have "length P \<le> length (heap_bl s)"
    using i(5,6) by (auto intro!: ksorted_length)
  then have "walk (length (heap_bl s)) (nf (heap_bl s)) ha = P"
    using i(1-4,7) walk_linked [of "nf (heap_bl s)" ha "tl P"] by (cases P) auto
  then show "contents_bl s = pairs_bl s P" using c(1) by (simp add: contents_bl_def)
  show "snapshot_bl s (curr_timestamp (rq_bl s)) = pairs_bl s P"
    by (rule snap_snapshot_bl [OF c(1) chain_now [OF c(2)]])
qed

text \<open>A chain splits at every key between the sentinels.\<close>

lemma chain_split_bl:
  assumes "chain_bl s ha ta P" "KEY_MIN_bl s < k" "k \<le> KEY_MAX_bl s"
  obtains us p c vs where "P = us @ p # c # vs" "kf (heap_bl s) p < k" "k \<le> kf (heap_bl s) c"
proof -
  note c = chain_blD [OF assms(1)] and i = chain_invD [OF chain_blD(2) [OF assms(1)]]
  obtain xs where "P = ha # xs" using i(1,2) by (cases P) auto
  then show thesis
    using ksorted_split [of "kf (heap_bl s)" ha xs k] i(3,5) c(3,4) assms(2,3) that by auto
qed

text \<open>The inner nodes of a split chain, in front of and behind the split.\<close>

lemma inner_split:
  assumes "P = us @ p # c # vs"
  shows "butlast (tl P) = tl (us @ [p]) @ butlast (c # vs)"
  using assms by (cases us) (auto simp: butlast_append)

lemma inner_keys:
  assumes "ksorted key (us @ p # c # vs)" "key p < k" "k \<le> key c"
  shows "\<forall>x\<in>set (tl (us @ [p])). key x < k" "\<forall>x\<in>set (butlast vs). k < key x"
proof -
  have "\<forall>x\<in>set (us @ [p]). key x < k"
    using assms by (fastforce simp: sorted_wrt_append)
  then show "\<forall>x\<in>set (tl (us @ [p])). key x < k" by (cases us) auto
  show "\<forall>x\<in>set (butlast vs). k < key x"
    using assms by (fastforce simp: sorted_wrt_append dest: in_set_butlastD)
qed

section \<open>Searching\<close>

lemma search_bl_finds:
  assumes "chain_bl s ha ta P" "KEY_MIN_bl s < k" "k \<le> KEY_MAX_bl s"
  obtains us p c vs where "P = us @ p # c # vs" "kf (heap_bl s) p < k" "k \<le> kf (heap_bl s) c"
    "search_bl s k = Inr (Some p, Some c)"
proof -
  let ?h = "heap_bl s"
  note c = chain_blD [OF assms(1)] and i = chain_invD [OF chain_blD(2) [OF assms(1)]]
  obtain us0 p0 c0 vs0 where "P = us0 @ p0 # c0 # vs0"
    using chain_split_bl [OF assms] by metis
  then obtain d vs where P: "P = ha # d # vs" using i(2) by (cases us0; cases "tl us0") auto
  have len: "length P \<le> length ?h" using i(5,6) by (auto intro!: ksorted_length)
  have sub: "set P \<subseteq> set [0..<length ?h]" using i(6) by auto
  have "nf ?h ha = Some d" "ha < length ?h" using i(4,6) P by auto
  then have nx: "nextof_bl ?h (head_bl s) = Inr (Some d)"
    using c(1) by (simp add: nextof_bl_def res_simps)
  have "linked (nf ?h) (ha # d # vs)" "ksorted (kf ?h) (ha # d # vs)" using i(4,5) P by simp_all
  moreover have "kf ?h ha < k" using c(3) assms(2) by simp
  moreover have "k \<le> kf ?h (last (d # vs))" using i(3) c(4) assms(3) P by simp
  moreover have "reads (keyof_bl ?h) (kf ?h) (ha # d # vs)" "reads (nextof_bl ?h) (nf ?h) (ha # d # vs)"
    using reads_mono [OF reads_bl(1) sub] reads_mono [OF reads_bl(2) sub] P by simp_all
  moreover have "length vs < length ?h" using len P by simp
  ultimately have "\<exists>us p' c' ws. ha # d # vs = us @ p' # c' # ws \<and> kf ?h p' < k \<and> k \<le> kf ?h c'
    \<and> search_from (length ?h) (keyof_bl ?h) (nextof_bl ?h) k (Some ha) (Some d) = Inr (Some p', Some c')"
    by (rule search_from_finds)
  then obtain us p' c' ws where "ha # d # vs = us @ p' # c' # ws" "kf ?h p' < k" "k \<le> kf ?h c'"
    "search_from (length ?h) (keyof_bl ?h) (nextof_bl ?h) k (Some ha) (Some d) = Inr (Some p', Some c')"
    by blast
  then show thesis using that P nx c(1) by (simp add: search_bl_def)
qed

section \<open>Insertion\<close>

text \<open>Locking and unlocking one node, the other fields untouched.\<close>

lemma lock_node_ok:
  assumes "a < length (heap_bl s)" "\<not> lf (heap_bl s) a"
  shows "lock_node_bl s (Some a) = Inr (s\<lparr>heap_bl := (heap_bl s)[a := (heap_bl s ! a)\<lparr>lock_bl := True\<rparr>]\<rparr>)"
  using assms by (simp add: lock_node_bl_def acquireLock_def res_simps)

lemma unlock_node_ok:
  assumes "a < length (heap_bl s)"
  shows "unlock_node_bl s (Some a) = Inr (s\<lparr>heap_bl := (heap_bl s)[a := (heap_bl s ! a)\<lparr>lock_bl := False\<rparr>]\<rparr>)"
  using assms by (simp add: unlock_node_bl_def releaseLock_def res_simps)

lemma lock_unlock_id:
  "a < length h \<Longrightarrow> \<not> lf h a \<Longrightarrow> h[a := (h ! a)\<lparr>lock_bl := False\<rparr>] = h"
  by (simp add: list_update_same_conv)

lemma lock_fields:
  assumes "a < length h"
  shows "kf (h[a := (h ! a)\<lparr>lock_bl := l\<rparr>]) = kf h" "vf (h[a := (h ! a)\<lparr>lock_bl := l\<rparr>]) = vf h"
    "nf (h[a := (h ! a)\<lparr>lock_bl := l\<rparr>]) = nf h" "bf (h[a := (h ! a)\<lparr>lock_bl := l\<rparr>]) = bf h"
    "df (h[a := (h ! a)\<lparr>lock_bl := l\<rparr>]) = df h" "lf (h[a := (h ! a)\<lparr>lock_bl := l\<rparr>]) = (lf h)(a := l)"
proof -
  show "lf (h[a := (h ! a)\<lparr>lock_bl := l\<rparr>]) = (lf h)(a := l)"
    using assms by (simp add: fld_update)
qed (simp_all add: fld_update_same)

lemma next_fields:
  assumes "a < length h"
  shows "kf (h[a := (h ! a)\<lparr>next_bl := q\<rparr>]) = kf h" "vf (h[a := (h ! a)\<lparr>next_bl := q\<rparr>]) = vf h"
    "nf (h[a := (h ! a)\<lparr>next_bl := q\<rparr>]) = (nf h)(a := q)" "bf (h[a := (h ! a)\<lparr>next_bl := q\<rparr>]) = bf h"
    "df (h[a := (h ! a)\<lparr>next_bl := q\<rparr>]) = df h" "lf (h[a := (h ! a)\<lparr>next_bl := q\<rparr>]) = lf h"
proof -
  show "nf (h[a := (h ! a)\<lparr>next_bl := q\<rparr>]) = (nf h)(a := q)"
    using assms by (simp add: fld_update)
qed (simp_all add: fld_update_same)

lemma mark_fields:
  assumes "a < length h" "m \<noteq> 0"
  shows "kf (h[a := (h ! a)\<lparr>marked_bl := m\<rparr>]) = kf h" "vf (h[a := (h ! a)\<lparr>marked_bl := m\<rparr>]) = vf h"
    "nf (h[a := (h ! a)\<lparr>marked_bl := m\<rparr>]) = nf h" "bf (h[a := (h ! a)\<lparr>marked_bl := m\<rparr>]) = bf h"
    "df (h[a := (h ! a)\<lparr>marked_bl := m\<rparr>]) = (df h)(a := True)" "lf (h[a := (h ! a)\<lparr>marked_bl := m\<rparr>]) = lf h"
proof -
  show "df (h[a := (h ! a)\<lparr>marked_bl := m\<rparr>]) = (df h)(a := True)"
    using assms by (simp add: fld_update)
qed (simp_all add: fld_update_same)

text \<open>A write to one field of a node, seen through the frame.\<close>

lemma write_frame:
  assumes "a < length h" "frame_bl g = frame_bl h"
    and "\<And>n. f (n\<lparr>rqbundle_bl := []\<rparr>) = (f n)\<lparr>rqbundle_bl := []\<rparr>" "\<And>n. rqbundle_bl (f n) = rqbundle_bl n"
  shows "\<exists>g'. update_at g (Some a) f = Inr g' \<and> frame_bl g' = (frame_bl h)[a := f (frame_bl h ! a)]
    \<and> peek_bl g' = peek_bl g"
proof -
  have len: "length g = length h" using assms(2) by (metis length_frame)
  have "peek_bl (g[a := f (g ! a)]) = peek_bl g"
    using assms(1,4) len by (auto simp: peek_bl_def fun_eq_iff nth_list_update split: option.splits)
  moreover have "frame_bl (g[a := f (g ! a)]) = (frame_bl h)[a := f (frame_bl h ! a)]"
    using assms(1,3) len by (simp flip: assms(2))
  ultimately show ?thesis using assms(1) len by (simp add: update_at_Some)
qed

lemma insert_locked_invalid:
  assumes "p < length (heap_bl s)" "c < length (heap_bl s)" "\<And>a. \<not> lf (heap_bl s) a"
    and "df (heap_bl s) p \<or> df (heap_bl s) c \<or> nf (heap_bl s) p \<noteq> Some c"
  shows "insert_locked_bl s tid (Some p) (Some c) k v oia = Inr (enterQuiescentState_bl s tid, None)"
proof -
  let ?h = "(heap_bl s)[p := (heap_bl s ! p)\<lparr>lock_bl := True\<rparr>]"
  have "validateLinks_bl (s\<lparr>heap_bl := ?h\<rparr>) (Some p) (Some c) = Inr False"
    using assms(1,2,4) by (auto simp: validateLinks_bl_def res_simps nth_list_update)
  then show ?thesis
    using assms(1,3) by (simp add: insert_locked_bl_def lock_node_ok unlock_node_ok lock_unlock_id)
qed

lemma insert_locked_present:
  assumes "p < length (heap_bl s)" "c < length (heap_bl s)" "\<And>a. \<not> lf (heap_bl s) a"
    and "\<not> df (heap_bl s) p" "\<not> df (heap_bl s) c" "nf (heap_bl s) p = Some c" "kf (heap_bl s) c = k"
  shows "insert_locked_bl s tid (Some p) (Some c) k v True =
    Inr (enterQuiescentState_bl s tid, Some (vf (heap_bl s) c))"
proof -
  let ?h = "(heap_bl s)[p := (heap_bl s ! p)\<lparr>lock_bl := True\<rparr>]"
  have "validateLinks_bl (s\<lparr>heap_bl := ?h\<rparr>) (Some p) (Some c) = Inr True"
    using assms by (auto simp: validateLinks_bl_def res_simps nth_list_update)
  moreover have "key_bl (?h ! c) = k" "marked_bl (?h ! c) = 0" "val_bl (?h ! c) = vf (heap_bl s) c"
    using assms by (auto simp: nth_list_update)
  ultimately show ?thesis
    using assms(1-3)
    by (simp add: insert_locked_bl_def lock_node_ok unlock_node_ok lock_unlock_id res_simps)
qed

lemma insert_locked_absent:
  assumes p: "p < length (heap_bl s)" "c < length (heap_bl s)" and lk: "\<And>a. \<not> lf (heap_bl s) a"
    and v: "\<not> df (heap_bl s) p" "\<not> df (heap_bl s) c" "nf (heap_bl s) p = Some c"
    and k: "kf (heap_bl s) c \<noteq> k" and clk: "clock_ok (rq_bl s)"
  shows "\<exists>h' q'. insert_locked_bl s tid (Some p) (Some c) k v oia =
      Inr (enterQuiescentState_bl (s\<lparr>rq_bl := q', heap_bl := h'\<rparr>) tid, Some (NO_VALUE_bl s))
    \<and> rq_tick (rq_bl s) q' \<and> length h' = Suc (length (heap_bl s))
    \<and> kf h' = (kf (heap_bl s))(length (heap_bl s) := k)
    \<and> vf h' = (vf (heap_bl s))(length (heap_bl s) := v)
    \<and> nf h' = ins_nxt (nf (heap_bl s)) p c (length (heap_bl s))
    \<and> bf h' = ins_bun (bf (heap_bl s)) (curr_timestamp (rq_bl s) + 1) p c (length (heap_bl s))
    \<and> df h' = (df (heap_bl s))(length (heap_bl s) := False) \<and> (\<forall>a. \<not> lf h' a)"
proof -
  let ?h = "heap_bl s" let ?n = "length ?h" let ?t = "curr_timestamp (rq_bl s) + 1"
  let ?h1 = "?h[p := (?h ! p)\<lparr>lock_bl := True\<rparr>]"
  let ?nn = "\<lparr>key_bl = k, val_bl = v, next_bl = Some c, lock_bl = False, marked_bl = 0,
    rqbundle_bl = init_bundle\<rparr>"
  let ?h3 = "?h1 @ [?nn\<lparr>lock_bl := True\<rparr>]"
  let ?w = "\<lambda>h. update_at h (Some p) (\<lambda>n. n\<lparr>next_bl := Some ?n\<rparr>)"
  let ?bs = "[(Some ?n, Some c), (Some p, Some ?n)]"
  define F where "F = (frame_bl ?h3)[p := (frame_bl ?h3 ! p)\<lparr>next_bl := Some ?n\<rparr>]"
  have valid: "validateLinks_bl (s\<lparr>heap_bl := ?h1\<rparr>) (Some p) (Some c) = Inr True"
    using p v by (auto simp: validateLinks_bl_def res_simps nth_list_update)
  have lockn: "lock_node_bl (s\<lparr>heap_bl := ?h1 @ [?nn]\<rparr>) (Some ?n) = Inr (s\<lparr>heap_bl := ?h3\<rparr>)"
    by (subst lock_node_ok) (simp_all add: fld_append nth_append list_update_append)
  have kc: "key_bl (?h1 ! c) \<noteq> k" using p k by (auto simp: nth_list_update)
  have len3: "length ?h3 = Suc ?n" by simp
  have t: "?t \<noteq> BUNDLE_PENDING_TIMESTAMP" using clk by (auto simp: clock_ok_def timestamp_defs)
  have wr: "\<exists>h2. ?w g = Inr h2 \<and> frame_bl h2 = F \<and> peek_bl h2 = peek_bl g"
    if "frame_bl g = frame_bl ?h3" for g
    unfolding F_def using p(1) by (intro write_frame [OF _ that]) auto
  obtain g1 g2 g3 where g: "prepare_bundles (rq_bl s) upd_bundle_bl ?bs ?h3 = Inr g1" "?w g1 = Inr g2"
    "finalize_bundles upd_bundle_bl ?bs ?t g2 = Inr g3" "frame_bl g3 = F"
    "\<forall>r. peek_bl g3 r = (case map_of ?bs r of None \<Rightarrow> peek_bl ?h3 r
         | Some q \<Rightarrow> map_option (push_entry ?t q) (peek_bl ?h3 r))"
    using blb.update_bundles_ok [OF _ t, of "rq_bl s" ?bs ?h3 ?w F] wr clk p
    by (auto simp: clock_ok_def)
  obtain q' where q': "linearize_update_at_write (rq_bl s) tid ?w g1 = Inr (?t, q', g2)" "rq_tick (rq_bl s) q'"
    using linearize_ok [OF clk, of ?w g1 g2 tid] g(2) by auto
  have leng: "length g3 = Suc ?n" using g(4) len3 by (metis F_def length_frame length_list_update)
  let ?g4 = "g3[?n := (g3 ! ?n)\<lparr>lock_bl := False\<rparr>]"
  let ?g5 = "?g4[p := (?g4 ! p)\<lparr>lock_bl := False\<rparr>]"
  have run: "insert_locked_bl s tid (Some p) (Some c) k v oia =
      Inr (enterQuiescentState_bl (s\<lparr>rq_bl := q', heap_bl := ?g5\<rparr>) tid, Some (NO_VALUE_bl s))"
    using p lk kc valid g(1,3) q'(1) leng lockn
    by (simp add: insert_locked_bl_def lock_node_ok unlock_node_ok new_node_bl_def deref_Some Let_def
        del: prepare_bundles.simps finalize_bundles.simps)
  have h3: "kf ?h3 = (kf ?h)(?n := k)" "vf ?h3 = (vf ?h)(?n := v)" "nf ?h3 = (nf ?h)(?n := Some c)"
    "df ?h3 = (df ?h)(?n := False)" "lf ?h3 = (lf ?h)(p := True, ?n := True)"
    "bf ?h3 = (bf ?h)(?n := [])"
    by (simp_all only: fld_append length_list_update lock_fields [OF p(1)])
      (simp_all add: init_bundle_def)
  have F': "kf F = kf ?h3" "vf F = vf ?h3" "nf F = (nf ?h3)(p := Some ?n)" "df F = df ?h3" "lf F = lf ?h3"
    using p(1) unfolding F_def by (simp_all add: next_fields frame_fields del: fld_in frame_nth)
  have g3': "kf g3 = kf F" "vf g3 = vf F" "nf g3 = nf F" "df g3 = df F" "lf g3 = lf F"
    using g(4) by (metis frame_fields)+
  have b3: "bf g3 = ins_bun (bf ?h) ?t p c ?n"
  proof
    fix a show "bf g3 a = ins_bun (bf ?h) ?t p c ?n a"
      using bundles_pushed [OF _ g(5), of a] leng p h3(6)
      by (auto simp: ins_bun_def fld_def [of _ _ ?h] simp del: fld_in)
  qed
  have lens: "?n < length g3" "p < length ?g4" using leng p(1) by simp_all
  have "length ?g5 = Suc ?n" using leng by simp
  moreover have "kf ?g5 = kf g3" "vf ?g5 = vf g3" "nf ?g5 = nf g3" "df ?g5 = df g3" "bf ?g5 = bf g3"
    "lf ?g5 = (lf g3)(?n := False, p := False)"
    by (simp_all only: lock_fields [OF lens(1)] lock_fields [OF lens(2)])
  ultimately show ?thesis using run q'(2) g3' F' h3 b3 lk p
    by (intro exI [of _ ?g5] exI [of _ q']) (auto simp: ins_nxt_def fun_upd_twist)
qed

section \<open>Deletion under the locks\<close>

lemma erase_locked_invalid:
  assumes "p < length (heap_bl s)" "c < length (heap_bl s)" "p \<noteq> c" "\<And>a. \<not> lf (heap_bl s) a"
    and "df (heap_bl s) p \<or> df (heap_bl s) c \<or> nf (heap_bl s) p \<noteq> Some c"
  shows "erase_locked_bl s tid (Some p) (Some c) k = Inr (enterQuiescentState_bl s tid, None)"
proof -
  let ?h = "heap_bl s"
  let ?h1 = "?h[c := (?h ! c)\<lparr>lock_bl := True\<rparr>]"
  let ?h2 = "?h1[p := (?h1 ! p)\<lparr>lock_bl := True\<rparr>]"
  have "validateLinks_bl (s\<lparr>heap_bl := ?h2\<rparr>) (Some p) (Some c) = Inr False"
    using assms(1,2,3,5) by (auto simp: validateLinks_bl_def res_simps nth_list_update)
  moreover have "?h2[c := (?h2 ! c)\<lparr>lock_bl := False\<rparr>, p := (?h2[c := (?h2 ! c)\<lparr>lock_bl := False\<rparr>] ! p)\<lparr>lock_bl := False\<rparr>] = ?h"
    using assms(1-3) assms(4) [of p] assms(4) [of c]
    by (intro nth_equalityI) (auto simp: nth_list_update)
  ultimately show ?thesis
    using assms(1-4) lock_node_ok [of p "s\<lparr>heap_bl := ?h1\<rparr>"]
    by (simp add: erase_locked_bl_def lock_node_ok unlock_node_ok lock_fields del: nth_list_update_neq fld_in)
qed

lemma erase_locked_valid:
  assumes p: "p < length (heap_bl s)" "c < length (heap_bl s)" "p \<noteq> c" and lk: "\<And>a. \<not> lf (heap_bl s) a"
    and v: "\<not> df (heap_bl s) p" "\<not> df (heap_bl s) c" "nf (heap_bl s) p = Some c"
    and k: "kf (heap_bl s) c = k" and clk: "clock_ok (rq_bl s)" and hd: "head_bl s = Some ha"
    and d: "nf (heap_bl s) c = Some d"
  shows "\<exists>h' q'. erase_locked_bl s tid (Some p) (Some c) k =
      Inr (enterQuiescentState_bl (s\<lparr>rq_bl := q', retired_bl := retired_bl s @ [Some c], heap_bl := h'\<rparr>) tid,
        Some (vf (heap_bl s) c))
    \<and> rq_tick (rq_bl s) q' \<and> length h' = length (heap_bl s)
    \<and> kf h' = kf (heap_bl s) \<and> vf h' = vf (heap_bl s)
    \<and> nf h' = (nf (heap_bl s))(p := Some d)
    \<and> bf h' = del_bun (bf (heap_bl s)) (curr_timestamp (rq_bl s) + 1) p c d ha
    \<and> df h' = (df (heap_bl s))(c := True) \<and> (\<forall>a. \<not> lf h' a)"
proof -
  let ?h = "heap_bl s" let ?t = "curr_timestamp (rq_bl s) + 1"
  let ?h1 = "?h[c := (?h ! c)\<lparr>lock_bl := True\<rparr>]"
  let ?h2 = "?h1[p := (?h1 ! p)\<lparr>lock_bl := True\<rparr>]"
  let ?w = "\<lambda>h. update_at h (Some c) (\<lambda>n. n\<lparr>marked_bl := 1\<rparr>)"
  let ?bs = "[(Some p, Some d), (Some c, Some ha)]"
  define F where "F = (frame_bl ?h2)[c := (frame_bl ?h2 ! c)\<lparr>marked_bl := 1\<rparr>]"
  have valid: "validateLinks_bl (s\<lparr>heap_bl := ?h2\<rparr>) (Some p) (Some c) = Inr True"
    using p v by (auto simp: validateLinks_bl_def res_simps nth_list_update)
  have cn: "deref ?h2 (Some c) = Inr (?h2 ! c)" "key_bl (?h2 ! c) = k" "val_bl (?h2 ! c) = vf ?h c"
    "next_bl (?h2 ! c) = Some d"
    using p k d by (auto simp: deref_Some nth_list_update)
  have len: "length ?h2 = length ?h" by simp
  have t: "?t \<noteq> BUNDLE_PENDING_TIMESTAMP" using clk by (auto simp: clock_ok_def timestamp_defs)
  have wr: "\<exists>h3. ?w g = Inr h3 \<and> frame_bl h3 = F \<and> peek_bl h3 = peek_bl g"
    if "frame_bl g = frame_bl ?h2" for g
    unfolding F_def using p(2) by (intro write_frame [OF _ that]) auto
  obtain g1 g2 g3 where g: "prepare_bundles (rq_bl s) upd_bundle_bl ?bs ?h2 = Inr g1" "?w g1 = Inr g2"
    "finalize_bundles upd_bundle_bl ?bs ?t g2 = Inr g3" "frame_bl g3 = F"
    "\<forall>r. peek_bl g3 r = (case map_of ?bs r of None \<Rightarrow> peek_bl ?h2 r
         | Some q \<Rightarrow> map_option (push_entry ?t q) (peek_bl ?h2 r))"
    using blb.update_bundles_ok [OF _ t, of "rq_bl s" ?bs ?h2 ?w F] wr clk p
    by (auto simp: clock_ok_def)
  obtain q' where q': "linearize_update_at_write (rq_bl s) tid ?w g1 = Inr (?t, q', g2)" "rq_tick (rq_bl s) q'"
    using linearize_ok [OF clk, of ?w g1 g2 tid] g(2) by auto
  have leng: "length g3 = length ?h" using g(4) len by (metis F_def length_frame length_list_update)
  let ?g4 = "g3[p := (g3 ! p)\<lparr>next_bl := Some d\<rparr>]"
  let ?g5 = "?g4[c := (?g4 ! c)\<lparr>lock_bl := False\<rparr>]"
  let ?g6 = "?g5[p := (?g5 ! p)\<lparr>lock_bl := False\<rparr>]"
  have l2: "\<not> lf ?h1 p" using p lk by (simp add: lock_fields del: fld_in)
  have run: "erase_locked_bl s tid (Some p) (Some c) k =
      Inr (enterQuiescentState_bl (s\<lparr>rq_bl := q', retired_bl := retired_bl s @ [Some c], heap_bl := ?g6\<rparr>) tid,
        Some (vf ?h c))"
    using p lk l2 valid cn g(1,3) q'(1) leng hd
    by (simp add: erase_locked_bl_def lock_node_ok unlock_node_ok update_at_Some require_True Let_def
        physical_deletion_succeeded_def
        del: prepare_bundles.simps finalize_bundles.simps nth_list_update_neq fld_in)
  have h2: "kf ?h2 = kf ?h" "vf ?h2 = vf ?h" "nf ?h2 = nf ?h" "df ?h2 = df ?h" "bf ?h2 = bf ?h"
    "lf ?h2 = (lf ?h)(c := True, p := True)"
    using lock_fields [OF p(2)] lock_fields [of p ?h1] p(1) by simp_all
  have F': "kf F = kf ?h2" "vf F = vf ?h2" "nf F = nf ?h2" "df F = (df ?h2)(c := True)" "lf F = lf ?h2"
    using p(2) unfolding F_def by (simp_all add: mark_fields frame_fields del: fld_in frame_nth frame_update)
  have g3': "kf g3 = kf F" "vf g3 = vf F" "nf g3 = nf F" "df g3 = df F" "lf g3 = lf F"
    using g(4) by (metis frame_fields)+
  have b3: "bf g3 = del_bun (bf ?h) ?t p c d ha"
  proof
    fix a show "bf g3 a = del_bun (bf ?h) ?t p c d ha a"
      using bundles_pushed [OF _ g(5), of a] leng p h2(5)
      by (auto simp: del_bun_def fld_def [of _ _ ?h] simp del: fld_in)
  qed
  have lens: "p < length g3" "c < length ?g4" "p < length ?g5" using leng p by simp_all
  have "length ?g6 = length ?h" using leng by simp
  moreover have "kf ?g6 = kf g3" "vf ?g6 = vf g3" "nf ?g6 = (nf g3)(p := Some d)" "df ?g6 = df g3"
    "bf ?g6 = bf g3" "lf ?g6 = (lf g3)(c := False, p := False)"
    by (simp_all only: lock_fields [OF lens(2)] lock_fields [OF lens(3)] next_fields [OF lens(1)])
  ultimately show ?thesis using run q'(2) g3' F' h2 b3 lk p
    by (intro exI [of _ ?g6] exI [of _ q']) auto
qed

section \<open>An example list\<close>

text \<open>The list after the constructor and one insertion of key 7: clock 3, two snapshots.\<close>

definition example_bl :: bl_list where
  "example_bl = \<lparr>heap_bl =
       [\<lparr>key_bl = 100, val_bl = 0, next_bl = None, lock_bl = False, marked_bl = 0, rqbundle_bl = []\<rparr>,
        \<lparr>key_bl = - 1, val_bl = 0, next_bl = Some 2, lock_bl = False, marked_bl = 0,
          rqbundle_bl = [BundleEntry 3 (Some 2), BundleEntry 2 (Some 0)]\<rparr>,
        \<lparr>key_bl = 7, val_bl = 70, next_bl = Some 0, lock_bl = False, marked_bl = 0,
          rqbundle_bl = [BundleEntry 3 (Some 0)]\<rparr>],
     head_bl = Some 1,
     rq_bl = \<lparr>num_processes = 4, curr_timestamp = 3, rq_lin_time = (\<lambda>_. 0), rq_flag = (\<lambda>_. False),
       local_timestamp = (\<lambda>_. 0), backoff_amt = (\<lambda>_. 1), rq_init = (\<lambda>i. i = 0), mode = Update_Clock,
       cleanup_update = False\<rparr>,
     retired_bl = [], quiescent_bl = (\<lambda>_. True), init_bl = (\<lambda>i. i = 0),
     KEY_MIN_bl = - 1, KEY_MAX_bl = 100, NO_VALUE_bl = 0\<rparr>"

lemma example_bl_sel:
  "head_bl example_bl = Some 1" "curr_timestamp (rq_bl example_bl) = 3" "mode (rq_bl example_bl) = Update_Clock"
  "\<not> cleanup_update (rq_bl example_bl)" "KEY_MIN_bl example_bl = - 1" "KEY_MAX_bl example_bl = 100"
  "NO_VALUE_bl example_bl = 0" "num_processes (rq_bl example_bl) = 4" "rq_flag (rq_bl example_bl) = (\<lambda>_. False)"
  "rq_lin_time (rq_bl example_bl) = (\<lambda>_. 0)" "length (heap_bl example_bl) = 3"
  by (simp_all add: example_bl_def)

lemma example_bl_retired: "retired_bl example_bl = []"
  by (simp add: example_bl_def)

lemma example_bl_chain: "chain_bl example_bl 1 0 [1, 2, 0]"
proof -
  have "chain_inv (kf (heap_bl example_bl)) (nf (heap_bl example_bl)) (bf (heap_bl example_bl))
    (df (heap_bl example_bl)) (length (heap_bl example_bl)) 1 0 3 [1, 2, 0]"
    by (rule chain_invI) (auto simp: example_bl_def LLONG_MAX_def less_Suc_eq numeral_eq_Suc)
  moreover have "\<not> lf (heap_bl example_bl) a" for a
    by (auto simp: example_bl_def fld_def less_Suc_eq numeral_eq_Suc)
  ultimately show ?thesis by (simp add: chain_bl_def Let_def example_bl_sel) (simp add: example_bl_def)
qed

lemma example_bl_wf: "wf_bl 2 example_bl"
proof -
  let ?h = "heap_bl example_bl"
  have now: "snap_path (kf ?h) (bf ?h) (length ?h) 1 0 3 [1, 2, 0]"
    using chain_now [OF chain_blD(2) [OF example_bl_chain]] by (simp add: example_bl_sel)
  have before: "snap_path (kf ?h) (bf ?h) (length ?h) 1 0 2 [1, 0]"
    by (auto simp: snap_path_def bsucc_def example_bl_def less_Suc_eq numeral_eq_Suc)
  have "snaps_inv 2 (kf ?h) (bf ?h) (length ?h) 1 0 3"
    unfolding snaps_inv_def
  proof (intro allI impI)
    fix u :: int assume "2 \<le> u \<and> u \<le> 3"
    then have "u = 2 \<or> u = 3" by auto
    then show "\<exists>Q. snap_path (kf ?h) (bf ?h) (length ?h) 1 0 u Q" using now before by blast
  qed
  then show ?thesis using example_bl_chain by (auto simp: wf_bl_def example_bl_sel timestamp_defs)
qed

lemma example_bl_contents:
  "contents_bl example_bl = [(7, 70)]" "snapshot_bl example_bl 2 = []" "snapshot_bl example_bl 3 = [(7, 70)]"
proof -
  show "contents_bl example_bl = [(7, 70)]" "snapshot_bl example_bl 3 = [(7, 70)]"
    using contents_chain_bl [OF example_bl_chain] by (simp_all add: pairs_bl_def example_bl_sel) (simp_all add: example_bl_def)
  show "snapshot_bl example_bl 2 = []"
    by (simp add: snapshot_bl_def pairs_bl_def bsucc_def example_bl_def numeral_eq_Suc)
qed

end
