(* ===== verification/Bundled_List_Ops.thy ===== *)
theory Bundled_List_Ops
  imports Bundled_List_Correct
begin

text \<open>
  The abstract specification of the bundled list and the proof that insertion and deletion
  implement it: the section under the locks on the result of a search made at any earlier
  time, and the whole methods with their retry loops.
\<close>

section \<open>Abstract state\<close>

lemma quiescent_sel [simp]:
  "heap_bl (enterQuiescentState_bl s tid) = heap_bl s" "head_bl (enterQuiescentState_bl s tid) = head_bl s"
  "rq_bl (enterQuiescentState_bl s tid) = rq_bl s" "KEY_MIN_bl (enterQuiescentState_bl s tid) = KEY_MIN_bl s"
  "KEY_MAX_bl (enterQuiescentState_bl s tid) = KEY_MAX_bl s" "NO_VALUE_bl (enterQuiescentState_bl s tid) = NO_VALUE_bl s"
  "retired_bl (enterQuiescentState_bl s tid) = retired_bl s" "quiescent_bl (enterQuiescentState_bl s tid) tid"
  "heap_bl (leaveQuiescentState_bl s tid) = heap_bl s" "head_bl (leaveQuiescentState_bl s tid) = head_bl s"
  "rq_bl (leaveQuiescentState_bl s tid) = rq_bl s" "KEY_MIN_bl (leaveQuiescentState_bl s tid) = KEY_MIN_bl s"
  "KEY_MAX_bl (leaveQuiescentState_bl s tid) = KEY_MAX_bl s" "NO_VALUE_bl (leaveQuiescentState_bl s tid) = NO_VALUE_bl s"
  "retired_bl (leaveQuiescentState_bl s tid) = retired_bl s"
  by (simp_all add: enterQuiescentState_bl_def leaveQuiescentState_bl_def)

lemma quiescent_chain [simp]:
  "chain_bl (enterQuiescentState_bl s tid) ha ta P = chain_bl s ha ta P"
  "chain_bl (leaveQuiescentState_bl s tid) ha ta P = chain_bl s ha ta P"
  by (simp_all add: chain_bl_def)

lemma quiescent_abs [simp]:
  "wf_bl base (enterQuiescentState_bl s tid) = wf_bl base s" "wf_bl base (leaveQuiescentState_bl s tid) = wf_bl base s"
  "contents_bl (enterQuiescentState_bl s tid) = contents_bl s" "contents_bl (leaveQuiescentState_bl s tid) = contents_bl s"
  "snapshot_bl (enterQuiescentState_bl s tid) u = snapshot_bl s u" "snapshot_bl (leaveQuiescentState_bl s tid) u = snapshot_bl s u"
  by (simp_all add: wf_bl_def contents_bl_def snapshot_bl_def pairs_bl_def)

text \<open>
  What no operation ever changes: the sentinels, the key and the value of a node, its
  successor at a time that can still be read, and the chain of such a snapshot.
\<close>

definition keeps_bl :: "timestamp_t \<Rightarrow> bl_list \<Rightarrow> bl_list \<Rightarrow> bool" where
  "keeps_bl base s s' \<longleftrightarrow>
     head_bl s' = head_bl s \<and> KEY_MIN_bl s' = KEY_MIN_bl s \<and> KEY_MAX_bl s' = KEY_MAX_bl s
     \<and> length (heap_bl s) \<le> length (heap_bl s')
     \<and> (\<forall>a<length (heap_bl s). kf (heap_bl s') a = kf (heap_bl s) a \<and> vf (heap_bl s') a = vf (heap_bl s) a)
     \<and> (\<forall>a<length (heap_bl s). \<forall>u. base \<le> u \<and> u \<le> curr_timestamp (rq_bl s)
          \<longrightarrow> bsucc (bf (heap_bl s')) u a = bsucc (bf (heap_bl s)) u a)
     \<and> (\<forall>ha ta u Q. base \<le> u \<and> u \<le> curr_timestamp (rq_bl s) \<and> head_bl s = Some ha
          \<and> snap_path (kf (heap_bl s)) (bf (heap_bl s)) (length (heap_bl s)) ha ta u Q
          \<longrightarrow> snap_path (kf (heap_bl s')) (bf (heap_bl s')) (length (heap_bl s')) ha ta u Q)"

definition same_announcements :: "rqp \<Rightarrow> rqp \<Rightarrow> bool" where
  "same_announcements q q' \<longleftrightarrow> rq_lin_time q' = rq_lin_time q \<and> rq_flag q' = rq_flag q
     \<and> num_processes q' = num_processes q"

lemma same_announcements_refl [simp]: "same_announcements q q"
  by (simp add: same_announcements_def)

text \<open>
  One update seen from outside: the new dictionary is \<open>d\<close>, every snapshot taken so far
  reads as before, and the snapshot of the present is the new dictionary.
\<close>

definition steps_to_bl :: "timestamp_t \<Rightarrow> bl_list \<Rightarrow> dict \<Rightarrow> bl_list \<Rightarrow> bool" where
  "steps_to_bl base s d s' \<longleftrightarrow>
     wf_bl base s' \<and> keeps_bl base s s' \<and> contents_bl s' = d
     \<and> snapshot_bl s' (curr_timestamp (rq_bl s')) = d
     \<and> curr_timestamp (rq_bl s) \<le> curr_timestamp (rq_bl s')
     \<and> (\<forall>u. base \<le> u \<and> u \<le> curr_timestamp (rq_bl s) \<longrightarrow> snapshot_bl s' u = snapshot_bl s u)"

lemma wf_blE:
  assumes "wf_bl base s"
  obtains ha ta P where "chain_bl s ha ta P"
    "snaps_inv base (kf (heap_bl s)) (bf (heap_bl s)) (length (heap_bl s)) ha ta (curr_timestamp (rq_bl s))"
  using assms by (auto simp: wf_bl_def)

lemma wf_bl_clock:
  assumes "wf_bl base s"
  shows "mode (rq_bl s) = Update_Clock" "\<not> cleanup_update (rq_bl s)" "0 < base"
    "base \<le> curr_timestamp (rq_bl s)" "curr_timestamp (rq_bl s) \<le> BUNDLE_MAX_TIMESTAMP"
    "curr_timestamp (rq_bl s) < BUNDLE_MAX_TIMESTAMP \<Longrightarrow> clock_ok (rq_bl s)"
  using assms by (auto simp: wf_bl_def clock_ok_def timestamp_defs)

lemma steps_to_refl: "wf_bl base s \<Longrightarrow> steps_to_bl base s (contents_bl s) s"
  using contents_chain_bl by (auto simp: steps_to_bl_def keeps_bl_def elim: wf_blE)

lemma steps_to_quiescent [simp]:
  "steps_to_bl base s d (enterQuiescentState_bl s' tid) = steps_to_bl base s d s'"
  "steps_to_bl base (leaveQuiescentState_bl s tid) d s' = steps_to_bl base s d s'"
  "steps_to_bl base s d (leaveQuiescentState_bl s' tid) = steps_to_bl base s d s'"
  by (simp_all add: steps_to_bl_def keeps_bl_def)

lemma keeps_quiescent [simp]:
  "keeps_bl base s (enterQuiescentState_bl s' tid) = keeps_bl base s s'"
  "keeps_bl base s (leaveQuiescentState_bl s' tid) = keeps_bl base s s'"
  by (simp_all add: keeps_bl_def)

lemma pairs_cong:
  assumes "\<And>a. a \<in> set Q \<Longrightarrow> kf (heap_bl s') a = kf (heap_bl s) a \<and> vf (heap_bl s') a = vf (heap_bl s) a"
  shows "pairs_bl s' Q = pairs_bl s Q"
proof -
  have "set (butlast (tl Q)) \<subseteq> set Q" by (cases Q) (auto dest: in_set_butlastD)
  then show ?thesis using assms unfolding pairs_bl_def by (intro map_cong) auto
qed

lemma pairs_sorted:
  assumes "ksorted (kf (heap_bl s)) Q"
  shows "ksorted fst (pairs_bl s Q)"
proof -
  have "ksorted (kf (heap_bl s)) (tl Q)" using assms by (cases Q) auto
  then have "ksorted (kf (heap_bl s)) (butlast (tl Q))"
    by (cases "tl Q" rule: rev_cases) (auto simp: sorted_wrt_append)
  then show ?thesis by (simp add: pairs_bl_def sorted_wrt_map)
qed

lemma steps_toI:
  assumes wf: "wf_bl base s" and chain: "chain_bl s' ha ta P'" and tick: "rq_tick (rq_bl s) (rq_bl s')"
    and clk: "curr_timestamp (rq_bl s) < BUNDLE_MAX_TIMESTAMP"
    and snaps: "snaps_inv base (kf (heap_bl s')) (bf (heap_bl s')) (length (heap_bl s')) ha ta
      (curr_timestamp (rq_bl s'))"
    and head: "head_bl s = Some ha"
    and sn: "snaps_inv base (kf (heap_bl s)) (bf (heap_bl s)) (length (heap_bl s)) ha ta (curr_timestamp (rq_bl s))"
    and old: "\<And>u Q. u \<le> curr_timestamp (rq_bl s) \<Longrightarrow>
      snap_path (kf (heap_bl s)) (bf (heap_bl s)) (length (heap_bl s)) ha ta u Q \<Longrightarrow>
      snap_path (kf (heap_bl s')) (bf (heap_bl s')) (length (heap_bl s')) ha ta u Q"
    and same: "\<And>a. a < length (heap_bl s) \<Longrightarrow>
      kf (heap_bl s') a = kf (heap_bl s) a \<and> vf (heap_bl s') a = vf (heap_bl s) a"
    and succ: "\<And>u a. u \<le> curr_timestamp (rq_bl s) \<Longrightarrow> a < length (heap_bl s) \<Longrightarrow>
      bsucc (bf (heap_bl s')) u a = bsucc (bf (heap_bl s)) u a"
    and frame: "KEY_MIN_bl s' = KEY_MIN_bl s" "KEY_MAX_bl s' = KEY_MAX_bl s"
      "length (heap_bl s) \<le> length (heap_bl s')"
  shows "steps_to_bl base s (pairs_bl s' P') s'"
proof -
  have "snapshot_bl s' u = snapshot_bl s u" if u: "base \<le> u" "u \<le> curr_timestamp (rq_bl s)" for u
  proof -
    obtain Q where Q: "snap_path (kf (heap_bl s)) (bf (heap_bl s)) (length (heap_bl s)) ha ta u Q"
      using sn u unfolding snaps_inv_def by blast
    have "pairs_bl s' Q = pairs_bl s Q"
      using Q same by (intro pairs_cong) (simp add: snap_path_def del: fld_in)
    then show ?thesis
      using snap_snapshot_bl [OF head Q] snap_snapshot_bl [OF chain_blD(1) [OF chain] old [OF u(2) Q]] by simp
  qed
  moreover have "wf_bl base s'"
    using wf chain snaps rq_tickD [OF tick] clk unfolding wf_bl_def by auto
  moreover have "keeps_bl base s s'"
    unfolding keeps_bl_def
  proof (intro conjI allI impI)
    show "head_bl s' = head_bl s" using head chain_blD(1) [OF chain] by simp
    fix ha' ta' u Q
    assume a: "base \<le> u \<and> u \<le> curr_timestamp (rq_bl s) \<and> head_bl s = Some ha'
      \<and> snap_path (kf (heap_bl s)) (bf (heap_bl s)) (length (heap_bl s)) ha' ta' u Q"
    obtain R where R: "snap_path (kf (heap_bl s)) (bf (heap_bl s)) (length (heap_bl s)) ha ta u R"
      using sn a unfolding snaps_inv_def by blast
    have "ha' = ha" using a head by simp
    then have "R = Q" using a R snap_path_walk by metis
    then have "ta' = ta" using a R by (auto simp: snap_path_def)
    then show "snap_path (kf (heap_bl s')) (bf (heap_bl s')) (length (heap_bl s')) ha' ta' u Q"
      using old a \<open>ha' = ha\<close> by blast
  qed (use frame same succ in blast)+
  ultimately show ?thesis
    using contents_chain_bl [OF chain] rq_tickD(1) [OF tick] by (simp add: steps_to_bl_def)
qed

text \<open>The dictionary of a chain, split at a key.\<close>

lemma pairs_split:
  assumes "ksorted (kf (heap_bl s)) (us @ p # c # vs)" "kf (heap_bl s) p < k" "k \<le> kf (heap_bl s) c"
    and "es = map (\<lambda>a. (kf (heap_bl s) a, vf (heap_bl s) a)) (tl (us @ [p]))"
  shows "pairs_bl s (us @ p # c # vs) = es @ map (\<lambda>a. (kf (heap_bl s) a, vf (heap_bl s) a)) (butlast (c # vs))"
    "\<forall>e\<in>set es. fst e < k"
    "\<forall>e\<in>set (map (\<lambda>a. (kf (heap_bl s) a, vf (heap_bl s) a)) (butlast vs)). k < fst e"
  using inner_split [OF refl, of us p c vs] inner_keys [OF assms(1-3)] assms(4) by (simp_all add: pairs_bl_def)

section \<open>Commits on the result of any search\<close>

text \<open>The validation under the locks finds two neighbours of the chain, however old the search.\<close>

lemma valid_adjacent:
  assumes "chain_bl s ha ta P" "p < length (heap_bl s)" "\<not> df (heap_bl s) p" "nf (heap_bl s) p = Some c"
  obtains us vs where "P = us @ p # c # vs"
proof -
  note i = chain_invD [OF chain_blD(2) [OF assms(1)]]
  have "p \<in> set P" using i(11) assms(2,3) by blast
  then obtain us rest where P: "P = us @ p # rest" by (auto simp: in_set_conv_decomp)
  have "p \<noteq> ta" using i(7) assms(4) by (auto simp del: fld_in)
  then obtain x vs where "rest = x # vs" using P i(3) by (cases rest) auto
  moreover from this have "nf (heap_bl s) p = Some x" using i(4) P by (simp add: linked_mid del: fld_in)
  ultimately show thesis using that P assms(4) by (simp del: fld_in)
qed

lemma clock_bounds:
  assumes "wf_bl base s" "curr_timestamp (rq_bl s) < BUNDLE_MAX_TIMESTAMP"
  shows "0 \<le> curr_timestamp (rq_bl s)" "curr_timestamp (rq_bl s) + 1 < LLONG_MAX"
    "curr_timestamp (rq_bl s) < curr_timestamp (rq_bl s) + 1"
  using wf_bl_clock [OF assms(1)] assms(2) by (simp_all add: timestamp_defs)

lemma chain_after_insert:
  assumes ch: "chain_bl s ha ta (us @ p # c # vs)" and k: "kf (heap_bl s) p < k" "k < kf (heap_bl s) c"
    and wf: "wf_bl base s" and clk: "curr_timestamp (rq_bl s) < BUNDLE_MAX_TIMESTAMP"
    and h: "rq_tick (rq_bl s) q'" "length h' = Suc (length (heap_bl s))"
      "kf h' = (kf (heap_bl s))(length (heap_bl s) := k)"
      "nf h' = ins_nxt (nf (heap_bl s)) p c (length (heap_bl s))"
      "bf h' = ins_bun (bf (heap_bl s)) (curr_timestamp (rq_bl s) + 1) p c (length (heap_bl s))"
      "df h' = (df (heap_bl s))(length (heap_bl s) := False)" "\<forall>a. \<not> lf h' a"
  shows "chain_bl (s\<lparr>rq_bl := q', heap_bl := h'\<rparr>) ha ta (us @ p # length (heap_bl s) # c # vs)"
proof -
  note c = chain_blD [OF ch] and i = chain_invD [OF chain_blD(2) [OF ch]]
  have in_h: "ha < length (heap_bl s)" "ta < length (heap_bl s)"
    using bspec [OF i(6) hd_in_set [OF i(1)]] bspec [OF i(6) i(13)] i(2) by auto
  have "chain_inv (kf h') (nf h') (bf h') (df h') (length h') ha ta (curr_timestamp q')
    (us @ p # length (heap_bl s) # c # vs)"
    using chain_insert [OF c(2) k clock_bounds(1,3,2) [OF wf clk]] h rq_tickD(1) [OF h(1)] by simp
  then show ?thesis using c h(3,7) in_h unfolding chain_bl_def Let_def by simp
qed

lemma insert_commit:
  assumes wf: "wf_bl base s" and clk: "curr_timestamp (rq_bl s) < BUNDLE_MAX_TIMESTAMP"
    and ch: "chain_bl s ha ta (us @ p # c # vs)"
    and sn: "snaps_inv base (kf (heap_bl s)) (bf (heap_bl s)) (length (heap_bl s)) ha ta (curr_timestamp (rq_bl s))"
    and k: "kf (heap_bl s) p < k" "k < kf (heap_bl s) c"
  shows "\<exists>s'. insert_locked_bl s tid (Some p) (Some c) k v oia = Inr (s', Some (NO_VALUE_bl s))
    \<and> steps_to_bl base s (ins_kv k v (contents_bl s)) s' \<and> map_of (contents_bl s) k = None
    \<and> quiescent_bl s' tid \<and> retired_bl s' = retired_bl s \<and> same_announcements (rq_bl s) (rq_bl s')"
proof -
  note c = chain_blD [OF ch] and i = chain_invD [OF chain_blD(2) [OF ch]]
  let ?n = "length (heap_bl s)" let ?P = "us @ p # c # vs"
  have pc: "p < ?n" "c < ?n" "\<not> df (heap_bl s) p" "\<not> df (heap_bl s) c" "nf (heap_bl s) p = Some c"
    using i(4,6) by (simp_all add: linked_mid del: fld_in)
  obtain h' q' where run: "insert_locked_bl s tid (Some p) (Some c) k v oia =
      Inr (enterQuiescentState_bl (s\<lparr>rq_bl := q', heap_bl := h'\<rparr>) tid, Some (NO_VALUE_bl s))"
    and h: "rq_tick (rq_bl s) q'" "length h' = Suc ?n" "kf h' = (kf (heap_bl s))(?n := k)"
      "vf h' = (vf (heap_bl s))(?n := v)" "nf h' = ins_nxt (nf (heap_bl s)) p c ?n"
      "bf h' = ins_bun (bf (heap_bl s)) (curr_timestamp (rq_bl s) + 1) p c ?n"
      "df h' = (df (heap_bl s))(?n := False)" "\<forall>a. \<not> lf h' a"
    using insert_locked_absent [OF pc(1,2) c(6) pc(3-5) less_imp_neq [OF k(2), symmetric] wf_bl_clock(6) [OF wf clk], of tid v oia]
    by blast
  let ?s = "s\<lparr>rq_bl := q', heap_bl := h'\<rparr>" let ?P' = "us @ p # ?n # c # vs"
  have ch': "chain_bl ?s ha ta ?P'"
    by (rule chain_after_insert [OF ch k wf clk h(1-3,5-8)])
  note sni = snaps_insert [OF c(2) k clock_bounds(1) [OF wf clk] refl clock_bounds(2) [OF wf clk] sn]
  have st: "steps_to_bl base s (pairs_bl ?s ?P') ?s"
    using sni h rq_tickD(1) [OF h(1)]
    by (intro steps_toI [OF wf ch' _ clk _ c(1) sn]) (simp_all add: ins_bun_old del_bun_old del: fld_in)
  have srt: "ksorted (kf (heap_bl s)) ?P" by (rule i(5))
  have fresh: "?n \<notin> set (tl (us @ [p])) \<union> set (butlast (c # vs))"
  proof -
    have "set (tl (us @ [p])) \<union> set (butlast (c # vs)) \<subseteq> set ?P"
      by (cases us) (auto dest: in_set_butlastD)
    then show ?thesis using i(6) by auto
  qed
  have "pairs_bl ?s ?P' = ins_kv k v (contents_bl s)" and "map_of (contents_bl s) k = None"
  proof -
    let ?kv = "\<lambda>a. (kf (heap_bl s) a, vf (heap_bl s) a)"
    define es where es_def: "es = map ?kv (tl (us @ [p]))"
    note es = pairs_split(1) [OF srt k(1) less_imp_le [OF k(2)] es_def] es_def
      pairs_split(2,3) [OF srt k(1) less_imp_le [OF k(2)] es_def]
    have fs: "\<forall>e\<in>set (map ?kv (butlast (c # vs))). k < fst e" using es(4) k(2) by auto
    have "butlast (tl ?P') = tl (us @ [p]) @ ?n # butlast (c # vs)"
      by (cases us) (simp_all add: butlast_append)
    then have "pairs_bl ?s ?P' = es @ (k, v) # map ?kv (butlast (c # vs))"
      using fresh h(3,4) unfolding es(2) pairs_bl_def by (simp del: fld_in butlast.simps)
    then show "pairs_bl ?s ?P' = ins_kv k v (contents_bl s)"
      using ins_kv_between [OF es(3) fs] contents_chain_bl(1) [OF ch] es(1) by simp
    show "map_of (contents_bl s) k = None"
      unfolding contents_chain_bl(1) [OF ch] es(1) map_of_eq_None_iff by (rule keys_apart [OF es(3) fs])
  qed
  then show ?thesis using run st rq_tickD [OF h(1)] by (simp add: same_announcements_def)
qed

lemma erase_commit:
  assumes wf: "wf_bl base s" and clk: "curr_timestamp (rq_bl s) < BUNDLE_MAX_TIMESTAMP"
    and ch: "chain_bl s ha ta (us @ p # c # vs)"
    and sn: "snaps_inv base (kf (heap_bl s)) (bf (heap_bl s)) (length (heap_bl s)) ha ta (curr_timestamp (rq_bl s))"
    and k: "kf (heap_bl s) c = k" "k < KEY_MAX_bl s"
  shows "\<exists>s'. erase_locked_bl s tid (Some p) (Some c) k = Inr (s', Some (vf (heap_bl s) c))
    \<and> steps_to_bl base s (del_kv k (contents_bl s)) s' \<and> map_of (contents_bl s) k = Some (vf (heap_bl s) c)
    \<and> quiescent_bl s' tid \<and> retired_bl s' = retired_bl s @ [Some c]
    \<and> same_announcements (rq_bl s) (rq_bl s')"
proof -
  note c = chain_blD [OF ch] and i = chain_invD [OF chain_blD(2) [OF ch]]
  let ?n = "length (heap_bl s)"
  have "c \<noteq> ta" using c(4) k by auto
  then obtain d ws where vs: "vs = d # ws" using i(3) by (cases vs) auto
  let ?P = "us @ p # c # d # ws" let ?P' = "us @ p # d # ws"
  have pc: "p < ?n" "c < ?n" "p \<noteq> c" "\<not> df (heap_bl s) p" "\<not> df (heap_bl s) c" "nf (heap_bl s) p = Some c"
    using i(4,6,12) by (simp_all add: linked_mid del: fld_in)
  have cd: "nf (heap_bl s) c = Some d"
    using i(4) vs linked_mid [of "nf (heap_bl s)" "us @ [p]" c d ws] by (simp del: fld_in)
  obtain h' q' where run: "erase_locked_bl s tid (Some p) (Some c) k =
      Inr (enterQuiescentState_bl (s\<lparr>rq_bl := q', retired_bl := retired_bl s @ [Some c], heap_bl := h'\<rparr>) tid,
        Some (vf (heap_bl s) c))"
    and h: "rq_tick (rq_bl s) q'" "length h' = ?n" "kf h' = kf (heap_bl s)" "vf h' = vf (heap_bl s)"
      "nf h' = (nf (heap_bl s))(p := Some d)"
      "bf h' = del_bun (bf (heap_bl s)) (curr_timestamp (rq_bl s) + 1) p c d ha"
      "df h' = (df (heap_bl s))(c := True)" "\<forall>a. \<not> lf h' a"
    using erase_locked_valid [OF pc(1-3) c(6) pc(4-6) k(1) wf_bl_clock(6) [OF wf clk] c(1) cd, of tid] by blast
  let ?s = "s\<lparr>rq_bl := q', retired_bl := retired_bl s @ [Some c], heap_bl := h'\<rparr>"
  have inv: "chain_inv (kf (heap_bl s)) (nf (heap_bl s)) (bf (heap_bl s)) (df (heap_bl s)) ?n ha ta
    (curr_timestamp (rq_bl s)) ?P" using c(2) vs by simp
  have "chain_inv (kf h') (nf h') (bf h') (df h') (length h') ha ta (curr_timestamp q') ?P'"
    using chain_erase [OF inv clock_bounds(1,3,2) [OF wf clk]] h rq_tickD(1) [OF h(1)] by simp
  then have ch': "chain_bl ?s ha ta ?P'" using c h(3,8) unfolding chain_bl_def Let_def by simp
  note sni = snaps_erase [OF inv clock_bounds(1) [OF wf clk] refl clock_bounds(2) [OF wf clk] sn]
  have st: "steps_to_bl base s (pairs_bl ?s ?P') ?s"
    using sni h rq_tickD(1) [OF h(1)]
    by (intro steps_toI [OF wf ch' _ clk _ c(1) sn]) (simp_all add: ins_bun_old del_bun_old del: fld_in)
  have srt: "ksorted (kf (heap_bl s)) (us @ p # c # d # ws)" using i(5) vs by simp
  then have pk: "kf (heap_bl s) p < k" using k(1) by (simp add: sorted_wrt_append del: fld_in)
  let ?kv = "\<lambda>a. (kf (heap_bl s) a, vf (heap_bl s) a)"
  define es where es_def: "es = map ?kv (tl (us @ [p]))"
  note es = pairs_split(1) [OF srt pk eq_refl [OF k(1) [symmetric]] es_def] es_def
    pairs_split(2,3) [OF srt pk eq_refl [OF k(1) [symmetric]] es_def]
  have cont: "contents_bl s = es @ (k, vf (heap_bl s) c) # map ?kv (butlast (d # ws))"
    using contents_chain_bl(1) [OF ch] es(1) k(1) vs by (simp del: fld_in)
  have "butlast (tl ?P') = tl (us @ [p]) @ butlast (d # ws)"
    by (cases us) (simp_all add: butlast_append)
  then have "pairs_bl ?s ?P' = del_kv k (contents_bl s)"
    using h(3,4) unfolding cont del_kv_between [OF es(3,4)] by (simp add: es(2) pairs_bl_def del: fld_in butlast.simps)
  moreover have "map_of (contents_bl s) k = Some (vf (heap_bl s) c)"
  proof -
    have "map_of es k = None" using es(3) by (force simp: map_of_eq_None_iff)
    then show ?thesis unfolding cont by (simp add: map_add_Some_iff)
  qed
  ultimately show ?thesis using run st rq_tickD [OF h(1)] by (simp add: same_announcements_def)
qed

text \<open>Insertion of a key that the list holds.\<close>

lemma insert_present:
  assumes ch: "chain_bl s ha ta (us @ p # c # vs)" and k: "kf (heap_bl s) c = k" "k < KEY_MAX_bl s"
  shows "insert_locked_bl s tid (Some p) (Some c) k v True =
      Inr (enterQuiescentState_bl s tid, Some (vf (heap_bl s) c))"
    "map_of (contents_bl s) k = Some (vf (heap_bl s) c)" "ins_kv k v (contents_bl s) = contents_bl s"
proof -
  note c = chain_blD [OF ch] and i = chain_invD [OF chain_blD(2) [OF ch]]
  have "c \<noteq> ta" using c(4) k by auto
  then have "c \<in> set (butlast (c # vs))" using i(3) by (cases vs) auto
  then have "(k, vf (heap_bl s) c) \<in> set (contents_bl s)"
    unfolding contents_chain_bl(1) [OF ch] pairs_bl_def inner_split [OF refl] using k(1)
    by (auto simp del: fld_in butlast.simps)
  moreover have srt: "ksorted fst (contents_bl s)"
    unfolding contents_chain_bl(1) [OF ch] by (rule pairs_sorted [OF i(5)])
  ultimately show "map_of (contents_bl s) k = Some (vf (heap_bl s) c)" "ins_kv k v (contents_bl s) = contents_bl s"
    using ksorted_distinct_keys [OF srt] ins_kv_present [OF srt, of k v]
    by (auto intro!: map_of_is_SomeI simp: rev_image_eqI)
  show "insert_locked_bl s tid (Some p) (Some c) k v True =
      Inr (enterQuiescentState_bl s tid, Some (vf (heap_bl s) c))"
    using i(4,6) c(6) k(1) by (intro insert_locked_present) (simp_all add: linked_mid del: fld_in)
qed

text \<open>A search that ended at \<open>p\<close> and \<open>c\<close>, in this state or in any earlier one.\<close>

definition found_bl :: "bl_list \<Rightarrow> int \<Rightarrow> nat \<Rightarrow> nat \<Rightarrow> bool" where
  "found_bl s k p c \<longleftrightarrow> p < length (heap_bl s) \<and> c < length (heap_bl s)
     \<and> kf (heap_bl s) p < k \<and> k \<le> kf (heap_bl s) c"

definition linked_now_bl :: "bl_list \<Rightarrow> nat \<Rightarrow> nat \<Rightarrow> bool" where
  "linked_now_bl s p c \<longleftrightarrow> \<not> df (heap_bl s) p \<and> \<not> df (heap_bl s) c \<and> nf (heap_bl s) p = Some c"

lemma insert_locked_step:
  assumes "wf_bl base s" "curr_timestamp (rq_bl s) < BUNDLE_MAX_TIMESTAMP"
    and "found_bl s k p c" "k < KEY_MAX_bl s"
  shows "\<exists>s' r. insert_locked_bl s tid (Some p) (Some c) k v True = Inr (s', r) \<and> quiescent_bl s' tid
    \<and> same_announcements (rq_bl s) (rq_bl s') \<and> (case r of None \<Rightarrow> \<not> linked_now_bl s p c \<and> steps_to_bl base s (contents_bl s) s'
       | Some x \<Rightarrow> linked_now_bl s p c
           \<and> x = (case map_of (contents_bl s) k of None \<Rightarrow> NO_VALUE_bl s | Some w \<Rightarrow> w)
           \<and> steps_to_bl base s (ins_kv k v (contents_bl s)) s')"
proof (cases "linked_now_bl s p c")
  case False
  obtain ha ta P where ch: "chain_bl s ha ta P" using assms(1) by (elim wf_blE)
  have "insert_locked_bl s tid (Some p) (Some c) k v True = Inr (enterQuiescentState_bl s tid, None)"
    using False assms(3) chain_blD(6) [OF ch] unfolding linked_now_bl_def found_bl_def
    by (intro insert_locked_invalid) (simp_all del: fld_in)
  then show ?thesis using False steps_to_refl [OF assms(1)] by simp
next
  case True
  then have l: "\<not> df (heap_bl s) p" "nf (heap_bl s) p = Some c" by (simp_all add: linked_now_bl_def del: fld_in)
  obtain ha ta P where chP: "chain_bl s ha ta P"
    and sn: "snaps_inv base (kf (heap_bl s)) (bf (heap_bl s)) (length (heap_bl s)) ha ta (curr_timestamp (rq_bl s))"
    using assms(1) by (elim wf_blE)
  have f: "p < length (heap_bl s)" "kf (heap_bl s) p < k" "k \<le> kf (heap_bl s) c"
    using assms(3) by (simp_all add: found_bl_def del: fld_in)
  obtain us vs where ch: "chain_bl s ha ta (us @ p # c # vs)"
    using valid_adjacent [OF chP f(1) l] chP by metis
  show ?thesis
  proof (cases "kf (heap_bl s) c = k")
    case same: True
    show ?thesis using insert_present [OF ch same assms(4)] True steps_to_refl [OF assms(1)] by simp
  next
    case False
    then have kc: "k < kf (heap_bl s) c" using f(3) by simp
    show ?thesis using insert_commit [OF assms(1,2) ch sn f(2) kc, of tid v True] True by auto
  qed
qed

lemma example_bl_search:
  "found_bl example_bl 5 1 2" "found_bl example_bl 7 1 2" "linked_now_bl example_bl 1 2"
  "kf (heap_bl example_bl) 2 = 7"
  by (simp_all add: found_bl_def linked_now_bl_def example_bl_def)

text \<open>
  C4: The locked section of \<open>insertIfAbsent\<close> linearizes whatever search it acts on:
  for any two nodes a search may have returned, however stale, either the validation
  sends the thread back to the search and nothing has changed, or the key is now bound
  (the old value is returned if there was one) and every snapshot and every announcement
  of a range query is untouched; the retry happens exactly if the two nodes are no
  longer neighbours in the list.
\<close>

theorem insert_locked_linearizable:
  assumes "wf_bl base s" "curr_timestamp (rq_bl s) < BUNDLE_MAX_TIMESTAMP"
    and "found_bl s k p c" "k < KEY_MAX_bl s"
  shows "\<exists>s' r. insert_locked_bl s tid (Some p) (Some c) k v True = Inr (s', r) \<and> quiescent_bl s' tid
    \<and> same_announcements (rq_bl s) (rq_bl s') \<and> (case r of None \<Rightarrow> \<not> linked_now_bl s p c \<and> steps_to_bl base s (contents_bl s) s'
       | Some x \<Rightarrow> linked_now_bl s p c
           \<and> x = (case map_of (contents_bl s) k of None \<Rightarrow> NO_VALUE_bl s | Some w \<Rightarrow> w)
           \<and> steps_to_bl base s (ins_kv k v (contents_bl s)) s')"
  by (rule insert_locked_step [OF assms])

theorem insert_locked_linearizable_witness:
  "\<exists>s'. insert_locked_bl example_bl 1 (Some 1) (Some 2) 5 50 True = Inr (s', Some 0)
     \<and> contents_bl s' = [(5, 50), (7, 70)] \<and> snapshot_bl s' 3 = [(7, 70)]"
  using insert_locked_linearizable [OF example_bl_wf _ example_bl_search(1), of 1 50]
  by (auto simp: example_bl_sel example_bl_contents example_bl_search steps_to_bl_def timestamp_defs
      simp del: One_nat_def split: option.splits)

lemma erase_locked_step:
  assumes "wf_bl base s" "curr_timestamp (rq_bl s) < BUNDLE_MAX_TIMESTAMP"
    and "found_bl s k p c" "kf (heap_bl s) c = k" "k < KEY_MAX_bl s"
  shows "\<exists>s' r. erase_locked_bl s tid (Some p) (Some c) k = Inr (s', r) \<and> quiescent_bl s' tid
    \<and> same_announcements (rq_bl s) (rq_bl s') \<and> (case r of None \<Rightarrow> \<not> linked_now_bl s p c \<and> steps_to_bl base s (contents_bl s) s'
         \<and> retired_bl s' = retired_bl s
       | Some x \<Rightarrow> linked_now_bl s p c \<and> map_of (contents_bl s) k = Some x
           \<and> steps_to_bl base s (del_kv k (contents_bl s)) s'
           \<and> retired_bl s' = retired_bl s @ [Some c])"
proof (cases "linked_now_bl s p c")
  case False
  obtain ha ta P where ch: "chain_bl s ha ta P" using assms(1) by (elim wf_blE)
  have "p \<noteq> c" using assms(3,4) by (auto simp: found_bl_def simp del: fld_in)
  then have "erase_locked_bl s tid (Some p) (Some c) k = Inr (enterQuiescentState_bl s tid, None)"
    using False assms(3) chain_blD(6) [OF ch] unfolding linked_now_bl_def found_bl_def
    by (intro erase_locked_invalid) (simp_all del: fld_in)
  then show ?thesis using False steps_to_refl [OF assms(1)] by simp
next
  case True
  then have l: "\<not> df (heap_bl s) p" "nf (heap_bl s) p = Some c" by (simp_all add: linked_now_bl_def del: fld_in)
  obtain ha ta P where chP: "chain_bl s ha ta P"
    and sn: "snaps_inv base (kf (heap_bl s)) (bf (heap_bl s)) (length (heap_bl s)) ha ta (curr_timestamp (rq_bl s))"
    using assms(1) by (elim wf_blE)
  have f: "p < length (heap_bl s)" using assms(3) by (simp add: found_bl_def)
  obtain us vs where ch: "chain_bl s ha ta (us @ p # c # vs)"
    using valid_adjacent [OF chP f l] chP by metis
  show ?thesis using erase_commit [OF assms(1,2) ch sn assms(4,5), of tid] True by auto
qed

text \<open>
  C5: The locked section of \<open>erase\<close> linearizes in the same way: on any result of a search
  whose second node carries the key, either the validation fails and nothing has changed,
  or the key and its value are gone from the dictionary, the value is returned, exactly
  the unlinked node is handed to the reclaimer, and older snapshots still hold the key.
\<close>

theorem erase_locked_linearizable:
  assumes "wf_bl base s" "curr_timestamp (rq_bl s) < BUNDLE_MAX_TIMESTAMP"
    and "found_bl s k p c" "kf (heap_bl s) c = k" "k < KEY_MAX_bl s"
  shows "\<exists>s' r. erase_locked_bl s tid (Some p) (Some c) k = Inr (s', r) \<and> quiescent_bl s' tid
    \<and> same_announcements (rq_bl s) (rq_bl s') \<and> (case r of None \<Rightarrow> \<not> linked_now_bl s p c \<and> steps_to_bl base s (contents_bl s) s'
         \<and> retired_bl s' = retired_bl s
       | Some x \<Rightarrow> linked_now_bl s p c \<and> map_of (contents_bl s) k = Some x
           \<and> steps_to_bl base s (del_kv k (contents_bl s)) s'
           \<and> retired_bl s' = retired_bl s @ [Some c])"
  by (rule erase_locked_step [OF assms])

theorem erase_locked_linearizable_witness:
  "\<exists>s'. erase_locked_bl example_bl 1 (Some 1) (Some 2) 7 = Inr (s', Some 70)
     \<and> contents_bl s' = [] \<and> snapshot_bl s' 3 = [(7, 70)] \<and> retired_bl s' = [Some 2]"
  using erase_locked_linearizable [OF example_bl_wf _ example_bl_search(2,4), of 1]
  by (auto simp: example_bl_sel example_bl_contents example_bl_search steps_to_bl_def timestamp_defs
      del_kv_def example_bl_retired simp del: One_nat_def split: option.splits)

section \<open>Whole methods\<close>

lemma absent_bl:
  assumes "wf_bl base s" "found_bl s k p c" "linked_now_bl s p c" "kf (heap_bl s) c \<noteq> k"
  shows "map_of (contents_bl s) k = None" "del_kv k (contents_bl s) = contents_bl s"
proof -
  obtain ha ta P where chP: "chain_bl s ha ta P" using assms(1) by (elim wf_blE)
  have f: "p < length (heap_bl s)" "kf (heap_bl s) p < k" "k < kf (heap_bl s) c"
    and l: "\<not> df (heap_bl s) p" "nf (heap_bl s) p = Some c"
    using assms(2-4) by (simp_all add: found_bl_def linked_now_bl_def del: fld_in)
  obtain us vs where ch: "chain_bl s ha ta (us @ p # c # vs)"
    using valid_adjacent [OF chP f(1) l] chP by metis
  note i = chain_invD [OF chain_blD(2) [OF ch]]
  let ?kv = "\<lambda>a. (kf (heap_bl s) a, vf (heap_bl s) a)"
  define es where es_def: "es = map ?kv (tl (us @ [p]))"
  note es = pairs_split(1) [OF i(5) f(2) less_imp_le [OF f(3)] es_def] es_def pairs_split(2,3) [OF i(5) f(2) less_imp_le [OF f(3)] es_def]
  have fs: "\<forall>e\<in>set (map ?kv (butlast (c # vs))). k < fst e" using es(4) f(3) by auto
  have "k \<notin> fst ` set (contents_bl s)"
    unfolding contents_chain_bl(1) [OF ch] es(1) by (rule keys_apart [OF es(3) fs])
  then show "map_of (contents_bl s) k = None" "del_kv k (contents_bl s) = contents_bl s"
    by (simp_all add: map_of_eq_None_iff del_kv_absent)
qed

lemma search_found:
  assumes "wf_bl base s" "KEY_MIN_bl s < k" "k \<le> KEY_MAX_bl s"
  obtains p c where "search_bl s k = Inr (Some p, Some c)" "found_bl s k p c" "linked_now_bl s p c"
proof -
  obtain ha ta P where ch: "chain_bl s ha ta P" using assms(1) by (elim wf_blE)
  note i = chain_invD [OF chain_blD(2) [OF ch]]
  obtain us p c vs where P: "P = us @ p # c # vs" and f: "kf (heap_bl s) p < k" "k \<le> kf (heap_bl s) c"
    and r: "search_bl s k = Inr (Some p, Some c)"
    using search_bl_finds [OF ch assms(2,3)] by blast
  have "found_bl s k p c" "linked_now_bl s p c"
    using i(4,6) f unfolding P by (simp_all add: found_bl_def linked_now_bl_def linked_mid del: fld_in)
  then show thesis using that r by blast
qed

lemma search_leave [simp]: "search_bl (leaveQuiescentState_bl s tid) k = search_bl s k"
  by (simp add: search_bl_def)

lemma found_leave [simp]:
  "found_bl (leaveQuiescentState_bl s tid) k p c = found_bl s k p c"
  "linked_now_bl (leaveQuiescentState_bl s tid) p c = linked_now_bl s p c"
  by (simp_all add: found_bl_def linked_now_bl_def)

text \<open>
  \<open>insertIfAbsent\<close>, run without interference, returns at its first attempt: the
  result is the value already bound to the key, or \<open>NO_VALUE\<close> when the key was absent;
  the dictionary becomes the old one with the key inserted if absent; no earlier
  snapshot changes and the thread is quiescent again.
\<close>

theorem insertIfAbsent_bl_correct:
  assumes "wf_bl base s" "curr_timestamp (rq_bl s) < BUNDLE_MAX_TIMESTAMP"
    and "KEY_MIN_bl s < k" "k < KEY_MAX_bl s" "0 < tries"
  shows "\<exists>s'. insertIfAbsent_bl tries s tid k v =
      Inr (s', case map_of (contents_bl s) k of None \<Rightarrow> NO_VALUE_bl s | Some w \<Rightarrow> w)
    \<and> steps_to_bl base s (ins_kv k v (contents_bl s)) s' \<and> quiescent_bl s' tid"
proof -
  let ?s = "leaveQuiescentState_bl s tid"
  obtain t where t: "tries = Suc t" using assms(5) by (cases tries) auto
  obtain p c where pc: "search_bl ?s k = Inr (Some p, Some c)" "found_bl ?s k p c" "linked_now_bl ?s p c"
    using search_found [of base ?s k] assms by auto
  obtain s' r where "insert_locked_bl ?s tid (Some p) (Some c) k v True = Inr (s', r)" "quiescent_bl s' tid"
    "case r of None \<Rightarrow> \<not> linked_now_bl ?s p c \<and> steps_to_bl base ?s (contents_bl ?s) s'
       | Some x \<Rightarrow> linked_now_bl ?s p c
           \<and> x = (case map_of (contents_bl ?s) k of None \<Rightarrow> NO_VALUE_bl ?s | Some w \<Rightarrow> w)
           \<and> steps_to_bl base ?s (ins_kv k v (contents_bl ?s)) s'"
    using insert_locked_step [of base ?s k p c tid v] assms pc by auto
  then show ?thesis using pc t
    by (cases r) (auto simp: insertIfAbsent_bl_def Let_def split: option.splits)
qed

theorem insertIfAbsent_bl_correct_witness:
  "\<exists>s'. insertIfAbsent_bl 1 example_bl 0 9 90 = Inr (s', 0) \<and> contents_bl s' = [(7, 70), (9, 90)]"
  using insertIfAbsent_bl_correct [OF example_bl_wf, of 9 1 0 90]
  by (auto simp: example_bl_sel example_bl_contents steps_to_bl_def timestamp_defs)

text \<open>The node that holds a key: not marked, and no other node with that key is unmarked.\<close>

definition holds_bl :: "bl_list \<Rightarrow> int \<Rightarrow> nat \<Rightarrow> bool" where
  "holds_bl s k c \<longleftrightarrow> c < length (heap_bl s) \<and> kf (heap_bl s) c = k
     \<and> (\<forall>a<length (heap_bl s). \<not> df (heap_bl s) a \<and> kf (heap_bl s) a = k \<longleftrightarrow> a = c)"

lemma holds_blI:
  assumes "wf_bl base s" "c < length (heap_bl s)" "kf (heap_bl s) c = k" "\<not> df (heap_bl s) c"
  shows "holds_bl s k c"
proof -
  obtain ha ta P where ch: "chain_bl s ha ta P" using assms(1) by (elim wf_blE)
  note i = chain_invD [OF chain_blD(2) [OF ch]]
  have m: "a \<in> set P" if "a < length (heap_bl s)" "\<not> df (heap_bl s) a" for a using i(11) that by blast
  have "inj_on (kf (heap_bl s)) (set P)" using ksorted_inj i(5) by blast
  then have "a = c" if "a < length (heap_bl s)" "\<not> df (heap_bl s) a" "kf (heap_bl s) a = k" for a
    using m that assms(2-4) by (auto dest: inj_onD simp del: fld_in)
  then show ?thesis unfolding holds_bl_def using assms(2-4) by blast
qed

text \<open>
  \<open>erase\<close>, run without interference, returns the value bound to the key, or
  \<open>NO_VALUE\<close> when there is none; the key is gone from the dictionary, the node that held
  it, and only that node, has been handed to the reclaimer, and no earlier snapshot
  changes.
\<close>

theorem erase_bl_correct:
  assumes "wf_bl base s" "curr_timestamp (rq_bl s) < BUNDLE_MAX_TIMESTAMP"
    and "KEY_MIN_bl s < k" "k < KEY_MAX_bl s" "0 < tries"
  shows "\<exists>s'. erase_bl tries s tid k =
      Inr (s', case map_of (contents_bl s) k of None \<Rightarrow> NO_VALUE_bl s | Some w \<Rightarrow> w)
    \<and> steps_to_bl base s (del_kv k (contents_bl s)) s' \<and> quiescent_bl s' tid
    \<and> (if map_of (contents_bl s) k = None then retired_bl s' = retired_bl s
       else \<exists>c. holds_bl s k c \<and> retired_bl s' = retired_bl s @ [Some c])"
proof -
  let ?s = "leaveQuiescentState_bl s tid"
  obtain t where t: "tries = Suc t" using assms(5) by (cases tries) auto
  obtain p c where pc: "search_bl ?s k = Inr (Some p, Some c)" "found_bl ?s k p c" "linked_now_bl ?s p c"
    using search_found [of base ?s k] assms by auto
  have key: "keyof_bl (heap_bl ?s) (Some c) = Inr (kf (heap_bl ?s) c)"
    using pc(2) by (simp add: keyof_bl_def found_bl_def res_simps)
  show ?thesis
  proof (cases "kf (heap_bl ?s) c = k")
    case False
    then have "map_of (contents_bl ?s) k = None" "del_kv k (contents_bl ?s) = contents_bl ?s"
      using absent_bl [of base ?s k p c] assms(1) pc(2,3) by auto
    then show ?thesis using False pc(1) key t steps_to_refl [OF assms(1)] by (simp add: Let_def del: fld_in)
  next
    case True
    obtain s' r where "erase_locked_bl ?s tid (Some p) (Some c) k = Inr (s', r)" "quiescent_bl s' tid"
      "case r of None \<Rightarrow> \<not> linked_now_bl ?s p c \<and> steps_to_bl base ?s (contents_bl ?s) s'
         \<and> retired_bl s' = retired_bl ?s
       | Some x \<Rightarrow> linked_now_bl ?s p c \<and> map_of (contents_bl ?s) k = Some x
           \<and> steps_to_bl base ?s (del_kv k (contents_bl ?s)) s'
           \<and> retired_bl s' = retired_bl ?s @ [Some c]"
      using erase_locked_step [of base ?s k p c tid] assms pc True by auto
    moreover have "holds_bl s k c" using holds_blI [OF assms(1), of c k] pc(2,3) True
      by (simp add: found_bl_def linked_now_bl_def del: fld_in)
    ultimately show ?thesis using pc t key True
      by (cases r) (auto simp: Let_def simp del: fld_in)
  qed
qed

theorem erase_bl_correct_witness:
  "\<exists>s'. erase_bl 1 example_bl 0 7 = Inr (s', 70) \<and> contents_bl s' = [] \<and> snapshot_bl s' 3 = [(7, 70)]"
  using erase_bl_correct [OF example_bl_wf, of 7 1 0]
  by (auto simp: example_bl_sel example_bl_contents steps_to_bl_def timestamp_defs del_kv_def)

end
