(* ===== verification/Bundled_List_Queries.thy ===== *)
theory Bundled_List_Queries
  imports Bundled_List_Ops
begin

text \<open>
  The read-only operations of the bundled list: \<open>contains\<close>, range queries from any node an
  earlier search may have ended at, the cleaner of the bundles, and the constructor, which
  establishes the invariant.
\<close>

section \<open>Construction\<close>

lemma bundle_lazylist_run:
  assumes "np \<le> mt"
  shows "\<exists>s. bundle_lazylist mt np Update_Clock False kmin kmax nv = Inr s
    \<and> heap_bl s = [\<lparr>key_bl = kmax, val_bl = 0, next_bl = None, lock_bl = False, marked_bl = 0,
         rqbundle_bl = []\<rparr>, \<lparr>key_bl = kmin, val_bl = 0, next_bl = Some 0, lock_bl = False,
         marked_bl = 0, rqbundle_bl = [BundleEntry 2 (Some 0)]\<rparr>]
    \<and> head_bl s = Some 1 \<and> curr_timestamp (rq_bl s) = 2 \<and> mode (rq_bl s) = Update_Clock
    \<and> \<not> cleanup_update (rq_bl s) \<and> KEY_MIN_bl s = kmin \<and> KEY_MAX_bl s = kmax \<and> NO_VALUE_bl s = nv
    \<and> num_processes (rq_bl s) = np \<and> retired_bl s = [] \<and> (\<forall>i. \<not> rq_flag (rq_bl s) i)"
proof -
  obtain q where q: "RQProvider mt np Update_Clock False = Inr q"
    "num_processes q = np" "mode q = Update_Clock" "\<not> cleanup_update q" "\<forall>i. \<not> rq_flag q i"
    "rq_init q = (\<lambda>_. False)" "curr_timestamp q = 1"
    using assms by (auto simp: RQProvider_def timestamp_defs)
  let ?q = "rq_initThread q 0"
  obtain b where b: "get_update_lin_time ?q 0 = (2, ?q\<lparr>curr_timestamp := 2, backoff_amt := b\<rparr>)"
    using get_update_lin_time_seq [OF linearize_init(1) [OF q(1)], of 0] linearize_init(2) [OF q(1)] by auto
  show ?thesis
    using q b
    by (simp add: bundle_lazylist_def new_node_bl_def initThread_bl_def upd_bundle_bl_def deref_def
        update_at_def linearize_update_at_write_def finalize_prepare init_bundle_def push_entry_def
        timestamp_defs rq_initThread_def Let_def)
qed

lemma bundle_lazylist_chain:
  assumes "np \<le> mt" "kmin < kmax"
  shows "\<exists>s. bundle_lazylist mt np Update_Clock False kmin kmax nv = Inr s
    \<and> chain_bl s 1 0 [1, 0] \<and> wf_bl 2 s \<and> contents_bl s = []
    \<and> KEY_MIN_bl s = kmin \<and> KEY_MAX_bl s = kmax \<and> NO_VALUE_bl s = nv
    \<and> curr_timestamp (rq_bl s) = 2 \<and> (\<forall>i. \<not> rq_flag (rq_bl s) i) \<and> retired_bl s = []"
proof -
  obtain s where r: "bundle_lazylist mt np Update_Clock False kmin kmax nv = Inr s"
    and h: "heap_bl s = [\<lparr>key_bl = kmax, val_bl = 0, next_bl = None, lock_bl = False, marked_bl = 0,
         rqbundle_bl = []\<rparr>, \<lparr>key_bl = kmin, val_bl = 0, next_bl = Some 0, lock_bl = False,
         marked_bl = 0, rqbundle_bl = [BundleEntry 2 (Some 0)]\<rparr>]"
    and s: "head_bl s = Some 1" "curr_timestamp (rq_bl s) = 2" "mode (rq_bl s) = Update_Clock"
      "\<not> cleanup_update (rq_bl s)" "KEY_MIN_bl s = kmin" "KEY_MAX_bl s = kmax" "NO_VALUE_bl s = nv"
      "retired_bl s = []" "\<forall>i. \<not> rq_flag (rq_bl s) i"
    using bundle_lazylist_run [OF assms(1), of kmin kmax nv] by metis
  have "chain_inv (kf (heap_bl s)) (nf (heap_bl s)) (bf (heap_bl s)) (df (heap_bl s)) (length (heap_bl s))
    1 0 2 [1, 0]"
    by (rule chain_invI) (use assms h in \<open>auto simp: LLONG_MAX_def less_Suc_eq\<close>)
  then have ch: "chain_bl s 1 0 [1, 0]"
    using assms s h unfolding chain_bl_def Let_def by (auto simp: fld_def nth_Cons split: nat.splits)
  have "snaps_inv 2 (kf (heap_bl s)) (bf (heap_bl s)) (length (heap_bl s)) 1 0 2"
    using chain_now [OF chain_blD(2) [OF ch]] s(2) unfolding snaps_inv_def by (metis antisym)
  then have "wf_bl 2 s" using ch s by (auto simp: wf_bl_def timestamp_defs)
  moreover have "contents_bl s = []" using contents_chain_bl(1) [OF ch] by (simp add: pairs_bl_def)
  ultimately show ?thesis using r ch s by blast
qed

text \<open>
  The constructor leaves an empty well-formed list: two sentinels, the head's bundle
  holding one finalized entry from time 2 on, no thread registered but the constructing
  one, and no lock held.
\<close>

theorem bundle_lazylist_wf:
  assumes "numProcesses \<le> max_tid" "kmin < kmax"
  shows "\<exists>s. bundle_lazylist max_tid numProcesses Update_Clock False kmin kmax no_value = Inr s
    \<and> wf_bl 2 s \<and> contents_bl s = [] \<and> snapshot_bl s 2 = [] \<and> curr_timestamp (rq_bl s) = 2
    \<and> validateBundles_bl s = Inr True"
proof -
  obtain s where s: "bundle_lazylist max_tid numProcesses Update_Clock False kmin kmax no_value = Inr s"
    "chain_bl s 1 0 [1, 0]" "wf_bl 2 s" "contents_bl s = []" "curr_timestamp (rq_bl s) = 2" "KEY_MAX_bl s = kmax"
    using bundle_lazylist_chain [OF assms] by blast
  have "snapshot_bl s 2 = []" using contents_chain_bl(2) [OF s(2)] s(5) by (simp add: pairs_bl_def)
  moreover have "validateBundles_bl s = Inr True"
    using bundle_lazylist_run [OF assms(1), of kmin kmax no_value] s(1,6) assms(2)
    by (auto simp: validateBundles_bl_def first_bundle_def deref_def)
  ultimately show ?thesis using s by blast
qed

theorem bundle_lazylist_wf_witness:
  "\<exists>s. bundle_lazylist 64 4 Update_Clock False (- 1) 100 0 = Inr s \<and> wf_bl 2 s \<and> contents_bl s = []"
  using bundle_lazylist_wf [of 4 64 "- 1" 100 0] by auto

section \<open>Membership\<close>

text \<open>A search that starts with both pointers at the head ends like the search of an update.\<close>

lemma search_head_finds:
  assumes ch: "chain_bl s ha ta P" and k: "KEY_MIN_bl s < k" "k \<le> KEY_MAX_bl s"
    and h: "h = heap_bl s"
  obtains us p c vs where "P = us @ p # c # vs" "kf h p < k" "k \<le> kf h c"
    "search_from (Suc (length h)) (keyof_bl h) (nextof_bl h) k (Some ha) (Some ha) = Inr (Some p, Some c)"
proof -
  note c = chain_blD [OF ch] and i = chain_invD [OF chain_blD(2) [OF ch]]
  obtain us p d vs where P: "P = us @ p # d # vs" "kf h p < k" "k \<le> kf h d"
    and r: "search_bl s k = Inr (Some p, Some d)"
    using search_bl_finds [OF ch k] h by metis
  have "ha < length h" using bspec [OF i(6) hd_in_set [OF i(1)]] i(2) h by simp
  then have "keyof_bl h (Some ha) = Inr (kf h ha)" "kf h ha < k"
    using c(3) k h by (simp_all add: keyof_bl_def res_simps)
  moreover have "obind (nextof_bl h (Some ha)) (\<lambda>cur.
      search_from (length h) (keyof_bl h) (nextof_bl h) k (Some ha) cur) = Inr (Some p, Some d)"
    using r c(1) h by (simp add: search_bl_def)
  ultimately show thesis using that [OF P] by (simp del: fld_in)
qed

lemma contents_at:
  assumes ch: "chain_bl s ha ta (us @ p # c # vs)" and k: "kf (heap_bl s) p < k" "k \<le> kf (heap_bl s) c"
    "k < KEY_MAX_bl s"
  shows "map_of (contents_bl s) k = (if kf (heap_bl s) c = k then Some (vf (heap_bl s) c) else None)"
proof -
  note i = chain_invD [OF chain_blD(2) [OF ch]]
  show ?thesis
  proof (cases "kf (heap_bl s) c = k")
    case True
    then show ?thesis using insert_present(2) [OF ch True k(3)] by simp
  next
    case False
    define es where es_def: "es = map (\<lambda>a. (kf (heap_bl s) a, vf (heap_bl s) a)) (tl (us @ [p]))"
    note es = pairs_split [OF i(5) k(1,2) es_def]
    have "\<forall>e\<in>set (map (\<lambda>a. (kf (heap_bl s) a, vf (heap_bl s) a)) (butlast (c # vs))). k < fst e"
      using es(3) k(2) False by auto
    then have "k \<notin> fst ` set (contents_bl s)"
      unfolding contents_chain_bl(1) [OF ch] es(1) by (rule keys_apart [OF es(2)])
    then show ?thesis using False by (simp add: map_of_eq_None_iff del: fld_in)
  qed
qed

text \<open>
  \<open>contains\<close>, which finishes along the bundles and not along \<open>next\<close>, answers whether
  the key is bound (to a value other than \<open>NO_VALUE\<close>), without any lock or write.
\<close>

theorem contains_bl_correct:
  assumes "wf_bl base s" "KEY_MIN_bl s < k" "k < KEY_MAX_bl s"
  shows "\<exists>s'. contains_bl s tid k =
      Inr (s', \<exists>v. map_of (contents_bl s) k = Some v \<and> v \<noteq> NO_VALUE_bl s)
    \<and> steps_to_bl base s (contents_bl s) s' \<and> heap_bl s' = heap_bl s \<and> quiescent_bl s' tid"
proof -
  let ?h = "heap_bl s"
  obtain ha ta P where chP: "chain_bl s ha ta P" using assms(1) by (elim wf_blE)
  obtain us p c vs where P: "P = us @ p # c # vs" "kf ?h p < k" "k \<le> kf ?h c"
    and r: "search_from (Suc (length ?h)) (keyof_bl ?h) (nextof_bl ?h) k (Some ha) (Some ha) =
      Inr (Some p, Some c)"
    using search_head_finds [OF chP assms(2) less_imp_le [OF assms(3)] refl] by blast
  have ch: "chain_bl s ha ta (us @ p # c # vs)" using chP P(1) by simp
  note cb = chain_blD [OF ch] and i = chain_invD [OF chain_blD(2) [OF ch]]
  have pc: "p < length ?h" "c < length ?h" "\<not> df ?h c" "nf ?h p = Some c"
    using i(4,6) by (simp_all add: linked_mid del: fld_in)
  have "p \<noteq> ta" using not_last [OF i(12)] i(3) by simp
  then have b: "bf ?h p \<noteq> []" "entry_ptr (hd (bf ?h p)) = Some c" "bundle_ok (bf ?h p)"
    using i(9,10) pc by (simp_all del: fld_in)
  then have "getPtr (rqbundle_bl (?h ! p)) = Inr (Some c)"
    using pc(1) by (cases "bf ?h p") (auto simp: getPtr_def timestamp_defs)
  moreover have "getPtr_loop (Suc (length ?h)) (keyof_bl ?h) (bundleof_bl ?h) k (Some c) = Inr (Some c)"
    using pc(2) P(3) by (simp add: keyof_bl_def deref_Some)
  moreover have "map_of (contents_bl s) k = (if kf ?h c = k then Some (vf ?h c) else None)"
    by (rule contents_at [OF ch P(2,3) assms(3)])
  ultimately show ?thesis using r pc cb(1) steps_to_refl [OF assms(1)]
    by (simp add: contains_bl_def Let_def bundleof_bl_def deref_Some
        del: search_from.simps getPtr_loop.simps)
qed

theorem contains_bl_correct_witness:
  "\<exists>s'. contains_bl example_bl 0 7 = Inr (s', True)"
  using contains_bl_correct [OF example_bl_wf, of 7 0]
  by (auto simp: example_bl_sel example_bl_contents)

text \<open>
  C6: The methods of the bundled list, run without interference on any well-formed list and any key between the sentinels,
  act on its dictionary: \<open>insertIfAbsent\<close> returns the value already bound, or \<open>NO_VALUE\<close>, and inserts the key if absent;
  \<open>erase\<close> returns the bound value, or \<open>NO_VALUE\<close>, removes the key and retires exactly the node that
  held it (the one unmarked node with that key), or none; \<open>contains\<close> answers whether the key is bound. One attempt is enough, no earlier snapshot changes, and the thread ends quiescent.
\<close>

theorem bl_methods_correct:
  assumes "wf_bl base s" "curr_timestamp (rq_bl s) < BUNDLE_MAX_TIMESTAMP"
    and "KEY_MIN_bl s < k" "k < KEY_MAX_bl s" "0 < tries"
  shows "(\<exists>s'. insertIfAbsent_bl tries s tid k v =
        Inr (s', case map_of (contents_bl s) k of None \<Rightarrow> NO_VALUE_bl s | Some w \<Rightarrow> w)
      \<and> steps_to_bl base s (ins_kv k v (contents_bl s)) s' \<and> quiescent_bl s' tid)
    \<and> (\<exists>s'. erase_bl tries s tid k =
        Inr (s', case map_of (contents_bl s) k of None \<Rightarrow> NO_VALUE_bl s | Some w \<Rightarrow> w)
      \<and> steps_to_bl base s (del_kv k (contents_bl s)) s' \<and> quiescent_bl s' tid
      \<and> (if map_of (contents_bl s) k = None then retired_bl s' = retired_bl s
         else \<exists>c. holds_bl s k c \<and> retired_bl s' = retired_bl s @ [Some c]))
    \<and> (\<exists>s'. contains_bl s tid k = Inr (s', \<exists>v. map_of (contents_bl s) k = Some v \<and> v \<noteq> NO_VALUE_bl s)
      \<and> steps_to_bl base s (contents_bl s) s' \<and> heap_bl s' = heap_bl s \<and> quiescent_bl s' tid)"
  using insertIfAbsent_bl_correct [OF assms] erase_bl_correct [OF assms] contains_bl_correct [OF assms(1,3,4)] by blast

theorem bl_methods_correct_witness:
  "(\<exists>s'. insertIfAbsent_bl 1 example_bl 0 9 90 = Inr (s', 0) \<and> contents_bl s' = [(7, 70), (9, 90)])
    \<and> (\<exists>s'. erase_bl 1 example_bl 0 7 = Inr (s', 70) \<and> retired_bl s' = [Some 2])"
proof -
  have two: "c = 2" if "holds_bl example_bl 7 c" for c
  proof -
    have "2 < length (heap_bl example_bl)" "\<not> df (heap_bl example_bl) 2" "kf (heap_bl example_bl) 2 = 7"
      using example_bl_search by (simp_all add: found_bl_def linked_now_bl_def del: fld_in)
    then show ?thesis using that unfolding holds_bl_def by blast
  qed
  show ?thesis
    using bl_methods_correct [OF example_bl_wf, of 9 1 0 90] bl_methods_correct [OF example_bl_wf, of 7 1 0 90]
    by (auto simp: example_bl_sel example_bl_contents steps_to_bl_def timestamp_defs example_bl_retired dest!: two)
qed

section \<open>Range queries\<close>

lemma range_kv_pairs:
  "range_kv lo hi (pairs_bl s Q) = map (\<lambda>a. (kf (heap_bl s) a, vf (heap_bl s) a))
     (filter (\<lambda>a. lo \<le> kf (heap_bl s) a \<and> kf (heap_bl s) a \<le> hi) (butlast (tl Q)))"
  by (simp add: range_kv_def pairs_bl_def filter_map comp_def del: fld_in)

text \<open>
  Where a query may begin: at the head, or at any node in front of the range that a
  search has returned, linked or not.
\<close>

definition rq_from_bl :: "bl_list \<Rightarrow> int \<Rightarrow> nat \<Rightarrow> bool" where
  "rq_from_bl s lo p \<longleftrightarrow>
     p < length (heap_bl s) \<and> (head_bl s = Some p \<or> KEY_MIN_bl s < lo \<and> kf (heap_bl s) p < lo)"

lemma chain_mem:
  assumes "chain_bl s ha ta P"
  shows "ha \<in> set P" "ta \<in> set P" "ha < length (heap_bl s)" "ta < length (heap_bl s)" "ha \<noteq> ta"
proof -
  note c = chain_blD [OF assms] and i = chain_invD [OF chain_blD(2) [OF assms]]
  show m: "ha \<in> set P" "ta \<in> set P" using hd_in_set [OF i(1)] i(2,13) by simp_all
  then show "ha < length (heap_bl s)" "ta < length (heap_bl s)" using i(6) by blast+
  show "ha \<noteq> ta" using c(3-5) by auto
qed

lemma now_has_successor:
  assumes ch: "chain_bl s ha ta P" and p: "p < length (heap_bl s)" "p \<noteq> ta"
  shows "bsucc (bf (heap_bl s)) (curr_timestamp (rq_bl s)) p \<noteq> None"
proof -
  note i = chain_invD [OF chain_blD(2) [OF ch]]
  have n: "newest_ts (bf (heap_bl s) p) \<le> curr_timestamp (rq_bl s)" using i(9) p(1) by blast
  show ?thesis
  proof (cases "p \<in> set P")
    case True
    then have "bf (heap_bl s) p \<noteq> []" "entry_ptr (hd (bf (heap_bl s) p)) = nf (heap_bl s) p"
      using i(10) p(2) by blast+
    moreover have "nf (heap_bl s) p \<noteq> None"
    proof -
      obtain us rest where P: "P = us @ p # rest" using True by (auto simp: in_set_conv_decomp)
      then obtain x vs where "rest = x # vs" using p(2) i(3) by (cases rest) auto
      then show ?thesis using i(4) P by (simp add: linked_mid del: fld_in)
    qed
    ultimately show ?thesis using n by (simp add: bsucc_newest del: fld_in)
  next
    case False
    then have "bf (heap_bl s) p \<noteq> []" "entry_ptr (hd (bf (heap_bl s) p)) = Some ha"
      using i(11) p(1) by blast+
    then show ?thesis using n by (simp add: bsucc_newest del: fld_in)
  qed
qed

lemma bundles_ok_bl:
  assumes "chain_bl s ha ta P"
  shows "\<forall>x<length (heap_bl s). bundle_ok (bf (heap_bl s) x)"
  using chain_invD(9) [OF chain_blD(2) [OF assms]] by blast

lemma rq_unchanged:
  assumes "wf_bl base s"
  shows "steps_to_bl base s (contents_bl s) (s\<lparr>rq_bl := (rq_bl s)\<lparr>rq_lin_time := lt, rq_flag := fl\<rparr>\<rparr>)"
proof -
  let ?s = "s\<lparr>rq_bl := (rq_bl s)\<lparr>rq_lin_time := lt, rq_flag := fl\<rparr>\<rparr>"
  have "chain_bl ?s ha ta P = chain_bl s ha ta P" for ha ta P by (simp add: chain_bl_def)
  then have "wf_bl base ?s" "contents_bl ?s = contents_bl s" "\<And>u. snapshot_bl ?s u = snapshot_bl s u"
    using assms by (simp_all add: wf_bl_def contents_bl_def snapshot_bl_def pairs_bl_def)
  then show ?thesis using steps_to_refl [OF assms] by (simp add: steps_to_bl_def keeps_bl_def)
qed

lemma rq_phases_now:
  assumes wf: "wf_bl base s" and p: "rq_from_bl s lo p" and k: "lo \<le> KEY_MAX_bl s" "hi < KEY_MAX_bl s"
  shows "\<exists>s' c. rq_phases_bl s tid (Some p) lo hi result =
      Inr (s', Some c, result @ range_kv lo hi (contents_bl s))
    \<and> steps_to_bl base s (contents_bl s) s' \<and> heap_bl s' = heap_bl s \<and> quiescent_bl s' tid
    \<and> rq_lin_time (rq_bl s') tid = BUNDLE_NULL_TIMESTAMP"
proof -
  let ?h = "heap_bl s" let ?t = "curr_timestamp (rq_bl s)"
  obtain ha ta P where ch: "chain_bl s ha ta P" using wf by (elim wf_blE)
  note c = chain_blD [OF ch] and m = chain_mem [OF ch]
  have pl: "p < length ?h" and st: "kf ?h p < lo \<or> p = ha" and hl: "p \<notin> set P \<longrightarrow> kf ?h ha < lo"
    using p c(1,3) m(1) by (auto simp: rq_from_bl_def simp del: fld_in)
  have "p \<noteq> ta" using st c(4) k(1) m(5) by auto
  then have nx: "bsucc (bf ?h) ?t p \<noteq> None" by (rule now_has_successor [OF ch pl])
  obtain q' where q': "start_traversal (rq_bl s) tid = (?t, q')" "end_traversal q' tid =
      (rq_bl s)\<lparr>rq_lin_time := (rq_lin_time (rq_bl s))(tid := BUNDLE_NULL_TIMESTAMP),
        rq_flag := (rq_flag (rq_bl s))(tid := False)\<rparr>"
    using start_end_traversal [OF wf_bl_clock(1) [OF wf], of tid] by blast
  obtain c0 c1 c2 where r: "follow (bundleof_bl ?h) ?t (Some p) = Inr (Some c0)"
    "rq_enter (Suc (length ?h)) (keyof_bl ?h) (bundleof_bl ?h) ?t lo (Some c0) = Inr (Some c1)"
    "rq_collect (Suc (length ?h)) (keyof_bl ?h) (getKeys_bl ?h) (bundleof_bl ?h) ?t lo hi (Some c1) result =
      Inr (Some c2, result @ range_kv lo hi (pairs_bl s P))"
    using rq_phases [OF chain_now [OF c(2)] pl nx st _ _ reads_bl(1,3) bundles_ok_bl [OF ch] reads_bl(4), of hi "Suc (length ?h)" result]
      k c(4) hl unfolding range_kv_pairs by auto
  let ?s = "s\<lparr>rq_bl := end_traversal q' tid\<rparr>"
  have "rq_phases_bl s tid (Some p) lo hi result =
      Inr (enterQuiescentState_bl ?s tid, Some c2, result @ range_kv lo hi (contents_bl s))"
    using r q'(1) contents_chain_bl(1) [OF ch] by (simp add: rq_phases_bl_def Let_def del: rq_enter.simps rq_collect.simps)
  moreover have "steps_to_bl base s (contents_bl s) ?s"
    unfolding q'(2) by (rule rq_unchanged [OF wf])
  ultimately show ?thesis using q'(2) by simp
qed

text \<open>
  A range query that has taken its timestamp returns exactly the pairs of the
  dictionary of that moment whose keys lie in the range, in key order, from whatever node
  its optimistic first phase ended at: also from a node that has been unlinked since,
  whose newest entry sends it back to the head. It neither writes the heap nor leaves
  its announcement behind, and it does not have to start over.
\<close>

theorem rq_phases_bl_snapshot:
  assumes "wf_bl base s" "rq_from_bl s lo p" "lo \<le> KEY_MAX_bl s" "hi < KEY_MAX_bl s"
  shows "\<exists>s' c. rq_phases_bl s tid (Some p) lo hi result =
      Inr (s', Some c, result @ range_kv lo hi (contents_bl s))
    \<and> steps_to_bl base s (contents_bl s) s' \<and> heap_bl s' = heap_bl s \<and> quiescent_bl s' tid
    \<and> rq_lin_time (rq_bl s') tid = BUNDLE_NULL_TIMESTAMP"
  by (rule rq_phases_now [OF assms])

theorem rq_phases_bl_snapshot_witness:
  "\<exists>s' c. rq_phases_bl example_bl 0 (Some 1) 0 50 [] = Inr (s', Some c, [(7, 70)])"
  using rq_phases_bl_snapshot [OF example_bl_wf, of 0 1 50 0 "[]"]
  by (auto simp: example_bl_sel example_bl_contents rq_from_bl_def range_kv_def)

lemma rq_phase1:
  assumes ch: "chain_bl s ha ta P" and lo: "lo \<le> KEY_MAX_bl s"
  shows "\<exists>p c. search_from (Suc (length (heap_bl s))) (keyof_bl (heap_bl s)) (nextof_bl (heap_bl s)) lo
      (Some ha) (Some ha) = Inr (Some p, Some c) \<and> rq_from_bl s lo p"
proof (cases "KEY_MIN_bl s < lo")
  case True
  obtain us p c vs where P: "P = us @ p # c # vs" "kf (heap_bl s) p < lo" "lo \<le> kf (heap_bl s) c"
    and r: "search_from (Suc (length (heap_bl s))) (keyof_bl (heap_bl s)) (nextof_bl (heap_bl s)) lo
      (Some ha) (Some ha) = Inr (Some p, Some c)"
    using search_head_finds [OF ch True lo refl] by blast
  have "p < length (heap_bl s)" using chain_invD(6) [OF chain_blD(2) [OF ch]] P(1) by simp
  then have "rq_from_bl s lo p" using P(2) True by (simp add: rq_from_bl_def del: fld_in)
  then show ?thesis using r by blast
next
  case False
  note m = chain_mem [OF ch] and c = chain_blD [OF ch]
  then show ?thesis using False
    by (intro exI [of _ ha] exI [of _ ha]) (simp add: keyof_bl_def deref_Some rq_from_bl_def)
qed

text \<open>
  C7: \<open>rangeQuery\<close> as a whole, run without interference, ends in its first iteration and
  appends to the result array exactly the pairs of the dictionary in the range.
\<close>

theorem rangeQuery_bl_correct:
  assumes "wf_bl base s" "lo \<le> KEY_MAX_bl s" "hi < KEY_MAX_bl s" "0 < tries"
  shows "\<exists>s'. rangeQuery_bl tries s tid lo hi result = Inr (s', result @ range_kv lo hi (contents_bl s))
    \<and> steps_to_bl base s (contents_bl s) s' \<and> heap_bl s' = heap_bl s"
proof -
  let ?s = "leaveQuiescentState_bl s tid"
  obtain t where t: "tries = Suc t" using assms(4) by (cases tries) auto
  obtain ha ta P where ch: "chain_bl s ha ta P" using assms(1) by (elim wf_blE)
  obtain p c where p: "search_from (Suc (length (heap_bl s))) (keyof_bl (heap_bl s)) (nextof_bl (heap_bl s)) lo
      (Some ha) (Some ha) = Inr (Some p, Some c)" "rq_from_bl s lo p"
    using rq_phase1 [OF ch assms(2)] by blast
  have w: "rq_walk (Suc (length (heap_bl s))) (keyof_bl (heap_bl s)) (nextof_bl (heap_bl s)) lo
      (Some ha) (Some ha) = Inr (Some p, Some c)"
    by (rule rq_walk_search [OF p(1)]) (simp add: keyof_bl_def deref_None)
  have "rq_from_bl ?s lo p" using p(2) by (simp add: rq_from_bl_def del: fld_in)
  then obtain s' c' where "rq_phases_bl ?s tid (Some p) lo hi result =
      Inr (s', Some c', result @ range_kv lo hi (contents_bl s))"
    "steps_to_bl base s (contents_bl s) s'" "heap_bl s' = heap_bl s"
    using rq_phases_now [of base ?s lo p hi tid result] assms by auto
  then show ?thesis using w t chain_blD(1) [OF ch]
    by (simp add: Let_def require_True del: rq_walk.simps)
qed

theorem rangeQuery_bl_correct_witness:
  "\<exists>s'. rangeQuery_bl 1 example_bl 0 0 50 [] = Inr (s', [(7, 70)])"
  using rangeQuery_bl_correct [OF example_bl_wf, of 0 50 1 0 "[]"]
  by (auto simp: example_bl_sel example_bl_contents range_kv_def)

section \<open>Cleaning the bundles\<close>

lemma reclaim_node:
  assumes "a < length h"
  shows "\<exists>h'. upd_bundle_bl h (Some a) (\<lambda>b. Inr (fst (reclaimEntries t b))) = Inr h'
    \<and> frame_bl h' = frame_bl h \<and> length h' = length h
    \<and> bf h' = (bf h)(a := fst (reclaimEntries t (bf h a)))"
proof -
  let ?h = "h[a := (h ! a)\<lparr>rqbundle_bl := fst (reclaimEntries t (rqbundle_bl (h ! a)))\<rparr>]"
  have "frame_bl ?h = frame_bl h" using assms by (simp add: list_update_same_conv)
  then show ?thesis using assms
    by (intro exI [of _ ?h]) (simp add: upd_bundle_bl_def res_simps fld_update)
qed

lemma clean_from_path:
  assumes "linked (nf h) (a # vs)" "kf h (last (a # vs)) = kmax" "\<forall>x\<in>set (butlast (a # vs)). kf h x \<noteq> kmax"
    and "\<forall>x\<in>set (a # vs). x < length h" "distinct (a # vs)" "length vs < n"
  shows "\<exists>h'. clean_from_bl n t kmax h (Some a) = Inr h' \<and> frame_bl h' = frame_bl h \<and> length h' = length h
    \<and> (\<forall>x. bf h' x = (if x \<in> set (butlast (a # vs)) then fst (reclaimEntries t (bf h x)) else bf h x))"
  using assms
proof (induction vs arbitrary: a h n)
  case Nil
  then show ?case by (cases n) (auto simp: deref_Some)
next
  case (Cons b vs)
  obtain m where n: "n = Suc m" using Cons.prems(6) by (cases n) auto
  have a: "a < length h" "kf h a \<noteq> kmax" "nf h a = Some b" using Cons.prems(1,3,4) by (simp_all del: fld_in)
  obtain h1 where h1: "upd_bundle_bl h (Some a) (\<lambda>b. Inr (fst (reclaimEntries t b))) = Inr h1"
    "frame_bl h1 = frame_bl h" "length h1 = length h" "bf h1 = (bf h)(a := fst (reclaimEntries t (bf h a)))"
    using reclaim_node [OF a(1)] by blast
  have f: "kf h1 = kf h" "nf h1 = nf h" using h1(2) frame_fields [of h1] frame_fields [of h] by metis+
  have l1: "linked (nf h1) (b # vs)" using Cons.prems(1) f by (simp del: fld_in)
  have l2: "kf h1 (last (b # vs)) = kmax" using Cons.prems(2) f by (simp del: fld_in)
  have l3: "\<forall>x\<in>set (butlast (b # vs)). kf h1 x \<noteq> kmax" using Cons.prems(3) f by (simp del: fld_in)
  have l4: "\<forall>x\<in>set (b # vs). x < length h1" using Cons.prems(4) h1(3) by simp
  have l5: "distinct (b # vs)" "length vs < m" using Cons.prems(5,6) n by simp_all
  obtain h' where h': "clean_from_bl m t kmax h1 (Some b) = Inr h'" "frame_bl h' = frame_bl h1" "length h' = length h1"
    "\<forall>x. bf h' x = (if x \<in> set (butlast (b # vs)) then fst (reclaimEntries t (bf h1 x)) else bf h1 x)"
    using Cons.IH [OF l1 l2 l3 l4 l5] by blast
  have "a \<notin> set (butlast (b # vs))" using Cons.prems(5) by (auto dest: in_set_butlastD)
  moreover have "butlast (a # b # vs) = a # butlast (b # vs)" by simp
  ultimately have "\<forall>x. bf h' x = (if x \<in> set (butlast (a # b # vs)) then fst (reclaimEntries t (bf h x)) else bf h x)"
    using h'(4) h1(4) by (auto simp del: fld_in butlast.simps)
  moreover have "clean_from_bl n t kmax h (Some a) = Inr h'" using n a h1(1) h'(1) by (simp add: deref_Some)
  ultimately show ?case using h'(2,3) h1(2,3) by metis
qed

lemma cleanup_run:
  assumes ch: "chain_bl s ha ta P" and t: "get_oldest_active_rq (rq_bl s) = Inr t"
  shows "\<exists>h'. cleanup_bl s tid =
      Inr (enterQuiescentState_bl ((leaveQuiescentState_bl s tid)\<lparr>heap_bl := h'\<rparr>) tid)
    \<and> frame_bl h' = frame_bl (heap_bl s) \<and> length h' = length (heap_bl s)
    \<and> reclaimed t (bf (heap_bl s)) (bf h')"
proof -
  let ?h = "heap_bl s"
  note c = chain_blD [OF ch] and i = chain_invD [OF chain_blD(2) [OF ch]] and m = chain_mem [OF ch]
  obtain d vs where P: "P = ha # d # vs" using i(1,2) m(1,2,5) by (cases P; cases "tl P") auto
  obtain h1 where h1: "upd_bundle_bl ?h (Some ha) (\<lambda>b. Inr (fst (reclaimEntries t b))) = Inr h1"
    "frame_bl h1 = frame_bl ?h" "length h1 = length ?h" "bf h1 = (bf ?h)(ha := fst (reclaimEntries t (bf ?h ha)))"
    using reclaim_node [OF m(3)] by blast
  have f: "kf h1 = kf ?h" "nf h1 = nf ?h" using h1(2) frame_fields [of h1] frame_fields [of ?h] by metis+
  have nx: "nextof_bl h1 (Some ha) = Inr (Some d)"
    using i(4) m(3) P h1(3) f(2) fld_in [of ha h1 next_bl None] by (simp add: nextof_bl_def deref_Some del: fld_in)
  have srt: "ksorted (kf ?h) (d # vs)" using i(5) P by simp
  have lst: "last (d # vs) = ta" using i(3) P by simp
  have ne: "\<forall>x\<in>set (butlast (d # vs)). kf h1 x \<noteq> KEY_MAX_bl s"
  proof
    fix x assume "x \<in> set (butlast (d # vs))"
    then have "kf ?h x < kf ?h (last (d # vs))"
      using srt append_butlast_last_id [of "d # vs"] by (metis list.discI sorted_wrt_append list.set_intros(1))
    then show "kf h1 x \<noteq> KEY_MAX_bl s" using c(4) lst f(1) by simp
  qed
  have l1: "linked (nf h1) (d # vs)" using i(4) P f(2) by (simp del: fld_in)
  have l2: "kf h1 (last (d # vs)) = KEY_MAX_bl s" using c(4) lst f(1) by simp
  have l3: "\<forall>x\<in>set (d # vs). x < length h1" using i(6) P h1(3) by simp
  have l4: "distinct (d # vs)" using i(12) P by simp
  have "length P \<le> length ?h" using i(5,6) by (auto intro!: ksorted_length)
  then have l5: "length vs < length h1" using P h1(3) by simp
  obtain h2 where h2: "clean_from_bl (length h1) t (KEY_MAX_bl s) h1 (Some d) = Inr h2"
    "frame_bl h2 = frame_bl h1" "length h2 = length h1"
    "\<forall>x. bf h2 x = (if x \<in> set (butlast (d # vs)) then fst (reclaimEntries t (bf h1 x)) else bf h1 x)"
    using clean_from_path [OF l1 l2 ne l3 l4 l5] by blast
  have "ha \<notin> set (butlast (d # vs))" using i(12) P by (auto dest: in_set_butlastD)
  then have "reclaimed t (bf ?h) (bf h2)" using h2(4) h1(4) by (auto simp: reclaimed_def simp del: fld_in)
  moreover have "cleanup_bl s tid = Inr (enterQuiescentState_bl ((leaveQuiescentState_bl s tid)\<lparr>heap_bl := h2\<rparr>) tid)"
    using t c(1) h1(1) nx h2(1) by (simp add: cleanup_bl_def Let_def)
  ultimately show ?thesis using h1(2,3) h2(2,3) by metis
qed

lemma cleanup_step:
  assumes "wf_bl base s" "get_oldest_active_rq (rq_bl s) = Inr t"
  shows "\<exists>s'. cleanup_bl s tid = Inr s' \<and> wf_bl (max base t) s' \<and> contents_bl s' = contents_bl s
    \<and> keeps_bl (max base t) s s' \<and> rq_bl s' = rq_bl s \<and> retired_bl s' = retired_bl s \<and> frame_bl (heap_bl s') = frame_bl (heap_bl s)
    \<and> (\<forall>u. max base t \<le> u \<and> u \<le> curr_timestamp (rq_bl s) \<longrightarrow> snapshot_bl s' u = snapshot_bl s u)
    \<and> (\<forall>i<num_processes (rq_bl s). base \<le> rq_lin_time (rq_bl s) i
         \<and> rq_lin_time (rq_bl s) i \<le> curr_timestamp (rq_bl s)
         \<longrightarrow> snapshot_bl s' (rq_lin_time (rq_bl s) i) = snapshot_bl s (rq_lin_time (rq_bl s) i))"
proof -
  obtain ha ta P where ch: "chain_bl s ha ta P"
    and sn: "snaps_inv base (kf (heap_bl s)) (bf (heap_bl s)) (length (heap_bl s)) ha ta (curr_timestamp (rq_bl s))"
    using assms(1) by (elim wf_blE)
  note c = chain_blD [OF ch] and clk = wf_bl_clock [OF assms(1)]
  obtain h' where run: "cleanup_bl s tid =
      Inr (enterQuiescentState_bl ((leaveQuiescentState_bl s tid)\<lparr>heap_bl := h'\<rparr>) tid)"
    and h': "frame_bl h' = frame_bl (heap_bl s)" "length h' = length (heap_bl s)"
      "reclaimed t (bf (heap_bl s)) (bf h')"
    using cleanup_run [OF ch assms(2)] by blast
  let ?s = "s\<lparr>heap_bl := h'\<rparr>"
  have f: "kf h' = kf (heap_bl s)" "vf h' = vf (heap_bl s)" "nf h' = nf (heap_bl s)" "df h' = df (heap_bl s)"
    "lf h' = lf (heap_bl s)"
    using h'(1) frame_fields [of h'] frame_fields [of "heap_bl s"] by metis+
  have s': "(leaveQuiescentState_bl s tid)\<lparr>heap_bl := h'\<rparr> = leaveQuiescentState_bl ?s tid"
    by (simp add: leaveQuiescentState_bl_def)
  have ch': "chain_bl ?s ha ta P"
    using c chain_reclaimed [OF c(2) h'(3)] f h'(2) unfolding chain_bl_def Let_def by simp
  have old: "t \<le> curr_timestamp (rq_bl s)" "\<forall>i<num_processes (rq_bl s).
      rq_lin_time (rq_bl s) i \<noteq> BUNDLE_NULL_TIMESTAMP \<longrightarrow> t \<le> rq_lin_time (rq_bl s) i"
    using assms(2) oldest_scan_sound unfolding get_oldest_active_rq_def by fastforce+
  have "snaps_inv (max base t) (kf h') (bf h') (length h') ha ta (curr_timestamp (rq_bl s))"
    using snaps_reclaimed(1) [OF sn h'(3), of "max base t"] f h'(2) by simp
  then have wf': "wf_bl (max base t) ?s" using ch' clk old(1) by (auto simp: wf_bl_def)
  have pairs: "pairs_bl ?s Q = pairs_bl s Q" for Q using f by (simp add: pairs_bl_def)
  have path: "snap_path (kf h') (bf h') (length h') ha' ta' u Q"
    if "max base t \<le> u" "snap_path (kf (heap_bl s)) (bf (heap_bl s)) (length (heap_bl s)) ha' ta' u Q" for u Q ha' ta'
    using that reclaimed_at(1) [OF h'(3)] reclaimed_at(4) [OF h'(3), of ta'] f h'(2) by (simp add: snap_path_def)
  then have keeps: "keeps_bl (max base t) s ?s"
    using f h'(2) reclaimed_at(1) [OF h'(3)] unfolding keeps_bl_def by simp
  have snap: "snapshot_bl ?s u = snapshot_bl s u" if u: "max base t \<le> u" "u \<le> curr_timestamp (rq_bl s)" for u
  proof -
    obtain Q where Q: "snap_path (kf (heap_bl s)) (bf (heap_bl s)) (length (heap_bl s)) ha ta u Q"
      using sn u unfolding snaps_inv_def by auto
    then have "snap_path (kf h') (bf h') (length h') ha ta u Q" by (rule path [OF u(1)])
    then show ?thesis using snap_snapshot_bl [OF c(1) Q] snap_snapshot_bl [OF chain_blD(1) [OF ch']] pairs by simp
  qed
  have "contents_bl ?s = contents_bl s" using contents_chain_bl(1) [OF ch] contents_chain_bl(1) [OF ch'] pairs by simp
  moreover have "snapshot_bl ?s (rq_lin_time (rq_bl s) i) = snapshot_bl s (rq_lin_time (rq_bl s) i)"
    if "i < num_processes (rq_bl s)" "base \<le> rq_lin_time (rq_bl s) i"
      "rq_lin_time (rq_bl s) i \<le> curr_timestamp (rq_bl s)" for i
    using snap [OF _ that(3)] old(2) that clk(3) by (auto simp: timestamp_defs)
  ultimately show ?thesis using run wf' snap keeps h'(1) unfolding s' by simp
qed

text \<open>
  C8: The cleaner removes nothing that is still needed. While no query is in the middle
  of announcing itself, \<open>cleanup\<close> succeeds, the list and its current dictionary are as
  before, the newest \<open>next\<close> structure is untouched, and the snapshot of every announced
  range query, like every snapshot from the time \<open>t\<close> of the oldest one on, reads as
  before.
\<close>

theorem cleanup_bl_safe:
  assumes "wf_bl base s" "get_oldest_active_rq (rq_bl s) = Inr t"
  shows "\<exists>s'. cleanup_bl s tid = Inr s' \<and> wf_bl (max base t) s' \<and> contents_bl s' = contents_bl s
    \<and> rq_bl s' = rq_bl s \<and> retired_bl s' = retired_bl s \<and> frame_bl (heap_bl s') = frame_bl (heap_bl s)
    \<and> (\<forall>u. max base t \<le> u \<and> u \<le> curr_timestamp (rq_bl s) \<longrightarrow> snapshot_bl s' u = snapshot_bl s u)
    \<and> (\<forall>i<num_processes (rq_bl s). base \<le> rq_lin_time (rq_bl s) i
         \<and> rq_lin_time (rq_bl s) i \<le> curr_timestamp (rq_bl s)
         \<longrightarrow> snapshot_bl s' (rq_lin_time (rq_bl s) i) = snapshot_bl s (rq_lin_time (rq_bl s) i))"
  using cleanup_step [OF assms, of tid] by blast

theorem cleanup_bl_safe_witness:
  "\<exists>s'. cleanup_bl example_bl 0 = Inr s' \<and> wf_bl 3 s' \<and> contents_bl s' = [(7, 70)]"
proof -
  have "get_oldest_active_rq (rq_bl example_bl) = Inr 3"
    by (simp add: get_oldest_active_rq_def example_bl_sel timestamp_defs upt_rec)
  from cleanup_bl_safe [OF example_bl_wf this, of 0] show ?thesis
    by (auto simp: example_bl_contents)
qed

end
