(* ===== verification/Bundle_View.thy ===== *)
theory Bundle_View
  imports Bundle_Chain
begin

text \<open>
  The abstract state machine behind a bundled linked structure: its nodes as fields of
  addresses, the clock, and three transitions (link a node, unlink a node, reclaim
  entries). A structure is correct once its operations are shown to be these transitions
  under its abstraction function; what they do to the dictionary, to the snapshots and
  to range queries is proved here, once.
\<close>

section \<open>Views\<close>

record chain_view =
  ckey :: "nat \<Rightarrow> int"
  cval :: "nat \<Rightarrow> int"
  cnxt :: "nat \<Rightarrow> ptr"
  cbun :: "nat \<Rightarrow> ptr bundle_t"
  cdead :: "nat \<Rightarrow> bool"
  clen :: nat
  chead :: nat
  cnow :: timestamp_t
  cmin :: int
  cmax :: int

definition chain_v :: "chain_view \<Rightarrow> nat \<Rightarrow> nat list \<Rightarrow> bool" where
  "chain_v v ta P \<longleftrightarrow>
     chain_inv (ckey v) (cnxt v) (cbun v) (cdead v) (clen v) (chead v) ta (cnow v) P
     \<and> ckey v (chead v) = cmin v \<and> ckey v ta = cmax v \<and> cmin v < cmax v"

definition snap_v :: "chain_view \<Rightarrow> nat \<Rightarrow> timestamp_t \<Rightarrow> nat list \<Rightarrow> bool" where
  "snap_v v ta u Q \<longleftrightarrow> snap_path (ckey v) (cbun v) (clen v) (chead v) ta u Q"

definition wf_v :: "timestamp_t \<Rightarrow> chain_view \<Rightarrow> bool" where
  "wf_v base v \<longleftrightarrow> 0 < base \<and> base \<le> cnow v \<and> cnow v \<le> BUNDLE_MAX_TIMESTAMP
     \<and> (\<exists>ta P. chain_v v ta P \<and> snaps_inv base (ckey v) (cbun v) (clen v) (chead v) ta (cnow v))"

definition pairs_v :: "chain_view \<Rightarrow> nat list \<Rightarrow> dict" where
  "pairs_v v Q = map (\<lambda>a. (ckey v a, cval v a)) (butlast (tl Q))"

definition contents_v :: "chain_view \<Rightarrow> dict" where
  "contents_v v = pairs_v v (walk (clen v) (cnxt v) (chead v))"

definition snapshot_v :: "chain_view \<Rightarrow> timestamp_t \<Rightarrow> dict" where
  "snapshot_v v u = pairs_v v (walk (clen v) (bsucc (cbun v) u) (chead v))"

text \<open>
  What a reader may rely on while others work: a node keeps its key and its value, and
  whatever could be read of the times from \<open>base\<close> on reads the same.
\<close>

definition keeps_v :: "timestamp_t \<Rightarrow> chain_view \<Rightarrow> chain_view \<Rightarrow> bool" where
  "keeps_v base v v' \<longleftrightarrow>
     chead v' = chead v \<and> cmin v' = cmin v \<and> cmax v' = cmax v
     \<and> clen v \<le> clen v' \<and> cnow v \<le> cnow v'
     \<and> (\<forall>a<clen v. ckey v' a = ckey v a \<and> cval v' a = cval v a)
     \<and> (\<forall>a<clen v. \<forall>u. base \<le> u \<and> u \<le> cnow v \<longrightarrow> bsucc (cbun v') u a = bsucc (cbun v) u a)
     \<and> (\<forall>ta u Q. base \<le> u \<and> u \<le> cnow v \<and> snap_v v ta u Q \<longrightarrow> snap_v v' ta u Q)"

text \<open>
  One update seen from outside: the new dictionary is \<open>d\<close>, every snapshot taken so far
  reads as before, and the snapshot of the present is the new dictionary.
\<close>

definition steps_v :: "timestamp_t \<Rightarrow> chain_view \<Rightarrow> dict \<Rightarrow> chain_view \<Rightarrow> bool" where
  "steps_v base v d v' \<longleftrightarrow>
     wf_v base v' \<and> keeps_v base v v' \<and> contents_v v' = d \<and> snapshot_v v' (cnow v') = d \<and> cnow v \<le> cnow v'
     \<and> (\<forall>u. base \<le> u \<and> u \<le> cnow v \<longrightarrow> snapshot_v v' u = snapshot_v v u)"

lemma wf_vE:
  assumes "wf_v base v"
  obtains ta P where "chain_v v ta P" "snaps_inv base (ckey v) (cbun v) (clen v) (chead v) ta (cnow v)"
  using assms by (auto simp: wf_v_def)

lemma wf_v_clock:
  assumes "wf_v base v"
  shows "0 < base" "base \<le> cnow v" "cnow v \<le> BUNDLE_MAX_TIMESTAMP" "0 \<le> cnow v"
  using assms by (auto simp: wf_v_def)

lemma chain_vD:
  assumes "chain_v v ta P"
  shows "chain_inv (ckey v) (cnxt v) (cbun v) (cdead v) (clen v) (chead v) ta (cnow v) P"
    "ckey v (chead v) = cmin v" "ckey v ta = cmax v" "cmin v < cmax v"
  using assms by (simp_all add: chain_v_def)

lemma chain_v_mem:
  assumes "chain_v v ta P"
  shows "chead v \<in> set P" "ta \<in> set P" "chead v < clen v" "ta < clen v" "chead v \<noteq> ta"
proof -
  note c = chain_vD [OF assms] and i = chain_invD [OF chain_vD(1) [OF assms]]
  show m: "chead v \<in> set P" "ta \<in> set P" using hd_in_set [OF i(1)] i(2,13) by simp_all
  then show "chead v < clen v" "ta < clen v" using i(6) by blast+
  show "chead v \<noteq> ta" using c(2-4) by auto
qed

lemma snapshot_v_path: "snap_v v ta u Q \<Longrightarrow> snapshot_v v u = pairs_v v Q"
  using snap_path_walk by (simp add: snapshot_v_def snap_v_def)

lemma contents_v_chain:
  assumes "chain_v v ta P"
  shows "contents_v v = pairs_v v P" "snapshot_v v (cnow v) = pairs_v v P"
proof -
  note i = chain_invD [OF chain_vD(1) [OF assms]]
  have "length P \<le> clen v" using i(5,6) by (auto intro!: ksorted_length)
  then have "walk (clen v) (cnxt v) (chead v) = P"
    using i(1-4,7) walk_linked [of "cnxt v" "chead v" "tl P"] by (cases P) auto
  then show "contents_v v = pairs_v v P" by (simp add: contents_v_def)
  show "snapshot_v v (cnow v) = pairs_v v P"
    by (rule snapshot_v_path [unfolded snap_v_def, OF chain_now [OF chain_vD(1) [OF assms]]])
qed

lemma keeps_vI:
  assumes "chead v' = chead v" "cmin v' = cmin v" "cmax v' = cmax v" "clen v \<le> clen v'" "cnow v \<le> cnow v'"
    and "\<And>a. a < clen v \<Longrightarrow> ckey v' a = ckey v a \<and> cval v' a = cval v a"
    and "\<And>a u. a < clen v \<Longrightarrow> base \<le> u \<Longrightarrow> u \<le> cnow v \<Longrightarrow> bsucc (cbun v') u a = bsucc (cbun v) u a"
    and "\<And>ta u Q. base \<le> u \<Longrightarrow> u \<le> cnow v \<Longrightarrow> snap_v v ta u Q \<Longrightarrow> snap_v v' ta u Q"
  shows "keeps_v base v v'"
  using assms unfolding keeps_v_def by blast

lemma keeps_vD:
  assumes "keeps_v base v v'"
  shows "chead v' = chead v" "cmin v' = cmin v" "cmax v' = cmax v" "clen v \<le> clen v'" "cnow v \<le> cnow v'"
    "a < clen v \<Longrightarrow> ckey v' a = ckey v a" "a < clen v \<Longrightarrow> cval v' a = cval v a"
    "a < clen v \<Longrightarrow> base \<le> u \<Longrightarrow> u \<le> cnow v \<Longrightarrow> bsucc (cbun v') u a = bsucc (cbun v) u a"
    "base \<le> u \<Longrightarrow> u \<le> cnow v \<Longrightarrow> snap_v v ta u Q \<Longrightarrow> snap_v v' ta u Q"
  using assms unfolding keeps_v_def by blast+

lemma keeps_v_refl [simp]: "keeps_v base v v"
  by (simp add: keeps_v_def)

lemma steps_v_refl: "wf_v base v \<Longrightarrow> steps_v base v (contents_v v) v"
  using contents_v_chain by (auto simp: steps_v_def elim: wf_vE)

text \<open>All chains of a view end in the same node.\<close>

lemma snap_v_last:
  assumes ch: "chain_v v ta P" and sn: "snap_v v ta' u Q"
  shows "ta' = ta"
proof (rule ccontr)
  assume "ta' \<noteq> ta"
  note i = chain_invD [OF chain_vD(1) [OF ch]]
  have "ta' < clen v" "cbun v ta' = []"
    using sn last_in_set [of Q] by (auto simp: snap_v_def snap_path_def)
  then show False using i(10,11) \<open>ta' \<noteq> ta\<close> by blast
qed

lemma pairs_v_cong:
  assumes "\<And>a. a \<in> set Q \<Longrightarrow> ckey v' a = ckey v a \<and> cval v' a = cval v a"
  shows "pairs_v v' Q = pairs_v v Q"
proof -
  have "set (butlast (tl Q)) \<subseteq> set Q" by (cases Q) (auto dest: in_set_butlastD)
  then show ?thesis using assms unfolding pairs_v_def by (intro map_cong) auto
qed

lemma pairs_v_sorted:
  assumes "ksorted (ckey v) Q"
  shows "ksorted fst (pairs_v v Q)"
proof -
  have "ksorted (ckey v) (tl Q)" using assms by (cases Q) auto
  then have "ksorted (ckey v) (butlast (tl Q))"
    by (cases "tl Q" rule: rev_cases) (auto simp: sorted_wrt_append)
  then show ?thesis by (simp add: pairs_v_def sorted_wrt_map)
qed

lemma butlast_tl_split: "butlast (tl (us @ p # c # vs)) = tl (us @ [p]) @ butlast (c # vs)"
  by (cases us) (simp_all add: butlast_append)

text \<open>The dictionary of a chain split at a key, and what it says of the key.\<close>

lemma pairs_v_split:
  assumes "ksorted (ckey v) (us @ p # c # vs)" "ckey v p < k" "k \<le> ckey v c"
  shows "pairs_v v (us @ p # c # vs) = map (\<lambda>a. (ckey v a, cval v a)) (tl (us @ [p]))
      @ map (\<lambda>a. (ckey v a, cval v a)) (butlast (c # vs))"
    "\<forall>e\<in>set (map (\<lambda>a. (ckey v a, cval v a)) (tl (us @ [p]))). fst e < k"
    "\<forall>e\<in>set (map (\<lambda>a. (ckey v a, cval v a)) (butlast vs)). k < fst e"
proof -
  have "\<forall>x\<in>set (us @ [p]). ckey v x < k" using assms by (fastforce simp: sorted_wrt_append)
  moreover have "set (tl (us @ [p])) \<subseteq> set (us @ [p])" by (cases us) auto
  ultimately show "\<forall>e\<in>set (map (\<lambda>a. (ckey v a, cval v a)) (tl (us @ [p]))). fst e < k" by auto
  show "\<forall>e\<in>set (map (\<lambda>a. (ckey v a, cval v a)) (butlast vs)). k < fst e"
    using assms by (fastforce simp: sorted_wrt_append dest: in_set_butlastD)
  show "pairs_v v (us @ p # c # vs) = map (\<lambda>a. (ckey v a, cval v a)) (tl (us @ [p]))
      @ map (\<lambda>a. (ckey v a, cval v a)) (butlast (c # vs))"
    by (simp only: pairs_v_def butlast_tl_split map_append)
qed

lemma contents_v_at:
  assumes ch: "chain_v v ta (us @ p # c # vs)" and k: "ckey v p < k" "k \<le> ckey v c" "k < cmax v"
  shows "map_of (contents_v v) k = (if ckey v c = k then Some (cval v c) else None)"
    "ckey v c = k \<Longrightarrow> ins_kv k x (contents_v v) = contents_v v"
    "ckey v c \<noteq> k \<Longrightarrow> del_kv k (contents_v v) = contents_v v"
proof -
  note i = chain_invD [OF chain_vD(1) [OF ch]] and c = chain_vD [OF ch]
  note sp = pairs_v_split [OF i(5) k(1,2)]
  let ?kv = "\<lambda>a. (ckey v a, cval v a)"
  have srt: "ksorted fst (contents_v v)" unfolding contents_v_chain(1) [OF ch] by (rule pairs_v_sorted [OF i(5)])
  have present: "(k, cval v c) \<in> set (contents_v v)" if "ckey v c = k"
  proof -
    have "c \<noteq> ta" using c(3) k(3) that by auto
    then have "c \<in> set (butlast (c # vs))" using i(3) by (cases vs) auto
    then show ?thesis unfolding contents_v_chain(1) [OF ch] sp(1) using that
      by (auto simp del: butlast.simps)
  qed
  have absent: "k \<notin> fst ` set (contents_v v)" if "ckey v c \<noteq> k"
  proof -
    have "\<forall>e\<in>set (map ?kv (butlast (c # vs))). k < fst e" using sp(3) k(2) that by auto
    then show ?thesis unfolding contents_v_chain(1) [OF ch] sp(1) by (rule keys_apart [OF sp(2)])
  qed
  show "map_of (contents_v v) k = (if ckey v c = k then Some (cval v c) else None)"
    using present absent ksorted_distinct_keys [OF srt] by (auto simp: map_of_eq_None_iff)
  show "ckey v c = k \<Longrightarrow> ins_kv k x (contents_v v) = contents_v v"
    using present by (intro ins_kv_present [OF srt]) force
  show "ckey v c \<noteq> k \<Longrightarrow> del_kv k (contents_v v) = contents_v v"
    using absent by (intro del_kv_absent)
qed

section \<open>Transitions\<close>

definition insert_view :: "chain_view \<Rightarrow> nat \<Rightarrow> nat \<Rightarrow> int \<Rightarrow> int \<Rightarrow> chain_view" where
  "insert_view v p c k x =
     v\<lparr>ckey := (ckey v)(clen v := k), cval := (cval v)(clen v := x),
       cnxt := ins_nxt (cnxt v) p c (clen v), cbun := ins_bun (cbun v) (cnow v + 1) p c (clen v),
       cdead := (cdead v)(clen v := False), clen := Suc (clen v), cnow := cnow v + 1\<rparr>"

definition erase_view :: "chain_view \<Rightarrow> nat \<Rightarrow> nat \<Rightarrow> nat \<Rightarrow> chain_view" where
  "erase_view v p c d =
     v\<lparr>cnxt := (cnxt v)(p := Some d), cbun := del_bun (cbun v) (cnow v + 1) p c d (chead v),
       cdead := (cdead v)(c := True), cnow := cnow v + 1\<rparr>"

lemma steps_vI:
  assumes wf: "wf_v base v" and chain: "chain_v v' ta P'" and tick: "cnow v' = cnow v + 1"
    and clk: "cnow v < BUNDLE_MAX_TIMESTAMP"
    and snaps: "snaps_inv base (ckey v') (cbun v') (clen v') (chead v') ta (cnow v')"
    and sn: "snaps_inv base (ckey v) (cbun v) (clen v) (chead v) ta (cnow v)"
    and old: "\<And>u Q. u \<le> cnow v \<Longrightarrow> snap_v v ta u Q \<Longrightarrow> snap_v v' ta u Q"
    and same: "\<And>a. a < clen v \<Longrightarrow> ckey v' a = ckey v a \<and> cval v' a = cval v a"
    and frame: "chead v' = chead v" "cmin v' = cmin v" "cmax v' = cmax v" "clen v \<le> clen v'"
    and bun: "\<And>a u. a < clen v \<Longrightarrow> u \<le> cnow v \<Longrightarrow> bsucc (cbun v') u a = bsucc (cbun v) u a"
    and ch: "chain_v v ta P"
  shows "steps_v base v (pairs_v v' P') v'"
proof -
  have keeps: "keeps_v base v v'"
  proof (rule keeps_vI [OF frame])
    show "snap_v v' ta' u Q" if "u \<le> cnow v" "snap_v v ta' u Q" for ta' u Q
      using old [OF that(1)] that(2) snap_v_last [OF ch that(2)] by simp
  qed (use tick same bun in simp_all)
  have "snapshot_v v' u = snapshot_v v u" if u: "base \<le> u" "u \<le> cnow v" for u
  proof -
    obtain Q where Q: "snap_v v ta u Q" using sn u unfolding snaps_inv_def snap_v_def by blast
    have "pairs_v v' Q = pairs_v v Q" using Q same by (intro pairs_v_cong) (simp add: snap_v_def snap_path_def)
    then show ?thesis using snapshot_v_path [OF Q] snapshot_v_path [OF old [OF u(2) Q]] by simp
  qed
  moreover have "wf_v base v'" using wf chain snaps tick clk unfolding wf_v_def by auto
  ultimately show ?thesis using contents_v_chain [OF chain] tick keeps by (simp add: steps_v_def)
qed

lemma clock_v_bounds:
  assumes "wf_v base v" "cnow v < BUNDLE_MAX_TIMESTAMP"
  shows "0 \<le> cnow v" "cnow v + 1 < LLONG_MAX" "cnow v < cnow v + 1"
  using wf_v_clock [OF assms(1)] assms(2) by (simp_all add: timestamp_defs)

text \<open>Linking a node between two neighbours inserts its pair.\<close>

lemma insert_view_chain:
  assumes wf: "wf_v base v" and clk: "cnow v < BUNDLE_MAX_TIMESTAMP"
    and ch: "chain_v v ta (us @ p # c # vs)" and k: "ckey v p < k" "k < ckey v c"
  shows "chain_v (insert_view v p c k x) ta (us @ p # clen v # c # vs)"
  using chain_insert [OF chain_vD(1) [OF ch] k clock_v_bounds(1,3,2) [OF wf clk]] chain_vD(2-4) [OF ch]
    chain_v_mem(3,4) [OF ch]
  by (simp add: chain_v_def insert_view_def)

lemma insert_view_steps:
  assumes wf: "wf_v base v" and clk: "cnow v < BUNDLE_MAX_TIMESTAMP"
    and ch: "chain_v v ta (us @ p # c # vs)" and k: "ckey v p < k" "k < ckey v c"
  shows "steps_v base v (ins_kv k x (contents_v v)) (insert_view v p c k x)"
proof -
  let ?v = "insert_view v p c k x" let ?P = "us @ p # c # vs" let ?P' = "us @ p # clen v # c # vs"
  note c = chain_vD [OF ch] and i = chain_invD [OF chain_vD(1) [OF ch]] and cb = clock_v_bounds [OF wf clk]
  obtain ta' P0 where w: "chain_v v ta' P0" "snaps_inv base (ckey v) (cbun v) (clen v) (chead v) ta' (cnow v)"
    using wf by (elim wf_vE)
  have "P0 = ?P"
    using chain_now [OF chain_vD(1) [OF w(1)]] chain_now [OF c(1)] snap_path_walk by metis
  then have "ta' = ta" using chain_invD(3) [OF chain_vD(1) [OF w(1)]] i(3) by simp
  then have sn: "snaps_inv base (ckey v) (cbun v) (clen v) (chead v) ta (cnow v)" using w(2) by simp
  note sni = snaps_insert [OF c(1) k cb(1) refl cb(2) sn]
  have ch': "chain_v ?v ta ?P'" by (rule insert_view_chain [OF wf clk ch k])
  have st: "steps_v base v (pairs_v ?v ?P') ?v"
    by (rule steps_vI [OF wf ch' _ clk _ sn _ _ _ _ _ _ _ ch])
      (use sni in \<open>simp_all add: insert_view_def snap_v_def ins_bun_old\<close>)
  have fresh: "clen v \<notin> set (tl (us @ [p])) \<union> set (butlast (c # vs))"
  proof -
    have "set (tl (us @ [p])) \<union> set (butlast (c # vs)) \<subseteq> set ?P"
      by (cases us) (auto dest: in_set_butlastD)
    then show ?thesis using i(6) by auto
  qed
  let ?kv = "\<lambda>a. (ckey v a, cval v a)"
  note sp = pairs_v_split [OF i(5) k(1) less_imp_le [OF k(2)]]
  have fs: "\<forall>e\<in>set (map ?kv (butlast (c # vs))). k < fst e" using sp(3) k(2) by auto
  have "butlast (tl ?P') = tl (us @ [p]) @ clen v # butlast (c # vs)"
    by (cases us) (simp_all add: butlast_append)
  then have "pairs_v ?v ?P' = map ?kv (tl (us @ [p])) @ (k, x) # map ?kv (butlast (c # vs))"
    using fresh unfolding pairs_v_def by (simp add: insert_view_def del: butlast.simps)
  then have "pairs_v ?v ?P' = ins_kv k x (contents_v v)"
    using ins_kv_between [OF sp(2) fs] contents_v_chain(1) [OF ch] sp(1) by simp
  then show ?thesis using st by simp
qed

text \<open>Unlinking a node deletes its pair.\<close>

lemma erase_view_chain:
  assumes wf: "wf_v base v" and clk: "cnow v < BUNDLE_MAX_TIMESTAMP"
    and ch: "chain_v v ta (us @ p # c # d # vs)"
  shows "chain_v (erase_view v p c d) ta (us @ p # d # vs)"
  using chain_erase [OF chain_vD(1) [OF ch] clock_v_bounds(1,3,2) [OF wf clk]] chain_vD(2-4) [OF ch]
  by (simp add: chain_v_def erase_view_def)

lemma erase_view_steps:
  assumes wf: "wf_v base v" and clk: "cnow v < BUNDLE_MAX_TIMESTAMP"
    and ch: "chain_v v ta (us @ p # c # d # vs)"
  shows "steps_v base v (del_kv (ckey v c) (contents_v v)) (erase_view v p c d)"
proof -
  let ?v = "erase_view v p c d" let ?P' = "us @ p # d # vs"
  note c = chain_vD [OF ch] and i = chain_invD [OF chain_vD(1) [OF ch]] and cb = clock_v_bounds [OF wf clk]
  obtain ta' P0 where w: "chain_v v ta' P0" "snaps_inv base (ckey v) (cbun v) (clen v) (chead v) ta' (cnow v)"
    using wf by (elim wf_vE)
  have "P0 = us @ p # c # d # vs"
    using chain_now [OF chain_vD(1) [OF w(1)]] chain_now [OF c(1)] snap_path_walk by metis
  then have "ta' = ta" using chain_invD(3) [OF chain_vD(1) [OF w(1)]] i(3) by simp
  then have sn: "snaps_inv base (ckey v) (cbun v) (clen v) (chead v) ta (cnow v)" using w(2) by simp
  note sni = snaps_erase [OF c(1) cb(1) refl cb(2) sn]
  have ch': "chain_v ?v ta ?P'" by (rule erase_view_chain [OF wf clk ch])
  have st: "steps_v base v (pairs_v ?v ?P') ?v"
    by (rule steps_vI [OF wf ch' _ clk _ sn _ _ _ _ _ _ _ ch])
      (use sni in \<open>simp_all add: erase_view_def snap_v_def del_bun_old\<close>)
  have pk: "ckey v p < ckey v c" using i(5) by (simp add: sorted_wrt_append)
  let ?kv = "\<lambda>a. (ckey v a, cval v a)"
  note sp = pairs_v_split [OF i(5) pk order_refl]
  have "contents_v v = map ?kv (tl (us @ [p])) @ (ckey v c, cval v c) # map ?kv (butlast (d # vs))"
    using contents_v_chain(1) [OF ch] sp(1) by simp
  then have "del_kv (ckey v c) (contents_v v) = map ?kv (tl (us @ [p])) @ map ?kv (butlast (d # vs))"
    using del_kv_between [OF sp(2,3)] by simp
  moreover have "butlast (tl ?P') = tl (us @ [p]) @ butlast (d # vs)"
    by (cases us) (simp_all add: butlast_append)
  ultimately show ?thesis using st by (simp add: erase_view_def pairs_v_def del: butlast.simps)
qed

text \<open>Reclaiming entries that no query from time \<open>t\<close> on reads changes nothing it can see.\<close>

lemma reclaim_view_steps:
  assumes wf: "wf_v base v" and r: "reclaimed t (cbun v) bun'" and t: "t \<le> cnow v"
  shows "wf_v (max base t) (v\<lparr>cbun := bun'\<rparr>)" "contents_v (v\<lparr>cbun := bun'\<rparr>) = contents_v v"
    "\<And>u. max base t \<le> u \<Longrightarrow> u \<le> cnow v \<Longrightarrow> snapshot_v (v\<lparr>cbun := bun'\<rparr>) u = snapshot_v v u"
    "keeps_v (max base t) v (v\<lparr>cbun := bun'\<rparr>)"
proof -
  let ?v = "v\<lparr>cbun := bun'\<rparr>"
  obtain ta P where ch: "chain_v v ta P" and sn: "snaps_inv base (ckey v) (cbun v) (clen v) (chead v) ta (cnow v)"
    using wf by (elim wf_vE)
  have ch': "chain_v ?v ta P" using ch chain_reclaimed [OF chain_vD(1) [OF ch] r] by (simp add: chain_v_def)
  have "snaps_inv (max base t) (ckey v) bun' (clen v) (chead v) ta (cnow v)"
    by (rule snaps_reclaimed(1) [OF sn r]) simp_all
  then show "wf_v (max base t) ?v" using ch' wf_v_clock [OF wf] t by (auto simp: wf_v_def)
  have pairs: "pairs_v ?v Q = pairs_v v Q" for Q by (simp add: pairs_v_def)
  show "contents_v ?v = contents_v v" by (simp add: contents_v_def pairs)
  show "keeps_v (max base t) v ?v"
    using reclaimed_at(1,4) [OF r] by (intro keeps_vI) (simp_all add: snap_v_def snap_path_def)
  show "snapshot_v ?v u = snapshot_v v u" if u: "max base t \<le> u" "u \<le> cnow v" for u
  proof -
    obtain Q where Q: "snap_v v ta u Q" using sn u unfolding snaps_inv_def snap_v_def by auto
    have "snap_v ?v ta u Q"
      using Q reclaimed_at(1) [OF r, of u] reclaimed_at(4) [OF r, of ta] u by (simp add: snap_v_def snap_path_def)
    from snapshot_v_path [OF this] snapshot_v_path [OF Q] pairs show ?thesis by simp
  qed
qed

section \<open>Range queries\<close>

lemma range_kv_pairs_v:
  "range_kv lo hi (pairs_v v Q) = map (\<lambda>a. (ckey v a, cval v a))
     (filter (\<lambda>a. lo \<le> ckey v a \<and> ckey v a \<le> hi) (butlast (tl Q)))"
  by (simp add: range_kv_def pairs_v_def filter_map comp_def)

text \<open>Where a query may begin: at the head, or at any node in front of the range, linked or not.\<close>

definition rq_from_v :: "chain_view \<Rightarrow> int \<Rightarrow> nat \<Rightarrow> bool" where
  "rq_from_v v lo p \<longleftrightarrow> p < clen v \<and> (p = chead v \<or> cmin v < lo \<and> ckey v p < lo)"

lemma now_successor_v:
  assumes ch: "chain_v v ta P" and p: "p < clen v" "p \<noteq> ta"
  shows "bsucc (cbun v) (cnow v) p \<noteq> None"
proof -
  note i = chain_invD [OF chain_vD(1) [OF ch]]
  have n: "newest_ts (cbun v p) \<le> cnow v" using i(9) p(1) by blast
  show ?thesis
  proof (cases "p \<in> set P")
    case True
    then have "cbun v p \<noteq> []" "entry_ptr (hd (cbun v p)) = cnxt v p" using i(10) p(2) by blast+
    moreover have "cnxt v p \<noteq> None" using i(14) p by blast
    ultimately show ?thesis using n by (simp add: bsucc_newest)
  next
    case False
    then have "cbun v p \<noteq> []" "entry_ptr (hd (cbun v p)) = Some (chead v)" using i(11) p(1) by blast+
    then show ?thesis using n by (simp add: bsucc_newest)
  qed
qed

lemma rq_view:
  assumes wf: "wf_v base v" and p: "rq_from_v v lo p" and k: "lo \<le> cmax v" "hi < cmax v"
    and acc: "reads K (ckey v) [0..<clen v]" "reads B (cbun v) [0..<clen v]"
      "reads G (\<lambda>x. [(ckey v x, cval v x)]) [0..<clen v]" "clen v \<le> m"
  shows "\<exists>c0 c1 c2. follow B (cnow v) (Some p) = Inr (Some c0)
    \<and> rq_enter m K B (cnow v) lo (Some c0) = Inr (Some c1)
    \<and> rq_collect m K G B (cnow v) lo hi (Some c1) res = Inr (Some c2, res @ range_kv lo hi (contents_v v))"
proof -
  obtain ta P where ch: "chain_v v ta P" using wf by (elim wf_vE)
  note c = chain_vD [OF ch] and m = chain_v_mem [OF ch]
  have pl: "p < clen v" and st: "ckey v p < lo \<or> p = chead v" and hl: "p \<notin> set P \<longrightarrow> ckey v (chead v) < lo"
    using p c(2) m(1) by (auto simp: rq_from_v_def)
  have "p \<noteq> ta" using st c(3) k(1) m(5) by auto
  then have nx: "bsucc (cbun v) (cnow v) p \<noteq> None" by (rule now_successor_v [OF ch pl])
  have bok: "\<forall>x<clen v. bundle_ok (cbun v x)" using chain_invD(9) [OF c(1)] by blast
  show ?thesis
    using rq_phases [OF chain_now [OF c(1)] pl nx st _ _ acc(1,2) bok acc(3,4), of hi res] k c(3) hl
      contents_v_chain(1) [OF ch] by (auto simp: range_kv_pairs_v)
qed

text \<open>The newest entry of a chain node is its successor.\<close>

lemma getPtr_now:
  assumes ch: "chain_v v ta P" and p: "p \<in> set P" "p \<noteq> ta"
  shows "getPtr (cbun v p) = Inr (cnxt v p)"
proof -
  note i = chain_invD [OF chain_vD(1) [OF ch]]
  have "cbun v p \<noteq> []" "entry_ptr (hd (cbun v p)) = cnxt v p" "bundle_ok (cbun v p)"
    using i(6,9,10) p by blast+
  then show ?thesis by (cases "cbun v p") (auto simp: getPtr_def timestamp_defs)
qed

text \<open>So the loop of \<open>contains\<close> from a node in front of a bound key arrives at the node of the key.\<close>

lemma getPtr_loop_now:
  assumes ch: "chain_v v ta P" and p: "p \<in> set P" "ckey v p < k" and c: "c \<in> set P" "ckey v c = k"
    and acc: "reads K (ckey v) [0..<clen v]" "reads B (cbun v) [0..<clen v]"
  obtains a where "cnxt v p = Some a" "getPtr_loop (Suc (clen v)) K B k (Some a) = Inr (Some c)"
proof -
  note i = chain_invD [OF chain_vD(1) [OF ch]]
  obtain us ws where P: "P = us @ p # ws" using p(1) by (auto simp: in_set_conv_decomp)
  have cw: "c \<in> set ws" using P i(5) p(2) c by (auto simp: sorted_wrt_append)
  then obtain a vs where ws: "ws = a # vs" by (cases ws) auto
  have lk: "linked (cnxt v) (a # vs)" and nx: "cnxt v p = Some a"
    using i(4) P ws by (simp_all add: linked_mid)
  have srt: "ksorted (ckey v) (a # vs)" using i(5) P ws by (simp add: sorted_wrt_append)
  have sub: "set (a # vs) \<subseteq> set [0..<clen v]" using i(6) P ws by auto
  have lst: "last (a # vs) = ta" using i(3) P ws by simp
  have k: "k \<le> ckey v (last (a # vs))"
    using srt cw c(2) ws by (cases "a # vs" rule: rev_cases) (auto simp: sorted_wrt_append)
  have bl: "\<forall>x\<in>set (butlast (a # vs)). getPtr (cbun v x) = Inr (cnxt v x)"
  proof
    fix x assume x: "x \<in> set (butlast (a # vs))"
    then have "x \<noteq> ta" using srt lst ksorted_distinct [OF srt]
      by (cases "a # vs" rule: rev_cases) auto
    moreover have "x \<in> set P" using in_set_butlastD [OF x] P ws by auto
    ultimately show "getPtr (cbun v x) = Inr (cnxt v x)" by (intro getPtr_now [OF ch])
  qed
  have "length (a # vs) \<le> clen v" using srt sub by (intro ksorted_length) auto
  then have run: "getPtr_loop (Suc (clen v)) K B k (Some a) = Inr (Some (hd (dropWhile (\<lambda>x. ckey v x < k) (a # vs))))"
    using getPtr_loop_path [OF lk k reads_mono [OF acc(1) sub] reads_mono [OF acc(2) sub] bl]
    by (simp del: getPtr_loop.simps)
  obtain xs ys where ac: "a # vs = xs @ c # ys" using split_list [OF cw] unfolding ws by blast
  have "\<forall>x\<in>set xs. ckey v x < k" using srt ac c(2) by (simp add: sorted_wrt_append)
  then have "hd (dropWhile (\<lambda>x. ckey v x < k) (a # vs)) = c" unfolding ac using c(2) by simp
  then show thesis using that nx run by simp
qed

end
