(* ===== verification/Snapshot_Reader.thy ===== *)
theory Snapshot_Reader
  imports Bundle_View
begin

text \<open>
  Phases 2 and 3 of a range query, hop by hop, on a structure whose nodes are a view in the
  sense of \<open>Bundle_View\<close>. A hop is one iteration of a loop: it reads the key of the current
  node (and, in the range, its pair), which never change, and calls \<open>getPtrByTimestamp\<close> on its
  bundle. What the query relies on while others work is that their steps keep what could be
  read of its time (\<open>keeps_v\<close>); then it collects the dictionary of that time, and every hop
  brings it nearer to the end. A hop that meets an update between \<open>prepare_bundles\<close> and
  \<open>finalize_bundles\<close> may have to wait (\<open>reading_hop_mid\<close>).
\<close>

section \<open>The reader\<close>

text \<open>Where the query is: at the node phase 1 ended on, in the loop of phase 2, in that of phase 3, behind it.\<close>

datatype reader_pc = Start_at ptr | Enter_at ptr | Collect_at ptr | Past_at ptr

definition reader_hop ::
    "(ptr \<Rightarrow> int res) \<Rightarrow> (ptr \<Rightarrow> dict res) \<Rightarrow> (ptr \<Rightarrow> ptr bundle_t res) \<Rightarrow> timestamp_t \<Rightarrow> int \<Rightarrow> int
      \<Rightarrow> reader_pc \<times> dict \<Rightarrow> (reader_pc \<times> dict) res"
where
  "reader_hop K G B t lo hi = (\<lambda>(pc, out). case pc of
     Start_at pred \<Rightarrow> obind (follow B t pred) (\<lambda>c. Inr (Enter_at c, out))
   | Enter_at cur \<Rightarrow>
       (if cur = None then Inr (Collect_at cur, out)
        else obind (K cur) (\<lambda>ck.
          if ck < lo then obind (follow B t cur) (\<lambda>c. Inr (Enter_at c, out))
          else Inr (Collect_at cur, out)))
   | Collect_at cur \<Rightarrow>
       (if cur = None then Inr (Past_at cur, out)
        else obind (K cur) (\<lambda>ck.
          if ck \<le> hi
          then obind (if ck \<ge> lo then obind (G cur) (\<lambda>kvs. Inr (out @ kvs)) else Inr out)
               (\<lambda>out'. obind (follow B t cur) (\<lambda>c. Inr (Collect_at c, out')))
          else Inr (Past_at cur, out)))
   | Past_at cur \<Rightarrow> Inr (pc, out))"

text \<open>The hops, taken one after the other without interference, are the loops of the code.\<close>

fun reader_hops ::
    "nat \<Rightarrow> (ptr \<Rightarrow> int res) \<Rightarrow> (ptr \<Rightarrow> dict res) \<Rightarrow> (ptr \<Rightarrow> ptr bundle_t res) \<Rightarrow> timestamp_t \<Rightarrow> int \<Rightarrow> int
      \<Rightarrow> reader_pc \<times> dict \<Rightarrow> (reader_pc \<times> dict) res"
where
  "reader_hops 0 K G B t lo hi c = Inr c"
| "reader_hops (Suc n) K G B t lo hi c = obind (reader_hop K G B t lo hi c) (reader_hops n K G B t lo hi)"

lemma reader_hops_one:
  "reader_hop K G B t lo hi c = Inr c' \<Longrightarrow> \<exists>m. reader_hops m K G B t lo hi c = Inr c'"
  by (rule exI [of _ "Suc 0"]) simp

lemma reader_hops_more:
  "\<lbrakk>reader_hop K G B t lo hi c = Inr c'; \<exists>m. reader_hops m K G B t lo hi c' = Inr c''\<rbrakk>
    \<Longrightarrow> \<exists>m. reader_hops m K G B t lo hi c = Inr c''"
  by (elim exE, rule_tac x = "Suc m" in exI) simp

lemma reader_hops_enter:
  "rq_enter n K B t lo cur = Inr c \<Longrightarrow> \<exists>m. reader_hops m K G B t lo hi (Enter_at cur, out) = Inr (Collect_at c, out)"
proof (induction n arbitrary: cur)
  case (Suc n)
  show ?case
  proof (cases "\<exists>ck. cur \<noteq> None \<and> K cur = Inr ck \<and> ck < lo")
    case True
    then obtain c0 where c0: "reader_hop K G B t lo hi (Enter_at cur, out) = Inr (Enter_at c0, out)"
      "rq_enter n K B t lo c0 = Inr c"
      using Suc.prems by (auto simp: reader_hop_def obind_Inr_iff)
    show ?thesis by (rule reader_hops_more [OF c0(1) Suc.IH [OF c0(2)]])
  next
    case False
    then have "reader_hop K G B t lo hi (Enter_at cur, out) = Inr (Collect_at c, out)"
      using Suc.prems by (auto simp: reader_hop_def obind_Inr_iff split: if_splits)
    then show ?thesis by (rule reader_hops_one)
  qed
qed simp

lemma reader_hops_collect:
  "rq_collect n K G B t lo hi cur out = Inr (c, out') \<Longrightarrow>
    \<exists>m. reader_hops m K G B t lo hi (Collect_at cur, out) = Inr (Past_at c, out')"
proof (induction n arbitrary: cur out)
  case (Suc n)
  show ?case
  proof (cases "\<exists>ck. cur \<noteq> None \<and> K cur = Inr ck \<and> ck \<le> hi")
    case True
    then obtain c0 out0 where c0: "reader_hop K G B t lo hi (Collect_at cur, out) = Inr (Collect_at c0, out0)"
      "rq_collect n K G B t lo hi c0 out0 = Inr (c, out')"
      using Suc.prems by (auto simp: reader_hop_def obind_Inr_iff)
    show ?thesis by (rule reader_hops_more [OF c0(1) Suc.IH [OF c0(2)]])
  next
    case False
    then have "reader_hop K G B t lo hi (Collect_at cur, out) = Inr (Past_at c, out')"
      using Suc.prems by (auto simp: reader_hop_def obind_Inr_iff split: if_splits)
    then show ?thesis by (rule reader_hops_one)
  qed
qed simp

section \<open>Positions on a snapshot\<close>

definition in_range_v :: "chain_view \<Rightarrow> int \<Rightarrow> int \<Rightarrow> nat list \<Rightarrow> dict" where
  "in_range_v v lo hi xs = map (\<lambda>a. (ckey v a, cval v a)) (filter (\<lambda>a. lo \<le> ckey v a \<and> ckey v a \<le> hi) xs)"

lemma in_range_v_simps:
  "in_range_v v lo hi [] = []"
  "in_range_v v lo hi [a] = (if lo \<le> ckey v a \<and> ckey v a \<le> hi then [(ckey v a, cval v a)] else [])"
  "in_range_v v lo hi (a # b # xs) = in_range_v v lo hi [a] @ in_range_v v lo hi (b # xs)"
  by (simp_all add: in_range_v_def)

text \<open>At node \<open>a\<close> of the snapshot \<open>Q\<close>; what is still to come completes the pairs of the range.\<close>

definition on_path_v :: "chain_view \<Rightarrow> int \<Rightarrow> int \<Rightarrow> nat list \<Rightarrow> dict \<Rightarrow> nat list \<Rightarrow> nat \<Rightarrow> bool" where
  "on_path_v v lo hi Q out us a \<longleftrightarrow>
     (\<exists>vs. Q = us @ a # vs \<and> out @ in_range_v v lo hi (a # vs) = range_kv lo hi (pairs_v v Q))"

fun reader_at :: "chain_view \<Rightarrow> int \<Rightarrow> int \<Rightarrow> timestamp_t \<Rightarrow> nat list \<Rightarrow> reader_pc \<times> dict \<Rightarrow> bool" where
  "reader_at v lo hi t Q (Start_at pred, out) \<longleftrightarrow> out = [] \<and> (\<exists>p q us. pred = Some p \<and> p < clen v
     \<and> bsucc (cbun v) t p = Some q \<and> on_path_v v lo hi Q [] us q)"
| "reader_at v lo hi t Q (Enter_at cur, out) \<longleftrightarrow> out = [] \<and> (\<exists>a us. cur = Some a \<and> on_path_v v lo hi Q [] us a)"
| "reader_at v lo hi t Q (Collect_at cur, out) \<longleftrightarrow> (\<exists>a us. cur = Some a \<and> on_path_v v lo hi Q out us a)"
| "reader_at v lo hi t Q (Past_at cur, out) \<longleftrightarrow> cur \<noteq> None \<and> out = range_kv lo hi (pairs_v v Q)"

text \<open>A query with timestamp \<open>t\<close> on its way through the snapshot of \<open>t\<close>, whose dictionary is \<open>d\<close>.\<close>

definition reading_v :: "chain_view \<Rightarrow> int \<Rightarrow> int \<Rightarrow> timestamp_t \<Rightarrow> dict \<Rightarrow> reader_pc \<times> dict \<Rightarrow> bool" where
  "reading_v v lo hi t d c \<longleftrightarrow> t \<le> cnow v
     \<and> (\<exists>ta Q. snap_v v ta t Q \<and> ckey v ta = cmax v \<and> d = pairs_v v Q \<and> reader_at v lo hi t Q c)"

text \<open>How many nodes of its snapshot the query still has in front of it, and with them how many hops.\<close>

definition nodes_left_v :: "chain_view \<Rightarrow> timestamp_t \<Rightarrow> nat \<Rightarrow> nat" where
  "nodes_left_v v t a = length (walk (clen v) (bsucc (cbun v) t) a)"

definition reader_rank :: "chain_view \<Rightarrow> timestamp_t \<Rightarrow> reader_pc \<Rightarrow> nat" where
  "reader_rank v t pc = (case pc of
     Start_at (Some p) \<Rightarrow> (case bsucc (cbun v) t p of None \<Rightarrow> 0 | Some q \<Rightarrow> 3 + nodes_left_v v t q)
   | Enter_at (Some a) \<Rightarrow> 2 + nodes_left_v v t a
   | Collect_at (Some a) \<Rightarrow> 1 + nodes_left_v v t a
   | _ \<Rightarrow> 0)"

lemma snap_v_mem:
  assumes "snap_v v ta t Q"
  shows "a \<in> set Q \<Longrightarrow> a < clen v" "ta \<in> set Q"
  using assms last_in_set [of Q] by (auto simp: snap_v_def snap_path_def)

lemma on_path_mem_v: "on_path_v v lo hi Q out us a \<Longrightarrow> a \<in> set Q"
  by (auto simp: on_path_v_def)

lemma nodes_left_path_v:
  assumes sn: "snap_v v ta t Q" and Q: "Q = us @ a # vs"
  shows "nodes_left_v v t a = Suc (length vs)"
proof -
  have p: "linked (bsucc (cbun v) t) (a # vs)" "last (a # vs) = ta" "ksorted (ckey v) (a # vs)"
    "\<forall>x\<in>set (a # vs). x < clen v" "bsucc (cbun v) t ta = None"
    using sn Q linked_split [of "bsucc (cbun v) t" us a vs]
    by (auto simp: snap_v_def snap_path_def sorted_wrt_append bsucc_def)
  have "length (a # vs) \<le> clen v" using ksorted_length [OF p(3,4)] .
  then have "walk (clen v) (bsucc (cbun v) t) a = a # vs" using p by (intro walk_linked) auto
  then show ?thesis by (simp add: nodes_left_v_def)
qed

lemma on_path_next_v:
  assumes sn: "snap_v v ta t Q" and on: "on_path_v v lo hi Q out us a" and a: "a \<noteq> ta"
  obtains b where "bsucc (cbun v) t a = Some b" "on_path_v v lo hi Q (out @ in_range_v v lo hi [a]) (us @ [a]) b"
    "nodes_left_v v t a = Suc (nodes_left_v v t b)"
proof -
  obtain vs where vs: "Q = us @ a # vs" "out @ in_range_v v lo hi (a # vs) = range_kv lo hi (pairs_v v Q)"
    using on by (auto simp: on_path_v_def)
  obtain b ws where b: "vs = b # ws" using a vs(1) sn by (cases vs) (auto simp: snap_v_def snap_path_def)
  have "bsucc (cbun v) t a = Some b" using sn vs(1) b by (simp add: snap_v_def snap_path_def linked_mid)
  moreover have "on_path_v v lo hi Q (out @ in_range_v v lo hi [a]) (us @ [a]) b"
    using vs b unfolding on_path_v_def by (intro exI [of _ ws]) (simp add: in_range_v_simps(3))
  moreover have "nodes_left_v v t a = Suc (nodes_left_v v t b)"
    using nodes_left_path_v [OF sn vs(1)] nodes_left_path_v [OF sn, of "us @ [a]" b ws] vs(1) b by simp
  ultimately show thesis by (rule that)
qed

lemma on_path_end_v:
  assumes sn: "snap_v v ta t Q" and on: "on_path_v v lo hi Q out us a" and a: "hi < ckey v a"
  shows "out = range_kv lo hi (pairs_v v Q)"
proof -
  obtain vs where vs: "Q = us @ a # vs" "out @ in_range_v v lo hi (a # vs) = range_kv lo hi (pairs_v v Q)"
    using on by (auto simp: on_path_v_def)
  have "\<forall>x\<in>set vs. ckey v a < ckey v x" using sn vs(1) by (auto simp: snap_v_def snap_path_def sorted_wrt_append)
  then have "filter (\<lambda>x. lo \<le> ckey v x \<and> ckey v x \<le> hi) (a # vs) = []" using a by (force simp: filter_empty_conv)
  then have "in_range_v v lo hi (a # vs) = []" unfolding in_range_v_def by simp
  then show ?thesis using vs(2) by simp
qed

section \<open>Start, interference, end\<close>

text \<open>A query that takes its timestamp now starts on the snapshot of the present, from any node in front of the range.\<close>

lemma reading_start_v:
  assumes wf: "wf_v base v" and p: "rq_from_v v lo p" and k: "lo \<le> cmax v" "hi < cmax v"
  shows "reading_v v lo hi (cnow v) (contents_v v) (Start_at (Some p), [])"
proof -
  obtain ta P where ch: "chain_v v ta P" using wf by (elim wf_vE)
  note c = chain_vD [OF ch] and m = chain_v_mem [OF ch]
  have pl: "p < clen v" and st: "ckey v p < lo \<or> p = chead v" and hl: "p \<notin> set P \<longrightarrow> ckey v (chead v) < lo"
    using p c(2) m(1) by (auto simp: rq_from_v_def)
  have "p \<noteq> ta" using st c(3) k(1) m(5) by auto
  then obtain q where q: "bsucc (cbun v) (cnow v) p = Some q" using now_successor_v [OF ch pl] by auto
  have now: "snap_v v ta (cnow v) P" using chain_now [OF c(1)] by (simp add: snap_v_def)
  have "hi < ckey v ta" using c(3) k(2) by simp
  then obtain us vs where "P = us @ q # vs" "filter (\<lambda>x. lo \<le> ckey v x \<and> ckey v x \<le> hi) (q # vs) =
      filter (\<lambda>x. lo \<le> ckey v x \<and> ckey v x \<le> hi) (butlast (tl P))"
    using rq_start [OF chain_now [OF c(1)] pl q st _ hl] by blast
  then have "on_path_v v lo hi P [] us q"
    unfolding on_path_v_def range_kv_pairs_v in_range_v_def by (intro exI [of _ vs]) (simp only: append_Nil)
  then show ?thesis using pl q now c(3) contents_v_chain(1) [OF ch] by (auto simp: reading_v_def)
qed

text \<open>A step of another thread that keeps the times from \<open>base\<close> on does not disturb a query of such a time.\<close>

lemma on_path_keep_v:
  assumes on: "on_path_v v lo hi Q out us a"
    and same: "\<And>x. x \<in> set Q \<Longrightarrow> ckey v' x = ckey v x \<and> cval v' x = cval v x"
  shows "on_path_v v' lo hi Q out us a"
proof -
  obtain vs where vs: "Q = us @ a # vs" "out @ in_range_v v lo hi (a # vs) = range_kv lo hi (pairs_v v Q)"
    using on by (auto simp: on_path_v_def)
  have "in_range_v v' lo hi xs = in_range_v v lo hi xs" if "set xs \<subseteq> set Q" for xs
    using that same by (induction xs) (auto simp: in_range_v_def)
  moreover have "set (a # vs) \<subseteq> set Q" using vs(1) by auto
  moreover have "pairs_v v' Q = pairs_v v Q" using same by (rule pairs_v_cong)
  ultimately show ?thesis using vs unfolding on_path_v_def by (intro exI [of _ vs]) (simp only:)
qed

lemma reading_keep_v:
  assumes r: "reading_v v lo hi t d c" and k: "keeps_v base v v'" and t: "base \<le> t"
  shows "reading_v v' lo hi t d c" "reader_rank v' t (fst c) = reader_rank v t (fst c)"
proof -
  obtain ta Q where q: "t \<le> cnow v" "snap_v v ta t Q" "ckey v ta = cmax v" "d = pairs_v v Q"
    "reader_at v lo hi t Q c"
    using r by (auto simp: reading_v_def)
  obtain pc out where c: "c = (pc, out)" by (cases c)
  note kd = keeps_vD [OF k] and m = snap_v_mem [OF q(2)]
  have sn': "snap_v v' ta t Q" by (rule kd(9) [OF t q(1,2)])
  have same: "ckey v' x = ckey v x \<and> cval v' x = cval v x" if "x \<in> set Q" for x using kd(6,7) m(1) that by blast
  have pairs: "pairs_v v' Q = pairs_v v Q" using same by (rule pairs_v_cong)
  have left: "nodes_left_v v' t a = nodes_left_v v t a" if "on_path_v v lo hi Q o' us a" for o' us a
    using that nodes_left_path_v [OF q(2)] nodes_left_path_v [OF sn'] by (auto simp: on_path_v_def)
  have opk: "on_path_v v' lo hi Q o' us a" if "on_path_v v lo hi Q o' us a" for o' us a
    using that same by (rule on_path_keep_v)
  have sb: "bsucc (cbun v') t p = bsucc (cbun v) t p" "p < clen v'" if "p < clen v" for p
    using kd(8) [OF that t q(1)] kd(4) that by simp_all
  have "reader_at v' lo hi t Q c \<and> reader_rank v' t pc = reader_rank v t pc"
  proof (cases pc)
    case (Start_at pred)
    then obtain p b us where p: "out = []" "pred = Some p" "p < clen v" "bsucc (cbun v) t p = Some b"
      "on_path_v v lo hi Q [] us b"
      using q(5) c by auto
    then show ?thesis using Start_at c sb [OF p(3)] left [OF p(5)] opk [OF p(5)] by (auto simp: reader_rank_def)
  next
    case (Enter_at cur)
    then obtain a us where a: "out = []" "cur = Some a" "on_path_v v lo hi Q [] us a" using q(5) c by auto
    then show ?thesis using Enter_at c left [OF a(3)] opk [OF a(3)] by (auto simp: reader_rank_def)
  next
    case (Collect_at cur)
    then obtain a us where a: "cur = Some a" "on_path_v v lo hi Q out us a" using q(5) c by auto
    then show ?thesis using Collect_at c left [OF a(2)] opk [OF a(2)] by (auto simp: reader_rank_def)
  next
    case (Past_at cur)
    then show ?thesis using q(5) c pairs by (simp add: reader_rank_def)
  qed
  then show "reader_rank v' t (fst c) = reader_rank v t (fst c)" "reading_v v' lo hi t d c"
    using q(1,3,4) sn' c kd(3,5) same [OF m(2)] pairs
    unfolding reading_v_def by (simp, intro conjI exI [of _ ta] exI [of _ Q]) simp_all
qed

lemma reading_past_v:
  "reading_v v lo hi t d (Past_at cur, out) \<Longrightarrow> cur \<noteq> None \<and> out = range_kv lo hi d"
  by (auto simp: reading_v_def)

section \<open>Hops\<close>

text \<open>
  What a reader may find of a structure whose logical state is \<open>v\<close>, while other threads are
  between \<open>prepare_bundles\<close> and \<open>finalize_bundles\<close>: keys and pairs of \<open>v\<close>, and bundles in the
  middle of an update.
\<close>

definition sees_mid ::
    "chain_view \<Rightarrow> (ptr \<Rightarrow> int res) \<Rightarrow> (ptr \<Rightarrow> dict res) \<Rightarrow> (ptr \<Rightarrow> ptr bundle_t res) \<Rightarrow> bool"
where
  "sees_mid v K G B \<longleftrightarrow> (\<forall>a<clen v. K (Some a) = Inr (ckey v a) \<and> G (Some a) = Inr [(ckey v a, cval v a)]
     \<and> (\<exists>b. B (Some a) = Inr b \<and> mid_update b (cbun v a)))"

lemma sees_midD:
  assumes "sees_mid v K G B" "a < clen v"
  shows "K (Some a) = Inr (ckey v a)" "G (Some a) = Inr [(ckey v a, cval v a)]"
    "\<exists>b. B (Some a) = Inr b \<and> mid_update b (cbun v a)"
  using assms by (simp_all add: sees_mid_def)

fun reader_node :: "reader_pc \<Rightarrow> ptr" where
  "reader_node (Start_at p) = p"
| "reader_node (Enter_at p) = p"
| "reader_node (Collect_at p) = p"
| "reader_node (Past_at p) = p"

text \<open>What a structure provides: access to the keys, the pairs and the bundles of its view.\<close>

locale view_reader =
  fixes view :: "'s \<Rightarrow> chain_view"
    and K :: "'s \<Rightarrow> ptr \<Rightarrow> int res" and G :: "'s \<Rightarrow> ptr \<Rightarrow> dict res" and B :: "'s \<Rightarrow> ptr \<Rightarrow> ptr bundle_t res"
  assumes reads_key: "reads (K s) (ckey (view s)) [0..<clen (view s)]"
    and reads_pair: "reads (G s) (\<lambda>a. [(ckey (view s) a, cval (view s) a)]) [0..<clen (view s)]"
    and reads_bundle: "reads (B s) (cbun (view s)) [0..<clen (view s)]"
begin

lemma read_at:
  assumes "a < clen (view s)"
  shows "K s (Some a) = Inr (ckey (view s) a)" "G s (Some a) = Inr [(ckey (view s) a, cval (view s) a)]"
    "B s (Some a) = Inr (cbun (view s) a)"
  using assms readsD [OF reads_key, of a s] readsD [OF reads_pair, of a s] readsD [OF reads_bundle, of a s] by simp_all

lemma follow_at:
  assumes wf: "wf_v base (view s)" and a: "a < clen (view s)" "bsucc (cbun (view s)) t a = Some b"
  shows "follow (B s) t (Some a) = Inr (Some b)"
proof -
  obtain ta P where "chain_v (view s) ta P" using wf by (elim wf_vE)
  then have "bundle_ok (cbun (view s) a)" using chain_invD(9) [OF chain_vD(1)] a(1) by blast
  then show ?thesis using a read_at(3) [OF a(1)] by (intro follow_snap) (simp_all add: reads_def)
qed

lemma reading_hop:
  assumes wf: "wf_v base (view s)" and k: "lo \<le> cmax (view s)" "hi < cmax (view s)"
    and r: "reading_v (view s) lo hi t d c" and np: "\<And>cur. fst c \<noteq> Past_at cur"
  obtains c' where "reader_hop (K s) (G s) (B s) t lo hi c = Inr c'" "reading_v (view s) lo hi t d c'"
    "reader_rank (view s) t (fst c') < reader_rank (view s) t (fst c)"
proof -
  let ?v = "view s" let ?hop = "reader_hop (K s) (G s) (B s) t lo hi"
  obtain ta Q where q: "t \<le> cnow ?v" "snap_v ?v ta t Q" "ckey ?v ta = cmax ?v" "d = pairs_v ?v Q"
    "reader_at ?v lo hi t Q c"
    using r by (auto simp: reading_v_def)
  obtain pc out where c: "c = (pc, out)" by (cases c)
  have mem: "a < clen ?v" if "on_path_v ?v lo hi Q out' us a" for out' us a
    using on_path_mem_v [OF that] snap_v_mem(1) [OF q(2)] by blast
  have "\<exists>c'. ?hop c = Inr c' \<and> reader_at ?v lo hi t Q c' \<and> reader_rank ?v t (fst c') < reader_rank ?v t pc"
  proof (cases pc)
    case (Start_at pred)
    then obtain p b us where p: "out = []" "pred = Some p" "p < clen ?v" "bsucc (cbun ?v) t p = Some b"
      "on_path_v ?v lo hi Q [] us b"
      using q(5) c by auto
    then show ?thesis using Start_at c follow_at [OF wf p(3,4)]
      by (intro exI [of _ "(Enter_at (Some b), [])"]) (auto simp: reader_hop_def reader_rank_def)
  next
    case (Enter_at cur)
    then obtain a us where a: "out = []" "cur = Some a" "on_path_v ?v lo hi Q [] us a" using q(5) c by auto
    note al = mem [OF a(3)]
    show ?thesis
    proof (cases "ckey ?v a < lo")
      case True
      then have "a \<noteq> ta" using q(3) k(1) by auto
      then obtain b where b: "bsucc (cbun ?v) t a = Some b" "on_path_v ?v lo hi Q ([] @ in_range_v ?v lo hi [a]) (us @ [a]) b"
        "nodes_left_v ?v t a = Suc (nodes_left_v ?v t b)"
        using on_path_next_v [OF q(2) a(3)] by blast
      have "on_path_v ?v lo hi Q [] (us @ [a]) b" using b(2) True by (simp add: in_range_v_simps)
      then show ?thesis using Enter_at c a True read_at [OF al] follow_at [OF wf al b(1)] b(3)
        by (intro exI [of _ "(Enter_at (Some b), [])"]) (auto simp: reader_hop_def reader_rank_def)
    next
      case False
      then show ?thesis using Enter_at c a read_at [OF al]
        by (intro exI [of _ "(Collect_at cur, [])"]) (auto simp: reader_hop_def reader_rank_def)
    qed
  next
    case (Collect_at cur)
    then obtain a us where a: "cur = Some a" "on_path_v ?v lo hi Q out us a" using q(5) c by auto
    note al = mem [OF a(2)]
    show ?thesis
    proof (cases "ckey ?v a \<le> hi")
      case True
      then have "a \<noteq> ta" using q(3) k(2) by auto
      then obtain b where b: "bsucc (cbun ?v) t a = Some b" "on_path_v ?v lo hi Q (out @ in_range_v ?v lo hi [a]) (us @ [a]) b"
        "nodes_left_v ?v t a = Suc (nodes_left_v ?v t b)"
        using on_path_next_v [OF q(2) a(2)] by blast
      have "?hop c = Inr (Collect_at (Some b), out @ in_range_v ?v lo hi [a])"
        using Collect_at c a True read_at [OF al] follow_at [OF wf al b(1)]
        by (auto simp: reader_hop_def in_range_v_simps)
      then show ?thesis using Collect_at a b by (intro exI [of _ "(Collect_at (Some b), _)"]) (auto simp: reader_rank_def)
    next
      case False
      then show ?thesis using Collect_at c a read_at [OF al] on_path_end_v [OF q(2) a(2)]
        by (intro exI [of _ "(Past_at cur, out)"]) (auto simp: reader_hop_def reader_rank_def)
    qed
  next
    case (Past_at cur)
    then show ?thesis using np [of cur] c by simp
  qed
  then show thesis using that q(1-4) c by (fastforce simp: reading_v_def)
qed

text \<open>
  The same hop on a structure in which other threads are in the middle of updates: it is the
  hop it would be without them, or it waits at the bundle it has to read, for as long as
  that bundle makes it wait.
\<close>

lemma follow_mid:
  assumes wf: "wf_v base (view s)" and a: "a < clen (view s)" "bsucc (cbun (view s)) t a = Some b" "t \<le> cnow (view s)"
    and mid: "B' (Some a) = Inr b'" "mid_update b' (cbun (view s) a)"
  shows "follow B' t (Some a) = follow (B s) t (Some a) \<or> follow B' t (Some a) = Inl Blocked \<and> waits_for t b'"
proof -
  obtain ta P where "chain_v (view s) ta P" using wf by (elim wf_vE)
  then have ok: "bundle_ok (cbun (view s) a)" using chain_invD(9) [OF chain_vD(1)] a(1) by blast
  have r: "read_at (cbun (view s) a) t = Some (Some b)" using a(2) by (auto simp: bsucc_def succ_of_def split: option.splits)
  then have "cbun (view s) a \<noteq> []" by auto
  moreover have "t < BUNDLE_PENDING_TIMESTAMP" using a(3) wf_v_clock(3) [OF wf] by (simp add: timestamp_defs)
  ultimately show ?thesis using read_mid_update [OF ok _ _ mid(2), of t] mid(1) r follow_at [OF wf a(1,2)]
    by (auto simp: follow_def)
qed

lemma reading_hop_mid:
  assumes wf: "wf_v base (view s)" and k: "lo \<le> cmax (view s)" "hi < cmax (view s)"
    and r: "reading_v (view s) lo hi t d c" and mid: "sees_mid (view s) K' G' B'"
  shows "reader_hop K' G' B' t lo hi c = reader_hop (K s) (G s) (B s) t lo hi c
    \<or> reader_hop K' G' B' t lo hi c = Inl Blocked
      \<and> (\<exists>a b'. reader_node (fst c) = Some a \<and> a < clen (view s) \<and> B' (Some a) = Inr b' \<and> waits_for t b')"
proof -
  let ?v = "view s"
  obtain ta Q where q: "t \<le> cnow ?v" "snap_v ?v ta t Q" "ckey ?v ta = cmax ?v" "reader_at ?v lo hi t Q c"
    using r by (auto simp: reading_v_def)
  obtain pc out where c: "c = (pc, out)" by (cases c)
  have mem: "a < clen ?v" if "on_path_v ?v lo hi Q out' us a" for out' us a
    using on_path_mem_v [OF that] snap_v_mem(1) [OF q(2)] by blast
  note m = sees_midD [OF mid]
  have fol: "follow B' t (Some a) = follow (B s) t (Some a)
      \<or> follow B' t (Some a) = Inl Blocked \<and> (\<exists>b'. B' (Some a) = Inr b' \<and> waits_for t b')"
    if "a < clen ?v" "bsucc (cbun ?v) t a \<noteq> None" for a
  proof -
    note al = that(1) and nx = that(2)
    obtain b b' where "bsucc (cbun ?v) t a = Some b" "B' (Some a) = Inr b'" "mid_update b' (cbun ?v a)"
      using nx m(3) [OF al] by auto
    then show ?thesis using follow_mid [OF wf al _ q(1)] by blast
  qed
  have nx: "bsucc (cbun ?v) t a \<noteq> None" if "on_path_v ?v lo hi Q out' us a" "ckey ?v a < cmax ?v" for out' us a
    using on_path_next_v [OF q(2) that(1)] that(2) q(3) by (metis option.distinct(1) order_less_irrefl)
  show ?thesis
  proof (cases pc)
    case (Start_at pred)
    then obtain p b where p: "pred = Some p" "p < clen ?v" "bsucc (cbun ?v) t p = Some b" using q(4) c by auto
    then show ?thesis using Start_at c fol [of p] by (auto simp: reader_hop_def)
  next
    case (Enter_at cur)
    then obtain a us where a: "cur = Some a" "on_path_v ?v lo hi Q [] us a" using q(4) c by auto
    note al = mem [OF a(2)]
    have "ckey ?v a < lo \<Longrightarrow> bsucc (cbun ?v) t a \<noteq> None" using nx [OF a(2)] k(1) by simp
    then show ?thesis using Enter_at c a(1) al fol [OF al] m(1) [OF al] read_at(1) [OF al]
      by (auto simp: reader_hop_def)
  next
    case (Collect_at cur)
    then obtain a us where a: "cur = Some a" "on_path_v ?v lo hi Q out us a" using q(4) c by auto
    note al = mem [OF a(2)]
    have "ckey ?v a \<le> hi \<Longrightarrow> bsucc (cbun ?v) t a \<noteq> None" using nx [OF a(2)] k(2) by simp
    then show ?thesis using Collect_at c a(1) al fol [OF al] m(1,2) [OF al] read_at(1,2) [OF al]
      by (auto simp: reader_hop_def)
  next
    case (Past_at cur)
    then show ?thesis using c by (simp add: reader_hop_def)
  qed
qed

end

end
