(* ===== verification/Bundled_List_Concurrent.thy ===== *)
theory Bundled_List_Concurrent
  imports Bundled_List_Queries Snapshot_Reader
begin

text \<open>
  A range query of the bundled list, hop by hop, among updates, cleaners and other queries.
  A hop is one iteration of a loop of the code, or \<open>start_traversal\<close>, or \<open>end_traversal\<close>.
  Phases 2 and 3 are those of \<open>Snapshot_Reader\<close>; every other thread takes its locked section
  (on the result of a search that may be arbitrarily old), a pass of the cleaner, or an
  announcement in one step. The entries that are pending inside a locked section are
  therefore not part of these states; what a hop does when it meets them is treated
  separately, on heaps in the middle of updates.
\<close>

section \<open>The query as a state machine\<close>

datatype rq_pc =
    At_Top                 \<comment> \<open>at the top of the loop\<close>
  | Walking ptr ptr        \<comment> \<open>phase 1 along \<open>next\<close>: \<open>pred\<close> and \<open>curr\<close>\<close>
  | Walked ptr             \<comment> \<open>phase 1 is over, no timestamp yet\<close>
  | Following reader_pc    \<comment> \<open>phases 2 and 3, with the timestamp\<close>
  | Finished

record rq_thread =
  rq_pc :: rq_pc
  rq_t :: timestamp_t
  rq_out :: dict

definition rq_begin :: rq_thread where
  "rq_begin = \<lparr>rq_pc = At_Top, rq_t = 0, rq_out = []\<rparr>"

definition rq_hop :: "nat \<Rightarrow> int \<Rightarrow> int \<Rightarrow> bl_list \<Rightarrow> rq_thread \<Rightarrow> (bl_list \<times> rq_thread) res" where
  "rq_hop tid lo hi s r = (let h = heap_bl s in case rq_pc r of
     At_Top \<Rightarrow> Inr (leaveQuiescentState_bl s tid, r\<lparr>rq_pc := Walking (head_bl s) (head_bl s)\<rparr>)
   | Walking pred cur \<Rightarrow>
       (if cur = None then Inl AssertFail
        else obind (keyof_bl h cur) (\<lambda>ck.
          if ck < lo then obind (nextof_bl h cur) (\<lambda>nx. Inr (s, r\<lparr>rq_pc := Walking cur nx\<rparr>))
          else Inr (s, r\<lparr>rq_pc := Walked pred\<rparr>)))
   | Walked pred \<Rightarrow> (let (t, q) = start_traversal (rq_bl s) tid
       in Inr (s\<lparr>rq_bl := q\<rparr>, r\<lparr>rq_pc := Following (Start_at pred), rq_t := t\<rparr>))
   | Following p \<Rightarrow> (case p of
         Past_at cur \<Rightarrow> Inr (enterQuiescentState_bl (s\<lparr>rq_bl := end_traversal (rq_bl s) tid\<rparr>) tid,
           r\<lparr>rq_pc := (if cur \<noteq> None then Finished else At_Top)\<rparr>)
       | _ \<Rightarrow> obind (reader_hop (keyof_bl h) (getKeys_bl h) (bundleof_bl h) (rq_t r) lo hi (p, rq_out r))
           (\<lambda>(p', out). Inr (s, r\<lparr>rq_pc := Following p', rq_out := out\<rparr>)))
   | Finished \<Rightarrow> Inr (s, r))"

section \<open>The other threads\<close>

text \<open>One step of a thread other than \<open>tid\<close>.\<close>

inductive env_step :: "nat \<Rightarrow> bl_list \<Rightarrow> bl_list \<Rightarrow> bool" for tid :: nat where
  env_insert: "\<lbrakk>i \<noteq> tid; curr_timestamp (rq_bl s) < BUNDLE_MAX_TIMESTAMP; found_bl s k p c;
      k < KEY_MAX_bl s; insert_locked_bl s i (Some p) (Some c) k v True = Inr (s', x)\<rbrakk>
    \<Longrightarrow> env_step tid s s'"
| env_erase: "\<lbrakk>i \<noteq> tid; curr_timestamp (rq_bl s) < BUNDLE_MAX_TIMESTAMP; found_bl s k p c;
      kf (heap_bl s) c = k; k < KEY_MAX_bl s;
      erase_locked_bl s i (Some p) (Some c) k = Inr (s', x)\<rbrakk>
    \<Longrightarrow> env_step tid s s'"
| env_cleanup: "\<lbrakk>i \<noteq> tid; cleanup_bl s i = Inr s'\<rbrakk> \<Longrightarrow> env_step tid s s'"
| env_start: "\<lbrakk>i \<noteq> tid; start_traversal (rq_bl s) i = (t, q)\<rbrakk> \<Longrightarrow> env_step tid s (s\<lparr>rq_bl := q\<rparr>)"
| env_end: "i \<noteq> tid \<Longrightarrow> env_step tid s (s\<lparr>rq_bl := end_traversal (rq_bl s) i\<rparr>)"

text \<open>
  The system: the list, the query, and the dictionary of the moment in which the query
  took its timestamp (a ghost that no code reads).
\<close>

inductive sys_step ::
    "nat \<Rightarrow> int \<Rightarrow> int \<Rightarrow> bl_list \<times> rq_thread \<times> dict \<Rightarrow> bl_list \<times> rq_thread \<times> dict \<Rightarrow> bool"
  for tid :: nat and lo hi :: int where
  sys_env: "env_step tid s s' \<Longrightarrow> sys_step tid lo hi (s, r, d) (s', r, d)"
| sys_hop: "rq_hop tid lo hi s r = Inr (s', r') \<Longrightarrow>
    sys_step tid lo hi (s, r, d)
      (s', r', case rq_pc r of Walked p \<Rightarrow> contents_bl s | _ \<Rightarrow> d)"

inductive_cases env_stepE: "env_step tid s s'"
inductive_cases sys_stepE: "sys_step tid lo hi c c'"

definition sys_reach ::
    "nat \<Rightarrow> int \<Rightarrow> int \<Rightarrow> bl_list \<Rightarrow> bl_list \<times> rq_thread \<times> dict \<Rightarrow> bool" where
  "sys_reach tid lo hi s0 = (sys_step tid lo hi)\<^sup>*\<^sup>* (s0, rq_begin, [])"

section \<open>What the other threads preserve\<close>

definition same_own :: "nat \<Rightarrow> rqp \<Rightarrow> rqp \<Rightarrow> bool" where
  "same_own tid q q' \<longleftrightarrow> rq_lin_time q' tid = rq_lin_time q tid \<and> num_processes q' = num_processes q
     \<and> curr_timestamp q \<le> curr_timestamp q'"

text \<open>
  After a step of another thread, everything from some time \<open>base'\<close> on can be read;
  \<open>base'\<close> is not above the time a query of this thread has announced.
\<close>

definition env_ok :: "nat \<Rightarrow> timestamp_t \<Rightarrow> bl_list \<Rightarrow> bl_list \<Rightarrow> bool" where
  "env_ok tid base s s' \<longleftrightarrow> (\<exists>base'\<ge>base. wf_bl base' s' \<and> keeps_bl base' s s'
     \<and> same_own tid (rq_bl s) (rq_bl s')
     \<and> (base \<le> rq_lin_time (rq_bl s) tid \<longrightarrow> base' \<le> rq_lin_time (rq_bl s) tid))"

lemma env_okI:
  "wf_bl base s' \<Longrightarrow> keeps_bl base s s' \<Longrightarrow> same_own tid (rq_bl s) (rq_bl s') \<Longrightarrow> env_ok tid base s s'"
  unfolding env_ok_def by (intro exI [of _ base]) simp

lemma steps_to_env_ok:
  assumes "steps_to_bl base s d s'" "same_announcements (rq_bl s) (rq_bl s')"
  shows "env_ok tid base s s'"
  using assms by (intro env_okI) (simp_all add: steps_to_bl_def same_announcements_def same_own_def)

lemma cleanup_env_ok:
  assumes wf: "wf_bl base s" and run: "cleanup_bl s i = Inr s'" and tid: "tid < num_processes (rq_bl s)"
  shows "env_ok tid base s s'"
proof -
  obtain t where t: "get_oldest_active_rq (rq_bl s) = Inr t"
    using run by (cases "get_oldest_active_rq (rq_bl s)") (auto simp: cleanup_bl_def Let_def)
  obtain s1 where s1: "cleanup_bl s i = Inr s1" "wf_bl (max base t) s1" "keeps_bl (max base t) s s1"
    "rq_bl s1 = rq_bl s"
    using cleanup_step [OF wf t, of i] by blast
  have "rq_lin_time (rq_bl s) tid \<noteq> BUNDLE_NULL_TIMESTAMP \<longrightarrow> t \<le> rq_lin_time (rq_bl s) tid"
    using t tid oldest_scan_sound unfolding get_oldest_active_rq_def by fastforce
  moreover have "0 < base" using wf_bl_clock [OF wf] by simp
  ultimately have "base \<le> rq_lin_time (rq_bl s) tid \<longrightarrow> max base t \<le> rq_lin_time (rq_bl s) tid"
    by (auto simp: timestamp_defs)
  moreover have "s' = s1" using run s1(1) by simp
  ultimately show ?thesis using s1 unfolding env_ok_def
    by (intro exI [of _ "max base t"]) (simp add: same_own_def)
qed

lemma env_step_ok:
  assumes step: "env_step tid s s'" and wf: "wf_bl base s" and tid: "tid < num_processes (rq_bl s)"
  shows "env_ok tid base s s'"
  using step
proof (cases rule: env_step.cases)
  case (env_insert i k p c v x)
  obtain s1 r where "insert_locked_bl s i (Some p) (Some c) k v True = Inr (s1, r)"
    "same_announcements (rq_bl s) (rq_bl s1)" "\<exists>d. steps_to_bl base s d s1"
    using insert_locked_step [OF wf env_insert(2,3,4), of i v] by (auto split: option.splits)
  then show ?thesis using env_insert steps_to_env_ok by auto
next
  case (env_erase i k p c x)
  obtain s1 r where "erase_locked_bl s i (Some p) (Some c) k = Inr (s1, r)"
    "same_announcements (rq_bl s) (rq_bl s1)" "\<exists>d. steps_to_bl base s d s1"
    using erase_locked_step [OF wf env_erase(2,3,4,5), of i] by (auto split: option.splits)
  then show ?thesis using env_erase steps_to_env_ok by auto
next
  case (env_cleanup i)
  then show ?thesis using cleanup_env_ok [OF wf _ tid] by blast
next
  case (env_start i t q)
  have "q = (rq_bl s)\<lparr>rq_lin_time := (rq_lin_time (rq_bl s))(i := curr_timestamp (rq_bl s)),
      rq_flag := (rq_flag (rq_bl s))(i := False)\<rparr>"
    using env_start(3) wf_bl_clock(1) [OF wf] by (auto simp: start_traversal_def announce_def Let_def)
  then show ?thesis using env_start(1,2) rq_unchanged [OF wf]
    by (intro env_okI) (simp_all add: steps_to_bl_def same_own_def)
next
  case (env_end i)
  have "end_traversal (rq_bl s) i = (rq_bl s)\<lparr>rq_lin_time := (rq_lin_time (rq_bl s))(i := BUNDLE_NULL_TIMESTAMP),
      rq_flag := rq_flag (rq_bl s)\<rparr>"
    using wf_bl_clock(1) [OF wf] by (simp add: end_traversal_def)
  then show ?thesis using env_end rq_unchanged [OF wf, where fl = "rq_flag (rq_bl s)"]
    by (intro env_okI) (simp_all add: steps_to_bl_def same_own_def)
qed

section \<open>The list as a view\<close>

definition view_bl :: "bl_list \<Rightarrow> chain_view" where
  "view_bl s = \<lparr>ckey = kf (heap_bl s), cval = vf (heap_bl s), cnxt = nf (heap_bl s),
     cbun = bf (heap_bl s), cdead = df (heap_bl s), clen = length (heap_bl s),
     chead = the (head_bl s), cnow = curr_timestamp (rq_bl s),
     cmin = KEY_MIN_bl s, cmax = KEY_MAX_bl s\<rparr>"

lemma view_bl_sel [simp]:
  "ckey (view_bl s) = kf (heap_bl s)" "cval (view_bl s) = vf (heap_bl s)" "cnxt (view_bl s) = nf (heap_bl s)"
  "cbun (view_bl s) = bf (heap_bl s)" "cdead (view_bl s) = df (heap_bl s)" "clen (view_bl s) = length (heap_bl s)"
  "chead (view_bl s) = the (head_bl s)" "cnow (view_bl s) = curr_timestamp (rq_bl s)"
  "cmin (view_bl s) = KEY_MIN_bl s" "cmax (view_bl s) = KEY_MAX_bl s"
  by (simp_all add: view_bl_def)

lemma view_rq_bl [simp]:
  "view_bl (s\<lparr>rq_bl := (rq_bl s)\<lparr>rq_lin_time := lt, rq_flag := fl\<rparr>\<rparr>) = view_bl s"
  by (simp add: view_bl_def)

lemma view_wf:
  assumes "wf_bl base s"
  shows "wf_v base (view_bl s)"
proof -
  obtain ha ta P where ch: "chain_bl s ha ta P"
    and sn: "snaps_inv base (kf (heap_bl s)) (bf (heap_bl s)) (length (heap_bl s)) ha ta (curr_timestamp (rq_bl s))"
    using assms by (elim wf_blE)
  have "chain_v (view_bl s) ta P" using ch chain_blD(1) [OF ch] by (simp add: chain_v_def chain_bl_def Let_def)
  then show ?thesis using sn wf_bl_clock [OF assms] chain_blD(1) [OF ch] by (auto simp: wf_v_def)
qed

lemma view_contents: "contents_v (view_bl s) = contents_bl s"
  by (simp add: contents_v_def contents_bl_def pairs_v_def pairs_bl_def)

lemma view_from: "rq_from_v (view_bl s) lo p = rq_from_bl s lo p" if "wf_bl base s"
  using that chain_blD(1) unfolding rq_from_v_def rq_from_bl_def by (auto elim!: wf_blE)

lemma view_keeps:
  assumes "wf_bl base0 s" "keeps_bl base s s'" "curr_timestamp (rq_bl s) \<le> curr_timestamp (rq_bl s')"
  shows "keeps_v base (view_bl s) (view_bl s')"
proof -
  obtain ha where "head_bl s = Some ha" using assms(1) chain_blD(1) by (elim wf_blE) blast
  then show ?thesis using assms(2,3) unfolding keeps_bl_def keeps_v_def by (simp add: snap_v_def del: fld_in)
qed

interpretation blr: view_reader view_bl "\<lambda>s. keyof_bl (heap_bl s)" "\<lambda>s. getKeys_bl (heap_bl s)" "\<lambda>s. bundleof_bl (heap_bl s)"
  using reads_bl by unfold_locales simp_all

section \<open>Invariant of the query\<close>

text \<open>Phase 1: the node the walk is at, in the list or unlinked.\<close>

definition walking_ok :: "bl_list \<Rightarrow> int \<Rightarrow> nat \<Rightarrow> ptr \<Rightarrow> bool" where
  "walking_ok s lo p cur \<longleftrightarrow> rq_from_bl s lo p \<and> (\<exists>c. cur = Some c \<and> c < length (heap_bl s)
     \<and> (KEY_MIN_bl s < lo \<or> head_bl s = Some c))"

fun phase_ok :: "timestamp_t \<Rightarrow> nat \<Rightarrow> int \<Rightarrow> int \<Rightarrow> bl_list \<Rightarrow> rq_thread \<Rightarrow> dict \<Rightarrow> rq_pc \<Rightarrow> bool" where
  "phase_ok base tid lo hi s r d At_Top \<longleftrightarrow> rq_out r = []"
| "phase_ok base tid lo hi s r d (Walking pred cur) \<longleftrightarrow>
     rq_out r = [] \<and> (\<exists>p. pred = Some p \<and> walking_ok s lo p cur)"
| "phase_ok base tid lo hi s r d (Walked pred) \<longleftrightarrow>
     rq_out r = [] \<and> (\<exists>p. pred = Some p \<and> rq_from_bl s lo p)"
| "phase_ok base tid lo hi s r d (Following p) \<longleftrightarrow> base \<le> rq_t r \<and> rq_lin_time (rq_bl s) tid = rq_t r
     \<and> reading_v (view_bl s) lo hi (rq_t r) d (p, rq_out r)"
| "phase_ok base tid lo hi s r d Finished \<longleftrightarrow> rq_out r = range_kv lo hi d"

definition rq_inv :: "nat \<Rightarrow> int \<Rightarrow> int \<Rightarrow> bl_list \<times> rq_thread \<times> dict \<Rightarrow> bool" where
  "rq_inv tid lo hi = (\<lambda>(s, r, d). \<exists>base. wf_bl base s \<and> tid < num_processes (rq_bl s)
     \<and> lo \<le> KEY_MAX_bl s \<and> hi < KEY_MAX_bl s \<and> phase_ok base tid lo hi s r d (rq_pc r))"

text \<open>A query with a timestamp, and how far it is from its end.\<close>

definition reading :: "rq_thread \<Rightarrow> bool" where
  "reading r \<longleftrightarrow> (\<exists>p. rq_pc r = Following p)"

definition rq_rank :: "bl_list \<Rightarrow> rq_thread \<Rightarrow> nat" where
  "rq_rank s r = (case rq_pc r of Following p \<Rightarrow> reader_rank (view_bl s) (rq_t r) p | _ \<Rightarrow> 0)"

lemma keepsD:
  assumes "keeps_bl base s s'"
  shows "head_bl s' = head_bl s" "KEY_MIN_bl s' = KEY_MIN_bl s" "KEY_MAX_bl s' = KEY_MAX_bl s"
    "length (heap_bl s) \<le> length (heap_bl s')"
    "a < length (heap_bl s) \<Longrightarrow> kf (heap_bl s') a = kf (heap_bl s) a"
  using assms unfolding keeps_bl_def by blast+

lemma rq_from_keep:
  assumes "rq_from_bl s lo p" "keeps_bl base s s'"
  shows "rq_from_bl s' lo p"
  using assms(1) keepsD(1-5) [OF assms(2)] by (auto simp: rq_from_bl_def simp del: fld_in)

lemma walking_keep:
  assumes "walking_ok s lo p cur" "keeps_bl base s s'"
  shows "walking_ok s' lo p cur"
  using assms(1) rq_from_keep [OF _ assms(2)] keepsD(1,2,4) [OF assms(2)]
  unfolding walking_ok_def by auto

lemma rq_inv_env:
  assumes inv: "rq_inv tid lo hi (s, r, d)" and step: "env_step tid s s'"
  shows "rq_inv tid lo hi (s', r, d)" "reading r \<Longrightarrow> rq_rank s' r = rq_rank s r"
proof -
  obtain base where wf: "wf_bl base s" and tid: "tid < num_processes (rq_bl s)" "lo \<le> KEY_MAX_bl s" "hi < KEY_MAX_bl s"
    and ph: "phase_ok base tid lo hi s r d (rq_pc r)"
    using inv by (auto simp: rq_inv_def)
  obtain base' where b: "wf_bl base' s'" "keeps_bl base' s s'" "same_own tid (rq_bl s) (rq_bl s')"
    "base \<le> rq_lin_time (rq_bl s) tid \<longrightarrow> base' \<le> rq_lin_time (rq_bl s) tid"
    using env_step_ok [OF step wf tid(1)] by (auto simp: env_ok_def)
  have k: "keeps_v base' (view_bl s) (view_bl s')"
    using view_keeps [OF wf b(2)] b(3) by (simp add: same_own_def)
  have rd: "base' \<le> rq_t r \<and> reading_v (view_bl s') lo hi (rq_t r) d (p, rq_out r)
      \<and> reader_rank (view_bl s') (rq_t r) p = reader_rank (view_bl s) (rq_t r) p" if "rq_pc r = Following p" for p
  proof -
    have p: "base \<le> rq_t r" "rq_lin_time (rq_bl s) tid = rq_t r" "reading_v (view_bl s) lo hi (rq_t r) d (p, rq_out r)"
      using ph that by simp_all
    have t: "base' \<le> rq_t r" using b(4) p(1,2) by simp
    show ?thesis using reading_keep_v [OF p(3) k t] t by simp
  qed
  have "phase_ok base' tid lo hi s' r d (rq_pc r)"
    using ph rd rq_from_keep [OF _ b(2)] walking_keep [OF _ b(2)] b(3) by (cases "rq_pc r") (auto simp: same_own_def)
  then show "rq_inv tid lo hi (s', r, d)" using b(1,3) tid keepsD(3) [OF b(2)] by (auto simp: rq_inv_def same_own_def)
  show "reading r \<Longrightarrow> rq_rank s' r = rq_rank s r" using rd by (auto simp: reading_def rq_rank_def)
qed

section \<open>Steps of the query\<close>

text \<open>What a successful hop establishes.\<close>

definition hop_ok :: "timestamp_t \<Rightarrow> nat \<Rightarrow> int \<Rightarrow> int \<Rightarrow> bl_list \<Rightarrow> rq_thread \<Rightarrow> dict \<Rightarrow> bool" where
  "hop_ok base tid lo hi s r d \<longleftrightarrow> (\<exists>s' r'. rq_hop tid lo hi s r = Inr (s', r')
     \<and> wf_bl base s' \<and> num_processes (rq_bl s') = num_processes (rq_bl s) \<and> KEY_MAX_bl s' = KEY_MAX_bl s
     \<and> phase_ok base tid lo hi s' r' d (rq_pc r')
     \<and> (reading r \<longrightarrow> rq_pc r' = Finished \<or> reading r' \<and> rq_rank s' r' < rq_rank s r))"

lemma hop_okI:
  assumes "rq_hop tid lo hi s r = Inr (s', r')" "wf_bl base s'" "num_processes (rq_bl s') = num_processes (rq_bl s)"
    "KEY_MAX_bl s' = KEY_MAX_bl s" "phase_ok base tid lo hi s' r' d (rq_pc r')"
    and "reading r \<Longrightarrow> rq_pc r' = Finished \<or> reading r' \<and> rq_rank s' r' < rq_rank s r"
  shows "hop_ok base tid lo hi s r d"
  using assms unfolding hop_ok_def by blast

lemma hop_at_top:
  assumes wf: "wf_bl base s" and pc: "rq_pc r = At_Top" and ph: "phase_ok base tid lo hi s r d (rq_pc r)"
  shows "hop_ok base tid lo hi s r d"
proof -
  obtain ha ta P where ch: "chain_bl s ha ta P" using wf by (elim wf_blE)
  let ?s = "leaveQuiescentState_bl s tid" let ?r = "r\<lparr>rq_pc := Walking (head_bl s) (head_bl s)\<rparr>"
  have "rq_hop tid lo hi s r = Inr (?s, ?r)" using pc by (simp add: rq_hop_def)
  moreover have "walking_ok ?s lo ha (Some ha)"
    using chain_mem [OF ch] chain_blD(1) [OF ch] by (simp add: walking_ok_def rq_from_bl_def)
  ultimately show ?thesis using wf ph pc chain_blD(1) [OF ch] by (intro hop_okI [of _ _ _ _ _ ?s ?r]) (simp_all add: reading_def)
qed

lemma hop_walking:
  assumes wf: "wf_bl base s" and lo: "lo \<le> KEY_MAX_bl s" and pc: "rq_pc r = Walking pred cur"
    and ph: "phase_ok base tid lo hi s r d (rq_pc r)"
  shows "hop_ok base tid lo hi s r d"
proof -
  obtain ha ta P where ch: "chain_bl s ha ta P" using wf by (elim wf_blE)
  note i = chain_invD [OF chain_blD(2) [OF ch]] and c = chain_blD [OF ch]
  obtain p b where p: "rq_out r = []" "pred = Some p" "cur = Some b" "rq_from_bl s lo p" "b < length (heap_bl s)"
    "KEY_MIN_bl s < lo \<or> head_bl s = Some b"
    using ph pc by (auto simp: walking_ok_def)
  have kb: "keyof_bl (heap_bl s) cur = Inr (kf (heap_bl s) b)" "nextof_bl (heap_bl s) cur = Inr (nf (heap_bl s) b)"
    using p by (simp_all add: keyof_bl_def nextof_bl_def deref_Some)
  show ?thesis
  proof (cases "kf (heap_bl s) b < lo")
    case True
    then have "b \<noteq> ta" using c(4) lo by auto
    then obtain nx where nx: "nx < length (heap_bl s)" "nf (heap_bl s) b = Some nx"
      using i(14) p(5) by blast
    have kl: "KEY_MIN_bl s < lo" using p(6) True c(1,3) by auto
    let ?r = "r\<lparr>rq_pc := Walking cur (Some nx)\<rparr>"
    have "rq_hop tid lo hi s r = Inr (s, ?r)" using pc p(3) kb nx True by (simp add: rq_hop_def Let_def del: fld_in)
    moreover have "phase_ok base tid lo hi s ?r d (rq_pc ?r)"
      using p nx(1) kl True by (simp add: walking_ok_def rq_from_bl_def del: fld_in)
    ultimately show ?thesis using wf pc by (intro hop_okI [of _ _ _ _ _ s ?r]) (auto simp: reading_def)
  next
    case False
    let ?r = "r\<lparr>rq_pc := Walked pred\<rparr>"
    have "rq_hop tid lo hi s r = Inr (s, ?r)" using pc p(3) kb False by (simp add: rq_hop_def Let_def del: fld_in)
    then show ?thesis using p wf pc by (intro hop_okI [of _ _ _ _ _ s ?r]) (auto simp: reading_def)
  qed
qed

lemma hop_walked:
  assumes wf: "wf_bl base s" and k: "lo \<le> KEY_MAX_bl s" "hi < KEY_MAX_bl s" and pc: "rq_pc r = Walked pred"
    and ph: "phase_ok base tid lo hi s r d (rq_pc r)"
  shows "hop_ok base tid lo hi s r (contents_bl s)"
proof -
  let ?t = "curr_timestamp (rq_bl s)"
  obtain p where p: "rq_out r = []" "pred = Some p" "rq_from_bl s lo p" using ph pc by auto
  let ?lt = "(rq_lin_time (rq_bl s))(tid := ?t)" let ?fl = "(rq_flag (rq_bl s))(tid := False)"
  let ?s = "s\<lparr>rq_bl := (rq_bl s)\<lparr>rq_lin_time := ?lt, rq_flag := ?fl\<rparr>\<rparr>"
  let ?r = "r\<lparr>rq_pc := Following (Start_at pred), rq_t := ?t\<rparr>"
  have run: "rq_hop tid lo hi s r = Inr (?s, ?r)"
    using pc wf_bl_clock(1) [OF wf] by (simp add: rq_hop_def Let_def start_traversal_def announce_def)
  have wf': "wf_bl base ?s" using rq_unchanged [OF wf] by (simp add: steps_to_bl_def)
  have "reading_v (view_bl s) lo hi (cnow (view_bl s)) (contents_v (view_bl s)) (Start_at (Some p), [])"
    by (rule reading_start_v [OF view_wf [OF wf]]) (use k p(3) view_from [OF wf] in simp_all)
  then have "phase_ok base tid lo hi ?s ?r (contents_bl s) (rq_pc ?r)"
    using p(1,2) wf_bl_clock(4) [OF wf] by (simp add: view_contents)
  then show ?thesis using run wf' pc by (intro hop_okI [of _ _ _ _ _ ?s ?r]) (simp_all add: reading_def)
qed

lemma hop_following:
  assumes wf: "wf_bl base s" and k: "lo \<le> KEY_MAX_bl s" "hi < KEY_MAX_bl s" and pc: "rq_pc r = Following p"
    and ph: "phase_ok base tid lo hi s r d (rq_pc r)"
  shows "hop_ok base tid lo hi s r d"
proof -
  let ?h = "heap_bl s"
  have t: "base \<le> rq_t r" "rq_lin_time (rq_bl s) tid = rq_t r" "reading_v (view_bl s) lo hi (rq_t r) d (p, rq_out r)"
    using ph pc by simp_all
  show ?thesis
  proof (cases "\<exists>cur. p = Past_at cur")
    case True
    then obtain cur where cur: "p = Past_at cur" by blast
    let ?s = "s\<lparr>rq_bl := (rq_bl s)\<lparr>rq_lin_time := (rq_lin_time (rq_bl s))(tid := BUNDLE_NULL_TIMESTAMP),
      rq_flag := rq_flag (rq_bl s)\<rparr>\<rparr>"
    have e: "s\<lparr>rq_bl := end_traversal (rq_bl s) tid\<rparr> = ?s" using wf_bl_clock(1) [OF wf] by (simp add: end_traversal_def)
    have past: "cur \<noteq> None" "rq_out r = range_kv lo hi d" using reading_past_v t(3) cur by blast+
    have "rq_hop tid lo hi s r = Inr (enterQuiescentState_bl ?s tid, r\<lparr>rq_pc := Finished\<rparr>)"
      using pc cur past(1) e by (simp add: rq_hop_def)
    moreover have "wf_bl base ?s" using rq_unchanged [OF wf] unfolding steps_to_bl_def by blast
    ultimately show ?thesis using past(2)
      by (intro hop_okI [of _ _ _ _ _ "enterQuiescentState_bl ?s tid" "r\<lparr>rq_pc := Finished\<rparr>"]) simp_all
  next
    case False
    obtain c' where c': "reader_hop (keyof_bl ?h) (getKeys_bl ?h) (bundleof_bl ?h) (rq_t r) lo hi (p, rq_out r) = Inr c'"
      "reading_v (view_bl s) lo hi (rq_t r) d c'"
      "reader_rank (view_bl s) (rq_t r) (fst c') < reader_rank (view_bl s) (rq_t r) p"
      using blr.reading_hop [OF view_wf [OF wf] _ _ t(3)] k False by auto
    let ?r = "r\<lparr>rq_pc := Following (fst c'), rq_out := snd c'\<rparr>"
    have "rq_hop tid lo hi s r = Inr (s, ?r)"
      using pc c'(1) False by (cases c'; cases p) (simp_all add: rq_hop_def)
    then show ?thesis
      by (rule hop_okI) (use wf t pc c'(2,3) in \<open>simp_all add: reading_def rq_rank_def\<close>)
  qed
qed

text \<open>Every hop of the query is possible, and keeps the invariant.\<close>

definition ghost_after :: "rq_thread \<Rightarrow> bl_list \<Rightarrow> dict \<Rightarrow> dict" where
  "ghost_after r s d = (case rq_pc r of Walked p \<Rightarrow> contents_bl s | _ \<Rightarrow> d)"

lemma rq_inv_hop:
  assumes "rq_inv tid lo hi (s, r, d)"
  shows "\<exists>s' r'. rq_hop tid lo hi s r = Inr (s', r') \<and> rq_inv tid lo hi (s', r', ghost_after r s d)
    \<and> (reading r \<longrightarrow> rq_pc r' = Finished \<or> reading r' \<and> rq_rank s' r' < rq_rank s r)"
proof -
  obtain base where wf: "wf_bl base s" and tid: "tid < num_processes (rq_bl s)" and k: "lo \<le> KEY_MAX_bl s" "hi < KEY_MAX_bl s"
    and ph: "phase_ok base tid lo hi s r d (rq_pc r)"
    using assms by (auto simp: rq_inv_def)
  have "hop_ok base tid lo hi s r (ghost_after r s d)"
  proof (cases "rq_pc r")
    case At_Top
    then show ?thesis using hop_at_top [OF wf At_Top ph] by (simp add: ghost_after_def)
  next
    case (Walking pred cur)
    then show ?thesis using hop_walking [OF wf k(1) Walking ph] by (simp add: ghost_after_def)
  next
    case (Walked pred)
    then show ?thesis using hop_walked [OF wf k Walked ph] by (simp add: ghost_after_def)
  next
    case (Following p)
    then show ?thesis using hop_following [OF wf k Following ph] by (simp add: ghost_after_def)
  next
    case Finished
    then show ?thesis using wf ph by (intro hop_okI [of _ _ _ _ _ s r]) (auto simp: rq_hop_def ghost_after_def reading_def)
  qed
  then show ?thesis using tid k unfolding hop_ok_def by (auto simp: rq_inv_def)
qed

lemma rq_inv_step:
  assumes "sys_step tid lo hi c c'" "rq_inv tid lo hi c"
  shows "rq_inv tid lo hi c'"
  using assms
proof (cases rule: sys_step.cases)
  case (sys_env s s' r d)
  then show ?thesis using rq_inv_env(1) assms(2) by simp
next
  case (sys_hop s r s' r' d)
  then show ?thesis using rq_inv_hop [of tid lo hi s r d] assms(2) by (auto simp: ghost_after_def)
qed

lemma rq_inv_reach:
  assumes "wf_bl base s0" "tid < num_processes (rq_bl s0)" "lo \<le> KEY_MAX_bl s0" "hi < KEY_MAX_bl s0"
    and "sys_reach tid lo hi s0 c"
  shows "rq_inv tid lo hi c"
  using assms(5) unfolding sys_reach_def
proof (induction rule: rtranclp_induct)
  case base
  show ?case using assms(1-4) by (auto simp: rq_inv_def rq_begin_def)
next
  case (step c c')
  then show ?case using rq_inv_step by blast
qed

section \<open>An interleaved run\<close>

text \<open>
  On the example list, a query of the range 0 to 50 takes its timestamp while key 7 is
  bound; another thread then deletes the key; the query still returns it.
\<close>

lemma hop_reach:
  assumes "sys_reach tid lo hi s0 (s, r, d)" "rq_hop tid lo hi s r = Inr (s', r')"
  shows "sys_reach tid lo hi s0 (s', r', ghost_after r s d)"
  using assms sys_hop [of tid lo hi s r s' r' d] unfolding sys_reach_def ghost_after_def
  by (meson rtranclp.rtrancl_into_rtrancl)

lemma env_reach:
  "sys_reach tid lo hi s0 (s, r, d) \<Longrightarrow> env_step tid s s' \<Longrightarrow> sys_reach tid lo hi s0 (s', r, d)"
  using sys_env [of tid s s' lo hi r d] unfolding sys_reach_def by (meson rtranclp.rtrancl_into_rtrancl)

text \<open>A reading query that is left alone reaches its end.\<close>

lemma reading_finishes:
  assumes "rq_inv tid lo hi (s, r, d)" "reading r" "sys_reach tid lo hi s0 (s, r, d)"
  shows "\<exists>s' r'. sys_reach tid lo hi s0 (s', r', d) \<and> rq_pc r' = Finished"
  using assms
proof (induction "rq_rank s r" arbitrary: s r rule: less_induct)
  case less
  obtain s' r' where h: "rq_hop tid lo hi s r = Inr (s', r')" "rq_inv tid lo hi (s', r', ghost_after r s d)"
    "rq_pc r' = Finished \<or> reading r' \<and> rq_rank s' r' < rq_rank s r"
    using rq_inv_hop [OF less.prems(1)] less.prems(2) by blast
  have d: "ghost_after r s d = d" using less.prems(2) by (auto simp: ghost_after_def reading_def)
  have r: "sys_reach tid lo hi s0 (s', r', d)" using hop_reach [OF less.prems(3) h(1)] d by simp
  show ?case using h(3) less.hyps [of s' r'] h(2) r d by auto
qed

lemma example_reading:
  "\<exists>s r. sys_reach 0 0 50 example_bl (s, r, [(7, 70)]) \<and> rq_inv 0 0 50 (s, r, [(7, 70)])
     \<and> rq_pc r = Following (Start_at (Some 1)) \<and> rq_t r = 3 \<and> heap_bl s = heap_bl example_bl \<and> head_bl s = Some 1
     \<and> curr_timestamp (rq_bl s) = 3 \<and> KEY_MAX_bl s = 100 \<and> \<not> cleanup_update (rq_bl s)"
proof -
  let ?s = "leaveQuiescentState_bl example_bl 0"
  let ?r1 = "rq_begin\<lparr>rq_pc := Walking (Some 1) (Some 1)\<rparr>" let ?r2 = "rq_begin\<lparr>rq_pc := Walking (Some 1) (Some 2)\<rparr>"
  let ?r3 = "rq_begin\<lparr>rq_pc := Walked (Some 1)\<rparr>"
  have h: "heap_bl ?s = heap_bl example_bl" "head_bl example_bl = Some 1" by (simp_all add: example_bl_sel)
  have r0: "sys_reach 0 0 50 example_bl (example_bl, rq_begin, [])" by (simp add: sys_reach_def)
  have "rq_hop 0 0 50 example_bl rq_begin = Inr (?s, ?r1)" by (simp add: rq_hop_def rq_begin_def h(2))
  from hop_reach [OF r0 this] have r1: "sys_reach 0 0 50 example_bl (?s, ?r1, [])"
    by (simp add: ghost_after_def rq_begin_def)
  have "rq_hop 0 0 50 ?s ?r1 = Inr (?s, ?r2)"
    unfolding rq_hop_def h(1) by (simp add: rq_begin_def example_bl_def keyof_bl_def nextof_bl_def deref_def)
  from hop_reach [OF r1 this] have r2: "sys_reach 0 0 50 example_bl (?s, ?r2, [])"
    by (simp add: ghost_after_def rq_begin_def)
  have "rq_hop 0 0 50 ?s ?r2 = Inr (?s, ?r3)"
    unfolding rq_hop_def h(1) by (simp add: rq_begin_def example_bl_def keyof_bl_def nextof_bl_def deref_def)
  from hop_reach [OF r2 this] have r3: "sys_reach 0 0 50 example_bl (?s, ?r3, [])"
    by (simp add: ghost_after_def rq_begin_def)
  have "rq_inv 0 0 50 (?s, ?r3, [])"
    by (rule rq_inv_reach [OF example_bl_wf _ _ _ r3]) (simp_all add: example_bl_sel)
  then obtain s4 r4 where h4: "rq_hop 0 0 50 ?s ?r3 = Inr (s4, r4)" "rq_inv 0 0 50 (s4, r4, [(7, 70)])"
    using rq_inv_hop [of 0 0 50 ?s ?r3 "[]"] by (auto simp: ghost_after_def example_bl_contents)
  have s4: "heap_bl s4 = heap_bl example_bl" "head_bl s4 = Some 1" "curr_timestamp (rq_bl s4) = 3" "KEY_MAX_bl s4 = 100"
    "rq_pc r4 = Following (Start_at (Some 1))" "rq_t r4 = 3" "\<not> cleanup_update (rq_bl s4)"
    using h4(1) by (auto simp: rq_hop_def start_traversal_def announce_def example_bl_sel rq_begin_def Let_def)
  have r4: "sys_reach 0 0 50 example_bl (s4, r4, [(7, 70)])"
    using hop_reach [OF r3 h4(1)] by (simp add: ghost_after_def example_bl_contents)
  show ?thesis using r4 h4(2) s4 by blast
qed

lemma example_run:
  "\<exists>s r. sys_reach 0 0 50 example_bl (s, r, [(7, 70)]) \<and> reading r \<and> contents_bl s = []"
proof -
  obtain s4 r4 where r4: "sys_reach 0 0 50 example_bl (s4, r4, [(7, 70)])" and inv: "rq_inv 0 0 50 (s4, r4, [(7, 70)])"
    and pc: "rq_pc r4 = Following (Start_at (Some 1))"
    and s4: "heap_bl s4 = heap_bl example_bl" "head_bl s4 = Some 1" "curr_timestamp (rq_bl s4) = 3" "KEY_MAX_bl s4 = 100"
    using example_reading by blast
  obtain base where wf: "wf_bl base s4" using inv by (auto simp: rq_inv_def)
  have f: "found_bl s4 7 1 2" "kf (heap_bl s4) 2 = 7" "linked_now_bl s4 1 2"
    using example_bl_search s4(1) by (simp_all add: found_bl_def linked_now_bl_def del: fld_in)
  obtain s5 x where e: "erase_locked_bl s4 1 (Some 1) (Some 2) 7 = Inr (s5, x)"
    "case x of None \<Rightarrow> \<not> linked_now_bl s4 1 2 | Some v \<Rightarrow> contents_bl s5 = del_kv 7 (contents_bl s4)"
    using erase_locked_step [OF wf _ f(1,2), of 1] s4(3,4) by (force simp: timestamp_defs steps_to_bl_def split: option.splits)
  have "env_step 0 s4 s5"
    using s4(3,4) by (intro env_erase [OF _ _ f(1,2) _ e(1)]) (simp_all add: timestamp_defs)
  from env_reach [OF r4 this] have r5: "sys_reach 0 0 50 example_bl (s5, r4, [(7, 70)])" .
  have "contents_bl s4 = [(7, 70)]"
    using s4(1,2) example_bl_contents(1) by (simp add: contents_bl_def pairs_bl_def example_bl_sel del: fld_in)
  then have "contents_bl s5 = []" using e(2) f(3) by (cases x) (auto simp: del_kv_def)
  then show ?thesis using r5 pc by (auto simp: reading_def)
qed

section \<open>Linearizability and progress\<close>

lemma example_bl_ranges:
  "0 < num_processes (rq_bl example_bl)" "0 \<le> KEY_MAX_bl example_bl" "50 < KEY_MAX_bl example_bl"
  by (simp_all add: example_bl_sel)

text \<open>
  C1: A range query interleaved, hop by hop, with any number of inserts,
  deletes, cleaner passes and other queries is linearizable: when it finishes, it has put
  out exactly the pairs in its range of the dictionary as it was at the single moment in
  which the query took its timestamp.
\<close>

theorem rq_linearizable:
  assumes "wf_bl base s0" "tid < num_processes (rq_bl s0)" "lo \<le> KEY_MAX_bl s0" "hi < KEY_MAX_bl s0"
    and "sys_reach tid lo hi s0 (s, r, d)" "rq_pc r = Finished"
  shows "rq_out r = range_kv lo hi d"
  using rq_inv_reach [OF assms(1-5)] assms(6) by (auto simp: rq_inv_def)

theorem rq_linearizable_witness:
  "\<exists>s r. rq_pc r = Finished \<and> rq_out r = [(7, 70)] \<and> sys_reach 0 0 50 example_bl (s, r, [(7, 70)])"
proof -
  obtain s r where "sys_reach 0 0 50 example_bl (s, r, [(7, 70)])" "reading r"
    using example_run by blast
  then obtain s' r' where r: "sys_reach 0 0 50 example_bl (s', r', [(7, 70)])" "rq_pc r' = Finished"
    using reading_finishes rq_inv_reach [OF example_bl_wf] by (metis example_bl_ranges)
  have "rq_out r' = range_kv 0 50 [(7, 70)]"
    using rq_linearizable [OF example_bl_wf _ _ _ r] by (simp add: example_bl_sel)
  then show ?thesis using r by (auto simp: range_kv_def)
qed

section \<open>Updates in the middle\<close>

text \<open>
  A heap \<open>h'\<close> that the query may find where the list of the system has \<open>h\<close>. Updates whose
  locked section has not come yet in the system may have prepared entries, and updates that
  are done in the system may still have to finalize theirs; \<open>next\<close> pointers, marks and locks
  are free, and there may be new nodes.
\<close>

definition mid_updates_bl :: "bl_node list \<Rightarrow> bl_node list \<Rightarrow> bool" where
  "mid_updates_bl h h' \<longleftrightarrow> length h \<le> length h'
     \<and> (\<forall>a<length h. kf h' a = kf h a \<and> vf h' a = vf h a \<and> mid_update (bf h' a) (bf h a))"

lemma frame_same:
  assumes "frame_bl h' = frame_bl h"
  shows "length h' = length h" "kf h' = kf h" "vf h' = vf h"
  using arg_cong [OF assms, of length] arg_cong [OF assms, of kf] arg_cong [OF assms, of vf]
  by (simp_all add: frame_fields del: fld_in)

lemma mid_updates_peek:
  assumes "frame_bl h' = frame_bl h" "\<forall>r b. peek_bl h r = Some b \<longrightarrow> (\<exists>b'. peek_bl h' r = Some b' \<and> mid_update b' b)"
  shows "mid_updates_bl h h'"
proof -
  note f = frame_same [OF assms(1)]
  have "mid_update (bf h' a) (bf h a)" if "a < length h" for a
    using assms(2) that f(1) peek_bl_Some [of a h] peek_bl_Some [of a h'] by (metis option.inject)
  then show ?thesis using f by (simp add: mid_updates_bl_def del: fld_in)
qed

text \<open>\<open>prepare_bundles\<close> leads into such a heap, and \<open>finalize_bundles\<close> leads out of one.\<close>

lemma prepare_mid_bl:
  assumes "\<not> cleanup_update q" "distinct (map fst bundles)" "\<forall>r\<in>fst ` set bundles. peek_bl h r \<noteq> None"
  obtains h' where "prepare_bundles q upd_bundle_bl bundles h = Inr h'" "mid_updates_bl h h'"
  using blb.prepare_bundles_mid [OF assms] mid_updates_peek by blast

lemma finalize_mid_bl:
  assumes "t \<noteq> BUNDLE_PENDING_TIMESTAMP" "distinct (map fst bundles)"
    and "\<forall>(r, p)\<in>set bundles. \<exists>b. B r = Some b \<and> peek_bl h' r = Some (prepare p b) \<and> newest_ts b < t"
  obtains h where "finalize_bundles upd_bundle_bl bundles t h' = Inr h" "mid_updates_bl h h'"
  using blb.finalize_bundles_mid [OF assms] mid_updates_peek by metis

lemma sees_mid_bl:
  assumes "mid_updates_bl (heap_bl s) h'"
  shows "sees_mid (view_bl s) (keyof_bl h') (getKeys_bl h') (bundleof_bl h')"
  unfolding sees_mid_def
proof (intro allI impI)
  fix a assume "a < clen (view_bl s)"
  then have a: "a < length h'" "kf h' a = kf (heap_bl s) a" "vf h' a = vf (heap_bl s) a" "mid_update (bf h' a) (bf (heap_bl s) a)"
    using assms by (simp_all add: mid_updates_bl_def del: fld_in)
  then have "keyof_bl h' (Some a) = Inr (kf h' a)" "getKeys_bl h' (Some a) = Inr [(kf h' a, vf h' a)]"
    "bundleof_bl h' (Some a) = Inr (bf h' a)"
    by (simp_all add: keyof_bl_def getKeys_bl_def bundleof_bl_def deref_Some)
  then show "keyof_bl h' (Some a) = Inr (ckey (view_bl s) a) \<and> getKeys_bl h' (Some a) = Inr [(ckey (view_bl s) a, cval (view_bl s) a)]
      \<and> (\<exists>b. bundleof_bl h' (Some a) = Inr b \<and> mid_update b (cbun (view_bl s) a))"
    using a by (simp del: fld_in)
qed

lemma rq_hop_following:
  "rq_pc r = Following p \<Longrightarrow> \<nexists>cur. p = Past_at cur \<Longrightarrow> rq_hop tid lo hi s r =
    obind (reader_hop (keyof_bl (heap_bl s)) (getKeys_bl (heap_bl s)) (bundleof_bl (heap_bl s)) (rq_t r) lo hi (p, rq_out r))
      (\<lambda>(p', out). Inr (s, r\<lparr>rq_pc := Following p', rq_out := out\<rparr>))"
  by (cases p) (simp_all add: rq_hop_def Let_def)

lemma rq_hop_mid:
  assumes inv: "rq_inv tid lo hi (s, r, d)" and pc: "rq_pc r = Following p" and mid: "mid_updates_bl (heap_bl s) h'"
  shows "(\<exists>s' r'. rq_hop tid lo hi s r = Inr (s', r') \<and> rq_hop tid lo hi (s\<lparr>heap_bl := h'\<rparr>) r = Inr (s'\<lparr>heap_bl := h'\<rparr>, r'))
    \<or> rq_hop tid lo hi (s\<lparr>heap_bl := h'\<rparr>) r = Inl Blocked
      \<and> (\<exists>a. reader_node p = Some a \<and> a < length (heap_bl s) \<and> waits_for (rq_t r) (bf h' a))"
proof (cases "\<exists>cur. p = Past_at cur")
  case True
  then show ?thesis using pc by (auto simp: rq_hop_def enterQuiescentState_bl_def)
next
  case False
  let ?h = "heap_bl s" let ?c = "(p, rq_out r)"
  obtain base where wf: "wf_bl base s" and k: "lo \<le> KEY_MAX_bl s" "hi < KEY_MAX_bl s"
    and rd: "reading_v (view_bl s) lo hi (rq_t r) d ?c"
    using inv pc by (auto simp: rq_inv_def)
  obtain c' where c': "reader_hop (keyof_bl ?h) (getKeys_bl ?h) (bundleof_bl ?h) (rq_t r) lo hi ?c = Inr c'"
    by (rule blr.reading_hop [OF view_wf [OF wf] _ _ rd]) (use k False in auto)
  let ?hop = "reader_hop (keyof_bl h') (getKeys_bl h') (bundleof_bl h') (rq_t r) lo hi ?c"
  have hops: "rq_hop tid lo hi s r = Inr (s, r\<lparr>rq_pc := Following (fst c'), rq_out := snd c'\<rparr>)"
    "rq_hop tid lo hi (s\<lparr>heap_bl := h'\<rparr>) r =
      obind ?hop (\<lambda>(p', out). Inr (s\<lparr>heap_bl := h'\<rparr>, r\<lparr>rq_pc := Following p', rq_out := out\<rparr>))"
    using c' by (simp_all add: rq_hop_following [OF pc False] case_prod_unfold)
  consider "?hop = Inr c'" | a b' where "?hop = Inl Blocked" "reader_node p = Some a" "a < length ?h"
      "bundleof_bl h' (Some a) = Inr b'" "waits_for (rq_t r) b'"
    using blr.reading_hop_mid [OF view_wf [OF wf] _ _ rd sees_mid_bl [OF mid]] k c' by auto
  then show ?thesis
  proof cases
    case 1
    then show ?thesis using hops by (cases c') auto
  next
    case 2
    then have "a < length h'" using mid by (simp add: mid_updates_bl_def)
    then have "b' = bf h' a" using 2(4) by (simp add: bundleof_bl_def deref_Some)
    then show ?thesis using 2 hops(2) by auto
  qed
qed

text \<open>
  C2: A range query never faults, and it waits for nothing but updates. On the list of any
  reachable state, where no update is inside its locked section, its next hop succeeds. On a heap in which updates are between
  \<open>prepare_bundles\<close> and \<open>finalize_bundles\<close>, a query that has its timestamp takes the very same
  hop, or it is blocked at the bundle it has to read, whose head is pending and whose other
  entries are all older than its timestamp. Each hop it takes brings it closer to the end of its
  snapshot (it never starts over), and no step of another thread sets it back.
\<close>

theorem rq_waits_for_updates:
  assumes "wf_bl base s0" "tid < num_processes (rq_bl s0)" "lo \<le> KEY_MAX_bl s0" "hi < KEY_MAX_bl s0"
    and "sys_reach tid lo hi s0 (s, r, d)" "mid_updates_bl (heap_bl s) h'"
  shows "(\<exists>s' r'. rq_hop tid lo hi s r = Inr (s', r')
      \<and> (reading r \<longrightarrow> rq_pc r' = Finished \<or> reading r' \<and> rq_rank s' r' < rq_rank s r)
      \<and> (\<forall>p. rq_pc r = Following p \<longrightarrow> rq_hop tid lo hi (s\<lparr>heap_bl := h'\<rparr>) r = Inr (s'\<lparr>heap_bl := h'\<rparr>, r')
          \<or> rq_hop tid lo hi (s\<lparr>heap_bl := h'\<rparr>) r = Inl Blocked
            \<and> (\<exists>a. reader_node p = Some a \<and> a < length (heap_bl s) \<and> waits_for (rq_t r) (bf h' a))))
    \<and> (\<forall>s'. reading r \<and> env_step tid s s' \<longrightarrow> rq_rank s' r = rq_rank s r)"
proof -
  have inv: "rq_inv tid lo hi (s, r, d)" by (rule rq_inv_reach [OF assms(1-5)])
  obtain s' r' where h: "rq_hop tid lo hi s r = Inr (s', r')"
    "reading r \<longrightarrow> rq_pc r' = Finished \<or> reading r' \<and> rq_rank s' r' < rq_rank s r"
    using rq_inv_hop [OF inv] by blast
  have "rq_hop tid lo hi (s\<lparr>heap_bl := h'\<rparr>) r = Inr (s'\<lparr>heap_bl := h'\<rparr>, r')
      \<or> rq_hop tid lo hi (s\<lparr>heap_bl := h'\<rparr>) r = Inl Blocked
        \<and> (\<exists>a. reader_node p = Some a \<and> a < length (heap_bl s) \<and> waits_for (rq_t r) (bf h' a))"
    if "rq_pc r = Following p" for p
    using rq_hop_mid [OF inv that assms(6)] h(1) by auto
  then show ?thesis using h rq_inv_env(2) [OF inv] by blast
qed

text \<open>
  In the example run: \<open>erase\<close> of key 7 has prepared the bundles of the head and of the node, when
  the query, which has timestamp 3, reads the bundle of the head; it does not have to wait.
\<close>

theorem rq_waits_for_updates_witness:
  "\<exists>s r h' s' r'. sys_reach 0 0 50 example_bl (s, r, [(7, 70)])
     \<and> prepare_bundles (rq_bl s) upd_bundle_bl [(Some 1, Some 0), (Some 2, Some 1)] (heap_bl s) = Inr h'
     \<and> rq_hop 0 0 50 (s\<lparr>heap_bl := h'\<rparr>) r = Inr (s', r') \<and> (rq_pc r' = Finished \<or> reading r')"
proof -
  obtain s r where r: "sys_reach 0 0 50 example_bl (s, r, [(7, 70)])"
    "rq_pc r = Following (Start_at (Some 1))" "rq_t r = 3" "heap_bl s = heap_bl example_bl" "\<not> cleanup_update (rq_bl s)"
    using example_reading by blast
  let ?bs = "[(Some 1, Some 0), (Some 2, Some 1)] :: (ptr \<times> ptr) list"
  have pk: "peek_bl (heap_bl s) (Some 1) = Some [BundleEntry 3 (Some 2), BundleEntry 2 (Some 0)]"
    "\<forall>p\<in>fst ` set ?bs. peek_bl (heap_bl s) p \<noteq> None"
    unfolding r(4) by (simp_all add: peek_bl_def example_bl_def)
  have ds: "distinct (map fst ?bs)" by simp
  obtain h' where h': "prepare_bundles (rq_bl s) upd_bundle_bl ?bs (heap_bl s) = Inr h'" "mid_updates_bl (heap_bl s) h'"
    by (rule prepare_mid_bl [OF r(5) ds pk(2)])
  have "peek_bl h' (Some 1) = Some (prepare (Some 0) [BundleEntry 3 (Some 2), BundleEntry 2 (Some 0)])"
    using blb.prepare_bundles_ok [OF r(5) ds pk(2)] h'(1) pk(1) by auto
  then have "bf h' 1 = prepare (Some 0) [BundleEntry 3 (Some 2), BundleEntry 2 (Some 0)]"
    by (auto simp: peek_bl_def fld_def split: if_splits)
  then have "\<not> waits_for (rq_t r) (bf h' 1)" using r(3) by (simp add: waits_for_def prepare_def)
  then obtain s' r' where "rq_hop 0 0 50 (s\<lparr>heap_bl := h'\<rparr>) r = Inr (s', r')" "rq_pc r' = Finished \<or> reading r'"
    using rq_waits_for_updates [OF example_bl_wf example_bl_ranges r(1) h'(2)] r(2)
    by (auto simp: reading_def simp del: One_nat_def)
  then show ?thesis using r(1) h'(1) by blast
qed

end
