(* ===== verification/Skip_Levels.thy ===== *)
theory Skip_Levels
  imports Bundle_View
begin

text \<open>
  The levels of a skip list over its bottom chain: the nodes of level \<open>l\<close> are those of the
  chain whose top level is at least \<open>l\<close>, in the order of the chain. Linking and unlinking
  a node on the levels up to its top keeps every level in this shape.
\<close>

definition on_level :: "(nat \<Rightarrow> nat) \<Rightarrow> nat \<Rightarrow> nat list \<Rightarrow> nat list" where
  "on_level tp l P = filter (\<lambda>a. l \<le> tp a) P"

definition levels_inv :: "nat \<Rightarrow> (nat \<Rightarrow> nat) \<Rightarrow> (nat \<Rightarrow> nat \<Rightarrow> ptr) \<Rightarrow> nat list \<Rightarrow> bool" where
  "levels_inv m tp nl P \<longleftrightarrow> (\<forall>l<m. linked (nl l) (on_level tp l P))"

text \<open>\<open>p\<close> and \<open>c\<close> are neighbours on a level, with the key between them.\<close>

definition around :: "(nat \<Rightarrow> int) \<Rightarrow> int \<Rightarrow> nat list \<Rightarrow> nat \<Rightarrow> nat \<Rightarrow> bool" where
  "around key k F p c \<longleftrightarrow> (\<exists>A B. F = A @ p # c # B \<and> key p < k \<and> k \<le> key c)"

lemma on_level_append: "on_level tp l (P @ Q) = on_level tp l P @ on_level tp l Q"
  by (simp add: on_level_def)

lemma on_level_sorted: "ksorted key P \<Longrightarrow> ksorted key (on_level tp l P)"
  by (simp add: on_level_def sorted_wrt_filter)

lemma on_level_set: "a \<in> set (on_level tp l P) \<longleftrightarrow> a \<in> set P \<and> l \<le> tp a"
  by (auto simp: on_level_def)

lemma on_level_hd:
  assumes "P \<noteq> []" "l \<le> tp (hd P)"
  shows "on_level tp l P \<noteq> []" "hd (on_level tp l P) = hd P"
  using assms by (cases P; simp add: on_level_def)+

lemma on_level_last:
  assumes "P \<noteq> []" "l \<le> tp (last P)"
  shows "last (on_level tp l P) = last P"
  using assms by (cases P rule: rev_cases) (auto simp: on_level_def)

text \<open>A node of a level that is not the last of the chain has a successor there.\<close>

lemma level_next:
  assumes "linked nl (on_level tp l P)" "p \<in> set P" "l \<le> tp p" "p \<noteq> last P" "l \<le> tp (last P)"
  obtains A c B where "on_level tp l P = A @ p # c # B" "nl p = Some c"
proof -
  have "P \<noteq> []" using assms(2) by auto
  obtain A rest where F: "on_level tp l P = A @ p # rest"
    using assms(2,3) by (metis on_level_set in_set_conv_decomp)
  have "rest \<noteq> []" using on_level_last [OF \<open>P \<noteq> []\<close>, of l tp] assms(4,5) F by auto
  then obtain c B where "rest = c # B" by (cases rest) auto
  then show thesis using that F assms(1) by (simp add: linked_mid)
qed

text \<open>Two sorted lists that split at the same key split at the same place.\<close>

lemma sorted_split_unique:
  fixes k :: int
  assumes "ksorted key (A @ B)" "A @ B = A' @ B'"
    and "\<forall>a\<in>set A. key a < k" "\<forall>b\<in>set B. k \<le> key b"
    and "\<forall>a\<in>set A'. key a < k" "\<forall>b\<in>set B'. k \<le> key b"
  shows "A = A' \<and> B = B'"
proof -
  have eq: "filter (\<lambda>a. key a < k) (X @ Y) = X" if "\<forall>a\<in>set X. key a < k" "\<forall>b\<in>set Y. k \<le> key b" for X Y
    using that by (induction X) (auto simp: filter_empty_conv)
  have "A = A'" using eq [OF assms(3,4)] eq [OF assms(5,6)] assms(2) by simp
  then show ?thesis using assms(2) by simp
qed

lemma split_bounds:
  assumes "ksorted key (A @ p # c # B)" "key p < k" "k \<le> key c"
  shows "\<forall>a\<in>set (A @ [p]). key a < k" "\<forall>b\<in>set (c # B). k \<le> key b"
  using assms by (fastforce simp: sorted_wrt_append)+

text \<open>The neighbours of a key on a level are those of the chain with the shorter nodes left out.\<close>

lemma level_split:
  assumes srt: "ksorted key (us @ p # c # vs)" and k: "key p < k" "k \<le> key c"
    and F: "on_level tp l (us @ p # c # vs) = A @ q # d # B" "key q < k" "k \<le> key d"
  shows "on_level tp l (us @ [p]) = A @ [q]" "on_level tp l (c # vs) = d # B"
proof -
  let ?X = "on_level tp l (us @ [p])" and ?Y = "on_level tp l (c # vs)"
  have e: "?X @ ?Y = (A @ [q]) @ d # B" using F(1) on_level_append [of tp l "us @ [p]" "c # vs"] by simp
  have s: "ksorted key (?X @ ?Y)"
    using on_level_sorted [OF srt, of tp l] on_level_append [of tp l "us @ [p]" "c # vs"] by simp
  have "\<forall>a\<in>set ?X. key a < k" "\<forall>b\<in>set ?Y. k \<le> key b"
    using split_bounds [OF srt k] by (auto simp: on_level_set)
  moreover have "ksorted key (A @ q # d # B)" using s e by simp
  from split_bounds [OF this F(2,3)] have "\<forall>a\<in>set (A @ [q]). key a < k" "\<forall>b\<in>set (d # B). k \<le> key b" by auto
  ultimately show "?X = A @ [q]" "?Y = d # B"
    using sorted_split_unique [OF s e] by auto
qed

text \<open>Linking a new node on the levels up to \<open>t\<close>.\<close>

lemma levels_insert:
  assumes inv: "levels_inv m tp nl (us @ p # c # vs)" and srt: "ksorted key (us @ p # c # vs)"
    and k: "key p < k" "k < key c" and n: "n \<notin> set (us @ p # c # vs)"
    and pr: "\<And>l. l \<le> t \<Longrightarrow> around key k (on_level tp l (us @ p # c # vs)) (pr l) (sc l)"
    and nl': "\<And>l. l < m \<Longrightarrow> l \<le> t \<Longrightarrow> nl' l = (nl l)(pr l := Some n, n := Some (sc l))"
      "\<And>l a. l < m \<Longrightarrow> t < l \<Longrightarrow> a \<noteq> n \<Longrightarrow> nl' l a = nl l a"
  shows "levels_inv m (tp(n := t)) nl' (us @ p # n # c # vs)"
  unfolding levels_inv_def
proof (intro allI impI)
  fix l assume l: "l < m"
  let ?P = "us @ p # c # vs"
  have same: "on_level (tp(n := t)) l Q = on_level tp l Q" if "set Q \<subseteq> set ?P" for Q
    using that n unfolding on_level_def by (intro filter_cong) auto
  have parts: "on_level (tp(n := t)) l (us @ p # n # c # vs) =
      on_level tp l (us @ [p]) @ (if l \<le> t then [n] else []) @ on_level tp l (c # vs)"
  proof -
    have "on_level (tp(n := t)) l (us @ p # n # c # vs) =
      on_level (tp(n := t)) l (us @ [p]) @ on_level (tp(n := t)) l [n] @ on_level (tp(n := t)) l (c # vs)"
      by (simp add: on_level_def)
    moreover have "on_level (tp(n := t)) l [n] = (if l \<le> t then [n] else [])" by (simp add: on_level_def)
    moreover have "on_level (tp(n := t)) l (us @ [p]) = on_level tp l (us @ [p])" by (rule same) auto
    moreover have "on_level (tp(n := t)) l (c # vs) = on_level tp l (c # vs)" by (rule same) auto
    ultimately show ?thesis by (simp only:)
  qed
  have lk: "linked (nl l) (on_level tp l (us @ [p]) @ on_level tp l (c # vs))"
    using inv l unfolding levels_inv_def on_level_append [symmetric] by simp
  have nin: "n \<notin> set (on_level tp l (us @ [p]) @ on_level tp l (c # vs))"
    using n by (auto simp: on_level_set)
  show "linked (nl' l) (on_level (tp(n := t)) l (us @ p # n # c # vs))"
  proof (cases "l \<le> t")
    case True
    obtain A B where F: "on_level tp l ?P = A @ pr l # sc l # B" "key (pr l) < k" "k \<le> key (sc l)"
      using pr [OF True] by (auto simp: around_def)
    note sp = level_split [OF srt k(1) less_imp_le [OF k(2)] F]
    have d: "distinct (A @ pr l # sc l # B)"
      using ksorted_distinct [OF on_level_sorted [OF srt, of tp l]] F(1) by simp
    have lk': "linked (nl l) (A @ [pr l])" "linked (nl l) (sc l # B)"
      using lk unfolding sp by (simp_all add: linked_mid)
    have na: "n \<notin> set (A @ pr l # sc l # B)" using nin unfolding sp by simp
    have "linked (nl' l) (A @ [pr l])"
      using lk'(1) d na nl'(1) [OF l True] by (subst linked_cong [where g = "nl l"]) auto
    moreover have "linked (nl' l) (sc l # B)"
      using lk'(2) d na nl'(1) [OF l True] by (subst linked_cong_set [where g = "nl l"]) auto
    ultimately have "linked (nl' l) ((A @ [pr l]) @ n # sc l # B)"
      using na nl'(1) [OF l True] by (auto simp: linked_mid)
    then show ?thesis using parts True unfolding sp by simp
  next
    case False
    have "nl' l x = nl l x" if "x \<in> set (on_level tp l (us @ [p]) @ on_level tp l (c # vs))" for x
    proof (rule nl'(2) [OF l])
      show "t < l" using False by simp
      show "x \<noteq> n" using that nin by metis
    qed
    then have "linked (nl' l) (on_level tp l (us @ [p]) @ on_level tp l (c # vs))"
      using lk linked_cong_set [of _ "nl' l" "nl l"] by blast
    then show ?thesis using parts False by simp
  qed
qed

text \<open>Unlinking the node \<open>c\<close> on the levels up to its top.\<close>

lemma levels_erase:
  assumes inv: "levels_inv m tp nl (us @ p # c # d # vs)" and srt: "ksorted key (us @ p # c # d # vs)"
    and pr: "\<And>l. l \<le> tp c \<Longrightarrow> l < m \<Longrightarrow> pr l \<in> set (us @ p # c # d # vs) \<and> l \<le> tp (pr l)
      \<and> nl l (pr l) = Some c \<and> key (pr l) < key c"
    and ta: "\<And>l. l < m \<Longrightarrow> l \<le> tp (last (d # vs))"
    and nl': "\<And>l. l < m \<Longrightarrow> l \<le> tp c \<Longrightarrow> nl' l = (nl l)(pr l := nl l c)"
      "\<And>l. l < m \<Longrightarrow> tp c < l \<Longrightarrow> nl' l = nl l"
  shows "levels_inv m tp nl' (us @ p # d # vs)"
  unfolding levels_inv_def
proof (intro allI impI)
  fix l assume l: "l < m"
  let ?P = "us @ p # c # d # vs"
  let ?X = "on_level tp l (us @ [p])" and ?Y = "on_level tp l (d # vs)"
  have parts: "on_level tp l ?P = ?X @ (if l \<le> tp c then [c] else []) @ ?Y"
    "on_level tp l (us @ p # d # vs) = ?X @ ?Y"
    by (auto simp: on_level_def)
  have lk: "linked (nl l) (on_level tp l ?P)" using inv l by (simp add: levels_inv_def)
  have dist: "distinct (on_level tp l ?P)" by (rule ksorted_distinct [OF on_level_sorted [OF srt]])
  show "linked (nl' l) (on_level tp l (us @ p # d # vs))"
  proof (cases "l \<le> tp c")
    case True
    note q = pr [OF True l]
    have "last (d # vs) \<in> set (d # vs)" by (rule last_in_set) simp
    then have "key c < key (last (d # vs))" using srt by (auto simp: sorted_wrt_append)
    then have ne: "pr l \<noteq> last ?P" using q by auto
    obtain A x B where F: "on_level tp l ?P = A @ pr l # x # B" "nl l (pr l) = Some x"
      using level_next [OF lk _ _ ne] q ta [OF l] by auto
    have xc: "x = c" using F(2) q by simp
    have "(A @ [pr l]) @ c # B = ?X @ c # ?Y" using F(1) xc parts(1) True by simp
    moreover have "c \<notin> set (A @ [pr l])" "c \<notin> set B" using dist F(1) xc by auto
    ultimately have "A @ [pr l] = ?X \<and> B = ?Y"
      using append_Cons_eq_iff [of c "A @ [pr l]" B ?X ?Y] by blast
    then have e: "?X = A @ [pr l]" "?Y = B" by simp_all
    have lk': "linked (nl l) (A @ [pr l])" "linked (nl l) (c # B)"
      using lk F(1) xc by (simp_all add: linked_mid)
    have d: "distinct (A @ pr l # c # B)" using dist F(1) xc by simp
    have "linked (nl' l) (A @ [pr l])"
      using lk'(1) d nl'(1) [OF l True] by (subst linked_cong [where g = "nl l"]) auto
    moreover have "linked (nl' l) (pr l # B)"
    proof (cases B)
      case (Cons b C)
      have "linked (nl' l) B"
        using lk'(2) d nl'(1) [OF l True] Cons by (subst linked_cong_set [where g = "nl l"]) auto
      moreover have "nl' l (pr l) = Some b" using lk'(2) nl'(1) [OF l True] Cons by simp
      ultimately show ?thesis using Cons by simp
    qed simp
    ultimately have "linked (nl' l) (A @ pr l # B)" using linked_split by blast
    then show ?thesis using parts(2) e by simp
  next
    case False
    then show ?thesis using lk nl'(2) [OF l] parts by simp
  qed
qed

end
