(* ===== verification/Bundled_Skiplist.thy ===== *)
theory Bundled_Skiplist
  imports Skip_Levels "HOL-Library.Word"
begin

text \<open>
  The bundled skip list of \<open>bundle_skiplist_lock/bundle_skiplist_impl.h\<close>: optimistic
  search on twenty levels, node locks from the bottom level up, validation, and bundles on
  the bottom level. As for the list, the section under the locks is a function of its own
  that takes the result of a search. \<open>p_next\<close> of a new node is an array of null
  pointers (its contents are indeterminate in the code until they are assigned).
\<close>

unbundle bit_operations_syntax

section \<open>Random levels\<close>

text \<open>\<open>Random\<close> of \<open>common/random.h\<close>: a 32-bit xorshift generator.\<close>

type_synonym seed_t = "32 word"

definition xorshift :: "seed_t \<Rightarrow> seed_t" where
  "xorshift seed =
     (let s1 = seed XOR push_bit 6 seed;
          s2 = s1 XOR drop_bit 21 s1
      in s2 XOR push_bit 7 s2)"

definition nextNatural :: "seed_t \<Rightarrow> 32 word \<times> seed_t" where
  "nextNatural seed = (let s = xorshift seed in (s, s))"

text \<open>\<open>nextNatural(n)\<close>: the remainder is unsigned, then read as an \<open>int\<close> and made positive.\<close>

definition nextNatural_below :: "seed_t \<Rightarrow> 32 word \<Rightarrow> int \<times> seed_t" where
  "nextNatural_below seed n =
     (let s = xorshift seed; retval = sint (s mod n)
      in (if retval < 0 then - retval else retval, s))"

definition SKIPLIST_MAX_LEVEL :: nat where
  "SKIPLIST_MAX_LEVEL = 20"

text \<open>Count the zero bits on the right of a random word.\<close>

definition zero_bits :: "32 word \<Rightarrow> nat" where
  "zero_bits v0 =
     (let v = v0 AND (- v0); c = 32;
          c = (if v \<noteq> 0 then c - 1 else c);
          c = (if v AND 0x0000FFFF \<noteq> 0 then c - 16 else c);
          c = (if v AND 0x00FF00FF \<noteq> 0 then c - 8 else c);
          c = (if v AND 0x0F0F0F0F \<noteq> 0 then c - 4 else c);
          c = (if v AND 0x33333333 \<noteq> 0 then c - 2 else c)
      in if v AND 0x55555555 \<noteq> 0 then c - 1 else c)"

definition sl_randomLevel :: "seed_t \<Rightarrow> nat \<times> seed_t" where
  "sl_randomLevel seed =
     (let (v, seed') = nextNatural seed; c = zero_bits v
      in (if c < SKIPLIST_MAX_LEVEL then c else SKIPLIST_MAX_LEVEL - 1, seed'))"

section \<open>State\<close>

record sk_node =
  rqbundle_sk :: "ptr bundle_t"
  lock_sk :: int
  key_sk :: int
  val_sk :: int
  topLevel_sk :: nat
  marked_sk :: int
  fullyLinked_sk :: int
  p_next_sk :: "ptr list"

record sk_list =
  heap_sk :: "sk_node list"
  p_head_sk :: ptr
  p_tail_sk :: ptr
  rq_sk :: rqp
  rngs_sk :: "nat \<Rightarrow> seed_t"
  retired_sk :: "ptr list"
  quiescent_sk :: "nat \<Rightarrow> bool"
  init_sk :: "nat \<Rightarrow> bool"
  KEY_MIN_sk :: int
  KEY_MAX_sk :: int
  NO_VALUE_sk :: int

definition leaveQuiescentState_sk :: "sk_list \<Rightarrow> nat \<Rightarrow> sk_list" where
  "leaveQuiescentState_sk s tid = s\<lparr>quiescent_sk := (quiescent_sk s)(tid := False)\<rparr>"

definition enterQuiescentState_sk :: "sk_list \<Rightarrow> nat \<Rightarrow> sk_list" where
  "enterQuiescentState_sk s tid = s\<lparr>quiescent_sk := (quiescent_sk s)(tid := True)\<rparr>"

definition initThread_sk :: "sk_list \<Rightarrow> nat \<Rightarrow> sk_list" where
  "initThread_sk s tid =
     (if init_sk s tid then s
      else s\<lparr>init_sk := (init_sk s)(tid := \<not> init_sk s tid),
             rq_sk := rq_initThread (rq_sk s) tid\<rparr>)"

definition deinitThread_sk :: "sk_list \<Rightarrow> nat \<Rightarrow> sk_list" where
  "deinitThread_sk s tid =
     (if \<not> init_sk s tid then s
      else s\<lparr>init_sk := (init_sk s)(tid := \<not> init_sk s tid),
             rq_sk := rq_deinitThread (rq_sk s) tid\<rparr>)"

section \<open>Access to nodes\<close>

definition keyof_sk :: "sk_node list \<Rightarrow> ptr \<Rightarrow> int res" where
  "keyof_sk h p = obind (deref h p) (\<lambda>n. Inr (key_sk n))"

definition next_sk :: "sk_node list \<Rightarrow> nat \<Rightarrow> ptr \<Rightarrow> ptr res" where
  "next_sk h level p = obind (deref h p) (\<lambda>n. aref (p_next_sk n) level)"

definition set_next_sk :: "nat \<Rightarrow> ptr \<Rightarrow> ptr \<Rightarrow> sk_node list \<Rightarrow> sk_node list res" where
  "set_next_sk level p q h = obind (deref h p) (\<lambda>n. obind (aset (p_next_sk n) level q)
     (\<lambda>a. update_at h p (\<lambda>n. n\<lparr>p_next_sk := a\<rparr>)))"

definition bundleof_sk :: "sk_node list \<Rightarrow> ptr \<Rightarrow> ptr bundle_t res" where
  "bundleof_sk h p = obind (deref h p) (\<lambda>n. Inr (rqbundle_sk n))"

definition getKeys_sk :: "sk_node list \<Rightarrow> ptr \<Rightarrow> dict res" where
  "getKeys_sk h p = obind (deref h p) (\<lambda>n. Inr [(key_sk n, val_sk n)])"

definition upd_bundle_sk ::
    "sk_node list \<Rightarrow> ptr \<Rightarrow> (ptr bundle_t \<Rightarrow> ptr bundle_t res) \<Rightarrow> sk_node list res" where
  "upd_bundle_sk h p g = obind (deref h p) (\<lambda>n. obind (g (rqbundle_sk n))
     (\<lambda>b. update_at h p (\<lambda>n. n\<lparr>rqbundle_sk := b\<rparr>)))"

text \<open>A lock that another thread holds is waited for (\<open>Blocked\<close>).\<close>

definition sl_node_lock :: "ptr \<Rightarrow> sk_node list \<Rightarrow> sk_node list res" where
  "sl_node_lock p h = obind (deref h p) (\<lambda>n.
     if lock_sk n = 0 then update_at h p (\<lambda>n. n\<lparr>lock_sk := 1\<rparr>) else Inl Blocked)"

definition sl_node_unlock :: "ptr \<Rightarrow> sk_node list \<Rightarrow> sk_node list res" where
  "sl_node_unlock p h = update_at h p (\<lambda>n. n\<lparr>lock_sk := 0\<rparr>)"

definition initNode_sk :: "ptr \<Rightarrow> int \<Rightarrow> int \<Rightarrow> nat \<Rightarrow> sk_node list \<Rightarrow> sk_node list res" where
  "initNode_sk p key val height h = update_at h p (\<lambda>n. n\<lparr>rqbundle_sk := init_bundle,
     key_sk := key, val_sk := val, topLevel_sk := height, lock_sk := 0, marked_sk := 0,
     fullyLinked_sk := 0\<rparr>)"

definition allocateNode_sk :: "sk_node list \<Rightarrow> ptr \<times> sk_node list" where
  "allocateNode_sk h = (Some (length h), h @ [\<lparr>rqbundle_sk = [], lock_sk = 0, key_sk = 0, val_sk = 0,
     topLevel_sk = 0, marked_sk = 0, fullyLinked_sk = 0,
     p_next_sk = replicate SKIPLIST_MAX_LEVEL None\<rparr>])"

section \<open>Search\<close>

text \<open>The levels \<open>n - 1\<close> down to 0 of \<open>find_impl\<close>; \<open>l_found = None\<close> is the code's -1.\<close>

fun find_levels_sk ::
    "sk_node list \<Rightarrow> int \<Rightarrow> nat \<Rightarrow> ptr \<Rightarrow> ptr \<Rightarrow> nat option \<Rightarrow> ptr list \<Rightarrow> ptr list
      \<Rightarrow> (nat option \<times> ptr list \<times> ptr list \<times> ptr) res"
where
  "find_levels_sk h key 0 pred cur l_found preds succs = Inr (l_found, preds, succs, cur)"
| "find_levels_sk h key (Suc level) pred cur l_found preds succs =
     obind (next_sk h level pred) (\<lambda>c0.
     obind (search_from (length h) (keyof_sk h) (next_sk h level) key pred c0) (\<lambda>(pred', cur').
     obind (keyof_sk h cur') (\<lambda>ck.
     obind (aset preds level pred') (\<lambda>preds'. obind (aset succs level cur') (\<lambda>succs'.
       find_levels_sk h key level pred' cur'
         (if l_found = None \<and> key = ck then Some level else l_found) preds' succs')))))"

definition find_impl_sk ::
    "sk_list \<Rightarrow> int \<Rightarrow> (nat option \<times> ptr list \<times> ptr list \<times> ptr) res" where
  "find_impl_sk s key =
     find_levels_sk (heap_sk s) key SKIPLIST_MAX_LEVEL (p_head_sk s) None None
       (replicate SKIPLIST_MAX_LEVEL None) (replicate SKIPLIST_MAX_LEVEL None)"

section \<open>Construction\<close>

fun link_head_sk :: "nat \<Rightarrow> ptr \<Rightarrow> ptr \<Rightarrow> sk_node list \<Rightarrow> sk_node list res" where
  "link_head_sk 0 hd_p tl_p h = Inr h"
| "link_head_sk (Suc i) hd_p tl_p h =
     obind (link_head_sk i hd_p tl_p h) (set_next_sk i hd_p tl_p)"

definition bundle_skiplist ::
    "nat \<Rightarrow> nat \<Rightarrow> build_mode \<Rightarrow> bool \<Rightarrow> int \<Rightarrow> int \<Rightarrow> int \<Rightarrow> (nat \<Rightarrow> seed_t) \<Rightarrow> sk_list res" where
  "bundle_skiplist max_tid numProcesses md cl kmin kmax no_value rngs =
     obind (RQProvider max_tid numProcesses md cl) (\<lambda>prov.
     (let (tl_p, h0) = allocateNode_sk [] in
      obind (initNode_sk tl_p kmax no_value (SKIPLIST_MAX_LEVEL - 1) h0) (\<lambda>h1.
     (let (hd_p, h2) = allocateNode_sk h1 in
      obind (initNode_sk hd_p kmin no_value (SKIPLIST_MAX_LEVEL - 1) h2) (\<lambda>h3.
     (let bundles = [(hd_p, tl_p)] in
      obind (prepare_bundles prov upd_bundle_sk bundles h3) (\<lambda>h4.
     (let (ts, prov') = get_update_lin_time prov 0 in
      obind (link_head_sk SKIPLIST_MAX_LEVEL hd_p tl_p h4) (\<lambda>h5.
      obind (finalize_bundles upd_bundle_sk bundles ts h5) (\<lambda>h6.
      Inr \<lparr>heap_sk = h6, p_head_sk = hd_p, p_tail_sk = tl_p, rq_sk = prov', rngs_sk = rngs,
        retired_sk = [], quiescent_sk = (\<lambda>_. True), init_sk = (\<lambda>_. False),
        KEY_MIN_sk = kmin, KEY_MAX_sk = kmax, NO_VALUE_sk = no_value\<rparr>))))))))))"

text \<open>The destructor hands every node, in key order, to the reclaimer.\<close>

fun retire_all_sk :: "nat \<Rightarrow> sk_node list \<Rightarrow> int \<Rightarrow> ptr \<Rightarrow> ptr list res" where
  "retire_all_sk 0 h kmax cur = Inl Timeout"
| "retire_all_sk (Suc n) h kmax cur =
     obind (keyof_sk h cur) (\<lambda>ck.
       if ck < kmax
       then obind (next_sk h 0 cur) (\<lambda>nx. obind (retire_all_sk n h kmax nx) (\<lambda>r. Inr (cur # r)))
       else Inr [cur])"

definition destroy_sk :: "sk_list \<Rightarrow> ptr list res" where
  "destroy_sk s = obind (retire_all_sk (Suc (length (heap_sk s))) (heap_sk s) (KEY_MAX_sk s) (p_head_sk s))
     (\<lambda>r. Inr (retired_sk s @ r))"

section \<open>Operations\<close>

definition contains_sk :: "sk_list \<Rightarrow> nat \<Rightarrow> int \<Rightarrow> (sk_list \<times> bool) res" where
  "contains_sk s tid key =
     (let s0 = leaveQuiescentState_sk s tid; h = heap_sk s0 in
      obind (find_impl_sk s0 key) (\<lambda>(lFound, preds, succs, found).
      obind (case lFound of None \<Rightarrow> Inr False
        | Some l \<Rightarrow>
           obind (aref preds l) (\<lambda>pred. obind (bundleof_sk h pred) (\<lambda>b. obind (getPtr b) (\<lambda>c0.
           obind (getPtr_loop (Suc (length h)) (keyof_sk h) (bundleof_sk h) key c0) (\<lambda>cur.
           obind (keyof_sk h cur) (\<lambda>ck. Inr (ck = key)))))))
        (\<lambda>res. Inr (enterQuiescentState_sk (s0\<lparr>rq_sk := end_traversal (rq_sk s0) tid\<rparr>) tid, res))))"

definition find_sk :: "sk_list \<Rightarrow> nat \<Rightarrow> int \<Rightarrow> (sk_list \<times> int \<times> bool) res" where
  "find_sk s tid key =
     (let s0 = leaveQuiescentState_sk s tid; h = heap_sk s0 in
      obind (find_impl_sk s0 key) (\<lambda>(lFound, preds, succs, found).
      obind (case lFound of None \<Rightarrow> Inr False
        | Some l \<Rightarrow> obind (aref succs l) (\<lambda>q. obind (deref h q) (\<lambda>n.
            Inr (fullyLinked_sk n \<noteq> 0 \<and> marked_sk n = 0))))
        (\<lambda>res. if res
          then obind (deref h found) (\<lambda>n. Inr (enterQuiescentState_sk s0 tid, val_sk n, True))
          else Inr (enterQuiescentState_sk s0 tid, NO_VALUE_sk s0, False))))"

text \<open>
  Locking the predecessors level by level, each node once, until a level is found that
  has changed: the heap, the highest level locked, and whether all levels were valid.
  \<open>n\<close> counts the levels that are left.
\<close>

definition fresh_pred :: "ptr list \<Rightarrow> nat \<Rightarrow> bool res" where
  "fresh_pred preds level = (if level = 0 then Inr True
     else obind (aref preds level) (\<lambda>p. obind (aref preds (level - 1)) (\<lambda>q. Inr (p \<noteq> q))))"

fun lock_preds_sk ::
    "nat \<Rightarrow> ptr list \<Rightarrow> (sk_node list \<Rightarrow> nat \<Rightarrow> ptr \<Rightarrow> bool res) \<Rightarrow> nat \<Rightarrow> nat option \<Rightarrow> sk_node list
      \<Rightarrow> (sk_node list \<times> nat option \<times> bool) res"
where
  "lock_preds_sk 0 preds check level highestLocked h = Inr (h, highestLocked, True)"
| "lock_preds_sk (Suc n) preds check level highestLocked h =
     obind (aref preds level) (\<lambda>p_pred.
     obind (fresh_pred preds level) (\<lambda>fresh.
     obind (if fresh then sl_node_lock p_pred h else Inr h) (\<lambda>h1.
     obind (check h1 level p_pred) (\<lambda>valid.
       if valid then lock_preds_sk n preds check (Suc level) (Some level) h1
       else Inr (h1, Some level, False)))))"

fun unlock_preds_sk :: "nat \<Rightarrow> ptr list \<Rightarrow> nat \<Rightarrow> sk_node list \<Rightarrow> sk_node list res" where
  "unlock_preds_sk 0 preds level h = Inr h"
| "unlock_preds_sk (Suc n) preds level h =
     obind (aref preds level) (\<lambda>p. obind (fresh_pred preds level) (\<lambda>fresh.
     obind (if fresh then sl_node_unlock p h else Inr h) (unlock_preds_sk n preds (Suc level))))"

definition levels_upto :: "nat option \<Rightarrow> nat" where
  "levels_upto highestLocked = (case highestLocked of None \<Rightarrow> 0 | Some l \<Rightarrow> Suc l)"

definition insert_valid_sk :: "ptr list \<Rightarrow> sk_node list \<Rightarrow> nat \<Rightarrow> ptr \<Rightarrow> bool res" where
  "insert_valid_sk succs h level p_pred =
     obind (aref succs level) (\<lambda>p_succ. obind (deref h p_pred) (\<lambda>pn.
       if marked_sk pn \<noteq> 0 then Inr False
       else obind (deref h p_succ) (\<lambda>sn.
         if marked_sk sn \<noteq> 0 then Inr False
         else obind (aref (p_next_sk pn) level) (\<lambda>q. Inr (q = p_succ)))))"

definition erase_valid_sk :: "ptr \<Rightarrow> sk_node list \<Rightarrow> nat \<Rightarrow> ptr \<Rightarrow> bool res" where
  "erase_valid_sk p_victim h level p_pred =
     obind (deref h p_pred) (\<lambda>pn.
       if marked_sk pn \<noteq> 0 then Inr False
       else obind (aref (p_next_sk pn) level) (\<lambda>q. Inr (q = p_victim)))"

text \<open>\<open>p_new_node->p_next[level] = p_succs[level]\<close> for the levels below \<open>n\<close>, in order.\<close>

fun fill_next_sk :: "nat \<Rightarrow> ptr \<Rightarrow> ptr list \<Rightarrow> sk_node list \<Rightarrow> sk_node list res" where
  "fill_next_sk 0 p_new succs h = Inr h"
| "fill_next_sk (Suc level) p_new succs h =
     obind (fill_next_sk level p_new succs h) (\<lambda>h1. obind (aref succs level) (\<lambda>q.
       set_next_sk level p_new q h1))"

text \<open>\<open>p_preds[level]->p_next[level] = p_new_node\<close> for the levels below \<open>n\<close>, in order.\<close>

fun link_new_sk :: "nat \<Rightarrow> ptr \<Rightarrow> ptr list \<Rightarrow> sk_node list \<Rightarrow> sk_node list res" where
  "link_new_sk 0 p_new preds h = Inr h"
| "link_new_sk (Suc level) p_new preds h =
     obind (link_new_sk level p_new preds h) (\<lambda>h1. obind (aref preds level) (\<lambda>p.
       set_next_sk level p p_new h1))"

text \<open>\<open>p_preds[level]->p_next[level] = p_victim->p_next[level]\<close> from level \<open>n - 1\<close> down.\<close>

fun unlink_sk :: "nat \<Rightarrow> ptr \<Rightarrow> ptr list \<Rightarrow> sk_node list \<Rightarrow> sk_node list res" where
  "unlink_sk 0 p_victim preds h = Inr h"
| "unlink_sk (Suc level) p_victim preds h =
     obind (next_sk h level p_victim) (\<lambda>q. obind (aref preds level) (\<lambda>p.
     obind (set_next_sk level p q h) (unlink_sk level p_victim preds)))"

text \<open>
  \<open>doInsert\<close> from the locking loop to the end of the iteration; the boolean is \<open>done\<close>.
\<close>

definition insert_locked_sk ::
    "sk_list \<Rightarrow> nat \<Rightarrow> ptr list \<Rightarrow> ptr list \<Rightarrow> int \<Rightarrow> int \<Rightarrow> nat \<Rightarrow> (sk_list \<times> bool) res" where
  "insert_locked_sk s tid preds succs key val topLevel =
     obind (lock_preds_sk (Suc topLevel) preds (insert_valid_sk succs) 0 None (heap_sk s))
       (\<lambda>(h1, highestLocked, valid).
     obind
       (if valid then
          (let (p_new, h2) = allocateNode_sk h1 in
           obind (initNode_sk p_new key val topLevel h2) (\<lambda>h3.
           obind (sl_node_lock p_new h3) (\<lambda>h4.
           obind (fill_next_sk (Suc topLevel) p_new succs h4) (\<lambda>h5.
           obind (aref preds 0) (\<lambda>p0. obind (aref succs 0) (\<lambda>s0.
          (let bundles = [(p0, p_new), (p_new, s0)] in
           obind (prepare_bundles (rq_sk s) upd_bundle_sk bundles h5) (\<lambda>h6.
          (let (lin_time, rq') = get_update_lin_time (rq_sk s) tid in
           obind (link_new_sk (Suc topLevel) p_new preds h6) (\<lambda>h7.
           obind (update_at h7 p_new (\<lambda>n. n\<lparr>fullyLinked_sk := 1\<rparr>)) (\<lambda>h8.
           obind (finalize_bundles upd_bundle_sk bundles lin_time h8) (\<lambda>h9.
           obind (sl_node_unlock p_new h9) (\<lambda>h10. Inr (h10, rq', True))))))))))))))
        else Inr (h1, rq_sk s, False))
       (\<lambda>(h11, rq', done_flag).
     obind (unlock_preds_sk (levels_upto highestLocked) preds 0 h11) (\<lambda>h12.
       Inr (enterQuiescentState_sk (s\<lparr>heap_sk := h12, rq_sk := rq'\<rparr>) tid, done_flag))))"

fun insert_loop_sk :: "nat \<Rightarrow> sk_list \<Rightarrow> nat \<Rightarrow> int \<Rightarrow> int \<Rightarrow> bool \<Rightarrow> nat \<Rightarrow> (sk_list \<times> int) res" where
  "insert_loop_sk 0 s tid key val onlyIfAbsent topLevel = Inl Timeout"
| "insert_loop_sk (Suc tries) s tid key val onlyIfAbsent topLevel =
     (let s0 = leaveQuiescentState_sk s tid in
      obind (find_impl_sk s0 key) (\<lambda>(lFound, preds, succs, _).
      case lFound of
        Some l \<Rightarrow>
          obind (aref succs l) (\<lambda>q. obind (deref (heap_sk s0) q) (\<lambda>n.
            if marked_sk n = 0 then
              (if fullyLinked_sk n = 0 then Inl Blocked
               else if onlyIfAbsent then Inr (enterQuiescentState_sk s0 tid, val_sk n)
               else Inl Exit)
            else insert_loop_sk tries (enterQuiescentState_sk s0 tid) tid key val onlyIfAbsent topLevel))
      | None \<Rightarrow>
          obind (insert_locked_sk s0 tid preds succs key val topLevel) (\<lambda>(s1, done_flag).
            if done_flag then Inr (s1, NO_VALUE_sk s1)
            else insert_loop_sk tries s1 tid key val onlyIfAbsent topLevel)))"

definition doInsert_sk :: "nat \<Rightarrow> sk_list \<Rightarrow> nat \<Rightarrow> int \<Rightarrow> int \<Rightarrow> bool \<Rightarrow> (sk_list \<times> int) res" where
  "doInsert_sk tries s tid key val onlyIfAbsent =
     (let (topLevel, seed) = sl_randomLevel (rngs_sk s tid) in
      insert_loop_sk tries (s\<lparr>rngs_sk := (rngs_sk s)(tid := seed)\<rparr>) tid key val onlyIfAbsent topLevel)"

definition insert_sk :: "nat \<Rightarrow> sk_list \<Rightarrow> nat \<Rightarrow> int \<Rightarrow> int \<Rightarrow> (sk_list \<times> int) res" where
  "insert_sk tries s tid key val = doInsert_sk tries s tid key val False"

definition insertIfAbsent_sk :: "nat \<Rightarrow> sk_list \<Rightarrow> nat \<Rightarrow> int \<Rightarrow> int \<Rightarrow> (sk_list \<times> int) res" where
  "insertIfAbsent_sk tries s tid key val = doInsert_sk tries s tid key val True"

text \<open>
  \<open>erase\<close> from the lock of the victim to the end of the iteration. \<open>isMarked\<close> is never
  assigned in the code, so the first branch of its test is always taken. \<open>None\<close> goes
  round the loop again; \<open>Some ret\<close> leaves it.
\<close>

definition erase_locked_sk ::
    "sk_list \<Rightarrow> nat \<Rightarrow> ptr list \<Rightarrow> ptr \<Rightarrow> (sk_list \<times> int option) res" where
  "erase_locked_sk s tid preds p_victim =
     obind (deref (heap_sk s) p_victim) (\<lambda>vn0.
    (let topLevel = topLevel_sk vn0 in
     obind (sl_node_lock p_victim (heap_sk s)) (\<lambda>h0.
     obind (deref h0 p_victim) (\<lambda>vn.
     if marked_sk vn \<noteq> 0 then
       obind (sl_node_unlock p_victim h0) (\<lambda>h1.
         Inr (enterQuiescentState_sk (s\<lparr>heap_sk := h1\<rparr>) tid, Some (NO_VALUE_sk s)))
     else
       obind (lock_preds_sk (Suc topLevel) preds (erase_valid_sk p_victim) 0 None h0)
         (\<lambda>(h1, highestLocked, valid).
       obind
         (if valid then
            obind (aref preds 0) (\<lambda>p0. obind (next_sk h1 0 p_victim) (\<lambda>v_nxt.
           (let bundles = [(p0, v_nxt), (p_victim, p_head_sk s)] in
            obind (prepare_bundles (rq_sk s) upd_bundle_sk bundles h1) (\<lambda>h2.
            obind (linearize_update_at_write (rq_sk s) tid
               (\<lambda>h. update_at h p_victim (\<lambda>n. n\<lparr>marked_sk := 1\<rparr>)) h2) (\<lambda>(lin_time, rq', h3).
            obind (finalize_bundles upd_bundle_sk bundles lin_time h3) (\<lambda>h4.
            obind (unlink_sk (Suc topLevel) p_victim preds h4) (\<lambda>h5.
            obind (deref h5 p_victim) (\<lambda>vn5.
            obind (sl_node_unlock p_victim h5) (\<lambda>h6.
              Inr (h6, rq', physical_deletion_succeeded (retired_sk s) [p_victim, None],
                Some (val_sk vn5)))))))))))
          else obind (sl_node_unlock p_victim h1) (\<lambda>h2. Inr (h2, rq_sk s, retired_sk s, None)))
         (\<lambda>(h7, rq', retired', ret).
       obind (unlock_preds_sk (levels_upto highestLocked) preds 0 h7) (\<lambda>h8.
         Inr (enterQuiescentState_sk (s\<lparr>heap_sk := h8, rq_sk := rq', retired_sk := retired'\<rparr>) tid, ret))))))))"

fun erase_sk :: "nat \<Rightarrow> sk_list \<Rightarrow> nat \<Rightarrow> int \<Rightarrow> (sk_list \<times> int) res" where
  "erase_sk 0 s tid key = Inl Timeout"
| "erase_sk (Suc tries) s tid key =
     (let s0 = leaveQuiescentState_sk s tid in
      obind (find_impl_sk s0 key) (\<lambda>(lFound, preds, succs, _).
      case lFound of
        None \<Rightarrow> Inr (enterQuiescentState_sk s0 tid, NO_VALUE_sk s0)
      | Some l \<Rightarrow>
          obind (aref succs l) (\<lambda>p_victim.
          obind (erase_locked_sk s0 tid preds p_victim) (\<lambda>(s1, r).
            case r of None \<Rightarrow> erase_sk tries s1 tid key | Some ret \<Rightarrow> Inr (s1, ret)))))"

text \<open>Range queries: phase 1 descends the levels, phases 2 and 3 follow the bundles.\<close>

fun rq_descend_sk :: "sk_node list \<Rightarrow> int \<Rightarrow> nat \<Rightarrow> ptr \<Rightarrow> ptr \<Rightarrow> (ptr \<times> ptr) res" where
  "rq_descend_sk h lo 0 pred cur = Inr (pred, cur)"
| "rq_descend_sk h lo (Suc level) pred cur =
     obind (next_sk h level pred) (\<lambda>c0.
     obind (search_from (length h) (keyof_sk h) (next_sk h level) lo pred c0) (\<lambda>(pred', cur').
       rq_descend_sk h lo level pred' cur'))"

definition rq_phases_sk ::
    "sk_list \<Rightarrow> nat \<Rightarrow> ptr \<Rightarrow> int \<Rightarrow> int \<Rightarrow> (sk_list \<times> ptr \<times> dict) res" where
  "rq_phases_sk s tid pred lo hi =
     (let h = heap_sk s; n = Suc (length h); (t, rq') = start_traversal (rq_sk s) tid in
      obind (follow (bundleof_sk h) t pred) (\<lambda>c0.
      obind (rq_enter n (keyof_sk h) (bundleof_sk h) t lo c0) (\<lambda>c1.
      obind (rq_collect n (keyof_sk h) (getKeys_sk h) (bundleof_sk h) t lo hi c1 [])
        (\<lambda>(cur, result).
         Inr (enterQuiescentState_sk (s\<lparr>rq_sk := end_traversal rq' tid\<rparr>) tid, cur, result)))))"

fun rangeQuery_sk :: "nat \<Rightarrow> sk_list \<Rightarrow> nat \<Rightarrow> int \<Rightarrow> int \<Rightarrow> (sk_list \<times> dict) res" where
  "rangeQuery_sk 0 s tid lo hi = Inl Timeout"
| "rangeQuery_sk (Suc tries) s tid lo hi =
     (let s0 = leaveQuiescentState_sk s tid in
      obind (rq_descend_sk (heap_sk s0) lo SKIPLIST_MAX_LEVEL (p_head_sk s0) None) (\<lambda>(pred, _).
      obind (rq_phases_sk s0 tid pred lo hi) (\<lambda>(s1, cur, result).
        if cur \<noteq> None then Inr (s1, result) else rangeQuery_sk tries s1 tid lo hi)))"

fun clean_from_sk :: "nat \<Rightarrow> timestamp_t \<Rightarrow> int \<Rightarrow> sk_node list \<Rightarrow> ptr \<Rightarrow> sk_node list res" where
  "clean_from_sk 0 t kmax h cur = Inl Timeout"
| "clean_from_sk (Suc n) t kmax h cur =
     obind (deref h cur) (\<lambda>cn.
       if key_sk cn \<noteq> kmax
       then obind (if marked_sk cn = 0 then upd_bundle_sk h cur (\<lambda>b. Inr (fst (reclaimEntries t b))) else Inr h)
              (\<lambda>h'. obind (next_sk h' 0 cur) (clean_from_sk n t kmax h'))
       else Inr h)"

definition cleanup_sk :: "sk_list \<Rightarrow> nat \<Rightarrow> sk_list res" where
  "cleanup_sk s tid =
     (let s0 = leaveQuiescentState_sk s tid in
      obind (get_oldest_active_rq (rq_sk s0)) (\<lambda>t.
      obind (upd_bundle_sk (heap_sk s0) (p_head_sk s0) (\<lambda>b. Inr (fst (reclaimEntries t b)))) (\<lambda>h1.
      obind (next_sk h1 0 (p_head_sk s0)) (\<lambda>cur.
      obind (clean_from_sk (length h1) t (KEY_MAX_sk s0) h1 cur) (\<lambda>h2.
      Inr (enterQuiescentState_sk (s0\<lparr>heap_sk := h2\<rparr>) tid))))))"

text \<open>\<open>debugKeySum\<close> (which skips marked nodes) and the sizes.\<close>

fun keysum_from_sk :: "nat \<Rightarrow> sk_node list \<Rightarrow> int \<Rightarrow> ptr \<Rightarrow> int res" where
  "keysum_from_sk 0 h kmax cur = Inl Timeout"
| "keysum_from_sk (Suc n) h kmax cur =
     obind (deref h cur) (\<lambda>cn.
       if key_sk cn < kmax
       then obind (next_sk h 0 cur) (\<lambda>nx. obind (keysum_from_sk n h kmax nx)
              (\<lambda>r. Inr ((if marked_sk cn = 0 then key_sk cn else 0) + r)))
       else Inr 0)"

definition debugKeySum_sk :: "sk_list \<Rightarrow> int res" where
  "debugKeySum_sk s = obind (next_sk (heap_sk s) 0 (p_head_sk s))
     (keysum_from_sk (length (heap_sk s)) (heap_sk s) (KEY_MAX_sk s))"

fun size_from_sk :: "nat \<Rightarrow> sk_node list \<Rightarrow> int \<Rightarrow> bool \<Rightarrow> ptr \<Rightarrow> nat res" where
  "size_from_sk 0 h kmax all_nodes cur = Inl Timeout"
| "size_from_sk (Suc n) h kmax all_nodes cur =
     obind (deref h cur) (\<lambda>cn.
       if key_sk cn \<noteq> kmax
       then obind (next_sk h 0 cur) (\<lambda>nx. obind (size_from_sk n h kmax all_nodes nx)
              (\<lambda>r. Inr ((if all_nodes \<or> marked_sk cn = 0 then 1 else 0) + r)))
       else Inr 0)"

definition getSizeInNodes_sk :: "sk_list \<Rightarrow> nat res" where
  "getSizeInNodes_sk s = obind (next_sk (heap_sk s) 0 (p_head_sk s))
     (size_from_sk (length (heap_sk s)) (heap_sk s) (KEY_MAX_sk s) True)"

definition getSize_sk :: "sk_list \<Rightarrow> nat res" where
  "getSize_sk s = obind (next_sk (heap_sk s) 0 (p_head_sk s))
     (size_from_sk (length (heap_sk s)) (heap_sk s) (KEY_MAX_sk s) False)"

end
