(* ===== verification/Bundled_Skiplist_Correct.thy ===== *)
theory Bundled_Skiplist_Correct
  imports Bundled_Skiplist
begin

text \<open>
  Correctness of the bundled skip list, as a refinement: the bottom level with its bundles
  is a view in the sense of \<open>Bundle_View\<close>, the upper levels are shortcuts of it, and every
  operation is a transition of the view.
\<close>

section \<open>Fields as functions of the address\<close>

abbreviation kk :: "sk_node list \<Rightarrow> nat \<Rightarrow> int" where "kk \<equiv> fld key_sk 0"
abbreviation vv :: "sk_node list \<Rightarrow> nat \<Rightarrow> int" where "vv \<equiv> fld val_sk 0"
abbreviation tt :: "sk_node list \<Rightarrow> nat \<Rightarrow> nat" where "tt \<equiv> fld topLevel_sk 0"
abbreviation bb :: "sk_node list \<Rightarrow> nat \<Rightarrow> ptr bundle_t" where "bb \<equiv> fld rqbundle_sk []"
abbreviation dd :: "sk_node list \<Rightarrow> nat \<Rightarrow> bool" where "dd \<equiv> fld (\<lambda>n. marked_sk n \<noteq> 0) True"
abbreviation ff :: "sk_node list \<Rightarrow> nat \<Rightarrow> bool" where "ff \<equiv> fld (\<lambda>n. fullyLinked_sk n \<noteq> 0) False"
abbreviation nn :: "nat \<Rightarrow> sk_node list \<Rightarrow> nat \<Rightarrow> ptr" where "nn l \<equiv> fld (\<lambda>n. p_next_sk n ! l) None"
abbreviation ll :: "sk_node list \<Rightarrow> nat \<Rightarrow> int" where "ll \<equiv> fld lock_sk 0"
abbreviation wl :: "sk_node list \<Rightarrow> nat \<Rightarrow> nat" where "wl \<equiv> fld (\<lambda>n. length (p_next_sk n)) 20"

definition view_sk :: "sk_list \<Rightarrow> chain_view" where
  "view_sk s = \<lparr>ckey = kk (heap_sk s), cval = vv (heap_sk s), cnxt = nn 0 (heap_sk s),
     cbun = bb (heap_sk s), cdead = dd (heap_sk s), clen = length (heap_sk s),
     chead = the (p_head_sk s), cnow = curr_timestamp (rq_sk s),
     cmin = KEY_MIN_sk s, cmax = KEY_MAX_sk s\<rparr>"

lemma view_sk_sel [simp]:
  "ckey (view_sk s) = kk (heap_sk s)" "cval (view_sk s) = vv (heap_sk s)" "cnxt (view_sk s) = nn 0 (heap_sk s)"
  "cbun (view_sk s) = bb (heap_sk s)" "cdead (view_sk s) = dd (heap_sk s)" "clen (view_sk s) = length (heap_sk s)"
  "chead (view_sk s) = the (p_head_sk s)" "cnow (view_sk s) = curr_timestamp (rq_sk s)"
  "cmin (view_sk s) = KEY_MIN_sk s" "cmax (view_sk s) = KEY_MAX_sk s"
  by (simp_all add: view_sk_def)

definition contents_sk :: "sk_list \<Rightarrow> dict" where
  "contents_sk s = contents_v (view_sk s)"

definition snapshot_sk :: "sk_list \<Rightarrow> timestamp_t \<Rightarrow> dict" where
  "snapshot_sk s u = snapshot_v (view_sk s) u"

text \<open>The shape of the heap between operations.\<close>

definition shape_sk :: "sk_node list \<Rightarrow> nat list \<Rightarrow> bool" where
  "shape_sk h P \<longleftrightarrow> levels_inv SKIPLIST_MAX_LEVEL (tt h) (\<lambda>l. nn l h) P
     \<and> tt h (hd P) = SKIPLIST_MAX_LEVEL - 1 \<and> tt h (last P) = SKIPLIST_MAX_LEVEL - 1
     \<and> (\<forall>a\<in>set P. tt h a < SKIPLIST_MAX_LEVEL)
     \<and> (\<forall>a\<in>set P. a \<noteq> hd P \<and> a \<noteq> last P \<longrightarrow> ff h a)
     \<and> (\<forall>a. wl h a = SKIPLIST_MAX_LEVEL) \<and> (\<forall>a. ll h a = 0)"

definition chain_sk :: "sk_list \<Rightarrow> nat \<Rightarrow> nat list \<Rightarrow> bool" where
  "chain_sk s ta P \<longleftrightarrow> chain_v (view_sk s) ta P \<and> shape_sk (heap_sk s) P \<and> (\<exists>ha. p_head_sk s = Some ha)"

definition wf_sk :: "timestamp_t \<Rightarrow> sk_list \<Rightarrow> bool" where
  "wf_sk base s \<longleftrightarrow> mode (rq_sk s) = Update_Clock \<and> \<not> cleanup_update (rq_sk s)
     \<and> wf_v base (view_sk s) \<and> (\<exists>ta P. chain_sk s ta P)"

definition steps_to_sk :: "timestamp_t \<Rightarrow> sk_list \<Rightarrow> dict \<Rightarrow> sk_list \<Rightarrow> bool" where
  "steps_to_sk base s d s' \<longleftrightarrow> wf_sk base s' \<and> steps_v base (view_sk s) d (view_sk s')"

section \<open>Bundles and frame\<close>

definition peek_sk :: "sk_node list \<Rightarrow> ptr \<Rightarrow> ptr bundle_t option" where
  "peek_sk h p = (case p of None \<Rightarrow> None
     | Some a \<Rightarrow> if a < length h then Some (rqbundle_sk (h ! a)) else None)"

definition frame_sk :: "sk_node list \<Rightarrow> sk_node list" where
  "frame_sk h = map (\<lambda>n. n\<lparr>rqbundle_sk := []\<rparr>) h"

lemma length_frame_sk [simp]: "length (frame_sk h) = length h"
  by (simp add: frame_sk_def)

lemma frame_sk_fields:
  "kk (frame_sk h) = kk h" "vv (frame_sk h) = vv h" "tt (frame_sk h) = tt h" "dd (frame_sk h) = dd h"
  "ff (frame_sk h) = ff h" "nn l (frame_sk h) = nn l h" "ll (frame_sk h) = ll h" "wl (frame_sk h) = wl h"
  by (simp_all add: frame_sk_def fld_map)

interpretation skb: bundle_store peek_sk upd_bundle_sk frame_sk
proof
  fix h :: "sk_node list" and r b and g :: "ptr bundle_t \<Rightarrow> ptr bundle_t res" and b'
  assume p: "peek_sk h r = Some b" and g: "g b = Inr b'"
  then obtain a where a: "r = Some a" "a < length h" "b = rqbundle_sk (h ! a)"
    by (auto simp: peek_sk_def split: option.splits if_splits)
  let ?h = "h[a := (h ! a)\<lparr>rqbundle_sk := b'\<rparr>]"
  have "upd_bundle_sk h r g = Inr ?h" using a g by (simp add: upd_bundle_sk_def res_simps)
  moreover have "peek_sk ?h = (peek_sk h)(r \<mapsto> b')"
    using a by (auto simp: peek_sk_def fun_eq_iff nth_list_update split: option.splits)
  moreover have "frame_sk ?h = frame_sk h"
    using a(2) by (simp add: frame_sk_def map_update list_update_same_conv)
  ultimately show "\<exists>h'. upd_bundle_sk h r g = Inr h' \<and> peek_sk h' = (peek_sk h)(r \<mapsto> b')
      \<and> frame_sk h' = frame_sk h" by blast
qed

lemma bundles_pushed_sk:
  assumes "length g = length h"
    and "\<forall>r. peek_sk g r = (case map_of bs r of None \<Rightarrow> peek_sk h r
         | Some q \<Rightarrow> map_option (push_entry t q) (peek_sk h r))"
  shows "bb g a = (if a < length h then case map_of bs (Some a) of None \<Rightarrow> bb h a
         | Some q \<Rightarrow> push_entry t q (bb h a) else [])"
  using assms(1) spec [OF assms(2), of "Some a"]
  by (auto simp: peek_sk_def fld_def split: option.splits)

text \<open>What follows does not depend on the bundles, respectively on the locks.\<close>

definition with_locks :: "nat set \<Rightarrow> sk_node list \<Rightarrow> sk_node list" where
  "with_locks L h = map (\<lambda>a. (h ! a)\<lparr>lock_sk := if a \<in> L then 1 else 0\<rparr>) [0..<length h]"

lemma length_with_locks [simp]: "length (with_locks L h) = length h"
  by (simp add: with_locks_def)

lemma nth_with_locks [simp]:
  "a < length h \<Longrightarrow> with_locks L h ! a = (h ! a)\<lparr>lock_sk := if a \<in> L then 1 else 0\<rparr>"
  by (simp add: with_locks_def)

lemma with_locks_empty:
  assumes "\<And>a. ll h a = 0"
  shows "with_locks {} h = h"
proof (rule nth_equalityI)
  fix a assume "a < length (with_locks {} h)"
  then have al: "a < length h" by simp
  then have "lock_sk (h ! a) = 0" using assms [of a] by simp
  with al show "with_locks {} h ! a = h ! a" by (cases "h ! a") simp
qed simp

lemma with_locks_update:
  assumes "a < length h" "\<And>n l. f (n\<lparr>lock_sk := l\<rparr>) = (f n)\<lparr>lock_sk := l\<rparr>"
  shows "(with_locks L h)[a := f (with_locks L h ! a)] = with_locks L (h[a := f (h ! a)])"
  using assms by (intro nth_equalityI) (auto simp: nth_list_update)

lemma with_locks_append: "length h \<notin> L \<Longrightarrow> lock_sk n = 0 \<Longrightarrow> with_locks L h @ [n] = with_locks L (h @ [n])"
  by (intro nth_equalityI) (auto simp: nth_append less_Suc_eq)

lemma frame_sk_nth [simp]: "a < length h \<Longrightarrow> frame_sk h ! a = (h ! a)\<lparr>rqbundle_sk := []\<rparr>"
  by (simp add: frame_sk_def)

lemma frame_sk_update:
  assumes "a < length h" "\<And>n b. f (n\<lparr>rqbundle_sk := b\<rparr>) = (f n)\<lparr>rqbundle_sk := b\<rparr>"
  shows "(frame_sk h)[a := f (frame_sk h ! a)] = frame_sk (h[a := f (h ! a)])"
  using assms by (intro nth_equalityI) (auto simp: nth_list_update)

lemma update_commutes:
  assumes "\<And>n l. f (n\<lparr>lock_sk := l\<rparr>) = (f n)\<lparr>lock_sk := l\<rparr>"
  shows "commutes (with_locks L) (\<lambda>h. update_at h p f)"
  unfolding commutes_def update_at_def
  using with_locks_update [of _ _ f] assms by (auto split: option.splits)

lemma update_commutes_frame:
  assumes "\<And>n b. f (n\<lparr>rqbundle_sk := b\<rparr>) = (f n)\<lparr>rqbundle_sk := b\<rparr>"
  shows "commutes frame_sk (\<lambda>h. update_at h p f)"
  unfolding commutes_def update_at_def
  using frame_sk_update [of _ _ f] assms by (auto split: option.splits)

lemma set_next_commutes: "commutes (with_locks L) (set_next_sk l p q)" "commutes frame_sk (set_next_sk l p q)"
  unfolding commutes_def set_next_sk_def deref_def update_at_def aset_def
  using with_locks_update [of _ _ "\<lambda>n. n\<lparr>p_next_sk := (p_next_sk n)[l := q]\<rparr>"]
    frame_sk_update [of _ _ "\<lambda>n. n\<lparr>p_next_sk := (p_next_sk n)[l := q]\<rparr>"]
  by (auto split: option.splits)

lemma upd_bundle_commutes: "commutes (with_locks L) (\<lambda>h. upd_bundle_sk h r g)"
  unfolding commutes_def
proof
  fix h
  show "upd_bundle_sk (with_locks L h) r g = obind (upd_bundle_sk h r g) (\<lambda>h'. Inr (with_locks L h'))"
  proof (cases "\<exists>a. r = Some a \<and> a < length h")
    case True
    then obtain a where a: "r = Some a" "a < length h" by blast
    show ?thesis
    proof (cases "g (rqbundle_sk (h ! a))")
      case (Inl e)
      then show ?thesis using a by (simp add: upd_bundle_sk_def deref_Some)
    next
      case (Inr b)
      then show ?thesis
        using a with_locks_update [OF a(2), of "\<lambda>n. n\<lparr>rqbundle_sk := b\<rparr>" L]
        by (simp add: upd_bundle_sk_def deref_Some update_at_Some)
    qed
  next
    case False
    then show ?thesis by (cases r) (auto simp: upd_bundle_sk_def deref_def)
  qed
qed

section \<open>Search\<close>

lemma reads_sk:
  "reads (keyof_sk h) (kk h) [0..<length h]" "reads (bundleof_sk h) (bb h) [0..<length h]"
  "reads (getKeys_sk h) (\<lambda>a. [(kk h a, vv h a)]) [0..<length h]"
  by (simp_all add: reads_def keyof_sk_def bundleof_sk_def getKeys_sk_def res_simps)

lemma next_sk_at: "a < length h \<Longrightarrow> l < wl h a \<Longrightarrow> next_sk h l (Some a) = Inr (nn l h a)"
  by (simp add: next_sk_def deref_Some aref_def)

lemma chain_skD:
  assumes "chain_sk s ta P"
  shows "chain_v (view_sk s) ta P" "shape_sk (heap_sk s) P" "p_head_sk s = Some (the (p_head_sk s))"
    "hd P = the (p_head_sk s)" "last P = ta" "P \<noteq> []" "ksorted (kk (heap_sk s)) P"
    "\<forall>a\<in>set P. a < length (heap_sk s) \<and> \<not> dd (heap_sk s) a"
    "kk (heap_sk s) (the (p_head_sk s)) = KEY_MIN_sk s" "kk (heap_sk s) ta = KEY_MAX_sk s"
proof -
  show ch: "chain_v (view_sk s) ta P" using assms by (simp add: chain_sk_def)
  note i = chain_invD [OF chain_vD(1) [OF ch]] and c = chain_vD [OF ch]
  show "hd P = the (p_head_sk s)" "last P = ta" "P \<noteq> []" "ksorted (kk (heap_sk s)) P"
    "\<forall>a\<in>set P. a < length (heap_sk s) \<and> \<not> dd (heap_sk s) a"
    using i(1-3,5,6) by (simp_all del: fld_in)
  show "kk (heap_sk s) (the (p_head_sk s)) = KEY_MIN_sk s" "kk (heap_sk s) ta = KEY_MAX_sk s"
    using c(2,3) by simp_all
qed (use assms in \<open>auto simp: chain_sk_def\<close>)

lemma shape_skD:
  assumes "shape_sk h P"
  shows "l < SKIPLIST_MAX_LEVEL \<Longrightarrow> linked (nn l h) (on_level (tt h) l P)"
    "tt h (hd P) = SKIPLIST_MAX_LEVEL - 1" "tt h (last P) = SKIPLIST_MAX_LEVEL - 1"
    "a \<in> set P \<Longrightarrow> tt h a < SKIPLIST_MAX_LEVEL" "wl h a = SKIPLIST_MAX_LEVEL" "ll h a = 0"
    "a \<in> set P \<Longrightarrow> a \<noteq> hd P \<Longrightarrow> a \<noteq> last P \<Longrightarrow> ff h a"
  using assms unfolding shape_sk_def levels_inv_def by blast+

text \<open>A later predecessor is the same node or a node with a larger key.\<close>

definition further :: "(nat \<Rightarrow> int) \<Rightarrow> nat \<Rightarrow> nat \<Rightarrow> bool" where
  "further key a b \<longleftrightarrow> a = b \<or> key a < key b"

lemma level_search:
  assumes sh: "shape_sk h P" and ch: "P \<noteq> []" "ksorted (kk h) P" "\<forall>a\<in>set P. a < length h"
    and l: "l < SKIPLIST_MAX_LEVEL" and p: "p \<in> set P" "l \<le> tt h p" "kk h p < k" "k \<le> kk h (last P)"
  shows "\<exists>c p' c'. next_sk h l (Some p) = Inr (Some c)
    \<and> search_from (length h) (keyof_sk h) (next_sk h l) k (Some p) (Some c) = Inr (Some p', Some c')
    \<and> around (kk h) k (on_level (tt h) l P) p' c' \<and> further (kk h) p p'"
proof -
  let ?F = "on_level (tt h) l P"
  have lk: "linked (nn l h) ?F" by (rule shape_skD(1) [OF sh l])
  have "p \<noteq> last P" using p(3,4) by auto
  moreover have "l \<le> tt h (last P)" using shape_skD(3) [OF sh] l by simp
  ultimately obtain A c B where F: "?F = A @ p # c # B" "nn l h p = Some c"
    using level_next [OF lk p(1,2)] by blast
  have mem: "x \<in> set P" if "x \<in> set (p # c # B)" for x
    using that F(1) on_level_set [of x "tt h" l P] by auto
  have srt: "ksorted (kk h) (p # c # B)"
    using on_level_sorted [OF ch(2), of "tt h" l] F(1) by (simp add: sorted_wrt_append)
  have "last ?F = last P" using on_level_last [OF ch(1), of l "tt h"] shape_skD(3) [OF sh] l by simp
  then have lst: "k \<le> kk h (last (c # B))" using p(4) F(1) by simp
  have "linked (nn l h) (p # c # B)" using lk F(1) linked_split by metis
  moreover have "reads (keyof_sk h) (kk h) (p # c # B)"
    using mem ch(3) by (auto intro!: reads_mono [OF reads_sk(1)])
  moreover have "reads (next_sk h l) (nn l h) (p # c # B)"
    using mem ch(3) shape_skD(5) [OF sh] l next_sk_at [of _ h l] unfolding reads_def by simp
  moreover have "length B < length h"
    using ksorted_length [OF srt, of "length h"] mem ch(3) by auto
  ultimately obtain us p' c' ws where r: "p # c # B = us @ p' # c' # ws" "kk h p' < k" "k \<le> kk h c'"
    "search_from (length h) (keyof_sk h) (next_sk h l) k (Some p) (Some c) = Inr (Some p', Some c')"
    using search_from_finds [of "nn l h" p c B "kk h" k "keyof_sk h" "next_sk h l" "length h"] srt p(3) lst
    by blast
  have "?F = (A @ us) @ p' # c' # ws" using F(1) r(1) by simp
  then have "around (kk h) k ?F p' c'" using r(2,3) unfolding around_def by blast
  moreover have "further (kk h) p p'"
    using r(1) srt by (cases us) (auto simp: further_def sorted_wrt_append)
  moreover have "next_sk h l (Some p) = Inr (Some c)"
    using next_sk_at [of p h l] F(2) p(1) ch(3) l shape_skD(5) [OF sh, of p] by simp
  ultimately show ?thesis using r(4) by blast
qed

lemma around_mem:
  assumes "around key k (on_level tp l P) p c"
  shows "p \<in> set P" "c \<in> set P" "l \<le> tp p" "l \<le> tp c" "key p < k" "k \<le> key c"
proof -
  obtain A B where F: "on_level tp l P = A @ p # c # B" "key p < k" "k \<le> key c"
    using assms by (auto simp: around_def)
  have "p \<in> set (on_level tp l P)" "c \<in> set (on_level tp l P)" unfolding F(1) by simp_all
  then show "p \<in> set P" "c \<in> set P" "l \<le> tp p" "l \<le> tp c" unfolding on_level_set by simp_all
  show "key p < k" "k \<le> key c" by (rule F(2), rule F(3))
qed

text \<open>
  The levels below \<open>n\<close>, searched from a node \<open>p\<close> that reaches that high, give the
  neighbours of the key on every level and the highest level on which the key is met.
\<close>

definition found_level :: "(nat \<Rightarrow> int) \<Rightarrow> int \<Rightarrow> (nat \<Rightarrow> nat) \<Rightarrow> nat \<Rightarrow> nat option \<Rightarrow> nat option \<Rightarrow> bool" where
  "found_level key k sc n before after \<longleftrightarrow>
     (case before of Some l \<Rightarrow> after = Some l
      | None \<Rightarrow> (case after of None \<Rightarrow> \<forall>l<n. key (sc l) \<noteq> k
         | Some l \<Rightarrow> l < n \<and> key (sc l) = k \<and> (\<forall>m. l < m \<and> m < n \<longrightarrow> key (sc m) \<noteq> k)))"

lemma find_levels_spec:
  assumes sh: "shape_sk h P" and ch: "P \<noteq> []" "ksorted (kk h) P" "\<forall>a\<in>set P. a < length h"
    and k: "k \<le> kk h (last P)"
  shows "\<lbrakk>p \<in> set P; n \<le> Suc (tt h p); kk h p < k; n \<le> SKIPLIST_MAX_LEVEL;
      length preds = SKIPLIST_MAX_LEVEL; length succs = SKIPLIST_MAX_LEVEL\<rbrakk> \<Longrightarrow>
    \<exists>lf' preds' succs' cur' pr sc.
      find_levels_sk h k n (Some p) cur lf preds succs = Inr (lf', preds', succs', cur')
      \<and> length preds' = SKIPLIST_MAX_LEVEL \<and> length succs' = SKIPLIST_MAX_LEVEL
      \<and> (\<forall>l<n. preds' ! l = Some (pr l) \<and> succs' ! l = Some (sc l)
           \<and> around (kk h) k (on_level (tt h) l P) (pr l) (sc l))
      \<and> (\<forall>l\<ge>n. preds' ! l = preds ! l \<and> succs' ! l = succs ! l)
      \<and> (\<forall>l. Suc l < n \<longrightarrow> further (kk h) (pr (Suc l)) (pr l))
      \<and> (0 < n \<longrightarrow> further (kk h) p (pr (n - 1)) \<and> cur' = Some (sc 0))
      \<and> found_level (kk h) k sc n lf lf'"
proof (induction n arbitrary: p cur lf preds succs)
  case 0
  then show ?case by (auto simp: found_level_def split: option.splits)
next
  case (Suc l)
  have l: "l < SKIPLIST_MAX_LEVEL" "l \<le> tt h p" using Suc.prems(2,4) by simp_all
  obtain c p1 c1 where s: "next_sk h l (Some p) = Inr (Some c)"
    "search_from (length h) (keyof_sk h) (next_sk h l) k (Some p) (Some c) = Inr (Some p1, Some c1)"
    "around (kk h) k (on_level (tt h) l P) p1 c1" "further (kk h) p p1"
    using level_search [OF sh ch l(1) Suc.prems(1) l(2) Suc.prems(3) k] by blast
  note m = around_mem [OF s(3)]
  have kc: "keyof_sk h (Some c1) = Inr (kk h c1)" using m(2) ch(3) by (simp add: keyof_sk_def deref_Some)
  let ?lf = "if lf = None \<and> k = kk h c1 then Some l else lf"
  let ?ps = "preds[l := Some p1]" and ?ss = "succs[l := Some c1]"
  have "p1 \<in> set P" "l \<le> Suc (tt h p1)" "kk h p1 < k" "l \<le> SKIPLIST_MAX_LEVEL"
    "length ?ps = SKIPLIST_MAX_LEVEL" "length ?ss = SKIPLIST_MAX_LEVEL"
    using m l Suc.prems(5,6) by simp_all
  from Suc.IH [OF this, of "Some c1" ?lf] obtain lf' preds' succs' cur' pr sc where r:
    "find_levels_sk h k l (Some p1) (Some c1) ?lf ?ps ?ss = Inr (lf', preds', succs', cur')"
    "length preds' = SKIPLIST_MAX_LEVEL" "length succs' = SKIPLIST_MAX_LEVEL"
    "\<forall>i<l. preds' ! i = Some (pr i) \<and> succs' ! i = Some (sc i)
           \<and> around (kk h) k (on_level (tt h) i P) (pr i) (sc i)"
    "\<forall>i\<ge>l. preds' ! i = ?ps ! i \<and> succs' ! i = ?ss ! i"
    "\<forall>i. Suc i < l \<longrightarrow> further (kk h) (pr (Suc i)) (pr i)"
    "0 < l \<longrightarrow> further (kk h) p1 (pr (l - 1)) \<and> cur' = Some (sc 0)"
    "found_level (kk h) k sc l ?lf lf'"
    by (elim exE conjE) (rule that, assumption+)
  let ?pr = "pr(l := p1)" and ?sc = "sc(l := c1)"
  have "find_levels_sk h k (Suc l) (Some p) cur lf preds succs = Inr (lf', preds', succs', cur')"
    using s(1,2) kc r(1) Suc.prems(5,6) l(1) by (simp add: aset_in)
  moreover have "\<forall>i<Suc l. preds' ! i = Some (?pr i) \<and> succs' ! i = Some (?sc i)
           \<and> around (kk h) k (on_level (tt h) i P) (?pr i) (?sc i)"
    using r(4,5) s(3) l(1) Suc.prems(5,6) by (auto simp: less_Suc_eq)
  moreover have "\<forall>i\<ge>Suc l. preds' ! i = preds ! i \<and> succs' ! i = succs ! i" using r(5) by auto
  moreover have "\<forall>i. Suc i < Suc l \<longrightarrow> further (kk h) (?pr (Suc i)) (?pr i)"
    using r(6,7) by (auto simp: less_Suc_eq)
  moreover have "further (kk h) p (?pr (Suc l - 1)) \<and> cur' = Some (?sc 0)"
  proof (cases "l = 0")
    case True
    then show ?thesis using s(4) r(1) by auto
  next
    case False
    then show ?thesis using s(4) r(7) by simp
  qed
  moreover have "found_level (kk h) k ?sc (Suc l) lf lf'"
    using r(8) by (auto simp: found_level_def less_Suc_eq split: option.splits if_splits)
  ultimately show ?case using r(2,3) by blast
qed
text \<open>
  What a search leaves in its arrays, on every level a pair of nodes with the key between
  them. None of this can be undone by other threads: keys and levels of nodes never change.
\<close>

definition found_sk :: "sk_node list \<Rightarrow> int \<Rightarrow> ptr list \<Rightarrow> ptr list \<Rightarrow> (nat \<Rightarrow> nat) \<Rightarrow> (nat \<Rightarrow> nat) \<Rightarrow> bool" where
  "found_sk h k preds succs pr sc \<longleftrightarrow>
     length preds = SKIPLIST_MAX_LEVEL \<and> length succs = SKIPLIST_MAX_LEVEL
     \<and> (\<forall>l<SKIPLIST_MAX_LEVEL. preds ! l = Some (pr l) \<and> succs ! l = Some (sc l)
          \<and> pr l < length h \<and> sc l < length h \<and> l \<le> tt h (pr l) \<and> l \<le> tt h (sc l)
          \<and> kk h (pr l) < k \<and> k \<le> kk h (sc l))
     \<and> (\<forall>l. Suc l < SKIPLIST_MAX_LEVEL \<longrightarrow> further (kk h) (pr (Suc l)) (pr l))"

text \<open>What a search says of the present state.\<close>

definition found_now_sk :: "sk_node list \<Rightarrow> nat list \<Rightarrow> int \<Rightarrow> nat option \<Rightarrow> (nat \<Rightarrow> nat) \<Rightarrow> (nat \<Rightarrow> nat) \<Rightarrow> bool" where
  "found_now_sk h P k lf pr sc \<longleftrightarrow>
     (\<forall>l<SKIPLIST_MAX_LEVEL. around (kk h) k (on_level (tt h) l P) (pr l) (sc l))
     \<and> (case lf of None \<Rightarrow> \<forall>l<SKIPLIST_MAX_LEVEL. kk h (sc l) \<noteq> k
        | Some l \<Rightarrow> l < SKIPLIST_MAX_LEVEL \<and> kk h (sc l) = k)"

lemma find_impl_spec:
  assumes ch: "chain_sk s ta P" and k: "KEY_MIN_sk s < k" "k \<le> KEY_MAX_sk s"
  shows "\<exists>lf preds succs cur pr sc. find_impl_sk s k = Inr (lf, preds, succs, cur)
    \<and> found_sk (heap_sk s) k preds succs pr sc \<and> found_now_sk (heap_sk s) P k lf pr sc \<and> cur = Some (sc 0)"
proof -
  let ?h = "heap_sk s" let ?ha = "the (p_head_sk s)"
  note d = chain_skD [OF ch]
  have hp: "?ha \<in> set P" using hd_in_set [OF d(6)] d(4) by simp
  have th: "tt ?h ?ha = SKIPLIST_MAX_LEVEL - 1" using shape_skD(2) [OF d(2)] d(4) by simp
  have al: "\<forall>a\<in>set P. a < length ?h" using d(8) by blast
  have kl: "k \<le> kk ?h (last P)" using d(5,10) k(2) by simp
  have pos: "0 < SKIPLIST_MAX_LEVEL" by (simp add: SKIPLIST_MAX_LEVEL_def)
  have pre: "?ha \<in> set P" "SKIPLIST_MAX_LEVEL \<le> Suc (tt ?h ?ha)" "kk ?h ?ha < k"
    "SKIPLIST_MAX_LEVEL \<le> SKIPLIST_MAX_LEVEL"
    "length (replicate SKIPLIST_MAX_LEVEL None) = SKIPLIST_MAX_LEVEL" using hp th d(9) k(1) by simp_all
  from find_levels_spec [OF d(2,6,7) al kl pre pre(5), of None None]
  obtain lf preds succs cur pr sc where r:
    "find_levels_sk ?h k SKIPLIST_MAX_LEVEL (Some ?ha) None None (replicate SKIPLIST_MAX_LEVEL None)
      (replicate SKIPLIST_MAX_LEVEL None) = Inr (lf, preds, succs, cur)"
    "length preds = SKIPLIST_MAX_LEVEL" "length succs = SKIPLIST_MAX_LEVEL"
    "\<forall>l<SKIPLIST_MAX_LEVEL. preds ! l = Some (pr l) \<and> succs ! l = Some (sc l)
           \<and> around (kk ?h) k (on_level (tt ?h) l P) (pr l) (sc l)"
    "\<forall>l. Suc l < SKIPLIST_MAX_LEVEL \<longrightarrow> further (kk ?h) (pr (Suc l)) (pr l)"
    "0 < SKIPLIST_MAX_LEVEL \<longrightarrow> further (kk ?h) ?ha (pr (SKIPLIST_MAX_LEVEL - 1)) \<and> cur = Some (sc 0)"
    "found_level (kk ?h) k sc SKIPLIST_MAX_LEVEL None lf"
    by (elim exE conjE) (rule that, assumption+)
  have "find_impl_sk s k = Inr (lf, preds, succs, cur)"
    using r(1) d(3) unfolding find_impl_sk_def by simp
  moreover have "found_sk ?h k preds succs pr sc"
    unfolding found_sk_def using r(2,3,4,5) around_mem al by metis
  moreover have "found_now_sk ?h P k lf pr sc"
    using r(4,7) unfolding found_now_sk_def found_level_def by (simp split: option.splits)
  ultimately show ?thesis using r(6) pos by blast
qed

text \<open>The bottom level of the present search are neighbours of the chain.\<close>

lemma found_bottom:
  assumes "found_now_sk h P k lf pr sc"
  obtains us vs where "P = us @ pr 0 # sc 0 # vs" "kk h (pr 0) < k" "k \<le> kk h (sc 0)"
proof -
  have "around (kk h) k (on_level (tt h) 0 P) (pr 0) (sc 0)"
    using assms by (simp add: found_now_sk_def SKIPLIST_MAX_LEVEL_def)
  moreover have "on_level (tt h) 0 P = P" by (simp add: on_level_def)
  ultimately show thesis using that by (auto simp: around_def)
qed

text \<open>A key met on an upper level is met at the same node on the bottom level.\<close>

lemma found_same:
  assumes f: "found_now_sk h P k (Some l) pr sc" and srt: "ksorted (kk h) P"
  shows "sc l = sc 0" "kk h (sc 0) = k"
proof -
  have l: "l < SKIPLIST_MAX_LEVEL" "kk h (sc l) = k" "around (kk h) k (on_level (tt h) l P) (pr l) (sc l)"
    using f by (auto simp: found_now_sk_def)
  obtain us vs where P: "P = us @ pr 0 # sc 0 # vs" "kk h (pr 0) < k" "k \<le> kk h (sc 0)"
    using f by (elim found_bottom)
  have "sc l \<in> set P" using around_mem [OF l(3)] by simp
  then have "sc l \<in> set (us @ [pr 0]) \<or> sc l = sc 0 \<or> sc l \<in> set vs" using P(1) by auto
  moreover have "sc l \<notin> set (us @ [pr 0])" using split_bounds(1) [of "kk h" us "pr 0" "sc 0" vs k] srt P l(2) by auto
  moreover have "sc l \<notin> set vs"
  proof
    assume "sc l \<in> set vs"
    then have "kk h (sc 0) < kk h (sc l)" using srt P(1) by (simp add: sorted_wrt_append)
    then show False using P(3) l(2) by simp
  qed
  ultimately show "sc l = sc 0" by blast
  then show "kk h (sc 0) = k" using l(2) by simp
qed

lemma found_absent:
  assumes f: "found_now_sk h P k None pr sc"
  shows "kk h (sc 0) \<noteq> k"
  using f by (simp add: found_now_sk_def SKIPLIST_MAX_LEVEL_def)

end
