(* ===== verification/Bundled_Skiplist_Locks.thy ===== *)
theory Bundled_Skiplist_Locks
  imports Bundled_Skiplist_Correct
begin

text \<open>
  The parts of the update methods of the bundled skip list, one by one: taking and leaving
  the locks of the predecessors, writing the pointers of the levels, and one update of a
  set of bundles around such a write.
\<close>

section \<open>Locks\<close>

lemma lock_sk:
  assumes "a < length h" "a \<notin> L"
  shows "sl_node_lock (Some a) (with_locks L h) = Inr (with_locks (insert a L) h)"
proof -
  have "(with_locks L h)[a := (with_locks L h ! a)\<lparr>lock_sk := 1\<rparr>] = with_locks (insert a L) h"
    using assms by (intro nth_equalityI) (auto simp: nth_list_update)
  then show ?thesis using assms by (simp add: sl_node_lock_def deref_Some update_at_Some)
qed

lemma unlock_sk:
  assumes "a < length h"
  shows "sl_node_unlock (Some a) (with_locks L h) = Inr (with_locks (L - {a}) h)"
proof -
  have "(with_locks L h)[a := (with_locks L h ! a)\<lparr>lock_sk := 0\<rparr>] = with_locks (L - {a}) h"
    using assms by (intro nth_equalityI) (auto simp: nth_list_update)
  then show ?thesis using assms by (simp add: sl_node_unlock_def update_at_Some)
qed

text \<open>Predecessors of higher levels that are not the same node have smaller keys.\<close>

lemma further_mono:
  assumes "\<forall>l. Suc l < m \<longrightarrow> further key (pr (Suc l)) (pr l)" "j \<le> i" "i < m"
  shows "further key (pr i) (pr j)"
  using assms(2,3)
proof (induction i)
  case 0
  then show ?case by (simp add: further_def)
next
  case (Suc i)
  have "further key (pr (Suc i)) (pr i)" using assms(1) Suc.prems(2) by simp
  with Suc show ?case by (cases "j = Suc i") (auto simp: further_def)
qed

lemma fresh_sk:
  assumes f: "found_sk h k preds succs pr sc" and l: "l < SKIPLIST_MAX_LEVEL"
  shows "fresh_pred preds l = Inr (pr l \<notin> pr ` {..<l})"
proof (cases l)
  case 0
  then show ?thesis by (simp add: fresh_pred_def)
next
  case (Suc j)
  have len: "length preds = SKIPLIST_MAX_LEVEL" and fu: "\<forall>l. Suc l < SKIPLIST_MAX_LEVEL \<longrightarrow> further (kk h) (pr (Suc l)) (pr l)"
    and p: "preds ! l = Some (pr l)" "preds ! j = Some (pr j)" using f l Suc by (simp_all add: found_sk_def)
  have "pr l \<notin> pr ` {..<l}" if ne: "pr l \<noteq> pr j"
  proof
    assume "pr l \<in> pr ` {..<l}"
    then obtain i where i: "i < l" "pr l = pr i" by auto
    have "further (kk h) (pr j) (pr i)" by (rule further_mono [OF fu]) (use i Suc l in simp_all)
    moreover have "further (kk h) (pr l) (pr j)" by (rule further_mono [OF fu]) (use Suc l in simp_all)
    ultimately show False using i(2) ne by (auto simp: further_def)
  qed
  moreover have "pr j \<in> pr ` {..<l}" using Suc by simp
  ultimately have "(pr l \<notin> pr ` {..<l}) = (pr l \<noteq> pr j)" by metis
  then show ?thesis using len l Suc p by (simp add: fresh_pred_def aref_def)
qed

lemma lock_preds_run:
  assumes f: "found_sk h k preds succs pr sc" and n: "lv + n \<le> SKIPLIST_MAX_LEVEL"
    and L: "L \<inter> pr ` {..<SKIPLIST_MAX_LEVEL} = {}"
    and check: "\<And>L l. l < lv + n \<Longrightarrow> check (with_locks L h) l (Some (pr l)) = Inr (V l)"
    and V: "\<forall>l<lv. V l"
  shows "\<exists>m hl ok. lock_preds_sk n preds check lv (if lv = 0 then None else Some (lv - 1))
      (with_locks (L \<union> pr ` {..<lv}) h) = Inr (with_locks (L \<union> pr ` {..<m}) h, hl, ok)
    \<and> m \<le> SKIPLIST_MAX_LEVEL \<and> levels_upto hl = m \<and> ok = (\<forall>l<lv + n. V l)"
  using n check V
proof (induction n arbitrary: lv)
  case 0
  then show ?case by (intro exI [of _ lv]) (auto simp: levels_upto_def)
next
  case (Suc n)
  have lv: "lv < SKIPLIST_MAX_LEVEL" using Suc.prems(1) by simp
  have p: "aref preds lv = Inr (Some (pr lv))" "pr lv < length h" using f lv by (simp_all add: found_sk_def aref_def)
  let ?L = "L \<union> pr ` {..<lv}" and ?L' = "L \<union> pr ` {..<Suc lv}"
  have nL: "pr lv \<notin> L" using L lv by auto
  have e: "insert (pr lv) ?L = ?L'" by (auto simp: lessThan_Suc)
  have lk: "(if pr lv \<notin> pr ` {..<lv} then sl_node_lock (Some (pr lv)) (with_locks ?L h) else Inr (with_locks ?L h))
      = Inr (with_locks ?L' h)"
  proof (cases "pr lv \<in> pr ` {..<lv}")
    case True
    then have "?L' = ?L" by (auto simp: lessThan_Suc)
    then show ?thesis using True by simp
  next
    case False
    then show ?thesis using lock_sk [OF p(2), of ?L] nL unfolding e by simp
  qed
  have ck: "check (with_locks ?L' h) lv (Some (pr lv)) = Inr (V lv)" using Suc.prems(2) by simp
  show ?case
  proof (cases "V lv")
    case True
    have "\<exists>m hl ok. lock_preds_sk n preds check (Suc lv) (if Suc lv = 0 then None else Some (Suc lv - 1))
        (with_locks ?L' h) = Inr (with_locks (L \<union> pr ` {..<m}) h, hl, ok)
      \<and> m \<le> SKIPLIST_MAX_LEVEL \<and> levels_upto hl = m \<and> ok = (\<forall>l<Suc lv + n. V l)"
      by (rule Suc.IH) (use Suc.prems True in \<open>auto simp: less_Suc_eq\<close>)
    then show ?thesis using p(1) fresh_sk [OF f lv] lk ck True by simp
  next
    case False
    then have "\<not> (\<forall>l<lv + Suc n. V l)" by (metis less_add_same_cancel1 zero_less_Suc)
    then show ?thesis using False p(1) fresh_sk [OF f lv] lk ck lv
      by (intro exI [of _ "Suc lv"] exI [of _ "Some lv"] exI [of _ False]) (auto simp: levels_upto_def)
  qed
qed

lemma unlock_preds_run:
  assumes f: "found_sk h k preds succs pr sc" and g: "length h \<le> length g"
  shows "lv + n \<le> SKIPLIST_MAX_LEVEL \<Longrightarrow>
    unlock_preds_sk n preds lv (with_locks (pr ` {..<lv + n} - pr ` {..<lv}) g) = Inr (with_locks {} g)"
proof (induction n arbitrary: lv)
  case (Suc n)
  have lv: "lv < SKIPLIST_MAX_LEVEL" using Suc.prems by simp
  have p: "aref preds lv = Inr (Some (pr lv))" "pr lv < length g" using f lv g by (auto simp: found_sk_def aref_def intro: less_le_trans)
  let ?L = "pr ` {..<lv + Suc n} - pr ` {..<lv}"
  let ?L' = "pr ` {..<Suc lv + n} - pr ` {..<Suc lv}"
  have u: "(if pr lv \<notin> pr ` {..<lv} then sl_node_unlock (Some (pr lv)) (with_locks ?L g) else Inr (with_locks ?L g))
      = Inr (with_locks ?L' g)"
  proof (cases "pr lv \<in> pr ` {..<lv}")
    case True
    then have "?L' = ?L" by (auto simp: lessThan_Suc)
    then show ?thesis using True by simp
  next
    case False
    have "?L - {pr lv} = ?L'" by (auto simp: lessThan_Suc)
    then show ?thesis using False unlock_sk [OF p(2), of ?L] by simp
  qed
  have "unlock_preds_sk n preds (Suc lv) (with_locks ?L' g) = Inr (with_locks {} g)"
    using Suc.IH [of "Suc lv"] Suc.prems by simp
  then show ?case by (simp only: unlock_preds_sk.simps p(1) fresh_sk [OF f lv] obind.simps u)
qed (simp add: with_locks_def)

lemma unlock_preds_all:
  assumes "found_sk h k preds succs pr sc" "length h \<le> length g" "m \<le> SKIPLIST_MAX_LEVEL" "\<And>a. ll g a = 0"
  shows "unlock_preds_sk m preds 0 (with_locks (pr ` {..<m}) g) = Inr g"
  using unlock_preds_run [OF assms(1,2), of 0 m] assms(3) with_locks_empty [of g] assms(4) by simp
section \<open>Writes of the level pointers\<close>

definition same_but_next :: "sk_node list \<Rightarrow> sk_node list \<Rightarrow> bool" where
  "same_but_next h h' \<longleftrightarrow> length h' = length h \<and> kk h' = kk h \<and> vv h' = vv h \<and> tt h' = tt h \<and> bb h' = bb h
     \<and> dd h' = dd h \<and> ff h' = ff h \<and> ll h' = ll h \<and> wl h' = wl h"

lemma same_but_next_refl [simp]: "same_but_next h h"
  by (simp add: same_but_next_def)

lemma same_but_next_trans: "same_but_next g h \<Longrightarrow> same_but_next h k \<Longrightarrow> same_but_next g k"
  by (simp add: same_but_next_def)

lemma set_next_ok:
  assumes "a < length h" "l < wl h a"
  obtains h' where "set_next_sk l (Some a) q h = Inr h'" "same_but_next h h'"
    "nn l h' = (nn l h)(a := q)" "\<And>m. m \<noteq> l \<Longrightarrow> nn m h' = nn m h"
proof
  let ?h = "h[a := (h ! a)\<lparr>p_next_sk := (p_next_sk (h ! a))[l := q]\<rparr>]"
  show "set_next_sk l (Some a) q h = Inr ?h"
    using assms by (simp add: set_next_sk_def res_simps)
  show "same_but_next h ?h"
    unfolding same_but_next_def by (simp add: fld_update_same del: fld_in)
  show "nn l ?h = (nn l h)(a := q)" using assms by (simp add: fld_update)
  show "nn m ?h = nn m h" if "m \<noteq> l" for m using assms that by (simp add: fld_update_same)
qed

text \<open>One pointer per level: the shape that all three loops over the levels have.\<close>

definition levels_written :: "nat \<Rightarrow> (nat \<Rightarrow> nat) \<Rightarrow> (nat \<Rightarrow> ptr) \<Rightarrow> sk_node list \<Rightarrow> sk_node list \<Rightarrow> bool" where
  "levels_written n at q h h' \<longleftrightarrow> same_but_next h h'
     \<and> (\<forall>l. nn l h' = (if l < n then (nn l h)(at l := q l) else nn l h))"

lemma levels_written_0 [simp]: "levels_written 0 at q h h"
  by (simp add: levels_written_def)

lemma levels_written_Suc:
  assumes w: "levels_written n at q h h1" and a: "at n < length h" "n < wl h (at n)"
  shows "\<exists>h2. set_next_sk n (Some (at n)) (q n) h1 = Inr h2 \<and> levels_written (Suc n) at q h h2"
proof -
  have s: "same_but_next h h1" using w by (simp add: levels_written_def)
  have "at n < length h1" "n < wl h1 (at n)" using s a by (simp_all add: same_but_next_def del: fld_in)
  from set_next_ok [OF this, of "q n"] obtain h2 where
    h2: "set_next_sk n (Some (at n)) (q n) h1 = Inr h2" "same_but_next h1 h2"
      "nn n h2 = (nn n h1)(at n := q n)" "\<And>m. m \<noteq> n \<Longrightarrow> nn m h2 = nn m h1" by blast
  have "nn l h2 = (if l < Suc n then (nn l h)(at l := q l) else nn l h)" for l
    using w h2(3) h2(4) [of l] by (cases "l = n") (auto simp: levels_written_def less_Suc_eq simp del: fld_in)
  then show ?thesis using h2(1) same_but_next_trans [OF s h2(2)] by (auto simp: levels_written_def)
qed

lemma fill_next_run:
  assumes a: "a < length h" "\<And>l. l < n \<Longrightarrow> l < wl h a" and sc: "\<And>l. l < n \<Longrightarrow> aref succs l = Inr (Some (sc l))"
  shows "\<exists>h'. fill_next_sk n (Some a) succs h = Inr h' \<and> levels_written n (\<lambda>_. a) (\<lambda>l. Some (sc l)) h h'"
  using a(2) sc
proof (induction n)
  case (Suc n)
  then obtain h1 where h1: "fill_next_sk n (Some a) succs h = Inr h1"
    "levels_written n (\<lambda>_. a) (\<lambda>l. Some (sc l)) h h1" by auto
  from levels_written_Suc [OF h1(2) a(1)] Suc.prems(1) [of n]
  show ?case using h1(1) Suc.prems(2) [of n] by simp
qed simp

lemma link_new_run:
  assumes pr: "\<And>l. l < n \<Longrightarrow> aref preds l = Inr (Some (pr l)) \<and> pr l < length h \<and> l < wl h (pr l)"
  shows "\<exists>h'. link_new_sk n (Some a) preds h = Inr h' \<and> levels_written n pr (\<lambda>_. Some a) h h'"
  using pr
proof (induction n)
  case (Suc n)
  have "\<exists>h'. link_new_sk n (Some a) preds h = Inr h' \<and> levels_written n pr (\<lambda>_. Some a) h h'"
    by (rule Suc.IH) (simp add: Suc.prems del: fld_in)
  then obtain h1 where h1: "link_new_sk n (Some a) preds h = Inr h1"
    "levels_written n pr (\<lambda>_. Some a) h h1" by blast
  have p: "aref preds n = Inr (Some (pr n))" "pr n < length h" "n < wl h (pr n)"
    using Suc.prems [of n] by (simp_all del: fld_in)
  from levels_written_Suc [OF h1(2) p(2,3)] show ?case using h1(1) p(1) by simp
qed simp

text \<open>The levels of a victim are unlinked from the top down, each from what it holds there.\<close>

lemma unlink_run:
  assumes c: "c < length h" "\<And>l. l < n \<Longrightarrow> l < wl h c"
    and pr: "\<And>l. l < n \<Longrightarrow> aref preds l = Inr (Some (pr l)) \<and> pr l < length h \<and> l < wl h (pr l)"
  shows "\<exists>h'. unlink_sk n (Some c) preds h = Inr h' \<and> levels_written n pr (\<lambda>l. nn l h c) h h'"
  using assms
proof (induction n arbitrary: h)
  case (Suc n)
  have nx: "next_sk h n (Some c) = Inr (nn n h c)" using Suc.prems by (intro next_sk_at) simp_all
  have p: "aref preds n = Inr (Some (pr n))" "pr n < length h" "n < wl h (pr n)"
    using Suc.prems(3) [of n] by (simp_all del: fld_in)
  from set_next_ok [OF p(2,3), of "nn n h c"] obtain h1 where
    h1: "set_next_sk n (Some (pr n)) (nn n h c) h = Inr h1" "same_but_next h h1"
      "nn n h1 = (nn n h)(pr n := nn n h c)" "\<And>m. m \<noteq> n \<Longrightarrow> nn m h1 = nn m h" by blast
  have "\<exists>h'. unlink_sk n (Some c) preds h1 = Inr h' \<and> levels_written n pr (\<lambda>l. nn l h1 c) h1 h'"
    by (rule Suc.IH) (use Suc.prems h1(2) in \<open>simp_all add: same_but_next_def del: fld_in\<close>)
  then obtain h2 where h2: "unlink_sk n (Some c) preds h1 = Inr h2" "levels_written n pr (\<lambda>l. nn l h1 c) h1 h2"
    by blast
  have "nn l h2 = (if l < Suc n then (nn l h)(pr l := nn l h c) else nn l h)" for l
    using h2(2) h1(3) h1(4) [of l] by (cases "l = n") (auto simp: levels_written_def less_Suc_eq simp del: fld_in)
  moreover have "same_but_next h h2"
    using same_but_next_trans [OF h1(2)] h2(2) by (simp add: levels_written_def)
  ultimately have "levels_written (Suc n) pr (\<lambda>l. nn l h c) h h2" by (auto simp: levels_written_def)
  then show ?case using nx p(1) h1(1) h2(1) by simp
qed simp

section \<open>Writes under the locks\<close>

lemma fill_next_commutes: "commutes (with_locks L) (fill_next_sk n a succs)"
  by (induction n) (simp_all add: commutes_obind commutes_read set_next_commutes)

lemma link_new_commutes:
  "commutes (with_locks L) (link_new_sk n a preds)" "commutes frame_sk (link_new_sk n a preds)"
proof -
  show "commutes (with_locks L) (link_new_sk n a preds)"
    by (induction n) (simp_all add: commutes_obind commutes_read set_next_commutes)
  show "commutes frame_sk (link_new_sk n a preds)"
    by (induction n) (simp_all add: commutes_obind commutes_read set_next_commutes)
qed

lemma next_with_locks: "next_sk (with_locks L h) l p = next_sk h l p"
  by (auto simp: next_sk_def deref_def split: option.splits)

lemma unlink_commutes: "commutes (with_locks L) (unlink_sk n c preds)"
proof (induction n)
  case (Suc n)
  have "commutes (with_locks L) (\<lambda>h. obind (next_sk h n c) (\<lambda>q. obind (aref preds n)
     (\<lambda>p. obind (set_next_sk n p q h) (unlink_sk n c preds))))"
    by (intro commutes_read commutes_obind set_next_commutes Suc.IH next_with_locks refl)
  then show ?case by simp
qed simp

lemma prepare_commutes: "commutes (with_locks L) (prepare_bundles q upd_bundle_sk rqs)"
proof (induction rqs)
  case (Cons e rqs)
  then show ?case by (cases e) (simp add: commutes_obind upd_bundle_commutes)
qed simp

lemma finalize_commutes: "commutes (with_locks L) (finalize_bundles upd_bundle_sk rqs t)"
proof (induction rqs)
  case (Cons e rqs)
  then show ?case by (cases e) (simp add: commutes_obind upd_bundle_commutes)
qed simp
section \<open>One update of a set of bundles\<close>

lemma set_next_peek: "set_next_sk l p q h = Inr h' \<Longrightarrow> peek_sk h' = peek_sk h"
  by (auto simp: set_next_sk_def peek_sk_def obind_Inr_iff deref_Inr_iff update_at_Inr_iff aset_def fun_eq_iff
      nth_list_update split: option.splits if_splits)

lemma link_new_peek: "link_new_sk n a preds h = Inr h' \<Longrightarrow> peek_sk h' = peek_sk h"
  by (induction n arbitrary: h') (auto simp: obind_Inr_iff dest: set_next_peek)

lemma update_at_peek:
  "update_at h p f = Inr h' \<Longrightarrow> (\<And>n. rqbundle_sk (f n) = rqbundle_sk n) \<Longrightarrow> peek_sk h' = peek_sk h"
  by (auto simp: peek_sk_def update_at_Inr_iff fun_eq_iff nth_list_update split: option.splits)

text \<open>
  \<open>pushed t bs b\<close>: the bundles \<open>b\<close> with one more entry at each of the addresses \<open>bs\<close>.
\<close>

definition pushed :: "timestamp_t \<Rightarrow> (nat \<times> ptr) list \<Rightarrow> (nat \<Rightarrow> ptr bundle_t) \<Rightarrow> nat \<Rightarrow> ptr bundle_t" where
  "pushed t bs b a = (case map_of bs a of None \<Rightarrow> b a | Some q \<Rightarrow> push_entry t q (b a))"

lemma map_of_Some_keys: "map_of (map (\<lambda>(a, q). (Some a, q)) bs) (Some a) = map_of bs a"
  by (induction bs) auto

lemma update_bundles_sk:
  assumes c: "\<not> cleanup_update p" "t \<noteq> BUNDLE_PENDING_TIMESTAMP"
    and bs: "distinct (map fst bs)" "\<forall>a\<in>fst ` set bs. a < length h"
    and w: "commutes frame_sk wr" "wr h = Inr hw" "\<And>g g'. wr g = Inr g' \<Longrightarrow> peek_sk g' = peek_sk g"
    and len: "length hw = length h"
  shows "\<exists>h1 h2 h3. prepare_bundles p upd_bundle_sk (map (\<lambda>(a, q). (Some a, q)) bs) h = Inr h1
    \<and> wr h1 = Inr h2 \<and> finalize_bundles upd_bundle_sk (map (\<lambda>(a, q). (Some a, q)) bs) t h2 = Inr h3
    \<and> frame_sk h3 = frame_sk hw \<and> length h3 = length h \<and> bb h3 = pushed t bs (bb h)"
proof -
  let ?bs = "map (\<lambda>(a, q). (Some a, q)) bs"
  have "\<exists>h2. wr h1 = Inr h2 \<and> frame_sk h2 = frame_sk hw \<and> peek_sk h2 = peek_sk h1"
    if f: "frame_sk h1 = frame_sk h" for h1
  proof -
    have "obind (wr h1) (\<lambda>h'. Inr (frame_sk h')) = Inr (frame_sk hw)"
      using commutesD [OF w(1), of h1] commutesD [OF w(1), of h] f w(2) by simp
    then obtain h2 where "wr h1 = Inr h2" "frame_sk h2 = frame_sk hw" by (auto simp: obind_Inr_iff)
    then show ?thesis using w(3) by blast
  qed
  moreover have "distinct (map fst ?bs)"
    using bs(1) by (auto simp: distinct_map inj_on_def comp_def case_prod_unfold)
  moreover have "\<forall>r\<in>fst ` set ?bs. peek_sk h r \<noteq> None" using bs(2) by (auto simp: peek_sk_def)
  ultimately obtain h1 h2 h3 where g: "prepare_bundles p upd_bundle_sk ?bs h = Inr h1" "wr h1 = Inr h2"
    "finalize_bundles upd_bundle_sk ?bs t h2 = Inr h3" "frame_sk h3 = frame_sk hw"
    "\<forall>r. peek_sk h3 r = (case map_of ?bs r of None \<Rightarrow> peek_sk h r
       | Some q \<Rightarrow> map_option (push_entry t q) (peek_sk h r))"
    using skb.update_bundles_ok [OF c, of ?bs h wr "frame_sk hw"] by blast
  have l3: "length h3 = length h" using g(4) len by (metis length_frame_sk)
  have "bb h3 a = pushed t bs (bb h) a" for a
  proof (cases "a < length h")
    case True
    then show ?thesis
      using bundles_pushed_sk [OF l3 g(5), of a] by (simp add: pushed_def map_of_Some_keys del: fld_in)
  next
    case False
    then have "map_of bs a = None" using bs(2) by (auto simp: map_of_eq_None_iff)
    then show ?thesis
      using bundles_pushed_sk [OF l3 g(5), of a] False by (simp add: pushed_def fld_def)
  qed
  then show ?thesis using g(1-4) l3 by blast
qed

lemma same_frame_fields:
  assumes "frame_sk g = frame_sk h"
  shows "kk g = kk h" "vv g = vv h" "tt g = tt h" "dd g = dd h" "ff g = ff h" "nn l g = nn l h" "ll g = ll h" "wl g = wl h"
  using assms by (metis frame_sk_fields)+

end
