(* ===== verification/Bundled_Skiplist_Ops.thy ===== *)
theory Bundled_Skiplist_Ops
  imports Bundled_Skiplist_Locks
begin

text \<open>
  Insertion and deletion of the bundled skip list: the sections under the locks as one
  transition of the view, on the result of any earlier search, and the whole methods.
\<close>

section \<open>Insertion under the locks\<close>

definition insert_ok :: "sk_node list \<Rightarrow> (nat \<Rightarrow> nat) \<Rightarrow> (nat \<Rightarrow> nat) \<Rightarrow> nat \<Rightarrow> bool" where
  "insert_ok h pr sc l \<longleftrightarrow> \<not> dd h (pr l) \<and> \<not> dd h (sc l) \<and> nn l h (pr l) = Some (sc l)"

text \<open>Nothing is locked and every node has its twenty pointers.\<close>

definition idle_sk :: "sk_node list \<Rightarrow> bool" where
  "idle_sk h \<longleftrightarrow> (\<forall>a. ll h a = 0) \<and> (\<forall>a. wl h a = SKIPLIST_MAX_LEVEL)"

lemma found_skD:
  assumes "found_sk h k preds succs pr sc" "l < SKIPLIST_MAX_LEVEL"
  shows "aref preds l = Inr (Some (pr l))" "aref succs l = Inr (Some (sc l))" "pr l < length h" "sc l < length h"
    "l \<le> tt h (pr l)" "l \<le> tt h (sc l)" "kk h (pr l) < k" "k \<le> kk h (sc l)"
  using assms by (simp_all add: found_sk_def aref_def del: fld_in)

lemma insert_valid_at:
  assumes "found_sk h k preds succs pr sc" "idle_sk h" "l < SKIPLIST_MAX_LEVEL"
  shows "insert_valid_sk succs (with_locks L h) l (Some (pr l)) = Inr (insert_ok h pr sc l)"
proof -
  note f = found_skD [OF assms(1,3)]
  have "l < length (p_next_sk (h ! pr l))" using assms(2,3) f(3) by (metis idle_sk_def fld_in)
  then show ?thesis using f(2-4)
    by (simp add: insert_valid_sk_def insert_ok_def deref_Some aref_def)
qed

definition new_node_sk :: "int \<Rightarrow> int \<Rightarrow> nat \<Rightarrow> sk_node" where
  "new_node_sk k v t = \<lparr>rqbundle_sk = [], lock_sk = 0, key_sk = k, val_sk = v, topLevel_sk = t,
     marked_sk = 0, fullyLinked_sk = 0, p_next_sk = replicate SKIPLIST_MAX_LEVEL None\<rparr>"

lemma init_allocated:
  "initNode_sk (Some (length h)) k v t (h @ [\<lparr>rqbundle_sk = [], lock_sk = 0, key_sk = 0, val_sk = 0,
     topLevel_sk = 0, marked_sk = 0, fullyLinked_sk = 0, p_next_sk = replicate SKIPLIST_MAX_LEVEL None\<rparr>])
   = Inr (h @ [new_node_sk k v t])"
  by (simp add: initNode_sk_def update_at_def new_node_sk_def init_bundle_def)

definition linked_write :: "nat \<Rightarrow> nat \<Rightarrow> ptr list \<Rightarrow> sk_node list \<Rightarrow> sk_node list res" where
  "linked_write t n preds h = obind (link_new_sk (Suc t) (Some n) preds h)
     (\<lambda>h. update_at h (Some n) (\<lambda>n. n\<lparr>fullyLinked_sk := 1\<rparr>))"

lemma linked_write_simps:
  "commutes frame_sk (linked_write t n preds)"
  "linked_write t n preds g = Inr g' \<Longrightarrow> peek_sk g' = peek_sk g"
  unfolding linked_write_def
  by (auto intro!: commutes_obind link_new_commutes update_commutes_frame
      simp: obind_Inr_iff simp del: link_new_sk.simps dest!: link_new_peek update_at_peek)

text \<open>The heap after an insertion, field by field.\<close>

definition inserted_sk ::
    "sk_node list \<Rightarrow> int \<Rightarrow> int \<Rightarrow> nat \<Rightarrow> (nat \<Rightarrow> nat) \<Rightarrow> (nat \<Rightarrow> nat) \<Rightarrow> timestamp_t \<Rightarrow> sk_node list \<Rightarrow> bool"
where
  "inserted_sk h k v t pr sc T g \<longleftrightarrow>
     length g = Suc (length h) \<and> kk g = (kk h)(length h := k) \<and> vv g = (vv h)(length h := v)
     \<and> tt g = (tt h)(length h := t) \<and> bb g = ins_bun (bb h) T (pr 0) (sc 0) (length h)
     \<and> dd g = (dd h)(length h := False) \<and> ff g = (ff h)(length h := True) \<and> idle_sk g
     \<and> (\<forall>l\<le>t. nn l g = (nn l h)(pr l := Some (length h), length h := Some (sc l)))
     \<and> (\<forall>l a. t < l \<longrightarrow> a \<noteq> length h \<longrightarrow> nn l g a = nn l h a)"

lemma inserted_skD:
  assumes "inserted_sk h k v t pr sc T g"
  shows "length g = Suc (length h)" "kk g = (kk h)(length h := k)" "vv g = (vv h)(length h := v)"
    "tt g = (tt h)(length h := t)" "bb g = ins_bun (bb h) T (pr 0) (sc 0) (length h)"
    "dd g = (dd h)(length h := False)" "ff g = (ff h)(length h := True)" "idle_sk g"
    "l \<le> t \<Longrightarrow> nn l g = (nn l h)(pr l := Some (length h), length h := Some (sc l))"
    "t < l \<Longrightarrow> a \<noteq> length h \<Longrightarrow> nn l g a = nn l h a"
  using assms unfolding inserted_sk_def by blast+

text \<open>The writes of an insertion, without the locks.\<close>

lemma insert_writes:
  assumes f: "found_sk h k preds succs pr sc" and id: "idle_sk h" and t: "t < SKIPLIST_MAX_LEVEL"
    and q: "\<not> cleanup_update q" "T \<noteq> BUNDLE_PENDING_TIMESTAMP"
    and n: "n = length h"
  shows "\<exists>g1 g2 g3 g4 g5. fill_next_sk (Suc t) (Some n) succs (h @ [new_node_sk k v t]) = Inr g1
    \<and> prepare_bundles q upd_bundle_sk [(Some (pr 0), Some n), (Some n, Some (sc 0))] g1 = Inr g2
    \<and> link_new_sk (Suc t) (Some n) preds g2 = Inr g3
    \<and> update_at g3 (Some n) (\<lambda>n. n\<lparr>fullyLinked_sk := 1\<rparr>) = Inr g4
    \<and> finalize_bundles upd_bundle_sk [(Some (pr 0), Some n), (Some n, Some (sc 0))] T g4 = Inr g5
    \<and> inserted_sk h k v t pr sc T g5"
proof -
  let ?g0 = "h @ [new_node_sk k v t]"
  let ?bs = "[(pr 0, Some n), (n, Some (sc 0))]"
  have z: "0 < SKIPLIST_MAX_LEVEL" by (simp add: SKIPLIST_MAX_LEVEL_def)
  note f' = found_skD [OF f] and f0 = found_skD [OF f z]
  have ne: "pr l \<noteq> n" if "l \<le> t" for l using f'(3) [of l] that t n by auto
  have g0: "kk ?g0 = (kk h)(n := k)" "vv ?g0 = (vv h)(n := v)" "tt ?g0 = (tt h)(n := t)" "bb ?g0 = (bb h)(n := [])"
    "dd ?g0 = (dd h)(n := False)" "ff ?g0 = (ff h)(n := False)" "ll ?g0 = (ll h)(n := 0)"
    "wl ?g0 = (wl h)(n := SKIPLIST_MAX_LEVEL)" "nn l ?g0 = (nn l h)(n := replicate SKIPLIST_MAX_LEVEL None ! l)" for l
    unfolding fld_append n by (simp_all add: new_node_sk_def)
  have w0: "wl ?g0 a = SKIPLIST_MAX_LEVEL" for a using id unfolding g0(8) idle_sk_def by (simp del: fld_in)
  obtain g1 where g1: "fill_next_sk (Suc t) (Some n) succs ?g0 = Inr g1"
    "levels_written (Suc t) (\<lambda>_. n) (\<lambda>l. Some (sc l)) ?g0 g1"
    using fill_next_run [of n ?g0 "Suc t" succs sc] f'(2) t n unfolding w0 by auto
  have s1: "same_but_next ?g0 g1" using g1(2) by (simp add: levels_written_def)
  have w1: "wl g1 a = SKIPLIST_MAX_LEVEL" "length g1 = Suc n" for a
    using s1 w0 n by (simp_all add: same_but_next_def del: fld_in)
  have low: "aref preds l = Inr (Some (pr l)) \<and> pr l < length g1 \<and> l < SKIPLIST_MAX_LEVEL" if "l < Suc t" for l
    using f'(1,3) [of l] that t n w1(2) by simp
  obtain g2 where g2: "link_new_sk (Suc t) (Some n) preds g1 = Inr g2"
    "levels_written (Suc t) pr (\<lambda>_. Some n) g1 g2"
    using link_new_run [of "Suc t" preds pr g1 n] low unfolding w1(1) by blast
  have s2: "same_but_next g1 g2" using g2(2) by (simp add: levels_written_def)
  have n2: "n < length g2" using s2 w1(2) by (simp add: same_but_next_def)
  let ?w = "g2[n := (g2 ! n)\<lparr>fullyLinked_sk := 1\<rparr>]"
  have wr: "linked_write t n preds g1 = Inr ?w"
    unfolding linked_write_def using g2(1) n2 by (simp add: update_at_Some del: link_new_sk.simps)
  have fw: "kk ?w = kk g2" "vv ?w = vv g2" "tt ?w = tt g2" "dd ?w = dd g2" "ll ?w = ll g2"
    "wl ?w = wl g2" "nn l ?w = nn l g2" for l
    by (simp_all add: fld_update_same)
  have fw': "ff ?w = (ff g2)(n := True)" using n2 by (simp add: fld_update del: fld_in)
  have dist: "distinct (map fst ?bs)" "\<forall>a\<in>fst ` set ?bs. a < length g1" "length ?w = length g1"
    using ne [of 0] f0(3) w1(2) n s2 by (auto simp: same_but_next_def)
  obtain p1 p2 p3 where p: "prepare_bundles q upd_bundle_sk (map (\<lambda>(a, q). (Some a, q)) ?bs) g1 = Inr p1"
    "linked_write t n preds p1 = Inr p2"
    "finalize_bundles upd_bundle_sk (map (\<lambda>(a, q). (Some a, q)) ?bs) T p2 = Inr p3"
    "frame_sk p3 = frame_sk ?w" "length p3 = length g1" "bb p3 = pushed T ?bs (bb g1)"
    using update_bundles_sk [OF q dist(1,2) linked_write_simps(1) wr linked_write_simps(2) [of t n preds] dist(3)]
    by blast
  note sf = same_frame_fields [OF p(4)]
  have e1: "kk g1 = kk ?g0" "vv g1 = vv ?g0" "tt g1 = tt ?g0" "bb g1 = bb ?g0" "dd g1 = dd ?g0" "ff g1 = ff ?g0"
    "ll g1 = ll ?g0" "wl g1 = wl ?g0" using s1 by (simp_all add: same_but_next_def)
  have e2: "kk g2 = kk g1" "vv g2 = vv g1" "tt g2 = tt g1" "dd g2 = dd g1" "ff g2 = ff g1"
    "ll g2 = ll g1" "wl g2 = wl g1" using s2 by (simp_all add: same_but_next_def)
  have b: "bb p3 = ins_bun (bb h) T (pr 0) (sc 0) n"
    unfolding p(6) e1 g0 using ne [of 0] by (auto simp: pushed_def ins_bun_def fun_eq_iff)
  have nx: "nn l p3 = (if l \<le> t then (nn l h)(pr l := Some n, n := Some (sc l))
      else (nn l h)(n := replicate SKIPLIST_MAX_LEVEL None ! l))" for l
    using g1(2) g2(2) ne [of l] unfolding sf fw levels_written_def g0 by (auto simp: less_Suc_eq_le fun_upd_twist)
  have i: "idle_sk p3" using id unfolding idle_sk_def sf fw e2 e1 g0 by (simp del: fld_in)
  have ff: "ff p3 = (ff h)(n := True)" unfolding sf fw' e2 e1 g0 by simp
  obtain g3 where g3: "link_new_sk (Suc t) (Some n) preds p1 = Inr g3"
    "update_at g3 (Some n) (\<lambda>n. n\<lparr>fullyLinked_sk := 1\<rparr>) = Inr p2"
    using p(2) unfolding linked_write_def obind_Inr_iff by blast
  have k3: "kk p3 = (kk h)(n := k)" "vv p3 = (vv h)(n := v)" "tt p3 = (tt h)(n := t)" "dd p3 = (dd h)(n := False)"
    unfolding sf(1-4) fw(1-4) e2 e1 g0 by simp_all
  have nx': "\<forall>l\<le>t. nn l p3 = (nn l h)(pr l := Some n, n := Some (sc l))"
    "\<forall>l a. t < l \<longrightarrow> a \<noteq> n \<longrightarrow> nn l p3 a = nn l h a"
    unfolding nx by simp_all
  have l3: "length p3 = Suc n" using p(5) w1(2) by simp
  have p': "prepare_bundles q upd_bundle_sk [(Some (pr 0), Some n), (Some n, Some (sc 0))] g1 = Inr p1"
    "finalize_bundles upd_bundle_sk [(Some (pr 0), Some n), (Some n, Some (sc 0))] T p2 = Inr p3"
    using p(1,3) by (simp_all del: prepare_bundles.simps finalize_bundles.simps)
  show ?thesis
    by (rule exI [of _ g1], rule exI [of _ p1], rule exI [of _ g3], rule exI [of _ p2], rule exI [of _ p3])
      (use g1(1) p' g3 l3 k3 b ff i nx' n in \<open>unfold inserted_sk_def, blast\<close>)
qed

lemma with_locks_idle: "idle_sk h \<Longrightarrow> with_locks {} h = h"
  by (rule with_locks_empty) (simp add: idle_sk_def del: fld_in)

lemma lock_preds_all:
  assumes f: "found_sk h k preds succs pr sc" and t: "t < SKIPLIST_MAX_LEVEL"
    and L: "L \<inter> pr ` {..<SKIPLIST_MAX_LEVEL} = {}"
    and check: "\<And>L l. l \<le> t \<Longrightarrow> check (with_locks L h) l (Some (pr l)) = Inr (V l)"
  obtains m hl where "lock_preds_sk (Suc t) preds check 0 None (with_locks L h)
      = Inr (with_locks (L \<union> pr ` {..<m}) h, hl, \<forall>l\<le>t. V l)"
    "m \<le> SKIPLIST_MAX_LEVEL" "levels_upto hl = m"
  using lock_preds_run [OF f, of 0 "Suc t" L check V] t L check by (auto simp: less_Suc_eq_le)

text \<open>The section under the locks: a retry that changes nothing, or the insertion.\<close>

lemma insert_locked_sk_invalid:
  assumes f: "found_sk (heap_sk s) k preds succs pr sc" and id: "idle_sk (heap_sk s)" and t: "t < SKIPLIST_MAX_LEVEL"
    and v: "\<not> (\<forall>l\<le>t. insert_ok (heap_sk s) pr sc l)"
  shows "insert_locked_sk s tid preds succs k x t = Inr (enterQuiescentState_sk s tid, False)"
proof -
  let ?h = "heap_sk s"
  have ck: "insert_valid_sk succs (with_locks L ?h) l (Some (pr l)) = Inr (insert_ok ?h pr sc l)" if "l \<le> t" for L l
    using insert_valid_at [OF f id, of l L] that t by simp
  obtain m hl where l: "lock_preds_sk (Suc t) preds (insert_valid_sk succs) 0 None (with_locks {} ?h)
      = Inr (with_locks ({} \<union> pr ` {..<m}) ?h, hl, \<forall>l\<le>t. insert_ok ?h pr sc l)"
    "m \<le> SKIPLIST_MAX_LEVEL" "levels_upto hl = m"
    using lock_preds_all [OF f t, of "{}" "insert_valid_sk succs" "insert_ok ?h pr sc"] ck by auto
  have "unlock_preds_sk m preds 0 (with_locks (pr ` {..<m}) ?h) = Inr ?h"
    by (rule unlock_preds_all [OF f order_refl l(2)]) (use id in \<open>simp add: idle_sk_def del: fld_in\<close>)
  then show ?thesis using l(1,3) v
    by (simp add: insert_locked_sk_def with_locks_idle [OF id] del: lock_preds_sk.simps)
qed

lemma insert_locked_sk_valid:
  assumes f: "found_sk (heap_sk s) k preds succs pr sc" and id: "idle_sk (heap_sk s)" and t: "t < SKIPLIST_MAX_LEVEL"
    and v: "\<forall>l\<le>t. insert_ok (heap_sk s) pr sc l" and clk: "clock_ok (rq_sk s)"
  shows "\<exists>h' q'. insert_locked_sk s tid preds succs k x t =
      Inr (enterQuiescentState_sk (s\<lparr>heap_sk := h', rq_sk := q'\<rparr>) tid, True)
    \<and> rq_tick (rq_sk s) q' \<and> inserted_sk (heap_sk s) k x t pr sc (curr_timestamp (rq_sk s) + 1) h'"
proof -
  let ?h = "heap_sk s" let ?n = "length ?h" let ?T = "curr_timestamp (rq_sk s) + 1"
  have ck: "insert_valid_sk succs (with_locks L ?h) l (Some (pr l)) = Inr (insert_ok ?h pr sc l)" if "l \<le> t" for L l
    using insert_valid_at [OF f id, of l L] that t by simp
  obtain m hl where l: "lock_preds_sk (Suc t) preds (insert_valid_sk succs) 0 None (with_locks {} ?h)
      = Inr (with_locks ({} \<union> pr ` {..<m}) ?h, hl, \<forall>l\<le>t. insert_ok ?h pr sc l)"
    "m \<le> SKIPLIST_MAX_LEVEL" "levels_upto hl = m"
    using lock_preds_all [OF f t, of "{}" "insert_valid_sk succs" "insert_ok ?h pr sc"] ck by auto
  let ?L = "pr ` {..<m}"
  have z: "0 < SKIPLIST_MAX_LEVEL" by (simp add: SKIPLIST_MAX_LEVEL_def)
  note f0 = found_skD [OF f z]
  have nL: "?n \<notin> ?L"
  proof
    assume "?n \<in> ?L"
    then obtain i where "i < m" "pr i = ?n" by force
    then show False using found_skD(3) [OF f, of i] l(2) by simp
  qed
  have T: "\<not> cleanup_update (rq_sk s)" "?T \<noteq> BUNDLE_PENDING_TIMESTAMP"
    using clk by (auto simp: clock_ok_def timestamp_defs)
  obtain g1 g2 g3 g4 g5 where g: "fill_next_sk (Suc t) (Some ?n) succs (?h @ [new_node_sk k x t]) = Inr g1"
    "prepare_bundles (rq_sk s) upd_bundle_sk [(Some (pr 0), Some ?n), (Some ?n, Some (sc 0))] g1 = Inr g2"
    "link_new_sk (Suc t) (Some ?n) preds g2 = Inr g3"
    "update_at g3 (Some ?n) (\<lambda>n. n\<lparr>fullyLinked_sk := 1\<rparr>) = Inr g4"
    "finalize_bundles upd_bundle_sk [(Some (pr 0), Some ?n), (Some ?n, Some (sc 0))] ?T g4 = Inr g5"
    "inserted_sk ?h k x t pr sc ?T g5"
    using insert_writes [OF f id t T refl, of x] by blast
  note d = inserted_skD [OF g(6)]
  let ?L' = "insert ?n ?L"
  have al: "with_locks ?L ?h @ [new_node_sk k x t] = with_locks ?L (?h @ [new_node_sk k x t])"
    by (rule with_locks_append [OF nL]) (simp add: new_node_sk_def)
  have lk: "sl_node_lock (Some ?n) (with_locks ?L (?h @ [new_node_sk k x t]))
      = Inr (with_locks ?L' (?h @ [new_node_sk k x t]))"
    by (rule lock_sk) (use nL in simp_all)
  have up: "commutes (with_locks ?L') (\<lambda>h. update_at h (Some ?n) (\<lambda>n. n\<lparr>fullyLinked_sk := 1\<rparr>))"
    by (rule update_commutes) simp
  note w = commutes_run [OF fill_next_commutes g(1), of ?L'] commutes_run [OF prepare_commutes g(2), of ?L']
    commutes_run [OF link_new_commutes(1) g(3), of ?L'] commutes_run [OF up g(4)]
    commutes_run [OF finalize_commutes g(5), of ?L']
  have "?L' - {?n} = ?L" using nL by auto
  then have ul: "sl_node_unlock (Some ?n) (with_locks ?L' g5) = Inr (with_locks ?L g5)"
    using unlock_sk [of ?n g5 ?L'] d(1) by simp
  have up: "unlock_preds_sk m preds 0 (with_locks ?L g5) = Inr g5"
    by (rule unlock_preds_all [OF f _ l(2)]) (use d(1,8) in \<open>simp_all add: idle_sk_def del: fld_in\<close>)
  obtain b where b: "get_update_lin_time (rq_sk s) tid = (?T, rq_sk s\<lparr>curr_timestamp := ?T, backoff_amt := b\<rparr>)"
    using get_update_lin_time_seq [OF clk] by blast
  have in1: "initNode_sk (Some ?n) k x t (with_locks ?L ?h @ [\<lparr>rqbundle_sk = [], lock_sk = 0, key_sk = 0, val_sk = 0,
     topLevel_sk = 0, marked_sk = 0, fullyLinked_sk = 0, p_next_sk = replicate SKIPLIST_MAX_LEVEL None\<rparr>])
     = Inr (with_locks ?L (?h @ [new_node_sk k x t]))"
    using init_allocated [of "with_locks ?L ?h" k x t] al by simp
  have "insert_locked_sk s tid preds succs k x t = Inr (enterQuiescentState_sk
      (s\<lparr>heap_sk := g5, rq_sk := rq_sk s\<lparr>curr_timestamp := ?T, backoff_amt := b\<rparr>\<rparr>) tid, True)"
    using l v f0(1,2) in1 lk w ul up b
    by (simp add: insert_locked_sk_def with_locks_idle [OF id] allocateNode_sk_def Let_def
        del: lock_preds_sk.simps fill_next_sk.simps link_new_sk.simps prepare_bundles.simps finalize_bundles.simps)
  then show ?thesis using g(6) by (auto simp: rq_tick_def)
qed

section \<open>Insertion as a transition of the view\<close>

lemma quiescent_sk_sel [simp]:
  "heap_sk (enterQuiescentState_sk s tid) = heap_sk s" "p_head_sk (enterQuiescentState_sk s tid) = p_head_sk s"
  "rq_sk (enterQuiescentState_sk s tid) = rq_sk s" "KEY_MIN_sk (enterQuiescentState_sk s tid) = KEY_MIN_sk s"
  "KEY_MAX_sk (enterQuiescentState_sk s tid) = KEY_MAX_sk s" "NO_VALUE_sk (enterQuiescentState_sk s tid) = NO_VALUE_sk s"
  "retired_sk (enterQuiescentState_sk s tid) = retired_sk s" "quiescent_sk (enterQuiescentState_sk s tid) tid"
  "heap_sk (leaveQuiescentState_sk s tid) = heap_sk s" "p_head_sk (leaveQuiescentState_sk s tid) = p_head_sk s"
  "rq_sk (leaveQuiescentState_sk s tid) = rq_sk s" "KEY_MIN_sk (leaveQuiescentState_sk s tid) = KEY_MIN_sk s"
  "KEY_MAX_sk (leaveQuiescentState_sk s tid) = KEY_MAX_sk s" "NO_VALUE_sk (leaveQuiescentState_sk s tid) = NO_VALUE_sk s"
  "retired_sk (leaveQuiescentState_sk s tid) = retired_sk s"
  by (simp_all add: enterQuiescentState_sk_def leaveQuiescentState_sk_def)

lemma quiescent_view_sk [simp]:
  "view_sk (enterQuiescentState_sk s tid) = view_sk s" "view_sk (leaveQuiescentState_sk s tid) = view_sk s"
  by (simp_all add: view_sk_def)

lemma quiescent_abs_sk [simp]:
  "chain_sk (enterQuiescentState_sk s tid) ta P = chain_sk s ta P"
  "chain_sk (leaveQuiescentState_sk s tid) ta P = chain_sk s ta P"
  "wf_sk base (enterQuiescentState_sk s tid) = wf_sk base s" "wf_sk base (leaveQuiescentState_sk s tid) = wf_sk base s"
  "contents_sk (enterQuiescentState_sk s tid) = contents_sk s" "contents_sk (leaveQuiescentState_sk s tid) = contents_sk s"
  "snapshot_sk (enterQuiescentState_sk s tid) u = snapshot_sk s u" "snapshot_sk (leaveQuiescentState_sk s tid) u = snapshot_sk s u"
  "steps_to_sk base s d (enterQuiescentState_sk s' tid) = steps_to_sk base s d s'"
  "steps_to_sk base s d (leaveQuiescentState_sk s' tid) = steps_to_sk base s d s'"
  "steps_to_sk base (leaveQuiescentState_sk s tid) d s' = steps_to_sk base s d s'"
  by (simp_all add: chain_sk_def wf_sk_def contents_sk_def snapshot_sk_def steps_to_sk_def)

lemma wf_skD:
  assumes "wf_sk base s"
  shows "mode (rq_sk s) = Update_Clock" "\<not> cleanup_update (rq_sk s)" "wf_v base (view_sk s)"
    "curr_timestamp (rq_sk s) < BUNDLE_MAX_TIMESTAMP \<Longrightarrow> clock_ok (rq_sk s)"
  using assms wf_v_clock [of base "view_sk s"] by (auto simp: wf_sk_def clock_ok_def timestamp_defs)

lemma shape_idle: "shape_sk h P \<Longrightarrow> idle_sk h"
  by (simp add: shape_sk_def idle_sk_def)

lemma live_in_chain:
  assumes "chain_sk s ta P" "a < length (heap_sk s)" "\<not> dd (heap_sk s) a"
  shows "a \<in> set P"
  using chain_invD(11) [OF chain_vD(1) [OF chain_skD(1) [OF assms(1)]]] assms(2,3) by (auto simp del: fld_in)

text \<open>Two live nodes linked on a level are neighbours there, however old the search.\<close>

lemma linked_around:
  assumes ch: "chain_sk s ta P" and l: "l < SKIPLIST_MAX_LEVEL"
    and p: "p < length (heap_sk s)" "\<not> dd (heap_sk s) p" "l \<le> tt (heap_sk s) p" "kk (heap_sk s) p < k"
    and c: "c < length (heap_sk s)" "\<not> dd (heap_sk s) c" "k \<le> kk (heap_sk s) c"
    and nx: "nn l (heap_sk s) p = Some c"
  shows "around (kk (heap_sk s)) k (on_level (tt (heap_sk s)) l P) p c"
proof -
  let ?h = "heap_sk s"
  note d = chain_skD [OF ch]
  have m: "p \<in> set P" "c \<in> set P" using live_in_chain [OF ch] p(1,2) c(1,2) by blast+
  have "kk ?h c \<le> kk ?h (last P)"
    using d(6,7) m(2) by (cases P rule: rev_cases) (auto simp: sorted_wrt_append simp del: fld_in)
  then have "p \<noteq> last P" using p(4) c(3) by auto
  moreover have "l \<le> tt ?h (last P)" using shape_skD(3) [OF d(2)] l by simp
  ultimately obtain A x B where F: "on_level (tt ?h) l P = A @ p # x # B" "nn l ?h p = Some x"
    using level_next [OF shape_skD(1) [OF d(2) l] m(1) p(3)] by blast
  then show ?thesis using nx p(4) c(3) unfolding around_def by auto
qed
lemma insert_shape:
  assumes ch: "chain_sk s ta P" and P: "P = us @ p # c # vs" and t: "t < SKIPLIST_MAX_LEVEL"
    and k: "kk (heap_sk s) p < k" "k < kk (heap_sk s) c"
    and ar: "\<And>l. l \<le> t \<Longrightarrow> around (kk (heap_sk s)) k (on_level (tt (heap_sk s)) l P) (pr l) (sc l)"
    and g: "inserted_sk (heap_sk s) k x t pr sc T g"
  shows "shape_sk g (us @ p # length (heap_sk s) # c # vs)"
proof -
  let ?h = "heap_sk s" let ?n = "length ?h" let ?P' = "us @ p # ?n # c # vs"
  note d = chain_skD [OF ch] and f = inserted_skD [OF g] and s = shape_skD [OF chain_skD(2) [OF ch]]
  have fresh: "?n \<notin> set P" using d(8) by auto
  have srt: "ksorted (kk ?h) (us @ p # c # vs)" using d(7) P by simp
  have "levels_inv SKIPLIST_MAX_LEVEL (tt ?h) (\<lambda>l. nn l ?h) (us @ p # c # vs)"
    using d(2) P by (simp add: shape_sk_def)
  then have lv: "levels_inv SKIPLIST_MAX_LEVEL ((tt ?h)(?n := t)) (\<lambda>l. nn l g) ?P'"
    using levels_insert [of SKIPLIST_MAX_LEVEL "tt ?h" "\<lambda>l. nn l ?h" us p c vs "kk ?h" k ?n t pr sc "\<lambda>l. nn l g"]
      srt k fresh ar f(9,10) P by simp
  have hl: "hd ?P' = hd P" "last ?P' = last P" unfolding P by (cases us) simp_all
  have "hd P \<in> set P" "last P \<in> set P" using d(6) by simp_all
  then have ne: "hd P \<noteq> ?n" "last P \<noteq> ?n" using fresh by metis+
  have old: "tt g a = tt ?h a" "ff g a = ff ?h a" if "a \<noteq> ?n" for a using that f(4,7) by simp_all
  have set': "a \<in> set ?P' \<longleftrightarrow> a = ?n \<or> a \<in> set P" for a using P by auto
  have new: "tt g ?n = t" "ff g ?n" using f(4,7) by simp_all
  show ?thesis
    unfolding shape_sk_def hl f(4)
  proof (intro conjI)
    show "levels_inv SKIPLIST_MAX_LEVEL ((tt ?h)(?n := t)) (\<lambda>l. nn l g) ?P'" by (rule lv)
    show "((tt ?h)(?n := t)) (hd P) = SKIPLIST_MAX_LEVEL - 1" "((tt ?h)(?n := t)) (last P) = SKIPLIST_MAX_LEVEL - 1"
      using ne s(2,3) by simp_all
    show "\<forall>a\<in>set ?P'. ((tt ?h)(?n := t)) a < SKIPLIST_MAX_LEVEL" unfolding Ball_def set' using s(4) t by simp
    show "\<forall>a\<in>set ?P'. a \<noteq> hd P \<and> a \<noteq> last P \<longrightarrow> ff g a"
      unfolding Ball_def set' using s(7) new(2) old(2) by metis
    show "\<forall>a. wl g a = SKIPLIST_MAX_LEVEL" "\<forall>a. ll g a = 0" using f(8) by (simp_all add: idle_sk_def del: fld_in)
  qed
qed

lemma insert_locked_sk_step:
  assumes wf: "wf_sk base s" and clk: "curr_timestamp (rq_sk s) < BUNDLE_MAX_TIMESTAMP"
    and f: "found_sk (heap_sk s) k preds succs pr sc" and t: "t < SKIPLIST_MAX_LEVEL"
    and k: "\<And>l. l \<le> t \<Longrightarrow> kk (heap_sk s) (sc l) \<noteq> k" "k < KEY_MAX_sk s"
    and v: "\<forall>l\<le>t. insert_ok (heap_sk s) pr sc l"
  shows "\<exists>s'. insert_locked_sk s tid preds succs k x t = Inr (s', True)
    \<and> steps_to_sk base s (ins_kv k x (contents_sk s)) s' \<and> map_of (contents_sk s) k = None
    \<and> quiescent_sk s' tid \<and> retired_sk s' = retired_sk s \<and> NO_VALUE_sk s' = NO_VALUE_sk s"
proof -
  let ?h = "heap_sk s" let ?n = "length ?h"
  obtain ta P where ch: "chain_sk s ta P" using wf by (auto simp: wf_sk_def)
  note d = chain_skD [OF ch] and w = wf_skD [OF wf]
  have low: "l < SKIPLIST_MAX_LEVEL" if "l \<le> t" for l using that t by simp
  have ar: "around (kk ?h) k (on_level (tt ?h) l P) (pr l) (sc l)" if "l \<le> t" for l
  proof -
    note fl = found_skD [OF f low [OF that]]
    show ?thesis
      by (rule linked_around [OF ch low [OF that] fl(3) _ fl(5,7,4) _ fl(8)])
        (use v that in \<open>simp_all add: insert_ok_def del: fld_in\<close>)
  qed
  have "on_level (tt ?h) 0 P = P" by (simp add: on_level_def)
  then obtain us vs where P: "P = us @ pr 0 # sc 0 # vs" "kk ?h (pr 0) < k" "k \<le> kk ?h (sc 0)"
    using ar [of 0] by (auto simp: around_def)
  have kc: "k < kk ?h (sc 0)" using P(3) k(1) [of 0] by simp
  obtain h' q' where run: "insert_locked_sk s tid preds succs k x t =
      Inr (enterQuiescentState_sk (s\<lparr>heap_sk := h', rq_sk := q'\<rparr>) tid, True)"
    and tick: "rq_tick (rq_sk s) q'" and g: "inserted_sk ?h k x t pr sc (curr_timestamp (rq_sk s) + 1) h'"
    using insert_locked_sk_valid [OF f shape_idle [OF d(2)] t v w(4) [OF clk], of tid x] by blast
  let ?s = "s\<lparr>heap_sk := h', rq_sk := q'\<rparr>"
  note fd = inserted_skD [OF g]
  have "view_sk ?s = insert_view (view_sk s) (pr 0) (sc 0) k x"
    using fd(1-3,5,6) fd(9) [of 0] rq_tickD(1) [OF tick] by (simp add: view_sk_def insert_view_def ins_nxt_def)
  note view = this
  have chv: "chain_v (view_sk s) ta (us @ pr 0 # sc 0 # vs)" using d(1) P(1) by simp
  have cs: "cnow (view_sk s) < BUNDLE_MAX_TIMESTAMP" using clk by simp
  have kv: "ckey (view_sk s) (pr 0) < k" "k < ckey (view_sk s) (sc 0)" using P(2) kc by (simp_all del: fld_in)
  have "chain_v (view_sk ?s) ta (us @ pr 0 # ?n # sc 0 # vs)"
    using insert_view_chain [OF w(3) cs chv kv] view by simp
  moreover have "shape_sk h' (us @ pr 0 # ?n # sc 0 # vs)"
    by (rule insert_shape [OF ch P(1) t P(2) kc ar g])
  ultimately have ch': "chain_sk ?s ta (us @ pr 0 # ?n # sc 0 # vs)" using ch by (simp add: chain_sk_def)
  have st: "steps_v base (view_sk s) (ins_kv k x (contents_sk s)) (view_sk ?s)"
    unfolding view contents_sk_def by (rule insert_view_steps [OF w(3) cs chv kv])
  then have "wf_sk base ?s"
    using ch' w rq_tickD [OF tick] unfolding wf_sk_def steps_v_def by auto
  moreover have "map_of (contents_sk s) k = None"
    using contents_v_at(1) [OF chv kv(1) less_imp_le [OF kv(2)]] k(2) kv(2) by (simp add: contents_sk_def del: fld_in)
  ultimately show ?thesis using run st by (simp add: steps_to_sk_def)
qed
section \<open>Deletion under the locks\<close>

definition erase_ok :: "sk_node list \<Rightarrow> (nat \<Rightarrow> nat) \<Rightarrow> nat \<Rightarrow> nat \<Rightarrow> bool" where
  "erase_ok h pr c l \<longleftrightarrow> \<not> dd h (pr l) \<and> nn l h (pr l) = Some c"

lemma erase_valid_at:
  assumes "found_sk h k preds succs pr sc" "idle_sk h" "l < SKIPLIST_MAX_LEVEL"
  shows "erase_valid_sk (Some c) (with_locks L h) l (Some (pr l)) = Inr (erase_ok h pr c l)"
proof -
  note f = found_skD [OF assms(1,3)]
  have "l < length (p_next_sk (h ! pr l))" using assms(2,3) f(3) by (metis idle_sk_def fld_in)
  then show ?thesis using f(3) by (simp add: erase_valid_sk_def erase_ok_def deref_Some aref_def)
qed

text \<open>The heap after a deletion, field by field.\<close>

definition erased_sk :: "sk_node list \<Rightarrow> nat \<Rightarrow> nat \<Rightarrow> nat \<Rightarrow> (nat \<Rightarrow> nat) \<Rightarrow> timestamp_t \<Rightarrow> sk_node list \<Rightarrow> bool" where
  "erased_sk h ha c d pr T g \<longleftrightarrow>
     length g = length h \<and> kk g = kk h \<and> vv g = vv h \<and> tt g = tt h \<and> ff g = ff h
     \<and> bb g = del_bun (bb h) T (pr 0) c d ha \<and> dd g = (dd h)(c := True) \<and> idle_sk g
     \<and> (\<forall>l. nn l g = (if l \<le> tt h c then (nn l h)(pr l := nn l h c) else nn l h))"

lemma erased_skD:
  assumes "erased_sk h ha c d pr T g"
  shows "length g = length h" "kk g = kk h" "vv g = vv h" "tt g = tt h" "ff g = ff h"
    "bb g = del_bun (bb h) T (pr 0) c d ha" "dd g = (dd h)(c := True)" "idle_sk g"
    "nn l g = (if l \<le> tt h c then (nn l h)(pr l := nn l h c) else nn l h)"
  using assms unfolding erased_sk_def by blast+

lemma erase_writes:
  assumes f: "found_sk h k preds succs pr sc" and id: "idle_sk h"
    and c: "c < length h" "kk h c = k" "tt h c < SKIPLIST_MAX_LEVEL"
    and q: "\<not> cleanup_update q" "T \<noteq> BUNDLE_PENDING_TIMESTAMP"
  shows "\<exists>g1 g2 g3 g4. prepare_bundles q upd_bundle_sk [(Some (pr 0), Some d), (Some c, Some ha)] h = Inr g1
    \<and> update_at g1 (Some c) (\<lambda>n. n\<lparr>marked_sk := 1\<rparr>) = Inr g2
    \<and> finalize_bundles upd_bundle_sk [(Some (pr 0), Some d), (Some c, Some ha)] T g2 = Inr g3
    \<and> unlink_sk (Suc (tt h c)) (Some c) preds g3 = Inr g4 \<and> erased_sk h ha c d pr T g4"
proof -
  let ?bs = "[(pr 0, Some d), (c, Some ha)]"
  let ?wr = "\<lambda>h. update_at h (Some c) (\<lambda>n. n\<lparr>marked_sk := 1\<rparr>)"
  let ?w = "h[c := (h ! c)\<lparr>marked_sk := 1\<rparr>]"
  have z: "0 < SKIPLIST_MAX_LEVEL" by (simp add: SKIPLIST_MAX_LEVEL_def)
  note f' = found_skD [OF f] and f0 = found_skD [OF f z]
  have ne: "pr 0 \<noteq> c" using f0(7) c(2) by auto
  have w1: "commutes frame_sk ?wr" by (rule update_commutes_frame) simp
  have w2: "?wr h = Inr ?w" using c(1) by (simp add: update_at_Some)
  have w3: "?wr g = Inr g' \<Longrightarrow> peek_sk g' = peek_sk g" for g g' by (erule update_at_peek) simp
  have bs: "distinct (map fst ?bs)" "\<forall>a\<in>fst ` set ?bs. a < length h" "length ?w = length h"
    using ne f0(3) c(1) by simp_all
  obtain g1 g2 g3 where g: "prepare_bundles q upd_bundle_sk (map (\<lambda>(a, q). (Some a, q)) ?bs) h = Inr g1"
    "?wr g1 = Inr g2" "finalize_bundles upd_bundle_sk (map (\<lambda>(a, q). (Some a, q)) ?bs) T g2 = Inr g3"
    "frame_sk g3 = frame_sk ?w" "length g3 = length h" "bb g3 = pushed T ?bs (bb h)"
    using update_bundles_sk [OF q bs(1,2) w1 w2 w3 bs(3)] by blast
  note sf = same_frame_fields [OF g(4)]
  have fw: "kk ?w = kk h" "vv ?w = vv h" "tt ?w = tt h" "ll ?w = ll h" "wl ?w = wl h" "ff ?w = ff h"
    "nn l ?w = nn l h" "dd ?w = (dd h)(c := True)" for l
    using c(1) by (simp_all add: fld_update_same fld_update del: fld_in)
  have w: "wl g3 a = SKIPLIST_MAX_LEVEL" for a using id unfolding sf fw idle_sk_def by (simp del: fld_in)
  have low: "aref preds l = Inr (Some (pr l)) \<and> pr l < length g3 \<and> l < SKIPLIST_MAX_LEVEL" if "l < Suc (tt h c)" for l
    using f'(1,3) [of l] that c(3) g(5) by (simp del: fld_in)
  obtain g4 where g4: "unlink_sk (Suc (tt h c)) (Some c) preds g3 = Inr g4"
    "levels_written (Suc (tt h c)) pr (\<lambda>l. nn l g3 c) g3 g4"
    using unlink_run [of c g3 "Suc (tt h c)" preds pr] low c(1) g(5) unfolding w by (metis less_Suc_eq_le)
  have e: "length g4 = length g3" "kk g4 = kk g3" "vv g4 = vv g3" "tt g4 = tt g3" "bb g4 = bb g3" "dd g4 = dd g3"
    "ff g4 = ff g3" "ll g4 = ll g3" "wl g4 = wl g3"
    using g4(2) by (simp_all add: levels_written_def same_but_next_def)
  have b: "bb g4 = del_bun (bb h) T (pr 0) c d ha"
    unfolding e g(6) using ne by (auto simp: pushed_def del_bun_def fun_eq_iff)
  have nx: "nn l g4 = (if l \<le> tt h c then (nn l h)(pr l := nn l h c) else nn l h)" for l
    using g4(2) unfolding levels_written_def sf fw less_Suc_eq_le by (simp del: fld_in)
  have i: "idle_sk g4" using id unfolding idle_sk_def e sf fw by (simp del: fld_in)
  have "erased_sk h ha c d pr T g4"
    unfolding erased_sk_def by (intro conjI b i allI nx) (simp_all only: e sf fw g(5))
  moreover have "prepare_bundles q upd_bundle_sk [(Some (pr 0), Some d), (Some c, Some ha)] h = Inr g1"
    "finalize_bundles upd_bundle_sk [(Some (pr 0), Some d), (Some c, Some ha)] T g2 = Inr g3"
    using g(1,3) by (simp_all del: prepare_bundles.simps finalize_bundles.simps)
  ultimately show ?thesis using g(2) g4(1) by blast
qed
lemma victim_locks:
  assumes f: "found_sk h k preds succs pr sc" and id: "idle_sk h" and c: "c < length h" "kk h c = k" "tt h c < SKIPLIST_MAX_LEVEL"
  obtains m hl where "lock_preds_sk (Suc (tt h c)) preds (erase_valid_sk (Some c)) 0 None (with_locks {c} h)
      = Inr (with_locks (insert c (pr ` {..<m})) h, hl, \<forall>l\<le>tt h c. erase_ok h pr c l)"
    "m \<le> SKIPLIST_MAX_LEVEL" "levels_upto hl = m" "c \<notin> pr ` {..<m}"
proof -
  have ne: "c \<noteq> pr l" if "l < SKIPLIST_MAX_LEVEL" for l using found_skD(7) [OF f that] c(2) by auto
  have ck: "erase_valid_sk (Some c) (with_locks L h) l (Some (pr l)) = Inr (erase_ok h pr c l)" if "l \<le> tt h c" for L l
    using erase_valid_at [OF f id, of l c L] that c(3) by simp
  have "{c} \<inter> pr ` {..<SKIPLIST_MAX_LEVEL} = {}" using ne by auto
  then obtain m hl where "lock_preds_sk (Suc (tt h c)) preds (erase_valid_sk (Some c)) 0 None (with_locks {c} h)
      = Inr (with_locks ({c} \<union> pr ` {..<m}) h, hl, \<forall>l\<le>tt h c. erase_ok h pr c l)"
    "m \<le> SKIPLIST_MAX_LEVEL" "levels_upto hl = m"
    using lock_preds_all [OF f c(3), of "{c}" "erase_valid_sk (Some c)" "erase_ok h pr c"] ck by auto
  moreover have "c \<notin> pr ` {..<m}" using ne \<open>m \<le> SKIPLIST_MAX_LEVEL\<close> by (metis imageE lessThan_iff less_le_trans)
  ultimately show thesis using that [of m hl] unfolding insert_is_Un [of c "pr ` {..<m}"] by blast
qed

lemma erase_locked_sk_marked:
  assumes id: "idle_sk (heap_sk s)" and c: "c < length (heap_sk s)" "dd (heap_sk s) c"
  shows "erase_locked_sk s tid preds (Some c) = Inr (enterQuiescentState_sk s tid, Some (NO_VALUE_sk s))"
proof -
  let ?h = "heap_sk s"
  have "sl_node_lock (Some c) (with_locks {} ?h) = Inr (with_locks {c} ?h)"
    using lock_sk [OF c(1), of "{}"] by simp
  moreover have "sl_node_unlock (Some c) (with_locks {c} ?h) = Inr ?h"
    using unlock_sk [OF c(1), of "{c}"] with_locks_idle [OF id] by simp
  ultimately show ?thesis using c with_locks_idle [OF id] by (simp add: erase_locked_sk_def deref_Some Let_def)
qed

lemma erase_locked_sk_invalid:
  assumes f: "found_sk (heap_sk s) k preds succs pr sc" and id: "idle_sk (heap_sk s)"
    and c: "c < length (heap_sk s)" "kk (heap_sk s) c = k" "tt (heap_sk s) c < SKIPLIST_MAX_LEVEL" "\<not> dd (heap_sk s) c"
    and v: "\<not> (\<forall>l\<le>tt (heap_sk s) c. erase_ok (heap_sk s) pr c l)"
  shows "erase_locked_sk s tid preds (Some c) = Inr (enterQuiescentState_sk s tid, None)"
proof -
  let ?h = "heap_sk s"
  have lk: "sl_node_lock (Some c) (with_locks {} ?h) = Inr (with_locks {c} ?h)"
    using lock_sk [OF c(1), of "{}"] by simp
  obtain m hl where l: "lock_preds_sk (Suc (tt ?h c)) preds (erase_valid_sk (Some c)) 0 None (with_locks {c} ?h)
      = Inr (with_locks (insert c (pr ` {..<m})) ?h, hl, \<forall>l\<le>tt ?h c. erase_ok ?h pr c l)"
    "m \<le> SKIPLIST_MAX_LEVEL" "levels_upto hl = m" "c \<notin> pr ` {..<m}"
    using victim_locks [OF f id c(1-3)] by blast
  have ul: "sl_node_unlock (Some c) (with_locks (insert c (pr ` {..<m})) ?h) = Inr (with_locks (pr ` {..<m}) ?h)"
    using unlock_sk [OF c(1), of "insert c (pr ` {..<m})"] l(4) by simp
  have up: "unlock_preds_sk m preds 0 (with_locks (pr ` {..<m}) ?h) = Inr ?h"
    by (rule unlock_preds_all [OF f order_refl l(2)]) (use id in \<open>simp add: idle_sk_def del: fld_in\<close>)
  have e: "topLevel_sk (?h ! c) = tt ?h c" "marked_sk (?h ! c) = 0" using c(1,4) by simp_all
  have s: "s\<lparr>heap_sk := ?h, rq_sk := rq_sk s, retired_sk := retired_sk s\<rparr> = s" by simp
  show ?thesis
    unfolding erase_locked_sk_def
    using lk l(1,3) ul up v e c(1) with_locks_idle [OF id]
    by (simp add: deref_Some Let_def del: lock_preds_sk.simps fld_in)
qed

lemma erase_locked_sk_valid:
  assumes f: "found_sk (heap_sk s) k preds succs pr sc" and id: "idle_sk (heap_sk s)"
    and c: "c < length (heap_sk s)" "kk (heap_sk s) c = k" "tt (heap_sk s) c < SKIPLIST_MAX_LEVEL" "\<not> dd (heap_sk s) c"
    and v: "\<forall>l\<le>tt (heap_sk s) c. erase_ok (heap_sk s) pr c l" and clk: "clock_ok (rq_sk s)"
    and hd: "p_head_sk s = Some ha" and nx: "nn 0 (heap_sk s) c = Some d"
  shows "\<exists>h' q'. erase_locked_sk s tid preds (Some c) = Inr (enterQuiescentState_sk
      (s\<lparr>heap_sk := h', rq_sk := q', retired_sk := retired_sk s @ [Some c]\<rparr>) tid, Some (vv (heap_sk s) c))
    \<and> rq_tick (rq_sk s) q' \<and> erased_sk (heap_sk s) ha c d pr (curr_timestamp (rq_sk s) + 1) h'"
proof -
  let ?h = "heap_sk s" let ?T = "curr_timestamp (rq_sk s) + 1"
  have lk: "sl_node_lock (Some c) (with_locks {} ?h) = Inr (with_locks {c} ?h)"
    using lock_sk [OF c(1), of "{}"] by simp
  obtain m hl where l: "lock_preds_sk (Suc (tt ?h c)) preds (erase_valid_sk (Some c)) 0 None (with_locks {c} ?h)
      = Inr (with_locks (insert c (pr ` {..<m})) ?h, hl, \<forall>l\<le>tt ?h c. erase_ok ?h pr c l)"
    "m \<le> SKIPLIST_MAX_LEVEL" "levels_upto hl = m" "c \<notin> pr ` {..<m}"
    using victim_locks [OF f id c(1-3)] by blast
  let ?L = "insert c (pr ` {..<m})"
  have z: "0 < SKIPLIST_MAX_LEVEL" by (simp add: SKIPLIST_MAX_LEVEL_def)
  note f0 = found_skD [OF f z]
  have T: "\<not> cleanup_update (rq_sk s)" "?T \<noteq> BUNDLE_PENDING_TIMESTAMP"
    using clk by (auto simp: clock_ok_def timestamp_defs)
  obtain g1 g2 g3 g4 where g: "prepare_bundles (rq_sk s) upd_bundle_sk [(Some (pr 0), Some d), (Some c, Some ha)] ?h = Inr g1"
    "update_at g1 (Some c) (\<lambda>n. n\<lparr>marked_sk := 1\<rparr>) = Inr g2"
    "finalize_bundles upd_bundle_sk [(Some (pr 0), Some d), (Some c, Some ha)] ?T g2 = Inr g3"
    "unlink_sk (Suc (tt ?h c)) (Some c) preds g3 = Inr g4" "erased_sk ?h ha c d pr ?T g4"
    using erase_writes [OF f id c(1-3) T, of d ha] by blast
  note e = erased_skD [OF g(5)]
  have mk: "commutes (with_locks ?L) (\<lambda>h. update_at h (Some c) (\<lambda>n. n\<lparr>marked_sk := 1\<rparr>))"
    by (rule update_commutes) simp
  note w = commutes_run [OF prepare_commutes g(1), of ?L] commutes_run [OF mk g(2)]
    commutes_run [OF finalize_commutes g(3), of ?L] commutes_run [OF unlink_commutes g(4), of ?L]
  obtain q' where q': "linearize_update_at_write (rq_sk s) tid (\<lambda>h. update_at h (Some c) (\<lambda>n. n\<lparr>marked_sk := 1\<rparr>))
      (with_locks ?L g1) = Inr (?T, q', with_locks ?L g2)" "rq_tick (rq_sk s) q'"
    using linearize_ok [of "rq_sk s" "\<lambda>h. update_at h (Some c) (\<lambda>n. n\<lparr>marked_sk := 1\<rparr>)", OF clk w(2), of tid] by blast
  have ul: "sl_node_unlock (Some c) (with_locks ?L g4) = Inr (with_locks (pr ` {..<m}) g4)"
    using unlock_sk [of c g4 ?L] l(4) c(1) e(1) by simp
  have up: "unlock_preds_sk m preds 0 (with_locks (pr ` {..<m}) g4) = Inr g4"
    by (rule unlock_preds_all [OF f _ l(2)]) (use e(1,8) in \<open>simp_all add: idle_sk_def del: fld_in\<close>)
  have n0: "next_sk (with_locks ?L ?h) 0 (Some c) = Inr (Some d)"
    using next_sk_at [of c ?h 0] c(1) id z nx unfolding next_with_locks by (simp add: idle_sk_def del: fld_in)
  have vd: "deref (with_locks ?L g4) (Some c) = Inr (with_locks ?L g4 ! c)" "val_sk (with_locks ?L g4 ! c) = vv ?h c"
    using c(1) e(1) fun_cong [OF e(3), of c] by (simp_all add: deref_Some)
  have k: "topLevel_sk (?h ! c) = tt ?h c" "marked_sk (?h ! c) = 0" using c(1,4) by simp_all
  have "erase_locked_sk s tid preds (Some c) = Inr (enterQuiescentState_sk
      (s\<lparr>heap_sk := g4, rq_sk := q', retired_sk := retired_sk s @ [Some c]\<rparr>) tid, Some (vv ?h c))"
    unfolding erase_locked_sk_def
    using lk l(1,3) v k c(1) f0(1) n0 w(1,3,4) q'(1) vd ul up hd with_locks_idle [OF id]
    by (simp add: deref_Some [of c ?h] deref_Some [of c "with_locks {c} ?h"] Let_def physical_deletion_succeeded_def
        del: lock_preds_sk.simps fld_in unlink_sk.simps prepare_bundles.simps finalize_bundles.simps)
  then show ?thesis using g(5) q'(2) by blast
qed
section \<open>Deletion as a transition of the view\<close>

lemma erase_shape:
  assumes ch: "chain_sk s ta P" and P: "P = us @ p # c # d # vs"
    and pr: "\<And>l. l \<le> tt (heap_sk s) c \<Longrightarrow> pr l \<in> set P \<and> l \<le> tt (heap_sk s) (pr l)
      \<and> nn l (heap_sk s) (pr l) = Some c \<and> kk (heap_sk s) (pr l) < kk (heap_sk s) c"
    and g: "erased_sk (heap_sk s) ha c d pr T g"
  shows "shape_sk g (us @ p # d # vs)"
proof -
  let ?h = "heap_sk s" let ?P' = "us @ p # d # vs"
  note di = chain_skD [OF ch] and f = erased_skD [OF g] and s = shape_skD [OF chain_skD(2) [OF ch]]
  have srt: "ksorted (kk ?h) (us @ p # c # d # vs)" using di(7) P by simp
  have "levels_inv SKIPLIST_MAX_LEVEL (tt ?h) (\<lambda>l. nn l ?h) (us @ p # c # d # vs)"
    using di(2) P by (simp add: shape_sk_def)
  moreover have la: "l \<le> tt ?h (last (d # vs))" if "l < SKIPLIST_MAX_LEVEL" for l using s(3) P that by simp
  ultimately have lv: "levels_inv SKIPLIST_MAX_LEVEL (tt ?h) (\<lambda>l. nn l g) ?P'"
    using levels_erase [of SKIPLIST_MAX_LEVEL "tt ?h" "\<lambda>l. nn l ?h" us p c d vs "kk ?h" pr "\<lambda>l. nn l g"]
      srt pr f(9) P by (simp del: fld_in)
  have hl: "hd ?P' = hd P" "last ?P' = last P" unfolding P by (cases us) simp_all
  have sub: "set ?P' \<subseteq> set P" using P by auto
  show ?thesis
    unfolding shape_sk_def hl f(4,5)
    using lv s(2-4) s(7) sub f(8) by (auto simp: idle_sk_def simp del: fld_in)
qed

lemma erase_locked_sk_step:
  assumes wf: "wf_sk base s" and clk: "curr_timestamp (rq_sk s) < BUNDLE_MAX_TIMESTAMP"
    and f: "found_sk (heap_sk s) k preds succs pr sc"
    and c: "c < length (heap_sk s)" "kk (heap_sk s) c = k" "k < KEY_MAX_sk s" "\<not> dd (heap_sk s) c"
    and v: "\<forall>l\<le>tt (heap_sk s) c. erase_ok (heap_sk s) pr c l"
  shows "\<exists>s'. erase_locked_sk s tid preds (Some c) = Inr (s', Some (vv (heap_sk s) c))
    \<and> steps_to_sk base s (del_kv k (contents_sk s)) s' \<and> map_of (contents_sk s) k = Some (vv (heap_sk s) c)
    \<and> quiescent_sk s' tid \<and> retired_sk s' = retired_sk s @ [Some c]"
proof -
  let ?h = "heap_sk s" let ?n = "length ?h"
  obtain ta P where ch: "chain_sk s ta P" using wf by (auto simp: wf_sk_def)
  note d = chain_skD [OF ch] and w = wf_skD [OF wf]
  have cP: "c \<in> set P" by (rule live_in_chain [OF ch c(1,4)])
  have tc: "tt ?h c < SKIPLIST_MAX_LEVEL" using shape_skD(4) [OF d(2) cP] .
  have low: "l < SKIPLIST_MAX_LEVEL" if "l \<le> tt ?h c" for l using that tc by simp
  have ok: "\<not> dd ?h (pr l)" "nn l ?h (pr l) = Some c" if "l \<le> tt ?h c" for l
    using v that by (simp_all add: erase_ok_def del: fld_in)
  have pr: "pr l \<in> set P \<and> l \<le> tt ?h (pr l) \<and> nn l ?h (pr l) = Some c \<and> kk ?h (pr l) < kk ?h c"
    if "l \<le> tt ?h c" for l
    using live_in_chain [OF ch found_skD(3) [OF f low [OF that]] ok(1) [OF that]] ok(2) [OF that]
      found_skD(5,7) [OF f low [OF that]] c(2) by (simp del: fld_in)
  have z: "0 < SKIPLIST_MAX_LEVEL" by (simp add: SKIPLIST_MAX_LEVEL_def)
  note f0 = found_skD [OF f z]
  have "around (kk ?h) k (on_level (tt ?h) 0 P) (pr 0) c"
    by (rule linked_around [OF ch z f0(3) _ _ f0(7) c(1,4)]) (use ok [of 0] c(2) in \<open>simp_all del: fld_in\<close>)
  moreover have "on_level (tt ?h) 0 P = P" by (simp add: on_level_def)
  ultimately obtain us vs' where P': "P = us @ pr 0 # c # vs'" by (auto simp: around_def)
  have "c \<noteq> last P" using d(5,10) c(2,3) by auto
  then obtain x vs where vs: "vs' = x # vs" using P' by (cases vs') auto
  have P: "P = us @ pr 0 # c # x # vs" using P' vs by simp
  have "linked (nn 0 ?h) P" using chain_invD(4) [OF chain_vD(1) [OF d(1)]] by simp
  then have nx: "nn 0 ?h c = Some x" using linked_mid [of "nn 0 ?h" "us @ [pr 0]" c x vs] P by (simp del: fld_in)
  let ?ha = "the (p_head_sk s)"
  obtain h' q' where run: "erase_locked_sk s tid preds (Some c) = Inr (enterQuiescentState_sk
      (s\<lparr>heap_sk := h', rq_sk := q', retired_sk := retired_sk s @ [Some c]\<rparr>) tid, Some (vv ?h c))"
    and tick: "rq_tick (rq_sk s) q'" and g: "erased_sk ?h ?ha c x pr (curr_timestamp (rq_sk s) + 1) h'"
    using erase_locked_sk_valid [OF f shape_idle [OF d(2)] c(1,2) tc c(4) v w(4) [OF clk] d(3) nx, of tid] by blast
  let ?s = "s\<lparr>heap_sk := h', rq_sk := q', retired_sk := retired_sk s @ [Some c]\<rparr>"
  note fd = erased_skD [OF g]
  have view: "view_sk ?s = erase_view (view_sk s) (pr 0) c x"
    using fd(1-3,6,7) fd(9) [of 0] nx rq_tickD(1) [OF tick] by (simp add: view_sk_def erase_view_def del: fld_in)
  have chv: "chain_v (view_sk s) ta (us @ pr 0 # c # x # vs)" using d(1) P by simp
  have cs: "cnow (view_sk s) < BUNDLE_MAX_TIMESTAMP" using clk by simp
  have "chain_v (view_sk ?s) ta (us @ pr 0 # x # vs)"
    using erase_view_chain [OF w(3) cs chv] view by simp
  moreover have "shape_sk h' (us @ pr 0 # x # vs)" by (rule erase_shape [OF ch P pr g])
  ultimately have ch': "chain_sk ?s ta (us @ pr 0 # x # vs)" using ch by (simp add: chain_sk_def)
  have st: "steps_v base (view_sk s) (del_kv k (contents_sk s)) (view_sk ?s)"
    unfolding view contents_sk_def using erase_view_steps [OF w(3) cs chv] c(2) by (simp del: fld_in)
  then have "wf_sk base ?s" using ch' w rq_tickD [OF tick] unfolding wf_sk_def steps_v_def by auto
  moreover have "map_of (contents_sk s) k = Some (vv ?h c)"
    using contents_v_at(1) [OF chv, of k] f0(7) c(2,3) by (simp add: contents_sk_def del: fld_in)
  ultimately show ?thesis using run st by (simp add: steps_to_sk_def)
qed

end
