(* ===== verification/Bundled_Skiplist_Methods.thy ===== *)
theory Bundled_Skiplist_Methods
  imports Bundled_Skiplist_Ops
begin

text \<open>
  The properties of the update methods of the bundled skip list, with an example list on
  which they are evaluated.
\<close>

section \<open>An example\<close>

definition example_sk :: sk_list where
  "example_sk = \<lparr>heap_sk =
     [\<lparr>rqbundle_sk = [], lock_sk = 0, key_sk = 100, val_sk = 0, topLevel_sk = 19, marked_sk = 0,
        fullyLinked_sk = 0, p_next_sk = replicate 20 None\<rparr>,
      \<lparr>rqbundle_sk = [BundleEntry 3 (Some 2), BundleEntry 2 (Some 0)], lock_sk = 0, key_sk = 0, val_sk = 0,
        topLevel_sk = 19, marked_sk = 0, fullyLinked_sk = 0,
        p_next_sk = [Some 2, Some 2] @ replicate 18 (Some 0)\<rparr>,
      \<lparr>rqbundle_sk = [BundleEntry 3 (Some 0)], lock_sk = 0, key_sk = 7, val_sk = 70, topLevel_sk = 1,
        marked_sk = 0, fullyLinked_sk = 1, p_next_sk = [Some 0, Some 0] @ replicate 18 None\<rparr>],
     p_head_sk = Some 1, p_tail_sk = Some 0,
     rq_sk = \<lparr>num_processes = 4, curr_timestamp = 3, rq_lin_time = (\<lambda>_. 0), rq_flag = (\<lambda>_. False),
       local_timestamp = (\<lambda>_. 0), backoff_amt = (\<lambda>_. 1), rq_init = (\<lambda>i. i = 0), mode = Update_Clock,
       cleanup_update = False\<rparr>,
     rngs_sk = (\<lambda>_. 1), retired_sk = [], quiescent_sk = (\<lambda>_. True), init_sk = (\<lambda>_. False),
     KEY_MIN_sk = 0, KEY_MAX_sk = 100, NO_VALUE_sk = 0\<rparr>"

lemma example_sk_sel:
  "p_head_sk example_sk = Some 1" "length (heap_sk example_sk) = 3" "curr_timestamp (rq_sk example_sk) = 3"
  "mode (rq_sk example_sk) = Update_Clock" "\<not> cleanup_update (rq_sk example_sk)"
  "KEY_MIN_sk example_sk = 0" "KEY_MAX_sk example_sk = 100" "NO_VALUE_sk example_sk = 0"
  "retired_sk example_sk = []" "num_processes (rq_sk example_sk) = 4" "rq_flag (rq_sk example_sk) i = False"
  by (simp_all add: example_sk_def)

lemma example_sk_chain_v: "chain_v (view_sk example_sk) 0 [1, 2, 0]"
proof -
  let ?v = "view_sk example_sk"
  have "chain_inv (ckey ?v) (cnxt ?v) (cbun ?v) (cdead ?v) (clen ?v) (chead ?v) 0 (cnow ?v) [1, 2, 0]"
    by (rule chain_invI) (auto simp: example_sk_def view_sk_def LLONG_MAX_def less_Suc_eq numeral_eq_Suc)
  then show ?thesis by (simp add: chain_v_def example_sk_sel) (simp add: example_sk_def)
qed

lemma example_sk_shape: "shape_sk (heap_sk example_sk) [1, 2, 0]"
proof -
  let ?h = "heap_sk example_sk"
  have tops: "tt ?h 0 = 19" "tt ?h 1 = 19" "tt ?h 2 = 1" by (simp_all add: example_sk_def)
  have lv: "linked (nn l ?h) (on_level (tt ?h) l [1, 2, 0])" if "l < 20" for l
  proof (cases "l \<le> 1")
    case True
    then have "l = 0 \<or> l = 1" by auto
    then show ?thesis using tops by (auto simp: on_level_def) (auto simp: example_sk_def)
  next
    case False
    then have e: "on_level (tt ?h) l [1, 2, 0] = [1, 0]" using tops that by (simp add: on_level_def)
    have "l = Suc (Suc (l - 2))" "l - 2 < 18" using False that by auto
    then obtain j where "l = Suc (Suc j)" "j < 18" by blast
    then have "nn l ?h 1 = Some 0" by (simp add: example_sk_def)
    then show ?thesis unfolding e by simp
  qed
  have "ll ?h a = 0" "wl ?h a = 20" for a
    by (auto simp: example_sk_def fld_def less_Suc_eq numeral_eq_Suc)
  moreover have "ff ?h 2" by (simp add: example_sk_def)
  ultimately show ?thesis using lv tops unfolding shape_sk_def levels_inv_def SKIPLIST_MAX_LEVEL_def by simp
qed

lemma example_sk_chain: "chain_sk example_sk 0 [1, 2, 0]"
  using example_sk_chain_v example_sk_shape by (simp add: chain_sk_def example_sk_sel)

lemma example_sk_wf: "wf_sk 2 example_sk"
proof -
  let ?v = "view_sk example_sk"
  have now: "snap_v ?v 0 3 [1, 2, 0]"
    using chain_now [OF chain_vD(1) [OF example_sk_chain_v]] by (simp add: snap_v_def example_sk_sel)
  have before: "snap_v ?v 0 2 [1, 0]"
    by (auto simp: snap_v_def snap_path_def bsucc_def view_sk_def example_sk_def less_Suc_eq numeral_eq_Suc)
  have "snaps_inv 2 (ckey ?v) (cbun ?v) (clen ?v) (chead ?v) 0 (cnow ?v)"
    unfolding snaps_inv_def snap_v_def [symmetric]
  proof (intro allI impI)
    fix u :: int assume "2 \<le> u \<and> u \<le> cnow ?v"
    then have "u = 2 \<or> u = 3" by (auto simp: example_sk_sel)
    then show "\<exists>Q. snap_v ?v 0 u Q" using now before by blast
  qed
  then have "wf_v 2 ?v" using example_sk_chain_v by (auto simp: wf_v_def example_sk_sel timestamp_defs)
  then show ?thesis using example_sk_chain by (auto simp: wf_sk_def example_sk_sel)
qed

lemma example_sk_contents:
  "contents_sk example_sk = [(7, 70)]" "snapshot_sk example_sk 2 = []" "snapshot_sk example_sk 3 = [(7, 70)]"
proof -
  show "contents_sk example_sk = [(7, 70)]"
    using contents_v_chain(1) [OF example_sk_chain_v] by (simp add: contents_sk_def pairs_v_def example_sk_sel)
      (simp add: example_sk_def)
  show "snapshot_sk example_sk 3 = [(7, 70)]"
    using contents_v_chain(2) [OF example_sk_chain_v] by (simp add: snapshot_sk_def pairs_v_def example_sk_sel)
      (simp add: example_sk_def)
  show "snapshot_sk example_sk 2 = []"
    by (simp add: snapshot_sk_def snapshot_v_def pairs_v_def bsucc_def view_sk_def example_sk_def numeral_eq_Suc)
qed

section \<open>The sections under the locks\<close>

text \<open>The search arrays that agree with the present state on every level they are used on.\<close>

definition insert_links_sk :: "sk_list \<Rightarrow> (nat \<Rightarrow> nat) \<Rightarrow> (nat \<Rightarrow> nat) \<Rightarrow> nat \<Rightarrow> bool" where
  "insert_links_sk s pr sc t \<longleftrightarrow> (\<forall>l\<le>t. insert_ok (heap_sk s) pr sc l)"

definition erase_links_sk :: "sk_list \<Rightarrow> (nat \<Rightarrow> nat) \<Rightarrow> nat \<Rightarrow> bool" where
  "erase_links_sk s pr c \<longleftrightarrow> (\<forall>l\<le>tt (heap_sk s) c. erase_ok (heap_sk s) pr c l)"

lemma insert_locked_sk_cases:
  assumes wf: "wf_sk base s" and clk: "curr_timestamp (rq_sk s) < BUNDLE_MAX_TIMESTAMP"
    and f: "found_sk (heap_sk s) k preds succs pr sc" and t: "t < SKIPLIST_MAX_LEVEL"
    and k: "\<forall>l\<le>t. kk (heap_sk s) (sc l) \<noteq> k" "k < KEY_MAX_sk s"
  shows "\<exists>s'. insert_locked_sk s tid preds succs k x t = Inr (s', insert_links_sk s pr sc t)
    \<and> quiescent_sk s' tid \<and> retired_sk s' = retired_sk s \<and> NO_VALUE_sk s' = NO_VALUE_sk s
    \<and> (if insert_links_sk s pr sc t then map_of (contents_sk s) k = None \<and> steps_to_sk base s (ins_kv k x (contents_sk s)) s'
        else view_sk s' = view_sk s \<and> wf_sk base s')"
proof (cases "insert_links_sk s pr sc t")
  case True
  then show ?thesis
    using insert_locked_sk_step [OF wf clk f t _ k(2), of tid x] k(1) by (auto simp: insert_links_sk_def)
next
  case False
  obtain ta P where ch: "chain_sk s ta P" using wf by (auto simp: wf_sk_def)
  have "insert_locked_sk s tid preds succs k x t = Inr (enterQuiescentState_sk s tid, False)"
    using insert_locked_sk_invalid [OF f shape_idle [OF chain_skD(2) [OF ch]] t] False by (simp add: insert_links_sk_def)
  then show ?thesis using False wf by simp
qed

text \<open>
  C13: The locked section of the skip list's \<open>doInsert\<close> linearizes whatever search it acts on. Let
  the arrays hold, on every level, any two nodes with the key strictly between them, however
  long ago a search found them. If on some level up to the new node's they are no longer live
  neighbours, the section undoes its locks and changes nothing. Otherwise the key was absent,
  one node is linked on all its levels, the dictionary gains the pair, and every snapshot
  taken so far reads as before.
\<close>

theorem insert_locked_sk_linearizable:
  assumes "wf_sk base s" "curr_timestamp (rq_sk s) < BUNDLE_MAX_TIMESTAMP"
    and "found_sk (heap_sk s) k preds succs pr sc" "t < SKIPLIST_MAX_LEVEL"
    and "\<forall>l\<le>t. fld key_sk 0 (heap_sk s) (sc l) \<noteq> k" "k < KEY_MAX_sk s"
  shows "\<exists>s'. insert_locked_sk s tid preds succs k x t = Inr (s', insert_links_sk s pr sc t)
    \<and> quiescent_sk s' tid \<and> retired_sk s' = retired_sk s \<and> NO_VALUE_sk s' = NO_VALUE_sk s
    \<and> (if insert_links_sk s pr sc t then map_of (contents_sk s) k = None \<and> steps_to_sk base s (ins_kv k x (contents_sk s)) s'
        else view_sk s' = view_sk s \<and> wf_sk base s')"
  by (rule insert_locked_sk_cases [OF assms])

lemma example_sk_found:
  assumes "preds = replicate 20 (Some 1)" "succs = Some 2 # Some 2 # replicate 18 (Some 0)"
  shows "found_sk (heap_sk example_sk) 5 preds succs (\<lambda>_. 1) (\<lambda>l. if l \<le> 1 then 2 else 0)"
proof -
  have k: "kk (heap_sk example_sk) 0 = 100" "kk (heap_sk example_sk) 1 = 0" "kk (heap_sk example_sk) 2 = 7"
    "tt (heap_sk example_sk) 0 = 19" "tt (heap_sk example_sk) 1 = 19" "tt (heap_sk example_sk) 2 = 1"
    "length (heap_sk example_sk) = 3"
    by (simp_all add: example_sk_def)
  have "succs ! l = Some (if l \<le> 1 then 2 else 0)" if "l < 20" for l
    using that unfolding assms by (cases l; cases "l - 1") auto
  then show ?thesis using k assms
    unfolding found_sk_def SKIPLIST_MAX_LEVEL_def by (auto simp: further_def simp del: fld_in)
qed

lemma example_sk_links: "insert_links_sk example_sk (\<lambda>_. 1) (\<lambda>l. if l \<le> 1 then 2 else 0) 1"
  by (auto simp: insert_links_sk_def insert_ok_def example_sk_def le_Suc_eq numeral_eq_Suc)

theorem insert_locked_sk_linearizable_witness:
  "\<exists>s'. insert_locked_sk example_sk 1 (replicate 20 (Some 1)) (Some 2 # Some 2 # replicate 18 (Some 0)) 5 50 1
       = Inr (s', True)
     \<and> contents_sk s' = [(5, 50), (7, 70)] \<and> snapshot_sk s' 3 = [(7, 70)]"
proof -
  have "\<forall>l\<le>1. kk (heap_sk example_sk) (if l \<le> 1 then 2 else 0) \<noteq> 5" by (simp add: example_sk_def)
  from insert_locked_sk_linearizable [OF example_sk_wf _ example_sk_found [OF refl refl] _ this, of 1 50]
  show ?thesis
    by (auto simp: example_sk_sel example_sk_links example_sk_contents steps_to_sk_def steps_v_def timestamp_defs
        SKIPLIST_MAX_LEVEL_def contents_sk_def [symmetric] snapshot_sk_def [symmetric] simp del: One_nat_def)
qed
lemma erase_locked_sk_cases:
  assumes wf: "wf_sk base s" and clk: "curr_timestamp (rq_sk s) < BUNDLE_MAX_TIMESTAMP"
    and f: "found_sk (heap_sk s) k preds succs pr sc"
    and c: "c < length (heap_sk s)" "kk (heap_sk s) c = k" "k < KEY_MAX_sk s"
  shows "\<exists>s'. erase_locked_sk s tid preds (Some c) = Inr (s', if dd (heap_sk s) c then Some (NO_VALUE_sk s)
        else if erase_links_sk s pr c then map_of (contents_sk s) k else None)
    \<and> quiescent_sk s' tid
    \<and> (if \<not> dd (heap_sk s) c \<and> erase_links_sk s pr c
        then map_of (contents_sk s) k = Some (vv (heap_sk s) c) \<and> retired_sk s' = retired_sk s @ [Some c]
          \<and> steps_to_sk base s (del_kv k (contents_sk s)) s'
        else view_sk s' = view_sk s \<and> wf_sk base s' \<and> retired_sk s' = retired_sk s)"
proof -
  obtain ta P where ch: "chain_sk s ta P" using wf by (auto simp: wf_sk_def)
  note d = chain_skD [OF ch] and id = shape_idle [OF chain_skD(2) [OF ch]]
  show ?thesis
  proof (cases "dd (heap_sk s) c")
    case True
    then show ?thesis using erase_locked_sk_marked [OF id c(1) True, of tid preds] wf by (simp del: fld_in)
  next
    case False
    then have tc: "tt (heap_sk s) c < SKIPLIST_MAX_LEVEL"
      using shape_skD(4) [OF d(2) live_in_chain [OF ch c(1) False]] by simp
    show ?thesis
    proof (cases "erase_links_sk s pr c")
      case True
      then show ?thesis
        using erase_locked_sk_step [OF wf clk f c False, of tid] False by (auto simp: erase_links_sk_def simp del: fld_in)
    next
      case nl: False
      have "erase_locked_sk s tid preds (Some c) = Inr (enterQuiescentState_sk s tid, None)"
        by (rule erase_locked_sk_invalid [OF f id c(1,2) tc False]) (use nl in \<open>simp add: erase_links_sk_def\<close>)
      then show ?thesis using nl False wf by (simp del: fld_in)
    qed
  qed
qed

text \<open>
  C14: The locked section of the skip list's \<open>erase\<close> linearizes whatever search it acts on. A victim
  that has been marked since the search makes it answer that there was nothing to erase; live
  predecessors that no longer lead to the victim on one of its levels make it search again;
  neither changes anything. Otherwise the value of the victim is returned, the key leaves the
  dictionary, exactly that node is retired, and the snapshots taken so far read as before.
\<close>

theorem erase_locked_sk_linearizable:
  assumes "wf_sk base s" "curr_timestamp (rq_sk s) < BUNDLE_MAX_TIMESTAMP"
    and "found_sk (heap_sk s) k preds succs pr sc"
    and "c < length (heap_sk s)" "kk (heap_sk s) c = k" "k < KEY_MAX_sk s"
  shows "\<exists>s'. erase_locked_sk s tid preds (Some c) = Inr (s', if dd (heap_sk s) c then Some (NO_VALUE_sk s)
        else if erase_links_sk s pr c then map_of (contents_sk s) k else None)
    \<and> quiescent_sk s' tid
    \<and> (if \<not> dd (heap_sk s) c \<and> erase_links_sk s pr c
        then map_of (contents_sk s) k = Some (vv (heap_sk s) c) \<and> retired_sk s' = retired_sk s @ [Some c]
          \<and> steps_to_sk base s (del_kv k (contents_sk s)) s'
        else view_sk s' = view_sk s \<and> wf_sk base s' \<and> retired_sk s' = retired_sk s)"
  by (rule erase_locked_sk_cases [OF assms])

lemma example_sk_victim:
  "found_sk (heap_sk example_sk) 7 (replicate 20 (Some 1)) (Some 2 # Some 2 # replicate 18 (Some 0))
     (\<lambda>_. 1) (\<lambda>l. if l \<le> 1 then 2 else 0)"
  "kk (heap_sk example_sk) 2 = 7" "vv (heap_sk example_sk) 2 = 70" "\<not> dd (heap_sk example_sk) 2"
  "erase_links_sk example_sk (\<lambda>_. 1) 2"
proof -
  have k: "kk (heap_sk example_sk) 0 = 100" "kk (heap_sk example_sk) 1 = 0" "kk (heap_sk example_sk) 2 = 7"
    by (simp_all add: example_sk_def)
  have "\<forall>l. (7::int) \<le> kk (heap_sk example_sk) (if l \<le> (1::nat) then 2 else 0)" using k by simp
  then show "found_sk (heap_sk example_sk) 7 (replicate 20 (Some 1)) (Some 2 # Some 2 # replicate 18 (Some 0))
     (\<lambda>_. 1) (\<lambda>l. if l \<le> 1 then 2 else 0)"
    using example_sk_found [OF refl refl] k unfolding found_sk_def by (auto simp del: fld_in)
  show "kk (heap_sk example_sk) 2 = 7" "vv (heap_sk example_sk) 2 = 70" "\<not> dd (heap_sk example_sk) 2"
    "erase_links_sk example_sk (\<lambda>_. 1) 2"
    by (auto simp: erase_links_sk_def erase_ok_def example_sk_def le_Suc_eq numeral_eq_Suc)
qed

theorem erase_locked_sk_linearizable_witness:
  "\<exists>s'. erase_locked_sk example_sk 1 (replicate 20 (Some 1)) (Some 2) = Inr (s', Some 70)
     \<and> contents_sk s' = [] \<and> retired_sk s' = [Some 2] \<and> snapshot_sk s' 3 = [(7, 70)]"
  using erase_locked_sk_linearizable [OF example_sk_wf _ example_sk_victim(1) _ example_sk_victim(2), of 1]
  by (auto simp: example_sk_sel example_sk_victim example_sk_contents steps_to_sk_def steps_v_def timestamp_defs
      contents_sk_def [symmetric] snapshot_sk_def [symmetric] del_kv_def simp del: One_nat_def fld_in)

section \<open>Whole methods\<close>

lemma level_key_unique:
  assumes "around key k F p c" "ksorted key F" "a \<in> set F" "key a = k"
  shows "c = a"
proof -
  obtain A B where F: "F = A @ p # c # B" "key p < k" "k \<le> key c" using assms(1) by (auto simp: around_def)
  have "a \<notin> set (A @ [p])" using split_bounds(1) [of key A p c B k] assms(2,4) F by auto
  moreover have "a \<notin> set B"
  proof
    assume "a \<in> set B"
    then have "key c < key a" using assms(2) F(1) by (simp add: sorted_wrt_append)
    then show False using F(3) assms(4) by simp
  qed
  ultimately show ?thesis using assms(3) F(1) by auto
qed

lemma search_links:
  assumes ch: "chain_sk s ta P" and f: "found_now_sk (heap_sk s) P k lf pr sc" and l: "l < SKIPLIST_MAX_LEVEL"
  shows "insert_ok (heap_sk s) pr sc l"
proof -
  let ?h = "heap_sk s"
  note d = chain_skD [OF ch]
  have ar: "around (kk ?h) k (on_level (tt ?h) l P) (pr l) (sc l)" using f l by (simp add: found_now_sk_def)
  then obtain A B where F: "on_level (tt ?h) l P = A @ pr l # sc l # B" by (auto simp: around_def)
  have "nn l ?h (pr l) = Some (sc l)"
    using shape_skD(1) [OF d(2) l] unfolding F by (simp add: linked_mid del: fld_in)
  then show ?thesis using around_mem(1,2) [OF ar] d(8) by (simp add: insert_ok_def del: fld_in)
qed

lemma search_victim:
  assumes ch: "chain_sk s ta P" and f: "found_now_sk (heap_sk s) P k lf pr sc"
    and c: "c \<in> set P" "kk (heap_sk s) c = k" "l \<le> tt (heap_sk s) c" "l < SKIPLIST_MAX_LEVEL"
  shows "erase_ok (heap_sk s) pr c l"
proof -
  let ?h = "heap_sk s"
  have ar: "around (kk ?h) k (on_level (tt ?h) l P) (pr l) (sc l)" using f c(4) by (simp add: found_now_sk_def)
  have "sc l = c"
    using level_key_unique [OF ar on_level_sorted [OF chain_skD(7) [OF ch]] _ c(2)] c(1,3) by (simp add: on_level_set)
  then show ?thesis using search_links [OF ch f c(4)] by (simp add: insert_ok_def erase_ok_def del: fld_in)
qed

lemma find_impl_leave [simp]: "find_impl_sk (leaveQuiescentState_sk s tid) k = find_impl_sk s k"
  by (simp add: find_impl_sk_def)

lemma find_impl_rngs [simp]: "find_impl_sk (s\<lparr>rngs_sk := r\<rparr>) k = find_impl_sk s k"
  by (simp add: find_impl_sk_def)

lemma rngs_abs_sk [simp]:
  "view_sk (s\<lparr>rngs_sk := r\<rparr>) = view_sk s" "chain_sk (s\<lparr>rngs_sk := r\<rparr>) ta P = chain_sk s ta P"
  "wf_sk base (s\<lparr>rngs_sk := r\<rparr>) = wf_sk base s" "contents_sk (s\<lparr>rngs_sk := r\<rparr>) = contents_sk s"
  "steps_to_sk base (s\<lparr>rngs_sk := r\<rparr>) d s' = steps_to_sk base s d s'"
  by (simp_all add: view_sk_def chain_sk_def wf_sk_def contents_sk_def steps_to_sk_def)

lemma steps_to_sk_refl: "wf_sk base s \<Longrightarrow> steps_to_sk base s (contents_sk s) s"
  using steps_v_refl wf_skD(3) by (auto simp: steps_to_sk_def contents_sk_def)

text \<open>What a search by the thread that runs alone finds.\<close>

lemma search_alone:
  assumes wf: "wf_sk base s" and k: "KEY_MIN_sk s < k" "k < KEY_MAX_sk s"
  obtains ta P lf preds succs pr sc where "chain_sk s ta P"
    "find_impl_sk s k = Inr (lf, preds, succs, Some (sc 0))" "found_sk (heap_sk s) k preds succs pr sc"
    "found_now_sk (heap_sk s) P k lf pr sc"
proof -
  obtain ta P where ch: "chain_sk s ta P" using wf by (auto simp: wf_sk_def)
  show thesis using find_impl_spec [OF ch k(1) less_imp_le [OF k(2)]] that [OF ch] by blast
qed

lemma search_alone_facts:
  assumes ch: "chain_sk s ta P" and f: "found_now_sk (heap_sk s) P k lf pr sc"
    and k: "KEY_MIN_sk s < k" "k < KEY_MAX_sk s"
  shows "sc 0 \<in> set P" "sc 0 < length (heap_sk s)" "\<not> dd (heap_sk s) (sc 0)"
    "lf \<noteq> None \<longleftrightarrow> kk (heap_sk s) (sc 0) = k"
    "map_of (contents_sk s) k = (if lf = None then None else Some (vv (heap_sk s) (sc 0)))"
    "lf \<noteq> None \<Longrightarrow> ins_kv k x (contents_sk s) = contents_sk s"
    "lf = None \<Longrightarrow> del_kv k (contents_sk s) = contents_sk s"
    "lf = Some l \<Longrightarrow> l < SKIPLIST_MAX_LEVEL \<and> sc l = sc 0"
    "lf \<noteq> None \<Longrightarrow> ff (heap_sk s) (sc 0)"
proof -
  let ?h = "heap_sk s"
  note d = chain_skD [OF ch]
  obtain us vs where P: "P = us @ pr 0 # sc 0 # vs" "kk ?h (pr 0) < k" "k \<le> kk ?h (sc 0)"
    using f by (elim found_bottom)
  show lf: "lf \<noteq> None \<longleftrightarrow> kk ?h (sc 0) = k"
    using found_same(2) [of ?h P k _ pr sc] found_absent [of ?h P k pr sc] f d(7) by (cases lf) auto
  show m: "sc 0 \<in> set P" using P(1) by simp
  then show "sc 0 < length ?h" "\<not> dd ?h (sc 0)" using d(8) by blast+
  have chv: "chain_v (view_sk s) ta (us @ pr 0 # sc 0 # vs)" using d(1) P(1) by simp
  have "sc 0 \<noteq> hd P" using d(4,9) P(3) k(1) by auto
  moreover have "sc 0 \<noteq> last P" if "lf \<noteq> None" using lf d(5,10) k(2) that by auto
  ultimately show "lf \<noteq> None \<Longrightarrow> ff ?h (sc 0)" using shape_skD(7) [OF d(2) m] by blast
  show "map_of (contents_sk s) k = (if lf = None then None else Some (vv ?h (sc 0)))"
    using contents_v_at(1) [OF chv, of k] P(2,3) k(2) lf by (simp add: contents_sk_def del: fld_in)
  show "lf \<noteq> None \<Longrightarrow> ins_kv k x (contents_sk s) = contents_sk s"
    using contents_v_at(2) [OF chv, of k x] P(2,3) k(2) lf by (simp add: contents_sk_def del: fld_in)
  show "lf = None \<Longrightarrow> del_kv k (contents_sk s) = contents_sk s"
    using contents_v_at(3) [OF chv, of k] P(2,3) k(2) lf by (simp add: contents_sk_def del: fld_in)
  show "l < SKIPLIST_MAX_LEVEL \<and> sc l = sc 0" if "lf = Some l"
  proof -
    have "found_now_sk ?h P k (Some l) pr sc" using f that by simp
    from found_same(1) [OF this d(7)] this show ?thesis by (simp add: found_now_sk_def)
  qed
qed

lemma sl_randomLevel_bound: "fst (sl_randomLevel seed) < SKIPLIST_MAX_LEVEL"
  by (simp add: sl_randomLevel_def Let_def case_prod_unfold SKIPLIST_MAX_LEVEL_def)

lemma insert_loop_alone:
  assumes wf: "wf_sk base s" and clk: "curr_timestamp (rq_sk s) < BUNDLE_MAX_TIMESTAMP"
    and k: "KEY_MIN_sk s < k" "k < KEY_MAX_sk s" and t: "t < SKIPLIST_MAX_LEVEL" and tries: "tries = Suc n"
  shows "\<exists>s'. insert_loop_sk tries s tid k x True t =
        Inr (s', case map_of (contents_sk s) k of None \<Rightarrow> NO_VALUE_sk s | Some w \<Rightarrow> w)
      \<and> steps_to_sk base s (ins_kv k x (contents_sk s)) s' \<and> quiescent_sk s' tid
      \<and> insert_loop_sk tries s tid k x False t =
          (if map_of (contents_sk s) k = None then Inr (s', NO_VALUE_sk s) else Inl Exit)"
proof -
  let ?s = "leaveQuiescentState_sk s tid"
  obtain ta P lf preds succs pr sc where r: "chain_sk s ta P"
    "find_impl_sk s k = Inr (lf, preds, succs, Some (sc 0))" "found_sk (heap_sk s) k preds succs pr sc"
    "found_now_sk (heap_sk s) P k lf pr sc"
    by (rule search_alone [OF wf k])
  note a = search_alone_facts [OF r(1,4) k]
  show ?thesis
  proof (cases lf)
    case (Some l)
    have q: "aref succs l = Inr (Some (sc 0))" using found_skD(2) [OF r(3)] a(8) [OF Some] by metis
    have n: "marked_sk (heap_sk s ! sc 0) = 0" "fullyLinked_sk (heap_sk s ! sc 0) \<noteq> 0"
      "val_sk (heap_sk s ! sc 0) = vv (heap_sk s) (sc 0)"
      using a(2,3,9) Some by simp_all
    then show ?thesis
      using Some tries r(2) a(2,5) a(6) [of x] q steps_to_sk_refl [OF wf] by (simp add: Let_def deref_Some del: fld_in)
  next
    case None
    have "\<forall>l\<le>t. kk (heap_sk ?s) (sc l) \<noteq> k" using r(4) None t by (simp add: found_now_sk_def del: fld_in)
    moreover have "insert_links_sk ?s pr sc t"
      using search_links [OF r(1,4)] t by (simp add: insert_links_sk_def)
    ultimately obtain s' where "insert_locked_sk ?s tid preds succs k x t = Inr (s', True)" "quiescent_sk s' tid"
      "NO_VALUE_sk s' = NO_VALUE_sk s" "steps_to_sk base s (ins_kv k x (contents_sk s)) s'"
      using insert_locked_sk_cases [of base ?s k preds succs pr sc t tid x] wf clk r(3) t k(2) by auto
    then show ?thesis using None tries r(2) a(5) by (simp add: Let_def)
  qed
qed

text \<open>
  \<open>insertIfAbsent\<close> of the skip list, run without interference and whatever level the random
  generator gives, returns at its first attempt the value bound to the key, or \<open>NO_VALUE\<close>
  if there was none, and leaves the dictionary with the key inserted if it was absent.
  \<open>insert\<close> does the same for an absent key, and ends the program on a present one.
\<close>

lemma doInsert_sk_correct:
  assumes "wf_sk base s" "curr_timestamp (rq_sk s) < BUNDLE_MAX_TIMESTAMP"
    and "KEY_MIN_sk s < k" "k < KEY_MAX_sk s" "0 < tries"
  shows "\<exists>s'. insertIfAbsent_sk tries s tid k x =
        Inr (s', case map_of (contents_sk s) k of None \<Rightarrow> NO_VALUE_sk s | Some w \<Rightarrow> w)
      \<and> steps_to_sk base s (ins_kv k x (contents_sk s)) s' \<and> quiescent_sk s' tid
      \<and> insert_sk tries s tid k x = (if map_of (contents_sk s) k = None then Inr (s', NO_VALUE_sk s) else Inl Exit)"
proof -
  obtain n where n: "tries = Suc n" using assms(5) by (cases tries) auto
  let ?t = "fst (sl_randomLevel (rngs_sk s tid))"
  let ?s = "s\<lparr>rngs_sk := (rngs_sk s)(tid := snd (sl_randomLevel (rngs_sk s tid)))\<rparr>"
  have run: "doInsert_sk tries s tid k x oia = insert_loop_sk tries ?s tid k x oia ?t" for oia
    by (simp add: doInsert_sk_def case_prod_unfold Let_def del: insert_loop_sk.simps)
  show ?thesis
    unfolding insertIfAbsent_sk_def insert_sk_def run
    using insert_loop_alone [of base ?s k ?t tries n tid x] assms sl_randomLevel_bound n
    by (cases "map_of (contents_sk s) k") (simp_all del: insert_loop_sk.simps)
qed

text \<open>
  \<open>erase\<close> of the skip list, run without interference, returns the value bound to the key, or
  \<open>NO_VALUE\<close> when there is none; the key is gone, the one node that held it has been handed to
  the reclaimer, and no earlier snapshot changes.
\<close>

text \<open>The node that holds a key: not marked, and no other node with that key is unmarked.\<close>

definition holds_sk :: "sk_list \<Rightarrow> int \<Rightarrow> nat \<Rightarrow> bool" where
  "holds_sk s k c \<longleftrightarrow> c < length (heap_sk s) \<and> kk (heap_sk s) c = k
     \<and> (\<forall>a<length (heap_sk s). \<not> dd (heap_sk s) a \<and> kk (heap_sk s) a = k \<longleftrightarrow> a = c)"

lemma holds_skI:
  assumes ch: "chain_sk s ta P" and c: "c < length (heap_sk s)" "kk (heap_sk s) c = k" "\<not> dd (heap_sk s) c"
  shows "holds_sk s k c"
proof -
  note i = chain_invD [OF chain_vD(1) [OF chain_skD(1) [OF ch]]]
  have m: "a \<in> set P" if "a < length (heap_sk s)" "\<not> dd (heap_sk s) a" for a using i(11) that by auto
  have "inj_on (kk (heap_sk s)) (set P)" using ksorted_inj i(5) by (simp del: fld_in)
  then have "a = c" if "a < length (heap_sk s)" "\<not> dd (heap_sk s) a" "kk (heap_sk s) a = k" for a
    using m that c by (auto dest: inj_onD simp del: fld_in)
  then show ?thesis unfolding holds_sk_def using c by blast
qed

lemma erase_sk_correct:
  assumes "wf_sk base s" "curr_timestamp (rq_sk s) < BUNDLE_MAX_TIMESTAMP"
    and "KEY_MIN_sk s < k" "k < KEY_MAX_sk s" "0 < tries"
  shows "\<exists>s'. erase_sk tries s tid k =
        Inr (s', case map_of (contents_sk s) k of None \<Rightarrow> NO_VALUE_sk s | Some w \<Rightarrow> w)
      \<and> steps_to_sk base s (del_kv k (contents_sk s)) s' \<and> quiescent_sk s' tid
      \<and> (if map_of (contents_sk s) k = None then retired_sk s' = retired_sk s
         else \<exists>c. holds_sk s k c \<and> retired_sk s' = retired_sk s @ [Some c])"
proof -
  let ?s = "leaveQuiescentState_sk s tid"
  obtain n where n: "tries = Suc n" using assms(5) by (cases tries) auto
  obtain ta P lf preds succs pr sc where r: "chain_sk s ta P"
    "find_impl_sk s k = Inr (lf, preds, succs, Some (sc 0))" "found_sk (heap_sk s) k preds succs pr sc"
    "found_now_sk (heap_sk s) P k lf pr sc"
    by (rule search_alone [OF assms(1,3,4)])
  note a = search_alone_facts [OF r(1,4) assms(3,4)]
  show ?thesis
  proof (cases lf)
    case None
    then show ?thesis using n r(2) a(5,7) steps_to_sk_refl [OF assms(1)] by (simp add: Let_def)
  next
    case (Some l)
    have q: "aref succs l = Inr (Some (sc 0))" using found_skD(2) [OF r(3)] a(8) [OF Some] by metis
    have kc: "kk (heap_sk ?s) (sc 0) = k" using a(4) Some by (simp del: fld_in)
    have "erase_links_sk ?s pr (sc 0)"
      unfolding erase_links_sk_def quiescent_sk_sel
    proof (intro allI impI)
      fix l assume l: "l \<le> tt (heap_sk s) (sc 0)"
      moreover have "tt (heap_sk s) (sc 0) < SKIPLIST_MAX_LEVEL" by (rule shape_skD(4) [OF chain_skD(2) [OF r(1)] a(1)])
      ultimately show "erase_ok (heap_sk s) pr (sc 0) l"
        using search_victim [OF r(1,4) a(1)] kc by (simp del: fld_in)
    qed
    then obtain s' where s': "erase_locked_sk ?s tid preds (Some (sc 0)) = Inr (s', map_of (contents_sk s) k)"
      "quiescent_sk s' tid" "map_of (contents_sk s) k = Some (vv (heap_sk s) (sc 0))"
      "retired_sk s' = retired_sk s @ [Some (sc 0)]" "steps_to_sk base s (del_kv k (contents_sk s)) s'"
      using erase_locked_sk_cases [of base ?s k preds succs pr sc "sc 0" tid] assms r(3) a(2,3) kc
      by (auto simp del: fld_in)
    have "erase_sk tries s tid k = Inr (s', vv (heap_sk s) (sc 0))"
      using n Some r(2) q s'(1,3) by (simp add: Let_def del: fld_in)
    moreover have "holds_sk s k (sc 0)" using holds_skI [OF r(1) a(2) _ a(3)] kc by (simp del: fld_in)
    ultimately show ?thesis using s'(2-5) by auto
  qed
qed

end
