(* ===== verification/Bundled_Skiplist_Queries.thy ===== *)
theory Bundled_Skiplist_Queries
  imports Bundled_Skiplist_Methods
begin

text \<open>
  The read-only operations of the bundled skip list, its cleaner and its constructor, and
  what its random levels are.
\<close>

section \<open>Membership\<close>

lemma search_node:
  assumes "chain_sk s ta P" "found_now_sk (heap_sk s) P k lf pr sc" "l < SKIPLIST_MAX_LEVEL"
  shows "pr l \<in> set P" "kk (heap_sk s) (pr l) < k"
proof -
  have "around (kk (heap_sk s)) k (on_level (tt (heap_sk s)) l P) (pr l) (sc l)"
    using assms(2,3) by (simp add: found_now_sk_def)
  then show "pr l \<in> set P" "kk (heap_sk s) (pr l) < k" using around_mem by (metis, metis)
qed

lemma rq_abs_sk [simp]:
  "view_sk (s\<lparr>rq_sk := (rq_sk s)\<lparr>rq_lin_time := lt, rq_flag := fl\<rparr>\<rparr>) = view_sk s"
  "chain_sk (s\<lparr>rq_sk := (rq_sk s)\<lparr>rq_lin_time := lt, rq_flag := fl\<rparr>\<rparr>) ta P = chain_sk s ta P"
  "wf_sk base (s\<lparr>rq_sk := (rq_sk s)\<lparr>rq_lin_time := lt, rq_flag := fl\<rparr>\<rparr>) = wf_sk base s"
  by (simp_all add: view_sk_def chain_sk_def wf_sk_def)

lemma steps_to_sk_same:
  assumes "wf_sk base s" "view_sk s' = view_sk s" "wf_sk base s'"
  shows "steps_to_sk base s (contents_sk s) s'"
  using steps_to_sk_refl [OF assms(1)] assms(2,3) by (simp add: steps_to_sk_def)

text \<open>
  \<open>contains\<close> of the skip list, which leaves the search at the level where it met the key and
  goes on along the bundles of the bottom level, answers whether the key is bound;
  \<open>find\<close>, which uses only the links, gives the same answer and the value. Neither
  writes to a node.
\<close>

lemma contains_sk_correct:
  assumes "wf_sk base s" "KEY_MIN_sk s < k" "k < KEY_MAX_sk s"
  shows "\<exists>s1 s2. contains_sk s tid k = Inr (s1, map_of (contents_sk s) k \<noteq> None)
    \<and> find_sk s tid k = Inr (s2, case map_of (contents_sk s) k of None \<Rightarrow> (NO_VALUE_sk s, False) | Some v \<Rightarrow> (v, True))
    \<and> steps_to_sk base s (contents_sk s) s1 \<and> steps_to_sk base s (contents_sk s) s2
    \<and> heap_sk s1 = heap_sk s \<and> heap_sk s2 = heap_sk s \<and> quiescent_sk s1 tid \<and> quiescent_sk s2 tid"
proof -
  let ?h = "heap_sk s"
  obtain ta P lf preds succs pr sc where r: "chain_sk s ta P"
    "find_impl_sk s k = Inr (lf, preds, succs, Some (sc 0))" "found_sk ?h k preds succs pr sc"
    "found_now_sk ?h P k lf pr sc"
    by (rule search_alone [OF assms])
  note a = search_alone_facts [OF r(1,4) assms(2,3)] and d = chain_skD [OF r(1)]
  let ?s1 = "enterQuiescentState_sk ((leaveQuiescentState_sk s tid)\<lparr>rq_sk := end_traversal (rq_sk s) tid\<rparr>) tid"
  have s1: "steps_to_sk base s (contents_sk s) ?s1"
    by (rule steps_to_sk_same) (use assms(1) in \<open>simp_all add: end_traversal_def view_sk_def wf_sk_def chain_sk_def\<close>)
  let ?s2 = "enterQuiescentState_sk (leaveQuiescentState_sk s tid) tid"
  have s2: "steps_to_sk base s (contents_sk s) ?s2"
    using steps_to_sk_refl [OF assms(1)] by simp
  show ?thesis
  proof (cases lf)
    case None
    then show ?thesis using r(2) a(5) s1 s2 by (simp add: contains_sk_def find_sk_def Let_def)
  next
    case (Some l)
    note l = a(8) [OF Some]
    have kc: "kk ?h (sc 0) = k" using a(4) Some by (simp del: fld_in)
    note p = search_node [OF r(1,4), of l]
    have "l < SKIPLIST_MAX_LEVEL" using l by simp
    note p = p [OF this] and q = found_skD(1,2,3) [OF r(3) this]
    obtain c0 where c0: "nn 0 ?h (pr l) = Some c0"
      "getPtr_loop (Suc (length ?h)) (keyof_sk ?h) (bundleof_sk ?h) k (Some c0) = Inr (Some (sc 0))"
      using getPtr_loop_now [OF d(1), of "pr l" k "sc 0" "keyof_sk ?h" "bundleof_sk ?h"] p a(1) kc reads_sk(1,2) [of ?h]
      by (auto simp del: fld_in getPtr_loop.simps)
    have "pr l \<noteq> ta" using p(2) d(10) assms(3) by auto
    then have g: "getPtr (rqbundle_sk (?h ! pr l)) = Inr (Some c0)"
      using getPtr_now [OF d(1) p(1)] c0(1) q(3) by simp
    have b: "bundleof_sk ?h (Some (pr l)) = Inr (rqbundle_sk (?h ! pr l))"
      "keyof_sk ?h (Some (sc 0)) = Inr k" using q(3) a(2) kc by (simp_all add: bundleof_sk_def keyof_sk_def deref_Some)
    have "contains_sk s tid k = Inr (?s1, True)"
      using r(2) Some q(1) b g c0(2) by (simp add: contains_sk_def Let_def del: getPtr_loop.simps)
    moreover have "find_sk s tid k = Inr (?s2, vv ?h (sc 0), True)"
      using r(2) Some q(2) l a(2,3,9) by (simp add: find_sk_def Let_def deref_Some)
    moreover have "map_of (contents_sk s) k = Some (vv ?h (sc 0))" using a(5) Some by (simp del: fld_in)
    ultimately show ?thesis using s1 s2 by simp
  qed
qed

text \<open>
  C16: The methods of the bundled skip list, run without interference on any well-formed list and any
  key between the sentinels, act on its dictionary, whatever level the random generator gives. \<open>insertIfAbsent\<close>
  returns the value already bound, or \<open>NO_VALUE\<close>, and inserts the key if absent; \<open>insert\<close> does the same for an absent key and ends
  the program on a present one. \<open>erase\<close> returns the bound value, or \<open>NO_VALUE\<close>, removes the key and retires
  exactly the node that held it (the one unmarked node with that key), or none. \<open>contains\<close>, which goes on along the bundles of the bottom level, and \<open>find\<close>, which uses
  only the links, agree with the dictionary and write to no node. One attempt is enough, no earlier snapshot changes, and the
  thread ends quiescent.
\<close>

theorem sk_methods_correct:
  assumes "wf_sk base s" "curr_timestamp (rq_sk s) < BUNDLE_MAX_TIMESTAMP"
    and "KEY_MIN_sk s < k" "k < KEY_MAX_sk s" "0 < tries"
  shows "(\<exists>s'. insertIfAbsent_sk tries s tid k x =
        Inr (s', case map_of (contents_sk s) k of None \<Rightarrow> NO_VALUE_sk s | Some w \<Rightarrow> w)
      \<and> steps_to_sk base s (ins_kv k x (contents_sk s)) s' \<and> quiescent_sk s' tid
      \<and> insert_sk tries s tid k x = (if map_of (contents_sk s) k = None then Inr (s', NO_VALUE_sk s) else Inl Exit))
    \<and> (\<exists>s'. erase_sk tries s tid k =
        Inr (s', case map_of (contents_sk s) k of None \<Rightarrow> NO_VALUE_sk s | Some w \<Rightarrow> w)
      \<and> steps_to_sk base s (del_kv k (contents_sk s)) s' \<and> quiescent_sk s' tid
      \<and> (if map_of (contents_sk s) k = None then retired_sk s' = retired_sk s
         else \<exists>c. holds_sk s k c \<and> retired_sk s' = retired_sk s @ [Some c]))
    \<and> (\<exists>s1 s2. contains_sk s tid k = Inr (s1, map_of (contents_sk s) k \<noteq> None)
      \<and> find_sk s tid k = Inr (s2, case map_of (contents_sk s) k of None \<Rightarrow> (NO_VALUE_sk s, False) | Some v \<Rightarrow> (v, True))
      \<and> steps_to_sk base s (contents_sk s) s1 \<and> steps_to_sk base s (contents_sk s) s2
      \<and> heap_sk s1 = heap_sk s \<and> heap_sk s2 = heap_sk s \<and> quiescent_sk s1 tid \<and> quiescent_sk s2 tid)"
  by (intro conjI doInsert_sk_correct [OF assms] erase_sk_correct [OF assms] contains_sk_correct [OF assms(1,3,4)])

theorem sk_methods_correct_witness:
  "(\<exists>s'. insertIfAbsent_sk 1 example_sk 0 9 90 = Inr (s', 0) \<and> contents_sk s' = [(7, 70), (9, 90)] \<and> snapshot_sk s' 2 = [])
    \<and> (\<exists>s'. erase_sk 1 example_sk 0 7 = Inr (s', 70) \<and> contents_sk s' = [] \<and> snapshot_sk s' 3 = [(7, 70)])"
  using sk_methods_correct [OF example_sk_wf, of 9 1 0 90] sk_methods_correct [OF example_sk_wf, of 7 1 0 0]
  by (auto simp: example_sk_sel example_sk_contents steps_to_sk_def steps_v_def timestamp_defs del_kv_def
      contents_sk_def [symmetric] snapshot_sk_def [symmetric] simp del: One_nat_def)

section \<open>Range queries\<close>

lemma rq_phases_sk_now:
  assumes wf: "wf_sk base s" and p: "rq_from_v (view_sk s) lo p" and k: "lo \<le> KEY_MAX_sk s" "hi < KEY_MAX_sk s"
  shows "\<exists>s' c. rq_phases_sk s tid (Some p) lo hi = Inr (s', Some c, range_kv lo hi (contents_sk s))
    \<and> steps_to_sk base s (contents_sk s) s' \<and> heap_sk s' = heap_sk s \<and> quiescent_sk s' tid
    \<and> rq_lin_time (rq_sk s') tid = BUNDLE_NULL_TIMESTAMP"
proof -
  let ?h = "heap_sk s" let ?t = "curr_timestamp (rq_sk s)"
  note w = wf_skD [OF wf]
  obtain q' where q': "start_traversal (rq_sk s) tid = (?t, q')" "end_traversal q' tid =
      (rq_sk s)\<lparr>rq_lin_time := (rq_lin_time (rq_sk s))(tid := BUNDLE_NULL_TIMESTAMP),
        rq_flag := (rq_flag (rq_sk s))(tid := False)\<rparr>"
    using start_end_traversal [OF w(1), of tid] by blast
  obtain c0 c1 c2 where r: "follow (bundleof_sk ?h) ?t (Some p) = Inr (Some c0)"
    "rq_enter (Suc (length ?h)) (keyof_sk ?h) (bundleof_sk ?h) ?t lo (Some c0) = Inr (Some c1)"
    "rq_collect (Suc (length ?h)) (keyof_sk ?h) (getKeys_sk ?h) (bundleof_sk ?h) ?t lo hi (Some c1) [] =
      Inr (Some c2, range_kv lo hi (contents_sk s))"
    using rq_view [OF w(3) p, of hi "keyof_sk ?h" "bundleof_sk ?h" "getKeys_sk ?h" "Suc (length ?h)" "[]"]
      k reads_sk [of ?h] by (auto simp: contents_sk_def simp del: rq_enter.simps rq_collect.simps)
  let ?s = "s\<lparr>rq_sk := end_traversal q' tid\<rparr>"
  have "rq_phases_sk s tid (Some p) lo hi = Inr (enterQuiescentState_sk ?s tid, Some c2, range_kv lo hi (contents_sk s))"
    using r q'(1) by (simp add: rq_phases_sk_def Let_def del: rq_enter.simps rq_collect.simps)
  moreover have "steps_to_sk base s (contents_sk s) ?s"
    unfolding q'(2) by (rule steps_to_sk_same [OF wf]) (use wf in simp_all)
  ultimately show ?thesis using q'(2) by simp
qed

text \<open>Phase 1 walks like a search; below the smallest key it stays at the head.\<close>

lemma rq_descend_find:
  assumes "find_levels_sk h k n pred cur lf preds succs = Inr (lf', preds', succs', cur')"
    "length preds = SKIPLIST_MAX_LEVEL" "n \<le> SKIPLIST_MAX_LEVEL" "0 < n"
  shows "rq_descend_sk h k n pred cur = Inr (preds' ! 0, cur')"
  using assms
proof (induction n arbitrary: pred cur lf preds succs)
  case (Suc n)
  obtain c0 p1 c1 ck ps ss where s: "next_sk h n pred = Inr c0"
    "search_from (length h) (keyof_sk h) (next_sk h n) k pred c0 = Inr (p1, c1)" "aset preds n p1 = Inr ps"
    "find_levels_sk h k n p1 c1 (if lf = None \<and> k = ck then Some n else lf) ps ss = Inr (lf', preds', succs', cur')"
    using Suc.prems(1) by (auto simp: obind_Inr_iff)
  have ps: "ps = preds[n := p1]" using s(3) Suc.prems(2,3) by (simp add: aset_in)
  show ?case
  proof (cases "n = 0")
    case True
    then have "preds' = preds[0 := p1]" using s(4) ps by simp
    then show ?thesis using s True Suc.prems(2,3) by simp
  next
    case False
    then have "rq_descend_sk h k n p1 c1 = Inr (preds' ! 0, cur')"
      using Suc.IH [OF s(4)] ps Suc.prems(2,3) by simp
    then show ?thesis using s(1,2) by simp
  qed
qed simp

lemma rq_descend_low:
  assumes ch: "chain_sk s ta P" and lo: "lo \<le> KEY_MIN_sk s" and n: "n \<le> SKIPLIST_MAX_LEVEL"
  shows "\<exists>c. rq_descend_sk (heap_sk s) lo n (p_head_sk s) cur = Inr (p_head_sk s, c)"
  using n
proof (induction n arbitrary: cur)
  case (Suc n)
  let ?h = "heap_sk s" let ?ha = "the (p_head_sk s)"
  note d = chain_skD [OF ch] and sh = shape_skD [OF chain_skD(2) [OF ch]] and m = chain_v_mem [OF chain_skD(1) [OF ch]]
  have m': "?ha \<in> set P" "?ha \<noteq> last P" "?ha < length ?h" using m(1,3,5) d(5) by simp_all
  have l: "n < SKIPLIST_MAX_LEVEL" "n \<le> tt ?h ?ha" "n \<le> tt ?h (last P)" using Suc.prems sh(2,3) d(4) by simp_all
  obtain A c B where F: "on_level (tt ?h) n P = A @ ?ha # c # B" "nn n ?h ?ha = Some c"
    using level_next [OF sh(1) [OF l(1)] m'(1) l(2) m'(2) l(3)] by blast
  have "c \<in> set (on_level (tt ?h) n P)" using F(1) by simp
  then have cP: "c \<in> set P" by (simp add: on_level_set)
  have "KEY_MIN_sk s \<le> kk ?h c"
    using d(4,6,7,9) cP by (cases P) (auto simp del: fld_in)
  then have kc: "\<not> kk ?h c < lo" "c < length ?h" using lo d(8) cP by auto
  have "next_sk ?h n (p_head_sk s) = Inr (Some c)"
    using next_sk_at [of ?ha ?h n] m'(3) sh(5) l(1) F(2) d(3) by (metis (no_types))
  moreover have "search_from (length ?h) (keyof_sk ?h) (next_sk ?h n) lo (p_head_sk s) (Some c) = Inr (p_head_sk s, Some c)"
    using kc by (cases "length ?h") (auto simp: keyof_sk_def deref_Some)
  ultimately show ?case using Suc.IH [of "Some c"] Suc.prems by simp
qed simp

lemma rq_descend_from:
  assumes wf: "wf_sk base s" and lo: "lo \<le> KEY_MAX_sk s"
  obtains p c where "rq_descend_sk (heap_sk s) lo SKIPLIST_MAX_LEVEL (p_head_sk s) None = Inr (Some p, c)"
    "rq_from_v (view_sk s) lo p"
proof -
  obtain ta P where ch: "chain_sk s ta P" using wf by (auto simp: wf_sk_def)
  note d = chain_skD [OF ch]
  show thesis
  proof (cases "KEY_MIN_sk s < lo")
    case True
    obtain lf preds succs cur pr sc where r: "find_impl_sk s lo = Inr (lf, preds, succs, cur)"
      "found_sk (heap_sk s) lo preds succs pr sc"
      using find_impl_spec [OF ch True lo] by blast
    have z: "0 < SKIPLIST_MAX_LEVEL" by (simp add: SKIPLIST_MAX_LEVEL_def)
    have "rq_descend_sk (heap_sk s) lo SKIPLIST_MAX_LEVEL (p_head_sk s) None = Inr (preds ! 0, cur)"
      by (rule rq_descend_find [OF r(1) [unfolded find_impl_sk_def]]) (simp_all add: z)
    moreover have "preds ! 0 = Some (pr 0)" "rq_from_v (view_sk s) lo (pr 0)"
      using r(2) z True by (auto simp: found_sk_def rq_from_v_def simp del: fld_in)
    ultimately show thesis using that by simp
  next
    case False
    have "\<exists>c. rq_descend_sk (heap_sk s) lo SKIPLIST_MAX_LEVEL (p_head_sk s) None = Inr (p_head_sk s, c)"
      by (rule rq_descend_low [OF ch]) (use False in simp_all)
    moreover have "rq_from_v (view_sk s) lo (the (p_head_sk s))"
      using chain_v_mem(3) [OF d(1)] by (simp add: rq_from_v_def)
    ultimately show thesis using that d(3) by (metis (no_types))
  qed
qed

text \<open>
  C17: A range query of the skip list returns exactly the pairs of the dictionary whose keys lie
  in the range, in key order: its phases 2 and 3 do so from any node in front of the range,
  linked or not, on which an old descent may have ended, and the whole method ends in its
  first iteration. No node is written, and the announcement is withdrawn.
\<close>

theorem rangeQuery_sk_correct:
  assumes "wf_sk base s" "lo \<le> KEY_MAX_sk s" "hi < KEY_MAX_sk s" "0 < tries" "rq_from_v (view_sk s) lo p"
  shows "\<exists>s' s2 c. rangeQuery_sk tries s tid lo hi = Inr (s', range_kv lo hi (contents_sk s))
    \<and> rq_phases_sk s tid (Some p) lo hi = Inr (s2, Some c, range_kv lo hi (contents_sk s))
    \<and> steps_to_sk base s (contents_sk s) s' \<and> steps_to_sk base s (contents_sk s) s2
    \<and> heap_sk s' = heap_sk s \<and> quiescent_sk s' tid \<and> rq_lin_time (rq_sk s') tid = BUNDLE_NULL_TIMESTAMP"
proof -
  let ?s = "leaveQuiescentState_sk s tid"
  obtain n where n: "tries = Suc n" using assms(4) by (cases tries) auto
  obtain q c where q: "rq_descend_sk (heap_sk ?s) lo SKIPLIST_MAX_LEVEL (p_head_sk ?s) None = Inr (Some q, c)"
    "rq_from_v (view_sk ?s) lo q"
    using rq_descend_from [of base ?s lo] assms(1,2) by auto
  obtain s' c' where "rq_phases_sk ?s tid (Some q) lo hi = Inr (s', Some c', range_kv lo hi (contents_sk s))"
    "steps_to_sk base s (contents_sk s) s'" "heap_sk s' = heap_sk s" "quiescent_sk s' tid"
    "rq_lin_time (rq_sk s') tid = BUNDLE_NULL_TIMESTAMP"
    using rq_phases_sk_now [of base ?s lo q hi tid] assms(1-3) q(2) by auto
  then show ?thesis using q(1) n rq_phases_sk_now [OF assms(1,5,2,3), of tid] by (auto simp: Let_def)
qed

theorem rangeQuery_sk_correct_witness:
  "\<exists>s'. rangeQuery_sk 1 example_sk 0 5 50 = Inr (s', [(7, 70)])"
  using rangeQuery_sk_correct [OF example_sk_wf, of 5 50 1 1 0]
  by (auto simp: example_sk_sel example_sk_contents rq_from_v_def range_kv_def simp del: One_nat_def)

section \<open>The cleaner\<close>

lemma reclaim_sk:
  assumes "a < length h"
  obtains h' where "upd_bundle_sk h (Some a) (\<lambda>b. Inr (fst (reclaimEntries t b))) = Inr h'"
    "frame_sk h' = frame_sk h" "length h' = length h" "bb h' = (bb h)(a := fst (reclaimEntries t (bb h a)))"
proof
  let ?h = "h[a := (h ! a)\<lparr>rqbundle_sk := fst (reclaimEntries t (rqbundle_sk (h ! a)))\<rparr>]"
  show "upd_bundle_sk h (Some a) (\<lambda>b. Inr (fst (reclaimEntries t b))) = Inr ?h"
    using assms by (simp add: upd_bundle_sk_def res_simps)
  show "frame_sk ?h = frame_sk h" using assms by (simp add: frame_sk_def map_update list_update_same_conv)
  show "length ?h = length h" by simp
  show "bb ?h = (bb h)(a := fst (reclaimEntries t (bb h a)))" using assms by (simp add: fld_update)
qed

lemma clean_from_sk_path:
  assumes "linked (nn 0 h) (a # vs)" "kk h (last (a # vs)) = kmax"
    and "\<forall>x\<in>set (butlast (a # vs)). kk h x \<noteq> kmax \<and> \<not> dd h x"
    and "\<forall>x\<in>set (a # vs). x < length h" "distinct (a # vs)" "length vs < n" "\<And>x. wl h x = SKIPLIST_MAX_LEVEL"
  shows "\<exists>h'. clean_from_sk n t kmax h (Some a) = Inr h' \<and> frame_sk h' = frame_sk h \<and> length h' = length h
    \<and> reclaimed t (bb h) (bb h')
    \<and> (\<forall>x. x \<notin> set (butlast (a # vs)) \<longrightarrow> bb h' x = bb h x)"
  using assms
proof (induction vs arbitrary: a n h)
  case Nil
  then show ?case by (cases n) (auto simp: deref_Some reclaimed_def)
next
  case (Cons b vs)
  obtain m where n: "n = Suc m" using Cons.prems(6) by (cases n) auto
  have a: "a < length h" "kk h a \<noteq> kmax" "\<not> dd h a" "nn 0 h a = Some b"
    using Cons.prems(1,3,4) by (simp_all del: fld_in)
  obtain h1 where h1: "upd_bundle_sk h (Some a) (\<lambda>b. Inr (fst (reclaimEntries t b))) = Inr h1"
    "frame_sk h1 = frame_sk h" "length h1 = length h" "bb h1 = (bb h)(a := fst (reclaimEntries t (bb h a)))"
    using reclaim_sk [OF a(1)] by blast
  note f = same_frame_fields [OF h1(2)]
  have z: "0 < SKIPLIST_MAX_LEVEL" by (simp add: SKIPLIST_MAX_LEVEL_def)
  have nx: "next_sk h1 0 (Some a) = Inr (Some b)"
    using next_sk_at [of a h1 0] a(1,4) h1(3) Cons.prems(7) z unfolding f by (simp del: fld_in)
  have "\<exists>h'. clean_from_sk m t kmax h1 (Some b) = Inr h' \<and> frame_sk h' = frame_sk h1 \<and> length h' = length h1
    \<and> reclaimed t (bb h1) (bb h') \<and> (\<forall>x. x \<notin> set (butlast (b # vs)) \<longrightarrow> bb h' x = bb h1 x)"
    by (rule Cons.IH) (use Cons.prems n h1(3) in \<open>simp_all add: f del: fld_in\<close>)
  then obtain h' where h': "clean_from_sk m t kmax h1 (Some b) = Inr h'" "frame_sk h' = frame_sk h1"
    "length h' = length h1" "reclaimed t (bb h1) (bb h')" "\<forall>x. x \<notin> set (butlast (b # vs)) \<longrightarrow> bb h' x = bb h1 x"
    by blast
  have na: "a \<notin> set (butlast (b # vs))" using Cons.prems(5) by (auto dest: in_set_butlastD)
  have r: "reclaimed t (bb h) (bb h')"
  proof (rule reclaimed_then)
    show "reclaimed t ((bb h)(a := fst (reclaimEntries t (bb h a)))) (bb h')" using h'(4) h1(4) by simp
    show "bb h' a = fst (reclaimEntries t (bb h a))" using h'(5) na h1(4) by (simp del: fld_in butlast.simps)
  qed
  have o: "\<forall>x. x \<notin> set (butlast (a # b # vs)) \<longrightarrow> bb h' x = bb h x"
    using h'(5) h1(4) by (simp del: fld_in)
  have "clean_from_sk n t kmax h (Some a) = Inr h'"
    using n a h1(1) nx h'(1) by (simp add: deref_Some)
  then show ?case using h'(2,3) h1(2,3) r o by metis
qed

text \<open>The walk of the cleaner, behind the head.\<close>

lemma clean_bottom:
  assumes ch: "chain_sk s ta P" and P: "P = ha # x # vs"
    and h1: "frame_sk h1 = frame_sk (heap_sk s)" "length h1 = length (heap_sk s)"
  obtains h2 where "clean_from_sk (length h1) t (KEY_MAX_sk s) h1 (Some x) = Inr h2" "frame_sk h2 = frame_sk h1"
    "length h2 = length h1" "reclaimed t (bb h1) (bb h2)" "bb h2 ha = bb h1 ha"
proof -
  let ?h = "heap_sk s"
  note d = chain_skD [OF ch] and i = chain_invD [OF chain_vD(1) [OF chain_skD(1) [OF ch]]]
    and f = same_frame_fields [OF h1(1)]
  have wl: "wl ?h a = SKIPLIST_MAX_LEVEL" for a by (rule shape_skD(5) [OF d(2)])
  have lk: "linked (nn 0 ?h) (ha # x # vs)" using i(4) P by simp
  have srt: "ksorted (kk ?h) (x # vs)" and lst: "last (x # vs) = ta" using d(5,7) P by simp_all
  have bl: "\<forall>y\<in>set (butlast (x # vs)). kk h1 y \<noteq> KEY_MAX_sk s \<and> \<not> dd h1 y"
  proof
    fix y assume y: "y \<in> set (butlast (x # vs))"
    then have "kk ?h y < kk ?h (last (x # vs))"
      using srt by (cases "x # vs" rule: rev_cases) (auto simp: sorted_wrt_append simp del: fld_in)
    moreover have "y \<in> set P" using in_set_butlastD [OF y] P by auto
    ultimately show "kk h1 y \<noteq> KEY_MAX_sk s \<and> \<not> dd h1 y" using d(8,10) lst unfolding f by (auto simp del: fld_in)
  qed
  have "length P \<le> length ?h" using i(5,6) by (auto intro!: ksorted_length)
  then have len: "length vs < length h1" using P h1(2) by simp
  have "\<exists>h'. clean_from_sk (length h1) t (KEY_MAX_sk s) h1 (Some x) = Inr h' \<and> frame_sk h' = frame_sk h1
    \<and> length h' = length h1 \<and> reclaimed t (bb h1) (bb h')
    \<and> (\<forall>y. y \<notin> set (butlast (x # vs)) \<longrightarrow> bb h' y = bb h1 y)"
    by (rule clean_from_sk_path [OF _ _ bl _ _ len])
      (use lk d(8,10) lst P h1(2) i(12) wl in \<open>simp_all add: f del: fld_in\<close>)
  moreover have "ha \<notin> set (butlast (x # vs))" using i(12) P by (auto dest: in_set_butlastD)
  ultimately show thesis using that by blast
qed

text \<open>A pass of the cleaner writes nothing but bundles, and those only to reclaim.\<close>

lemma cleanup_sk_run:
  assumes ch: "chain_sk s ta P" and t: "get_oldest_active_rq (rq_sk s) = Inr t"
  obtains h2 where "cleanup_sk s tid = Inr (enterQuiescentState_sk (leaveQuiescentState_sk (s\<lparr>heap_sk := h2\<rparr>) tid) tid)"
    "frame_sk h2 = frame_sk (heap_sk s)" "length h2 = length (heap_sk s)" "reclaimed t (bb (heap_sk s)) (bb h2)"
proof -
  let ?h = "heap_sk s" let ?ha = "the (p_head_sk s)"
  note d = chain_skD [OF ch] and i = chain_invD [OF chain_vD(1) [OF chain_skD(1) [OF ch]]]
    and m = chain_v_mem [OF chain_skD(1) [OF ch]]
  obtain x vs where P: "P = ?ha # x # vs" using i(1,2) m(1,2,5) by (cases P; cases "tl P") auto
  obtain h1 where h1: "upd_bundle_sk ?h (Some ?ha) (\<lambda>b. Inr (fst (reclaimEntries t b))) = Inr h1"
    "frame_sk h1 = frame_sk ?h" "length h1 = length ?h" "bb h1 = (bb ?h)(?ha := fst (reclaimEntries t (bb ?h ?ha)))"
    using reclaim_sk [of ?ha ?h t] m(3) by auto
  note f = same_frame_fields [OF h1(2)]
  have z: "0 < SKIPLIST_MAX_LEVEL" by (simp add: SKIPLIST_MAX_LEVEL_def)
  have "nn 0 ?h ?ha = Some x" using i(4) P by simp
  then have nx: "next_sk h1 0 (p_head_sk s) = Inr (Some x)"
    using next_sk_at [of ?ha h1 0] m(3) h1(3) z d(3) shape_skD(5) [OF d(2)] unfolding f by (simp del: fld_in)
  obtain h2 where h2: "clean_from_sk (length h1) t (KEY_MAX_sk s) h1 (Some x) = Inr h2" "frame_sk h2 = frame_sk h1"
    "length h2 = length h1" "reclaimed t (bb h1) (bb h2)" "bb h2 ?ha = bb h1 ?ha"
    using clean_bottom [OF ch P h1(2,3)] by blast
  have "bb h2 ?ha = fst (reclaimEntries t (bb ?h ?ha))" using h2(5) h1(4) by (simp del: fld_in)
  then have rec: "reclaimed t (bb ?h) (bb h2)" using reclaimed_then [of t "bb ?h" ?ha "bb h2"] h2(4) h1(4) by simp
  have s': "(leaveQuiescentState_sk s tid)\<lparr>heap_sk := h2\<rparr> = leaveQuiescentState_sk (s\<lparr>heap_sk := h2\<rparr>) tid"
    by (simp add: leaveQuiescentState_sk_def)
  have "upd_bundle_sk ?h (p_head_sk s) (\<lambda>b. Inr (fst (reclaimEntries t b))) = Inr h1" using h1(1) d(3) by simp
  then have "cleanup_sk s tid = Inr (enterQuiescentState_sk (leaveQuiescentState_sk (s\<lparr>heap_sk := h2\<rparr>) tid) tid)"
    using t nx h2(1) unfolding cleanup_sk_def s' [symmetric] by (simp add: Let_def)
  then show thesis using that [of h2] rec h2(2,3) h1(2,3) by simp
qed

text \<open>So it is the transition of the view that reclaims entries.\<close>

lemma cleanup_sk_step:
  assumes wf: "wf_sk base s" and t: "get_oldest_active_rq (rq_sk s) = Inr t"
  obtains h2 s' where "cleanup_sk s tid = Inr s'" "s' = enterQuiescentState_sk (leaveQuiescentState_sk (s\<lparr>heap_sk := h2\<rparr>) tid) tid"
    "frame_sk h2 = frame_sk (heap_sk s)" "length h2 = length (heap_sk s)" "wf_sk (max base t) s'"
    "contents_sk s' = contents_sk s" "keeps_v (max base t) (view_sk s) (view_sk s')"
    "\<forall>u. max base t \<le> u \<and> u \<le> curr_timestamp (rq_sk s) \<longrightarrow> snapshot_sk s' u = snapshot_sk s u"
proof -
  obtain ta P where ch: "chain_sk s ta P" using wf by (auto simp: wf_sk_def)
  note d = chain_skD [OF ch] and w = wf_skD [OF wf]
  obtain h2 where h2: "cleanup_sk s tid = Inr (enterQuiescentState_sk (leaveQuiescentState_sk (s\<lparr>heap_sk := h2\<rparr>) tid) tid)"
    "frame_sk h2 = frame_sk (heap_sk s)" "length h2 = length (heap_sk s)" "reclaimed t (bb (heap_sk s)) (bb h2)"
    using cleanup_sk_run [OF ch t] by blast
  let ?s = "s\<lparr>heap_sk := h2\<rparr>"
  note f = same_frame_fields [OF h2(2)]
  have view: "view_sk ?s = (view_sk s)\<lparr>cbun := bb h2\<rparr>" by (simp add: view_sk_def f h2(3))
  have tn: "t \<le> cnow (view_sk s)" using t oldest_scan_sound unfolding get_oldest_active_rq_def by fastforce
  have rec: "reclaimed t (cbun (view_sk s)) (bb h2)" using h2(4) by simp
  note st = reclaim_view_steps [OF w(3) rec tn]
  have chv: "chain_v (view_sk ?s) ta P"
    using d(1) chain_reclaimed [OF chain_vD(1) [OF d(1)] rec] unfolding view by (simp add: chain_v_def)
  have "chain_sk ?s ta P" using ch chv by (simp add: chain_sk_def shape_sk_def f del: fld_in)
  then have "wf_sk (max base t) ?s" using w st(1) unfolding view [symmetric] wf_sk_def by auto
  moreover have "contents_sk ?s = contents_sk s" "keeps_v (max base t) (view_sk s) (view_sk ?s)"
    "\<forall>u. max base t \<le> u \<and> u \<le> curr_timestamp (rq_sk s) \<longrightarrow> snapshot_sk ?s u = snapshot_sk s u"
    using st(2-4) unfolding contents_sk_def snapshot_sk_def view by simp_all
  ultimately show thesis using that [OF h2(1) refl h2(2,3)] by simp
qed

text \<open>
  C18: The cleaner of the skip list removes nothing that is still needed: while no query is in the
  middle of announcing itself it succeeds, the dictionary, the links and everything else but
  the bundles stay as they are, and every snapshot from the time of the oldest announced query on reads as before.
\<close>

theorem cleanup_sk_safe:
  assumes "wf_sk base s" "get_oldest_active_rq (rq_sk s) = Inr t"
  shows "\<exists>s'. cleanup_sk s tid = Inr s' \<and> wf_sk (max base t) s' \<and> contents_sk s' = contents_sk s
    \<and> rq_sk s' = rq_sk s \<and> frame_sk (heap_sk s') = frame_sk (heap_sk s) \<and> quiescent_sk s' tid
    \<and> (\<forall>u. max base t \<le> u \<and> u \<le> curr_timestamp (rq_sk s) \<longrightarrow> snapshot_sk s' u = snapshot_sk s u)"
  using cleanup_sk_step [OF assms, of tid] by force

theorem cleanup_sk_safe_witness:
  "\<exists>s'. cleanup_sk example_sk 0 = Inr s' \<and> wf_sk 3 s' \<and> contents_sk s' = [(7, 70)]"
proof -
  have "get_oldest_active_rq (rq_sk example_sk) = Inr 3"
    by (simp add: get_oldest_active_rq_def example_sk_sel example_sk_def timestamp_defs upt_rec)
  from cleanup_sk_safe [OF example_sk_wf this, of 0] show ?thesis
    by (auto simp: example_sk_contents)
qed

section \<open>Links of all nodes\<close>

text \<open>
  Linked or not, a node leads on each of its levels to a node of that level with a larger
  key: whatever a thread holds in its hands, it can go on from there.
\<close>

definition links_sk :: "sk_list \<Rightarrow> bool" where
  "links_sk s \<longleftrightarrow> (let h = heap_sk s in \<forall>a<length h. tt h a < SKIPLIST_MAX_LEVEL \<and> KEY_MIN_sk s \<le> kk h a
     \<and> (kk h a < KEY_MAX_sk s \<longrightarrow> (\<forall>l\<le>tt h a. \<exists>c<length h. nn l h a = Some c \<and> l \<le> tt h c \<and> kk h a < kk h c)))"

lemma links_skD:
  assumes "links_sk s" "a < length (heap_sk s)"
  shows "tt (heap_sk s) a < SKIPLIST_MAX_LEVEL" "KEY_MIN_sk s \<le> kk (heap_sk s) a"
    "kk (heap_sk s) a < KEY_MAX_sk s \<Longrightarrow> l \<le> tt (heap_sk s) a \<Longrightarrow>
      \<exists>c<length (heap_sk s). nn l (heap_sk s) a = Some c \<and> l \<le> tt (heap_sk s) c \<and> kk (heap_sk s) a < kk (heap_sk s) c"
  using assms unfolding links_sk_def Let_def by blast+

section \<open>Construction\<close>

lemma link_head_run:
  assumes "a < length h" "\<And>l. l < n \<Longrightarrow> l < wl h a"
  shows "\<exists>h'. link_head_sk n (Some a) q h = Inr h' \<and> levels_written n (\<lambda>_. a) (\<lambda>_. q) h h'"
  using assms(2)
proof (induction n)
  case (Suc n)
  have "\<exists>h'. link_head_sk n (Some a) q h = Inr h' \<and> levels_written n (\<lambda>_. a) (\<lambda>_. q) h h'"
    by (rule Suc.IH) (simp add: Suc.prems del: fld_in)
  then obtain h1 where h1: "link_head_sk n (Some a) q h = Inr h1" "levels_written n (\<lambda>_. a) (\<lambda>_. q) h h1" by blast
  from levels_written_Suc [OF h1(2) assms(1)] Suc.prems [of n] show ?case using h1(1) by simp
qed simp

lemma link_head_blind:
  "commutes frame_sk (link_head_sk n a q)"
  "link_head_sk n a q h = Inr h' \<Longrightarrow> peek_sk h' = peek_sk h"
proof -
  show "commutes frame_sk (link_head_sk n a q)"
    by (induction n) (simp_all add: commutes_obind set_next_commutes)
  show "link_head_sk n a q h = Inr h' \<Longrightarrow> peek_sk h' = peek_sk h"
    by (induction n arbitrary: h') (auto simp: obind_Inr_iff dest: set_next_peek)
qed

definition sentinel_sk :: "int \<Rightarrow> int \<Rightarrow> sk_node" where
  "sentinel_sk k v = new_node_sk k v (SKIPLIST_MAX_LEVEL - 1)"

lemma bundle_skiplist_heap:
  assumes q: "\<not> cleanup_update q" "T \<noteq> BUNDLE_PENDING_TIMESTAMP"
  shows "\<exists>g1 g2 g3. prepare_bundles q upd_bundle_sk [(Some 1, Some 0)] [sentinel_sk kmax nv, sentinel_sk kmin nv] = Inr g1
    \<and> link_head_sk SKIPLIST_MAX_LEVEL (Some 1) (Some 0) g1 = Inr g2
    \<and> finalize_bundles upd_bundle_sk [(Some 1, Some 0)] T g2 = Inr g3
    \<and> length g3 = 2 \<and> kk g3 = (\<lambda>_. 0)(0 := kmax, 1 := kmin) \<and> tt g3 = (\<lambda>_. 0)(0 := SKIPLIST_MAX_LEVEL - 1, 1 := SKIPLIST_MAX_LEVEL - 1)
    \<and> bb g3 = (\<lambda>_. [])(1 := [BundleEntry T (Some 0)]) \<and> dd g3 = (\<lambda>_. True)(0 := False, 1 := False)
    \<and> idle_sk g3 \<and> (\<forall>l<SKIPLIST_MAX_LEVEL. nn l g3 = (\<lambda>_. None)(1 := Some 0))"
proof -
  let ?h = "[sentinel_sk kmax nv, sentinel_sk kmin nv]" let ?bs = "[(1, Some 0)] :: (nat \<times> ptr) list"
  have h: "kk ?h = (\<lambda>_. 0)(0 := kmax, 1 := kmin)" "tt ?h = (\<lambda>_. 0)(0 := SKIPLIST_MAX_LEVEL - 1, 1 := SKIPLIST_MAX_LEVEL - 1)"
    "bb ?h = (\<lambda>_. [])" "dd ?h = (\<lambda>_. True)(0 := False, 1 := False)" "ll ?h = (\<lambda>_. 0)" "wl ?h = (\<lambda>_. SKIPLIST_MAX_LEVEL)"
    by (auto simp: fun_eq_iff fld_def less_Suc_eq numeral_2_eq_2 sentinel_sk_def new_node_sk_def SKIPLIST_MAX_LEVEL_def)
  have hn: "nn l ?h = (\<lambda>_. None)" if "l < SKIPLIST_MAX_LEVEL" for l
    using that by (auto simp: fun_eq_iff fld_def less_Suc_eq numeral_2_eq_2 sentinel_sk_def new_node_sk_def)
  obtain hw where hw: "link_head_sk SKIPLIST_MAX_LEVEL (Some 1) (Some 0) ?h = Inr hw"
    "levels_written SKIPLIST_MAX_LEVEL (\<lambda>_. 1) (\<lambda>_. Some 0) ?h hw"
    using link_head_run [of 1 ?h SKIPLIST_MAX_LEVEL "Some 0"] unfolding h(6) by auto
  have e: "length hw = length ?h" "kk hw = kk ?h" "tt hw = tt ?h" "dd hw = dd ?h" "ll hw = ll ?h" "wl hw = wl ?h"
    using hw(2) by (simp_all add: levels_written_def same_but_next_def del: fld_in)
  have bs: "distinct (map fst ?bs)" "\<forall>a\<in>fst ` set ?bs. a < length ?h" by simp_all
  obtain g1 g2 g3 where g: "prepare_bundles q upd_bundle_sk (map (\<lambda>(a, q). (Some a, q)) ?bs) ?h = Inr g1"
    "link_head_sk SKIPLIST_MAX_LEVEL (Some 1) (Some 0) g1 = Inr g2"
    "finalize_bundles upd_bundle_sk (map (\<lambda>(a, q). (Some a, q)) ?bs) T g2 = Inr g3"
    "frame_sk g3 = frame_sk hw" "length g3 = length ?h" "bb g3 = pushed T ?bs (bb ?h)"
    using update_bundles_sk [OF q bs link_head_blind(1) hw(1) link_head_blind(2) [of SKIPLIST_MAX_LEVEL "Some 1" "Some 0"] e(1)]
    by blast
  note f = same_frame_fields [OF g(4)]
  have b: "bb g3 = (\<lambda>_. [])(1 := [BundleEntry T (Some 0)])"
    unfolding g(6) h(3) by (auto simp: pushed_def push_entry_def fun_eq_iff)
  have n: "nn l g3 = (\<lambda>_. None)(1 := Some 0)" if "l < SKIPLIST_MAX_LEVEL" for l
    using hw(2) hn [OF that] that unfolding f levels_written_def by simp
  have k: "length g3 = 2" "kk g3 = (\<lambda>_. 0)(0 := kmax, 1 := kmin)" "tt g3 = (\<lambda>_. 0)(0 := SKIPLIST_MAX_LEVEL - 1, 1 := SKIPLIST_MAX_LEVEL - 1)"
    "dd g3 = (\<lambda>_. True)(0 := False, 1 := False)"
    using g(5) unfolding f e h by simp_all
  have i: "idle_sk g3" unfolding idle_sk_def f e h by simp
  show ?thesis
    by (rule exI [of _ g1], rule exI [of _ g2], rule exI [of _ g3])
      (use g(1-3) k b i n in \<open>simp del: prepare_bundles.simps finalize_bundles.simps fld_in One_nat_def\<close>)
qed

text \<open>
  The constructor of the skip list establishes the invariant on an empty dictionary: head and
  tail are neighbours on all twenty levels, nothing is locked, and the head's bundle holds
  one finalized entry, from which a query at any time from 2 on reads the empty list.
\<close>

theorem bundle_skiplist_wf:
  assumes "np \<le> mt" "kmin < kmax"
  shows "\<exists>s. bundle_skiplist mt np Update_Clock False kmin kmax nv rngs = Inr s \<and> wf_sk 2 s
    \<and> contents_sk s = [] \<and> snapshot_sk s 2 = [] \<and> curr_timestamp (rq_sk s) = 2
    \<and> KEY_MIN_sk s = kmin \<and> KEY_MAX_sk s = kmax \<and> NO_VALUE_sk s = nv \<and> retired_sk s = [] \<and> links_sk s"
proof -
  obtain q where q: "RQProvider mt np Update_Clock False = Inr q" "mode q = Update_Clock"
    "\<not> cleanup_update q" "curr_timestamp q = 1"
    using assms by (auto simp: RQProvider_def timestamp_defs)
  then have clk: "clock_ok q" by (simp add: clock_ok_def timestamp_defs)
  obtain b where b: "get_update_lin_time q 0 = (2, q\<lparr>curr_timestamp := 2, backoff_amt := b\<rparr>)"
    using get_update_lin_time_seq [OF clk, of 0] q(4) by auto
  obtain g1 g2 g3 where g: "prepare_bundles q upd_bundle_sk [(Some 1, Some 0)] [sentinel_sk kmax nv, sentinel_sk kmin nv] = Inr g1"
    "link_head_sk SKIPLIST_MAX_LEVEL (Some 1) (Some 0) g1 = Inr g2"
    "finalize_bundles upd_bundle_sk [(Some 1, Some 0)] 2 g2 = Inr g3"
    "length g3 = 2" "kk g3 = (\<lambda>_. 0)(0 := kmax, 1 := kmin)" "tt g3 = (\<lambda>_. 0)(0 := SKIPLIST_MAX_LEVEL - 1, 1 := SKIPLIST_MAX_LEVEL - 1)"
    "bb g3 = (\<lambda>_. [])(1 := [BundleEntry 2 (Some 0)])" "dd g3 = (\<lambda>_. True)(0 := False, 1 := False)"
    "idle_sk g3" "\<forall>l<SKIPLIST_MAX_LEVEL. nn l g3 = (\<lambda>_. None)(1 := Some 0)"
    using bundle_skiplist_heap [OF q(3), of 2 kmax nv kmin] by (auto simp: timestamp_defs simp del: One_nat_def)
  let ?s = "\<lparr>heap_sk = g3, p_head_sk = Some 1, p_tail_sk = Some 0, rq_sk = q\<lparr>curr_timestamp := 2, backoff_amt := b\<rparr>,
    rngs_sk = rngs, retired_sk = [], quiescent_sk = (\<lambda>_. True), init_sk = (\<lambda>_. False),
    KEY_MIN_sk = kmin, KEY_MAX_sk = kmax, NO_VALUE_sk = nv\<rparr>"
  obtain h0 where a0: "allocateNode_sk [] = (Some 0, h0)" "initNode_sk (Some 0) kmax nv (SKIPLIST_MAX_LEVEL - 1) h0
      = Inr [sentinel_sk kmax nv]"
    using init_allocated [of "[]" kmax nv "SKIPLIST_MAX_LEVEL - 1"] by (simp add: allocateNode_sk_def sentinel_sk_def)
  obtain h1 where a1: "allocateNode_sk [sentinel_sk kmax nv] = (Some 1, h1)"
    "initNode_sk (Some 1) kmin nv (SKIPLIST_MAX_LEVEL - 1) h1 = Inr [sentinel_sk kmax nv, sentinel_sk kmin nv]"
    using init_allocated [of "[sentinel_sk kmax nv]" kmin nv "SKIPLIST_MAX_LEVEL - 1"]
    by (simp add: allocateNode_sk_def sentinel_sk_def)
  have run: "bundle_skiplist mt np Update_Clock False kmin kmax nv rngs = Inr ?s"
    unfolding bundle_skiplist_def by (simp only: q(1) obind.simps Let_def a0 prod.case a1 g(1-3) b)
  let ?v = "view_sk ?s"
  have z: "0 < SKIPLIST_MAX_LEVEL" by (simp add: SKIPLIST_MAX_LEVEL_def)
  have inv: "chain_inv (kk g3) (nn 0 g3) (bb g3) (dd g3) (length g3) 1 0 2 [1, 0]"
    using assms(2) g(10) z unfolding g(4,5,7,8)
    by (intro chain_invI) (auto simp: LLONG_MAX_def less_Suc_eq numeral_2_eq_2 split: if_splits)
  then have chv: "chain_v ?v 0 [1, 0]" using assms(2) g(5) by (simp add: chain_v_def del: fld_in One_nat_def)
  have lv: "on_level (tt g3) l [1, 0] = [1, 0]" if "l < SKIPLIST_MAX_LEVEL" for l
    using that unfolding g(6) on_level_def by simp
  have nl: "nn l g3 1 = Some 0" if "l < SKIPLIST_MAX_LEVEL" for l using g(10) that by (metis fun_upd_same)
  have "levels_inv SKIPLIST_MAX_LEVEL (tt g3) (\<lambda>l. nn l g3) [1, 0]"
    unfolding levels_inv_def using lv nl by (simp del: fld_in)
  then have "shape_sk g3 [1, 0]"
    using g(9) z unfolding shape_sk_def idle_sk_def g(6) by (simp del: fld_in)
  then have ch: "chain_sk ?s 0 [1, 0]" using chv by (simp add: chain_sk_def)
  have "snaps_inv 2 (ckey ?v) (cbun ?v) (clen ?v) (chead ?v) 0 2"
    unfolding snaps_inv_def
  proof (intro allI impI)
    fix u :: int assume "2 \<le> u \<and> u \<le> 2"
    then have "u = cnow ?v" by simp
    then show "\<exists>Q. snap_path (ckey ?v) (cbun ?v) (clen ?v) (chead ?v) 0 u Q"
      using chain_now [OF chain_vD(1) [OF chv]] by blast
  qed
  then have "wf_v 2 ?v" using chv by (auto simp: wf_v_def timestamp_defs)
  then have "wf_sk 2 ?s" using ch q(2,3) by (auto simp: wf_sk_def)
  moreover have "contents_sk ?s = []" "snapshot_sk ?s 2 = []"
    using contents_v_chain [OF chv] by (simp_all add: contents_sk_def snapshot_sk_def pairs_v_def)
  moreover have "nn l g3 (Suc 0) = Some 0" if "l \<le> SKIPLIST_MAX_LEVEL - 1" for l
    using nl [of l] that z by (simp del: fld_in)
  then have "links_sk ?s" using assms(2) z g(4-6) by (auto simp: links_sk_def less_2_cases_iff simp del: fld_in)
  ultimately show ?thesis using run by simp
qed

theorem bundle_skiplist_wf_witness:
  "\<exists>s. bundle_skiplist 64 4 Update_Clock False 0 100 0 (\<lambda>_. 1) = Inr s \<and> wf_sk 2 s \<and> contents_sk s = []"
  using bundle_skiplist_wf [of 4 64 0 100 0 "\<lambda>_. 1"] by auto

section \<open>Random levels\<close>

text \<open>A word and its negation have the lowest bit of the word in common, and nothing else.\<close>

lemma lowest_bit:
  fixes v :: "32 word"
  assumes n: "bit v n" "\<And>i. i < n \<Longrightarrow> \<not> bit v i"
  shows "v AND (- v) = push_bit n 1"
proof (rule bit_word_eqI)
  fix i assume i: "i < LENGTH(32)"
  have n32: "n < 32" using bit_imp_le_length [OF n(1)] by simp
  have "unset_bit n v AND push_bit n 1 = 0" "unset_bit n v OR push_bit n 1 = v" "unset_bit n v AND mask n = 0"
    using n by (auto intro!: bit_word_eqI simp: bit_simps)
  then have "v = unset_bit n v + push_bit n 1" "unset_bit n v + mask n = unset_bit n v OR mask n"
    by (simp_all add: disjunctive_add_eq_or)
  moreover have "push_bit n (1 :: 32 word) = mask n + 1" by (simp add: mask_eq_exp_minus_1)
  ultimately have "v = (unset_bit n v OR mask n) + 1" by (metis add.assoc)
  then have "v - 1 = unset_bit n v OR mask n" by (metis add_diff_cancel_right')
  then have "bit (- v) i \<longleftrightarrow> \<not> bit (unset_bit n v OR mask n) i"
    using i by (simp add: bit_minus_iff)
  then show "bit (v AND (- v)) i = bit (push_bit n (1 :: 32 word)) i"
    using n i by (cases i n rule: linorder_cases) (auto simp: bit_simps)
qed

lemma zero_bits_powers: "\<forall>n\<in>set [0..<32]. zero_bits (push_bit n 1) = n"
  by code_simp

lemma zero_bits_isolated: "zero_bits (v AND (- v)) = zero_bits v" if "v AND (- v) = push_bit n 1" "n < 32"
proof -
  have "push_bit n (1 :: 32 word) AND (- push_bit n 1) = push_bit n 1"
    using that(2) by (intro lowest_bit) (auto simp: bit_simps)
  then show ?thesis using that(1) unfolding zero_bits_def by (simp only: Let_def)
qed

lemma zero_bits_spec:
  "v \<noteq> 0 \<Longrightarrow> bit v (zero_bits v) \<and> (\<forall>i<zero_bits v. \<not> bit v i)" "zero_bits 0 = 32"
proof -
  assume "v \<noteq> 0"
  then obtain m where m: "bit v m" using bit_eqI [of v 0] by auto
  define n where "n = (LEAST i. bit v i)"
  have n: "bit v n" "\<And>i. i < n \<Longrightarrow> \<not> bit v i"
    unfolding n_def using LeastI [of "bit v", OF m] not_less_Least by blast+
  have "n < 32" using bit_imp_le_length [OF n(1)] by simp
  then have "zero_bits v = zero_bits (push_bit n 1)"
    using zero_bits_isolated lowest_bit [OF n] by metis
  then have "zero_bits v = n" using zero_bits_powers \<open>n < 32\<close> by simp
  then show "bit v (zero_bits v) \<and> (\<forall>i<zero_bits v. \<not> bit v i)" using n by blast
next
  show "zero_bits 0 = 32" by (simp add: zero_bits_def)
qed

text \<open>
  The level of a new node is a level of the arrays, and it is the number of zeros at the right
  end of the random word, cut off at the top level: it is at least \<open>l\<close> exactly when \<open>l\<close> is
  a level and the \<open>l\<close> lowest bits of the word are clear, so that every level is half as likely as the one below.
\<close>

theorem sl_randomLevel_spec:
  "fst (sl_randomLevel seed) < SKIPLIST_MAX_LEVEL \<and> snd (sl_randomLevel seed) = xorshift seed
     \<and> (l \<le> fst (sl_randomLevel seed)) = (l < SKIPLIST_MAX_LEVEL \<and> take_bit l (xorshift seed) = 0)"
proof -
  let ?v = "xorshift seed" let ?c = "zero_bits ?v"
  have r: "fst (sl_randomLevel seed) = (if ?c < SKIPLIST_MAX_LEVEL then ?c else SKIPLIST_MAX_LEVEL - 1)"
    "snd (sl_randomLevel seed) = ?v"
    by (simp_all add: sl_randomLevel_def nextNatural_def Let_def)
  have "(l \<le> ?c) = (take_bit l ?v = 0)" if l: "l < SKIPLIST_MAX_LEVEL"
  proof (cases "?v = 0")
    case True
    then show ?thesis using l zero_bits_spec(2) by (simp add: SKIPLIST_MAX_LEVEL_def)
  next
    case False
    note z = zero_bits_spec(1) [OF False]
    have "take_bit l ?v = 0 \<longleftrightarrow> (\<forall>i<l. \<not> bit ?v i)"
      using l by (auto simp: bit_eq_iff bit_simps SKIPLIST_MAX_LEVEL_def)
    then show ?thesis using z by (metis le_less_linear less_le_trans)
  qed
  then show ?thesis using r by (auto simp: SKIPLIST_MAX_LEVEL_def)
qed

end
