(* ===== verification/Bundled_Skiplist_Steps.thy ===== *)
theory Bundled_Skiplist_Steps
  imports Bundled_Skiplist_Queries
begin

text \<open>
  The bundled skip list among several threads: what the single steps of other threads
  (locked sections, passes of the cleaner, announcements) preserve for a thread that is in
  the middle of a search or a range query, and the descent through the levels, hop by
  hop: a hop compares one key, which never changes, and reads one \<open>next\<close> pointer.
\<close>

section \<open>Updates keep the links of all nodes\<close>

lemma links_sk_frame:
  assumes "frame_sk (heap_sk s') = frame_sk (heap_sk s)" "KEY_MIN_sk s' = KEY_MIN_sk s" "KEY_MAX_sk s' = KEY_MAX_sk s"
  shows "links_sk s' = links_sk s"
proof -
  have "length (heap_sk s') = length (heap_sk s)" using arg_cong [OF assms(1), of length] by simp
  then show ?thesis using assms(2,3) unfolding links_sk_def Let_def same_frame_fields [OF assms(1)] by (simp del: fld_in)
qed

lemma links_inserted:
  assumes li: "links_sk s" and f: "found_sk (heap_sk s) k preds succs pr sc" and t: "t < SKIPLIST_MAX_LEVEL"
    and k: "\<And>l. l \<le> t \<Longrightarrow> kk (heap_sk s) (sc l) \<noteq> k"
    and g: "inserted_sk (heap_sk s) k x t pr sc T (heap_sk s')"
    and same: "KEY_MIN_sk s' = KEY_MIN_sk s" "KEY_MAX_sk s' = KEY_MAX_sk s"
  shows "links_sk s'"
proof -
  let ?h = "heap_sk s" let ?g = "heap_sk s'" let ?n = "length ?h"
  note i = inserted_skD [OF g]
  have fl: "pr l < ?n" "sc l < ?n" "l \<le> tt ?h (sc l)" "kk ?h (pr l) < k" "k \<le> kk ?h (sc l)" if "l \<le> t" for l
    using found_skD(3,4,6,7,8) [OF f, of l] that t by (simp_all del: fld_in)
  have old: "tt ?g a = tt ?h a" "kk ?g a = kk ?h a" if "a < ?n" for a using that unfolding i(2,4) by (simp_all del: fld_in)
  have new: "tt ?g ?n = t" "kk ?g ?n = k" unfolding i(2,4) by simp_all
  have kmin: "KEY_MIN_sk s \<le> k" using links_skD(2) [OF li fl(1) [of 0]] fl(4) [of 0] by (simp del: fld_in)
  have lk: "\<exists>c<length ?g. nn l ?g a = Some c \<and> l \<le> tt ?g c \<and> kk ?g a < kk ?g c"
    if a: "a < length ?g" "kk ?g a < KEY_MAX_sk s" "l \<le> tt ?g a" for a l
  proof -
    consider (new) "a = ?n" | (pred) "a < ?n" "l \<le> t" "a = pr l" | (old) "a < ?n" "l \<le> t \<longrightarrow> a \<noteq> pr l"
      using a(1) i(1) by linarith
    then show ?thesis
    proof cases
      case new
      then have l: "l \<le> t" using a(3) i(4) by simp
      have "nn l ?g a = Some (sc l)" using i(9) [OF l] new by simp
      moreover have "k < kk ?h (sc l)" using fl(5) [OF l] k [OF l] by simp
      ultimately show ?thesis using new fl(2,3) [OF l] old [OF fl(2) [OF l]] \<open>tt ?g ?n = t\<close> \<open>kk ?g ?n = k\<close> i(1)
        by (intro exI [of _ "sc l"]) (simp del: fld_in)
    next
      case pred
      then have "nn l ?g a = Some ?n" using i(9) [OF pred(2)] by simp
      then show ?thesis using pred fl(4) old(2) [OF pred(1)] new i(1) by (intro exI [of _ ?n]) (simp del: fld_in)
    next
      case old': old
      have "nn l ?g a = nn l ?h a"
        using i(9) [of l] i(10) [of l a] old' by (cases "l \<le> t") (simp_all del: fld_in)
      moreover obtain c where "c < ?n" "nn l ?h a = Some c" "l \<le> tt ?h c" "kk ?h a < kk ?h c"
        using links_skD(3) [OF li old'(1), of l] a(2,3) old [OF old'(1)] by auto
      ultimately show ?thesis using old [of c] old [OF old'(1)] i(1) by (intro exI [of _ c]) (simp del: fld_in)
    qed
  qed
  have "tt ?g a < SKIPLIST_MAX_LEVEL \<and> KEY_MIN_sk s \<le> kk ?g a" if "a < length ?g" for a
    using that links_skD(1,2) [OF li, of a] old [of a] new t kmin i(1) by (cases "a = ?n") (simp_all del: fld_in)
  then show ?thesis using lk unfolding links_sk_def Let_def same by blast
qed

lemma links_erased:
  assumes li: "links_sk s" and f: "found_sk (heap_sk s) k preds succs pr sc"
    and c: "c < length (heap_sk s)" "kk (heap_sk s) c = k" "k < KEY_MAX_sk s"
    and g: "erased_sk (heap_sk s) ha c d pr T (heap_sk s')"
    and same: "KEY_MIN_sk s' = KEY_MIN_sk s" "KEY_MAX_sk s' = KEY_MAX_sk s"
  shows "links_sk s'"
proof -
  let ?h = "heap_sk s"
  note e = erased_skD [OF g]
  have lk: "\<exists>b<length ?h. nn l (heap_sk s') a = Some b \<and> l \<le> tt ?h b \<and> kk ?h a < kk ?h b"
    if a: "a < length ?h" "kk ?h a < KEY_MAX_sk s" "l \<le> tt ?h a" for a l
  proof (cases "l \<le> tt ?h c \<and> a = pr l")
    case True
    then obtain b where b: "b < length ?h" "nn l ?h c = Some b" "l \<le> tt ?h b" "kk ?h c < kk ?h b"
      using links_skD(3) [OF li c(1), of l] c(2,3) by auto
    have "l < SKIPLIST_MAX_LEVEL" using True links_skD(1) [OF li c(1)] by simp
    then have "kk ?h a < kk ?h c" using found_skD(7) [OF f] True c(2) by simp
    then show ?thesis using True b e(9) [of l] by (intro exI [of _ b]) (simp del: fld_in)
  next
    case False
    then have "nn l (heap_sk s') a = nn l ?h a" using e(9) [of l] by (simp del: fld_in)
    then show ?thesis using links_skD(3) [OF li a] by (simp del: fld_in)
  qed
  then show ?thesis using links_skD(1,2) [OF li] unfolding links_sk_def Let_def e(1,2,4) same by blast
qed

text \<open>One step along a level, from any node in front of the tail.\<close>

lemma step_along:
  assumes wf: "wf_sk base s" and li: "links_sk s"
    and p: "p < length (heap_sk s)" "l \<le> tt (heap_sk s) p" "kk (heap_sk s) p < KEY_MAX_sk s"
  obtains c where "next_sk (heap_sk s) l (Some p) = Inr (Some c)" "c < length (heap_sk s)" "l \<le> tt (heap_sk s) c"
    "kk (heap_sk s) p < kk (heap_sk s) c" "keyof_sk (heap_sk s) (Some c) = Inr (kk (heap_sk s) c)"
proof -
  obtain ta P where "chain_sk s ta P" using wf by (auto simp: wf_sk_def)
  then have "wl (heap_sk s) p = SKIPLIST_MAX_LEVEL" using shape_skD(5) [OF chain_skD(2)] by blast
  then have "next_sk (heap_sk s) l (Some p) = Inr (nn l (heap_sk s) p)"
    using next_sk_at [OF p(1), of l] links_skD(1) [OF li p(1)] p(2) by (simp del: fld_in)
  moreover obtain c where "c < length (heap_sk s)" "nn l (heap_sk s) p = Some c" "l \<le> tt (heap_sk s) c"
    "kk (heap_sk s) p < kk (heap_sk s) c"
    using links_skD(3) [OF li p(1,3,2)] by blast
  ultimately show thesis using that by (simp add: keyof_sk_def deref_Some)
qed

section \<open>The other threads\<close>

text \<open>
  One step of a thread other than \<open>tid\<close>: an announcement, a pass of the cleaner, or a locked
  section, on the result of a search that may be arbitrarily old.
\<close>

inductive env_step_sk :: "nat \<Rightarrow> sk_list \<Rightarrow> sk_list \<Rightarrow> bool" for tid :: nat where
  sk_insert: "\<lbrakk>i \<noteq> tid; curr_timestamp (rq_sk s) < BUNDLE_MAX_TIMESTAMP;
      found_sk (heap_sk s) k preds succs pr sc; t < SKIPLIST_MAX_LEVEL;
      \<forall>l\<le>t. kk (heap_sk s) (sc l) \<noteq> k; k < KEY_MAX_sk s;
      insert_locked_sk s i preds succs k v t = Inr (s', ok)\<rbrakk> \<Longrightarrow> env_step_sk tid s s'"
| sk_erase: "\<lbrakk>i \<noteq> tid; curr_timestamp (rq_sk s) < BUNDLE_MAX_TIMESTAMP;
      found_sk (heap_sk s) k preds succs pr sc; c < length (heap_sk s); kk (heap_sk s) c = k;
      k < KEY_MAX_sk s; erase_locked_sk s i preds (Some c) = Inr (s', r)\<rbrakk> \<Longrightarrow> env_step_sk tid s s'"
| sk_cleanup: "\<lbrakk>i \<noteq> tid; cleanup_sk s i = Inr s'\<rbrakk> \<Longrightarrow> env_step_sk tid s s'"
| sk_start: "\<lbrakk>i \<noteq> tid; start_traversal (rq_sk s) i = (t, q)\<rbrakk> \<Longrightarrow> env_step_sk tid s (s\<lparr>rq_sk := q\<rparr>)"
| sk_end: "i \<noteq> tid \<Longrightarrow> env_step_sk tid s (s\<lparr>rq_sk := end_traversal (rq_sk s) i\<rparr>)"

inductive_cases env_step_skE: "env_step_sk tid s s'"

text \<open>
  What such a step preserves. Everything from some time \<open>base'\<close> on can still be read, and
  \<open>base'\<close> is not above the time a query of thread \<open>tid\<close> has announced; keys and levels of
  nodes stay.
\<close>

definition own_sk :: "nat \<Rightarrow> rqp \<Rightarrow> rqp \<Rightarrow> bool" where
  "own_sk tid q q' \<longleftrightarrow> rq_lin_time q' tid = rq_lin_time q tid \<and> num_processes q' = num_processes q"

definition env_ok_sk :: "nat \<Rightarrow> timestamp_t \<Rightarrow> sk_list \<Rightarrow> sk_list \<Rightarrow> bool" where
  "env_ok_sk tid base s s' \<longleftrightarrow> links_sk s' \<and> own_sk tid (rq_sk s) (rq_sk s') \<and> p_head_sk s' = p_head_sk s
     \<and> (\<forall>a<length (heap_sk s). tt (heap_sk s') a = tt (heap_sk s) a)
     \<and> (\<exists>base'\<ge>base. wf_sk base' s' \<and> keeps_v base' (view_sk s) (view_sk s')
         \<and> (base \<le> rq_lin_time (rq_sk s) tid \<longrightarrow> base' \<le> rq_lin_time (rq_sk s) tid))"

lemma env_ok_skI:
  assumes "wf_sk base s'" "keeps_v base (view_sk s) (view_sk s')" "links_sk s'" "own_sk tid (rq_sk s) (rq_sk s')"
    and "p_head_sk s' = p_head_sk s" "\<And>a. a < length (heap_sk s) \<Longrightarrow> tt (heap_sk s') a = tt (heap_sk s) a"
  shows "env_ok_sk tid base s s'"
  using assms unfolding env_ok_sk_def by blast

lemma env_ok_sk_idle: "wf_sk base s \<Longrightarrow> links_sk s \<Longrightarrow> env_ok_sk tid base s s"
  by (rule env_ok_skI) (simp_all add: own_sk_def)

lemma env_insert_ok:
  assumes wf: "wf_sk base s" and li: "links_sk s" and clk: "curr_timestamp (rq_sk s) < BUNDLE_MAX_TIMESTAMP"
    and f: "found_sk (heap_sk s) k preds succs pr sc" and t: "t < SKIPLIST_MAX_LEVEL"
    and k: "\<forall>l\<le>t. kk (heap_sk s) (sc l) \<noteq> k" "k < KEY_MAX_sk s"
    and run: "insert_locked_sk s i preds succs k x t = Inr (s', ok)"
  shows "env_ok_sk tid base s s'"
proof -
  obtain ta P where ch: "chain_sk s ta P" using wf by (auto simp: wf_sk_def)
  note id = shape_idle [OF chain_skD(2) [OF ch]]
  show ?thesis
  proof (cases "\<forall>l\<le>t. insert_ok (heap_sk s) pr sc l")
    case True
    obtain h' q' where r: "insert_locked_sk s i preds succs k x t =
        Inr (enterQuiescentState_sk (s\<lparr>heap_sk := h', rq_sk := q'\<rparr>) i, True)"
      "rq_tick (rq_sk s) q'" "inserted_sk (heap_sk s) k x t pr sc (curr_timestamp (rq_sk s) + 1) h'"
      using insert_locked_sk_valid [OF f id t True wf_skD(4) [OF wf clk], of i x] by blast
    have s': "s' = enterQuiescentState_sk (s\<lparr>heap_sk := h', rq_sk := q'\<rparr>) i" using run r(1) by simp
    have "\<exists>s1. insert_locked_sk s i preds succs k x t = Inr (s1, True) \<and> steps_to_sk base s (ins_kv k x (contents_sk s)) s1"
      using insert_locked_sk_step [OF wf clk f t _ k(2) True, of i x] k(1) by blast
    then have "steps_to_sk base s (ins_kv k x (contents_sk s)) s'" using run by auto
    then have st: "wf_sk base s'" "keeps_v base (view_sk s) (view_sk s')" by (simp_all add: steps_to_sk_def steps_v_def)
    have "links_sk s'" using links_inserted [OF li f t _ _, of x] k(1) r(3) s' by simp
    moreover have "tt (heap_sk s') a = tt (heap_sk s) a" if "a < length (heap_sk s)" for a
      using inserted_skD(4) [OF r(3)] that s' by (simp del: fld_in)
    ultimately show ?thesis using st rq_tickD [OF r(2)] s' by (intro env_ok_skI) (simp_all add: own_sk_def)
  next
    case False
    then have "s' = enterQuiescentState_sk s i" using insert_locked_sk_invalid [OF f id t False, of i x] run by simp
    then show ?thesis using wf li links_sk_frame [of s' s] by (intro env_ok_skI) (simp_all add: own_sk_def)
  qed
qed

lemma env_erase_ok:
  assumes wf: "wf_sk base s" and li: "links_sk s" and clk: "curr_timestamp (rq_sk s) < BUNDLE_MAX_TIMESTAMP"
    and f: "found_sk (heap_sk s) k preds succs pr sc"
    and c: "c < length (heap_sk s)" "kk (heap_sk s) c = k" "k < KEY_MAX_sk s"
    and run: "erase_locked_sk s i preds (Some c) = Inr (s', r)"
  shows "env_ok_sk tid base s s'"
proof -
  obtain ta P where ch: "chain_sk s ta P" using wf by (auto simp: wf_sk_def)
  note d = chain_skD [OF ch] and id = shape_idle [OF chain_skD(2) [OF ch]] and tc = links_skD(1) [OF li c(1)]
  have idle: "env_ok_sk tid base s s'" if "s' = enterQuiescentState_sk s i"
    using that wf li links_sk_frame [of s' s] by (intro env_ok_skI) (simp_all add: own_sk_def)
  show ?thesis
  proof (cases "\<not> dd (heap_sk s) c \<and> (\<forall>l\<le>tt (heap_sk s) c. erase_ok (heap_sk s) pr c l)")
    case True
    then have nd: "\<not> dd (heap_sk s) c" and v: "\<forall>l\<le>tt (heap_sk s) c. erase_ok (heap_sk s) pr c l" by blast+
    obtain x where nx: "nn 0 (heap_sk s) c = Some x" using links_skD(3) [OF li c(1), of 0] c(2,3) by auto
    obtain h' q' where r: "erase_locked_sk s i preds (Some c) = Inr (enterQuiescentState_sk
        (s\<lparr>heap_sk := h', rq_sk := q', retired_sk := retired_sk s @ [Some c]\<rparr>) i, Some (vv (heap_sk s) c))"
      "rq_tick (rq_sk s) q'" "erased_sk (heap_sk s) (the (p_head_sk s)) c x pr (curr_timestamp (rq_sk s) + 1) h'"
      using erase_locked_sk_valid [OF f id c(1,2) tc nd v wf_skD(4) [OF wf clk] d(3) nx, of i] by blast
    have s': "s' = enterQuiescentState_sk (s\<lparr>heap_sk := h', rq_sk := q', retired_sk := retired_sk s @ [Some c]\<rparr>) i"
      using run r(1) by simp
    have "\<exists>s1. erase_locked_sk s i preds (Some c) = Inr (s1, Some (vv (heap_sk s) c))
        \<and> steps_to_sk base s (del_kv k (contents_sk s)) s1"
      using erase_locked_sk_step [OF wf clk f c nd v, of i] by blast
    then have "steps_to_sk base s (del_kv k (contents_sk s)) s'" using run by auto
    then have st: "wf_sk base s'" "keeps_v base (view_sk s) (view_sk s')" by (simp_all add: steps_to_sk_def steps_v_def)
    have "links_sk s'" using links_erased [OF li f c, of _ x "curr_timestamp (rq_sk s) + 1" s'] r(3) s' by simp
    moreover have "tt (heap_sk s') a = tt (heap_sk s) a" for a using erased_skD(4) [OF r(3)] s' by (simp del: fld_in)
    ultimately show ?thesis using st rq_tickD [OF r(2)] s' by (intro env_ok_skI) (simp_all add: own_sk_def)
  next
    case False
    then show ?thesis
      using erase_locked_sk_marked [OF id c(1), of i preds] erase_locked_sk_invalid [OF f id c(1,2) tc, of i] run idle
      by (cases "dd (heap_sk s) c") auto
  qed
qed

lemma env_cleanup_ok:
  assumes wf: "wf_sk base s" and li: "links_sk s" and run: "cleanup_sk s i = Inr s'"
    and tid: "tid < num_processes (rq_sk s)"
  shows "env_ok_sk tid base s s'"
proof -
  obtain t where t: "get_oldest_active_rq (rq_sk s) = Inr t"
    using run by (cases "get_oldest_active_rq (rq_sk s)") (auto simp: cleanup_sk_def Let_def)
  obtain h2 s1 where s1: "cleanup_sk s i = Inr s1" "s1 = enterQuiescentState_sk (leaveQuiescentState_sk (s\<lparr>heap_sk := h2\<rparr>) i) i"
    "frame_sk h2 = frame_sk (heap_sk s)" "wf_sk (max base t) s1" "keeps_v (max base t) (view_sk s) (view_sk s1)"
    using cleanup_sk_step [OF wf t, of i] by blast
  have s': "s' = s1" using run s1(1) by simp
  have "rq_lin_time (rq_sk s) tid \<noteq> BUNDLE_NULL_TIMESTAMP \<longrightarrow> t \<le> rq_lin_time (rq_sk s) tid"
    using t tid oldest_scan_sound unfolding get_oldest_active_rq_def by fastforce
  moreover have "0 < base" using wf_v_clock(1) [OF wf_skD(3) [OF wf]] .
  ultimately have "base \<le> rq_lin_time (rq_sk s) tid \<longrightarrow> max base t \<le> rq_lin_time (rq_sk s) tid"
    by (auto simp: timestamp_defs)
  moreover have "links_sk s'" using li links_sk_frame [of s' s] s' s1(2,3) by simp
  moreover have "tt (heap_sk s') a = tt (heap_sk s) a" for a
    using same_frame_fields(3) [OF s1(3)] s' s1(2) by simp
  ultimately show ?thesis using s1(2,4,5) s' unfolding env_ok_sk_def
    by (intro conjI exI [of _ "max base t"]) (simp_all add: own_sk_def)
qed

text \<open>The announcements of other threads are no part of the view.\<close>

lemma announce_ok:
  assumes "wf_sk base s" "links_sk s" "lt tid = rq_lin_time (rq_sk s) tid"
  shows "env_ok_sk tid base s (s\<lparr>rq_sk := (rq_sk s)\<lparr>rq_lin_time := lt, rq_flag := fl\<rparr>\<rparr>)"
  using assms links_sk_frame [of "s\<lparr>rq_sk := (rq_sk s)\<lparr>rq_lin_time := lt, rq_flag := fl\<rparr>\<rparr>" s]
  by (intro env_ok_skI) (simp_all add: own_sk_def)

lemma env_step_sk_ok:
  assumes step: "env_step_sk tid s s'" and wf: "wf_sk base s" and li: "links_sk s" and tid: "tid < num_processes (rq_sk s)"
  shows "env_ok_sk tid base s s'"
  using step
proof (cases rule: env_step_sk.cases)
  case sk_insert
  then show ?thesis using env_insert_ok [OF wf li] by blast
next
  case sk_erase
  then show ?thesis using env_erase_ok [OF wf li] by blast
next
  case sk_cleanup
  then show ?thesis using env_cleanup_ok [OF wf li _ tid] by blast
next
  case (sk_start i t q)
  have "q = (rq_sk s)\<lparr>rq_lin_time := (rq_lin_time (rq_sk s))(i := curr_timestamp (rq_sk s)),
      rq_flag := (rq_flag (rq_sk s))(i := False)\<rparr>"
    using sk_start(3) wf_skD(1) [OF wf] by (auto simp: start_traversal_def announce_def Let_def)
  then show ?thesis using sk_start(1,2) announce_ok [OF wf li] by simp
next
  case (sk_end i)
  have "end_traversal (rq_sk s) i = (rq_sk s)\<lparr>rq_lin_time := (rq_lin_time (rq_sk s))(i := BUNDLE_NULL_TIMESTAMP),
      rq_flag := rq_flag (rq_sk s)\<rparr>"
    using wf_skD(1) [OF wf] by (simp add: end_traversal_def)
  then show ?thesis using sk_end announce_ok [OF wf li, where fl = "rq_flag (rq_sk s)"] by simp
qed

lemma env_ok_skD:
  assumes "env_ok_sk tid base s s'"
  shows "links_sk s'" "own_sk tid (rq_sk s) (rq_sk s')" "p_head_sk s' = p_head_sk s"
    "KEY_MIN_sk s' = KEY_MIN_sk s" "KEY_MAX_sk s' = KEY_MAX_sk s" "length (heap_sk s) \<le> length (heap_sk s')"
    "a < length (heap_sk s) \<Longrightarrow> kk (heap_sk s') a = kk (heap_sk s) a"
    "a < length (heap_sk s) \<Longrightarrow> tt (heap_sk s') a = tt (heap_sk s) a"
  using assms keeps_vD(2-4,6) [of _ "view_sk s" "view_sk s'"] unfolding env_ok_sk_def by auto

section \<open>Walking down the levels\<close>

text \<open>
  \<open>Down n pred\<close>: the levels below \<open>n\<close> are still to be walked, from \<open>pred\<close>. \<open>Along l pred cur\<close>:
  on level \<open>l\<close>, before the comparison of the key of \<open>cur\<close>.
\<close>

datatype walk_pc = Down nat ptr | Along nat ptr ptr

definition walk_hop :: "sk_node list \<Rightarrow> int \<Rightarrow> walk_pc \<Rightarrow> walk_pc res" where
  "walk_hop h k w = (case w of
     Down n pred \<Rightarrow> (case n of 0 \<Rightarrow> Inr w
       | Suc l \<Rightarrow> obind (next_sk h l pred) (\<lambda>c. Inr (Along l pred c)))
   | Along l pred cur \<Rightarrow> obind (keyof_sk h cur) (\<lambda>ck.
       if ck < k then obind (next_sk h l cur) (\<lambda>c. Inr (Along l cur c)) else Inr (Down l pred)))"

text \<open>A node in front of the key that is high enough, and in the inner loop a later node of the level.\<close>

fun walk_ok :: "sk_list \<Rightarrow> int \<Rightarrow> walk_pc \<Rightarrow> bool" where
  "walk_ok s k (Down n pred) \<longleftrightarrow>
     (\<exists>p. pred = Some p \<and> rq_from_v (view_sk s) k p \<and> n \<le> Suc (tt (heap_sk s) p))"
| "walk_ok s k (Along l pred cur) \<longleftrightarrow>
     (\<exists>p c. pred = Some p \<and> cur = Some c \<and> rq_from_v (view_sk s) k p \<and> l \<le> tt (heap_sk s) p
        \<and> c < length (heap_sk s) \<and> l \<le> tt (heap_sk s) c \<and> kk (heap_sk s) p < kk (heap_sk s) c)"

lemma walk_begin:
  assumes "wf_sk base s"
  shows "walk_ok s k (Down SKIPLIST_MAX_LEVEL (p_head_sk s))"
proof -
  obtain ta P where ch: "chain_sk s ta P" using assms by (auto simp: wf_sk_def)
  note d = chain_skD [OF ch]
  have "tt (heap_sk s) (the (p_head_sk s)) = SKIPLIST_MAX_LEVEL - 1" using shape_skD(2) [OF d(2)] d(4) by simp
  moreover have "rq_from_v (view_sk s) k (the (p_head_sk s))"
    using chain_v_mem(3) [OF d(1)] by (simp add: rq_from_v_def)
  ultimately show ?thesis using d(3) by (auto simp: SKIPLIST_MAX_LEVEL_def simp del: fld_in)
qed

lemma front_below_max:
  assumes wf: "wf_sk base s" and p: "rq_from_v (view_sk s) k p" and k: "k \<le> KEY_MAX_sk s"
  shows "p < length (heap_sk s)" "kk (heap_sk s) p < KEY_MAX_sk s"
    "KEY_MIN_sk s < k \<Longrightarrow> kk (heap_sk s) p < k"
proof -
  obtain ta P where ch: "chain_sk s ta P" using wf by (auto simp: wf_sk_def)
  note d = chain_skD [OF ch] and c = chain_vD(4) [OF chain_skD(1) [OF ch]]
  show "p < length (heap_sk s)" using p by (simp add: rq_from_v_def)
  show "kk (heap_sk s) p < KEY_MAX_sk s" "KEY_MIN_sk s < k \<Longrightarrow> kk (heap_sk s) p < k"
    using p k d(9) c by (auto simp: rq_from_v_def simp del: fld_in)
qed

text \<open>A hop never faults; it moves on along the level or leaves it where the key is passed.\<close>

lemma walk_hop_ok:
  assumes wf: "wf_sk base s" and li: "links_sk s" and k: "k \<le> KEY_MAX_sk s" and ok: "walk_ok s k w"
  shows "\<exists>w'. walk_hop (heap_sk s) k w = Inr w' \<and> walk_ok s k w'
    \<and> (case w of Down n pred \<Rightarrow> (if n = 0 then w' = w else \<exists>c. w' = Along (n - 1) pred c)
       | Along l pred cur \<Rightarrow> (if kk (heap_sk s) (the cur) < k then \<exists>c. w' = Along l cur c else w' = Down l pred))"
proof (cases w)
  case (Down n pred)
  then obtain p where p: "pred = Some p" "rq_from_v (view_sk s) k p" "n \<le> Suc (tt (heap_sk s) p)" using ok by auto
  show ?thesis
  proof (cases n)
    case 0
    then show ?thesis using Down ok by (simp add: walk_hop_def)
  next
    case (Suc l)
    note f = front_below_max [OF wf p(2) k]
    have l: "l \<le> tt (heap_sk s) p" using p(3) Suc by simp
    obtain c where "next_sk (heap_sk s) l (Some p) = Inr (Some c)" "c < length (heap_sk s)" "l \<le> tt (heap_sk s) c"
      "kk (heap_sk s) p < kk (heap_sk s) c"
      by (rule step_along [OF wf li f(1) l f(2)])
    then show ?thesis using Down Suc p l by (auto simp: walk_hop_def simp del: fld_in)
  qed
next
  case (Along l pred cur)
  then obtain p c where p: "pred = Some p" "cur = Some c" "rq_from_v (view_sk s) k p" "l \<le> tt (heap_sk s) p"
    "c < length (heap_sk s)" "l \<le> tt (heap_sk s) c" "kk (heap_sk s) p < kk (heap_sk s) c"
    using ok by auto
  have kc: "keyof_sk (heap_sk s) cur = Inr (kk (heap_sk s) c)" using p(2,5) by (simp add: keyof_sk_def deref_Some)
  show ?thesis
  proof (cases "kk (heap_sk s) c < k")
    case True
    then have m: "kk (heap_sk s) c < KEY_MAX_sk s" using k by simp
    obtain b where b: "next_sk (heap_sk s) l (Some c) = Inr (Some b)" "b < length (heap_sk s)" "l \<le> tt (heap_sk s) b"
      "kk (heap_sk s) c < kk (heap_sk s) b"
      by (rule step_along [OF wf li p(5,6) m])
    have "rq_from_v (view_sk s) k c"
      using True p(5) links_skD(2) [OF li p(5)] by (simp add: rq_from_v_def del: fld_in)
    then show ?thesis using Along p kc True b by (auto simp: walk_hop_def simp del: fld_in)
  next
    case False
    then show ?thesis using Along p kc by (auto simp: walk_hop_def simp del: fld_in)
  qed
qed

text \<open>What a walking thread holds stays good, whatever the others do.\<close>

lemma front_keep:
  assumes e: "env_ok_sk tid base s s'" and p: "rq_from_v (view_sk s) k p"
  shows "rq_from_v (view_sk s') k p"
  using p env_ok_skD(3-7) [OF e] by (auto simp: rq_from_v_def simp del: fld_in)

lemma walk_keep:
  assumes e: "env_ok_sk tid base s s'" and ok: "walk_ok s k w"
  shows "walk_ok s' k w"
proof (cases w)
  case (Down n pred)
  then obtain p where "pred = Some p" "rq_from_v (view_sk s) k p" "n \<le> Suc (tt (heap_sk s) p)" "p < length (heap_sk s)"
    using ok by (auto simp: rq_from_v_def)
  then show ?thesis using Down front_keep [OF e] env_ok_skD(8) [OF e] by (simp del: fld_in)
next
  case (Along l pred cur)
  then obtain p c where "pred = Some p" "cur = Some c" "rq_from_v (view_sk s) k p" "l \<le> tt (heap_sk s) p"
    "p < length (heap_sk s)" "c < length (heap_sk s)" "l \<le> tt (heap_sk s) c" "kk (heap_sk s) p < kk (heap_sk s) c"
    using ok by (auto simp: rq_from_v_def)
  then show ?thesis using Along front_keep [OF e] env_ok_skD(6-8) [OF e] by (simp del: fld_in)
qed

text \<open>Hops without interference are the loops of the code.\<close>

definition walks_to :: "sk_node list \<Rightarrow> int \<Rightarrow> walk_pc \<Rightarrow> walk_pc \<Rightarrow> bool" where
  "walks_to h k = (\<lambda>w w'. walk_hop h k w = Inr w')\<^sup>*\<^sup>*"

lemma walks_to_step: "walk_hop h k w = Inr w' \<Longrightarrow> walks_to h k w' w'' \<Longrightarrow> walks_to h k w w''"
  unfolding walks_to_def by (rule converse_rtranclp_into_rtranclp)

lemma search_walks:
  "search_from n (keyof_sk h) (next_sk h l) k pred cur = Inr (pred', cur') \<Longrightarrow>
     walks_to h k (Along l pred cur) (Along l pred' cur') \<and> walk_hop h k (Along l pred' cur') = Inr (Down l pred')
     \<and> (\<exists>ck. keyof_sk h cur' = Inr ck)"
proof (induction n arbitrary: pred cur)
  case (Suc n)
  obtain ck where ck: "keyof_sk h cur = Inr ck" using Suc.prems by (auto simp: obind_Inr_iff)
  show ?case
  proof (cases "ck < k")
    case True
    then obtain nx where nx: "next_sk h l cur = Inr nx"
      "search_from n (keyof_sk h) (next_sk h l) k cur nx = Inr (pred', cur')"
      using Suc.prems ck by (auto simp: obind_Inr_iff)
    have "walk_hop h k (Along l pred cur) = Inr (Along l cur nx)" using ck True nx(1) by (simp add: walk_hop_def)
    then show ?thesis using Suc.IH [OF nx(2)] walks_to_step by blast
  next
    case False
    then show ?thesis using Suc.prems ck by (auto simp: walk_hop_def walks_to_def)
  qed
qed simp

lemma descend_walks:
  "rq_descend_sk h lo n pred cur = Inr (pred', cur') \<Longrightarrow> walks_to h lo (Down n pred) (Down 0 pred')"
proof (induction n arbitrary: pred cur)
  case 0
  then show ?case by (simp add: walks_to_def)
next
  case (Suc l)
  obtain c0 p1 c1 where s: "next_sk h l pred = Inr c0"
    "search_from (length h) (keyof_sk h) (next_sk h l) lo pred c0 = Inr (p1, c1)"
    "rq_descend_sk h lo l p1 c1 = Inr (pred', cur')"
    using Suc.prems by (auto simp: obind_Inr_iff)
  have "walk_hop h lo (Down (Suc l) pred) = Inr (Along l pred c0)" using s(1) by (simp add: walk_hop_def)
  moreover note w = search_walks [OF s(2)]
  moreover have "walks_to h lo (Down l p1) (Down 0 pred')" by (rule Suc.IH [OF s(3)])
  ultimately show ?case unfolding walks_to_def
    by (meson converse_rtranclp_into_rtranclp rtranclp_trans)
qed

section \<open>The example list\<close>

lemma example_sk_ranges:
  "0 < num_processes (rq_sk example_sk)" "0 \<le> KEY_MAX_sk example_sk" "50 < KEY_MAX_sk example_sk"
  "KEY_MIN_sk example_sk < 7" "7 \<le> KEY_MAX_sk example_sk"
  by (simp_all add: example_sk_sel)

lemma example_sk_links_ok: "links_sk example_sk"
proof -
  let ?h = "heap_sk example_sk"
  have h: "length ?h = 3" "kk ?h 0 = 100" "kk ?h 1 = 0" "kk ?h 2 = 7" "tt ?h 0 = 19" "tt ?h 1 = 19" "tt ?h 2 = 1"
    by (simp_all add: example_sk_def)
  have n2: "nn l ?h 2 = Some 0" if "l \<le> 1" for l using that by (cases l) (simp_all add: example_sk_def)
  have n1: "nn l ?h 1 = Some (if l \<le> 1 then 2 else 0)" if "l \<le> 19" for l
    using that by (cases l; cases "l - 1") (auto simp: example_sk_def)
  have all3: "(\<forall>a<3. Q a) \<longleftrightarrow> Q 0 \<and> Q 1 \<and> Q 2" "(\<exists>a<3. Q a) \<longleftrightarrow> Q 0 \<or> Q 1 \<or> Q 2" for Q :: "nat \<Rightarrow> bool"
    by (auto simp: less_Suc_eq numeral_eq_Suc)
  show ?thesis unfolding links_sk_def Let_def h(1) SKIPLIST_MAX_LEVEL_def example_sk_sel all3
    using h n1 n2 by (simp del: fld_in One_nat_def)
qed

end
