(* ===== verification/Bundled_Skiplist_Search.thy ===== *)
theory Bundled_Skiplist_Search
  imports Bundled_Skiplist_Steps
begin

text \<open>
  The search of the bundled skip list, hop by hop, among updates, cleaners and announcements of other threads: what its arrays hold at the end is what the sections
  under the locks start from.
\<close>

section \<open>The search among other threads\<close>

record find_thread =
  walk_f :: walk_pc
  lFound_f :: "nat option"
  preds_f :: "ptr list"
  succs_f :: "ptr list"

definition find_begin_sk :: "sk_list \<Rightarrow> find_thread" where
  "find_begin_sk s = \<lparr>walk_f = Down SKIPLIST_MAX_LEVEL (p_head_sk s), lFound_f = None,
     preds_f = replicate SKIPLIST_MAX_LEVEL None, succs_f = replicate SKIPLIST_MAX_LEVEL None\<rparr>"

text \<open>One hop of \<open>find_impl\<close>; where it leaves a level it also fills in that level's row.\<close>

definition find_hop_sk :: "sk_node list \<Rightarrow> int \<Rightarrow> find_thread \<Rightarrow> find_thread res" where
  "find_hop_sk h key f = obind (walk_hop h key (walk_f f)) (\<lambda>w.
     case (walk_f f, w) of
       (Along level pred cur, Down _ _) \<Rightarrow>
          obind (keyof_sk h cur) (\<lambda>ck.
          obind (aset (preds_f f) level pred) (\<lambda>ps. obind (aset (succs_f f) level cur) (\<lambda>ss.
            Inr \<lparr>walk_f = w, lFound_f = (if lFound_f f = None \<and> key = ck then Some level else lFound_f f),
              preds_f = ps, succs_f = ss\<rparr>)))
     | _ \<Rightarrow> Inr (f\<lparr>walk_f := w\<rparr>))"

inductive find_step_sk :: "nat \<Rightarrow> int \<Rightarrow> sk_list \<times> find_thread \<Rightarrow> sk_list \<times> find_thread \<Rightarrow> bool"
  for tid :: nat and k :: int where
  find_env: "env_step_sk tid s s' \<Longrightarrow> find_step_sk tid k (s, f) (s', f)"
| find_hop: "find_hop_sk (heap_sk s) k f = Inr f' \<Longrightarrow> find_step_sk tid k (s, f) (s, f')"

definition find_reach_sk :: "nat \<Rightarrow> int \<Rightarrow> sk_list \<Rightarrow> sk_list \<times> find_thread \<Rightarrow> bool" where
  "find_reach_sk tid k s0 = (find_step_sk tid k)\<^sup>*\<^sup>* (s0, find_begin_sk s0)"

text \<open>Hops without interference are the loops of \<open>find_impl\<close>.\<close>

definition finds_to :: "sk_node list \<Rightarrow> int \<Rightarrow> find_thread \<Rightarrow> find_thread \<Rightarrow> bool" where
  "finds_to h k = (\<lambda>f f'. find_hop_sk h k f = Inr f')\<^sup>*\<^sup>*"

lemma finds_to_step: "find_hop_sk h k f = Inr f' \<Longrightarrow> finds_to h k f' f'' \<Longrightarrow> finds_to h k f f''"
  unfolding finds_to_def by (rule converse_rtranclp_into_rtranclp)

lemma find_hop_along:
  "walk_hop h k (walk_f f) = Inr (Along l p c) \<Longrightarrow> find_hop_sk h k f = Inr (f\<lparr>walk_f := Along l p c\<rparr>)"
  by (simp add: find_hop_sk_def split: walk_pc.splits)

lemma search_finds:
  "search_from n (keyof_sk h) (next_sk h l) k pred cur = Inr (pred', cur') \<Longrightarrow> walk_f f = Along l pred cur \<Longrightarrow>
     finds_to h k f (f\<lparr>walk_f := Along l pred' cur'\<rparr>)"
proof (induction n arbitrary: pred cur f)
  case (Suc n)
  obtain ck where ck: "keyof_sk h cur = Inr ck" using Suc.prems(1) by (auto simp: obind_Inr_iff)
  show ?case
  proof (cases "ck < k")
    case True
    then obtain nx where nx: "next_sk h l cur = Inr nx"
      "search_from n (keyof_sk h) (next_sk h l) k cur nx = Inr (pred', cur')"
      using Suc.prems(1) ck by (auto simp: obind_Inr_iff)
    have "walk_hop h k (walk_f f) = Inr (Along l cur nx)" using ck True nx(1) Suc.prems(2) by (simp add: walk_hop_def)
    from finds_to_step [OF find_hop_along [OF this] Suc.IH [OF nx(2)]] show ?thesis by simp
  next
    case False
    then have "pred' = pred" "cur' = cur" using Suc.prems(1) ck by auto
    then have "f\<lparr>walk_f := Along l pred' cur'\<rparr> = f" using Suc.prems(2) by simp
    then show ?thesis by (simp add: finds_to_def)
  qed
qed simp

lemma find_levels_finds:
  "find_levels_sk h k n pred cur lf ps ss = Inr (lf', ps', ss', cur') \<Longrightarrow>
     \<exists>p. finds_to h k \<lparr>walk_f = Down n pred, lFound_f = lf, preds_f = ps, succs_f = ss\<rparr>
       \<lparr>walk_f = Down 0 p, lFound_f = lf', preds_f = ps', succs_f = ss'\<rparr>"
proof (induction n arbitrary: pred cur lf ps ss)
  case 0
  then show ?case by (auto simp: finds_to_def)
next
  case (Suc l)
  obtain c0 p1 c1 ck ps1 ss1 where s: "next_sk h l pred = Inr c0"
    "search_from (length h) (keyof_sk h) (next_sk h l) k pred c0 = Inr (p1, c1)" "keyof_sk h c1 = Inr ck"
    "aset ps l p1 = Inr ps1" "aset ss l c1 = Inr ss1"
    "find_levels_sk h k l p1 c1 (if lf = None \<and> k = ck then Some l else lf) ps1 ss1 = Inr (lf', ps', ss', cur')"
    using Suc.prems by (auto simp: obind_Inr_iff)
  let ?f = "\<lparr>walk_f = Down (Suc l) pred, lFound_f = lf, preds_f = ps, succs_f = ss\<rparr>"
  let ?lf = "if lf = None \<and> k = ck then Some l else lf"
  have "find_hop_sk h k ?f = Inr (?f\<lparr>walk_f := Along l pred c0\<rparr>)"
    by (rule find_hop_along) (use s(1) in \<open>simp add: walk_hop_def\<close>)
  moreover have "finds_to h k (?f\<lparr>walk_f := Along l pred c0\<rparr>) (?f\<lparr>walk_f := Along l p1 c1\<rparr>)"
    using search_finds [OF s(2), of "?f\<lparr>walk_f := Along l pred c0\<rparr>"] by simp
  moreover have "find_hop_sk h k (?f\<lparr>walk_f := Along l p1 c1\<rparr>) =
      Inr \<lparr>walk_f = Down l p1, lFound_f = ?lf, preds_f = ps1, succs_f = ss1\<rparr>"
    using search_walks [OF s(2)] s(3-5) by (auto simp: find_hop_sk_def)
  moreover obtain p where "finds_to h k \<lparr>walk_f = Down l p1, lFound_f = ?lf, preds_f = ps1, succs_f = ss1\<rparr>
      \<lparr>walk_f = Down 0 p, lFound_f = lf', preds_f = ps', succs_f = ss'\<rparr>"
    using Suc.IH [OF s(6)] by blast
  ultimately show ?case unfolding finds_to_def
    by (meson converse_rtranclp_into_rtranclp rtranclp_trans)
qed

section \<open>What the search has found so far\<close>

fun walk_level :: "walk_pc \<Rightarrow> nat" where
  "walk_level (Down n pred) = n"
| "walk_level (Along l pred cur) = Suc l"

fun walk_pred :: "walk_pc \<Rightarrow> ptr" where
  "walk_pred (Down n pred) = pred"
| "walk_pred (Along l pred cur) = pred"

text \<open>A row of the two arrays: two nodes of the level with the key between them.\<close>

definition row_ok :: "sk_node list \<Rightarrow> int \<Rightarrow> find_thread \<Rightarrow> nat \<Rightarrow> bool" where
  "row_ok h k f l \<longleftrightarrow> (\<exists>p c. preds_f f ! l = Some p \<and> succs_f f ! l = Some c \<and> p < length h \<and> c < length h
     \<and> l \<le> tt h p \<and> l \<le> tt h c \<and> kk h p < k \<and> k \<le> kk h c)"

definition rows_ok :: "sk_node list \<Rightarrow> int \<Rightarrow> find_thread \<Rightarrow> nat \<Rightarrow> bool" where
  "rows_ok h k f n \<longleftrightarrow> length (preds_f f) = SKIPLIST_MAX_LEVEL \<and> length (succs_f f) = SKIPLIST_MAX_LEVEL
     \<and> n \<le> SKIPLIST_MAX_LEVEL \<and> (\<forall>l. n \<le> l \<and> l < SKIPLIST_MAX_LEVEL \<longrightarrow> row_ok h k f l)
     \<and> (\<forall>l. n \<le> l \<and> Suc l < SKIPLIST_MAX_LEVEL \<longrightarrow> further (kk h) (the (preds_f f ! Suc l)) (the (preds_f f ! l)))
     \<and> (case lFound_f f of
          None \<Rightarrow> \<forall>l. n \<le> l \<and> l < SKIPLIST_MAX_LEVEL \<longrightarrow> kk h (the (succs_f f ! l)) \<noteq> k
        | Some l \<Rightarrow> n \<le> l \<and> l < SKIPLIST_MAX_LEVEL \<and> kk h (the (succs_f f ! l)) = k)"

definition find_ok :: "sk_list \<Rightarrow> int \<Rightarrow> find_thread \<Rightarrow> bool" where
  "find_ok s k f \<longleftrightarrow> walk_ok s k (walk_f f) \<and> rows_ok (heap_sk s) k f (walk_level (walk_f f))
     \<and> (walk_level (walk_f f) < SKIPLIST_MAX_LEVEL \<longrightarrow>
          further (kk (heap_sk s)) (the (preds_f f ! walk_level (walk_f f))) (the (walk_pred (walk_f f))))"

lemma find_begin_ok: "wf_sk base s \<Longrightarrow> find_ok s k (find_begin_sk s)"
  using walk_begin [of base s k] by (auto simp: find_ok_def rows_ok_def find_begin_sk_def)

lemma further_trans_less: "further key a b \<Longrightarrow> key b < key c \<Longrightarrow> further key a c"
  by (auto simp: further_def)

text \<open>Leaving a level: its row is complete.\<close>

lemma rows_leave:
  assumes r: "rows_ok h k f (Suc l)" and p: "p < length h" "l \<le> tt h p" "kk h p < k"
    and c: "c < length h" "l \<le> tt h c" "k \<le> kk h c"
    and up: "Suc l < SKIPLIST_MAX_LEVEL \<longrightarrow> further (kk h) (the (preds_f f ! Suc l)) p"
    and f': "f' = \<lparr>walk_f = w, lFound_f = (if lFound_f f = None \<and> k = kk h c then Some l else lFound_f f),
      preds_f = (preds_f f)[l := Some p], succs_f = (succs_f f)[l := Some c]\<rparr>"
  shows "rows_ok h k f' l"
proof -
  have len: "length (preds_f f) = SKIPLIST_MAX_LEVEL" "length (succs_f f) = SKIPLIST_MAX_LEVEL" "l < SKIPLIST_MAX_LEVEL"
    using r by (auto simp: rows_ok_def)
  have old: "preds_f f' ! i = preds_f f ! i" "succs_f f' ! i = succs_f f ! i" if "i \<noteq> l" for i
    using f' that by simp_all
  have new: "preds_f f' ! l = Some p" "succs_f f' ! l = Some c" using f' len by simp_all
  have row: "row_ok h k f' i" if "l \<le> i" "i < SKIPLIST_MAX_LEVEL" for i
  proof (cases "i = l")
    case True
    then show ?thesis using new p c by (simp add: row_ok_def del: fld_in)
  next
    case False
    then show ?thesis using r that old [OF False] by (simp add: rows_ok_def row_ok_def del: fld_in)
  qed
  have fur: "further (kk h) (the (preds_f f' ! Suc i)) (the (preds_f f' ! i))" if "l \<le> i" "Suc i < SKIPLIST_MAX_LEVEL" for i
    using that r up new old [of i] old [of "Suc i"] by (cases "i = l") (simp_all add: rows_ok_def)
  have lf: "case lFound_f f' of
          None \<Rightarrow> \<forall>i. l \<le> i \<and> i < SKIPLIST_MAX_LEVEL \<longrightarrow> kk h (the (succs_f f' ! i)) \<noteq> k
        | Some i \<Rightarrow> l \<le> i \<and> i < SKIPLIST_MAX_LEVEL \<and> kk h (the (succs_f f' ! i)) = k"
  proof (cases "lFound_f f")
    case None
    then have "\<forall>i. Suc l \<le> i \<and> i < SKIPLIST_MAX_LEVEL \<longrightarrow> kk h (the (succs_f f ! i)) \<noteq> k"
      using r by (simp add: rows_ok_def del: fld_in)
    then have "kk h (the (succs_f f' ! i)) \<noteq> k" if "l \<le> i" "i < SKIPLIST_MAX_LEVEL" "k \<noteq> kk h c" for i
      using that old(2) [of i] new(2) by (cases "i = l") (simp_all del: fld_in)
    then show ?thesis using None f' len new(2) by (auto simp del: fld_in)
  next
    case (Some i)
    then have "Suc l \<le> i" "i < SKIPLIST_MAX_LEVEL" "kk h (the (succs_f f ! i)) = k"
      using r by (simp_all add: rows_ok_def del: fld_in)
    then show ?thesis using Some f' old(2) [of i] by (simp del: fld_in)
  qed
  show ?thesis unfolding rows_ok_def using row fur lf len f' by simp
qed

lemma find_hop_ok:
  assumes wf: "wf_sk base s" and li: "links_sk s" and k: "KEY_MIN_sk s < k" "k \<le> KEY_MAX_sk s" and ok: "find_ok s k f"
  shows "\<exists>f'. find_hop_sk (heap_sk s) k f = Inr f' \<and> find_ok s k f'"
proof -
  let ?h = "heap_sk s"
  have w: "walk_ok s k (walk_f f)" and r: "rows_ok ?h k f (walk_level (walk_f f))" using ok by (simp_all add: find_ok_def)
  obtain w' where w': "walk_hop ?h k (walk_f f) = Inr w'" "walk_ok s k w'"
    "case walk_f f of Down n pred \<Rightarrow> (if n = 0 then w' = walk_f f else \<exists>c. w' = Along (n - 1) pred c)
     | Along l pred cur \<Rightarrow> (if kk ?h (the cur) < k then \<exists>c. w' = Along l cur c else w' = Down l pred)"
    using walk_hop_ok [OF wf li k(2) w] by blast
  have stay: "rows_ok ?h k (f\<lparr>walk_f := w'\<rparr>) n = rows_ok ?h k f n" for n
    by (simp add: rows_ok_def row_ok_def split: option.splits)
  show ?thesis
  proof (cases "walk_f f")
    case (Down n pred)
    have "find_hop_sk ?h k f = Inr (f\<lparr>walk_f := w'\<rparr>)" using w'(1) Down by (simp add: find_hop_sk_def)
    moreover have "walk_level w' = n \<and> walk_pred w' = pred" using w'(3) Down by (cases n) auto
    then have "find_ok s k (f\<lparr>walk_f := w'\<rparr>)" using ok w'(2) Down stay by (simp add: find_ok_def)
    ultimately show ?thesis by blast
  next
    case (Along l pred cur)
    obtain p c where p: "pred = Some p" "cur = Some c" "rq_from_v (view_sk s) k p" "l \<le> tt ?h p" "c < length ?h"
      "l \<le> tt ?h c" "kk ?h p < kk ?h c"
      using w Along by auto
    note fb = front_below_max [OF wf p(3) k(2)]
    have up: "Suc l < SKIPLIST_MAX_LEVEL \<longrightarrow> further (kk ?h) (the (preds_f f ! Suc l)) p"
      using ok Along p(1) by (simp add: find_ok_def del: fld_in)
    show ?thesis
    proof (cases "kk ?h c < k")
      case True
      then obtain b where b: "w' = Along l cur b" using w'(3) Along p(2) by auto
      have "find_hop_sk ?h k f = Inr (f\<lparr>walk_f := w'\<rparr>)" using w'(1) b by (simp add: find_hop_along)
      moreover have "find_ok s k (f\<lparr>walk_f := w'\<rparr>)"
        using r w'(2) b Along p(2) up further_trans_less [OF _ p(7)] stay by (auto simp: find_ok_def simp del: fld_in)
      ultimately show ?thesis by blast
    next
      case False
      then have b: "w' = Down l pred" using w'(3) Along p(2) by simp
      let ?f = "\<lparr>walk_f = w', lFound_f = (if lFound_f f = None \<and> k = kk ?h c then Some l else lFound_f f),
        preds_f = (preds_f f)[l := Some p], succs_f = (succs_f f)[l := Some c]\<rparr>"
      have len: "length (preds_f f) = SKIPLIST_MAX_LEVEL" "length (succs_f f) = SKIPLIST_MAX_LEVEL" "l < SKIPLIST_MAX_LEVEL"
        using r Along by (auto simp: rows_ok_def)
      have "keyof_sk ?h (Some c) = Inr (kk ?h c)" using p(5) by (simp add: keyof_sk_def deref_Some)
      then have "find_hop_sk ?h k f = Inr ?f"
        using w'(1) b Along p(1,2) len by (simp add: find_hop_sk_def aset_in del: fld_in)
      moreover have "rows_ok ?h k ?f l"
        by (rule rows_leave [OF _ fb(1) p(4) fb(3) [OF k(1)] p(5,6) _ up refl]) (use r Along False in simp_all)
      then have "find_ok s k ?f" using w'(2) b p(1) len by (simp add: find_ok_def further_def)
      ultimately show ?thesis by blast
    qed
  qed
qed

text \<open>Other threads change neither the keys nor the levels of what is in the arrays.\<close>

lemma rows_keep:
  assumes r: "rows_ok h k f n" and len: "length h \<le> length h'"
    and same: "\<And>a. a < length h \<Longrightarrow> kk h' a = kk h a \<and> tt h' a = tt h a"
  shows "rows_ok h' k f n"
proof -
  have row: "\<exists>p c. preds_f f ! l = Some p \<and> succs_f f ! l = Some c \<and> p < length h \<and> c < length h \<and> row_ok h' k f l"
    if "n \<le> l" "l < SKIPLIST_MAX_LEVEL" for l
  proof -
    obtain p c where "preds_f f ! l = Some p" "succs_f f ! l = Some c" "p < length h" "c < length h"
      "l \<le> tt h p" "l \<le> tt h c" "kk h p < k" "k \<le> kk h c"
      using r \<open>n \<le> l\<close> \<open>l < SKIPLIST_MAX_LEVEL\<close> unfolding rows_ok_def row_ok_def by blast
    then show ?thesis using same len by (simp add: row_ok_def del: fld_in)
  qed
  then have ks: "kk h' (the (preds_f f ! l)) = kk h (the (preds_f f ! l))"
    "kk h' (the (succs_f f ! l)) = kk h (the (succs_f f ! l))" if "n \<le> l" "l < SKIPLIST_MAX_LEVEL" for l
    using same that by (metis option.sel)+
  have "further (kk h') (the (preds_f f ! Suc l)) (the (preds_f f ! l))" if "n \<le> l" "Suc l < SKIPLIST_MAX_LEVEL" for l
  proof -
    have "further (kk h) (the (preds_f f ! Suc l)) (the (preds_f f ! l))" using r that by (simp add: rows_ok_def del: fld_in)
    then show ?thesis using ks(1) [of l] ks(1) [of "Suc l"] that unfolding further_def by (simp del: fld_in)
  qed
  moreover have "case lFound_f f of
          None \<Rightarrow> \<forall>l. n \<le> l \<and> l < SKIPLIST_MAX_LEVEL \<longrightarrow> kk h' (the (succs_f f ! l)) \<noteq> k
        | Some l \<Rightarrow> n \<le> l \<and> l < SKIPLIST_MAX_LEVEL \<and> kk h' (the (succs_f f ! l)) = k"
    using r ks(2) by (simp add: rows_ok_def del: fld_in split: option.splits)
  ultimately show ?thesis using r row unfolding rows_ok_def by blast
qed

lemma find_keep:
  assumes e: "env_ok_sk tid base s s'" and ok: "find_ok s k f"
  shows "find_ok s' k f"
proof -
  note d = env_ok_skD [OF e]
  let ?n = "walk_level (walk_f f)"
  have r: "rows_ok (heap_sk s) k f ?n" using ok by (simp add: find_ok_def)
  have "rows_ok (heap_sk s') k f ?n" by (rule rows_keep [OF r d(6)]) (use d(7,8) in blast)
  moreover have "further (kk (heap_sk s')) (the (preds_f f ! ?n)) (the (walk_pred (walk_f f)))" if n: "?n < SKIPLIST_MAX_LEVEL"
  proof -
    have "row_ok (heap_sk s) k f ?n" using r n by (simp add: rows_ok_def)
    then have "the (preds_f f ! ?n) < length (heap_sk s)" by (auto simp: row_ok_def)
    moreover have "the (walk_pred (walk_f f)) < length (heap_sk s)"
      using ok by (cases "walk_f f") (auto simp: find_ok_def rq_from_v_def)
    ultimately show ?thesis using ok n d(7) by (simp add: find_ok_def further_def del: fld_in)
  qed
  ultimately show ?thesis using ok walk_keep [OF e] by (simp add: find_ok_def)
qed

definition find_inv :: "nat \<Rightarrow> int \<Rightarrow> sk_list \<times> find_thread \<Rightarrow> bool" where
  "find_inv tid k = (\<lambda>(s, f). (\<exists>base. wf_sk base s) \<and> links_sk s \<and> tid < num_processes (rq_sk s)
     \<and> KEY_MIN_sk s < k \<and> k \<le> KEY_MAX_sk s \<and> find_ok s k f)"

lemma find_inv_step:
  assumes "find_step_sk tid k c c'" "find_inv tid k c"
  shows "find_inv tid k c'"
  using assms(1)
proof (cases rule: find_step_sk.cases)
  case (find_env s s' f)
  then obtain base where i: "wf_sk base s" "links_sk s" "tid < num_processes (rq_sk s)" "KEY_MIN_sk s < k"
    "k \<le> KEY_MAX_sk s" "find_ok s k f"
    using assms(2) by (auto simp: find_inv_def)
  have e: "env_ok_sk tid base s s'" by (rule env_step_sk_ok [OF find_env(3) i(1-3)])
  then obtain base' where "wf_sk base' s'" unfolding env_ok_sk_def by blast
  then show ?thesis using env_ok_skD(1,2,4,5) [OF e] i find_keep [OF e i(6)] find_env(2)
    by (auto simp: find_inv_def own_sk_def)
next
  case (find_hop s f f')
  then show ?thesis using find_hop_ok assms(2) by (fastforce simp: find_inv_def)
qed

lemma find_inv_reach:
  assumes "wf_sk base s0" "links_sk s0" "tid < num_processes (rq_sk s0)" "KEY_MIN_sk s0 < k" "k \<le> KEY_MAX_sk s0"
    and "find_reach_sk tid k s0 c"
  shows "find_inv tid k c"
  using assms(6) unfolding find_reach_sk_def
proof (induction rule: rtranclp_induct)
  case base
  show ?case using assms(1-5) find_begin_ok [OF assms(1)] by (auto simp: find_inv_def)
next
  case (step c c')
  then show ?case using find_inv_step by blast
qed

lemma rows_found:
  assumes r: "rows_ok h k f 0"
  shows "found_sk h k (preds_f f) (succs_f f) (\<lambda>l. the (preds_f f ! l)) (\<lambda>l. the (succs_f f ! l))"
proof -
  have "row_ok h k f l" if "l < SKIPLIST_MAX_LEVEL" for l using r that by (simp add: rows_ok_def)
  then show ?thesis using r unfolding found_sk_def rows_ok_def row_ok_def by force
qed

text \<open>
  C15: However many inserts, deletes, cleaner passes and announcements of other threads fall between
  its hops (a hop compares one key, which never changes, and reads one \<open>next\<close> pointer), a search of the skip list never faults, and when it is over its arrays
  hold on every level two nodes of that level with the key between them; a level it reports is one
  on which the successor has the key, and if it reports none, no successor had the key. This is
  all that the sections under the locks assume of the search they act on.
\<close>

theorem search_sk_interleaved:
  assumes "wf_sk base s0" "links_sk s0" "tid < num_processes (rq_sk s0)" "KEY_MIN_sk s0 < k" "k \<le> KEY_MAX_sk s0"
    and "find_reach_sk tid k s0 (s, f)"
  shows "(\<exists>f'. find_hop_sk (heap_sk s) k f = Inr f')
    \<and> (\<forall>p. walk_f f = Down 0 p \<longrightarrow>
         found_sk (heap_sk s) k (preds_f f) (succs_f f) (\<lambda>l. the (preds_f f ! l)) (\<lambda>l. the (succs_f f ! l))
         \<and> (case lFound_f f of
              None \<Rightarrow> \<forall>l<SKIPLIST_MAX_LEVEL. fld key_sk 0 (heap_sk s) (the (succs_f f ! l)) \<noteq> k
            | Some l \<Rightarrow> l < SKIPLIST_MAX_LEVEL \<and> fld key_sk 0 (heap_sk s) (the (succs_f f ! l)) = k))"
proof -
  have i: "find_inv tid k (s, f)" by (rule find_inv_reach [OF assms])
  then obtain base where "wf_sk base s" "links_sk s" "KEY_MIN_sk s < k" "k \<le> KEY_MAX_sk s" "find_ok s k f"
    by (auto simp: find_inv_def)
  then have "\<exists>f'. find_hop_sk (heap_sk s) k f = Inr f'" using find_hop_ok by blast
  moreover have "rows_ok (heap_sk s) k f 0" if "walk_f f = Down 0 p" for p
    using i that by (auto simp: find_inv_def find_ok_def)
  ultimately show ?thesis using rows_found unfolding rows_ok_def by (fastforce split: option.splits)
qed

lemma find_finds_reach:
  assumes "finds_to (heap_sk s) k f f'" "find_reach_sk tid k s0 (s, f)"
  shows "find_reach_sk tid k s0 (s, f')"
  using assms(1) unfolding finds_to_def
proof (induction rule: rtranclp_induct)
  case (step f1 f2)
  have "find_step_sk tid k (s, f1) (s, f2)" by (rule find_hop [OF step.hyps(2)])
  then show ?case using step.IH unfolding find_reach_sk_def by (rule rtranclp.rtrancl_into_rtrancl [rotated])
qed (rule assms(2))

text \<open>The search starts on the example list; another thread inserts key 5 before the search goes on.\<close>

theorem search_sk_interleaved_witness:
  "\<exists>s f p. find_reach_sk 0 7 example_sk (s, f) \<and> walk_f f = Down 0 p \<and> contents_sk s = [(5, 50), (7, 70)]
     \<and> found_sk (heap_sk s) 7 (preds_f f) (succs_f f) (\<lambda>l. the (preds_f f ! l)) (\<lambda>l. the (succs_f f ! l))"
proof -
  let ?sc = "\<lambda>l::nat. if l \<le> 1 then 2 else 0"
  have k: "\<forall>l\<le>1. kk (heap_sk example_sk) (?sc l) \<noteq> 5" by (simp add: example_sk_def)
  obtain s' where s': "insert_locked_sk example_sk 1 (replicate 20 (Some 1)) (Some 2 # Some 2 # replicate 18 (Some 0)) 5 50 1 = Inr (s', True)"
    "wf_sk 2 s'" "contents_sk s' = [(5, 50), (7, 70)]"
    using insert_locked_sk_cases [OF example_sk_wf _ example_sk_found [OF refl refl] _ k, of 1 50]
    by (auto simp: example_sk_sel example_sk_links example_sk_contents steps_to_sk_def steps_v_def timestamp_defs
        SKIPLIST_MAX_LEVEL_def contents_sk_def [symmetric] simp del: One_nat_def)
  have env: "env_step_sk 0 example_sk s'"
    by (rule sk_insert [OF _ _ example_sk_found [OF refl refl] _ k _ s'(1)])
      (simp_all add: timestamp_defs example_sk_sel SKIPLIST_MAX_LEVEL_def)
  have e: "env_ok_sk 0 2 example_sk s'"
    by (rule env_step_sk_ok [OF env example_sk_wf example_sk_links_ok]) (simp add: example_sk_sel)
  note d = env_ok_skD [OF e]
  have r1: "find_reach_sk 0 7 example_sk (s', find_begin_sk example_sk)"
    unfolding find_reach_sk_def by (rule r_into_rtranclp, rule find_env [OF env])
  obtain ta P where "chain_sk s' ta P" using s'(2) by (auto simp: wf_sk_def)
  then obtain lf preds succs cur where "find_impl_sk s' 7 = Inr (lf, preds, succs, cur)"
    using find_impl_spec [of s' ta P 7] d(4,5) by (auto simp: example_sk_sel)
  then obtain p where "finds_to (heap_sk s') 7 (find_begin_sk example_sk)
      \<lparr>walk_f = Down 0 p, lFound_f = lf, preds_f = preds, succs_f = succs\<rparr>"
    using find_levels_finds d(3) unfolding find_impl_sk_def find_begin_sk_def by fastforce
  from find_finds_reach [OF this r1] have r2: "find_reach_sk 0 7 example_sk
      (s', \<lparr>walk_f = Down 0 p, lFound_f = lf, preds_f = preds, succs_f = succs\<rparr>)" .
  have "found_sk (heap_sk s') 7 preds succs (\<lambda>l. the (preds ! l)) (\<lambda>l. the (succs ! l))"
    using search_sk_interleaved [OF example_sk_wf example_sk_links_ok example_sk_ranges(1,4,5) r2] by simp
  with r2 s'(3) show ?thesis
    by (intro exI [of _ s'] exI [of _ "\<lparr>walk_f = Down 0 p, lFound_f = lf, preds_f = preds, succs_f = succs\<rparr>"]
        exI [of _ p]) simp
qed

end
