(* ===== verification/Bundled_Skiplist_Concurrent.thy ===== *)
theory Bundled_Skiplist_Concurrent
  imports Bundled_Skiplist_Steps Snapshot_Reader
begin

text \<open>
  A range query of the bundled skip list, hop by hop, among updates, cleaners and other
  queries. A hop is one iteration of a loop of the code, or \<open>start_traversal\<close>, or
  \<open>end_traversal\<close>. Phase 1 is the descent of \<open>Bundled_Skiplist_Steps\<close>, phases 2 and 3 are those of
  \<open>Snapshot_Reader\<close> on the bottom level; every other thread takes its locked section (on the
  result of a search that may be arbitrarily old), a pass of the cleaner, or an announcement
  in one step. As for the list, hops that meet the pending entries inside a locked section
  are treated separately.
\<close>

section \<open>The query as a state machine\<close>

datatype sk_rq_pc =
    Begin                      \<comment> \<open>at the top of the loop\<close>
  | Descending walk_pc         \<comment> \<open>phase 1\<close>
  | Reading reader_pc          \<comment> \<open>phases 2 and 3, with the timestamp\<close>
  | Returned

record sk_rq =
  pc_q :: sk_rq_pc
  ts_q :: timestamp_t
  out_q :: dict

definition rq_begin_sk :: sk_rq where
  "rq_begin_sk = \<lparr>pc_q = Begin, ts_q = 0, out_q = []\<rparr>"

definition rq_hop_sk :: "nat \<Rightarrow> int \<Rightarrow> int \<Rightarrow> sk_list \<Rightarrow> sk_rq \<Rightarrow> (sk_list \<times> sk_rq) res" where
  "rq_hop_sk tid lo hi s r = (let h = heap_sk s in case pc_q r of
     Begin \<Rightarrow> Inr (leaveQuiescentState_sk s tid,
       r\<lparr>pc_q := Descending (Down SKIPLIST_MAX_LEVEL (p_head_sk s)), out_q := []\<rparr>)
   | Descending w \<Rightarrow> (case w of
         Down 0 pred \<Rightarrow> (let (ts, q) = start_traversal (rq_sk s) tid in
           Inr (s\<lparr>rq_sk := q\<rparr>, r\<lparr>pc_q := Reading (Start_at pred), ts_q := ts\<rparr>))
       | _ \<Rightarrow> obind (walk_hop h lo w) (\<lambda>w'. Inr (s, r\<lparr>pc_q := Descending w'\<rparr>)))
   | Reading p \<Rightarrow> (case p of
         Past_at cur \<Rightarrow> Inr (enterQuiescentState_sk (s\<lparr>rq_sk := end_traversal (rq_sk s) tid\<rparr>) tid,
           r\<lparr>pc_q := (if cur \<noteq> None then Returned else Begin)\<rparr>)
       | _ \<Rightarrow> obind (reader_hop (keyof_sk h) (getKeys_sk h) (bundleof_sk h) (ts_q r) lo hi (p, out_q r))
           (\<lambda>(p', out). Inr (s, r\<lparr>pc_q := Reading p', out_q := out\<rparr>)))
   | Returned \<Rightarrow> Inr (s, r))"

text \<open>
  The system: the skip list, the query, and the dictionary of the moment in which the query
  took its timestamp (a ghost that no code reads).
\<close>

definition takes_time :: "sk_rq_pc \<Rightarrow> bool" where
  "takes_time pc \<longleftrightarrow> (\<exists>pred. pc = Descending (Down 0 pred))"

inductive rq_step_sk ::
    "nat \<Rightarrow> int \<Rightarrow> int \<Rightarrow> sk_list \<times> sk_rq \<times> dict \<Rightarrow> sk_list \<times> sk_rq \<times> dict \<Rightarrow> bool"
  for tid :: nat and lo hi :: int where
  rq_env: "env_step_sk tid s s' \<Longrightarrow> rq_step_sk tid lo hi (s, r, d) (s', r, d)"
| rq_hop: "rq_hop_sk tid lo hi s r = Inr (s', r') \<Longrightarrow>
    rq_step_sk tid lo hi (s, r, d) (s', r', if takes_time (pc_q r) then contents_sk s else d)"

definition rq_reach_sk :: "nat \<Rightarrow> int \<Rightarrow> int \<Rightarrow> sk_list \<Rightarrow> sk_list \<times> sk_rq \<times> dict \<Rightarrow> bool" where
  "rq_reach_sk tid lo hi s0 = (rq_step_sk tid lo hi)\<^sup>*\<^sup>* (s0, rq_begin_sk, [])"

section \<open>Invariant\<close>

interpretation skr: view_reader view_sk "\<lambda>s. keyof_sk (heap_sk s)" "\<lambda>s. getKeys_sk (heap_sk s)" "\<lambda>s. bundleof_sk (heap_sk s)"
  using reads_sk by unfold_locales simp_all

fun phase_ok_sk :: "timestamp_t \<Rightarrow> nat \<Rightarrow> int \<Rightarrow> int \<Rightarrow> sk_list \<Rightarrow> sk_rq \<Rightarrow> dict \<Rightarrow> sk_rq_pc \<Rightarrow> bool" where
  "phase_ok_sk base tid lo hi s r d Begin \<longleftrightarrow> True"
| "phase_ok_sk base tid lo hi s r d (Descending w) \<longleftrightarrow> out_q r = [] \<and> walk_ok s lo w"
| "phase_ok_sk base tid lo hi s r d (Reading p) \<longleftrightarrow> base \<le> ts_q r \<and> rq_lin_time (rq_sk s) tid = ts_q r
     \<and> reading_v (view_sk s) lo hi (ts_q r) d (p, out_q r)"
| "phase_ok_sk base tid lo hi s r d Returned \<longleftrightarrow> out_q r = range_kv lo hi d"

definition rq_inv_sk :: "nat \<Rightarrow> int \<Rightarrow> int \<Rightarrow> sk_list \<times> sk_rq \<times> dict \<Rightarrow> bool" where
  "rq_inv_sk tid lo hi = (\<lambda>(s, r, d). \<exists>base. wf_sk base s \<and> links_sk s \<and> tid < num_processes (rq_sk s)
     \<and> lo \<le> KEY_MAX_sk s \<and> hi < KEY_MAX_sk s \<and> phase_ok_sk base tid lo hi s r d (pc_q r))"

definition reading_sk :: "sk_rq \<Rightarrow> bool" where
  "reading_sk r \<longleftrightarrow> (\<exists>p. pc_q r = Reading p)"

text \<open>How far a query with a timestamp is from its end.\<close>

definition rank_sk :: "sk_list \<Rightarrow> sk_rq \<Rightarrow> nat" where
  "rank_sk s r = (case pc_q r of Reading p \<Rightarrow> reader_rank (view_sk s) (ts_q r) p | _ \<Rightarrow> 0)"

lemma rq_inv_sk_env:
  assumes inv: "rq_inv_sk tid lo hi (s, r, d)" and step: "env_step_sk tid s s'"
  shows "rq_inv_sk tid lo hi (s', r, d)" "reading_sk r \<Longrightarrow> rank_sk s' r = rank_sk s r"
proof -
  obtain base where i: "wf_sk base s" "links_sk s" "tid < num_processes (rq_sk s)" "lo \<le> KEY_MAX_sk s" "hi < KEY_MAX_sk s"
    "phase_ok_sk base tid lo hi s r d (pc_q r)"
    using inv by (auto simp: rq_inv_sk_def)
  have e: "env_ok_sk tid base s s'" by (rule env_step_sk_ok [OF step i(1-3)])
  note d = env_ok_skD [OF e]
  obtain base' where b: "base \<le> base'" "wf_sk base' s'" "keeps_v base' (view_sk s) (view_sk s')"
    "base \<le> rq_lin_time (rq_sk s) tid \<longrightarrow> base' \<le> rq_lin_time (rq_sk s) tid"
    using e unfolding env_ok_sk_def by blast
  have rd: "base' \<le> ts_q r \<and> reading_v (view_sk s') lo hi (ts_q r) d (p, out_q r)
      \<and> reader_rank (view_sk s') (ts_q r) p = reader_rank (view_sk s) (ts_q r) p" if "pc_q r = Reading p" for p
  proof -
    have p: "base \<le> ts_q r" "rq_lin_time (rq_sk s) tid = ts_q r" "reading_v (view_sk s) lo hi (ts_q r) d (p, out_q r)"
      using i(6) that by simp_all
    have t: "base' \<le> ts_q r" using b(4) p(1,2) by simp
    show ?thesis using reading_keep_v [OF p(3) b(3) t] t by simp
  qed
  have "phase_ok_sk base' tid lo hi s' r d (pc_q r)"
    using i(6) rd walk_keep [OF e] d(2) by (cases "pc_q r") (auto simp: own_sk_def)
  then show "rq_inv_sk tid lo hi (s', r, d)"
    using b(2) d(1,2,5) i(3-5) by (auto simp: rq_inv_sk_def own_sk_def)
  show "reading_sk r \<Longrightarrow> rank_sk s' r = rank_sk s r" using rd by (auto simp: reading_sk_def rank_sk_def)
qed

text \<open>What a hop establishes.\<close>

definition hop_ok_sk :: "timestamp_t \<Rightarrow> nat \<Rightarrow> int \<Rightarrow> int \<Rightarrow> sk_list \<Rightarrow> sk_rq \<Rightarrow> dict \<Rightarrow> bool" where
  "hop_ok_sk base tid lo hi s r d \<longleftrightarrow> (\<exists>s' r'. rq_hop_sk tid lo hi s r = Inr (s', r') \<and> wf_sk base s'
     \<and> num_processes (rq_sk s') = num_processes (rq_sk s) \<and> KEY_MIN_sk s' = KEY_MIN_sk s
     \<and> KEY_MAX_sk s' = KEY_MAX_sk s \<and> heap_sk s' = heap_sk s \<and> phase_ok_sk base tid lo hi s' r' d (pc_q r')
     \<and> (reading_sk r \<longrightarrow> pc_q r' = Returned \<or> reading_sk r' \<and> rank_sk s' r' < rank_sk s r))"

lemma hop_ok_skI:
  assumes "rq_hop_sk tid lo hi s r = Inr (s', r')" "wf_sk base s'" "num_processes (rq_sk s') = num_processes (rq_sk s)"
    "KEY_MIN_sk s' = KEY_MIN_sk s" "KEY_MAX_sk s' = KEY_MAX_sk s" "heap_sk s' = heap_sk s"
    "phase_ok_sk base tid lo hi s' r' d (pc_q r')"
    "reading_sk r \<Longrightarrow> pc_q r' = Returned \<or> reading_sk r' \<and> rank_sk s' r' < rank_sk s r"
  shows "hop_ok_sk base tid lo hi s r d"
  using assms unfolding hop_ok_sk_def by blast

lemma hop_descending:
  assumes wf: "wf_sk base s" and li: "links_sk s" and k: "lo \<le> KEY_MAX_sk s"
    and pc: "pc_q r = Descending w" "\<not> takes_time (pc_q r)" and ph: "phase_ok_sk base tid lo hi s r d (pc_q r)"
  shows "hop_ok_sk base tid lo hi s r d"
proof -
  obtain w' where w': "walk_hop (heap_sk s) lo w = Inr w'" "walk_ok s lo w'"
    using walk_hop_ok [OF wf li k, of w] ph pc(1) by auto
  have "rq_hop_sk tid lo hi s r = Inr (s, r\<lparr>pc_q := Descending w'\<rparr>)"
    using pc w'(1) by (auto simp: rq_hop_sk_def takes_time_def Let_def split: walk_pc.splits nat.splits)
  then show ?thesis by (rule hop_ok_skI) (use wf ph pc(1) w'(2) in \<open>simp_all add: reading_sk_def\<close>)
qed

lemma hop_takes_time:
  assumes wf: "wf_sk base s" and k: "lo \<le> KEY_MAX_sk s" "hi < KEY_MAX_sk s"
    and pc: "pc_q r = Descending (Down 0 pred)" and ph: "phase_ok_sk base tid lo hi s r d (pc_q r)"
  shows "hop_ok_sk base tid lo hi s r (contents_sk s)"
proof -
  obtain p where p: "out_q r = []" "pred = Some p" "rq_from_v (view_sk s) lo p" using ph pc by auto
  let ?t = "curr_timestamp (rq_sk s)"
  let ?s = "s\<lparr>rq_sk := (rq_sk s)\<lparr>rq_lin_time := (rq_lin_time (rq_sk s))(tid := ?t), rq_flag := (rq_flag (rq_sk s))(tid := False)\<rparr>\<rparr>"
  let ?r = "r\<lparr>pc_q := Reading (Start_at pred), ts_q := ?t\<rparr>"
  have "reading_v (view_sk s) lo hi (cnow (view_sk s)) (contents_v (view_sk s)) (Start_at (Some p), [])"
    by (rule reading_start_v [OF wf_skD(3) [OF wf] p(3)]) (use k in simp_all)
  then have "phase_ok_sk base tid lo hi ?s ?r (contents_sk s) (pc_q ?r)"
    using p(1,2) wf_v_clock(2) [OF wf_skD(3) [OF wf]] by (simp add: contents_sk_def)
  moreover have "rq_hop_sk tid lo hi s r = Inr (?s, ?r)"
    using pc wf_skD(1) [OF wf] by (simp add: rq_hop_sk_def Let_def start_traversal_def announce_def)
  ultimately show ?thesis using wf pc by (intro hop_ok_skI [of _ _ _ _ _ ?s ?r]) (simp_all add: reading_sk_def)
qed

lemma hop_reading:
  assumes wf: "wf_sk base s" and k: "lo \<le> KEY_MAX_sk s" "hi < KEY_MAX_sk s"
    and pc: "pc_q r = Reading p" and ph: "phase_ok_sk base tid lo hi s r d (pc_q r)"
  shows "hop_ok_sk base tid lo hi s r d"
proof -
  let ?h = "heap_sk s"
  have t: "base \<le> ts_q r" "rq_lin_time (rq_sk s) tid = ts_q r" "reading_v (view_sk s) lo hi (ts_q r) d (p, out_q r)"
    using ph pc by simp_all
  show ?thesis
  proof (cases "\<exists>cur. p = Past_at cur")
    case True
    then obtain cur where cur: "p = Past_at cur" by blast
    let ?s = "s\<lparr>rq_sk := (rq_sk s)\<lparr>rq_lin_time := (rq_lin_time (rq_sk s))(tid := BUNDLE_NULL_TIMESTAMP), rq_flag := rq_flag (rq_sk s)\<rparr>\<rparr>"
    have e: "s\<lparr>rq_sk := end_traversal (rq_sk s) tid\<rparr> = ?s" using wf_skD(1) [OF wf] by (simp add: end_traversal_def)
    have past: "cur \<noteq> None" "out_q r = range_kv lo hi d" using reading_past_v t(3) cur by blast+
    have "rq_hop_sk tid lo hi s r = Inr (enterQuiescentState_sk ?s tid, r\<lparr>pc_q := Returned\<rparr>)"
      using pc cur past(1) e by (simp add: rq_hop_sk_def)
    moreover have "wf_sk base ?s" using wf by (simp only: rq_abs_sk)
    ultimately show ?thesis using past(2)
      by (intro hop_ok_skI [of _ _ _ _ _ "enterQuiescentState_sk ?s tid" "r\<lparr>pc_q := Returned\<rparr>"]) simp_all
  next
    case False
    obtain c' where c': "reader_hop (keyof_sk ?h) (getKeys_sk ?h) (bundleof_sk ?h) (ts_q r) lo hi (p, out_q r) = Inr c'"
      "reading_v (view_sk s) lo hi (ts_q r) d c'"
      "reader_rank (view_sk s) (ts_q r) (fst c') < reader_rank (view_sk s) (ts_q r) p"
      using skr.reading_hop [OF wf_skD(3) [OF wf] _ _ t(3)] k False by auto
    let ?r = "r\<lparr>pc_q := Reading (fst c'), out_q := snd c'\<rparr>"
    have "rq_hop_sk tid lo hi s r = Inr (s, ?r)"
      using pc c'(1) False by (cases c'; cases p) (simp_all add: rq_hop_sk_def)
    then show ?thesis
      by (rule hop_ok_skI) (use wf t pc c'(2,3) in \<open>simp_all add: reading_sk_def rank_sk_def\<close>)
  qed
qed

lemma rq_inv_sk_hop:
  assumes "rq_inv_sk tid lo hi (s, r, d)"
  shows "\<exists>s' r'. rq_hop_sk tid lo hi s r = Inr (s', r')
    \<and> rq_inv_sk tid lo hi (s', r', if takes_time (pc_q r) then contents_sk s else d)
    \<and> (reading_sk r \<longrightarrow> pc_q r' = Returned \<or> reading_sk r' \<and> rank_sk s' r' < rank_sk s r)"
proof -
  obtain base where i: "wf_sk base s" "links_sk s" "tid < num_processes (rq_sk s)" "lo \<le> KEY_MAX_sk s" "hi < KEY_MAX_sk s"
    "phase_ok_sk base tid lo hi s r d (pc_q r)"
    using assms by (auto simp: rq_inv_sk_def)
  have "hop_ok_sk base tid lo hi s r (if takes_time (pc_q r) then contents_sk s else d)"
  proof (cases "pc_q r")
    case Begin
    have "rq_hop_sk tid lo hi s r = Inr (leaveQuiescentState_sk s tid,
        r\<lparr>pc_q := Descending (Down SKIPLIST_MAX_LEVEL (p_head_sk s)), out_q := []\<rparr>)"
      using Begin by (simp add: rq_hop_sk_def)
    then show ?thesis
      by (rule hop_ok_skI) (use i(1) Begin walk_begin [of base "leaveQuiescentState_sk s tid" lo] in
          \<open>simp_all add: reading_sk_def takes_time_def\<close>)
  next
    case (Descending w)
    show ?thesis
    proof (cases "takes_time (pc_q r)")
      case True
      then obtain pred where "pc_q r = Descending (Down 0 pred)" by (auto simp: takes_time_def)
      then show ?thesis using hop_takes_time [OF i(1,4,5) _ i(6)] True by simp
    next
      case False
      then show ?thesis using hop_descending [OF i(1,2,4) Descending False i(6)] by simp
    qed
  next
    case (Reading p)
    then show ?thesis using hop_reading [OF i(1,4,5) Reading i(6)] by (simp add: takes_time_def)
  next
    case Returned
    then have "rq_hop_sk tid lo hi s r = Inr (s, r)" by (simp add: rq_hop_sk_def)
    then show ?thesis
      by (rule hop_ok_skI) (use i Returned in \<open>simp_all add: reading_sk_def takes_time_def\<close>)
  qed
  then obtain s' r' where h: "rq_hop_sk tid lo hi s r = Inr (s', r')" "wf_sk base s'"
    "num_processes (rq_sk s') = num_processes (rq_sk s)" "KEY_MIN_sk s' = KEY_MIN_sk s" "KEY_MAX_sk s' = KEY_MAX_sk s"
    "heap_sk s' = heap_sk s" "phase_ok_sk base tid lo hi s' r' (if takes_time (pc_q r) then contents_sk s else d) (pc_q r')"
    "reading_sk r \<longrightarrow> pc_q r' = Returned \<or> reading_sk r' \<and> rank_sk s' r' < rank_sk s r"
    unfolding hop_ok_sk_def by blast
  moreover have "links_sk s'" using links_sk_frame [of s' s] h(4-6) i(2) by simp
  ultimately have "rq_inv_sk tid lo hi (s', r', if takes_time (pc_q r) then contents_sk s else d)"
    using i(3-5) unfolding rq_inv_sk_def prod.case by (intro exI [of _ base]) simp
  then show ?thesis using h(1,8) by blast
qed

lemma rq_inv_sk_step:
  assumes "rq_step_sk tid lo hi c c'" "rq_inv_sk tid lo hi c"
  shows "rq_inv_sk tid lo hi c'"
  using assms(1)
proof (cases rule: rq_step_sk.cases)
  case (rq_env s s' r d)
  then show ?thesis using rq_inv_sk_env(1) assms(2) by simp
next
  case (rq_hop s r s' r' d)
  then show ?thesis using rq_inv_sk_hop [of tid lo hi s r d] assms(2) by auto
qed

lemma rq_inv_sk_reach:
  assumes "wf_sk base s0" "links_sk s0" "tid < num_processes (rq_sk s0)" "lo \<le> KEY_MAX_sk s0" "hi < KEY_MAX_sk s0"
    and "rq_reach_sk tid lo hi s0 c"
  shows "rq_inv_sk tid lo hi c"
  using assms(6) unfolding rq_reach_sk_def
proof (induction rule: rtranclp_induct)
  case base
  show ?case using assms(1-5) by (auto simp: rq_inv_sk_def rq_begin_sk_def)
next
  case (step c c')
  then show ?case using rq_inv_sk_step by blast
qed

section \<open>An interleaved run\<close>

text \<open>
  On the example list, a query of the range 0 to 50 takes its timestamp while key 7 is
  bound; another thread then deletes the key; the query still returns it.
\<close>

lemma rq_hop_reach:
  assumes "rq_reach_sk tid lo hi s0 (s, r, d)" "rq_hop_sk tid lo hi s r = Inr (s', r')"
  shows "rq_reach_sk tid lo hi s0 (s', r', if takes_time (pc_q r) then contents_sk s else d)"
  using assms rq_hop [of tid lo hi s r s' r' d] unfolding rq_reach_sk_def
  by (meson rtranclp.rtrancl_into_rtrancl)

lemma rq_env_reach:
  "rq_reach_sk tid lo hi s0 (s, r, d) \<Longrightarrow> env_step_sk tid s s' \<Longrightarrow> rq_reach_sk tid lo hi s0 (s', r, d)"
  using rq_env [of tid s s' lo hi r d] unfolding rq_reach_sk_def by (meson rtranclp.rtrancl_into_rtrancl)

lemma walks_reach:
  assumes "walks_to (heap_sk s) lo w w'" "rq_reach_sk tid lo hi s0 (s, r\<lparr>pc_q := Descending w\<rparr>, d)"
  shows "rq_reach_sk tid lo hi s0 (s, r\<lparr>pc_q := Descending w'\<rparr>, d)"
  using assms(1) unfolding walks_to_def
proof (induction rule: rtranclp_induct)
  case base
  show ?case by (rule assms(2))
next
  case (step w1 w2)
  show ?case
  proof (cases "\<exists>pred. w1 = Down 0 pred")
    case True
    then have "w2 = w1" using step.hyps(2) by (auto simp: walk_hop_def)
    then show ?thesis using step.IH by simp
  next
    case False
    then have "rq_hop_sk tid lo hi s (r\<lparr>pc_q := Descending w1\<rparr>) = Inr (s, r\<lparr>pc_q := Descending w2\<rparr>)"
      using step.hyps(2) by (auto simp: rq_hop_sk_def Let_def split: walk_pc.splits nat.splits)
    from rq_hop_reach [OF step.IH this] show ?thesis using False by (simp add: takes_time_def)
  qed
qed

text \<open>A reading query that is left alone reaches its end.\<close>

lemma reading_sk_finishes:
  assumes "rq_inv_sk tid lo hi (s, r, d)" "reading_sk r" "rq_reach_sk tid lo hi s0 (s, r, d)"
  shows "\<exists>s' r'. rq_reach_sk tid lo hi s0 (s', r', d) \<and> pc_q r' = Returned"
  using assms
proof (induction "rank_sk s r" arbitrary: s r rule: less_induct)
  case less
  have d: "\<not> takes_time (pc_q r)" using less.prems(2) by (auto simp: reading_sk_def takes_time_def)
  obtain s' r' where h: "rq_hop_sk tid lo hi s r = Inr (s', r')" "rq_inv_sk tid lo hi (s', r', d)"
    "pc_q r' = Returned \<or> reading_sk r' \<and> rank_sk s' r' < rank_sk s r"
    using rq_inv_sk_hop [OF less.prems(1)] less.prems(2) d by auto
  have r: "rq_reach_sk tid lo hi s0 (s', r', d)" using rq_hop_reach [OF less.prems(3) h(1)] d by simp
  show ?case using h(3) less.hyps [of s' r'] h(2) r by auto
qed

lemma example_sk_run:
  "\<exists>s r. rq_reach_sk 0 0 50 example_sk (s, r, [(7, 70)]) \<and> reading_sk r \<and> contents_sk s = []"
proof -
  let ?s1 = "leaveQuiescentState_sk example_sk 0"
  have "rq_hop_sk 0 0 50 example_sk rq_begin_sk =
      Inr (?s1, rq_begin_sk\<lparr>pc_q := Descending (Down SKIPLIST_MAX_LEVEL (p_head_sk ?s1))\<rparr>)"
    by (simp add: rq_hop_sk_def rq_begin_sk_def)
  then have r1: "rq_reach_sk 0 0 50 example_sk
      (?s1, rq_begin_sk\<lparr>pc_q := Descending (Down SKIPLIST_MAX_LEVEL (p_head_sk ?s1))\<rparr>, [])"
    using rq_hop_reach [of 0 0 50 example_sk example_sk rq_begin_sk "[]"]
    by (simp add: rq_reach_sk_def takes_time_def rq_begin_sk_def)
  obtain p c where "rq_descend_sk (heap_sk ?s1) 0 SKIPLIST_MAX_LEVEL (p_head_sk ?s1) None = Inr (Some p, c)"
    by (rule rq_descend_from [of 2 ?s1 0]) (use example_sk_wf in \<open>simp_all add: example_sk_sel\<close>)
  let ?r2 = "rq_begin_sk\<lparr>pc_q := Descending (Down 0 (Some p))\<rparr>"
  have r2: "rq_reach_sk 0 0 50 example_sk (?s1, ?r2, [])"
    by (rule walks_reach [OF descend_walks r1]) fact
  have inv2: "rq_inv_sk 0 0 50 (?s1, ?r2, [])"
    by (rule rq_inv_sk_reach [OF example_sk_wf example_sk_links_ok example_sk_ranges(1-3) r2])
  obtain s3 r3 where h3: "rq_hop_sk 0 0 50 ?s1 ?r2 = Inr (s3, r3)" "rq_inv_sk 0 0 50 (s3, r3, [(7, 70)])"
    using rq_inv_sk_hop [OF inv2] by (auto simp: takes_time_def example_sk_contents)
  have r3: "rq_reach_sk 0 0 50 example_sk (s3, r3, [(7, 70)])"
    using rq_hop_reach [OF r2 h3(1)] by (simp add: takes_time_def example_sk_contents)
  have s3': "heap_sk s3 = heap_sk example_sk" "view_sk s3 = view_sk example_sk" "reading_sk r3"
    "curr_timestamp (rq_sk s3) = 3" "KEY_MAX_sk s3 = 100"
    using h3(1) by (auto simp: rq_hop_sk_def start_traversal_def announce_def example_sk_sel reading_sk_def Let_def view_sk_def)
  then have s3: "heap_sk s3 = heap_sk example_sk" "contents_sk s3 = [(7, 70)]" "reading_sk r3"
    "curr_timestamp (rq_sk s3) = 3" "KEY_MAX_sk s3 = 100"
    using example_sk_contents(1) by (simp_all add: contents_sk_def)
  obtain base where wf: "wf_sk base s3" using h3(2) by (auto simp: rq_inv_sk_def)
  have v: "\<not> dd (heap_sk s3) 2 \<and> erase_links_sk s3 (\<lambda>_. 1) 2" "kk (heap_sk s3) 2 = 7"
    "found_sk (heap_sk s3) 7 (replicate 20 (Some 1)) (Some 2 # Some 2 # replicate 18 (Some 0)) (\<lambda>_. 1) (\<lambda>l. if l \<le> 1 then 2 else 0)"
    using example_sk_victim unfolding erase_links_sk_def s3(1) by blast+
  obtain s4 x where e: "erase_locked_sk s3 1 (replicate 20 (Some 1)) (Some 2) = Inr (s4, x)" "contents_sk s4 = []"
    using erase_locked_sk_cases [OF wf _ v(3) _ v(2), of 1] v(1) s3
    by (auto simp: example_sk_sel timestamp_defs steps_to_sk_def steps_v_def contents_sk_def [symmetric] del_kv_def
        simp del: fld_in One_nat_def)
  have "env_step_sk 0 s3 s4"
    by (rule sk_erase [OF _ _ v(3) _ v(2) _ e(1)]) (use s3 in \<open>simp_all add: timestamp_defs example_sk_sel\<close>)
  from rq_env_reach [OF r3 this] show ?thesis using e(2) s3(3) by blast
qed

section \<open>Updates in the middle\<close>

text \<open>
  A heap \<open>h'\<close> that the query may find where the skip list of the system has \<open>h\<close>: bundles may be
  in the middle of updates; \<open>next\<close> pointers, marks and locks are free, and there may be new nodes.
\<close>

definition mid_updates_sk :: "sk_node list \<Rightarrow> sk_node list \<Rightarrow> bool" where
  "mid_updates_sk h h' \<longleftrightarrow> length h \<le> length h'
     \<and> (\<forall>a<length h. kk h' a = kk h a \<and> vv h' a = vv h a \<and> mid_update (bb h' a) (bb h a))"

lemma peek_sk_Some: "a < length h \<Longrightarrow> peek_sk h (Some a) = Some (bb h a)"
  by (simp add: peek_sk_def)

lemma mid_updates_peek_sk:
  assumes "frame_sk h' = frame_sk h" "\<forall>r b. peek_sk h r = Some b \<longrightarrow> (\<exists>b'. peek_sk h' r = Some b' \<and> mid_update b' b)"
  shows "mid_updates_sk h h'"
proof -
  have l: "length h' = length h" using arg_cong [OF assms(1), of length] by simp
  have "mid_update (bb h' a) (bb h a)" if "a < length h" for a
    using assms(2) that l peek_sk_Some [of a h] peek_sk_Some [of a h'] by (metis option.inject)
  then show ?thesis using l same_frame_fields(1,2) [OF assms(1)] by (simp add: mid_updates_sk_def del: fld_in)
qed

text \<open>\<open>prepare_bundles\<close> leads into such a heap, and \<open>finalize_bundles\<close> leads out of one.\<close>

lemma prepare_mid_sk:
  assumes "\<not> cleanup_update q" "distinct (map fst bundles)" "\<forall>r\<in>fst ` set bundles. peek_sk h r \<noteq> None"
  obtains h' where "prepare_bundles q upd_bundle_sk bundles h = Inr h'" "mid_updates_sk h h'"
  using skb.prepare_bundles_mid [OF assms] mid_updates_peek_sk by blast

lemma finalize_mid_sk:
  assumes "t \<noteq> BUNDLE_PENDING_TIMESTAMP" "distinct (map fst bundles)"
    and "\<forall>(r, p)\<in>set bundles. \<exists>b. B r = Some b \<and> peek_sk h' r = Some (prepare p b) \<and> newest_ts b < t"
  obtains h where "finalize_bundles upd_bundle_sk bundles t h' = Inr h" "mid_updates_sk h h'"
  using skb.finalize_bundles_mid [OF assms] mid_updates_peek_sk by metis

lemma sees_mid_sk:
  assumes "mid_updates_sk (heap_sk s) h'"
  shows "sees_mid (view_sk s) (keyof_sk h') (getKeys_sk h') (bundleof_sk h')"
  unfolding sees_mid_def
proof (intro allI impI)
  fix a assume "a < clen (view_sk s)"
  then have a: "a < length h'" "kk h' a = kk (heap_sk s) a" "vv h' a = vv (heap_sk s) a" "mid_update (bb h' a) (bb (heap_sk s) a)"
    using assms by (simp_all add: mid_updates_sk_def del: fld_in)
  then have "keyof_sk h' (Some a) = Inr (kk h' a)" "getKeys_sk h' (Some a) = Inr [(kk h' a, vv h' a)]"
    "bundleof_sk h' (Some a) = Inr (bb h' a)"
    by (simp_all add: keyof_sk_def getKeys_sk_def bundleof_sk_def deref_Some)
  then show "keyof_sk h' (Some a) = Inr (ckey (view_sk s) a) \<and> getKeys_sk h' (Some a) = Inr [(ckey (view_sk s) a, cval (view_sk s) a)]
      \<and> (\<exists>b. bundleof_sk h' (Some a) = Inr b \<and> mid_update b (cbun (view_sk s) a))"
    using a by (simp del: fld_in)
qed

lemma rq_hop_sk_reading:
  "pc_q r = Reading p \<Longrightarrow> \<nexists>cur. p = Past_at cur \<Longrightarrow> rq_hop_sk tid lo hi s r =
    obind (reader_hop (keyof_sk (heap_sk s)) (getKeys_sk (heap_sk s)) (bundleof_sk (heap_sk s)) (ts_q r) lo hi (p, out_q r))
      (\<lambda>(p', out). Inr (s, r\<lparr>pc_q := Reading p', out_q := out\<rparr>))"
  by (cases p) (simp_all add: rq_hop_sk_def Let_def)

lemma rq_hop_mid_sk:
  assumes inv: "rq_inv_sk tid lo hi (s, r, d)" and pc: "pc_q r = Reading p" and mid: "mid_updates_sk (heap_sk s) h'"
  shows "(\<exists>s' r'. rq_hop_sk tid lo hi s r = Inr (s', r') \<and> rq_hop_sk tid lo hi (s\<lparr>heap_sk := h'\<rparr>) r = Inr (s'\<lparr>heap_sk := h'\<rparr>, r'))
    \<or> rq_hop_sk tid lo hi (s\<lparr>heap_sk := h'\<rparr>) r = Inl Blocked
      \<and> (\<exists>a. reader_node p = Some a \<and> a < length (heap_sk s) \<and> waits_for (ts_q r) (bb h' a))"
proof (cases "\<exists>cur. p = Past_at cur")
  case True
  then show ?thesis using pc by (auto simp: rq_hop_sk_def enterQuiescentState_sk_def)
next
  case False
  let ?h = "heap_sk s" let ?c = "(p, out_q r)"
  obtain base where wf: "wf_v base (view_sk s)" and k: "lo \<le> KEY_MAX_sk s" "hi < KEY_MAX_sk s"
    and rd: "reading_v (view_sk s) lo hi (ts_q r) d ?c"
    using inv pc wf_skD(3) by (auto simp: rq_inv_sk_def)
  obtain c' where c': "reader_hop (keyof_sk ?h) (getKeys_sk ?h) (bundleof_sk ?h) (ts_q r) lo hi ?c = Inr c'"
    by (rule skr.reading_hop [OF wf _ _ rd]) (use k False in auto)
  let ?hop = "reader_hop (keyof_sk h') (getKeys_sk h') (bundleof_sk h') (ts_q r) lo hi ?c"
  have hops: "rq_hop_sk tid lo hi s r = Inr (s, r\<lparr>pc_q := Reading (fst c'), out_q := snd c'\<rparr>)"
    "rq_hop_sk tid lo hi (s\<lparr>heap_sk := h'\<rparr>) r =
      obind ?hop (\<lambda>(p', out). Inr (s\<lparr>heap_sk := h'\<rparr>, r\<lparr>pc_q := Reading p', out_q := out\<rparr>))"
    using c' by (simp_all add: rq_hop_sk_reading [OF pc False] case_prod_unfold)
  consider "?hop = Inr c'" | a b' where "?hop = Inl Blocked" "reader_node p = Some a" "a < length ?h"
      "bundleof_sk h' (Some a) = Inr b'" "waits_for (ts_q r) b'"
    using skr.reading_hop_mid [OF wf _ _ rd sees_mid_sk [OF mid]] k c' by auto
  then show ?thesis
  proof cases
    case 1
    then show ?thesis using hops by (cases c') auto
  next
    case 2
    then have "a < length h'" using mid by (simp add: mid_updates_sk_def)
    then have "b' = bb h' a" using 2(4) by (simp add: bundleof_sk_def deref_Some)
    then show ?thesis using 2 hops(2) by auto
  qed
qed

section \<open>Linearizability and progress\<close>

text \<open>
  C3: A range query of the skip list interleaved, hop by hop, with any number of
  inserts, deletes, cleaner passes and other queries is linearizable: when it returns, it has put
  out exactly the pairs in its range of the dictionary as it was at the single moment in
  which it took its timestamp. It never faults and waits for nothing but updates: on the skip list of
  any reachable state, where no update is inside its locked section, its next hop succeeds and, once it has its timestamp, brings it nearer to the end;
  on a heap in which updates are between \<open>prepare_bundles\<close> and \<open>finalize_bundles\<close> it takes the same hop or is blocked at the
  bundle it has to read, whose head is pending and whose other entries are all older than its
  timestamp. No step of another thread sets it back.
\<close>

theorem rq_sk_linearizable:
  assumes "wf_sk base s0" "links_sk s0" "tid < num_processes (rq_sk s0)" "lo \<le> KEY_MAX_sk s0" "hi < KEY_MAX_sk s0"
    and "rq_reach_sk tid lo hi s0 (s, r, d)" "mid_updates_sk (heap_sk s) h'"
  shows "(pc_q r = Returned \<longrightarrow> out_q r = range_kv lo hi d)
    \<and> (\<exists>s' r'. rq_hop_sk tid lo hi s r = Inr (s', r')
      \<and> (reading_sk r \<longrightarrow> pc_q r' = Returned \<or> reading_sk r' \<and> rank_sk s' r' < rank_sk s r)
      \<and> (\<forall>p. pc_q r = Reading p \<longrightarrow> rq_hop_sk tid lo hi (s\<lparr>heap_sk := h'\<rparr>) r = Inr (s'\<lparr>heap_sk := h'\<rparr>, r')
          \<or> rq_hop_sk tid lo hi (s\<lparr>heap_sk := h'\<rparr>) r = Inl Blocked
            \<and> (\<exists>a. reader_node p = Some a \<and> a < length (heap_sk s) \<and> waits_for (ts_q r) (bb h' a))))
    \<and> (\<forall>s'. reading_sk r \<and> env_step_sk tid s s' \<longrightarrow> rank_sk s' r = rank_sk s r)"
proof -
  have inv: "rq_inv_sk tid lo hi (s, r, d)" by (rule rq_inv_sk_reach [OF assms(1-6)])
  then have "pc_q r = Returned \<longrightarrow> out_q r = range_kv lo hi d" by (auto simp: rq_inv_sk_def)
  moreover obtain s' r' where h: "rq_hop_sk tid lo hi s r = Inr (s', r')"
    "reading_sk r \<longrightarrow> pc_q r' = Returned \<or> reading_sk r' \<and> rank_sk s' r' < rank_sk s r"
    using rq_inv_sk_hop [OF inv] by blast
  moreover have "rq_hop_sk tid lo hi (s\<lparr>heap_sk := h'\<rparr>) r = Inr (s'\<lparr>heap_sk := h'\<rparr>, r')
      \<or> rq_hop_sk tid lo hi (s\<lparr>heap_sk := h'\<rparr>) r = Inl Blocked
        \<and> (\<exists>a. reader_node p = Some a \<and> a < length (heap_sk s) \<and> waits_for (ts_q r) (bb h' a))"
    if "pc_q r = Reading p" for p
    using rq_hop_mid_sk [OF inv that assms(7)] h(1) by auto
  ultimately show ?thesis using rq_inv_sk_env(2) [OF inv] by blast
qed

theorem rq_sk_linearizable_witness:
  "\<exists>s r. pc_q r = Returned \<and> out_q r = [(7, 70)] \<and> rq_reach_sk 0 0 50 example_sk (s, r, [(7, 70)])"
proof -
  obtain s r where r: "rq_reach_sk 0 0 50 example_sk (s, r, [(7, 70)])" "reading_sk r"
    using example_sk_run by blast
  have "rq_inv_sk 0 0 50 (s, r, [(7, 70)])"
    by (rule rq_inv_sk_reach [OF example_sk_wf example_sk_links_ok example_sk_ranges(1-3) r(1)])
  from reading_sk_finishes [OF this r(2,1)] obtain s' r'
    where f: "rq_reach_sk 0 0 50 example_sk (s', r', [(7, 70)])" "pc_q r' = Returned" by blast
  have "out_q r' = range_kv 0 50 [(7, 70)]"
    using rq_sk_linearizable [OF example_sk_wf example_sk_links_ok example_sk_ranges(1-3) f(1), of "heap_sk s'"] f(2)
    by (auto simp: mid_updates_sk_def simp del: fld_in)
  then show ?thesis using f by (auto simp: range_kv_def)
qed

end
