(* ===== verification/Circular_Bundle.thy ===== *)
theory Circular_Bundle
  imports Linked_Bundle "HOL-Library.Word"
begin

text \<open>
  The circular bundle of \<open>bundle/circular_bundle.h\<close>: a ring buffer of entries that doubles
  when it is full, guarded by a state word whose three low bits say that an update is
  pending, the buffer is being resized, or entries are being reclaimed, and whose other bits
  count the range queries that are reading. Every wait for another thread is \<open>Blocked\<close>.
  It is a second implementation of the contract of versioned cells.
\<close>

unbundle bit_operations_syntax

section \<open>State\<close>

definition BUNDLE_INIT_CAPACITY :: int where "BUNDLE_INIT_CAPACITY = 5"
definition NORMAL_STATE :: "32 word" where "NORMAL_STATE = 0"
definition PENDING_STATE :: "32 word" where "PENDING_STATE = 1"
definition RESIZE_STATE :: "32 word" where "RESIZE_STATE = 2"
definition RECLAIM_STATE :: "32 word" where "RECLAIM_STATE = 4"
definition RQ_STATE :: "32 word" where "RQ_STATE = NOT 7"

lemmas state_defs = NORMAL_STATE_def PENDING_STATE_def RESIZE_STATE_def RECLAIM_STATE_def RQ_STATE_def

text \<open>\<open>BundleEntryBase\<close>; a default-constructed entry is marked and holds the null pointer.\<close>

record 'p circ_entry =
  ptr_ce :: "'p option"
  ts_ce :: timestamp_t
  marked_ce :: bool

definition empty_entry :: "'p circ_entry" where
  "empty_entry = \<lparr>ptr_ce = None, ts_ce = BUNDLE_NULL_TIMESTAMP, marked_ce = True\<rparr>"

record 'p circ =
  state_c :: "32 word"
  base_c :: int
  curr_c :: int
  capacity_c :: int
  entries_c :: "'p circ_entry list"

definition at_c :: "'p circ \<Rightarrow> int \<Rightarrow> 'p circ_entry" where
  "at_c c i = entries_c c ! nat (i mod capacity_c c)"

definition init_c :: "'p circ" where
  "init_c = \<lparr>state_c = NORMAL_STATE, base_c = 0, curr_c = -1, capacity_c = BUNDLE_INIT_CAPACITY,
     entries_c = replicate (nat BUNDLE_INIT_CAPACITY) empty_entry\<rparr>"

section \<open>The state word\<close>

definition start_rq_c :: "'p circ \<Rightarrow> 'p circ res" where
  "start_rq_c c =
     (let expected = state_c c AND NOT RESIZE_STATE; upper = drop_bit 3 expected; lower = expected AND 7;
          new_state = push_bit 3 (upper + 1) OR lower
      in if state_c c = expected
         then obind (require AssertFail (new_state AND RQ_STATE \<noteq> 0 \<and> new_state AND NOT RESIZE_STATE \<noteq> 0))
                (\<lambda>_. Inr (c\<lparr>state_c := new_state\<rparr>))
         else Inl Blocked)"

definition end_rq_c :: "'p circ \<Rightarrow> 'p circ res" where
  "end_rq_c c =
     (let expected = state_c c AND NOT RESIZE_STATE; upper = drop_bit 3 expected; lower = expected AND 7;
          new_state = push_bit 3 (upper - 1) OR lower
      in obind (require AssertFail (state_c c AND RQ_STATE \<noteq> 0)) (\<lambda>_.
         if state_c c = expected then Inr (c\<lparr>state_c := new_state\<rparr>) else Inl Blocked))"

section \<open>Operations\<close>

text \<open>The copying loop of \<open>grow\<close> over the indices \<open>i, i + 1, ...\<close>, \<open>n\<close> of them.\<close>

fun grow_copy :: "nat \<Rightarrow> int \<Rightarrow> 'p circ \<Rightarrow> 'p circ_entry list \<Rightarrow> 'p circ_entry list" where
  "grow_copy 0 i c new_entries = new_entries"
| "grow_copy (Suc n) i c new_entries =
     (let es = new_entries[nat i := at_c c i];
          es' = (if i \<ge> capacity_c c then es[nat (i mod capacity_c c) := at_c c i] else es)
      in grow_copy n (i + 1) c es')"

text \<open>\<open>grow\<close> is called with the pending bit set; it waits for reclaimers and range queries.\<close>

definition grow_c :: "'p circ \<Rightarrow> 'p circ res" where
  "grow_c c =
     (if state_c c AND (RECLAIM_STATE OR RQ_STATE) \<noteq> 0 \<or> state_c c \<noteq> PENDING_STATE then Inl Blocked
      else (let st = PENDING_STATE OR RESIZE_STATE; i = base_c c;
                end' = (if i > curr_c c then capacity_c c + curr_c c else curr_c c);
                es = grow_copy (nat (end' - i + 1)) i c (replicate (nat (capacity_c c * 2)) empty_entry)
            in Inr (c\<lparr>state_c := st AND NOT RESIZE_STATE, curr_c := end', capacity_c := capacity_c c * 2,
                 entries_c := es\<rparr>)))"

definition prepare_c :: "'p option \<Rightarrow> 'p circ \<Rightarrow> 'p circ res" where
  "prepare_c ptr c =
     (if state_c c AND PENDING_STATE \<noteq> 0 then Inl Blocked
      else (let c1 = c\<lparr>state_c := state_c c OR PENDING_STATE\<rparr> in
        obind (require AssertFail (state_c c1 AND PENDING_STATE \<noteq> 0)) (\<lambda>_.
        obind (if curr_c c1 \<noteq> -1 \<and> (curr_c c1 + 1) mod capacity_c c1 = base_c c1 then grow_c c1 else Inr c1)
          (\<lambda>c2. (let i = nat ((curr_c c2 + 1) mod capacity_c c2)
             in Inr (c2\<lparr>entries_c := (entries_c c2)[i := (entries_c c2 ! i)\<lparr>ptr_ce := ptr\<rparr>]\<rparr>))))))"

definition finalize_c :: "timestamp_t \<Rightarrow> 'p circ \<Rightarrow> 'p circ res" where
  "finalize_c ts c =
     obind (require AssertFail (state_c c AND PENDING_STATE \<noteq> 0 \<and> state_c c AND RESIZE_STATE = 0)) (\<lambda>_.
     obind (require AssertFail (curr_c c = -1 \<or> (curr_c c + 1) mod capacity_c c \<noteq> base_c c)) (\<lambda>_.
       (let j = (curr_c c + 1) mod capacity_c c;
            e = (entries_c c ! nat j)\<lparr>ts_ce := ts, marked_ce := False\<rparr>
        in Inr (c\<lparr>entries_c := (entries_c c)[nat j := e], curr_c := j,
             state_c := state_c c AND NOT PENDING_STATE\<rparr>))))"

text \<open>The search of \<open>getPtrByTimestamp\<close> from the newest entry down, \<open>n\<close> entries.\<close>

fun find_c :: "nat \<Rightarrow> int \<Rightarrow> timestamp_t \<Rightarrow> 'p circ \<Rightarrow> 'p option" where
  "find_c 0 i ts c = None"
| "find_c (Suc n) i ts c = (if ts_ce (at_c c i) \<le> ts then ptr_ce (at_c c i) else find_c n (i - 1) ts c)"

definition newest_c :: "'p circ \<Rightarrow> int" where
  "newest_c c = (if base_c c > curr_c c then capacity_c c + curr_c c else curr_c c)"

definition getPtrByTimestamp_c :: "timestamp_t \<Rightarrow> 'p circ \<Rightarrow> ('p option \<times> 'p circ) res" where
  "getPtrByTimestamp_c ts c =
     obind (start_rq_c c) (\<lambda>c1.
     (let i = curr_c c1;
          ptr = (if i \<noteq> -1
                 then (let i' = (if base_c c1 > i then capacity_c c1 + i else i)
                       in find_c (nat (i' - base_c c1 + 1)) i' ts c1)
                 else None)
      in obind (end_rq_c c1) (\<lambda>c2. Inr (ptr, c2))))"

definition mark_c :: "int \<Rightarrow> 'p circ \<Rightarrow> 'p circ" where
  "mark_c i c = (let j = nat (i mod capacity_c c) in
     c\<lparr>entries_c := (entries_c c)[j := (entries_c c ! j)\<lparr>marked_ce := True\<rparr>]\<rparr>)"

text \<open>The two loops of \<open>reclaimEntries\<close>, downwards from \<open>i\<close>.\<close>

fun mark_down_c :: "nat \<Rightarrow> int \<Rightarrow> 'p circ \<Rightarrow> 'p circ" where
  "mark_down_c 0 i c = c"
| "mark_down_c (Suc n) i c = mark_down_c n (i - 1) (mark_c i c)"

fun reclaim_down_c :: "nat \<Rightarrow> int \<Rightarrow> timestamp_t \<Rightarrow> bool \<Rightarrow> 'p circ \<Rightarrow> 'p circ res" where
  "reclaim_down_c 0 i ts set_flag c = Inr c"
| "reclaim_down_c (Suc n) i ts set_flag c =
     (if ts_ce (at_c c i) \<noteq> BUNDLE_NULL_TIMESTAMP \<and> ts_ce (at_c c i) \<le> ts
      then (if \<not> set_flag
            then (let c1 = c\<lparr>base_c := i mod capacity_c c\<rparr> in
              obind (require AssertFail (base_c c1 \<ge> 0)) (\<lambda>_.
              obind (require AssertFail (\<not> marked_ce (entries_c c1 ! nat (base_c c1)))) (\<lambda>_.
                reclaim_down_c n (i - 1) ts True c1)))
            else reclaim_down_c n (i - 1) ts True (mark_c i c))
      else reclaim_down_c n (i - 1) ts set_flag c)"

definition reclaimEntries_c :: "timestamp_t \<Rightarrow> 'p circ \<Rightarrow> 'p circ res" where
  "reclaimEntries_c ts c =
     (if state_c c AND (RESIZE_STATE OR RECLAIM_STATE) \<noteq> 0 then Inl Blocked
      else (let c1 = c\<lparr>state_c := state_c c OR RECLAIM_STATE\<rparr>; i = curr_c c1; end' = base_c c1 in
        obind (require AssertFail (state_c c1 AND NOT RESIZE_STATE \<noteq> 0)) (\<lambda>_.
        obind (require AssertFail (state_c c1 AND RECLAIM_STATE \<noteq> 0)) (\<lambda>_.
        obind (if i = end' \<or> i = -1 then Inr c1
          else (let i' = (if end' > i then capacity_c c1 + i else i) in
            if ts = BUNDLE_NULL_TIMESTAMP
            then Inr (mark_down_c (nat (i' - end')) (i' - 1) (c1\<lparr>base_c := curr_c c1\<rparr>))
            else reclaim_down_c (nat (i' - end' + 1)) i' ts False c1))
        (\<lambda>c2. Inr (c2\<lparr>state_c := state_c c2 AND NOT RECLAIM_STATE\<rparr>))))))"

definition size_c :: "'p circ \<Rightarrow> int" where
  "size_c c = (if curr_c c = -1 then 0
     else if base_c c > curr_c c then (capacity_c c - base_c c) + curr_c c
     else curr_c c - base_c c)"

definition first_c :: "'p circ \<Rightarrow> 'p option \<times> timestamp_t" where
  "first_c c = (if curr_c c = -1 then (None, -1)
     else (ptr_ce (entries_c c ! nat (curr_c c)), ts_ce (entries_c c ! nat (curr_c c))))"

fun get_from_c :: "nat \<Rightarrow> int \<Rightarrow> 'p circ \<Rightarrow> ('p option \<times> timestamp_t) list" where
  "get_from_c 0 i c = []"
| "get_from_c (Suc n) i c = (ptr_ce (at_c c i), ts_ce (at_c c i)) # get_from_c n (i + 1) c"

definition get_c :: "'p circ \<Rightarrow> ('p option \<times> timestamp_t) list \<times> int" where
  "get_c c = (if curr_c c = -1 then ([], 0)
     else (let r = get_from_c (nat (newest_c c - base_c c + 1)) (base_c c) c in (r, int (length r))))"
section \<open>The entries as a list\<close>

definition count_c :: "'p circ \<Rightarrow> nat" where
  "count_c c = (if curr_c c = -1 then 0 else nat (newest_c c - base_c c + 1))"

definition entry_c :: "'p circ \<Rightarrow> int \<Rightarrow> 'p option bundle_entry" where
  "entry_c c i = BundleEntry (ts_ce (at_c c i)) (ptr_ce (at_c c i))"

text \<open>The finalized entries, newest first.\<close>

definition abs_c :: "'p circ \<Rightarrow> 'p option bundle_t" where
  "abs_c c = map (\<lambda>j. entry_c c (newest_c c - int j)) [0..<count_c c]"

definition circ_ok :: "'p circ \<Rightarrow> bool" where
  "circ_ok c \<longleftrightarrow> 0 < capacity_c c \<and> length (entries_c c) = nat (capacity_c c)
     \<and> 0 \<le> base_c c \<and> base_c c < capacity_c c \<and> -1 \<le> curr_c c \<and> curr_c c < capacity_c c
     \<and> (curr_c c = -1 \<longrightarrow> base_c c = 0)
     \<and> (\<forall>j<count_c c. \<not> marked_ce (at_c c (newest_c c - int j)))"

lemma circ_okD:
  assumes "circ_ok c"
  shows "0 < capacity_c c" "length (entries_c c) = nat (capacity_c c)" "0 \<le> base_c c" "base_c c < capacity_c c"
    "-1 \<le> curr_c c" "curr_c c < capacity_c c" "curr_c c = -1 \<Longrightarrow> base_c c = 0"
    "j < count_c c \<Longrightarrow> \<not> marked_ce (at_c c (newest_c c - int j))"
  using assms by (simp_all add: circ_ok_def)

lemma newest_state [simp]: "newest_c (c\<lparr>state_c := s\<rparr>) = newest_c c"
  by (simp add: newest_c_def)

lemma at_state [simp]: "at_c (c\<lparr>state_c := s\<rparr>) i = at_c c i"
  by (simp add: at_c_def)

lemma count_state [simp]: "count_c (c\<lparr>state_c := s\<rparr>) = count_c c"
  by (simp add: count_c_def)

lemma abs_state [simp]: "abs_c (c\<lparr>state_c := s\<rparr>) = abs_c c"
  by (simp add: abs_c_def entry_c_def)

lemma circ_ok_state [simp]: "circ_ok (c\<lparr>state_c := s\<rparr>) = circ_ok c"
  by (simp add: circ_ok_def)

lemma mod_apart:
  fixes a b m :: int
  assumes "0 < a - b" "a - b < m"
  shows "a mod m \<noteq> b mod m"
  using assms by (metis mod_eq_dvd_iff zdvd_not_zless)

lemma count_bounds:
  assumes "circ_ok c" "curr_c c \<noteq> -1"
  shows "base_c c \<le> newest_c c" "newest_c c - base_c c < capacity_c c" "int (count_c c) = newest_c c - base_c c + 1"
    "newest_c c mod capacity_c c = curr_c c"
proof -
  note d = circ_okD [OF assms(1)]
  show b: "base_c c \<le> newest_c c" "newest_c c - base_c c < capacity_c c" using d assms(2) by (auto simp: newest_c_def)
  then show "int (count_c c) = newest_c c - base_c c + 1" using assms(2) by (simp add: count_c_def)
  show "newest_c c mod capacity_c c = curr_c c" using d assms(2) by (auto simp: newest_c_def)
qed

lemma full_iff:
  assumes "circ_ok c" "curr_c c \<noteq> -1"
  shows "(curr_c c + 1) mod capacity_c c = base_c c \<longleftrightarrow> newest_c c - base_c c + 1 = capacity_c c"
proof -
  note d = circ_okD [OF assms(1)]
  show ?thesis
  proof (cases "curr_c c + 1 = capacity_c c")
    case True
    then show ?thesis using d assms(2) by (auto simp: newest_c_def)
  next
    case False
    then have "(curr_c c + 1) mod capacity_c c = curr_c c + 1" using d assms(2) by simp
    then show ?thesis using d assms(2) False by (auto simp: newest_c_def)
  qed
qed

text \<open>Two rings with the same newest index, count and entries have the same list.\<close>

lemma abs_c_cong:
  assumes "count_c c' = n" "\<And>j. j < n \<Longrightarrow> entry_c c' (newest_c c' - int j) = entry_c c (newest_c c - int j)"
    "n \<le> count_c c"
  shows "abs_c c' = take n (abs_c c)"
  using assms by (auto simp: abs_c_def take_map)

lemma find_c_read:
  "find_c n i ts c = (case read_at (map (\<lambda>j. entry_c c (i - int j)) [0..<n]) ts of None \<Rightarrow> None | Some p \<Rightarrow> p)"
proof (induction n arbitrary: i)
  case (Suc n)
  have "map (\<lambda>j. entry_c c (i - int j)) [0..<Suc n] = entry_c c i # map (\<lambda>j. entry_c c (i - 1 - int j)) [0..<n]"
    by (simp add: upt_rec [of 0] map_Suc_upt [symmetric] comp_def del: upt_Suc) (simp add: algebra_simps)
  then show ?case using Suc.IH [of "i - 1"] by (simp add: entry_c_def del: upt_Suc)
qed (simp add: read_at_def)

section \<open>Reading\<close>

text \<open>The number of queries that are reading, and room for one more.\<close>

definition readers_c :: "'p circ \<Rightarrow> 32 word" where
  "readers_c c = drop_bit 3 (state_c c)"

lemma start_end_word:
  fixes st :: "32 word"
  assumes st: "st AND 2 = 0" and room: "drop_bit 3 st < 2 ^ 29 - 1"
  defines "nw \<equiv> push_bit 3 (drop_bit 3 st + 1) OR (st AND 7)"
  shows "st AND NOT 2 = st" "nw AND NOT 2 = nw" "push_bit 3 (drop_bit 3 nw - 1) OR (nw AND 7) = st"
    "nw AND NOT 7 \<noteq> 0" "drop_bit 3 nw = drop_bit 3 st + 1" "nw AND 7 = st AND 7"
proof -
  have b1: "\<not> bit st 1"
  proof
    assume "bit st 1"
    then have "bit (st AND 2) 1" by (simp add: bit_simps)
    then show False using st by simp
  qed
  have seven: "(7 :: 32 word) = mask 3" by (simp add: mask_eq_exp_minus_1)
  have two: "(2 :: 32 word) = push_bit 1 1" by simp
  show a: "st AND NOT 2 = st"
    unfolding two using b1 by (auto intro!: bit_word_eqI simp: bit_simps le_less Suc_le_eq)
  have "drop_bit 3 st + 1 < 2 ^ 29" using room by (simp add: word_less_nat_alt unat_word_ariths) 
  then have tb: "take_bit 29 (drop_bit 3 st + 1) = drop_bit 3 st + 1"
    by (simp only: take_bit_eq_mask less_mask_eq)
  show d: "drop_bit 3 nw = drop_bit 3 st + 1"
  proof -
    have "drop_bit 3 nw = take_bit 29 (drop_bit 3 st + 1)"
      unfolding nw_def seven by (rule bit_word_eqI) (auto simp: bit_simps)
    then show ?thesis using tb by simp
  qed
  show l: "nw AND 7 = st AND 7"
    unfolding nw_def seven by (rule bit_word_eqI) (auto simp: bit_simps)
  show "push_bit 3 (drop_bit 3 nw - 1) OR (nw AND 7) = st"
    unfolding d l unfolding seven by (rule bit_word_eqI) (auto simp: bit_simps not_less)
  have "\<not> bit nw 1" unfolding nw_def using b1 by (simp add: bit_simps)
  then show "nw AND NOT 2 = nw"
    unfolding two by (auto intro!: bit_word_eqI simp: bit_simps le_less Suc_le_eq)
  show "nw AND NOT 7 \<noteq> 0"
  proof
    assume z: "nw AND NOT 7 = 0"
    have "drop_bit 3 (nw AND NOT 7) = drop_bit 3 nw"
      unfolding seven by (rule bit_word_eqI) (auto simp: bit_simps dest: bit_imp_le_length)
    then have "drop_bit 3 st + 1 = 0" unfolding z d by simp
    then have "drop_bit 3 st = -1" by (simp only: eq_neg_iff_add_eq_0)
    then show False using room by simp
  qed
qed

definition rq_word :: "32 word \<Rightarrow> 32 word" where
  "rq_word st = push_bit 3 (drop_bit 3 st + 1) OR (st AND 7)"

lemma start_end_c:
  assumes "state_c c AND RESIZE_STATE = 0" "readers_c c < 2 ^ 29 - 1"
  shows "start_rq_c c = Inr (c\<lparr>state_c := rq_word (state_c c)\<rparr>)"
    "end_rq_c (c\<lparr>state_c := rq_word (state_c c)\<rparr>) = Inr c"
proof -
  note w = start_end_word [OF assms(1) [unfolded state_defs] assms(2) [unfolded readers_c_def], folded rq_word_def]
  have ne: "rq_word (state_c c) AND NOT 2 \<noteq> 0" using w(2,4) by auto
  show "start_rq_c c = Inr (c\<lparr>state_c := rq_word (state_c c)\<rparr>)"
    using w(1,4) ne by (simp add: start_rq_c_def Let_def state_defs rq_word_def [symmetric] require_def)
  show "end_rq_c (c\<lparr>state_c := rq_word (state_c c)\<rparr>) = Inr c"
    using w(2,3,4) by (simp add: end_rq_c_def Let_def state_defs require_def)
qed

lemma start_rq_resize:
  assumes "state_c c AND RESIZE_STATE \<noteq> 0"
  shows "start_rq_c c = Inl Blocked"
proof -
  have "state_c c \<noteq> state_c c AND NOT RESIZE_STATE"
  proof
    assume "state_c c = state_c c AND NOT RESIZE_STATE"
    then have "state_c c AND RESIZE_STATE = (state_c c AND NOT RESIZE_STATE) AND RESIZE_STATE" by (rule arg_cong)
    also have "\<dots> = state_c c AND (NOT RESIZE_STATE AND RESIZE_STATE)" by (rule and.assoc)
    finally show False using assms by simp
  qed
  then show ?thesis by (simp add: start_rq_c_def Let_def)
qed

lemma getPtrByTimestamp_c_read:
  assumes "circ_ok c" "state_c c AND RESIZE_STATE = 0" "readers_c c < 2 ^ 29 - 1"
  shows "getPtrByTimestamp_c ts c = Inr (case read_at (abs_c c) ts of None \<Rightarrow> None | Some p \<Rightarrow> p, c)"
proof -
  define nw where "nw = rq_word (state_c c)"
  note s = start_end_c [OF assms(2,3), folded nw_def]
  have f: "(if curr_c c \<noteq> -1
     then find_c (nat (newest_c c - base_c c + 1)) (newest_c c) ts (c\<lparr>state_c := nw\<rparr>) else None)
     = (case read_at (abs_c c) ts of None \<Rightarrow> None | Some p \<Rightarrow> p)"
    by (auto simp: find_c_read abs_c_def count_c_def entry_c_def at_c_def)
  have "getPtrByTimestamp_c ts c = Inr (if curr_c c \<noteq> -1
     then find_c (nat (newest_c c - base_c c + 1)) (newest_c c) ts (c\<lparr>state_c := nw\<rparr>) else None, c)"
    by (simp add: getPtrByTimestamp_c_def s Let_def newest_c_def)
  then show ?thesis unfolding f .
qed

section \<open>Updating\<close>

lemma at_c_set:
  assumes "0 < capacity_c c" "length (entries_c c) = nat (capacity_c c)" "0 \<le> j" "j < capacity_c c"
  shows "at_c (c\<lparr>entries_c := (entries_c c)[nat j := e]\<rparr>) i = (if i mod capacity_c c = j then e else at_c c i)"
proof -
  have "0 \<le> i mod capacity_c c" "i mod capacity_c c < capacity_c c" using assms(1) by auto
  then have "nat j = nat (i mod capacity_c c) \<longleftrightarrow> i mod capacity_c c = j" "nat (i mod capacity_c c) < nat (capacity_c c)"
    using assms(1,3,4) pos_mod_sign [of "capacity_c c" i] pos_mod_bound [of "capacity_c c" i] by linarith+
  then show ?thesis using assms(2) by (auto simp: at_c_def nth_list_update)
qed

lemma nth_upd: "k < length xs \<Longrightarrow> xs[i := x] ! k = (if i = k then x else xs ! k)"
  by (simp add: nth_list_update_neq)

text \<open>Room for one more entry behind the newest one.\<close>

definition room_c :: "'p circ \<Rightarrow> bool" where
  "room_c c \<longleftrightarrow> curr_c c = -1 \<or> (curr_c c + 1) mod capacity_c c \<noteq> base_c c"

lemma append_c:
  fixes st :: "32 word" and c :: "'p circ"
  assumes ok: "circ_ok c" and room: "room_c c" and um: "\<not> marked_ce e"
  defines "j \<equiv> (curr_c c + 1) mod capacity_c c"
  defines "c' \<equiv> c\<lparr>entries_c := (entries_c c)[nat j := e], curr_c := j, state_c := st\<rparr>"
  shows "circ_ok c' \<and> abs_c c' = BundleEntry (ts_ce e) (ptr_ce e) # abs_c c"
proof -
  note d = circ_okD [OF ok]
  have j: "0 \<le> j" "j < capacity_c c" using d(1) by (auto simp: j_def)
  have at': "at_c c' i = (if i mod capacity_c c = j then e else at_c c i)" for i
    using at_c_set [OF d(1,2) j] by (simp add: c'_def at_c_def)
  have [simp]: "capacity_c c' = capacity_c c" "base_c c' = base_c c" "curr_c c' = j"
    "length (entries_c c') = length (entries_c c)" by (simp_all add: c'_def)
  have n: "newest_c c' mod capacity_c c = j" using j d(3,4) by (auto simp: newest_c_def)
  have cnt: "count_c c' = Suc (count_c c) \<and> (\<forall>k<count_c c. newest_c c' - int (Suc k) = newest_c c - int k)
     \<and> int (count_c c') \<le> capacity_c c"
  proof (cases "curr_c c = -1")
    case True
    then show ?thesis using d by (simp add: count_c_def newest_c_def j_def)
  next
    case False
    note b = count_bounds [OF ok False]
    have nf: "newest_c c - base_c c + 1 < capacity_c c"
      using room False b(2) full_iff [OF ok False] by (simp add: room_c_def)
    have "newest_c c' = newest_c c + 1"
    proof (cases "curr_c c + 1 = capacity_c c")
      case True
      then show ?thesis using d nf False by (auto simp: newest_c_def j_def split: if_splits)
    next
      case F: False
      then have "j = curr_c c + 1" using d(5,6) False by (simp add: j_def)
      then show ?thesis using d nf False by (auto simp: newest_c_def split: if_splits)
    qed
    then show ?thesis using b nf False j by (auto simp: count_c_def)
  qed
  have old: "at_c c' (newest_c c - int k) = at_c c (newest_c c - int k)" if "k < count_c c" for k
  proof -
    have "(newest_c c' - int (Suc k)) mod capacity_c c \<noteq> newest_c c' mod capacity_c c"
      by (rule not_sym, rule mod_apart) (use cnt that in auto)
    then have "(newest_c c - int k) mod capacity_c c \<noteq> j" using cnt that n by metis
    then show ?thesis by (simp add: at')
  qed
  have new: "at_c c' (newest_c c') = e" using n by (simp add: at')
  have e: "entry_c c' (newest_c c') = BundleEntry (ts_ce e) (ptr_ce e)" using new by (simp add: entry_c_def)
  have "abs_c c' = entry_c c' (newest_c c') # map (\<lambda>k. entry_c c' (newest_c c' - int (Suc k))) [0..<count_c c]"
    using cnt by (simp add: abs_c_def upt_rec [of 0] map_Suc_upt [symmetric] comp_def del: upt_Suc of_nat_Suc)
  also have "map (\<lambda>k. entry_c c' (newest_c c' - int (Suc k))) [0..<count_c c] = abs_c c"
    unfolding abs_c_def by (rule map_cong) (use cnt old in \<open>auto simp: entry_c_def simp del: of_nat_Suc\<close>)
  finally have a: "abs_c c' = BundleEntry (ts_ce e) (ptr_ce e) # abs_c c" using e by simp
  have "\<not> marked_ce (at_c c' (newest_c c' - int k))" if "k < count_c c'" for k
  proof (cases k)
    case 0
    then show ?thesis using new um by simp
  next
    case (Suc m)
    then have "m < count_c c" using that cnt by simp
    then show ?thesis using Suc cnt old d(8) by metis
  qed
  then have "circ_ok c'" using d j by (auto simp: circ_ok_def)
  then show ?thesis using a by simp
qed

lemma grow_copy_nth:
  assumes "0 < capacity_c c" "0 \<le> i" "k < length es" "i \<le> int k \<and> int k < i + int n \<or> es ! k = at_c c (int k)"
  shows "grow_copy n i c es ! k = at_c c (int k)"
  using assms(2-4)
proof (induction n arbitrary: i es)
  case (Suc n)
  have same: "at_c c i = at_c c (int k)" if "nat (i mod capacity_c c) = k"
  proof -
    have "i mod capacity_c c = int k" using that assms(1) by (metis int_nat_eq pos_mod_sign)
    then have "int k mod capacity_c c = i mod capacity_c c" using assms(1) by (metis mod_mod_trivial)
    then show ?thesis by (simp add: at_c_def)
  qed
  define es' where "es' = es[nat i := at_c c i]"
  define es2 where "es2 = (if i \<ge> capacity_c c then es'[nat (i mod capacity_c c) := at_c c i] else es')"
  have l: "length es2 = length es" by (simp add: es2_def es'_def)
  have "es2 ! k = at_c c (int k)" if "int k = i \<or> es ! k = at_c c (int k)"
    using that Suc.prems(1,2) same by (auto simp: es2_def es'_def nth_upd)
  then have "i + 1 \<le> int k \<and> int k < i + 1 + int n \<or> es2 ! k = at_c c (int k)"
    using Suc.prems(3) by (cases "int k = i") auto
  then have "grow_copy n (i + 1) c es2 ! k = at_c c (int k)"
    using Suc.prems(1,2) l by (intro Suc.IH) auto
  moreover have "grow_copy (Suc n) i c es = grow_copy n (i + 1) c es2"
    unfolding grow_copy.simps Let_def es2_def es'_def by (rule refl)
  ultimately show ?case by simp
qed auto

lemma grow_copy_length [simp]: "length (grow_copy n i c es) = length es"
  by (induction n arbitrary: i es) (simp_all add: Let_def)

lemma grow_c_correct:
  assumes ok: "circ_ok c" and st: "state_c c = PENDING_STATE" and cu: "curr_c c \<noteq> -1"
  shows "\<exists>c'. grow_c c = Inr c' \<and> circ_ok c' \<and> abs_c c' = abs_c c \<and> state_c c' = PENDING_STATE
    \<and> capacity_c c' = 2 * capacity_c c \<and> curr_c c' \<noteq> -1 \<and> room_c c'"
proof -
  note d = circ_okD [OF ok] and b = count_bounds [OF ok cu]
  define c' where "c' = c\<lparr>state_c := PENDING_STATE, curr_c := newest_c c, capacity_c := capacity_c c * 2,
    entries_c := grow_copy (nat (newest_c c - base_c c + 1)) (base_c c) c
      (replicate (nat (capacity_c c * 2)) empty_entry)\<rparr>"
  have g: "grow_c c = Inr c'"
    by (simp add: grow_c_def st c'_def state_defs newest_c_def Let_def)
  have lt: "newest_c c < 2 * capacity_c c" using d cu by (auto simp: newest_c_def)
  have n: "newest_c c' = newest_c c" using b(1) by (simp add: newest_c_def c'_def)
  have cnt: "count_c c' = count_c c" using b cu d(3) by (simp add: count_c_def n) (simp add: c'_def)
  have at': "at_c c' (newest_c c - int k) = at_c c (newest_c c - int k)" if "k < count_c c" for k
  proof -
    let ?i = "newest_c c - int k"
    have r: "base_c c \<le> ?i" "?i \<le> newest_c c" using that b(3) by linarith+
    have "at_c c' ?i = entries_c c' ! nat ?i" using r lt d(3) by (simp add: at_c_def c'_def)
    also have "\<dots> = at_c c ?i"
      using grow_copy_nth [of c "base_c c" "nat ?i" "replicate (nat (capacity_c c * 2)) empty_entry"
        "nat (newest_c c - base_c c + 1)"] d(1,3) r lt b(1)
      by (simp add: c'_def)
    finally show ?thesis .
  qed
  have a: "abs_c c' = abs_c c"
    unfolding abs_c_def cnt n by (rule map_cong) (auto simp: entry_c_def at')
  have "\<not> marked_ce (at_c c' (newest_c c' - int k))" if "k < count_c c'" for k
    using that at' d(8) n cnt by metis
  moreover have "0 < capacity_c c'" "length (entries_c c') = nat (capacity_c c')" "0 \<le> base_c c'"
    "base_c c' < capacity_c c'" "0 \<le> curr_c c'" "curr_c c' < capacity_c c'"
    using d lt b(1) by (auto simp: c'_def)
  ultimately have o: "circ_ok c'" by (auto simp: circ_ok_def)
  have cu': "curr_c c' \<noteq> -1" using \<open>0 \<le> curr_c c'\<close> by simp
  have "room_c c'"
    using full_iff [OF o cu'] b(2) n d(1) unfolding room_c_def by (simp add: c'_def)
  then show ?thesis using g o a cu' by (intro exI [of _ c'] conjI) (simp_all add: c'_def)
qed

lemma pending_word:
  fixes st :: "32 word"
  assumes "st AND 1 = 0" "st AND 2 = 0"
  shows "(st OR 1) AND 1 \<noteq> 0" "(st OR 1) AND 2 = 0" "(st OR 1) AND NOT 1 = st"
proof -
  have b: "\<not> bit st 0" using assms(1) by (simp add: and_one_eq even_iff_mod_2_eq_zero bit_0)
  have "bit ((st OR 1) AND 1) 0" by (simp add: bit_simps)
  then show "(st OR 1) AND 1 \<noteq> 0" by auto
  have "(st OR 1) AND 2 = (st AND 2) OR (1 AND 2)" by (rule bit.conj_disj_distrib2)
  then show "(st OR 1) AND 2 = 0" using assms(2) by simp
  show "(st OR 1) AND NOT 1 = st"
    using b by (auto intro!: bit_word_eqI simp: bit_simps) (metis not_gr_zero)
qed

text \<open>Setting the pointer of the free slot is invisible to readers.\<close>

lemma write_free_c:
  fixes c :: "'p circ" and p :: "'p option"
  assumes ok: "circ_ok c" and room: "room_c c"
  defines "j \<equiv> nat ((curr_c c + 1) mod capacity_c c)"
  defines "c' \<equiv> c\<lparr>entries_c := (entries_c c)[j := (entries_c c ! j)\<lparr>ptr_ce := p\<rparr>]\<rparr>"
  shows "circ_ok c' \<and> abs_c c' = abs_c c \<and> room_c c'"
proof -
  note d = circ_okD [OF ok]
  have n: "newest_c c' = newest_c c" "count_c c' = count_c c" by (simp_all add: c'_def newest_c_def count_c_def)
  have jr: "0 \<le> (curr_c c + 1) mod capacity_c c" "(curr_c c + 1) mod capacity_c c < capacity_c c" using d(1) by auto
  have at': "at_c c' (newest_c c - int k) = at_c c (newest_c c - int k)" if k: "k < count_c c" for k
  proof -
    have cu: "curr_c c \<noteq> -1" using k by (auto simp: count_c_def)
    note b = count_bounds [OF ok cu]
    have nf: "newest_c c - base_c c + 1 < capacity_c c"
      using room cu b(2) full_iff [OF ok cu] by (simp add: room_c_def)
    have "(newest_c c + 1) mod capacity_c c \<noteq> (newest_c c - int k) mod capacity_c c"
      by (rule mod_apart) (use k b(3) nf in linarith)+
    moreover have "(newest_c c + 1) mod capacity_c c = (curr_c c + 1) mod capacity_c c"
      using b(4) by (metis mod_add_left_eq)
    ultimately show ?thesis using at_c_set [OF d(1,2) jr] by (simp add: c'_def j_def)
  qed
  have "abs_c c' = abs_c c" unfolding abs_c_def n by (rule map_cong) (auto simp: entry_c_def at')
  moreover have "\<not> marked_ce (at_c c' (newest_c c' - int k))" if "k < count_c c'" for k
    using that at' d(8) n by simp
  then have "circ_ok c'" using d by (auto simp: circ_ok_def c'_def)
  moreover have "room_c c'" using room by (simp add: room_c_def c'_def)
  ultimately show ?thesis by simp
qed

lemma finalize_c_append:
  assumes ok: "circ_ok c" and room: "room_c c"
    and st: "state_c c AND PENDING_STATE \<noteq> 0" "state_c c AND RESIZE_STATE = 0"
    and p: "ptr_ce (entries_c c ! nat ((curr_c c + 1) mod capacity_c c)) = p"
  shows "\<exists>c'. finalize_c ts c = Inr c' \<and> circ_ok c' \<and> abs_c c' = push_entry ts p (abs_c c)
    \<and> state_c c' = state_c c AND NOT PENDING_STATE"
  using append_c [OF ok room, of "(entries_c c ! nat ((curr_c c + 1) mod capacity_c c))\<lparr>ts_ce := ts, marked_ce := False\<rparr>"
    "state_c c AND NOT PENDING_STATE"] room st p
  by (auto simp: finalize_c_def room_c_def require_def Let_def push_entry_def)

text \<open>
  After \<open>prepare\<close> the ring has room, its entries read as before, and the pointer waits
  in the free slot.
\<close>

lemma prepare_c_correct:
  assumes ok: "circ_ok c" and st: "state_c c AND PENDING_STATE = 0" "state_c c AND RESIZE_STATE = 0"
    and gr: "room_c c \<or> state_c c = NORMAL_STATE"
  shows "\<exists>c'. prepare_c p c = Inr c' \<and> circ_ok c' \<and> room_c c' \<and> abs_c c' = abs_c c
    \<and> state_c c' = state_c c OR PENDING_STATE
    \<and> ptr_ce (entries_c c' ! nat ((curr_c c' + 1) mod capacity_c c')) = p"
proof -
  define c1 where "c1 = c\<lparr>state_c := state_c c OR PENDING_STATE\<rparr>"
  have pw: "(state_c c OR 1) AND 1 \<noteq> 0" using pending_word st by (simp add: state_defs)
  have ok1: "circ_ok c1" using ok by (simp add: c1_def)
  have abs1: "abs_c c1 = abs_c c" by (simp add: c1_def)
  have "\<exists>c2. (if curr_c c1 \<noteq> -1 \<and> (curr_c c1 + 1) mod capacity_c c1 = base_c c1 then grow_c c1 else Inr c1) = Inr c2
    \<and> circ_ok c2 \<and> room_c c2 \<and> abs_c c2 = abs_c c \<and> state_c c2 = state_c c OR PENDING_STATE"
  proof (cases "room_c c1")
    case True
    then show ?thesis using ok1 abs1 by (auto simp: room_c_def c1_def)
  next
    case False
    then have cu: "curr_c c1 \<noteq> -1" "(curr_c c1 + 1) mod capacity_c c1 = base_c c1" by (auto simp: room_c_def)
    have "state_c c = NORMAL_STATE" using gr False by (auto simp: room_c_def c1_def)
    then have s1: "state_c c1 = PENDING_STATE" by (simp add: c1_def state_defs)
    show ?thesis using grow_c_correct [OF ok1 s1 cu(1)] cu abs1 s1 by (auto simp: c1_def)
  qed
  then obtain c2 where c2: "(if curr_c c1 \<noteq> -1 \<and> (curr_c c1 + 1) mod capacity_c c1 = base_c c1 then grow_c c1 else Inr c1) = Inr c2"
    "circ_ok c2" "room_c c2" "abs_c c2 = abs_c c" "state_c c2 = state_c c OR PENDING_STATE" by (elim exE conjE)
  define j where "j = nat ((curr_c c2 + 1) mod capacity_c c2)"
  define c' where "c' = c2\<lparr>entries_c := (entries_c c2)[j := (entries_c c2 ! j)\<lparr>ptr_ce := p\<rparr>]\<rparr>"
  have w: "circ_ok c' \<and> abs_c c' = abs_c c2 \<and> room_c c'"
    using write_free_c [OF c2(2,3)] by (simp add: c'_def j_def)
  have pr: "prepare_c p c = Inr c'"
    using st(1) pw c2(1) by (simp add: prepare_c_def c1_def [symmetric] require_def Let_def c'_def j_def)
      (simp add: c1_def state_defs)
  have jl: "j < length (entries_c c2)"
    using circ_okD(1,2) [OF c2(2)] by (simp add: j_def)
  have "ptr_ce (entries_c c' ! nat ((curr_c c' + 1) mod capacity_c c')) = p"
    using jl by (simp add: c'_def j_def)
  then show ?thesis using pr w c2(4,5) by (intro exI [of _ c']) (simp add: c'_def)
qed

lemma update_c_correct:
  assumes "circ_ok c" "state_c c AND PENDING_STATE = 0" "state_c c AND RESIZE_STATE = 0"
    "room_c c \<or> state_c c = NORMAL_STATE"
  shows "\<exists>c'. obind (prepare_c p c) (finalize_c ts) = Inr c' \<and> circ_ok c'
    \<and> abs_c c' = push_entry ts p (abs_c c) \<and> state_c c' = state_c c"
proof -
  obtain c1 where c1: "prepare_c p c = Inr c1" "circ_ok c1" "room_c c1" "abs_c c1 = abs_c c"
    "state_c c1 = state_c c OR PENDING_STATE"
    "ptr_ce (entries_c c1 ! nat ((curr_c c1 + 1) mod capacity_c c1)) = p"
    using prepare_c_correct [OF assms, of p] by (elim exE conjE)
  have w: "state_c c1 AND PENDING_STATE \<noteq> 0" "state_c c1 AND RESIZE_STATE = 0"
    "state_c c1 AND NOT PENDING_STATE = state_c c"
    using pending_word assms(2,3) by (simp_all add: c1(5) state_defs)
  show ?thesis using finalize_c_append [OF c1(2,3) w(1,2) c1(6), of ts] c1(1,4) w(3) by auto
qed

section \<open>Reclaiming\<close>

text \<open>What survives at time \<open>t\<close>: the entries younger than \<open>t\<close> and the newest one that is not.\<close>

definition keep_until :: "timestamp_t \<Rightarrow> 'p bundle_t \<Rightarrow> 'p bundle_t" where
  "keep_until t b = takeWhile (\<lambda>e. t < entry_ts e) b @ take 1 (dropWhile (\<lambda>e. t < entry_ts e) b)"

lemma keep_until_take:
  assumes "j < length b" "\<forall>k<j. t < entry_ts (b ! k)" "entry_ts (b ! j) \<le> t"
  shows "keep_until t b = take (Suc j) b"
proof -
  have "takeWhile (\<lambda>e. t < entry_ts e) b = take j b"
    using assms by (intro takeWhile_eq_take_P_nth) auto
  then have "dropWhile (\<lambda>e. t < entry_ts e) b = drop j b"
    using assms(1) by (metis length_take min.absorb2 less_imp_le dropWhile_eq_drop)
  then show ?thesis
    using assms(1) \<open>takeWhile _ b = take j b\<close> by (simp add: keep_until_def take_Suc_conv_app_nth Cons_nth_drop_Suc [symmetric])
qed

lemma keep_until_all: "\<forall>e\<in>set b. t < entry_ts e \<Longrightarrow> keep_until t b = b"
  by (induction b) (simp_all add: keep_until_def)

lemma read_keep_until: "t \<le> u \<Longrightarrow> read_at (keep_until t b) u = read_at b u"
  by (induction b) (auto simp: keep_until_def)

lemma newest_keep_until [simp]: "newest_ts (keep_until t b) = newest_ts b"
  by (cases b) (auto simp: keep_until_def)

lemma set_keep_until: "set (keep_until t b) \<subseteq> set b"
  by (auto simp: keep_until_def dest: set_takeWhileD in_set_takeD set_dropWhileD)

lemma bundle_ok_keep_until: "bundle_ok b \<Longrightarrow> bundle_ok (keep_until t b)"
proof (induction b)
  case (Cons e b)
  then show ?case using set_keep_until [of t b] by (auto simp: keep_until_def)
qed (simp add: keep_until_def)

text \<open>Rings that differ in the marks of some slots only.\<close>

definition remarked :: "int set \<Rightarrow> 'p circ \<Rightarrow> 'p circ \<Rightarrow> bool" where
  "remarked S c c' \<longleftrightarrow> state_c c' = state_c c \<and> base_c c' = base_c c \<and> curr_c c' = curr_c c
     \<and> capacity_c c' = capacity_c c \<and> length (entries_c c') = length (entries_c c)
     \<and> (\<forall>i. ts_ce (at_c c' i) = ts_ce (at_c c i) \<and> ptr_ce (at_c c' i) = ptr_ce (at_c c i)
          \<and> (i mod capacity_c c \<notin> S \<longrightarrow> at_c c' i = at_c c i))"

lemma remarked_refl [simp]: "remarked S c c"
  by (simp add: remarked_def)

lemma remarkedD:
  assumes "remarked S c c'"
  shows "state_c c' = state_c c" "base_c c' = base_c c" "curr_c c' = curr_c c"
    "capacity_c c' = capacity_c c" "length (entries_c c') = length (entries_c c)"
    "ts_ce (at_c c' i) = ts_ce (at_c c i)" "ptr_ce (at_c c' i) = ptr_ce (at_c c i)"
    "i mod capacity_c c \<notin> S \<Longrightarrow> at_c c' i = at_c c i"
  using assms by (simp_all add: remarked_def)

lemma remarked_trans:
  assumes a: "remarked S c c'" and b: "remarked T c' c''" and u: "S \<union> T \<subseteq> U"
  shows "remarked U c c''"
proof -
  have "at_c c'' i = at_c c i" if i: "i mod capacity_c c \<notin> U" for i
  proof -
    have "i mod capacity_c c \<notin> S" "i mod capacity_c c' \<notin> T" using i u remarkedD(4) [OF a] by auto
    then show ?thesis using remarkedD(8) [OF a] remarkedD(8) [OF b] by simp
  qed
  then show ?thesis unfolding remarked_def by (simp add: remarkedD [OF a] remarkedD [OF b])
qed

lemma remarked_mark:
  assumes "0 < capacity_c c" "length (entries_c c) = nat (capacity_c c)"
  shows "remarked {i mod capacity_c c} c (mark_c i c)"
  using at_c_set [OF assms, of "i mod capacity_c c"] assms(1)
  by (auto simp: remarked_def mark_c_def Let_def) (auto simp: at_c_def)

definition below :: "int \<Rightarrow> int \<Rightarrow> nat \<Rightarrow> int set" where
  "below m i n = (\<lambda>k. (i - int k) mod m) ` {..<n}"

lemma below_Suc: "below m i (Suc n) = insert (i mod m) (below m (i - 1) n)"
  by (auto simp: below_def lessThan_Suc_eq_insert_0 image_image algebra_simps)

lemma remarked_dims: "remarked S c c' \<Longrightarrow> 0 < capacity_c c \<Longrightarrow> length (entries_c c) = nat (capacity_c c) \<Longrightarrow>
    0 < capacity_c c' \<and> length (entries_c c') = nat (capacity_c c') \<and> capacity_c c' = capacity_c c"
  by (simp add: remarked_def)

lemma mark_down_remarked:
  "0 < capacity_c c \<Longrightarrow> length (entries_c c) = nat (capacity_c c) \<Longrightarrow>
     remarked (below (capacity_c c) i n) c (mark_down_c n i c)"
proof (induction n arbitrary: i c)
  case (Suc n)
  note r = remarked_mark [OF Suc.prems, of i]
  note dm = remarked_dims [OF r Suc.prems]
  from Suc.IH [of "mark_c i c" "i - 1"] dm show ?case
    by (auto intro!: remarked_trans [OF r] simp: below_Suc)
qed simp

lemma reclaim_down_remarked:
  "0 < capacity_c c \<Longrightarrow> length (entries_c c) = nat (capacity_c c) \<Longrightarrow>
     \<exists>c'. reclaim_down_c n i ts True c = Inr c' \<and> remarked (below (capacity_c c) i n) c c'"
proof (induction n arbitrary: i c)
  case (Suc n)
  note r = remarked_mark [OF Suc.prems, of i]
  note dm = remarked_dims [OF r Suc.prems]
  obtain c1 where c1: "reclaim_down_c n (i - 1) ts True (mark_c i c) = Inr c1"
    "remarked (below (capacity_c c) (i - 1) n) (mark_c i c) c1"
    using Suc.IH [of "mark_c i c" "i - 1"] dm by auto
  obtain c2 where c2: "reclaim_down_c n (i - 1) ts True c = Inr c2" "remarked (below (capacity_c c) (i - 1) n) c c2"
    using Suc.IH [of c "i - 1"] Suc.prems by auto
  have "remarked (below (capacity_c c) i (Suc n)) c c1"
    by (rule remarked_trans [OF r c1(2)]) (simp add: below_Suc)
  moreover have "remarked (below (capacity_c c) i (Suc n)) c c2"
    by (rule remarked_trans [OF c2(2) remarked_refl [of "{}"]]) (auto simp: below_Suc)
  ultimately show ?case using c1(1) c2(1) by auto
qed simp

lemma remarked_ok:
  assumes ok: "circ_ok c" and r: "remarked S c c'"
    and out: "\<And>k. k < count_c c \<Longrightarrow> (newest_c c - int k) mod capacity_c c \<notin> S"
  shows "circ_ok c' \<and> abs_c c' = abs_c c \<and> state_c c' = state_c c"
proof -
  have s: "state_c c' = state_c c" "base_c c' = base_c c" "curr_c c' = curr_c c"
    "capacity_c c' = capacity_c c" "length (entries_c c') = length (entries_c c)"
    and at': "ts_ce (at_c c' i) = ts_ce (at_c c i)" "ptr_ce (at_c c' i) = ptr_ce (at_c c i)"
      "i mod capacity_c c \<notin> S \<Longrightarrow> at_c c' i = at_c c i" for i
    by (rule remarkedD [OF r], assumption?)+
  have n: "newest_c c' = newest_c c" "count_c c' = count_c c" using s by (simp_all add: newest_c_def count_c_def)
  have "abs_c c' = abs_c c" by (simp add: abs_c_def n entry_c_def at')
  moreover have "\<not> marked_ce (at_c c' (newest_c c' - int k))" if "k < count_c c'" for k
    using that out at'(3) circ_okD(8) [OF ok] n by simp
  then have "circ_ok c'" using circ_okD(1-7) [OF ok] s by (auto simp: circ_ok_def)
  ultimately show ?thesis using s by simp
qed

text \<open>Moving the base up to the \<open>j\<close>-th newest entry.\<close>

lemma set_base_c:
  assumes ok: "circ_ok c" and j: "j < count_c c"
  defines "c' \<equiv> c\<lparr>base_c := (newest_c c - int j) mod capacity_c c\<rparr>"
  shows "circ_ok c' \<and> abs_c c' = take (Suc j) (abs_c c) \<and> count_c c' = Suc j
    \<and> (newest_c c' - i) mod capacity_c c = (newest_c c - i) mod capacity_c c \<and> at_c c' i = at_c c i"
proof -
  note d = circ_okD [OF ok]
  have cu: "curr_c c \<noteq> -1" using j by (auto simp: count_c_def)
  note b = count_bounds [OF ok cu]
  have at': "at_c c' i = at_c c i" for i by (simp add: at_c_def c'_def)
  have r: "base_c c \<le> newest_c c - int j" using j b(3) by linarith
  have n: "newest_c c' - base_c c' = int j \<and> (newest_c c' = newest_c c \<or> newest_c c' = newest_c c - capacity_c c)"
  proof (cases "capacity_c c \<le> newest_c c - int j")
    case True
    then have w: "newest_c c = capacity_c c + curr_c c" using d by (auto simp: newest_c_def split: if_splits)
    have "(newest_c c - int j) mod capacity_c c = (curr_c c - int j) mod capacity_c c" unfolding w by (simp add: add_diff_eq [symmetric])
    also have "\<dots> = curr_c c - int j" using True w d by simp
    finally show ?thesis using w by (simp add: c'_def newest_c_def)
  next
    case False
    then have "(newest_c c - int j) mod capacity_c c = newest_c c - int j" using r d(3) by simp
    then show ?thesis using r d by (auto simp: c'_def newest_c_def split: if_splits)
  qed
  have m: "(newest_c c' - i) mod capacity_c c = (newest_c c - i) mod capacity_c c" for i
  proof (cases "newest_c c' = newest_c c")
    case False
    then have "newest_c c' - i = newest_c c - i - capacity_c c" using n by simp
    then show ?thesis by (simp only: minus_mod_self2)
  qed simp
  have ate: "at_c c (newest_c c' - i) = at_c c (newest_c c - i)" for i by (simp add: at_c_def m)
  have cnt: "count_c c' = Suc j" using n cu by (simp add: count_c_def) (simp add: c'_def)
  have a: "abs_c c' = take (Suc j) (abs_c c)"
    using j by (simp add: abs_c_def cnt take_map entry_c_def at' ate min_def del: upt_Suc)
  have "\<not> marked_ce (at_c c' (newest_c c' - int k))" if "k < count_c c'" for k
    using that j cnt d(8) [of k] by (simp add: at' ate)
  then have "circ_ok c'" using d cu by (auto simp: circ_ok_def c'_def)
  then show ?thesis using a cnt m at' by simp
qed

lemma apart_below:
  assumes "int j + int n < m" "i = x - int j - 1" "k \<le> j"
  shows "(x - int k) mod m \<notin> below m i n"
proof
  assume "(x - int k) mod m \<in> below m i n"
  then obtain l where l: "l < n" "(x - int k) mod m = (i - int l) mod m" by (auto simp: below_def)
  moreover have "(x - int k) mod m \<noteq> (i - int l) mod m" by (rule mod_apart) (use assms l(1) in linarith)+
  ultimately show False by simp
qed

lemma reclaim_down_correct:
  assumes ok: "circ_ok c" and b: "bundle_ok (abs_c c)" and m: "m \<le> count_c c"
    and young: "\<forall>k<m. ts < entry_ts (abs_c c ! k)"
  shows "\<exists>c'. reclaim_down_c (count_c c - m) (newest_c c - int m) ts False c = Inr c' \<and> circ_ok c'
    \<and> abs_c c' = keep_until ts (abs_c c) \<and> state_c c' = state_c c"
  using m young
proof (induction "count_c c - m" arbitrary: m)
  case 0
  have "length (abs_c c) = count_c c" by (simp add: abs_c_def)
  then have "keep_until ts (abs_c c) = abs_c c"
    using 0 by (intro keep_until_all) (auto simp: in_set_conv_nth)
  then show ?case using 0 ok by simp
next
  case (Suc n)
  have len: "length (abs_c c) = count_c c" by (simp add: abs_c_def)
  have ml: "m < count_c c" using Suc.hyps(2) by simp
  have nth: "abs_c c ! m = entry_c c (newest_c c - int m)" using ml by (simp add: abs_c_def)
  have pos: "0 < ts_ce (at_c c (newest_c c - int m))"
    using b ml len nth nth_mem [of m "abs_c c"] by (auto simp: bundle_ok_def timestamp_defs entry_c_def)
  have e: "newest_c c - int m - 1 = newest_c c - int (Suc m)" by simp
  have n: "count_c c - m = Suc n" "n = count_c c - Suc m" using Suc.hyps(2) by simp_all
  show ?case
  proof (cases "ts_ce (at_c c (newest_c c - int m)) \<le> ts")
    case False
    have "\<forall>k<Suc m. ts < entry_ts (abs_c c ! k)"
      using Suc.prems(2) False nth by (auto simp: less_Suc_eq entry_c_def)
    from Suc.hyps(1) [OF n(2) _ this] ml n(2) False show ?thesis
      unfolding n(1) by (simp add: e del: of_nat_Suc)
  next
    case True
    define c1 where "c1 = c\<lparr>base_c := (newest_c c - int m) mod capacity_c c\<rparr>"
    note sb = set_base_c [OF ok ml, folded c1_def]
    note d = circ_okD [OF ok]
    have cu: "curr_c c \<noteq> -1" using ml by (auto simp: count_c_def)
    note cb = count_bounds [OF ok cu]
    have cap: "capacity_c c1 = capacity_c c" by (simp add: c1_def)
    have cm: "count_c c1 = Suc m" using sb by simp
    have l1: "0 < capacity_c c1" "length (entries_c c1) = nat (capacity_c c1)" using d by (simp_all add: c1_def)
    have a1: "base_c c1 \<ge> 0" using d(1) by (simp add: c1_def)
    have "entries_c c1 ! nat (base_c c1) = at_c c (newest_c c - int m)" by (simp add: c1_def at_c_def)
    then have a2: "\<not> marked_ce (entries_c c1 ! nat (base_c c1))" using d(8) [OF ml] by simp
    obtain c2 where c2: "reclaim_down_c n (newest_c c - int m - 1) ts True c1 = Inr c2"
      "remarked (below (capacity_c c1) (newest_c c - int m - 1) n) c1 c2"
      using reclaim_down_remarked [OF l1] by blast
    have "(newest_c c1 - int k) mod capacity_c c1 \<notin> below (capacity_c c1) (newest_c c - int m - 1) n"
      if "k < count_c c1" for k
    proof -
      have "(newest_c c - int k) mod capacity_c c \<notin> below (capacity_c c) (newest_c c - int m - 1) n"
        by (rule apart_below [where j = m]) (use that cm cb n ml in linarith)+
      then show ?thesis using sb cap by metis
    qed
    from remarked_ok [OF conjunct1 [OF sb] c2(2) this] have r: "circ_ok c2" "abs_c c2 = take (Suc m) (abs_c c)"
      "state_c c2 = state_c c" using sb by (simp_all add: c1_def)
    have "keep_until ts (abs_c c) = take (Suc m) (abs_c c)"
      by (rule keep_until_take) (use ml len Suc.prems(2) True nth in \<open>auto simp: entry_c_def\<close>)
    moreover have "reclaim_down_c (Suc n) (newest_c c - int m) ts False c = Inr c2"
      using True pos a1 a2 c2(1) by (simp add: timestamp_defs Let_def c1_def [symmetric] require_True)
    ultimately show ?thesis using r n(1) by auto
  qed
qed

lemma free_word:
  fixes st :: "32 word"
  assumes "st AND (2 OR 4) = 0"
  shows "(st OR 4) AND NOT 2 \<noteq> 0" "(st OR 4) AND 4 \<noteq> 0" "(st OR 4) AND NOT 4 = st"
proof -
  have "(st AND (2 OR 4)) AND 4 = st AND ((2 OR 4) AND 4)" by (rule and.assoc)
  then have z: "st AND 4 = 0" using assms by simp
  have "(st OR 4) AND 4 = (st AND 4) OR (4 AND 4)" by (rule bit.conj_disj_distrib2)
  then have four: "(st OR 4) AND 4 = 4" using z by simp
  then show "(st OR 4) AND 4 \<noteq> 0" by simp
  have "((st OR 4) AND NOT 2) AND 4 = (st OR 4) AND (NOT 2 AND 4)" by (rule and.assoc)
  then have "((st OR 4) AND NOT 2) AND 4 = 4" using four by simp
  then show "(st OR 4) AND NOT 2 \<noteq> 0" by auto
  have "(st OR 4) AND NOT 4 = (st AND NOT 4) OR (4 AND NOT 4)" by (rule bit.conj_disj_distrib2)
  moreover have "st AND (4 OR NOT 4) = (st AND 4) OR (st AND NOT 4)" by (rule bit.conj_disj_distrib)
  ultimately show "(st OR 4) AND NOT 4 = st" using z by simp
qed

definition survivors :: "timestamp_t \<Rightarrow> 'p bundle_t \<Rightarrow> 'p bundle_t" where
  "survivors ts b = (if ts = BUNDLE_NULL_TIMESTAMP then take 1 b else keep_until ts b)"

lemma reclaimEntries_c_correct:
  assumes ok: "circ_ok c" and b: "bundle_ok (abs_c c)" and st: "state_c c AND (RESIZE_STATE OR RECLAIM_STATE) = 0"
  shows "\<exists>c'. reclaimEntries_c ts c = Inr c' \<and> circ_ok c' \<and> abs_c c' = survivors ts (abs_c c) \<and> state_c c' = state_c c"
proof -
  define c1 where "c1 = c\<lparr>state_c := state_c c OR RECLAIM_STATE\<rparr>"
  note w = free_word [OF st [unfolded state_defs]]
  have o1: "circ_ok c1" "abs_c c1 = abs_c c" "newest_c c1 = newest_c c" "count_c c1 = count_c c"
    "curr_c c1 = curr_c c" "base_c c1 = base_c c" "capacity_c c1 = capacity_c c" using ok by (simp_all add: c1_def)
  have wa: "state_c c1 AND NOT RESIZE_STATE \<noteq> 0" "state_c c1 AND RECLAIM_STATE \<noteq> 0" "state_c c1 AND NOT RECLAIM_STATE = state_c c"
    using w by (simp_all add: c1_def state_defs)
  have len: "length (abs_c c) = count_c c" by (simp add: abs_c_def)
  note d = circ_okD [OF ok]
  have "\<exists>c2. (if curr_c c1 = base_c c1 \<or> curr_c c1 = -1 then Inr c1
      else if ts = BUNDLE_NULL_TIMESTAMP
        then Inr (mark_down_c (nat (newest_c c1 - base_c c1)) (newest_c c1 - 1) (c1\<lparr>base_c := curr_c c1\<rparr>))
        else reclaim_down_c (nat (newest_c c1 - base_c c1 + 1)) (newest_c c1) ts False c1) = Inr c2
    \<and> circ_ok c2 \<and> abs_c c2 = survivors ts (abs_c c) \<and> state_c c2 = state_c c1"
  proof (cases "curr_c c = base_c c \<or> curr_c c = -1")
    case True
    then have "count_c c \<le> 1" by (auto simp: count_c_def newest_c_def)
    then have "abs_c c = [] \<or> (\<exists>e. abs_c c = [e])" using len by (cases "abs_c c"; cases "tl (abs_c c)") auto
    then have "survivors ts (abs_c c) = abs_c c" by (auto simp: survivors_def keep_until_def)
    then show ?thesis using True o1 by auto
  next
    case False
    then have cu: "curr_c c \<noteq> -1" by simp
    note cb = count_bounds [OF ok cu]
    show ?thesis
    proof (cases "ts = BUNDLE_NULL_TIMESTAMP")
      case True
      have pos: "0 < count_c c1" using cb o1(4) by simp
      have be: "c1\<lparr>base_c := (newest_c c1 - int 0) mod capacity_c c1\<rparr> = c1\<lparr>base_c := curr_c c1\<rparr>"
        using cb(4) o1 by simp
      define c2 where "c2 = c1\<lparr>base_c := curr_c c1\<rparr>"
      note sb = set_base_c [OF o1(1) pos, unfolded be, folded c2_def]
      have l2: "0 < capacity_c c2" "length (entries_c c2) = nat (capacity_c c2)" using d by (simp_all add: c2_def c1_def)
      have cap: "capacity_c c2 = capacity_c c" by (simp add: c2_def c1_def)
      have c1': "count_c c2 = 1" using sb by simp
      define c3 where "c3 = mark_down_c (nat (newest_c c1 - base_c c1)) (newest_c c1 - 1) c2"
      have rm: "remarked (below (capacity_c c2) (newest_c c1 - 1) (nat (newest_c c1 - base_c c1))) c2 c3"
        unfolding c3_def by (rule mark_down_remarked [OF l2])
      have "(newest_c c2 - int k) mod capacity_c c2 \<notin> below (capacity_c c2) (newest_c c1 - 1) (nat (newest_c c1 - base_c c1))"
        if "k < count_c c2" for k
      proof -
        have "(newest_c c - int k) mod capacity_c c \<notin> below (capacity_c c) (newest_c c - 1) (nat (newest_c c - base_c c))"
          by (rule apart_below [where j = 0]) (use that c1' cb in linarith)+
        then show ?thesis using sb cap o1 by metis
      qed
      from remarked_ok [OF conjunct1 [OF sb] rm this] have "circ_ok c3" "abs_c c3 = take 1 (abs_c c)" "state_c c3 = state_c c1"
        using sb o1(2) by (simp_all add: c2_def)
      then show ?thesis using True False o1 by (auto simp: c3_def c2_def survivors_def)
    next
      case nz: False
      have "nat (newest_c c1 - base_c c1 + 1) = count_c c1 - 0" using cb o1 cu by (simp add: count_c_def)
      then show ?thesis
        using reclaim_down_correct [of c1 0 ts] o1 b nz False by (auto simp: survivors_def)
    qed
  qed
  then obtain c2 where c2: "(if curr_c c1 = base_c c1 \<or> curr_c c1 = -1 then Inr c1
      else if ts = BUNDLE_NULL_TIMESTAMP
        then Inr (mark_down_c (nat (newest_c c1 - base_c c1)) (newest_c c1 - 1) (c1\<lparr>base_c := curr_c c1\<rparr>))
        else reclaim_down_c (nat (newest_c c1 - base_c c1 + 1)) (newest_c c1) ts False c1) = Inr c2"
    "circ_ok c2" "abs_c c2 = survivors ts (abs_c c)" "state_c c2 = state_c c1" by (elim exE conjE)
  have ne: "(if base_c c1 > curr_c c1 then capacity_c c1 + curr_c c1 else curr_c c1) = newest_c c1"
    by (simp add: newest_c_def)
  have "reclaimEntries_c ts c = Inr (c2\<lparr>state_c := state_c c2 AND NOT RECLAIM_STATE\<rparr>)"
    unfolding reclaimEntries_c_def Let_def c1_def [symmetric] ne using st wa(1,2)
    by (simp only: c2(1) obind.simps require_True simp_thms if_False)
  then show ?thesis using c2(2-4) wa(3) by auto
qed

section \<open>The circular bundle as a versioned cell\<close>

text \<open>A ring at rest: no update, resize, reclaimer or query is at work on it.\<close>

definition idle_c :: "'p circ \<Rightarrow> bool" where
  "idle_c c \<longleftrightarrow> circ_ok c \<and> state_c c = NORMAL_STATE \<and> bundle_ok (abs_c c)"

definition push_c :: "timestamp_t \<Rightarrow> 'p option \<Rightarrow> 'p circ \<Rightarrow> 'p circ" where
  "push_c ts p c = (case obind (prepare_c p c) (finalize_c ts) of Inl _ \<Rightarrow> c | Inr c' \<Rightarrow> c')"

definition reclaim_c :: "timestamp_t \<Rightarrow> 'p circ \<Rightarrow> 'p circ" where
  "reclaim_c ts c = (if 0 < ts then (case reclaimEntries_c ts c of Inl _ \<Rightarrow> c | Inr c' \<Rightarrow> c') else c)"

lemma push_c_abs:
  assumes "circ_ok c" "state_c c = NORMAL_STATE"
  shows "circ_ok (push_c ts p c) \<and> abs_c (push_c ts p c) = push_entry ts p (abs_c c) \<and> state_c (push_c ts p c) = NORMAL_STATE"
  using update_c_correct [OF assms(1), of p ts] assms(2) by (auto simp: push_c_def state_defs)

lemma reclaim_c_abs:
  assumes "circ_ok c" "state_c c = NORMAL_STATE" "bundle_ok (abs_c c)"
  shows "circ_ok (reclaim_c ts c) \<and> state_c (reclaim_c ts c) = NORMAL_STATE
    \<and> abs_c (reclaim_c ts c) = (if 0 < ts then keep_until ts (abs_c c) else abs_c c)"
  using reclaimEntries_c_correct [OF assms(1,3), of ts] assms(1,2)
  by (auto simp: reclaim_c_def state_defs survivors_def timestamp_defs)

interpretation cb: reclaimable_cell "\<lambda>t. 0 < t \<and> t < LLONG_MAX" idle_c "\<lambda>c. newest_ts (abs_c c)"
  "\<lambda>c. read_at (abs_c c)" push_c reclaim_c
  by unfold_locales
    (auto simp: idle_c_def push_c_abs reclaim_c_abs read_keep_until intro: bundle_ok_push bundle_ok_keep_until)

section \<open>Properties\<close>

definition demo_ring :: "nat circ" where
  "demo_ring = push_c 9 (Some 6) (push_c 8 (Some 5) (push_c 7 (Some 4) (push_c 5 (Some 3) (push_c 3 (Some 2) init_c))))"

lemma init_c_idle: "idle_c (init_c :: 'p circ)" "abs_c (init_c :: 'p circ) = []"
  by (simp_all add: idle_c_def init_c_def circ_ok_def count_c_def abs_c_def BUNDLE_INIT_CAPACITY_def)

lemma demo_ring_ok: "circ_ok demo_ring" "state_c demo_ring = NORMAL_STATE" "bundle_ok (abs_c demo_ring)"
    "abs_c demo_ring = [BundleEntry 9 (Some 6), BundleEntry 8 (Some 5), BundleEntry 7 (Some 4),
      BundleEntry 5 (Some 3), BundleEntry 3 (Some 2)]"
proof -
  have i: "circ_ok (init_c :: nat circ)" "state_c (init_c :: nat circ) = NORMAL_STATE" "abs_c (init_c :: nat circ) = []"
    using init_c_idle [where 'p = nat] by (simp_all add: idle_c_def)
  show "circ_ok demo_ring" "state_c demo_ring = NORMAL_STATE" and a: "abs_c demo_ring =
      [BundleEntry 9 (Some 6), BundleEntry 8 (Some 5), BundleEntry 7 (Some 4), BundleEntry 5 (Some 3), BundleEntry 3 (Some 2)]"
    by (simp_all add: demo_ring_def push_c_abs i push_entry_def)
  show "bundle_ok (abs_c demo_ring)" by (simp add: a LLONG_MAX_def)
qed

lemma demo_ring_full: "\<not> room_c demo_ring"
  by code_simp

text \<open>A sequence of clean-ups.\<close>

fun reclaims_c :: "timestamp_t list \<Rightarrow> 'p circ \<Rightarrow> 'p circ res" where
  "reclaims_c [] c = Inr c"
| "reclaims_c (t # ts) c = obind (reclaimEntries_c t c) (reclaims_c ts)"

lemma reclaims_c_fold:
  "idle_c c \<Longrightarrow> \<forall>t\<in>set ts. 0 < t \<Longrightarrow> reclaims_c ts c = Inr (fold reclaim_c ts c)"
proof (induction ts arbitrary: c)
  case (Cons t ts)
  have free: "state_c c AND (RESIZE_STATE OR RECLAIM_STATE) = 0" using Cons.prems by (simp add: idle_c_def state_defs)
  obtain c' where c': "reclaimEntries_c t c = Inr c'"
    using reclaimEntries_c_correct [OF _ _ free] Cons.prems by (auto simp: idle_c_def)
  moreover have "reclaim_c t c = c'" using c' Cons.prems by (simp add: reclaim_c_def)
  moreover have "idle_c (reclaim_c t c)" using Cons.prems by (intro cb.valid_reclaim) auto
  ultimately show ?case using Cons by simp
qed simp

text \<open>
  C22: Starting and ending a range query on a ring restores its state word exactly, whatever
  update or reclaimer is at work, as long as fewer than \<open>2 ^ 29 - 1\<close> queries are reading and
  no resize is under way; during a resize the query waits.
\<close>

theorem circ_rq_roundtrip:
  assumes "readers_c c < 2 ^ 29 - 1"
  shows "obind (start_rq_c c) end_rq_c = (if state_c c AND RESIZE_STATE = 0 then Inr c else Inl Blocked)"
  using start_end_c [OF _ assms] start_rq_resize [of c] by simp

theorem circ_rq_roundtrip_witness:
  "obind (start_rq_c (demo_ring\<lparr>state_c := 21\<rparr>)) end_rq_c = Inr (demo_ring\<lparr>state_c := 21\<rparr>)"
  using circ_rq_roundtrip [of "demo_ring\<lparr>state_c := 21\<rparr>"] by (simp add: readers_c_def RESIZE_STATE_def)

text \<open>
  C19: \<open>prepare\<close> and \<open>finalize\<close> together put the new entry in front of the ring's entries, also
  when the ring is full and is copied into one of twice the capacity; the state word is as
  before, the ring stays well formed, and no assertion fires.
\<close>

theorem circ_update_correct:
  assumes "circ_ok c" "state_c c AND PENDING_STATE = 0" "state_c c AND RESIZE_STATE = 0"
    "room_c c \<or> state_c c = NORMAL_STATE"
  shows "\<exists>c'. obind (prepare_c p c) (finalize_c ts) = Inr c' \<and> circ_ok c'
    \<and> abs_c c' = push_entry ts p (abs_c c) \<and> state_c c' = state_c c"
  using assms by (rule update_c_correct)

theorem circ_update_correct_witness:
  "\<not> room_c demo_ring \<and> (\<exists>c'. obind (prepare_c (Some 7) demo_ring) (finalize_c 12) = Inr c'
    \<and> circ_ok c' \<and> abs_c c' = [BundleEntry 12 (Some 7), BundleEntry 9 (Some 6), BundleEntry 8 (Some 5),
        BundleEntry 7 (Some 4), BundleEntry 5 (Some 3), BundleEntry 3 (Some 2)])"
  using circ_update_correct [OF demo_ring_ok(1), of "Some 7" 12] demo_ring_ok(2) demo_ring_full
  by (auto simp: demo_ring_ok(4) state_defs push_entry_def)

text \<open>
  C20: \<open>getPtrByTimestamp\<close> returns the pointer of the newest entry that is not younger than the
  query, and the null pointer when there is none, and leaves the ring as it was. It does so
  also while an update is pending: the query does not wait for the pending entry and returns the
  older one, even if the update is then finalized with a timestamp that the query should see.
\<close>

theorem circ_query_correct:
  assumes "circ_ok c" "state_c c AND PENDING_STATE = 0" "state_c c AND RESIZE_STATE = 0"
    "readers_c c < 2 ^ 29 - 1" "room_c c \<or> state_c c = NORMAL_STATE"
  shows "getPtrByTimestamp_c ts c = Inr (case read_at (abs_c c) ts of None \<Rightarrow> None | Some q \<Rightarrow> q, c)
    \<and> (\<exists>c'. prepare_c p c = Inr c' \<and>
         getPtrByTimestamp_c ts c' = Inr (case read_at (abs_c c) ts of None \<Rightarrow> None | Some q \<Rightarrow> q, c'))"
proof -
  obtain c1 where c1: "prepare_c p c = Inr c1" "circ_ok c1" "room_c c1" "abs_c c1 = abs_c c"
    "state_c c1 = state_c c OR PENDING_STATE"
    "ptr_ce (entries_c c1 ! nat ((curr_c c1 + 1) mod capacity_c c1)) = p"
    using prepare_c_correct [OF assms(1-3,5), of p] by (elim exE conjE)
  have "drop_bit 3 (state_c c OR 1) = drop_bit 3 (state_c c)" by simp
  then have "readers_c c1 < 2 ^ 29 - 1" using assms(4) by (simp add: readers_c_def c1(5) state_defs)
  moreover have "state_c c1 AND RESIZE_STATE = 0" using pending_word(2) assms(2,3) by (simp add: c1(5) state_defs)
  ultimately show ?thesis
    using getPtrByTimestamp_c_read [OF assms(1,3,4), of ts] getPtrByTimestamp_c_read [OF c1(2), of ts] c1(1,4) by simp
qed

theorem circ_query_correct_witness:
  "getPtrByTimestamp_c 6 demo_ring = Inr (Some 3, demo_ring) \<and> (\<exists>c'. prepare_c (Some 7) demo_ring = Inr c')"
  using circ_query_correct [OF demo_ring_ok(1), of 6 "Some 7"] demo_ring_ok(2)
  by (auto simp: demo_ring_ok(4) state_defs readers_c_def)

text \<open>
  C21: After any sequence of clean-ups at times that are not null, every query not older than these
  times reads from the ring what it read before; a clean-up with the null timestamp keeps
  exactly the newest entry. The ring is again at rest, and no assertion fires.
\<close>

theorem circ_reclaim_safe:
  assumes "idle_c c" "\<forall>t\<in>set ts. 0 < t \<and> t \<le> u"
  shows "(\<exists>c'. reclaims_c ts c = Inr c' \<and> idle_c c' \<and> read_at (abs_c c') u = read_at (abs_c c) u)
    \<and> (\<exists>c'. reclaimEntries_c BUNDLE_NULL_TIMESTAMP c = Inr c' \<and> idle_c c' \<and> abs_c c' = take 1 (abs_c c))"
proof
  have "reclaims_c ts c = Inr (fold reclaim_c ts c)" using assms by (intro reclaims_c_fold) auto
  then show "\<exists>c'. reclaims_c ts c = Inr c' \<and> idle_c c' \<and> read_at (abs_c c') u = read_at (abs_c c) u"
    using cb.read_reclaims [of c ts u] assms by auto
  have i: "circ_ok c" "state_c c = NORMAL_STATE" "bundle_ok (abs_c c)" using assms(1) by (simp_all add: idle_c_def)
  have b: "bundle_ok (take 1 (abs_c c))" using i(3) by (cases "abs_c c") auto
  show "\<exists>c'. reclaimEntries_c BUNDLE_NULL_TIMESTAMP c = Inr c' \<and> idle_c c' \<and> abs_c c' = take 1 (abs_c c)"
    using reclaimEntries_c_correct [OF i(1,3), of BUNDLE_NULL_TIMESTAMP] i(2) b
    by (auto simp: idle_c_def state_defs survivors_def)
qed

theorem circ_reclaim_safe_witness:
  "\<exists>c'. reclaims_c [5, 7] demo_ring = Inr c' \<and> read_at (abs_c c') 8 = Some (Some 5)"
  using circ_reclaim_safe [of demo_ring "[5, 7]" 8] by (auto simp: idle_c_def demo_ring_ok LLONG_MAX_def simp del: reclaims_c.simps)

end
