(* ===== verification/Urcu.thy ===== *)
theory Urcu
  imports Prelude "HOL-Library.Word"
begin

text \<open>
  The user-level RCU of \<open>citrus/urcu_impl.h\<close> (the default build, without \<open>RCU_USE_TSC\<close>): every
  thread has a counter that is even exactly while the thread is inside a read-side critical
  section, and \<open>synchronize\<close> waits until each counter that was even has moved on. The calls are
  given as functions of the table, and once more as an interleaving of single accesses, for
  which the grace period is proved.
\<close>

unbundle bit_operations_syntax

section \<open>The calls\<close>

type_synonym urcu_table = "nat \<Rightarrow> 64 word"

definition init_u :: urcu_table where
  "init_u = (\<lambda>_. 1)"

definition readLock_u :: "nat \<Rightarrow> urcu_table \<Rightarrow> urcu_table" where
  "readLock_u i tbl = tbl(i := tbl i + 1)"

definition readUnlock_u :: "nat \<Rightarrow> urcu_table \<Rightarrow> urcu_table" where
  "readUnlock_u i tbl = tbl(i := tbl i OR 1)"

text \<open>The test that ends the wait for one thread, whose counter was \<open>old\<close> and is \<open>t\<close>.\<close>

definition passed_u :: "64 word \<Rightarrow> 64 word \<Rightarrow> bool" where
  "passed_u old t \<longleftrightarrow> old AND 1 \<noteq> 0 \<or> t AND 1 \<noteq> 0 \<or> t > old"

text \<open>\<open>synchronize\<close> while no other thread moves: it waits for any thread that is inside.\<close>

definition synchronize_u :: "nat \<Rightarrow> urcu_table \<Rightarrow> unit res" where
  "synchronize_u threads tbl =
     (if list_all (\<lambda>i. passed_u (tbl i) (tbl i)) [0..<threads] then Inr () else Inl Blocked)"

definition quiet_u :: "nat \<Rightarrow> urcu_table \<Rightarrow> bool" where
  "quiet_u threads tbl \<longleftrightarrow> (\<forall>i<threads. tbl i AND 1 \<noteq> 0)"

lemma odd_or_one: "(w OR 1 :: 64 word) AND 1 \<noteq> 0"
proof -
  have "(w OR 1) AND 1 = 1" by (simp add: word_ao_absorbs)
  then show ?thesis by simp
qed

lemma odd_step: "(w :: 64 word) AND 1 \<noteq> 0 \<Longrightarrow> (w + 1) AND 1 = 0"
  by (metis and_one_eq even_add even_iff_mod_2_eq_zero odd_one)

lemma synchronize_quiet: "quiet_u threads tbl \<Longrightarrow> synchronize_u threads tbl = Inr ()"
  by (simp add: quiet_u_def synchronize_u_def passed_u_def list_all_iff)

lemma synchronize_waits: "i < threads \<Longrightarrow> tbl i AND 1 = 0 \<Longrightarrow> synchronize_u threads tbl = Inl Blocked"
  by (auto simp: synchronize_u_def passed_u_def list_all_iff)

lemma read_section_quiet: "quiet_u threads tbl \<Longrightarrow> quiet_u threads (readUnlock_u i (readLock_u i tbl))"
  by (simp add: quiet_u_def readUnlock_u_def readLock_u_def odd_or_one)

section \<open>The protocol step by step\<close>

text \<open>
  Where the synchronizing thread is: outside, copying the counter of a thread, or waiting for
  a thread. \<open>old\<close> is a history variable: the readers that were inside when the call started
  and have not left since.
\<close>

datatype sync_pc = Outside | Copying nat | Waiting nat | Returned

record urcu_state =
  table_u :: urcu_table
  inside_u :: "nat \<Rightarrow> bool"
  times_u :: "nat \<Rightarrow> 64 word"
  pc_u :: sync_pc
  old_u :: "nat \<Rightarrow> bool"

definition urcu_start :: urcu_state where
  "urcu_start = \<lparr>table_u = init_u, inside_u = (\<lambda>_. False), times_u = (\<lambda>_. 0), pc_u = Outside,
     old_u = (\<lambda>_. False)\<rparr>"

inductive urcu_step :: "nat \<Rightarrow> urcu_state \<Rightarrow> urcu_state \<Rightarrow> bool" for threads where
  enter: "i < threads \<Longrightarrow> \<not> inside_u s i \<Longrightarrow>
    urcu_step threads s (s\<lparr>table_u := readLock_u i (table_u s), inside_u := (inside_u s)(i := True)\<rparr>)"
| leave: "i < threads \<Longrightarrow> inside_u s i \<Longrightarrow>
    urcu_step threads s (s\<lparr>table_u := readUnlock_u i (table_u s), inside_u := (inside_u s)(i := False),
      old_u := (old_u s)(i := False)\<rparr>)"
| begin_sync: "pc_u s = Outside \<or> pc_u s = Returned \<Longrightarrow>
    urcu_step threads s (s\<lparr>pc_u := Copying 0, old_u := inside_u s\<rparr>)"
| copy: "pc_u s = Copying i \<Longrightarrow> i < threads \<Longrightarrow>
    urcu_step threads s (s\<lparr>times_u := (times_u s)(i := table_u s i), pc_u := Copying (Suc i)\<rparr>)"
| copied: "pc_u s = Copying threads \<Longrightarrow> urcu_step threads s (s\<lparr>pc_u := Waiting 0\<rparr>)"
| wait_over: "pc_u s = Waiting i \<Longrightarrow> i < threads \<Longrightarrow> passed_u (times_u s i) (table_u s i) \<Longrightarrow>
    urcu_step threads s (s\<lparr>pc_u := Waiting (Suc i)\<rparr>)"
| return: "pc_u s = Waiting threads \<Longrightarrow> urcu_step threads s (s\<lparr>pc_u := Returned\<rparr>)"

abbreviation urcu_reach :: "nat \<Rightarrow> urcu_state \<Rightarrow> urcu_state \<Rightarrow> bool" where
  "urcu_reach threads \<equiv> (urcu_step threads)\<^sup>*\<^sup>*"

definition urcu_inv :: "nat \<Rightarrow> urcu_state \<Rightarrow> bool" where
  "urcu_inv threads s \<longleftrightarrow> (\<forall>i. inside_u s i \<longleftrightarrow> table_u s i AND 1 = 0) \<and> (\<forall>i. old_u s i \<longrightarrow> inside_u s i)
     \<and> (\<forall>i. inside_u s i \<longrightarrow> i < threads)
     \<and> (case pc_u s of Outside \<Rightarrow> True
        | Copying k \<Rightarrow> \<forall>i<k. old_u s i \<longrightarrow> times_u s i = table_u s i
        | Waiting k \<Rightarrow> \<forall>i<threads. old_u s i \<longrightarrow> times_u s i = table_u s i \<and> k \<le> i
        | Returned \<Rightarrow> \<forall>i. \<not> old_u s i)"

lemma urcu_inv_start: "urcu_inv threads urcu_start"
  by (simp add: urcu_inv_def urcu_start_def init_u_def)

lemma urcu_inv_step:
  assumes "urcu_inv threads s" "urcu_step threads s s'"
  shows "urcu_inv threads s'"
  using assms(2)
proof cases
  case (enter i)
  then have "\<not> old_u s i" "table_u s i AND 1 \<noteq> 0" using assms(1) by (auto simp: urcu_inv_def)
  then show ?thesis using assms(1) enter odd_step
    by (auto simp: urcu_inv_def readLock_u_def split: sync_pc.splits)
next
  case (leave i)
  then show ?thesis using assms(1) by (auto simp: urcu_inv_def readUnlock_u_def odd_or_one split: sync_pc.splits)
next
  case begin_sync
  then show ?thesis using assms(1) by (auto simp: urcu_inv_def)
next
  case (copy i)
  then show ?thesis using assms(1) by (auto simp: urcu_inv_def less_Suc_eq)
next
  case copied
  then show ?thesis using assms(1) by (auto simp: urcu_inv_def)
next
  case (wait_over i)
  have "\<not> old_u s i"
  proof
    assume "old_u s i"
    then have "times_u s i = table_u s i" "table_u s i AND 1 = 0" using assms(1) wait_over by (auto simp: urcu_inv_def)
    then show False using wait_over by (simp add: passed_u_def)
  qed
  then show ?thesis using assms(1) wait_over by (auto simp: urcu_inv_def Suc_le_eq le_less)
next
  case return
  then show ?thesis using assms(1) by (force simp: urcu_inv_def)
qed

lemma urcu_inv_reach: "urcu_reach threads urcu_start s \<Longrightarrow> urcu_inv threads s"
  by (induction rule: rtranclp_induct) (auto intro: urcu_inv_start urcu_inv_step)

text \<open>
  C32: The grace period of \<open>synchronize\<close>: in every interleaving of readers entering and leaving
  with the single accesses of the call, when the call has returned every reader that was inside a
  read-side critical section when it started has left it at least once. Nothing is assumed
  about overflow of the counters: a wrapped counter can only make the call wait longer.
\<close>

theorem urcu_grace_period:
  assumes "urcu_reach threads urcu_start s" "pc_u s = Returned"
  shows "\<not> old_u s i"
  using urcu_inv_reach [OF assms(1)] assms(2) by (simp add: urcu_inv_def)

theorem urcu_grace_period_witness:
  "\<exists>s. urcu_reach 1 urcu_start s \<and> pc_u s = Returned \<and> \<not> old_u s 0 \<and> inside_u s 0"
proof -
  define s1 where "s1 = urcu_start\<lparr>table_u := readLock_u 0 (table_u urcu_start), inside_u := (inside_u urcu_start)(0 := True)\<rparr>"
  define s2 where "s2 = s1\<lparr>pc_u := Copying 0, old_u := inside_u s1\<rparr>"
  define s3 where "s3 = s2\<lparr>times_u := (times_u s2)(0 := table_u s2 0), pc_u := Copying (Suc 0)\<rparr>"
  define s4 where "s4 = s3\<lparr>pc_u := Waiting 0\<rparr>"
  define s5 where "s5 = s4\<lparr>table_u := readUnlock_u 0 (table_u s4), inside_u := (inside_u s4)(0 := False),
      old_u := (old_u s4)(0 := False)\<rparr>"
  define s6 where "s6 = s5\<lparr>table_u := readLock_u 0 (table_u s5), inside_u := (inside_u s5)(0 := True)\<rparr>"
  define s7 where "s7 = s6\<lparr>pc_u := Waiting (Suc 0)\<rparr>"
  define s8 where "s8 = s7\<lparr>pc_u := Returned\<rparr>"
  note defs = s2_def s3_def s4_def s5_def s6_def s7_def s8_def
  have "urcu_step 1 urcu_start s1" unfolding s1_def by (rule enter) (simp_all add: urcu_start_def)
  moreover have "urcu_step 1 s1 s2" unfolding s2_def by (rule begin_sync) (simp add: s1_def urcu_start_def)
  moreover have "urcu_step 1 s2 s3" unfolding s3_def by (rule copy) (simp_all add: s2_def)
  moreover have "urcu_step 1 s3 s4" unfolding s4_def by (rule copied) (simp add: s3_def)
  moreover have "urcu_step 1 s4 s5" unfolding s5_def by (rule leave) (simp_all add: s4_def s3_def s2_def s1_def)
  moreover have "urcu_step 1 s5 s6" unfolding s6_def by (rule enter) (simp_all add: s5_def)
  moreover have "urcu_step 1 s6 s7" unfolding s7_def
    by (rule wait_over) (simp_all add: defs s1_def urcu_start_def init_u_def readLock_u_def readUnlock_u_def passed_u_def)
  moreover have "urcu_step 1 s7 s8" unfolding s8_def by (rule return) (simp add: s7_def)
  ultimately have r: "urcu_reach 1 urcu_start s8" by (meson converse_rtranclp_into_rtranclp rtranclp.rtrancl_refl)
  have p: "pc_u s8 = Returned" by (simp add: s8_def)
  have "inside_u s8 0" by (simp add: s8_def s7_def s6_def)
  then show ?thesis using r p urcu_grace_period [OF r p, of 0] by blast
qed

end
