(* ===== verification/Block_Bag.thy ===== *)
theory Block_Bag
  imports Prelude "HOL-Library.Multiset"
begin

text \<open>
  The blocks of \<open>recordmgr/blockbag.h\<close> (bounded stacks, which the tree traversals also use),
  the pool of \<open>recordmgr/blockpool.h\<close> they come from, and the bags made of a chain of blocks
  with their iterator. A block has an identity, its address; the \<open>next\<close> pointers of a bag are
  the order of its list of blocks, head first, and \<open>tail\<close> is an identity. The array of a block
  is a function of the index, of which only the first \<open>BLOCK_SIZE\<close> are ever used.
\<close>

section \<open>Blocks\<close>

definition BLOCK_SIZE :: nat where
  "BLOCK_SIZE = 2 ^ 8"

record 'a block =
  bid :: nat
  data_b :: "nat \<Rightarrow> 'a"
  size_b :: nat

definition isFull_b :: "'a block \<Rightarrow> bool" where
  "isFull_b b \<longleftrightarrow> size_b b = BLOCK_SIZE"

definition isEmpty_b :: "'a block \<Rightarrow> bool" where
  "isEmpty_b b \<longleftrightarrow> size_b b = 0"

definition push_b :: "'a \<Rightarrow> 'a block \<Rightarrow> 'a block res" where
  "push_b obj b = obind (require AssertFail (size_b b < BLOCK_SIZE)) (\<lambda>_.
     (let sz = size_b b in Inr (b\<lparr>data_b := (data_b b)(size_b b := obj), size_b := sz + 1\<rparr>)))"

definition pop_b :: "'a block \<Rightarrow> ('a \<times> 'a block) res" where
  "pop_b b = obind (require AssertFail (size_b b > 0)) (\<lambda>_.
     (let sz = size_b b - 1 in Inr (data_b b sz, b\<lparr>size_b := sz\<rparr>)))"

definition peek_b :: "'a block \<Rightarrow> nat \<Rightarrow> 'a res" where
  "peek_b b ix = (if ix < BLOCK_SIZE then Inr (data_b b ix) else Inl OutOfBounds)"

definition computeSize_b :: "'a block \<Rightarrow> nat" where
  "computeSize_b b = size_b b"

definition contains_b :: "'a block \<Rightarrow> 'a \<Rightarrow> bool" where
  "contains_b b obj \<longleftrightarrow> list_ex (\<lambda>i. data_b b i = obj) [0..<size_b b]"

text \<open>\<open>erase\<close> of an object: the last item, or the first other place that holds it.\<close>

definition erase_obj_b :: "'a \<Rightarrow> 'a block \<Rightarrow> 'a block" where
  "erase_obj_b obj b =
     (if size_b b = 0 then b
      else if data_b b (size_b b - 1) = obj then b\<lparr>size_b := size_b b - 1\<rparr>
      else (case find (\<lambda>i. data_b b i = obj) [0..<size_b b - 1] of
          None \<Rightarrow> b
        | Some i \<Rightarrow> b\<lparr>data_b := (data_b b)(i := data_b b (size_b b - 1)), size_b := size_b b - 1\<rparr>))"

definition erase_ix_b :: "nat \<Rightarrow> 'a block \<Rightarrow> 'a block" where
  "erase_ix_b ix b =
     (if size_b b \<noteq> 0
      then (let b1 = (if ix \<noteq> size_b b - 1 then b\<lparr>data_b := (data_b b)(ix := data_b b (size_b b - 1))\<rparr> else b)
            in b1\<lparr>size_b := size_b b1 - 1\<rparr>)
      else b)"

text \<open>The type of the objects has no null pointer, so the \<open>assert(obj)\<close> of \<open>replace\<close> always holds.\<close>

definition replace_b :: "nat \<Rightarrow> 'a \<Rightarrow> 'a block \<Rightarrow> 'a block res" where
  "replace_b ix obj b = obind (require AssertFail (ix < size_b b)) (\<lambda>_.
     Inr (b\<lparr>data_b := (data_b b)(ix := obj)\<rparr>))"

definition clear_b :: "'a block \<Rightarrow> 'a block" where
  "clear_b b = b\<lparr>size_b := 0\<rparr>"

section \<open>The pool\<close>

text \<open>The array of free blocks, top of the stack first, and the next address of the allocator.\<close>

definition MAX_BLOCK_POOL_SIZE :: nat where
  "MAX_BLOCK_POOL_SIZE = 32"

record 'a pool =
  free_p :: "'a block list"
  fresh_p :: nat

definition blockpool :: "nat \<Rightarrow> 'a pool" where
  "blockpool first_id = \<lparr>free_p = [], fresh_p = first_id\<rparr>"

text \<open>A new block has indeterminate contents: \<open>junk\<close>.\<close>

definition allocateBlock :: "(nat \<Rightarrow> 'a) \<Rightarrow> 'a pool \<Rightarrow> 'a block \<times> 'a pool" where
  "allocateBlock junk p = (case free_p p of
       result # rest \<Rightarrow> (\<lparr>bid = bid result, data_b = junk, size_b = 0\<rparr>, p\<lparr>free_p := rest\<rparr>)
     | [] \<Rightarrow> (\<lparr>bid = fresh_p p, data_b = junk, size_b = 0\<rparr>, p\<lparr>fresh_p := fresh_p p + 1\<rparr>))"

definition deallocateBlock :: "'a block \<Rightarrow> 'a pool \<Rightarrow> 'a pool res" where
  "deallocateBlock b p = obind (require AssertFail (isEmpty_b b)) (\<lambda>_.
     if length (free_p p) = MAX_BLOCK_POOL_SIZE then Inr p
     else Inr (p\<lparr>free_p := b # free_p p\<rparr>))"

section \<open>Bags\<close>

record 'a bag =
  owner :: int
  reclaimCount :: int
  sizeInBlocks :: int
  chain_g :: "'a block list"
  tail_g :: nat

definition blockbag :: "(nat \<Rightarrow> 'a) \<Rightarrow> int \<Rightarrow> 'a pool \<Rightarrow> 'a bag \<times> 'a pool" where
  "blockbag junk tid p = (let (b, p') = allocateBlock junk p in
     (\<lparr>owner = tid, reclaimCount = 0, sizeInBlocks = 1, chain_g = [b], tail_g = bid b\<rparr>, p'))"

definition computeSizeInBlocks :: "'a bag \<Rightarrow> int" where
  "computeSizeInBlocks g = int (length (chain_g g))"

definition incrementReclaimCount :: "'a bag \<Rightarrow> 'a bag" where
  "incrementReclaimCount g = g\<lparr>reclaimCount := reclaimCount g + 1\<rparr>"

text \<open>\<open>validate\<close>, as the conjunction of its assertions.\<close>

definition validate_g :: "'a bag \<Rightarrow> bool" where
  "validate_g g \<longleftrightarrow> chain_g g \<noteq> [] \<and> \<not> isFull_b (hd (chain_g g)) \<and> list_all isFull_b (tl (chain_g g))
     \<and> sizeInBlocks g = computeSizeInBlocks g"

fun deallocate_all :: "'a block list \<Rightarrow> 'a pool \<Rightarrow> 'a pool res" where
  "deallocate_all [] p = Inr p"
| "deallocate_all (b # bs) p = obind (deallocateBlock b p) (deallocate_all bs)"

definition isEmpty_g :: "'a bag \<Rightarrow> bool res" where
  "isEmpty_g g = (case chain_g g of [] \<Rightarrow> Inl NullDeref
     | head # rest \<Rightarrow> Inr (rest = [] \<and> isEmpty_b head))"

definition destroy_bag :: "'a bag \<Rightarrow> 'a pool \<Rightarrow> 'a pool res" where
  "destroy_bag g p = obind (isEmpty_g g) (\<lambda>e. obind (require AssertFail e) (\<lambda>_. deallocate_all (chain_g g) p))"

text \<open>The common part of the two \<open>add\<close> operations: push, and prepend a block when the head is full.\<close>

definition add_g :: "(nat \<Rightarrow> 'a) \<Rightarrow> 'a \<Rightarrow> 'a bag \<Rightarrow> 'a pool \<Rightarrow> ('a bag \<times> 'a pool) res" where
  "add_g junk obj g p = (case chain_g g of [] \<Rightarrow> Inl NullDeref
     | head # rest \<Rightarrow> obind (push_b obj head) (\<lambda>head'.
         if isFull_b head'
         then (let (newblock, p') = allocateBlock junk p
               in Inr (g\<lparr>sizeInBlocks := sizeInBlocks g + 1, chain_g := newblock # head' # rest\<rparr>, p'))
         else Inr (g\<lparr>chain_g := head' # rest\<rparr>, p)))"

text \<open>\<open>removeFullBlock\<close>: the second block, if there are at least two full ones.\<close>

definition removeFullBlock :: "'a bag \<Rightarrow> ('a block option \<times> 'a bag) res" where
  "removeFullBlock g = (case chain_g g of [] \<Rightarrow> Inl NullDeref
     | [head] \<Rightarrow> Inr (None, g)
     | [head, second] \<Rightarrow> Inr (None, g)
     | head # second # third # rest \<Rightarrow>
         obind (require AssertFail (computeSize_b second = BLOCK_SIZE)) (\<lambda>_.
           Inr (Some second, g\<lparr>chain_g := head # third # rest, sizeInBlocks := sizeInBlocks g - 1\<rparr>)))"

text \<open>
  The \<open>add\<close> of an allocator's pool, which hands a full block to the shared bag beyond a
  threshold. The shared bag is a stack of blocks (\<open>addBlock\<close> and \<open>getBlock\<close> of
  \<open>recordmgr/lockfreeblockbag.h\<close> push and pop it atomically).
\<close>

definition add_shared_g ::
    "(nat \<Rightarrow> 'a) \<Rightarrow> 'a \<Rightarrow> 'a block list \<Rightarrow> int \<Rightarrow> 'a bag \<Rightarrow> 'a pool \<Rightarrow> ('a bag \<times> 'a pool \<times> 'a block list) res"
where
  "add_shared_g junk obj sharedBag thresh g p =
     obind (add_g junk obj g p) (\<lambda>(g1, p1).
       if length (chain_g g1) \<noteq> length (chain_g g) \<and> sizeInBlocks g1 > thresh
       then obind (removeFullBlock g1) (\<lambda>(b, g2). case b of
           None \<Rightarrow> Inl AssertFail
         | Some blk \<Rightarrow> Inr (g2, p1, blk # sharedBag))
       else Inr (g1, p1, sharedBag))"

text \<open>\<open>erase(curr, ix)\<close>: the block is given by its address.\<close>

fun replace_in :: "nat \<Rightarrow> nat \<Rightarrow> 'a \<Rightarrow> 'a block list \<Rightarrow> 'a block list res" where
  "replace_in i ix obj [] = Inl Dangling"
| "replace_in i ix obj (b # bs) = (if bid b = i then obind (replace_b ix obj b) (\<lambda>b'. Inr (b' # bs))
     else obind (replace_in i ix obj bs) (\<lambda>bs'. Inr (b # bs')))"

definition erase_g :: "nat \<Rightarrow> nat \<Rightarrow> 'a bag \<Rightarrow> 'a pool \<Rightarrow> (bool \<times> 'a bag \<times> 'a pool) res" where
  "erase_g cur ix g p =
     obind (isEmpty_g g) (\<lambda>e. obind (require AssertFail (\<not> e)) (\<lambda>_.
     obind (if isEmpty_b (hd (chain_g g))
            then obind (require AssertFail (cur \<noteq> bid (hd (chain_g g)))) (\<lambda>_.
              obind (deallocateBlock (hd (chain_g g)) p) (\<lambda>p'.
                Inr (g\<lparr>chain_g := tl (chain_g g), sizeInBlocks := sizeInBlocks g - 1\<rparr>, p')))
            else Inr (g, p)) (\<lambda>(g1, p1). case chain_g g1 of [] \<Rightarrow> Inl NullDeref
       | head # rest \<Rightarrow> obind (require AssertFail (\<not> isEmpty_b head)) (\<lambda>_.
           if cur = bid head then Inr (False, g1\<lparr>chain_g := erase_ix_b ix head # rest\<rparr>, p1)
           else obind (pop_b head) (\<lambda>(obj, head'). obind (replace_in cur ix obj rest) (\<lambda>rest'.
             Inr (True, g1\<lparr>chain_g := head' # rest'\<rparr>, p1)))))))"

definition remove_g :: "'a bag \<Rightarrow> 'a pool \<Rightarrow> ('a \<times> 'a bag \<times> 'a pool) res" where
  "remove_g g p =
     obind (isEmpty_g g) (\<lambda>e. obind (require AssertFail (\<not> e)) (\<lambda>_. case chain_g g of [] \<Rightarrow> Inl NullDeref
       | head # rest \<Rightarrow>
           if isEmpty_b head
           then (case rest of [] \<Rightarrow> Inl NullDeref
             | second # rest' \<Rightarrow> obind (pop_b second) (\<lambda>(result, second').
                 obind (deallocateBlock head p) (\<lambda>p'.
                   Inr (result, g\<lparr>chain_g := second' # rest', sizeInBlocks := sizeInBlocks g - 1\<rparr>, p'))))
           else obind (pop_b head) (\<lambda>(result, head'). Inr (result, g\<lparr>chain_g := head' # rest\<rparr>, p))))"

text \<open>\<open>tail->next = bs\<close> and \<open>tail = new tail\<close>; blocks behind the old tail would be lost.\<close>

definition link_tail :: "'a block list \<Rightarrow> nat \<Rightarrow> 'a bag \<Rightarrow> 'a bag" where
  "link_tail bs new_tail g =
     g\<lparr>chain_g := takeWhile (\<lambda>b. bid b \<noteq> tail_g g) (chain_g g)
         @ take 1 (dropWhile (\<lambda>b. bid b \<noteq> tail_g g) (chain_g g)) @ bs,
       tail_g := new_tail\<rparr>"

definition addFullBlock :: "'a block \<Rightarrow> 'a bag \<Rightarrow> 'a bag res" where
  "addFullBlock b g = obind (require AssertFail (computeSize_b b = BLOCK_SIZE)) (\<lambda>_.
     (let g1 = link_tail [b] (bid b) g in Inr (g1\<lparr>sizeInBlocks := sizeInBlocks g1 + 1\<rparr>)))"

text \<open>
  The allocator's \<open>remove\<close>: when its own bag is empty it takes a block from the shared bag or
  allocates a block's worth of objects, \<open>objs\<close>.
\<close>

fun add_all :: "(nat \<Rightarrow> 'a) \<Rightarrow> 'a list \<Rightarrow> 'a bag \<Rightarrow> 'a pool \<Rightarrow> ('a bag \<times> 'a pool) res" where
  "add_all junk [] g p = Inr (g, p)"
| "add_all junk (x # xs) g p = obind (add_g junk x g p) (\<lambda>(g', p'). add_all junk xs g' p')"

definition remove_shared_g ::
    "(nat \<Rightarrow> 'a) \<Rightarrow> 'a list \<Rightarrow> 'a block list \<Rightarrow> 'a bag \<Rightarrow> 'a pool
      \<Rightarrow> ('a \<times> 'a bag \<times> 'a pool \<times> 'a block list) res"
where
  "remove_shared_g junk objs sharedBag g p = (case chain_g g of [] \<Rightarrow> Inl NullDeref
     | head # rest \<Rightarrow>
         if isEmpty_b head \<and> rest = []
         then (case sharedBag of
             b # sharedBag' \<Rightarrow> obind (addFullBlock b g) (\<lambda>g1. obind (remove_g g1 p) (\<lambda>(x, g2, p2).
               Inr (x, g2, p2, sharedBag')))
           | [] \<Rightarrow> obind (add_all junk objs g p) (\<lambda>(g1, p1). obind (require AssertFail (sizeInBlocks g1 > 1)) (\<lambda>_.
               obind (remove_g g1 p1) (\<lambda>(x, g2, p2). Inr (x, g2, p2, [])))))
         else obind (remove_g g p) (\<lambda>(x, g', p'). Inr (x, g', p', sharedBag)))"

text \<open>
  \<open>appendMoveFullBlocks\<close>: the blocks of the other bag behind \<open>predecessor\<close> (given by its
  address) move to the end of this one.
\<close>

definition upto_block :: "nat \<Rightarrow> 'a block list \<Rightarrow> 'a block list" where
  "upto_block i bs = takeWhile (\<lambda>b. bid b \<noteq> i) bs @ take 1 (dropWhile (\<lambda>b. bid b \<noteq> i) bs)"

definition after_block :: "nat \<Rightarrow> 'a block list \<Rightarrow> 'a block list" where
  "after_block i bs = tl (dropWhile (\<lambda>b. bid b \<noteq> i) bs)"

definition appendMoveFullBlocks_at :: "nat \<Rightarrow> 'a bag \<Rightarrow> 'a bag \<Rightarrow> ('a bag \<times> 'a bag) res" where
  "appendMoveFullBlocks_at predecessor other g =
     (if predecessor \<notin> bid ` set (chain_g other) then Inl Dangling
      else (let moved = after_block predecessor (chain_g other) in case moved of
          [] \<Rightarrow> Inr (g, other)
        | nxt # _ \<Rightarrow> obind (require AssertFail (isFull_b nxt)) (\<lambda>_.
            (let g1 = link_tail moved (tail_g other) g;
                 g2 = g1\<lparr>sizeInBlocks := computeSizeInBlocks g1\<rparr>;
                 o1 = other\<lparr>chain_g := upto_block predecessor (chain_g other), tail_g := predecessor\<rparr>;
                 o2 = o1\<lparr>sizeInBlocks := computeSizeInBlocks o1\<rparr>
             in Inr (g2, o2)))))"

definition appendMoveFullBlocks :: "'a bag \<Rightarrow> 'a bag \<Rightarrow> ('a bag \<times> 'a bag) res" where
  "appendMoveFullBlocks other g = (case chain_g other of [] \<Rightarrow> Inl AssertFail
     | head # _ \<Rightarrow> appendMoveFullBlocks_at (bid head) other g)"

text \<open>The loop of \<open>appendMoveAll\<close>, with fuel; both bags use the same pool.\<close>

fun move_rest :: "nat \<Rightarrow> (nat \<Rightarrow> 'a) \<Rightarrow> 'a bag \<Rightarrow> 'a bag \<Rightarrow> 'a pool \<Rightarrow> ('a bag \<times> 'a bag \<times> 'a pool) res" where
  "move_rest 0 junk other g p = Inl Timeout"
| "move_rest (Suc n) junk other g p = obind (isEmpty_g other) (\<lambda>e.
     if e then Inr (g, other, p)
     else obind (remove_g other p) (\<lambda>(x, other', p1). obind (add_g junk x g p1) (\<lambda>(g', p2).
       move_rest n junk other' g' p2)))"

definition appendMoveAll :: "nat \<Rightarrow> (nat \<Rightarrow> 'a) \<Rightarrow> 'a bag \<Rightarrow> 'a bag \<Rightarrow> 'a pool \<Rightarrow> ('a bag \<times> 'a bag \<times> 'a pool) res" where
  "appendMoveAll n junk other g p =
     obind (appendMoveFullBlocks other g) (\<lambda>(g1, o1). obind (move_rest n junk o1 g1 p) (\<lambda>(g2, o2, p2).
       Inr (g2\<lparr>sizeInBlocks := computeSizeInBlocks g2\<rparr>, o2, p2)))"

definition computeSize_g :: "'a bag \<Rightarrow> nat" where
  "computeSize_g g = sum_list (map computeSize_b (chain_g g))"

definition clearWithoutFreeingElements :: "'a bag \<Rightarrow> 'a pool \<Rightarrow> ('a bag \<times> 'a pool) res" where
  "clearWithoutFreeingElements g p = (case chain_g g of [] \<Rightarrow> Inl NullDeref
     | head # rest \<Rightarrow> obind (deallocate_all (map clear_b rest) p) (\<lambda>p'.
         Inr (g\<lparr>chain_g := [clear_b head], tail_g := bid head, sizeInBlocks := 1\<rparr>, p')))"

section \<open>The iterator\<close>

text \<open>\<open>curr\<close> as the chain that is left from it on (empty for the null pointer), and the index.\<close>

type_synonym 'a bag_iter = "'a block list \<times> int"

definition next_it :: "'a bag_iter \<Rightarrow> 'a bag_iter res" where
  "next_it it = (let (cs, ix) = it; ix' = ix - 1 in
     if ix' < 0
     then (case cs of [] \<Rightarrow> Inl NullDeref
       | cur # rest \<Rightarrow> Inr (rest, case rest of [] \<Rightarrow> -1 | b # _ \<Rightarrow> int (computeSize_b b) - 1))
     else Inr (cs, ix'))"

definition begin_it :: "'a bag \<Rightarrow> 'a bag_iter res" where
  "begin_it g = (case chain_g g of [] \<Rightarrow> Inr ([], -1)
     | head # _ \<Rightarrow> next_it (chain_g g, int (computeSize_b head)))"

definition end_it :: "'a bag_iter" where
  "end_it = ([], -1)"

definition deref_it :: "'a bag_iter \<Rightarrow> 'a res" where
  "deref_it it = (case fst it of [] \<Rightarrow> Inl NullDeref
     | cur # _ \<Rightarrow> if snd it \<ge> 0 then peek_b cur (nat (snd it)) else Inl AssertFail)"

text \<open>The items met by \<open>for (it = begin(); it != end(); it++)\<close>, with fuel.\<close>

fun iterate_it :: "nat \<Rightarrow> 'a bag_iter \<Rightarrow> 'a list res" where
  "iterate_it 0 it = Inl Timeout"
| "iterate_it (Suc n) it = (if fst it = [] \<and> snd it = -1 then Inr []
     else obind (deref_it it) (\<lambda>x. obind (next_it it) (\<lambda>it'. obind (iterate_it n it') (\<lambda>xs. Inr (x # xs)))))"

text \<open>
  \<open>swap\<close> with another place of the bag, and \<open>erase\<close> of the current item, which goes on to
  the next item unless the place has been refilled.
\<close>

definition swap_it :: "'a bag_iter \<Rightarrow> nat \<Rightarrow> nat \<Rightarrow> 'a bag \<Rightarrow> 'a bag res" where
  "swap_it it otherCurr otherIx g =
     (case (fst it, dropWhile (\<lambda>b. bid b \<noteq> otherCurr) (chain_g g)) of
         (cur # _, other # _) \<Rightarrow> obind (peek_b other otherIx) (\<lambda>temp. obind (deref_it it) (\<lambda>x.
           obind (replace_in otherCurr otherIx x (chain_g g)) (\<lambda>bs.
           obind (replace_in (bid cur) (nat (snd it)) temp bs) (\<lambda>bs'. Inr (g\<lparr>chain_g := bs'\<rparr>)))))
       | _ \<Rightarrow> Inl NullDeref)"

definition erase_it :: "'a bag_iter \<Rightarrow> 'a bag \<Rightarrow> 'a pool \<Rightarrow> ('a bag_iter \<times> 'a bag \<times> 'a pool) res" where
  "erase_it it g p = (case fst it of [] \<Rightarrow> Inl AssertFail
     | cur # _ \<Rightarrow> obind (require AssertFail (\<not> isEmpty_b cur)) (\<lambda>_.
         obind (erase_g (bid cur) (nat (snd it)) g p) (\<lambda>(result, g', p').
           (let it1 = (dropWhile (\<lambda>b. bid b \<noteq> bid cur) (chain_g g'), snd it) in
            case fst it1 of [] \<Rightarrow> Inl Dangling
            | cur' # _ \<Rightarrow>
                obind (if snd it \<ge> int (computeSize_b cur') then next_it it1 else Inr it1) (\<lambda>it2.
                obind (if result then next_it it2 else Inr it2) (\<lambda>it3. Inr (it3, g', p')))))))"

section \<open>Bags as multisets\<close>

definition items_b :: "'a block \<Rightarrow> 'a list" where
  "items_b b = map (data_b b) [0..<size_b b]"

abbreviation items_l :: "'a block list \<Rightarrow> 'a multiset" where
  "items_l bs \<equiv> mset (concat (map items_b bs))"

definition items_g :: "'a bag \<Rightarrow> 'a multiset" where
  "items_g g = items_l (chain_g g)"

text \<open>The invariants stated in the comment at the head of the class.\<close>

definition bag_ok :: "'a bag \<Rightarrow> bool" where
  "bag_ok g \<longleftrightarrow> (\<exists>hb rest. chain_g g = hb # rest \<and> size_b hb < BLOCK_SIZE \<and> (\<forall>b\<in>set rest. isFull_b b)
     \<and> distinct (map bid (hb # rest)) \<and> tail_g g = bid (last (hb # rest)))
     \<and> sizeInBlocks g = int (length (chain_g g))"

text \<open>Blocks of the bag and free blocks are different, and new ones will be.\<close>

definition apart :: "'a block list \<Rightarrow> 'a pool \<Rightarrow> bool" where
  "apart bs p \<longleftrightarrow> distinct (map bid bs @ map bid (free_p p)) \<and> (\<forall>b\<in>set bs \<union> set (free_p p). bid b < fresh_p p)"

lemma bag_okE:
  assumes "bag_ok g"
  obtains hb rest where "chain_g g = hb # rest" "size_b hb < BLOCK_SIZE" "\<forall>b\<in>set rest. isFull_b b"
    "distinct (map bid (hb # rest))" "tail_g g = bid (last (hb # rest))" "sizeInBlocks g = int (Suc (length rest))"
  using assms by (auto simp: bag_ok_def)

lemma bag_okI:
  assumes "chain_g g = hb # rest" "size_b hb < BLOCK_SIZE" "\<forall>b\<in>set rest. isFull_b b"
    "distinct (map bid (hb # rest))" "tail_g g = bid (last (hb # rest))" "sizeInBlocks g = int (Suc (length rest))"
  shows "bag_ok g"
  using assms by (auto simp: bag_ok_def)

lemma BLOCK_SIZE_pos: "0 < BLOCK_SIZE"
  by (simp add: BLOCK_SIZE_def)

lemma items_b_simps [simp]: "length (items_b b) = size_b b" "i < size_b b \<Longrightarrow> items_b b ! i = data_b b i"
  by (simp_all add: items_b_def)

lemma items_b_empty: "size_b b = 0 \<Longrightarrow> items_b b = []"
  by (simp add: items_b_def)

lemma items_b_nonempty: "size_b b \<noteq> 0 \<Longrightarrow> items_b b \<noteq> []"
  by (simp add: items_b_def)

lemma push_b_ok:
  assumes "size_b b < BLOCK_SIZE"
  shows "\<exists>b'. push_b x b = Inr b' \<and> bid b' = bid b \<and> size_b b' = Suc (size_b b) \<and> items_b b' = items_b b @ [x]"
  using assms by (auto simp: push_b_def require_def Let_def items_b_def)

lemma pop_b_ok:
  assumes "size_b b \<noteq> 0"
  shows "\<exists>b'. pop_b b = Inr (data_b b (size_b b - 1), b') \<and> bid b' = bid b \<and> size_b b = Suc (size_b b')
    \<and> items_b b = items_b b' @ [data_b b (size_b b - 1)]"
proof -
  obtain n where "size_b b = Suc n" using assms by (cases "size_b b") auto
  then show ?thesis by (auto simp: pop_b_def require_def Let_def items_b_def)
qed

lemma erase_ix_b_ok:
  assumes "ix < size_b b"
  shows "bid (erase_ix_b ix b) = bid b \<and> size_b b = Suc (size_b (erase_ix_b ix b))
    \<and> mset (items_b b) = add_mset (data_b b ix) (mset (items_b (erase_ix_b ix b)))"
proof -
  obtain n where n: "size_b b = Suc n" using assms by (cases "size_b b") auto
  show ?thesis
  proof (cases "ix = n")
    case True
    then show ?thesis using n by (simp add: erase_ix_b_def Let_def items_b_def)
  next
    case False
    then have ix: "ix < n" using assms n by simp
    have "map ((data_b b)(ix := data_b b n)) [0..<n] = (map (data_b b) [0..<n])[ix := data_b b n]"
      by (rule nth_equalityI) (auto simp: nth_list_update)
    moreover have "mset ((map (data_b b) [0..<n])[ix := data_b b n])
        = add_mset (data_b b n) (mset (map (data_b b) [0..<n])) - {#data_b b ix#}"
      using ix by (subst mset_update) auto
    moreover have "data_b b ix \<in># mset (map (data_b b) [0..<n])" using ix by auto
    ultimately show ?thesis
      using n False by (simp add: erase_ix_b_def Let_def items_b_def) 
  qed
qed

lemma allocateBlock_ok:
  assumes "apart bs p"
  shows "\<exists>b p'. allocateBlock junk p = (b, p') \<and> size_b b = 0 \<and> apart (b # bs) p'"
  using assms by (cases "free_p p") (auto simp: allocateBlock_def apart_def)

lemma deallocateBlock_ok:
  assumes "apart (b # bs) p" "size_b b = 0"
  shows "\<exists>p'. deallocateBlock b p = Inr p' \<and> apart bs p'"
  using assms by (auto simp: deallocateBlock_def isEmpty_b_def require_def apart_def)

lemma apart_ids: "apart bs p \<Longrightarrow> map bid bs' = map bid bs \<Longrightarrow> apart bs' p"
  unfolding apart_def by (metis Un_iff image_eqI image_iff list.set_map)

lemma isEmpty_g_ok:
  assumes "bag_ok g"
  shows "isEmpty_g g = Inr (items_g g = {#})"
proof -
  obtain hb rest where g: "chain_g g = hb # rest" "\<forall>b\<in>set rest. isFull_b b"
    using assms by (rule bag_okE)
  have "rest = []" if "concat (map items_b rest) = []"
    using that g(2) BLOCK_SIZE_pos by (cases rest) (auto simp: isFull_b_def items_b_def)
  moreover have "items_b hb = [] \<longleftrightarrow> size_b hb = 0" by (simp add: items_b_def)
  ultimately show ?thesis using g(1) by (auto simp: isEmpty_g_def isEmpty_b_def items_g_def)
qed

lemma add_g_ok:
  assumes ok: "bag_ok g" and ap: "apart (chain_g g @ X) p"
  shows "\<exists>g' p'. add_g junk x g p = Inr (g', p') \<and> bag_ok g' \<and> apart (chain_g g' @ X) p'
    \<and> items_g g' = add_mset x (items_g g) \<and> bid ` set (chain_g g') \<subseteq> insert (bid (hd (chain_g g'))) (bid ` set (chain_g g))"
proof -
  obtain hb rest where g: "chain_g g = hb # rest" "size_b hb < BLOCK_SIZE" "\<forall>b\<in>set rest. isFull_b b"
    "distinct (map bid (hb # rest))" "tail_g g = bid (last (hb # rest))" "sizeInBlocks g = int (Suc (length rest))"
    using ok by (rule bag_okE)
  obtain h' where h': "push_b x hb = Inr h'" "bid h' = bid hb" "size_b h' = Suc (size_b hb)" "items_b h' = items_b hb @ [x]"
    using push_b_ok [OF g(2)] by blast
  have ap': "apart (h' # rest @ X) p" by (rule apart_ids [OF ap]) (simp add: g(1) h'(2))
  have tl: "tail_g g = bid (last (h' # rest))" using g(5) h'(2) by auto
  show ?thesis
  proof (cases "isFull_b h'")
    case True
    obtain nb p' where nb: "allocateBlock junk p = (nb, p')" "size_b nb = 0" "apart (nb # h' # rest @ X) p'"
      using allocateBlock_ok [OF ap'] by blast
    let ?g = "g\<lparr>sizeInBlocks := sizeInBlocks g + 1, chain_g := nb # h' # rest\<rparr>"
    have "bag_ok ?g"
      by (rule bag_okI [of _ nb "h' # rest"])
        (use nb True g tl BLOCK_SIZE_pos in \<open>auto simp: apart_def\<close>)
    moreover have "add_g junk x g p = Inr (?g, p')" by (simp add: add_g_def g(1) h'(1) True nb(1))
    ultimately show ?thesis using nb h'
      by (intro exI [of _ ?g] exI [of _ p']) (auto simp: items_g_def g(1) items_b_empty)
  next
    case False
    let ?g = "g\<lparr>chain_g := h' # rest\<rparr>"
    have "bag_ok ?g"
      by (rule bag_okI [of _ h' rest]) (use False g tl h' in \<open>auto simp: isFull_b_def\<close>)
    moreover have "add_g junk x g p = Inr (?g, p)" by (simp add: add_g_def g(1) h'(1) False)
    ultimately show ?thesis using h' ap'
      by (intro exI [of _ ?g] exI [of _ p]) (auto simp: items_g_def g(1))
  qed
qed

lemma remove_g_ok:
  assumes ok: "bag_ok g" and ap: "apart (chain_g g @ X) p" and ne: "items_g g \<noteq> {#}"
  shows "\<exists>x g' p'. remove_g g p = Inr (x, g', p') \<and> bag_ok g' \<and> apart (chain_g g' @ X) p'
    \<and> items_g g = add_mset x (items_g g') \<and> bid ` set (chain_g g') \<subseteq> bid ` set (chain_g g)"
proof -
  obtain hb rest where g: "chain_g g = hb # rest" "size_b hb < BLOCK_SIZE" "\<forall>b\<in>set rest. isFull_b b"
    "distinct (map bid (hb # rest))" "tail_g g = bid (last (hb # rest))" "sizeInBlocks g = int (Suc (length rest))"
    using ok by (rule bag_okE)
  note e = isEmpty_g_ok [OF ok]
  show ?thesis
  proof (cases "size_b hb = 0")
    case True
    then obtain sb rs where rs: "rest = sb # rs" using ne g(1) by (cases rest) (auto simp: items_g_def items_b_empty)
    have "size_b sb \<noteq> 0" using g(3) rs BLOCK_SIZE_pos by (auto simp: isFull_b_def)
    then obtain sb' where sb': "pop_b sb = Inr (data_b sb (size_b sb - 1), sb')" "bid sb' = bid sb"
      "size_b sb = Suc (size_b sb')" "items_b sb = items_b sb' @ [data_b sb (size_b sb - 1)]"
      using pop_b_ok by blast
    obtain p' where p': "deallocateBlock hb p = Inr p'" "apart (rest @ X) p'"
      using deallocateBlock_ok [of hb "rest @ X" p] ap g(1) True by auto
    let ?g = "g\<lparr>chain_g := sb' # rs, sizeInBlocks := sizeInBlocks g - 1\<rparr>"
    have "bag_ok ?g"
      by (rule bag_okI [of _ sb' rs]) (use g rs sb' in \<open>auto simp: isFull_b_def\<close>)
    moreover have "apart (sb' # rs @ X) p'" by (rule apart_ids [OF p'(2)]) (simp add: rs sb'(2))
    moreover have "remove_g g p = Inr (data_b sb (size_b sb - 1), ?g, p')"
      using e ne True by (simp add: remove_g_def require_def g(1) isEmpty_b_def rs sb'(1) p'(1))
    ultimately show ?thesis using sb' True
      by (intro exI [of _ "data_b sb (size_b sb - 1)"] exI [of _ ?g] exI [of _ p'])
        (auto simp: items_g_def g(1) rs items_b_empty)
  next
    case False
    then obtain h' where h': "pop_b hb = Inr (data_b hb (size_b hb - 1), h')" "bid h' = bid hb"
      "size_b hb = Suc (size_b h')" "items_b hb = items_b h' @ [data_b hb (size_b hb - 1)]"
      using pop_b_ok by blast
    let ?g = "g\<lparr>chain_g := h' # rest\<rparr>"
    have "bag_ok ?g" by (rule bag_okI [of _ h' rest]) (use g h' in auto)
    moreover have "apart (h' # rest @ X) p" by (rule apart_ids [OF ap]) (simp add: g(1) h'(2))
    moreover have "remove_g g p = Inr (data_b hb (size_b hb - 1), ?g, p)"
      using e ne False by (simp add: remove_g_def require_def g(1) isEmpty_b_def h'(1))
    ultimately show ?thesis using h'
      by (intro exI [of _ "data_b hb (size_b hb - 1)"] exI [of _ ?g] exI [of _ p])
        (auto simp: items_g_def g(1))
  qed
qed

lemma items_l_replace:
  assumes "b \<in> set bs" "distinct (map bid bs)" "ix < size_b b"
  shows "\<exists>bs'. replace_in (bid b) ix y bs = Inr bs' \<and> map bid bs' = map bid bs \<and> map size_b bs' = map size_b bs
    \<and> items_l bs + {#y#} = items_l bs' + {#data_b b ix#}"
  using assms(1,2)
proof (induction bs)
  case (Cons c bs)
  show ?case
  proof (cases "bid c = bid b")
    case True
    then have c: "c = b" using Cons.prems by (auto simp: image_iff)
    have "map ((data_b b)(ix := y)) [0..<size_b b] = (items_b b)[ix := y]"
      using assms(3) by (intro nth_equalityI) (auto simp: nth_list_update items_b_def)
    moreover have "data_b b ix \<in># mset (items_b b)" using assms(3) by (auto simp: items_b_def)
    ultimately have "items_b (b\<lparr>data_b := (data_b b)(ix := y)\<rparr>) = (items_b b)[ix := y]"
      "mset ((items_b b)[ix := y]) = add_mset y (mset (items_b b) - {#data_b b ix#})"
      using assms(3) by (auto simp: items_b_def mset_update)
    moreover have "replace_in (bid b) ix y (c # bs) = Inr (b\<lparr>data_b := (data_b b)(ix := y)\<rparr> # bs)"
      using assms(3) by (simp add: c replace_b_def require_def)
    ultimately show ?thesis using \<open>data_b b ix \<in># mset (items_b b)\<close>
      by (intro exI [of _ "b\<lparr>data_b := (data_b b)(ix := y)\<rparr> # bs"]) (simp add: c)
  next
    case False
    then obtain bs' where "replace_in (bid b) ix y bs = Inr bs'" "map bid bs' = map bid bs"
      "map size_b bs' = map size_b bs" "items_l bs + {#y#} = items_l bs' + {#data_b b ix#}"
      using Cons by auto
    then show ?thesis using False by (intro exI [of _ "c # bs'"]) (simp add: union_assoc [symmetric])
  qed
qed simp

lemma map_last_bid: "map bid bs' = map bid bs \<Longrightarrow> bs \<noteq> [] \<Longrightarrow> bid (last bs') = bid (last bs)"
  by (metis last_map list.map_disc_iff)

lemma all_full_sizes: "map size_b bs' = map size_b bs \<Longrightarrow> \<forall>b\<in>set bs. isFull_b b \<Longrightarrow> \<forall>b\<in>set bs'. isFull_b b"
  unfolding isFull_b_def by (metis (no_types, lifting) image_eqI image_iff list.set_map)

text \<open>Erasing when the head block is not empty.\<close>

lemma erase_nonempty_head:
  assumes g: "chain_g g = hb # rest" "\<forall>b\<in>set rest. isFull_b b" "distinct (map bid (hb # rest))"
      "tail_g g = bid (last (hb # rest))" "sizeInBlocks g = int (Suc (length rest))"
    and hs: "0 < size_b hb" "size_b hb \<le> BLOCK_SIZE" and b: "b \<in> set (hb # rest)" "ix < size_b b"
  shows "\<exists>flag g'. (if bid b = bid hb then Inr (False, g\<lparr>chain_g := erase_ix_b ix hb # rest\<rparr>, p)
      else obind (pop_b hb) (\<lambda>(obj, head'). obind (replace_in (bid b) ix obj rest) (\<lambda>rest'.
             Inr (True, g\<lparr>chain_g := head' # rest'\<rparr>, p)))) = Inr (flag, g', p)
    \<and> bag_ok g' \<and> map bid (chain_g g') = map bid (hb # rest)
    \<and> items_g g = add_mset (data_b b ix) (items_g g')"
proof (cases "bid b = bid hb")
  case True
  then have c: "b = hb" using b(1) g(3) by (auto simp: image_iff)
  note e = erase_ix_b_ok [OF b(2)]
  have "bag_ok (g\<lparr>chain_g := erase_ix_b ix hb # rest\<rparr>)"
    by (rule bag_okI [of _ "erase_ix_b ix hb" rest]) (use g e hs c in auto)
  then show ?thesis using e g(1) True c
    by (intro exI [of _ False] exI [of _ "g\<lparr>chain_g := erase_ix_b ix hb # rest\<rparr>"]) (simp add: items_g_def)
next
  case False
  then have br: "b \<in> set rest" using b(1) by auto
  obtain h' where h': "pop_b hb = Inr (data_b hb (size_b hb - 1), h')" "bid h' = bid hb"
    "size_b hb = Suc (size_b h')" "items_b hb = items_b h' @ [data_b hb (size_b hb - 1)]"
    using pop_b_ok [of hb] hs(1) by auto
  obtain r' where r': "replace_in (bid b) ix (data_b hb (size_b hb - 1)) rest = Inr r'" "map bid r' = map bid rest"
    "map size_b r' = map size_b rest"
    "items_l rest + {#data_b hb (size_b hb - 1)#} = items_l r' + {#data_b b ix#}"
    using items_l_replace [OF br _ b(2)] g(3) by auto
  let ?g = "g\<lparr>chain_g := h' # r'\<rparr>"
  have ids: "map bid (h' # r') = map bid (hb # rest)" using h'(2) r'(2) by simp
  have "bid (last (h' # r')) = bid (last (hb # rest))" by (rule map_last_bid [OF ids]) simp
  moreover have "length r' = length rest" using r'(2) by (metis length_map)
  moreover have "distinct (map bid (h' # r'))" unfolding ids by (rule g(3))
  ultimately have "bag_ok ?g"
    by (intro bag_okI [of _ h' r'] all_full_sizes [OF r'(3) g(2)]) (use g h' hs in auto)
  moreover have "items_g g = add_mset (data_b b ix) (items_g ?g)"
  proof -
    have "items_g g = mset (items_b h') + (items_l rest + {#data_b hb (size_b hb - 1)#})"
      using g(1) h'(4) by (simp add: items_g_def)
    also have "\<dots> = mset (items_b h') + (items_l r' + {#data_b b ix#})" by (simp only: r'(4))
    finally show ?thesis by (simp add: items_g_def)
  qed
  ultimately show ?thesis using False h'(1) r'(1) ids by (intro exI [of _ True] exI [of _ ?g]) simp
qed

lemma erase_g_ok:
  assumes ok: "bag_ok g" and ap: "apart (chain_g g @ X) p" and b: "b \<in> set (chain_g g)" "ix < size_b b"
  shows "\<exists>flag g' p'. erase_g (bid b) ix g p = Inr (flag, g', p') \<and> bag_ok g' \<and> apart (chain_g g' @ X) p'
    \<and> items_g g = add_mset (data_b b ix) (items_g g')"
proof -
  obtain hb rest where g: "chain_g g = hb # rest" "size_b hb < BLOCK_SIZE" "\<forall>b\<in>set rest. isFull_b b"
    "distinct (map bid (hb # rest))" "tail_g g = bid (last (hb # rest))" "sizeInBlocks g = int (Suc (length rest))"
    using ok by (rule bag_okE)
  have "data_b b ix \<in> set (items_b b)" using b(2) by (simp add: items_b_def)
  then have "data_b b ix \<in># items_g g" using b(1) by (auto simp: items_g_def)
  then have e: "isEmpty_g g = Inr False" using isEmpty_g_ok [OF ok] by auto
  show ?thesis
  proof (cases "size_b hb = 0")
    case True
    then have br: "b \<in> set rest" using b g(1) by auto
    then have bn: "bid b \<noteq> bid hb" using g(4) by (metis distinct.simps(2) image_eqI list.map(2) list.set_map)
    from br obtain sb rs where rs: "rest = sb # rs" by (cases rest) auto
    obtain p' where p': "deallocateBlock hb p = Inr p'" "apart (rest @ X) p'"
      using deallocateBlock_ok [of hb "rest @ X" p] ap g(1) True by auto
    let ?g = "g\<lparr>chain_g := sb # rs, sizeInBlocks := sizeInBlocks g - 1\<rparr>"
    have fs: "size_b sb = BLOCK_SIZE" using g(3) rs by (simp add: isFull_b_def)
    obtain flag g' where r: "(if bid b = bid sb then Inr (False, ?g\<lparr>chain_g := erase_ix_b ix sb # rs\<rparr>, p')
      else obind (pop_b sb) (\<lambda>(obj, head'). obind (replace_in (bid b) ix obj rs) (\<lambda>rest'.
             Inr (True, ?g\<lparr>chain_g := head' # rest'\<rparr>, p')))) = Inr (flag, g', p')"
      "bag_ok g'" "map bid (chain_g g') = map bid (sb # rs)" "items_g ?g = add_mset (data_b b ix) (items_g g')"
      using erase_nonempty_head [of ?g sb rs b ix p'] g rs fs br b(2) BLOCK_SIZE_pos by auto
    have "erase_g (bid b) ix g p = Inr (flag, g', p')"
      using r(1) bn True fs BLOCK_SIZE_pos
      by (simp add: erase_g_def e require_def g(1) isEmpty_b_def p'(1) rs)
    moreover have "apart (chain_g g' @ X) p'" by (rule apart_ids [OF p'(2)]) (simp add: r(3) rs)
    moreover have "items_g ?g = items_g g" using True by (simp add: items_g_def g(1) rs items_b_empty)
    ultimately show ?thesis using r(2,4) by auto
  next
    case False
    obtain flag g' where r: "(if bid b = bid hb then Inr (False, g\<lparr>chain_g := erase_ix_b ix hb # rest\<rparr>, p)
      else obind (pop_b hb) (\<lambda>(obj, head'). obind (replace_in (bid b) ix obj rest) (\<lambda>rest'.
             Inr (True, g\<lparr>chain_g := head' # rest'\<rparr>, p)))) = Inr (flag, g', p)"
      "bag_ok g'" "map bid (chain_g g') = map bid (hb # rest)" "items_g g = add_mset (data_b b ix) (items_g g')"
      using erase_nonempty_head [OF g(1,3,4,5,6), of b ix p] g(1,2) b False by auto
    have "erase_g (bid b) ix g p = Inr (flag, g', p)"
      using r(1) False by (simp add: erase_g_def e require_def g(1) isEmpty_b_def)
    moreover have "apart (chain_g g' @ X) p" by (rule apart_ids [OF ap]) (simp add: r(3) g(1))
    ultimately show ?thesis using r(2,4) by auto
  qed
qed

section \<open>Moving blocks\<close>

lemma link_tail_chain:
  assumes "bag_ok g"
  shows "chain_g (link_tail bs t g) = chain_g g @ bs" "tail_g (link_tail bs t g) = t"
    "sizeInBlocks (link_tail bs t g) = sizeInBlocks g"
proof -
  obtain hb rest where g: "chain_g g = hb # rest" "distinct (map bid (hb # rest))" "tail_g g = bid (last (hb # rest))"
    using assms by (rule bag_okE)
  define xs where "xs = butlast (hb # rest)"
  define l where "l = last (hb # rest)"
  have c: "hb # rest = xs @ [l]" unfolding xs_def l_def by (rule append_butlast_last_id [symmetric]) simp
  have "distinct (map bid xs @ [bid l])" using g(2) unfolding c by simp
  then have "\<forall>b\<in>set xs. bid b \<noteq> bid l" by (simp add: image_iff) metis
  then have "takeWhile (\<lambda>b. bid b \<noteq> bid l) (xs @ [l]) = xs" "dropWhile (\<lambda>b. bid b \<noteq> bid l) (xs @ [l]) = [l]"
    by (auto simp: takeWhile_append dropWhile_append)
  then show "chain_g (link_tail bs t g) = chain_g g @ bs"
    using g(1,3) by (simp add: link_tail_def c l_def [symmetric])
  show "tail_g (link_tail bs t g) = t" "sizeInBlocks (link_tail bs t g) = sizeInBlocks g"
    by (simp_all add: link_tail_def)
qed

lemma bag_ok_link:
  assumes "bag_ok g" "\<forall>b\<in>set bs. isFull_b b" "distinct (map bid (chain_g g @ bs))" "bs \<noteq> []"
  shows "bag_ok ((link_tail bs (bid (last bs)) g)\<lparr>sizeInBlocks := int (length (chain_g g @ bs))\<rparr>)"
proof -
  obtain hb rest where g: "chain_g g = hb # rest" "size_b hb < BLOCK_SIZE" "\<forall>b\<in>set rest. isFull_b b"
    using assms(1) by (rule bag_okE)
  show ?thesis
    by (rule bag_okI [of _ hb "rest @ bs"])
      (use g assms link_tail_chain [OF assms(1), of bs "bid (last bs)"] in auto)
qed

lemma appendMoveFullBlocks_ok:
  assumes g: "bag_ok g" and oth: "bag_ok other" and dj: "distinct (map bid (chain_g g @ chain_g other))"
  shows "\<exists>g' o'. appendMoveFullBlocks other g = Inr (g', o') \<and> bag_ok g' \<and> bag_ok o'
    \<and> chain_g o' = [hd (chain_g other)] \<and> chain_g g' = chain_g g @ tl (chain_g other)
    \<and> items_g g' + items_g o' = items_g g + items_g other"
proof -
  obtain hb rest where o: "chain_g other = hb # rest" "size_b hb < BLOCK_SIZE" "\<forall>b\<in>set rest. isFull_b b"
    "distinct (map bid (hb # rest))" "tail_g other = bid (last (hb # rest))" "sizeInBlocks other = int (Suc (length rest))"
    using oth by (rule bag_okE)
  show ?thesis
  proof (cases rest)
    case Nil
    then have "appendMoveFullBlocks other g = Inr (g, other)"
      by (simp add: appendMoveFullBlocks_def appendMoveFullBlocks_at_def o(1) after_block_def)
    then show ?thesis using g oth o(1) Nil by simp
  next
    case (Cons nb rs)
    let ?g1 = "link_tail rest (bid (last rest)) g"
    let ?g2 = "?g1\<lparr>sizeInBlocks := int (length (chain_g g @ rest))\<rparr>"
    let ?o1 = "other\<lparr>chain_g := [hb], tail_g := bid hb, sizeInBlocks := 1\<rparr>"
    note lt = link_tail_chain [OF g, of rest "bid (last rest)"]
    have g2: "bag_ok ?g2" by (rule bag_ok_link [OF g o(3)]) (use dj o(1) Cons in auto)
    have o1: "bag_ok ?o1" by (rule bag_okI [of _ hb "[]"]) (use o in auto)
    have "appendMoveFullBlocks other g = Inr (?g2, ?o1)"
      using o Cons lt
      by (simp add: appendMoveFullBlocks_def appendMoveFullBlocks_at_def after_block_def upto_block_def
        require_def Let_def computeSizeInBlocks_def)
    moreover have "items_g ?g2 + items_g ?o1 = items_g g + items_g other"
      using lt(1) by (simp add: items_g_def o(1))
    ultimately show ?thesis using g2 o1 lt(1) o(1) by (intro exI [of _ ?g2] exI [of _ ?o1]) simp
  qed
qed

lemma apart_comm: "apart (as @ bs) p \<Longrightarrow> apart (bs @ as) p"
  by (auto simp: apart_def)

lemma move_rest_ok:
  assumes "bag_ok g" "bag_ok other" "apart (chain_g g @ chain_g other) p" "size (items_g other) < n"
  shows "\<exists>g' o' p'. move_rest n junk other g p = Inr (g', o', p') \<and> bag_ok g' \<and> bag_ok o'
    \<and> items_g o' = {#} \<and> items_g g' = items_g g + items_g other"
  using assms
proof (induction n arbitrary: g other p)
  case (Suc n)
  note e = isEmpty_g_ok [OF Suc.prems(2)]
  show ?case
  proof (cases "items_g other = {#}")
    case True
    then show ?thesis using e Suc.prems(1,2) by auto
  next
    case False
    obtain x o1 p1 where r: "remove_g other p = Inr (x, o1, p1)" "bag_ok o1" "apart (chain_g o1 @ chain_g g) p1"
      "items_g other = add_mset x (items_g o1)"
      using remove_g_ok [OF Suc.prems(2) apart_comm [OF Suc.prems(3)] False] by blast
    obtain g1 p2 where a: "add_g junk x g p1 = Inr (g1, p2)" "bag_ok g1" "apart (chain_g g1 @ chain_g o1) p2"
      "items_g g1 = add_mset x (items_g g)"
      using add_g_ok [OF Suc.prems(1) apart_comm [OF r(3)]] by blast
    obtain g' o' p' where m: "move_rest n junk o1 g1 p2 = Inr (g', o', p')" "bag_ok g'" "bag_ok o'"
      "items_g o' = {#}" "items_g g' = items_g g1 + items_g o1"
      using Suc.IH [OF a(2) r(2) a(3)] Suc.prems(4) r(4) by auto
    show ?thesis
      using e False r(1,4) a(1,4) m by simp
  qed
qed simp

lemma appendMoveAll_ok:
  assumes "bag_ok g" "bag_ok other" "apart (chain_g g @ chain_g other) p" "size (items_g other) < n"
  shows "\<exists>g' o' p'. appendMoveAll n junk other g p = Inr (g', o', p') \<and> bag_ok g' \<and> bag_ok o'
    \<and> items_g o' = {#} \<and> items_g g' = items_g g + items_g other"
proof -
  have dj: "distinct (map bid (chain_g g @ chain_g other))" using assms(3) by (auto simp: apart_def)
  obtain g1 o1 where m: "appendMoveFullBlocks other g = Inr (g1, o1)" "bag_ok g1" "bag_ok o1"
    "chain_g o1 = [hd (chain_g other)]" "chain_g g1 = chain_g g @ tl (chain_g other)"
    "items_g g1 + items_g o1 = items_g g + items_g other"
    using appendMoveFullBlocks_ok [OF assms(1,2) dj] by blast
  obtain hb rest where o: "chain_g other = hb # rest" using assms(2) by (rule bag_okE)
  have ap: "apart (chain_g g1 @ chain_g o1) p" using assms(3) m(4,5) o by (auto simp: apart_def)
  have "size (items_g o1) \<le> size (items_g other)" using m(4) o by (simp add: items_g_def)
  then have sz: "size (items_g o1) < n" using assms(4) by simp
  obtain g' o' p' where r: "move_rest n junk o1 g1 p = Inr (g', o', p')" "bag_ok g'" "bag_ok o'"
    "items_g o' = {#}" "items_g g' = items_g g1 + items_g o1"
    using move_rest_ok [OF m(2,3) ap sz] by blast
  have "bag_ok (g'\<lparr>sizeInBlocks := computeSizeInBlocks g'\<rparr>)"
    using r(2) by (auto simp: bag_ok_def computeSizeInBlocks_def)
  then show ?thesis using m(1,6) r
    by (intro exI [of _ "g'\<lparr>sizeInBlocks := computeSizeInBlocks g'\<rparr>"] exI [of _ o'] exI [of _ p'])
      (simp add: appendMoveAll_def items_g_def)
qed

lemma removeFullBlock_ok:
  assumes "bag_ok g" "removeFullBlock g = Inr (r, g')"
  shows "bag_ok g' \<and> (case r of None \<Rightarrow> g' = g \<and> length (chain_g g) \<le> 2
    | Some b \<Rightarrow> isFull_b b \<and> items_g g = items_g g' + mset (items_b b))"
proof -
  obtain hb rest where g: "chain_g g = hb # rest" "size_b hb < BLOCK_SIZE" "\<forall>b\<in>set rest. isFull_b b"
    "distinct (map bid (hb # rest))" "tail_g g = bid (last (hb # rest))" "sizeInBlocks g = int (Suc (length rest))"
    using assms(1) by (rule bag_okE)
  consider "rest = []" | b where "rest = [b]" | b c rs where "rest = b # c # rs"
    by (cases rest; cases "tl rest") auto
  then show ?thesis
  proof cases
    case 3
    then have "computeSize_b b = BLOCK_SIZE" using g(3) by (simp add: isFull_b_def computeSize_b_def)
    then have r: "r = Some b" "g' = g\<lparr>chain_g := hb # c # rs, sizeInBlocks := sizeInBlocks g - 1\<rparr>"
      using assms(2) g(1) 3 by (auto simp: removeFullBlock_def require_def)
    have "bag_ok g'" unfolding r(2) by (rule bag_okI [of _ hb "c # rs"]) (use g 3 in auto)
    then show ?thesis using r g(1,3) 3 by (simp add: items_g_def)
  qed (use assms g(1) in \<open>auto simp: removeFullBlock_def\<close>)
qed

lemma addFullBlock_ok:
  assumes "bag_ok g" "isFull_b b" "bid b \<notin> bid ` set (chain_g g)"
  shows "\<exists>g'. addFullBlock b g = Inr g' \<and> bag_ok g' \<and> items_g g' = items_g g + mset (items_b b)"
proof -
  obtain hb rest where g: "distinct (map bid (hb # rest))" "chain_g g = hb # rest" "sizeInBlocks g = int (Suc (length rest))"
    using assms(1) by (rule bag_okE)
  have "bag_ok ((link_tail [b] (bid (last [b])) g)\<lparr>sizeInBlocks := int (length (chain_g g @ [b]))\<rparr>)"
    by (rule bag_ok_link [OF assms(1)]) (use assms g in auto)
  then show ?thesis
    using assms(2) link_tail_chain [OF assms(1), of "[b]" "bid b"] g(2,3)
    by (auto simp: addFullBlock_def isFull_b_def computeSize_b_def require_def Let_def items_g_def)
qed

section \<open>Iterating\<close>

text \<open>The items an iterator at a place still has to visit.\<close>

definition rest_items :: "'a bag_iter \<Rightarrow> 'a list" where
  "rest_items it = (case fst it of [] \<Rightarrow> []
     | b # bs \<Rightarrow> rev (take (nat (snd it + 1)) (items_b b)) @ concat (map (rev \<circ> items_b) bs))"

definition iter_ok :: "'a bag_iter \<Rightarrow> bool" where
  "iter_ok it \<longleftrightarrow> (case fst it of [] \<Rightarrow> snd it = -1
     | b # bs \<Rightarrow> 0 \<le> snd it \<and> snd it < int (size_b b) \<and> size_b b \<le> BLOCK_SIZE
         \<and> (\<forall>c\<in>set bs. isFull_b c))"

lemma to_next_block:
  assumes "\<forall>c\<in>set bs. isFull_b c"
  shows "iter_ok (bs, case bs of [] \<Rightarrow> -1 | b # _ \<Rightarrow> int (computeSize_b b) - 1)
    \<and> rest_items (bs, case bs of [] \<Rightarrow> -1 | b # _ \<Rightarrow> int (computeSize_b b) - 1) = concat (map (rev \<circ> items_b) bs)"
  using assms BLOCK_SIZE_pos
  by (cases bs) (auto simp: iter_ok_def rest_items_def isFull_b_def computeSize_b_def)

lemma next_it_ok:
  assumes "iter_ok (b # bs, ix)"
  shows "\<exists>x it'. deref_it (b # bs, ix) = Inr x \<and> next_it (b # bs, ix) = Inr it' \<and> iter_ok it'
    \<and> rest_items (b # bs, ix) = x # rest_items it'"
proof -
  have ix: "0 \<le> ix" "ix < int (size_b b)" "size_b b \<le> BLOCK_SIZE" "\<forall>c\<in>set bs. isFull_b c"
    using assms by (simp_all add: iter_ok_def)
  define k where "k = nat ix"
  have k: "ix = int k" "k < size_b b" using ix by (simp_all add: k_def)
  have d: "deref_it (b # bs, ix) = Inr (data_b b k)" using k ix(3) by (simp add: deref_it_def peek_b_def)
  have t: "take (Suc k) (items_b b) = take k (items_b b) @ [data_b b k]"
    using k(2) by (simp add: take_Suc_conv_app_nth)
  have n: "nat (ix + 1) = Suc k" using k(1) by simp
  show ?thesis
  proof (cases k)
    case 0
    then show ?thesis using d t n k(1) to_next_block [OF ix(4)]
      by (simp add: next_it_def) (simp add: rest_items_def)
  next
    case (Suc m)
    then have "next_it (b # bs, ix) = Inr (b # bs, int m)" using k(1) by (simp add: next_it_def)
    moreover have "iter_ok (b # bs, int m)" using ix k Suc by (simp add: iter_ok_def)
    moreover have "rest_items (b # bs, ix) = data_b b k # rest_items (b # bs, int m)"
      using t n Suc by (simp add: rest_items_def nat_add_distrib)
    ultimately show ?thesis using d by blast
  qed
qed

lemma iterate_it_ok:
  assumes "iter_ok it" "length (rest_items it) < n"
  shows "iterate_it n it = Inr (rest_items it)"
  using assms
proof (induction n arbitrary: it)
  case (Suc n)
  show ?case
  proof (cases "fst it")
    case Nil
    then show ?thesis using Suc.prems(1) by (simp add: iter_ok_def rest_items_def)
  next
    case (Cons b bs)
    then obtain ix where it: "it = (b # bs, ix)" by (cases it) auto
    obtain x it' where r: "deref_it it = Inr x" "next_it it = Inr it'" "iter_ok it'" "rest_items it = x # rest_items it'"
      using next_it_ok Suc.prems(1) unfolding it by blast
    have "iterate_it n it' = Inr (rest_items it')" using Suc.IH [OF r(3)] Suc.prems(2) r(4) by simp
    then show ?thesis using r by (simp add: it)
  qed
qed simp

lemma iterate_bag:
  assumes ok: "bag_ok g" and n: "computeSize_g g < n"
  shows "obind (begin_it g) (iterate_it n) = Inr (concat (map (rev \<circ> items_b) (chain_g g)))"
proof -
  obtain hb rest where g: "chain_g g = hb # rest" "size_b hb < BLOCK_SIZE" "\<forall>b\<in>set rest. isFull_b b"
    using ok by (rule bag_okE)
  have "\<exists>it. begin_it g = Inr it \<and> iter_ok it \<and> rest_items it = concat (map (rev \<circ> items_b) (chain_g g))"
  proof (cases "size_b hb")
    case 0
    then show ?thesis using to_next_block [OF g(3)] g(1)
      by (simp add: begin_it_def next_it_def computeSize_b_def items_b_empty)
  next
    case (Suc m)
    then have "begin_it g = Inr (hb # rest, int m)" using g(1) by (simp add: begin_it_def next_it_def computeSize_b_def)
    moreover have "iter_ok (hb # rest, int m)" using Suc g by (simp add: iter_ok_def)
    moreover have "rest_items (hb # rest, int m) = concat (map (rev \<circ> items_b) (chain_g g))"
      using Suc g(1) by (simp add: rest_items_def nat_add_distrib)
    ultimately show ?thesis by blast
  qed
  then obtain it where it: "begin_it g = Inr it" "iter_ok it" "rest_items it = concat (map (rev \<circ> items_b) (chain_g g))"
    by blast
  have "length (rest_items it) = computeSize_g g"
    unfolding it(3) computeSize_g_def computeSize_b_def by (simp add: length_concat comp_def)
  then show ?thesis using iterate_it_ok [OF it(2), of n] n it(1,3) by simp
qed

section \<open>Properties\<close>

definition demo_bag :: "nat bag" where
  "demo_bag = \<lparr>owner = 0, reclaimCount = 0, sizeInBlocks = 1,
     chain_g = [\<lparr>bid = 4, data_b = (\<lambda>i. 10 * i), size_b = 3\<rparr>], tail_g = 4\<rparr>"

definition demo_bag2 :: "nat bag" where
  "demo_bag2 = \<lparr>owner = 0, reclaimCount = 0, sizeInBlocks = 2,
     chain_g = [\<lparr>bid = 6, data_b = (\<lambda>i. 7), size_b = 1\<rparr>, \<lparr>bid = 7, data_b = (\<lambda>i. 8), size_b = BLOCK_SIZE\<rparr>],
     tail_g = 7\<rparr>"

lemma demo_bag_ok:
  "bag_ok demo_bag" "bag_ok demo_bag2" "apart (chain_g demo_bag) (blockpool 9)"
  "apart (chain_g demo_bag @ chain_g demo_bag2) (blockpool 9)" "items_g demo_bag = {#0, 10, 20#}"
  by (simp_all add: demo_bag_def demo_bag2_def bag_ok_def apart_def blockpool_def BLOCK_SIZE_def isFull_b_def
    items_g_def items_b_def upt_rec)

lemma demo_bag2_items: "items_g demo_bag2 = add_mset 7 (replicate_mset BLOCK_SIZE 8)"
  by (simp add: demo_bag2_def items_g_def items_b_def map_replicate_const)

text \<open>
  C33: A bag of blocks behaves as a multiset: \<open>isEmpty\<close> tells whether it is empty, \<open>add\<close> adds its
  argument (also when the head block fills up), \<open>remove\<close> takes an item out of a bag that has
  one, and \<open>erase\<close> at a used place takes out exactly the item there. Each keeps the invariants
  of the class (the head is not full, all other blocks are, the tail is the last block, the
  number of blocks is right) and none fails an assertion.
\<close>

theorem blockbag_refines:
  assumes "bag_ok g" "apart (chain_g g) p"
  shows "isEmpty_g g = Inr (items_g g = {#})
    \<and> (\<exists>g' p'. add_g junk x g p = Inr (g', p') \<and> bag_ok g' \<and> apart (chain_g g') p'
         \<and> items_g g' = add_mset x (items_g g))
    \<and> (items_g g \<noteq> {#} \<longrightarrow> (\<exists>y g' p'. remove_g g p = Inr (y, g', p') \<and> bag_ok g' \<and> apart (chain_g g') p'
         \<and> items_g g = add_mset y (items_g g')))
    \<and> (\<forall>b\<in>set (chain_g g). \<forall>ix<size_b b. \<exists>flag g' p'. erase_g (bid b) ix g p = Inr (flag, g', p')
         \<and> bag_ok g' \<and> apart (chain_g g') p' \<and> items_g g = add_mset (data_b b ix) (items_g g'))"
  using isEmpty_g_ok [OF assms(1)] add_g_ok [of g "[]" p junk x] remove_g_ok [of g "[]" p]
    erase_g_ok [of g "[]" p] assms
  by auto

theorem blockbag_refines_witness:
  "\<exists>y g' p'. remove_g demo_bag (blockpool 9) = Inr (y, g', p') \<and> {#0, 10, 20#} = add_mset y (items_g g')"
  using blockbag_refines [OF demo_bag_ok(1,3), of undefined 0] by (auto simp: demo_bag_ok(5))

text \<open>
  C34: The loop from \<open>begin()\<close> to \<open>end()\<close> ends and visits every item of the bag exactly once,
  block by block from the newest item of each.
\<close>

theorem blockbag_iterator_complete:
  assumes "bag_ok g" "computeSize_g g < n"
  shows "\<exists>xs. obind (begin_it g) (iterate_it n) = Inr xs \<and> mset xs = items_g g
    \<and> xs = concat (map (rev \<circ> items_b) (chain_g g))"
proof -
  have "mset (concat (map (rev \<circ> items_b) bs)) = items_l bs" for bs :: "'a block list"
    by (induction bs) simp_all
  then show ?thesis using iterate_bag [OF assms] by (simp add: items_g_def)
qed

theorem blockbag_iterator_complete_witness:
  "obind (begin_it demo_bag) (iterate_it 4) = Inr [20, 10, 0]"
  using blockbag_iterator_complete [OF demo_bag_ok(1), of 4]
  by (simp add: demo_bag_def computeSize_g_def computeSize_b_def items_b_def upt_rec)

text \<open>
  \<open>appendMoveFullBlocks\<close> and \<open>appendMoveAll\<close> neither lose nor duplicate an item: the first
  leaves only the head block in the other bag, the second leaves it empty, and the two bags
  keep their invariants.
\<close>

theorem blockbag_move_all:
  assumes "bag_ok g" "bag_ok other" "apart (chain_g g @ chain_g other) p" "size (items_g other) < n"
  shows "(\<exists>g' o'. appendMoveFullBlocks other g = Inr (g', o') \<and> bag_ok g' \<and> bag_ok o'
      \<and> chain_g o' = [hd (chain_g other)] \<and> items_g g' + items_g o' = items_g g + items_g other)
    \<and> (\<exists>g' o' p'. appendMoveAll n junk other g p = Inr (g', o', p') \<and> bag_ok g' \<and> bag_ok o'
      \<and> items_g o' = {#} \<and> items_g g' = items_g g + items_g other)"
proof -
  have "distinct (map bid (chain_g g @ chain_g other))" using assms(3) by (auto simp: apart_def)
  then show ?thesis using appendMoveFullBlocks_ok [OF assms(1,2)] appendMoveAll_ok [OF assms] by blast
qed

theorem blockbag_move_all_witness:
  "\<exists>g' o' p'. appendMoveAll 300 undefined demo_bag2 demo_bag (blockpool 9) = Inr (g', o', p')
    \<and> items_g g' = {#0, 10, 20#} + add_mset 7 (replicate_mset BLOCK_SIZE 8)"
  using blockbag_move_all [OF demo_bag_ok(1,2,4), of 300 undefined] demo_bag_ok(5) demo_bag2_items
  by (auto simp: BLOCK_SIZE_def)

end
