(* ===== verification/Bundled_Citrus.thy ===== *)
theory Bundled_Citrus
  imports RQ_Provider Bundle_Path Locks Urcu Block_Bag
begin

text \<open>
  The bundled Citrus tree of \<open>bundle_citrus/bundle_citrus_impl.h\<close>: an internal binary search
  tree with one lock, two children, two tags and two bundles per node. As for the other
  structures the optimistic search and the section under the locks of an update are separate
  functions. The stack of the traversals is a block of \<open>recordmgr/blockbag.h\<close>. Loops carry
  fuel; retired nodes stay in the heap.
\<close>

section \<open>State\<close>

record ct_node =
  key_ct :: int
  val_ct :: int
  child_ct :: "nat \<Rightarrow> ptr"
  tag_ct :: "nat \<Rightarrow> int"
  lock_ct :: bool
  marked_ct :: bool
  rqbundle_ct :: "nat \<Rightarrow> ptr bundle_t"

record ct_tree =
  heap_ct :: "ct_node list"
  root_ct :: ptr
  rq_ct :: rqp
  rcu_ct :: urcu_table
  threads_ct :: nat
  retired_ct :: "ptr list"
  quiescent_ct :: "nat \<Rightarrow> bool"
  init_ct :: "nat \<Rightarrow> bool"
  NO_KEY_ct :: int
  NO_VALUE_ct :: int

definition leaveQuiescentState_ct :: "ct_tree \<Rightarrow> nat \<Rightarrow> ct_tree" where
  "leaveQuiescentState_ct s tid = s\<lparr>quiescent_ct := (quiescent_ct s)(tid := False)\<rparr>"

definition enterQuiescentState_ct :: "ct_tree \<Rightarrow> nat \<Rightarrow> ct_tree" where
  "enterQuiescentState_ct s tid = s\<lparr>quiescent_ct := (quiescent_ct s)(tid := True)\<rparr>"

definition rcu_lock_ct :: "ct_tree \<Rightarrow> nat \<Rightarrow> ct_tree" where
  "rcu_lock_ct s tid = s\<lparr>rcu_ct := readLock_u tid (rcu_ct s)\<rparr>"

definition rcu_unlock_ct :: "ct_tree \<Rightarrow> nat \<Rightarrow> ct_tree" where
  "rcu_unlock_ct s tid = s\<lparr>rcu_ct := readUnlock_u tid (rcu_ct s)\<rparr>"

definition initThread_ct :: "ct_tree \<Rightarrow> nat \<Rightarrow> ct_tree" where
  "initThread_ct s tid =
     (if init_ct s tid then s
      else s\<lparr>init_ct := (init_ct s)(tid := \<not> init_ct s tid), rq_ct := rq_initThread (rq_ct s) tid\<rparr>)"

definition deinitThread_ct :: "ct_tree \<Rightarrow> nat \<Rightarrow> ct_tree" where
  "deinitThread_ct s tid =
     (if \<not> init_ct s tid then s
      else s\<lparr>init_ct := (init_ct s)(tid := \<not> init_ct s tid), rq_ct := rq_deinitThread (rq_ct s) tid\<rparr>)"

section \<open>Access to nodes\<close>

definition keyof_ct :: "ct_node list \<Rightarrow> ptr \<Rightarrow> int res" where
  "keyof_ct h p = obind (deref h p) (\<lambda>n. Inr (key_ct n))"

definition childof_ct :: "ct_node list \<Rightarrow> ptr \<Rightarrow> nat \<Rightarrow> ptr res" where
  "childof_ct h p d = obind (deref h p) (\<lambda>n. Inr (child_ct n d))"

definition bundleof_ct :: "ct_node list \<Rightarrow> nat \<Rightarrow> ptr \<Rightarrow> ptr bundle_t res" where
  "bundleof_ct h d p = obind (deref h p) (\<lambda>n. Inr (rqbundle_ct n d))"

definition upd_bundle_ct ::
    "ct_node list \<Rightarrow> ptr \<times> nat \<Rightarrow> (ptr bundle_t \<Rightarrow> ptr bundle_t res) \<Rightarrow> ct_node list res" where
  "upd_bundle_ct h r g = obind (deref h (fst r)) (\<lambda>n. obind (g (rqbundle_ct n (snd r)))
     (\<lambda>b. update_at h (fst r) (\<lambda>n. n\<lparr>rqbundle_ct := (rqbundle_ct n)(snd r := b)\<rparr>)))"

definition set_child_ct :: "ct_node list \<Rightarrow> ptr \<Rightarrow> nat \<Rightarrow> ptr \<Rightarrow> ct_node list res" where
  "set_child_ct h p d q = update_at h p (\<lambda>n. n\<lparr>child_ct := (child_ct n)(d := q)\<rparr>)"

definition set_marked_ct :: "ct_node list \<Rightarrow> ptr \<Rightarrow> ct_node list res" where
  "set_marked_ct h p = update_at h p (\<lambda>n. n\<lparr>marked_ct := True\<rparr>)"

text \<open>\<open>if (p->child[d] == NULL) p->tag[d]++\<close>\<close>

definition bump_tag_ct :: "ct_node list \<Rightarrow> ptr \<Rightarrow> nat \<Rightarrow> ct_node list res" where
  "bump_tag_ct h p d = obind (childof_ct h p d) (\<lambda>q.
     if q = None then update_at h p (\<lambda>n. n\<lparr>tag_ct := (tag_ct n)(d := tag_ct n d + 1)\<rparr>) else Inr h)"

definition lock_node_ct :: "ct_node list \<Rightarrow> ptr \<Rightarrow> ct_node list res" where
  "lock_node_ct h p = obind (deref h p) (\<lambda>n. obind (acquireLock (lock_ct n))
     (\<lambda>l. update_at h p (\<lambda>n. n\<lparr>lock_ct := l\<rparr>)))"

definition unlock_node_ct :: "ct_node list \<Rightarrow> ptr \<Rightarrow> ct_node list res" where
  "unlock_node_ct h p = update_at h p (\<lambda>n. n\<lparr>lock_ct := releaseLock (lock_ct n)\<rparr>)"

definition newNode_ct :: "ct_node list \<Rightarrow> int \<Rightarrow> int \<Rightarrow> ptr \<times> ct_node list" where
  "newNode_ct h key val = (Some (length h),
     h @ [\<lparr>key_ct = key, val_ct = val, child_ct = (\<lambda>_. None), tag_ct = (\<lambda>_. 0), lock_ct = False,
       marked_ct = False, rqbundle_ct = (\<lambda>_. init_bundle)\<rparr>])"

definition getKeys_ct :: "int \<Rightarrow> ct_node \<Rightarrow> dict" where
  "getKeys_ct no_key n = (if key_ct n \<ge> no_key then [] else [(key_ct n, val_ct n)])"

definition isInRange_ct :: "int \<Rightarrow> int \<Rightarrow> int \<Rightarrow> int \<Rightarrow> bool" where
  "isInRange_ct no_key k lo hi \<longleftrightarrow> k \<noteq> no_key \<and> lo \<le> k \<and> k \<le> hi"

text \<open>\<open>validate\<close>, with the short-circuit order of its conjunctions.\<close>

definition validate_ct :: "ct_node list \<Rightarrow> ptr \<Rightarrow> int \<Rightarrow> ptr \<Rightarrow> nat \<Rightarrow> bool res" where
  "validate_ct h prev tag cur d = obind (deref h prev) (\<lambda>pn.
     if cur = None then Inr (\<not> marked_ct pn \<and> child_ct pn d = cur \<and> tag_ct pn d = tag)
     else if marked_ct pn then Inr False
     else obind (deref h cur) (\<lambda>cn. Inr (\<not> marked_ct cn \<and> child_ct pn d = cur)))"

section \<open>Construction\<close>

definition bundle_citrustree ::
    "nat \<Rightarrow> nat \<Rightarrow> build_mode \<Rightarrow> bool \<Rightarrow> int \<Rightarrow> int \<Rightarrow> ct_tree res" where
  "bundle_citrustree max_tid numProcesses md cl bigger_than_max_key no_value =
     obind (RQProvider max_tid numProcesses md cl) (\<lambda>prov.
     (let s0 = initThread_ct \<lparr>heap_ct = [], root_ct = None, rq_ct = prov, rcu_ct = init_u,
            threads_ct = numProcesses, retired_ct = [], quiescent_ct = (\<lambda>_. True), init_ct = (\<lambda>_. False),
            NO_KEY_ct = bigger_than_max_key, NO_VALUE_ct = no_value\<rparr> 0;
          (rootchild, h0) = newNode_ct (heap_ct s0) bigger_than_max_key no_value;
          (rt, h1) = newNode_ct h0 bigger_than_max_key no_value;
          bundles = [((rt, 0), rootchild), ((rt, 1), None), ((rootchild, 0), None), ((rootchild, 1), None)]
      in obind (set_child_ct h1 rt 0 rootchild) (\<lambda>h2.
         obind (prepare_bundles (rq_ct s0) upd_bundle_ct bundles h2) (\<lambda>h3.
         obind (linearize_update_at_write (rq_ct s0) 0 (\<lambda>(h, _). Inr (h, rt)) (h3, None)) (\<lambda>(lin_time, rq', h4, rt').
         obind (finalize_bundles upd_bundle_ct bundles lin_time h4) (\<lambda>h5.
         Inr (s0\<lparr>heap_ct := h5, root_ct := rt', rq_ct := rq'\<rparr>)))))))"

section \<open>Searching\<close>

text \<open>The loop of \<open>SEARCH\<close>, \<open>find\<close> and \<open>contains\<close>; \<open>ckey\<close> keeps its value when \<open>curr\<close> becomes null.\<close>

fun search_loop_ct :: "nat \<Rightarrow> ct_node list \<Rightarrow> int \<Rightarrow> ptr \<Rightarrow> ptr \<Rightarrow> nat \<Rightarrow> int \<Rightarrow> (ptr \<times> ptr \<times> nat) res" where
  "search_loop_ct 0 h key prev cur d ckey = Inl Timeout"
| "search_loop_ct (Suc n) h key prev cur d ckey =
     (if cur \<noteq> None \<and> ckey \<noteq> key
      then (let d' = (if ckey > key then 0 else 1) in
        obind (childof_ct h cur d') (\<lambda>q.
        obind (if q \<noteq> None then keyof_ct h q else Inr ckey) (\<lambda>ckey'.
        search_loop_ct n h key cur q d' ckey')))
      else Inr (prev, cur, d))"

definition SEARCH_ct :: "ct_tree \<Rightarrow> int \<Rightarrow> (ptr \<times> ptr \<times> nat) res" where
  "SEARCH_ct s key = (let h = heap_ct s in
     obind (childof_ct h (root_ct s) 0) (\<lambda>cur. obind (keyof_ct h cur) (\<lambda>ckey.
       search_loop_ct (Suc (length h)) h key (root_ct s) cur 0 ckey)))"

definition find_ct :: "ct_tree \<Rightarrow> nat \<Rightarrow> int \<Rightarrow> (ct_tree \<times> int \<times> bool) res" where
  "find_ct s tid key =
     (let s0 = rcu_lock_ct (leaveQuiescentState_ct s tid) tid in
      obind (SEARCH_ct s0 key) (\<lambda>(_, cur, _).
      (let s1 = rcu_unlock_ct s0 tid in
       if cur = None then Inr (enterQuiescentState_ct s1 tid, NO_VALUE_ct s1, False)
       else obind (deref (heap_ct s1) cur) (\<lambda>cn.
         Inr (enterQuiescentState_ct s1 tid, val_ct cn, True)))))"

text \<open>
  \<open>contains\<close> reads the bundle of the parent at which the search has ended, and goes on along
  the newest entries of the bundles.
\<close>

fun bundle_search_ct :: "nat \<Rightarrow> ct_node list \<Rightarrow> int \<Rightarrow> ptr \<Rightarrow> int \<Rightarrow> ptr res" where
  "bundle_search_ct 0 h key cur ckey = Inl Timeout"
| "bundle_search_ct (Suc n) h key cur ckey =
     (if cur \<noteq> None \<and> ckey \<noteq> key
      then obind (bundleof_ct h (if ckey > key then 0 else 1) cur) (\<lambda>b. obind (getPtr b) (\<lambda>q.
        obind (if q \<noteq> None then keyof_ct h q else Inr ckey) (\<lambda>ckey'.
        bundle_search_ct n h key q ckey')))
      else Inr cur)"

definition contains_ct :: "ct_tree \<Rightarrow> nat \<Rightarrow> int \<Rightarrow> (ct_tree \<times> bool) res" where
  "contains_ct s tid key =
     (let s0 = rcu_lock_ct (leaveQuiescentState_ct s tid) tid; h = heap_ct s0 in
      obind (SEARCH_ct s0 key) (\<lambda>(pred, _, d).
      obind (bundleof_ct h d pred) (\<lambda>b. obind (getPtr b) (\<lambda>c0.
      obind (if c0 \<noteq> None then keyof_ct h c0 else Inr 0) (\<lambda>ck.
      obind (bundle_search_ct (Suc (length h)) h key c0 ck) (\<lambda>cur.
      (let s1 = rcu_unlock_ct s0 tid;
           s2 = enterQuiescentState_ct (s1\<lparr>rq_ct := end_traversal (rq_ct s1) tid\<rparr>) tid
       in if cur = None then Inr (s2, False)
          else obind (deref h cur) (\<lambda>_. Inr (s2, True)))))))))"

section \<open>Updates\<close>

text \<open>\<open>doInsert\<close> from the acquisition of \<open>prev->lock\<close> on: \<open>None\<close> is \<open>goto retry\<close>.\<close>

definition insert_locked_ct ::
    "ct_tree \<Rightarrow> nat \<Rightarrow> ptr \<Rightarrow> int \<Rightarrow> ptr \<Rightarrow> nat \<Rightarrow> int \<Rightarrow> int \<Rightarrow> (ct_tree \<times> int option) res" where
  "insert_locked_ct s tid prev tag cur d key val =
     obind (lock_node_ct (heap_ct s) prev) (\<lambda>h0.
     obind (validate_ct h0 prev tag cur d) (\<lambda>ok.
     if ok then
       (let (nnode, h1) = newNode_ct h0 key val;
            bundles = [((nnode, 0), None), ((nnode, 1), None), ((prev, d), nnode)] in
        obind (lock_node_ct h1 nnode) (\<lambda>h2.
        obind (prepare_bundles (rq_ct s) upd_bundle_ct bundles h2) (\<lambda>h3.
        obind (linearize_update_at_write (rq_ct s) tid (\<lambda>h. set_child_ct h prev d nnode) h3) (\<lambda>(lin_time, rq', h4).
        obind (finalize_bundles upd_bundle_ct bundles lin_time h4) (\<lambda>h5.
        obind (unlock_node_ct h5 nnode) (\<lambda>h6. obind (unlock_node_ct h6 prev) (\<lambda>h7.
        Inr (enterQuiescentState_ct (s\<lparr>heap_ct := h7, rq_ct := rq'\<rparr>) tid, Some (NO_VALUE_ct s)))))))))
     else obind (unlock_node_ct h0 prev) (\<lambda>h1. Inr (enterQuiescentState_ct (s\<lparr>heap_ct := h1\<rparr>) tid, None))))"

text \<open>The search of an update, inside a read-side critical section, with the tag that is read last.\<close>

definition insert_search_ct :: "ct_tree \<Rightarrow> nat \<Rightarrow> int \<Rightarrow> (ct_tree \<times> ptr \<times> ptr \<times> nat \<times> int) res" where
  "insert_search_ct s tid key =
     (let s0 = rcu_lock_ct (leaveQuiescentState_ct s tid) tid in
      obind (SEARCH_ct s0 key) (\<lambda>(prev, cur, d). obind (deref (heap_ct s0) prev) (\<lambda>pn.
        Inr (rcu_unlock_ct s0 tid, prev, cur, d, tag_ct pn d))))"

fun doInsert_ct :: "nat \<Rightarrow> ct_tree \<Rightarrow> nat \<Rightarrow> int \<Rightarrow> int \<Rightarrow> bool \<Rightarrow> (ct_tree \<times> int) res" where
  "doInsert_ct 0 s tid key val onlyIfAbsent = Inl Timeout"
| "doInsert_ct (Suc tries) s tid key val onlyIfAbsent =
     obind (insert_search_ct s tid key) (\<lambda>(s0, prev, cur, d, tag).
     if cur \<noteq> None
     then (if onlyIfAbsent
       then obind (deref (heap_ct s0) cur) (\<lambda>cn. (let result = val_ct cn in
         obind (require AssertFail (result \<noteq> NO_VALUE_ct s0)) (\<lambda>_. Inr (enterQuiescentState_ct s0 tid, result))))
       else Inl Exit)
     else obind (insert_locked_ct s0 tid prev tag cur d key val) (\<lambda>(s1, r). case r of
         None \<Rightarrow> doInsert_ct tries s1 tid key val onlyIfAbsent
       | Some result \<Rightarrow> Inr (s1, result)))"

definition insertIfAbsent_ct :: "nat \<Rightarrow> ct_tree \<Rightarrow> nat \<Rightarrow> int \<Rightarrow> int \<Rightarrow> (ct_tree \<times> int) res" where
  "insertIfAbsent_ct tries s tid key val = doInsert_ct tries s tid key val True"

definition insert_ct :: "nat \<Rightarrow> ct_tree \<Rightarrow> nat \<Rightarrow> int \<Rightarrow> int \<Rightarrow> (ct_tree \<times> int) res" where
  "insert_ct tries s tid key val = doInsert_ct tries s tid key val False"

text \<open>
  \<open>erase\<close> of a node with at most one child: \<open>e\<close> is the direction of the child that replaces
  it (1 when the left child is missing, else 0). The locks on both nodes are held.
\<close>

definition erase_bypass_ct ::
    "ct_tree \<Rightarrow> nat \<Rightarrow> ct_node list \<Rightarrow> ptr \<Rightarrow> ptr \<Rightarrow> nat \<Rightarrow> nat \<Rightarrow> (ct_tree \<times> (int \<times> bool) option) res" where
  "erase_bypass_ct s tid h0 prev cur d e =
     obind (set_marked_ct h0 cur) (\<lambda>h1.
     obind (childof_ct h1 cur e) (\<lambda>q.
     obind (childof_ct h1 (root_ct s) 0) (\<lambda>rc.
     (let bundles = [((prev, d), q), ((cur, 0), rc), ((cur, 1), rc)] in
      obind (prepare_bundles (rq_ct s) upd_bundle_ct bundles h1) (\<lambda>h2.
      obind (linearize_update_at_write (rq_ct s) tid (\<lambda>h. set_child_ct h prev d q) h2) (\<lambda>(lin_time, rq', h3).
      obind (finalize_bundles upd_bundle_ct bundles lin_time h3) (\<lambda>h4.
      obind (bump_tag_ct h4 prev d) (\<lambda>h5.
      obind (deref h5 cur) (\<lambda>cn.
      obind (unlock_node_ct h5 prev) (\<lambda>h6. obind (unlock_node_ct h6 cur) (\<lambda>h7.
      Inr (enterQuiescentState_ct (s\<lparr>heap_ct := h7, rq_ct := rq',
          retired_ct := physical_deletion_succeeded (retired_ct s) [cur, None]\<rparr>) tid,
        Some (val_ct cn, True)))))))))))))"

text \<open>The walk to the successor: \<open>while (next != NULL)\<close> to the left.\<close>

fun succ_loop_ct :: "nat \<Rightarrow> ct_node list \<Rightarrow> ptr \<Rightarrow> ptr \<Rightarrow> ptr \<Rightarrow> (ptr \<times> ptr) res" where
  "succ_loop_ct 0 h prevSucc succ nxt = Inl Timeout"
| "succ_loop_ct (Suc n) h prevSucc succ nxt =
     (if nxt \<noteq> None then obind (childof_ct h nxt 0) (\<lambda>q. succ_loop_ct n h succ nxt q)
      else Inr (prevSucc, succ))"

text \<open>
  The last case of \<open>erase\<close>, once the successor and its parent are locked and valid: a copy of
  the successor takes the place of the node; after the grace period the successor is unlinked.
\<close>

definition erase_replace_ct ::
    "ct_tree \<Rightarrow> nat \<Rightarrow> ct_node list \<Rightarrow> ptr \<Rightarrow> ptr \<Rightarrow> nat \<Rightarrow> ptr \<Rightarrow> ptr \<Rightarrow> (ct_tree \<times> (int \<times> bool) option) res" where
  "erase_replace_ct s tid h0 prev cur d prevSucc succ =
     obind (set_marked_ct h0 cur) (\<lambda>h1.
     obind (deref h1 succ) (\<lambda>sn.
     obind (deref h1 cur) (\<lambda>cn.
     (let (nnode, h2) = newNode_ct h1 (key_ct sn) (val_ct sn) in
      obind (set_child_ct h2 nnode 0 (child_ct cn 0)) (\<lambda>h3.
      obind (set_child_ct h3 nnode 1 (child_ct cn 1)) (\<lambda>h4.
      obind (lock_node_ct h4 nnode) (\<lambda>h5.
      obind (childof_ct h5 (root_ct s) 0) (\<lambda>rc.
      (let bundles = [((prev, d), nnode), ((nnode, 0), child_ct cn 0),
             ((nnode, 1), if prevSucc \<noteq> cur then child_ct cn 1 else child_ct sn 1),
             ((cur, 0), rc), ((cur, 1), rc)]
           @ (if prevSucc \<noteq> cur then [((prevSucc, 0), child_ct sn 1)] else []) in
       obind (prepare_bundles (rq_ct s) upd_bundle_ct bundles h5) (\<lambda>h6.
       obind (linearize_update_at_write (rq_ct s) tid (\<lambda>h. set_child_ct h prev d nnode) h6) (\<lambda>(lin_time, rq', h7).
       obind (finalize_bundles upd_bundle_ct bundles lin_time h7) (\<lambda>h8.
       obind (synchronize_u (threads_ct s) (rcu_ct s)) (\<lambda>_.
       obind (set_marked_ct h8 succ) (\<lambda>h9.
       obind (childof_ct h9 succ 1) (\<lambda>q.
       obind (if prevSucc = cur
              then obind (set_child_ct h9 nnode 1 q) (\<lambda>h. bump_tag_ct h nnode 1)
              else obind (set_child_ct h9 prevSucc 0 q) (\<lambda>h. bump_tag_ct h prevSucc 0)) (\<lambda>h10.
       obind (deref h10 cur) (\<lambda>cn'.
       obind (unlock_node_ct h10 prev) (\<lambda>h11. obind (unlock_node_ct h11 nnode) (\<lambda>h12.
       obind (unlock_node_ct h12 cur) (\<lambda>h13.
       obind (if prevSucc \<noteq> cur then unlock_node_ct h13 prevSucc else Inr h13) (\<lambda>h14.
       obind (unlock_node_ct h14 succ) (\<lambda>h15.
       Inr (enterQuiescentState_ct (s\<lparr>heap_ct := h15, rq_ct := rq',
           retired_ct := physical_deletion_succeeded (retired_ct s) [cur, succ, None]\<rparr>) tid,
         Some (val_ct cn', True))))))))))))))))))))))))"

text \<open>\<open>erase\<close> from the acquisition of the locks on: \<open>None\<close> is \<open>goto retry\<close>.\<close>

definition erase_locked_ct ::
    "ct_tree \<Rightarrow> nat \<Rightarrow> ptr \<Rightarrow> ptr \<Rightarrow> nat \<Rightarrow> (ct_tree \<times> (int \<times> bool) option) res" where
  "erase_locked_ct s tid prev cur d =
     obind (lock_node_ct (heap_ct s) prev) (\<lambda>h0. obind (lock_node_ct h0 cur) (\<lambda>h1.
     obind (validate_ct h1 prev 0 cur d) (\<lambda>ok.
     if \<not> ok
     then obind (unlock_node_ct h1 prev) (\<lambda>h2. obind (unlock_node_ct h2 cur) (\<lambda>h3.
       Inr (enterQuiescentState_ct (s\<lparr>heap_ct := h3\<rparr>) tid, None)))
     else obind (deref h1 cur) (\<lambda>cn.
       if child_ct cn 0 = None then erase_bypass_ct s tid h1 prev cur d 1
       else if child_ct cn 1 = None then erase_bypass_ct s tid h1 prev cur d 0
       else
         obind (childof_ct h1 (child_ct cn 1) 0) (\<lambda>nxt.
         obind (succ_loop_ct (Suc (length h1)) h1 cur (child_ct cn 1) nxt) (\<lambda>(prevSucc, succ).
         (let succDirection = (if prevSucc \<noteq> cur then 0 else 1) in
          obind (if prevSucc \<noteq> cur then lock_node_ct h1 prevSucc else Inr h1) (\<lambda>h2.
          obind (lock_node_ct h2 succ) (\<lambda>h3.
          obind (validate_ct h3 prevSucc 0 succ succDirection) (\<lambda>ok1.
          obind (if ok1 then obind (deref h3 succ) (\<lambda>sn. validate_ct h3 succ (tag_ct sn 0) None 0) else Inr False) (\<lambda>ok2.
          if ok2 then erase_replace_ct s tid h3 prev cur d prevSucc succ
          else obind (unlock_node_ct h3 prev) (\<lambda>h4. obind (unlock_node_ct h4 cur) (\<lambda>h5.
            obind (if prevSucc \<noteq> cur then unlock_node_ct h5 prevSucc else Inr h5) (\<lambda>h6.
            obind (unlock_node_ct h6 succ) (\<lambda>h7.
            Inr (enterQuiescentState_ct (s\<lparr>heap_ct := h7\<rparr>) tid, None))))))))))))))))"

fun erase_ct :: "nat \<Rightarrow> ct_tree \<Rightarrow> nat \<Rightarrow> int \<Rightarrow> (ct_tree \<times> int \<times> bool) res" where
  "erase_ct 0 s tid key = Inl Timeout"
| "erase_ct (Suc tries) s tid key =
     (let s0 = rcu_lock_ct (leaveQuiescentState_ct s tid) tid in
      obind (SEARCH_ct s0 key) (\<lambda>(prev, cur, d).
      (let s1 = rcu_unlock_ct s0 tid in
       if cur = None then Inr (enterQuiescentState_ct s1 tid, NO_VALUE_ct s1, False)
       else obind (erase_locked_ct s1 tid prev cur d) (\<lambda>(s2, r). case r of
           None \<Rightarrow> erase_ct tries s2 tid key
         | Some (v, ok) \<Rightarrow> Inr (s2, v, ok)))))"

section \<open>Range queries\<close>

text \<open>Phase 1: from the root child along the links to the first node in the range.\<close>

fun rq_descend_ct :: "nat \<Rightarrow> ct_node list \<Rightarrow> int \<Rightarrow> int \<Rightarrow> ptr \<Rightarrow> ptr \<Rightarrow> nat \<Rightarrow> (ptr \<times> nat) res" where
  "rq_descend_ct 0 h lo hi pred cur d = Inl Timeout"
| "rq_descend_ct (Suc n) h lo hi pred cur d =
     (if cur = None then Inr (pred, d)
      else obind (keyof_ct h cur) (\<lambda>k.
        if k \<ge> lo \<and> k \<le> hi then Inr (pred, d)
        else (let d' = (if k < lo then 1 else 0) in
          obind (childof_ct h cur d') (\<lambda>q. rq_descend_ct n h lo hi cur q d'))))"

text \<open>Phase 3, first loop. It reads the bundle of \<open>pred\<close>, not the one of \<open>curr\<close>.\<close>

fun rq_enter_ct :: "nat \<Rightarrow> ct_node list \<Rightarrow> timestamp_t \<Rightarrow> int \<Rightarrow> int \<Rightarrow> ptr \<Rightarrow> ptr \<Rightarrow> ptr res" where
  "rq_enter_ct 0 h ts lo hi pred cur = Inl Timeout"
| "rq_enter_ct (Suc n) h ts lo hi pred cur =
     (if cur = None then Inr cur
      else obind (keyof_ct h cur) (\<lambda>k.
        if k \<ge> lo \<and> k \<le> hi then Inr cur
        else obind (follow (bundleof_ct h (if k < lo then 1 else 0)) ts pred) (\<lambda>q.
          rq_enter_ct n h ts lo hi q q)))"

text \<open>Phase 3, second loop: depth-first search from the entry node, with a bounded stack.\<close>

fun rq_dfs_ct ::
    "nat \<Rightarrow> ct_node list \<Rightarrow> int \<Rightarrow> timestamp_t \<Rightarrow> int \<Rightarrow> int \<Rightarrow> ptr block \<Rightarrow> dict \<Rightarrow> dict res" where
  "rq_dfs_ct 0 h no_key ts lo hi stack result = Inl Timeout"
| "rq_dfs_ct (Suc n) h no_key ts lo hi stack result =
     (if isEmpty_b stack then Inr result
      else obind (pop_b stack) (\<lambda>(node, st0).
        obind (deref h node) (\<lambda>nd.
        obind (traversal_try_add (getKeys_ct no_key) (isInRange_ct no_key) nd result lo hi) (\<lambda>result'.
         obind (follow (bundleof_ct h 0) ts node) (\<lambda>left. obind (follow (bundleof_ct h 1) ts node) (\<lambda>right.
         obind (if left \<noteq> None \<and> lo < key_ct nd then push_b left st0 else Inr st0) (\<lambda>st1.
         obind (if right \<noteq> None \<and> hi > key_ct nd then push_b right st1 else Inr st1) (\<lambda>st2.
         rq_dfs_ct n h no_key ts lo hi st2 result'))))))))"

definition new_stack :: "ptr block" where
  "new_stack = \<lparr>bid = 0, data_b = (\<lambda>_. None), size_b = 0\<rparr>"

text \<open>From \<open>start_traversal\<close> on, for the place where phase 1 has ended.\<close>

definition rq_phases_ct :: "ct_tree \<Rightarrow> nat \<Rightarrow> ptr \<Rightarrow> nat \<Rightarrow> int \<Rightarrow> int \<Rightarrow> (ct_tree \<times> dict) res" where
  "rq_phases_ct s tid pred d lo hi =
     (let h = heap_ct s; n = Suc (length h); (ts, rq') = start_traversal (rq_ct s) tid;
          s' = enterQuiescentState_ct (s\<lparr>rq_ct := end_traversal rq' tid\<rparr>) tid in
      obind (follow (bundleof_ct h d) ts pred) (\<lambda>c0.
      obind (rq_enter_ct (Suc n) h ts lo hi pred c0) (\<lambda>cur.
        if cur = None then Inr (s', [])
        else obind (push_b cur new_stack) (\<lambda>stack.
          obind (rq_dfs_ct n h (NO_KEY_ct s) ts lo hi stack []) (\<lambda>result. Inr (s', result))))))"

definition rangeQuery_ct :: "ct_tree \<Rightarrow> nat \<Rightarrow> int \<Rightarrow> int \<Rightarrow> (ct_tree \<times> dict) res" where
  "rangeQuery_ct s tid lo hi =
     (let s0 = leaveQuiescentState_ct s tid; h = heap_ct s0 in
      obind (childof_ct h (root_ct s0) 0) (\<lambda>cur.
      obind (rq_descend_ct (Suc (length h)) h lo hi cur cur 0) (\<lambda>(pred, d).
      rq_phases_ct s0 tid pred d lo hi)))"

section \<open>Maintenance and debugging\<close>

text \<open>The loop of \<open>cleanup\<close>: reclaim both bundles of every node below the root.\<close>

fun clean_dfs_ct :: "nat \<Rightarrow> timestamp_t \<Rightarrow> ct_node list \<Rightarrow> ptr block \<Rightarrow> ct_node list res" where
  "clean_dfs_ct 0 t h stack = Inl Timeout"
| "clean_dfs_ct (Suc n) t h stack =
     (if isEmpty_b stack then Inr h
      else obind (pop_b stack) (\<lambda>(node, st0). obind (deref h node) (\<lambda>nd.
        obind (if child_ct nd 0 \<noteq> None then push_b (child_ct nd 0) st0 else Inr st0) (\<lambda>st1.
        obind (if child_ct nd 1 \<noteq> None then push_b (child_ct nd 1) st1 else Inr st1) (\<lambda>st2.
        obind (upd_bundle_ct h (node, 0) (\<lambda>b. Inr (fst (reclaimEntries t b)))) (\<lambda>h1.
        obind (upd_bundle_ct h1 (node, 1) (\<lambda>b. Inr (fst (reclaimEntries t b)))) (\<lambda>h2.
        clean_dfs_ct n t h2 st2)))))))"

definition cleanup_ct :: "ct_tree \<Rightarrow> nat \<Rightarrow> ct_tree res" where
  "cleanup_ct s tid =
     (let s0 = leaveQuiescentState_ct s tid in
      obind (get_oldest_active_rq (rq_ct s0)) (\<lambda>t.
      obind (childof_ct (heap_ct s0) (root_ct s0) 0) (\<lambda>cur.
      obind (push_b cur new_stack) (\<lambda>stack.
      obind (clean_dfs_ct (Suc (length (heap_ct s0))) t (heap_ct s0) stack) (\<lambda>h.
      Inr (enterQuiescentState_ct (s0\<lparr>heap_ct := h\<rparr>) tid))))))"

text \<open>
  \<open>validateBundles\<close>: do the newest entries match the links? The message for a mismatch reads
  the keys behind both pointers without a null check.
\<close>

definition check_bundle_ct :: "ct_node list \<Rightarrow> ct_node \<Rightarrow> nat \<Rightarrow> bool res" where
  "check_bundle_ct h nd d = obind (first_bundle (rqbundle_ct nd d)) (\<lambda>(q, _).
     if child_ct nd d \<noteq> q
     then obind (deref h (child_ct nd d)) (\<lambda>_. obind (deref h q) (\<lambda>_. Inr False))
     else Inr True)"

fun validate_dfs_ct :: "nat \<Rightarrow> ct_node list \<Rightarrow> ptr block \<Rightarrow> bool \<Rightarrow> bool res" where
  "validate_dfs_ct 0 h stack valid = Inl Timeout"
| "validate_dfs_ct (Suc n) h stack valid =
     (if isEmpty_b stack then Inr valid
      else obind (pop_b stack) (\<lambda>(node, st0). obind (deref h node) (\<lambda>nd.
        obind (check_bundle_ct h nd 0) (\<lambda>ok0. obind (check_bundle_ct h nd 1) (\<lambda>ok1.
        obind (if child_ct nd 0 \<noteq> None then push_b (child_ct nd 0) st0 else Inr st0) (\<lambda>st1.
        obind (if child_ct nd 1 \<noteq> None then push_b (child_ct nd 1) st1 else Inr st1) (\<lambda>st2.
        validate_dfs_ct n h st2 (valid \<and> ok0 \<and> ok1))))))))"

definition validateBundles_ct :: "ct_tree \<Rightarrow> bool res" where
  "validateBundles_ct s = obind (childof_ct (heap_ct s) (root_ct s) 0) (\<lambda>cur.
     obind (push_b cur new_stack) (\<lambda>stack.
     validate_dfs_ct (Suc (length (heap_ct s))) (heap_ct s) stack True))"

definition validate_node_ct :: "ct_node \<Rightarrow> bool res" where
  "validate_node_ct nd = obind (first_bundle (rqbundle_ct nd 0)) (\<lambda>(q0, _).
     obind (first_bundle (rqbundle_ct nd 1)) (\<lambda>(q1, _). Inr (child_ct nd 0 = q0 \<and> child_ct nd 1 = q1)))"

fun keysum_ct :: "nat \<Rightarrow> ct_node list \<Rightarrow> ptr \<Rightarrow> int res" where
  "keysum_ct 0 h p = Inl Timeout"
| "keysum_ct (Suc n) h p = (if p = None then Inr 0 else obind (deref h p) (\<lambda>nd.
     obind (keysum_ct n h (child_ct nd 0)) (\<lambda>l. obind (keysum_ct n h (child_ct nd 1)) (\<lambda>r.
       Inr (key_ct nd + l + r)))))"

definition debugKeySum_ct :: "ct_tree \<Rightarrow> int res" where
  "debugKeySum_ct s = (let h = heap_ct s in
     obind (childof_ct h (root_ct s) 0) (\<lambda>c. obind (childof_ct h c 0) (keysum_ct (Suc (length h)) h)))"

fun size_ct :: "nat \<Rightarrow> ct_node list \<Rightarrow> ptr \<Rightarrow> nat res" where
  "size_ct 0 h p = Inl Timeout"
| "size_ct (Suc n) h p = (if p = None then Inr 0 else obind (deref h p) (\<lambda>nd.
     obind (size_ct n h (child_ct nd 0)) (\<lambda>l. obind (size_ct n h (child_ct nd 1)) (\<lambda>r. Inr (1 + l + r)))))"

definition getSizeInNodes_ct :: "ct_tree \<Rightarrow> nat res" where
  "getSizeInNodes_ct s = size_ct (Suc (length (heap_ct s))) (heap_ct s) (root_ct s)"

text \<open>\<open>dfsDeallocateBottomUp\<close>: the nodes given back, children before parents.\<close>

fun dfsDeallocateBottomUp_ct :: "nat \<Rightarrow> ct_node list \<Rightarrow> ptr \<Rightarrow> ptr list res" where
  "dfsDeallocateBottomUp_ct 0 h u = Inl Timeout"
| "dfsDeallocateBottomUp_ct (Suc n) h u = (if u = None then Inr [] else obind (deref h u) (\<lambda>nd.
     obind (if child_ct nd 0 \<noteq> None then dfsDeallocateBottomUp_ct n h (child_ct nd 0) else Inr []) (\<lambda>xs.
     obind (if child_ct nd 1 \<noteq> None then dfsDeallocateBottomUp_ct n h (child_ct nd 1) else Inr []) (\<lambda>ys.
     Inr (xs @ ys @ [u])))))"

definition destroy_ct :: "ct_tree \<Rightarrow> ptr list res" where
  "destroy_ct s = dfsDeallocateBottomUp_ct (Suc (length (heap_ct s))) (heap_ct s) (root_ct s)"

end
