(* ===== verification/Heap_Tree.thy ===== *)
theory Heap_Tree
  imports Prelude "HOL-Library.Tree"
begin

text \<open>
  Binary trees in a heap: a tree of addresses describes the nodes that are reached from a
  pointer through a function giving the two children of an address. Updates of one child
  replace one subtree; in-order lists say what that does to the order of the keys.
\<close>

fun tree_at :: "(nat \<Rightarrow> nat \<Rightarrow> ptr) \<Rightarrow> ptr \<Rightarrow> nat tree \<Rightarrow> bool" where
  "tree_at c p Leaf \<longleftrightarrow> p = None"
| "tree_at c p (Node l a r) \<longleftrightarrow> p = Some a \<and> tree_at c (c a 0) l \<and> tree_at c (c a 1) r"

text \<open>The subtree in direction \<open>d\<close> below \<open>a\<close>, and the tree with another one there.\<close>

fun sub :: "nat \<Rightarrow> nat \<Rightarrow> nat tree \<Rightarrow> nat tree" where
  "sub a d Leaf = Leaf"
| "sub a d (Node l x r) = (if x = a then (if d = 0 then l else r)
     else if a \<in> set_tree l then sub a d l else sub a d r)"

fun put :: "nat \<Rightarrow> nat \<Rightarrow> nat tree \<Rightarrow> nat tree \<Rightarrow> nat tree" where
  "put a d S Leaf = Leaf"
| "put a d S (Node l x r) = (if x = a then (if d = 0 then Node S x r else Node l x S)
     else if a \<in> set_tree l then Node (put a d S l) x r else Node l x (put a d S r))"

text \<open>The addresses reached, for evaluation.\<close>

fun build :: "nat \<Rightarrow> (nat \<Rightarrow> nat \<Rightarrow> ptr) \<Rightarrow> ptr \<Rightarrow> nat tree" where
  "build 0 c p = Leaf"
| "build (Suc n) c p = (case p of None \<Rightarrow> Leaf | Some a \<Rightarrow> Node (build n c (c a 0)) a (build n c (c a 1)))"

fun root_ptr :: "nat tree \<Rightarrow> ptr" where
  "root_ptr Leaf = None"
| "root_ptr (Node l a r) = Some a"

lemma tree_at_root_ptr: "tree_at c p T \<Longrightarrow> p = root_ptr T"
  by (cases T) auto

lemma root_ptr_None [simp]: "root_ptr T = None \<longleftrightarrow> T = Leaf"
  by (cases T) auto

lemma tree_at_None [simp]: "tree_at c None R \<longleftrightarrow> R = Leaf"
  by (cases R) auto

lemma tree_at_build: "tree_at c p R \<Longrightarrow> height R \<le> n \<Longrightarrow> build n c p = R"
proof (induction n arbitrary: p R)
  case 0
  then show ?case by (cases R) auto
next
  case (Suc n)
  then show ?case by (cases R) auto
qed

lemma tree_at_unique: "tree_at c p R \<Longrightarrow> tree_at c p R' \<Longrightarrow> R = R'"
  by (metis max.cobounded1 max.cobounded2 tree_at_build)

lemma height_inorder: "height R \<le> length (inorder R)"
  by (induction R) auto

lemma tree_at_cong:
  "tree_at c p R \<Longrightarrow> (\<And>x d. x \<in> set_tree R \<Longrightarrow> d < 2 \<Longrightarrow> c' x d = c x d) \<Longrightarrow> tree_at c' p R"
  by (induction R arbitrary: p) auto

lemma set_sub: "set_tree (sub a d R) \<subseteq> set_tree R"
  by (induction R) auto

lemma tree_at_sub: "tree_at c p R \<Longrightarrow> a \<in> set_tree R \<Longrightarrow> d < 2 \<Longrightarrow> tree_at c (c a d) (sub a d R)"
proof (induction R arbitrary: p)
  case (Node l x r)
  have "d = 0 \<or> d = 1" using Node.prems(3) by auto
  then show ?case using Node by auto
qed simp

lemma inorder_put:
  assumes "a \<in> set_tree R" "distinct (inorder R)"
  shows "\<exists>us vs. inorder R = us @ inorder (sub a d R) @ vs \<and> (\<forall>S. inorder (put a d S R) = us @ inorder S @ vs)
    \<and> (d = 0 \<longrightarrow> (\<exists>ws. vs = a # ws)) \<and> (d \<noteq> 0 \<longrightarrow> (\<exists>ws. us = ws @ [a]))"
  using assms
proof (induction R)
  case (Node l x r)
  show ?case
  proof (cases "x = a")
    case True
    show ?thesis
    proof (cases "d = 0")
      case d: True
      then show ?thesis using True by (intro exI [of _ "[]"] exI [of _ "a # inorder r"]) simp
    next
      case d: False
      then show ?thesis using True by (intro exI [of _ "inorder l @ [a]"] exI [of _ "[]"]) simp
    qed
  next
    case False
    show ?thesis
    proof (cases "a \<in> set_tree l")
      case True
      then obtain us vs where "inorder l = us @ inorder (sub a d l) @ vs" "\<forall>S. inorder (put a d S l) = us @ inorder S @ vs"
        "d = 0 \<longrightarrow> (\<exists>ws. vs = a # ws)" "d \<noteq> 0 \<longrightarrow> (\<exists>ws. us = ws @ [a])"
        using Node.IH(1) Node.prems(2) by auto
      then show ?thesis using True False by (intro exI [of _ us] exI [of _ "vs @ x # inorder r"]) auto
    next
      case lf: False
      then obtain us vs where "inorder r = us @ inorder (sub a d r) @ vs" "\<forall>S. inorder (put a d S r) = us @ inorder S @ vs"
        "d = 0 \<longrightarrow> (\<exists>ws. vs = a # ws)" "d \<noteq> 0 \<longrightarrow> (\<exists>ws. us = ws @ [a])"
        using Node.IH(2) Node.prems False by auto
      then show ?thesis using lf False by (intro exI [of _ "inorder l @ x # us"] exI [of _ vs]) auto
    qed
  qed
qed simp

lemma not_in_sub:
  assumes "a \<in> set_tree R" "distinct (inorder R)"
  shows "a \<notin> set_tree (sub a d R)"
proof -
  obtain us vs where i: "inorder R = us @ inorder (sub a d R) @ vs"
    "d = 0 \<longrightarrow> (\<exists>ws. vs = a # ws)" "d \<noteq> 0 \<longrightarrow> (\<exists>ws. us = ws @ [a])"
    using inorder_put [OF assms] by metis
  then have "a \<in> set us \<union> set vs" by (cases "d = 0") auto
  moreover have "(set us \<union> set vs) \<inter> set (inorder (sub a d R)) = {}" using assms(2) i(1) by auto
  ultimately show ?thesis by auto
qed

lemma tree_at_put:
  assumes "tree_at c p R" "a \<in> set_tree R" "distinct (inorder R)" "d < 2"
    and "tree_at c' (c' a d) S"
    and "\<And>x e. x \<in> set_tree R \<Longrightarrow> x \<notin> set_tree (sub a d R) \<Longrightarrow> e < 2 \<Longrightarrow> (x, e) \<noteq> (a, d) \<Longrightarrow> c' x e = c x e"
  shows "tree_at c' p (put a d S R)"
  using assms
proof (induction R arbitrary: p)
  case (Node l x r)
  have dd: "d = 0 \<or> d = 1" using Node.prems(4) by auto
  have dj: "x \<notin> set_tree l" "x \<notin> set_tree r" "set_tree l \<inter> set_tree r = {}" "distinct (inorder l)" "distinct (inorder r)"
    using Node.prems(3) by auto
  have keep: "tree_at c' (c x e) t'" if "e < 2" "tree_at c (c x e) t'" "set_tree t' \<subseteq> set_tree l \<or> set_tree t' \<subseteq> set_tree r"
      "set_tree t' \<inter> set_tree (sub a d (Node l x r)) = {}" "a \<notin> set_tree t'" for e t'
    using that(2) by (rule tree_at_cong) (use that Node.prems(6) in auto)
  show ?case
  proof (cases "x = a")
    case True
    then have sb: "sub a d (Node l x r) = (if d = 0 then l else r)" by simp
    show ?thesis using dd
    proof
      assume d: "d = 0"
      have "tree_at c' (c x 1) r" using keep [of 1 r] Node.prems(1) sb d dj True by auto
      moreover have "c' x 1 = c x 1" using Node.prems(6) [of x 1] sb d dj True by auto
      ultimately show ?thesis using Node.prems(1,5) True d by simp
    next
      assume d: "d = 1"
      have "tree_at c' (c x 0) l" using keep [of 0 l] Node.prems(1) sb d dj True by auto
      moreover have "c' x 0 = c x 0" using Node.prems(6) [of x 0] sb d dj True by auto
      ultimately show ?thesis using Node.prems(1,5) True d by simp
    qed
  next
    case False
    show ?thesis
    proof (cases "a \<in> set_tree l")
      case True
      then have sb: "sub a d (Node l x r) = sub a d l" and ar: "a \<notin> set_tree r" using False dj by auto
      note s = set_sub [of a d l]
      have "x \<notin> set_tree (sub a d l)" using s dj by auto
      then have x: "c' x 0 = c x 0" "c' x 1 = c x 1" using Node.prems(6) [of x] False sb by auto
      have "tree_at c' (c x 0) (put a d S l)"
        using Node.prems(1) Node.prems(6) sb s dj Node.prems(4,5) True
        by (intro Node.IH(1)) auto
      moreover have "tree_at c' (c x 1) r" using keep [of 1 r] Node.prems(1) sb s dj ar by auto
      ultimately show ?thesis using Node.prems(1) False True x by simp
    next
      case al: False
      then have ar: "a \<in> set_tree r" and sb: "sub a d (Node l x r) = sub a d r" using False Node.prems(2) by auto
      note s = set_sub [of a d r]
      have "x \<notin> set_tree (sub a d r)" using s dj by auto
      then have x: "c' x 0 = c x 0" "c' x 1 = c x 1" using Node.prems(6) [of x] False sb by auto
      have "tree_at c' (c x 1) (put a d S r)"
        using Node.prems(1) Node.prems(6) sb s dj Node.prems(4,5) ar
        by (intro Node.IH(2)) auto
      moreover have "tree_at c' (c x 0) l" using keep [of 0 l] Node.prems(1) sb s dj al by auto
      ultimately show ?thesis using Node.prems(1) False al x by simp
    qed
  qed
qed simp

end
