(* ===== verification/Tree_View.thy ===== *)
theory Tree_View
  imports Heap_Tree RQ_Provider
begin

text \<open>
  The abstract state machine behind the bundled search tree: nodes as fields of addresses,
  the clock, and the transitions (a leaf is linked, a node with at most one child is
  bypassed, a node with two children is replaced by a copy of its successor, entries are
  reclaimed). \<open>troot\<close> is the sentinel below the root, whose key is above all others. What the
  transitions do to the dictionary and to the snapshots is proved here.
\<close>

section \<open>Views\<close>

record tree_view =
  tkey :: "nat \<Rightarrow> int"
  tval :: "nat \<Rightarrow> int"
  tchild :: "nat \<Rightarrow> nat \<Rightarrow> ptr"
  ttag :: "nat \<Rightarrow> nat \<Rightarrow> int"
  tbun :: "nat \<Rightarrow> nat \<Rightarrow> ptr bundle_t"
  tdead :: "nat \<Rightarrow> bool"
  tlen :: nat
  troot :: nat
  tnow :: timestamp_t
  tmax :: int

definition at_time :: "tree_view \<Rightarrow> timestamp_t \<Rightarrow> nat \<Rightarrow> nat \<Rightarrow> ptr" where
  "at_time v u a d = succ_of (read_at (tbun v a d) u)"

definition tree_ok :: "tree_view \<Rightarrow> nat tree \<Rightarrow> bool" where
  "tree_ok v R \<longleftrightarrow> (\<exists>t. R = Node t (troot v) Leaf) \<and> ksorted (tkey v) (inorder R)
     \<and> (\<forall>a\<in>set_tree R. a < tlen v) \<and> tkey v (troot v) = tmax v"

text \<open>The tree of the present: links, newest bundle entries and marks agree on it.\<close>

definition live_t :: "tree_view \<Rightarrow> nat tree \<Rightarrow> bool" where
  "live_t v R \<longleftrightarrow> tree_ok v R \<and> tree_at (tchild v) (Some (troot v)) R
     \<and> (\<forall>a<tlen v. tdead v a \<longleftrightarrow> a \<notin> set_tree R)
     \<and> (\<forall>a\<in>set_tree R. \<forall>d<2. tbun v a d \<noteq> [] \<and> entry_ptr (hd (tbun v a d)) = tchild v a d)
     \<and> (\<forall>a d. bundle_ok (tbun v a d) \<and> newest_ts (tbun v a d) \<le> tnow v)
     \<and> (\<forall>a\<ge>tlen v. \<forall>d. tbun v a d = [])"

text \<open>The tree that a query at time \<open>u\<close> sees: every bundle on it has an entry old enough.\<close>

definition snap_t :: "tree_view \<Rightarrow> timestamp_t \<Rightarrow> nat tree \<Rightarrow> bool" where
  "snap_t v u R \<longleftrightarrow> tree_ok v R \<and> tree_at (at_time v u) (Some (troot v)) R
     \<and> (\<forall>a\<in>set_tree R. \<forall>d<2. read_at (tbun v a d) u \<noteq> None)"

definition wf_t :: "timestamp_t \<Rightarrow> tree_view \<Rightarrow> bool" where
  "wf_t base v \<longleftrightarrow> 0 < base \<and> base \<le> tnow v \<and> tnow v \<le> BUNDLE_MAX_TIMESTAMP
     \<and> (\<exists>R. live_t v R) \<and> (\<forall>u. base \<le> u \<and> u \<le> tnow v \<longrightarrow> (\<exists>R. snap_t v u R))"

definition pairs_t :: "tree_view \<Rightarrow> nat tree \<Rightarrow> dict" where
  "pairs_t v R = map (\<lambda>a. (tkey v a, tval v a)) (butlast (inorder R))"

definition contents_t :: "tree_view \<Rightarrow> dict" where
  "contents_t v = pairs_t v (build (tlen v) (tchild v) (Some (troot v)))"

definition snapshot_t :: "tree_view \<Rightarrow> timestamp_t \<Rightarrow> dict" where
  "snapshot_t v u = pairs_t v (build (tlen v) (at_time v u) (Some (troot v)))"

text \<open>One update seen from outside, as for the chains.\<close>

definition steps_t :: "timestamp_t \<Rightarrow> tree_view \<Rightarrow> dict \<Rightarrow> tree_view \<Rightarrow> bool" where
  "steps_t base v d v' \<longleftrightarrow>
     wf_t base v' \<and> contents_t v' = d \<and> snapshot_t v' (tnow v') = d \<and> tnow v \<le> tnow v'
     \<and> (\<forall>u. base \<le> u \<and> u \<le> tnow v \<longrightarrow> snapshot_t v' u = snapshot_t v u)"

lemma tree_okD:
  assumes "tree_ok v R"
  shows "\<exists>t. R = Node t (troot v) Leaf" "ksorted (tkey v) (inorder R)" "a \<in> set_tree R \<Longrightarrow> a < tlen v"
    "tkey v (troot v) = tmax v" "distinct (inorder R)" "height R \<le> tlen v" "troot v \<in> set_tree R"
proof -
  show "\<exists>t. R = Node t (troot v) Leaf" "ksorted (tkey v) (inorder R)" "a \<in> set_tree R \<Longrightarrow> a < tlen v"
    "tkey v (troot v) = tmax v" using assms by (simp_all add: tree_ok_def)
  show d: "distinct (inorder R)" using assms by (auto simp: tree_ok_def dest: ksorted_distinct)
  have "length (inorder R) \<le> tlen v" by (rule distinct_bounded_length [OF d]) (use assms in \<open>auto simp: tree_ok_def\<close>)
  then show "height R \<le> tlen v" using height_inorder [of R] by simp
  show "troot v \<in> set_tree R" using assms by (auto simp: tree_ok_def)
qed

lemma live_tD:
  assumes "live_t v R"
  shows "tree_ok v R" "tree_at (tchild v) (Some (troot v)) R" "a < tlen v \<Longrightarrow> tdead v a \<longleftrightarrow> a \<notin> set_tree R"
    "a \<in> set_tree R \<Longrightarrow> d < 2 \<Longrightarrow> tbun v a d \<noteq> []"
    "a \<in> set_tree R \<Longrightarrow> d < 2 \<Longrightarrow> entry_ptr (hd (tbun v a d)) = tchild v a d"
    "bundle_ok (tbun v a d)" "newest_ts (tbun v a d) \<le> tnow v" "a \<ge> tlen v \<Longrightarrow> tbun v a d = []"
  using assms by (simp_all add: live_t_def)

lemma live_snap:
  assumes "live_t v R"
  shows "snap_t v (tnow v) R"
proof -
  note l = live_tD [OF assms]
  have r: "read_at (tbun v a d) (tnow v) = Some (tchild v a d)" if "a \<in> set_tree R" "d < 2" for a d
    using read_at_newest [OF l(4) [OF that], of "tnow v"] l(5) [OF that] l(7) [of a d] by simp
  have "tree_at (at_time v (tnow v)) (Some (troot v)) R"
    by (rule tree_at_cong [OF l(2)]) (simp add: at_time_def r)
  then show ?thesis using l(1) r by (simp add: snap_t_def)
qed

lemma contents_t_live:
  assumes "live_t v R"
  shows "contents_t v = pairs_t v R" "snapshot_t v (tnow v) = pairs_t v R"
proof -
  note l = live_tD [OF assms]
  have "build (tlen v) (tchild v) (Some (troot v)) = R" by (rule tree_at_build [OF l(2) tree_okD(6) [OF l(1)]])
  then show "contents_t v = pairs_t v R" by (simp add: contents_t_def)
  have "tree_at (at_time v (tnow v)) (Some (troot v)) R" using live_snap [OF assms] by (simp add: snap_t_def)
  then have "build (tlen v) (at_time v (tnow v)) (Some (troot v)) = R" by (rule tree_at_build [OF _ tree_okD(6) [OF l(1)]])
  then show "snapshot_t v (tnow v) = pairs_t v R" by (simp add: snapshot_t_def)
qed

lemma snapshot_t_tree:
  assumes "snap_t v u R"
  shows "snapshot_t v u = pairs_t v R"
proof -
  have "build (tlen v) (at_time v u) (Some (troot v)) = R"
    using assms by (intro tree_at_build tree_okD(6)) (auto simp: snap_t_def)
  then show ?thesis by (simp add: snapshot_t_def)
qed

lemma wf_tE:
  assumes "wf_t base v"
  obtains R where "live_t v R" "0 < base" "base \<le> tnow v" "tnow v \<le> BUNDLE_MAX_TIMESTAMP"
  using assms by (auto simp: wf_t_def)

lemma live_unique: "live_t v R \<Longrightarrow> live_t v R' \<Longrightarrow> R = R'"
  using tree_at_unique live_tD(2) by blast

lemma steps_t_refl: "wf_t base v \<Longrightarrow> steps_t base v (contents_t v) v"
  using contents_t_live by (auto simp: steps_t_def elim: wf_tE)

text \<open>
  The general shape of an update: bundles of old nodes keep their entries and get at most one
  new one, with the new timestamp.
\<close>

definition extends_t :: "tree_view \<Rightarrow> tree_view \<Rightarrow> bool" where
  "extends_t v v' \<longleftrightarrow> tnow v' = tnow v + 1 \<and> tlen v \<le> tlen v' \<and> troot v' = troot v \<and> tmax v' = tmax v
     \<and> (\<forall>a<tlen v. tkey v' a = tkey v a \<and> tval v' a = tval v a)
     \<and> (\<forall>a<tlen v. \<forall>d<2. tbun v' a d = tbun v a d \<or> (\<exists>q. tbun v' a d = push_entry (tnow v + 1) q (tbun v a d)))"

lemma tree_ok_extends:
  assumes "tree_ok v R" "extends_t v v'"
  shows "tree_ok v' R" "pairs_t v' R = pairs_t v R"
proof -
  note o = tree_okD [OF assms(1)]
  have k: "tkey v' a = tkey v a" "tval v' a = tval v a" if "a \<in> set_tree R" for a
    using o(3) [OF that] assms(2) by (auto simp: extends_t_def)
  have "ksorted (tkey v') (inorder R)"
    by (rule sorted_wrt_mono_rel [OF _ o(2)]) (simp add: k)
  moreover have "tkey v' (troot v) = tkey v (troot v)" using k o(7) by simp
  moreover have "troot v' = troot v" "tmax v' = tmax v" "tlen v \<le> tlen v'" using assms(2) by (simp_all add: extends_t_def)
  moreover have "\<forall>a\<in>set_tree R. a < tlen v'" using o(3) calculation(5) by fastforce
  ultimately show "tree_ok v' R" using o(1,4) by (simp add: tree_ok_def)
  show "pairs_t v' R = pairs_t v R" unfolding pairs_t_def
    by (rule map_cong) (auto simp: k dest: in_set_butlastD)
qed

lemma snap_extends:
  assumes s: "snap_t v u R" and e: "extends_t v v'" and u: "u \<le> tnow v"
  shows "snap_t v' u R"
proof -
  have ok: "tree_ok v R" using s by (simp add: snap_t_def)
  have r: "read_at (tbun v' a d) u = read_at (tbun v a d) u" if a: "a \<in> set_tree R" "d < 2" for a d
  proof -
    have "tbun v' a d = tbun v a d \<or> (\<exists>q. tbun v' a d = push_entry (tnow v + 1) q (tbun v a d))"
      using e tree_okD(3) [OF ok a(1)] a(2) by (simp add: extends_t_def)
    then show ?thesis using u by auto
  qed
  have "tree_at (at_time v' u) (Some (troot v)) R"
    by (rule tree_at_cong [of "at_time v u"]) (use s r in \<open>auto simp: snap_t_def at_time_def\<close>)
  then show ?thesis using s r tree_ok_extends(1) [OF ok e] e by (simp add: snap_t_def extends_t_def)
qed

lemma steps_tI:
  assumes wf: "wf_t base v" and e: "extends_t v v'" and clk: "tnow v < BUNDLE_MAX_TIMESTAMP" and live: "live_t v' R'"
  shows "steps_t base v (pairs_t v' R') v'"
proof -
  have now: "tnow v' = tnow v + 1" using e by (simp add: extends_t_def)
  have snaps: "\<exists>R. snap_t v u R" if "base \<le> u" "u \<le> tnow v" for u using wf that by (simp add: wf_t_def)
  have "\<exists>R. snap_t v' u R" if u: "base \<le> u" "u \<le> tnow v'" for u
  proof (cases "u \<le> tnow v")
    case True
    then show ?thesis using snaps u(1) snap_extends [OF _ e] by blast
  next
    case False
    then have "u = tnow v'" using u(2) now by simp
    then show ?thesis using live_snap [OF live] by blast
  qed
  then have "wf_t base v'" using wf clk live now by (auto simp: wf_t_def)
  moreover have "snapshot_t v' u = snapshot_t v u" if u: "base \<le> u" "u \<le> tnow v" for u
  proof -
    obtain R where R: "snap_t v u R" using snaps u by blast
    have "tree_ok v R" using R by (simp add: snap_t_def)
    then show ?thesis
      using snapshot_t_tree [OF R] snapshot_t_tree [OF snap_extends [OF R e u(2)]] tree_ok_extends(2) [OF _ e] by simp
  qed
  ultimately show ?thesis using contents_t_live [OF live] now by (simp add: steps_t_def)
qed

section \<open>Places for a key\<close>

text \<open>
  \<open>key\<close> is not in the tree and belongs at the empty place \<open>d\<close> below \<open>p\<close>, which in key order
  lies directly before (\<open>d = 0\<close>) or behind (\<open>d = 1\<close>) \<open>p\<close>.
\<close>

definition slot_t :: "(nat \<Rightarrow> int) \<Rightarrow> nat tree \<Rightarrow> nat \<Rightarrow> nat \<Rightarrow> int \<Rightarrow> bool" where
  "slot_t k R p d x \<longleftrightarrow> p \<in> set_tree R \<and> d < 2 \<and> sub p d R = Leaf
     \<and> (\<exists>us vs. inorder R = us @ vs \<and> (\<forall>a\<in>set us. k a < x) \<and> (\<forall>a\<in>set vs. x < k a)
          \<and> (if d = 0 then \<exists>ws. vs = p # ws else \<exists>ws. us = ws @ [p]))"

lemma slot_tI:
  assumes "p \<in> set_tree R" "d < 2" "sub p d R = Leaf" "inorder R = us @ vs" "\<forall>a\<in>set us. k a < x"
    "\<forall>a\<in>set vs. x < k a" "if d = 0 then \<exists>ws. vs = p # ws else \<exists>ws. us = ws @ [p]"
  shows "slot_t k R p d x"
  using assms unfolding slot_t_def by blast

text \<open>Searching from a pointer to a subtree, as the loop of the code does.\<close>

fun search_tree :: "(nat \<Rightarrow> int) \<Rightarrow> int \<Rightarrow> nat \<Rightarrow> nat \<Rightarrow> nat tree \<Rightarrow> nat \<times> nat tree \<times> nat" where
  "search_tree k x p d Leaf = (p, Leaf, d)"
| "search_tree k x p d (Node l a r) = (if k a = x then (p, Node l a r, d)
     else if k a > x then search_tree k x a 0 l else search_tree k x a 1 r)"

lemma search_tree_found:
  assumes "search_tree k x p d R = (p', Node l c r, d')" "tree_at f (f p d) R" "d < 2"
  shows "k c = x \<and> c \<in> set_tree R \<and> f p' d' = Some c \<and> d' < 2 \<and> (p' = p \<and> d' = d \<and> R = Node l c r \<or> p' \<in> set_tree R)"
  using assms
proof (induction R arbitrary: p d)
  case (Node l' a r')
  show ?case
  proof (cases "k a = x")
    case True
    then show ?thesis using Node.prems by auto
  next
    case False
    show ?thesis
    proof (cases "k a > x")
      case True
      then show ?thesis using Node.IH(1) [of a 0] Node.prems False by auto
    next
      case nl: False
      then show ?thesis using Node.IH(2) [of a 1] Node.prems False by auto
    qed
  qed
qed simp

lemma search_tree_absent:
  assumes "search_tree k x p d R = (p', Leaf, d')" "ksorted k (inorder R)" "R \<noteq> Leaf"
  shows "slot_t k R p' d' x"
  using assms
proof (induction R arbitrary: p d)
  case (Node l a r)
  have srt: "ksorted k (inorder l)" "ksorted k (inorder r)" "\<forall>b\<in>set_tree l. k b < k a" "\<forall>b\<in>set_tree r. k a < k b"
    "\<forall>b\<in>set_tree l. \<forall>c\<in>set_tree r. k b < k c"
    using Node.prems(2) by (auto simp: sorted_wrt_append)
  have ka: "k a \<noteq> x" using Node.prems(1) by (auto split: if_splits)
  show ?case
  proof (cases "k a > x")
    case True
    then have s: "search_tree k x a 0 l = (p', Leaf, d')" using Node.prems(1) ka by simp
    show ?thesis
    proof (cases "l = Leaf")
      case l: True
      then have "p' = a" "d' = 0" using s by simp_all
      moreover have "\<forall>b\<in>set_tree r. x < k b" using srt(4) True by force
      ultimately show ?thesis using True l
        by (intro slot_tI [of _ _ _ "[]" "a # inorder r"]) auto
    next
      case False
      from Node.IH(1) [OF s srt(1) False] obtain us vs where sl: "p' \<in> set_tree l" "d' < 2" "sub p' d' l = Leaf"
        "inorder l = us @ vs" "\<forall>a\<in>set us. k a < x" "\<forall>a\<in>set vs. x < k a"
        "if d' = 0 then \<exists>ws. vs = p' # ws else \<exists>ws. us = ws @ [p']"
        by (auto simp: slot_t_def)
      have "p' \<noteq> a" using sl(1) srt(3) by auto
      moreover have "\<forall>b\<in>set (vs @ a # inorder r). x < k b" using sl(6) True srt(4) by force
      ultimately show ?thesis using sl
        by (intro slot_tI [of _ _ _ "us" "vs @ a # inorder r"]) (auto split: if_splits)
    qed
  next
    case False
    then have s: "search_tree k x a 1 r = (p', Leaf, d')" and lt: "k a < x" using Node.prems(1) ka by simp_all
    show ?thesis
    proof (cases "r = Leaf")
      case r: True
      then have "p' = a" "d' = 1" using s by simp_all
      moreover have "\<forall>b\<in>set_tree l. k b < x" using srt(3) lt by force
      ultimately show ?thesis using lt r
        by (intro slot_tI [of _ _ _ "inorder l @ [a]" "[]"]) auto
    next
      case False
      from Node.IH(2) [OF s srt(2) False] obtain us vs where sl: "p' \<in> set_tree r" "d' < 2" "sub p' d' r = Leaf"
        "inorder r = us @ vs" "\<forall>a\<in>set us. k a < x" "\<forall>a\<in>set vs. x < k a"
        "if d' = 0 then \<exists>ws. vs = p' # ws else \<exists>ws. us = ws @ [p']"
        by (auto simp: slot_t_def)
      have "p' \<noteq> a" "p' \<notin> set_tree l" using sl(1) srt(4,5) by auto
      moreover have "\<forall>b\<in>set (inorder l @ a # us). k b < x" using sl(5) lt srt(3) by force
      ultimately show ?thesis using sl
        by (intro slot_tI [of _ _ _ "inorder l @ a # us" "vs"]) (auto split: if_splits)
    qed
  qed
qed simp

section \<open>Linking a leaf\<close>

definition pushed_t :: "timestamp_t \<Rightarrow> ((nat \<times> nat) \<times> ptr) list \<Rightarrow> (nat \<Rightarrow> nat \<Rightarrow> ptr bundle_t) \<Rightarrow> nat \<Rightarrow> nat \<Rightarrow> ptr bundle_t" where
  "pushed_t t bs f = (\<lambda>a d. case map_of bs (a, d) of None \<Rightarrow> f a d | Some q \<Rightarrow> push_entry t q (f a d))"

definition insert_tv :: "tree_view \<Rightarrow> nat \<Rightarrow> nat \<Rightarrow> int \<Rightarrow> int \<Rightarrow> tree_view" where
  "insert_tv v p d k x = (let n = tlen v in
     v\<lparr>tkey := (tkey v)(n := k), tval := (tval v)(n := x),
       tchild := ((tchild v)(n := (\<lambda>_. None)))(p := (tchild v p)(d := Some n)),
       ttag := (ttag v)(n := (\<lambda>_. 0)),
       tbun := pushed_t (tnow v + 1) [((n, 0), None), ((n, 1), None), ((p, d), Some n)] (tbun v),
       tdead := (tdead v)(n := False), tlen := Suc n, tnow := tnow v + 1\<rparr>)"

lemma insert_tv_sel:
  "tkey (insert_tv v p d k x) = (tkey v)(tlen v := k)" "tval (insert_tv v p d k x) = (tval v)(tlen v := x)"
  "tchild (insert_tv v p d k x) = ((tchild v)(tlen v := (\<lambda>_. None)))(p := (tchild v p)(d := Some (tlen v)))"
  "ttag (insert_tv v p d k x) = (ttag v)(tlen v := (\<lambda>_. 0))"
  "tbun (insert_tv v p d k x) = pushed_t (tnow v + 1)
     [((tlen v, 0), None), ((tlen v, 1), None), ((p, d), Some (tlen v))] (tbun v)"
  "tdead (insert_tv v p d k x) = (tdead v)(tlen v := False)" "tlen (insert_tv v p d k x) = Suc (tlen v)"
  "troot (insert_tv v p d k x) = troot v" "tnow (insert_tv v p d k x) = tnow v + 1" "tmax (insert_tv v p d k x) = tmax v"
  by (simp_all add: insert_tv_def Let_def)

lemma put_root:
  assumes "R = Node t rc Leaf" "p \<in> set_tree R" "p = rc \<Longrightarrow> d = 0"
  shows "\<exists>t'. put p d S R = Node t' rc Leaf"
  using assms by auto

lemma slot_below_root:
  assumes "slot_t k R p d x" "R = Node t rc Leaf" "x < k rc"
  shows "p = rc \<Longrightarrow> d = 0"
proof -
  obtain us vs where "inorder t @ [rc] = us @ vs" "\<forall>a\<in>set us. k a < x" "if d = 0 then \<exists>ws. vs = p # ws else \<exists>ws. us = ws @ [p]"
    using assms(1,2) by (auto simp: slot_t_def)
  then show "d = 0" if "p = rc" using assms(3) that by (cases "d = 0") auto
qed

lemma slot_insert:
  assumes s: "slot_t k R p d x" and srt: "ksorted k (inorder R)"
  obtains us vs where "inorder R = us @ vs" "\<And>S. inorder (put p d S R) = us @ inorder S @ vs"
    "\<forall>a\<in>set us. k a < x" "\<forall>a\<in>set vs. x < k a"
proof -
  obtain us vs where sl: "p \<in> set_tree R" "d < 2" "sub p d R = Leaf" "inorder R = us @ vs"
    "\<forall>a\<in>set us. k a < x" "\<forall>a\<in>set vs. x < k a" "if d = 0 then \<exists>ws. vs = p # ws else \<exists>ws. us = ws @ [p]"
    using s unfolding slot_t_def by (elim conjE exE)
  have dist: "distinct (inorder R)" by (rule ksorted_distinct [OF srt])
  obtain us' vs' where i0: "inorder R = us' @ inorder (sub p d R) @ vs'" "\<forall>S. inorder (put p d S R) = us' @ inorder S @ vs'"
    "d = 0 \<longrightarrow> (\<exists>ws. vs' = p # ws)" "d \<noteq> 0 \<longrightarrow> (\<exists>ws. us' = ws @ [p])"
    using inorder_put [OF sl(1) dist, of d] by (elim exE conjE)
  note i = i0(1) [unfolded sl(3), simplified] i0(2) [rule_format] i0(3,4)
  have "us' = us \<and> vs' = vs"
  proof (cases "d = 0")
    case True
    then obtain w w' where "vs = p # w" "vs' = p # w'" using sl(7) i(3) by auto
    then show ?thesis using i(1) sl(4) dist by (auto simp: append_eq_append_conv2 append_eq_Cons_conv Cons_eq_append_conv)
  next
    case False
    then obtain w w' where "us = w @ [p]" "us' = w' @ [p]" using sl(7) i(4) by auto
    then show ?thesis using i(1) sl(4) dist by (auto simp: append_eq_append_conv2 append_eq_Cons_conv Cons_eq_append_conv)
  qed
  then show thesis using that [of us vs] i(2) sl(4-6) by simp
qed

lemma extends_pushed:
  assumes "tnow v' = tnow v + 1" "tlen v \<le> tlen v'" "troot v' = troot v" "tmax v' = tmax v"
    "\<And>a. a < tlen v \<Longrightarrow> tkey v' a = tkey v a \<and> tval v' a = tval v a" "tbun v' = pushed_t (tnow v + 1) bs (tbun v)"
  shows "extends_t v v'"
  using assms by (auto simp: extends_t_def pushed_t_def split: option.splits)

text \<open>Pushing entries onto bundles: what remains of the conditions on the live tree.\<close>

lemma bundles_pushed_t:
  assumes live: "live_t v R" and clk: "wf_t base v" "tnow v < BUNDLE_MAX_TIMESTAMP"
  shows "bundle_ok (pushed_t (tnow v + 1) bs (tbun v) a d)" "newest_ts (pushed_t (tnow v + 1) bs (tbun v) a d) \<le> tnow v + 1"
proof -
  note l = live_tD(6,7) [OF live, of a d]
  have "0 \<le> tnow v" "tnow v + 1 < LLONG_MAX" using clk by (auto simp: wf_t_def timestamp_defs)
  then show "bundle_ok (pushed_t (tnow v + 1) bs (tbun v) a d)"
    using l by (auto simp: pushed_t_def intro!: bundle_ok_push split: option.splits)
  show "newest_ts (pushed_t (tnow v + 1) bs (tbun v) a d) \<le> tnow v + 1"
    using l by (auto simp: pushed_t_def split: option.splits)
qed

lemma hd_push_entry [simp]: "hd (push_entry t q b) = BundleEntry t q" "push_entry t q b \<noteq> []"
  by (simp_all add: push_entry_def)

lemma live_tI:
  assumes "tree_ok v R" "tree_at (tchild v) (Some (troot v)) R" "\<And>a. a < tlen v \<Longrightarrow> tdead v a \<longleftrightarrow> a \<notin> set_tree R"
    "\<And>a d. a \<in> set_tree R \<Longrightarrow> d < 2 \<Longrightarrow> tbun v a d \<noteq> [] \<and> entry_ptr (hd (tbun v a d)) = tchild v a d"
    "\<And>a d. bundle_ok (tbun v a d) \<and> newest_ts (tbun v a d) \<le> tnow v"
    "\<And>a d. a \<ge> tlen v \<Longrightarrow> tbun v a d = []"
  shows "live_t v R"
  using assms by (simp add: live_t_def)

lemma pairs_t_inorder: "inorder R = us @ [rc] \<Longrightarrow> pairs_t v R = map (\<lambda>a. (tkey v a, tval v a)) us"
  by (simp add: pairs_t_def)

lemma insert_tv_live:
  assumes wf: "wf_t base v" and clk: "tnow v < BUNDLE_MAX_TIMESTAMP" and live: "live_t v R"
    and s: "slot_t (tkey v) R p d k" and k: "k < tmax v"
  shows "live_t (insert_tv v p d k x) (put p d (Node Leaf (tlen v) Leaf) R)"
proof -
  let ?v = "insert_tv v p d k x" let ?n = "tlen v" let ?R = "put p d (Node Leaf (tlen v) Leaf) R"
  note l = live_tD [OF live] and o = tree_okD [OF live_tD(1) [OF live]]
  note sel = insert_tv_sel [of v p d k x]
  obtain t where R: "R = Node t (troot v) Leaf" using o(1) by blast
  have p: "p \<in> set_tree R" "d < 2" "sub p d R = Leaf" using s by (auto simp: slot_t_def)
  have pl: "p < ?n" "p \<noteq> ?n" using o(3) [OF p(1)] by simp_all
  have nR: "?n \<notin> set_tree R" using o(3) by blast
  obtain us vs where i: "inorder R = us @ vs" "\<And>S. inorder (put p d S R) = us @ inorder S @ vs"
    "\<forall>a\<in>set us. tkey v a < k" "\<forall>a\<in>set vs. k < tkey v a"
    by (rule slot_insert [OF s o(2)]) blast
  have iR: "inorder ?R = us @ ?n # vs" using i(2) by simp
  have "set_tree ?R = set (us @ ?n # vs)" by (simp only: set_inorder [symmetric] iR)
  moreover have "set_tree R = set us \<union> set vs" by (metis i(1) set_append set_inorder)
  ultimately have st: "set_tree ?R = insert ?n (set_tree R)" by auto
  have nv: "?n \<notin> set us" "?n \<notin> set vs" using nR i(1) by (metis Un_iff set_append set_inorder)+
  have old: "a \<in> set (inorder R) \<Longrightarrow> tkey ?v a = tkey v a" for a using nR by (auto simp: sel)
  have "ksorted (tkey v) us" "ksorted (tkey v) vs" "\<forall>a\<in>set us. \<forall>b\<in>set vs. tkey v a < tkey v b"
    using o(2) i(1) by (auto simp: sorted_wrt_append)
  then have "ksorted (tkey ?v) us" "ksorted (tkey ?v) vs" "\<forall>a\<in>set us. \<forall>b\<in>set vs. tkey ?v a < tkey ?v b"
    using old i(1) nv by (auto intro: sorted_wrt_mono_rel [of _ "\<lambda>x y. tkey v x < tkey v y"] simp: sel)
  then have srt: "ksorted (tkey ?v) (inorder ?R)" unfolding iR using i(3,4) nv by (auto simp: sorted_wrt_append sel)
  have "p = troot v \<Longrightarrow> d = 0" using slot_below_root [OF s R] k o(4) by simp
  then have root: "\<exists>t'. ?R = Node t' (troot v) Leaf" by (rule put_root [OF R p(1)])
  have ok: "tree_ok ?v ?R"
    using root srt st o(3,4,7) nR by (auto simp: tree_ok_def sel intro: less_SucI)
  have at: "tree_at (tchild ?v) (Some (troot v)) ?R"
    by (rule tree_at_put [OF l(2) p(1) o(5) p(2)]) (use pl nR in \<open>auto simp: sel\<close>)
  have b: "tbun ?v a e \<noteq> [] \<and> entry_ptr (hd (tbun ?v a e)) = tchild ?v a e" if a: "a \<in> set_tree ?R" "e < 2" for a e
  proof (cases "a = ?n")
    case True
    then show ?thesis using a(2) pl by (auto simp: sel pushed_t_def less_2_cases_iff)
  next
    case False
    then have "a \<in> set_tree R" using a(1) st by simp
    then show ?thesis using l(4,5) [of a e] a(2) False by (auto simp: sel pushed_t_def)
  qed
  have dd: "tdead ?v a \<longleftrightarrow> a \<notin> set_tree ?R" if "a < tlen ?v" for a
    using that l(3) nR by (auto simp: sel st less_Suc_eq)
  have bo: "bundle_ok (tbun ?v a e) \<and> newest_ts (tbun ?v a e) \<le> tnow ?v" for a e
    unfolding sel using bundles_pushed_t [OF live wf clk] by blast
  have fr: "tbun ?v a e = []" if "a \<ge> tlen ?v" for a e
    using that l(8) [of a] pl by (auto simp: sel pushed_t_def)
  show ?thesis by (rule live_tI [OF ok _ dd b bo fr]) (simp add: sel(8) at)
qed

lemma insert_tv_steps:
  assumes wf: "wf_t base v" and clk: "tnow v < BUNDLE_MAX_TIMESTAMP" and live: "live_t v R"
    and s: "slot_t (tkey v) R p d k" and k: "k < tmax v"
  shows "steps_t base v (ins_kv k x (contents_t v)) (insert_tv v p d k x)" "map_of (contents_t v) k = None"
proof -
  let ?v = "insert_tv v p d k x" let ?n = "tlen v" let ?R = "put p d (Node Leaf (tlen v) Leaf) R"
  let ?kv = "\<lambda>a. (tkey v a, tval v a)"
  note sel = insert_tv_sel [of v p d k x] and o = tree_okD [OF live_tD(1) [OF live]]
  obtain t where R: "R = Node t (troot v) Leaf" using o(1) by blast
  obtain us vs where i: "inorder R = us @ vs" "\<And>S. inorder (put p d S R) = us @ inorder S @ vs"
    "\<forall>a\<in>set us. tkey v a < k" "\<forall>a\<in>set vs. k < tkey v a"
    by (rule slot_insert [OF s o(2)]) blast
  have "troot v \<in> set vs" using i o(4) k R by (cases vs rule: rev_cases) auto
  then obtain ws where vs: "vs = ws @ [troot v]" using i(1) R by (cases vs rule: rev_cases) auto
  have nR: "?n \<notin> set us \<union> set ws"
    using o(3) i(1) vs by (metis Un_iff nat_less_le set_append set_inorder)
  have "pairs_t ?v ?R = map (\<lambda>a. (tkey ?v a, tval ?v a)) (us @ ?n # ws)"
    using i(2) [of "Node Leaf ?n Leaf"] vs by (intro pairs_t_inorder [of _ _ "troot v"]) simp
  also have "\<dots> = map ?kv us @ (k, x) # map ?kv ws" using nR by (auto simp: sel)
  also have "\<dots> = ins_kv k x (map ?kv us @ map ?kv ws)"
    using i(3,4) vs by (intro ins_kv_between [symmetric]) auto
  also have "map ?kv us @ map ?kv ws = contents_t v"
    using contents_t_live(1) [OF live] i(1) vs pairs_t_inorder [of R "us @ ws" "troot v" v] by simp
  finally have p: "pairs_t ?v ?R = ins_kv k x (contents_t v)" .
  have "extends_t v ?v" by (rule extends_pushed) (auto simp: sel)
  from steps_tI [OF wf this clk insert_tv_live [OF wf clk live s k]]
  show "steps_t base v (ins_kv k x (contents_t v)) ?v" by (simp add: p)
  show "map_of (contents_t v) k = None"
    using contents_t_live(1) [OF live] i(1,3,4) vs pairs_t_inorder [of R "us @ ws" "troot v" v]
    by (auto simp: map_of_eq_None_iff)
qed

section \<open>Bypassing a node with at most one child\<close>

definition bypass_tv :: "tree_view \<Rightarrow> nat \<Rightarrow> nat \<Rightarrow> nat \<Rightarrow> ptr \<Rightarrow> tree_view" where
  "bypass_tv v p d c q =
     v\<lparr>tchild := (tchild v)(p := (tchild v p)(d := q)),
       ttag := (if q = None then (ttag v)(p := (ttag v p)(d := ttag v p d + 1)) else ttag v),
       tbun := pushed_t (tnow v + 1) [((p, d), q), ((c, 0), Some (troot v)), ((c, 1), Some (troot v))] (tbun v),
       tdead := (tdead v)(c := True), tnow := tnow v + 1\<rparr>"

lemma bypass_tv_sel:
  "tkey (bypass_tv v p d c q) = tkey v" "tval (bypass_tv v p d c q) = tval v"
  "tchild (bypass_tv v p d c q) = (tchild v)(p := (tchild v p)(d := q))"
  "tbun (bypass_tv v p d c q) = pushed_t (tnow v + 1)
     [((p, d), q), ((c, 0), Some (troot v)), ((c, 1), Some (troot v))] (tbun v)"
  "tdead (bypass_tv v p d c q) = (tdead v)(c := True)" "tlen (bypass_tv v p d c q) = tlen v"
  "troot (bypass_tv v p d c q) = troot v" "tnow (bypass_tv v p d c q) = tnow v + 1" "tmax (bypass_tv v p d c q) = tmax v"
  by (simp_all add: bypass_tv_def)

lemma ksorted_remove: "ksorted k (xs @ y # ys) \<Longrightarrow> ksorted k (xs @ ys)"
  by (simp add: sorted_wrt_append)

lemma del_pairs:
  assumes "ksorted k (xs @ c # ys)"
  shows "map (\<lambda>a. (k a, x a)) (xs @ ys) = del_kv (k c) (map (\<lambda>a. (k a, x a)) (xs @ c # ys))"
  using assms del_kv_between [of "map (\<lambda>a. (k a, x a)) xs" "k c" "map (\<lambda>a. (k a, x a)) ys" "x c"]
  by (auto simp: sorted_wrt_append)

text \<open>The place of a node below its parent, in key order.\<close>

lemma node_place:
  assumes ok: "tree_ok v R" and p: "p \<in> set_tree R" "d < 2" and s: "sub p d R = Node l c r" and c: "c \<noteq> troot v"
  obtains us ws where "inorder R = us @ inorder l @ c # inorder r @ ws @ [troot v]"
    "\<And>S. inorder (put p d S R) = us @ inorder S @ ws @ [troot v]" "\<And>S. \<exists>t. put p d S R = Node t (troot v) Leaf"
    "p \<noteq> c" "p \<in> set us \<union> set ws \<union> {troot v}"
proof -
  note o = tree_okD [OF ok]
  obtain t where R: "R = Node t (troot v) Leaf" using o(1) by blast
  have root: "p = troot v \<Longrightarrow> d = 0" using s R p(2) by (cases "d = 0") auto
  obtain us vs where i: "inorder R = us @ inorder (sub p d R) @ vs" "\<forall>S. inorder (put p d S R) = us @ inorder S @ vs"
    using inorder_put [OF p(1) o(5)] by blast
  have "troot v \<notin> set_tree (sub p d R)"
  proof (cases "p = troot v")
    case True
    then show ?thesis using not_in_sub [OF p(1) o(5), of d] by simp
  next
    case False
    then have "p \<in> set_tree t" "sub p d R = sub p d t" using p(1) R by auto
    moreover have "troot v \<notin> set_tree t" using o(5) R by auto
    ultimately show ?thesis using set_sub [of p d t] by auto
  qed
  then have rl: "troot v \<notin> set (inorder l @ c # inorder r)" using s by simp
  have "inorder t @ [troot v] = us @ (inorder l @ c # inorder r) @ vs" using i(1) R s by simp
  then have "vs \<noteq> []" using rl by (metis append_Nil2 append_is_Nil_conv last_appendR last_in_set last_snoc list.distinct(1))
  then obtain ws y where "vs = ws @ [y]" by (cases vs rule: rev_cases) auto
  then have vs: "vs = ws @ [troot v]" using i(1) R by simp
  have pc: "p \<notin> set_tree (sub p d R)" by (rule not_in_sub [OF p(1) o(5)])
  have "p \<in> set (inorder R)" using p(1) by simp
  then have "p \<in> set us \<union> set ws \<union> {troot v}" using i(1) vs pc by auto
  moreover have "inorder R = us @ inorder l @ c # inorder r @ ws @ [troot v]" using i(1) vs s by simp
  moreover have "p \<noteq> c" using pc s by auto
  ultimately show thesis using that [of us ws] i(2) vs put_root [OF R p(1) root] by blast
qed

lemma bypass_tv_live:
  assumes wf: "wf_t base v" and clk: "tnow v < BUNDLE_MAX_TIMESTAMP" and live: "live_t v R"
    and p: "p \<in> set_tree R" "d < 2" and s: "sub p d R = Node l c r" and c: "c \<noteq> troot v"
    and S: "l = Leaf \<and> S = r \<and> q = tchild v c 1 \<or> r = Leaf \<and> S = l \<and> q = tchild v c 0"
  shows "live_t (bypass_tv v p d c q) (put p d S R)"
proof -
  let ?v = "bypass_tv v p d c q" let ?R = "put p d S R"
  note live_v = live_tD [OF live] and o = tree_okD [OF live_tD(1) [OF live]]
  note sel = bypass_tv_sel [of v p d c q]
  obtain us ws where i: "inorder R = us @ inorder l @ c # inorder r @ ws @ [troot v]"
    "\<And>S. inorder (put p d S R) = us @ inorder S @ ws @ [troot v]" "\<And>S. \<exists>t. put p d S R = Node t (troot v) Leaf"
    "p \<noteq> c" "p \<in> set us \<union> set ws \<union> {troot v}"
    by (rule node_place [OF live_v(1) p s c]) blast
  have iS: "inorder S = inorder l @ inorder r" using S by auto
  have st: "set_tree ?R = set_tree R - {c}"
  proof -
    have "set_tree ?R = set (us @ inorder S @ ws @ [troot v])" by (simp only: set_inorder [symmetric] i(2))
    moreover have "set_tree R = set (us @ inorder l @ c # inorder r @ ws @ [troot v])" by (simp only: set_inorder [symmetric] i(1))
    ultimately show ?thesis using o(5) i(1) iS by auto
  qed
  have "ksorted (tkey v) ((us @ inorder l) @ c # (inorder r @ ws @ [troot v]))" using o(2) i(1) by simp
  from ksorted_remove [OF this] have srt: "ksorted (tkey ?v) (inorder ?R)" by (simp add: sel i(2) iS)
  have ok: "tree_ok ?v ?R" using i(3) srt st o(3,4) by (simp add: tree_ok_def sel)
  have pS: "p \<notin> set_tree S" using S not_in_sub [OF p(1) o(5), of d] s by auto
  have sb: "tree_at (tchild v) (tchild v p d) (Node l c r)" using tree_at_sub [OF live_v(2) p] s by simp
  then have "tree_at (tchild v) q S" using S by auto
  then have "tree_at (tchild ?v) q S" by (rule tree_at_cong) (use pS in \<open>auto simp: sel\<close>)
  then have at: "tree_at (tchild ?v) (Some (troot v)) ?R"
    by (intro tree_at_put [OF live_v(2) p(1) o(5) p(2)]) (auto simp: sel)
  have dd: "tdead ?v a \<longleftrightarrow> a \<notin> set_tree ?R" if "a < tlen ?v" for a
    using that live_v(3) by (auto simp: sel st)
  have b: "tbun ?v a e \<noteq> [] \<and> entry_ptr (hd (tbun ?v a e)) = tchild ?v a e" if a: "a \<in> set_tree ?R" "e < 2" for a e
    using live_v(4,5) [of a e] a st i(4) by (auto simp: sel pushed_t_def)
  have bo: "bundle_ok (tbun ?v a e) \<and> newest_ts (tbun ?v a e) \<le> tnow ?v" for a e
    unfolding sel using bundles_pushed_t [OF live wf clk] by blast
  have "c \<in> set_tree R" using i(1) by (metis in_set_conv_decomp append.assoc set_inorder)
  then have cl: "c < tlen v" "p < tlen v" using o(3) p(1) by blast+
  have fr: "tbun ?v a e = []" if "a \<ge> tlen ?v" for a e
    using that live_v(8) [of a] cl by (auto simp: sel pushed_t_def)
  have "tree_at (tchild ?v) (Some (troot ?v)) ?R" unfolding sel(7) by (rule at)
  from live_tI [OF ok this dd b bo fr] show ?thesis .
qed

lemma bypass_tv_steps:
  assumes wf: "wf_t base v" and clk: "tnow v < BUNDLE_MAX_TIMESTAMP" and live: "live_t v R"
    and p: "p \<in> set_tree R" "d < 2" and s: "sub p d R = Node l c r" and c: "c \<noteq> troot v"
    and S: "l = Leaf \<and> S = r \<and> q = tchild v c 1 \<or> r = Leaf \<and> S = l \<and> q = tchild v c 0"
  shows "steps_t base v (del_kv (tkey v c) (contents_t v)) (bypass_tv v p d c q)"
proof -
  let ?v = "bypass_tv v p d c q" let ?R = "put p d S R"
  note sel = bypass_tv_sel [of v p d c q] and o = tree_okD [OF live_tD(1) [OF live]]
  obtain us ws where i: "inorder R = us @ inorder l @ c # inorder r @ ws @ [troot v]"
    "\<And>S. inorder (put p d S R) = us @ inorder S @ ws @ [troot v]"
    by (rule node_place [OF live_tD(1) [OF live] p s c]) blast
  have iS: "inorder S = inorder l @ inorder r" using S by auto
  have srt: "ksorted (tkey v) ((us @ inorder l) @ c # (inorder r @ ws))"
    using o(2) i(1) by (auto simp: sorted_wrt_append)
  have old: "contents_t v = map (\<lambda>a. (tkey v a, tval v a)) ((us @ inorder l) @ c # (inorder r @ ws))"
    using contents_t_live(1) [OF live] i(1) pairs_t_inorder [of R "us @ inorder l @ c # inorder r @ ws" "troot v" v] by simp
  have "pairs_t ?v ?R = map (\<lambda>a. (tkey ?v a, tval ?v a)) (us @ inorder S @ ws)"
    by (rule pairs_t_inorder [of _ _ "troot v"]) (simp add: i(2))
  also have "\<dots> = map (\<lambda>a. (tkey v a, tval v a)) ((us @ inorder l) @ (inorder r @ ws))" by (simp add: sel iS)
  also have "\<dots> = del_kv (tkey v c) (contents_t v)" unfolding old by (rule del_pairs [OF srt])
  finally have "pairs_t ?v ?R = del_kv (tkey v c) (contents_t v)" .
  moreover have "extends_t v ?v" by (rule extends_pushed) (auto simp: sel)
  ultimately show ?thesis using steps_tI [OF wf _ clk bypass_tv_live [OF wf clk live p s c S]] by simp
qed

section \<open>Replacing a node with two children\<close>

text \<open>The leftmost node of a tree with its parent and its right subtree.\<close>

fun min_place :: "nat \<Rightarrow> nat tree \<Rightarrow> nat \<times> nat \<times> nat tree" where
  "min_place q Leaf = (q, q, Leaf)"
| "min_place q (Node l x r) = (if l = Leaf then (q, x, r) else min_place x l)"

text \<open>The tree without its leftmost node.\<close>

definition min_rest :: "nat \<Rightarrow> nat tree \<Rightarrow> nat tree" where
  "min_rest q R = (let (ps, sc, rr) = min_place q R in if ps = q then rr else put ps 0 rr R)"

lemma min_place_spec:
  assumes "min_place q R = (ps, sc, rr)" "R \<noteq> Leaf" "distinct (inorder R)" "q \<notin> set_tree R"
  shows "sc \<in> set_tree R \<and> inorder R = sc # inorder (min_rest q R)
    \<and> (if ps = q then R = Node Leaf sc rr else ps \<in> set_tree R \<and> ps \<noteq> sc \<and> sub ps 0 R = Node Leaf sc rr)"
  using assms
proof (induction R arbitrary: q)
  case (Node l x r)
  show ?case
  proof (cases "l = Leaf")
    case True
    then show ?thesis using Node.prems by (auto simp: min_rest_def)
  next
    case False
    have m: "min_place x l = (ps, sc, rr)" using Node.prems(1) False by simp
    have dj: "distinct (inorder l)" "x \<notin> set_tree l" "x \<notin> set_tree r" "set_tree l \<inter> set_tree r = {}"
      using Node.prems(3) by auto
    from Node.IH(1) [OF m False dj(1,2)] have ih: "sc \<in> set_tree l" "inorder l = sc # inorder (min_rest x l)"
      "if ps = x then l = Node Leaf sc rr else ps \<in> set_tree l \<and> ps \<noteq> sc \<and> sub ps 0 l = Node Leaf sc rr" by auto
    have psq: "ps \<noteq> q" using ih(3) Node.prems(4) by (auto split: if_splits)
    show ?thesis
    proof (cases "ps = x")
      case True
      then show ?thesis using ih psq m False dj by (auto simp: min_rest_def)
    next
      case ne: False
      then have "ps \<in> set_tree l" "sub ps 0 l = Node Leaf sc rr" "ps \<noteq> sc" using ih(3) by auto
      then show ?thesis using ih psq m False ne by (auto simp: min_rest_def)
    qed
  qed
qed simp

definition replace_tv :: "tree_view \<Rightarrow> nat \<Rightarrow> nat \<Rightarrow> nat \<Rightarrow> nat \<Rightarrow> nat \<Rightarrow> tree_view" where
  "replace_tv v p d c ps sc = (let n = tlen v; q1 = (if ps \<noteq> c then tchild v c 1 else tchild v sc 1);
       gone = tchild v sc 1 = None;
       c1 = ((tchild v)(n := (\<lambda>_. None)(0 := tchild v c 0, 1 := q1)))(p := (tchild v p)(d := Some n));
       g1 = (ttag v)(n := (\<lambda>_. 0)(1 := if ps = c \<and> gone then 1 else 0))
     in v\<lparr>tkey := (tkey v)(n := tkey v sc), tval := (tval v)(n := tval v sc),
       tchild := (if ps \<noteq> c then c1(ps := (c1 ps)(0 := tchild v sc 1)) else c1),
       ttag := (if ps \<noteq> c \<and> gone then g1(ps := (g1 ps)(0 := g1 ps 0 + 1)) else g1),
       tbun := pushed_t (tnow v + 1) ([((p, d), Some n), ((n, 0), tchild v c 0), ((n, 1), q1),
         ((c, 0), Some (troot v)), ((c, 1), Some (troot v))]
         @ (if ps \<noteq> c then [((ps, 0), tchild v sc 1)] else [])) (tbun v),
       tdead := (tdead v)(n := False, c := True, sc := True), tlen := Suc n, tnow := tnow v + 1\<rparr>)"

lemma replace_tv_sel:
  "tkey (replace_tv v p d c ps sc) = (tkey v)(tlen v := tkey v sc)"
  "tval (replace_tv v p d c ps sc) = (tval v)(tlen v := tval v sc)"
  "tbun (replace_tv v p d c ps sc) = pushed_t (tnow v + 1) ([((p, d), Some (tlen v)), ((tlen v, 0), tchild v c 0),
     ((tlen v, 1), if ps \<noteq> c then tchild v c 1 else tchild v sc 1), ((c, 0), Some (troot v)), ((c, 1), Some (troot v))]
     @ (if ps \<noteq> c then [((ps, 0), tchild v sc 1)] else [])) (tbun v)"
  "tdead (replace_tv v p d c ps sc) = (tdead v)(tlen v := False, c := True, sc := True)"
  "tlen (replace_tv v p d c ps sc) = Suc (tlen v)"
  "troot (replace_tv v p d c ps sc) = troot v" "tnow (replace_tv v p d c ps sc) = tnow v + 1"
  "tmax (replace_tv v p d c ps sc) = tmax v"
  by (simp_all add: replace_tv_def Let_def)

lemma replace_tv_child:
  assumes "p \<noteq> tlen v" "ps \<noteq> tlen v" "ps \<noteq> p"
  shows "tchild (replace_tv v p d c ps sc) (tlen v) 0 = tchild v c 0"
    "tchild (replace_tv v p d c ps sc) (tlen v) 1 = (if ps \<noteq> c then tchild v c 1 else tchild v sc 1)"
    "tchild (replace_tv v p d c ps sc) p d = Some (tlen v)"
    "ps \<noteq> c \<Longrightarrow> tchild (replace_tv v p d c ps sc) ps 0 = tchild v sc 1"
    "a \<noteq> tlen v \<Longrightarrow> (a, e) \<noteq> (p, d) \<Longrightarrow> ps = c \<or> (a, e) \<noteq> (ps, 0) \<Longrightarrow>
       tchild (replace_tv v p d c ps sc) a e = tchild v a e"
  using assms by (auto simp: replace_tv_def Let_def)

text \<open>Where the code's variables point when a node with two children is erased.\<close>

lemma replace_place:
  assumes live: "live_t v R" and p: "p \<in> set_tree R" "d < 2" and s: "sub p d R = Node l c r"
    and c: "c \<noteq> troot v" and r: "r \<noteq> Leaf" and m: "min_place c r = (ps, sc, rr)"
  shows "p \<noteq> c" "p \<notin> set_tree l" "p \<notin> set_tree r" "c \<notin> set_tree l" "c \<notin> set_tree r" "set_tree l \<inter> set_tree r = {}"
    "sc \<in> set_tree r" "ps = c \<or> ps \<in> set_tree r" "ps \<noteq> p" "distinct (inorder r)" "distinct (inorder l)"
    "c < tlen v" "sc < tlen v" "ps < tlen v" "p < tlen v" "inorder r = sc # inorder (min_rest c r)"
    "ps = c \<Longrightarrow> r = Node Leaf sc rr" "ps \<noteq> c \<Longrightarrow> sub ps 0 r = Node Leaf sc rr" "ps \<noteq> sc" "set_tree r \<subseteq> set_tree R"
    "c \<in> set_tree R" "set_tree l \<subseteq> set_tree R"
proof -
  note lv = live_tD [OF live] and o = tree_okD [OF live_tD(1) [OF live]]
  obtain us ws where i: "inorder R = us @ inorder l @ c # inorder r @ ws @ [troot v]"
    by (rule node_place [OF lv(1) p s c]) blast
  have pS: "p \<notin> set_tree (Node l c r)" using not_in_sub [OF p(1) o(5), of d] s by simp
  then show g1: "p \<noteq> c" "p \<notin> set_tree l" "p \<notin> set_tree r" by auto
  have di: "distinct (inorder l @ c # inorder r)" using o(5) i by auto
  then show g2: "c \<notin> set_tree l" "c \<notin> set_tree r" "set_tree l \<inter> set_tree r = {}" "distinct (inorder r)" "distinct (inorder l)" by auto
  note ms = min_place_spec [OF m r g2(4,2)]
  then show g3: "sc \<in> set_tree r" "inorder r = sc # inorder (min_rest c r)"
    and g4: "ps = c \<or> ps \<in> set_tree r" by (auto split: if_splits)
  show "ps = c \<Longrightarrow> r = Node Leaf sc rr" "ps \<noteq> c \<Longrightarrow> sub ps 0 r = Node Leaf sc rr" using ms by auto
  show "ps \<noteq> sc" using ms g2(2) by (auto split: if_splits)
  show "ps \<noteq> p" using g4 g1 by auto
  show sR: "set_tree r \<subseteq> set_tree R" "c \<in> set_tree R" "set_tree l \<subseteq> set_tree R"
    using set_sub [of p d R] unfolding s by auto
  show "c < tlen v" "sc < tlen v" "ps < tlen v" "p < tlen v" using o(3) sR g3(1) g4 p(1) by blast+
qed

lemma ksorted_copy:
  assumes s: "ksorted k (xs @ a # ys)" and n: "n \<notin> set xs" "n \<notin> set ys"
  shows "ksorted (k(n := k a)) (xs @ n # ys)"
proof -
  have x: "ksorted (k(n := k a)) xs"
    by (rule sorted_wrt_mono_rel [of _ "\<lambda>x y. k x < k y"]) (use s n in \<open>auto simp: sorted_wrt_append\<close>)
  have y: "ksorted (k(n := k a)) ys"
    by (rule sorted_wrt_mono_rel [of _ "\<lambda>x y. k x < k y"]) (use s n in \<open>auto simp: sorted_wrt_append\<close>)
  show ?thesis using s n x y by (auto simp: sorted_wrt_append)
qed

lemma replace_tv_live:
  assumes wf: "wf_t base v" and clk: "tnow v < BUNDLE_MAX_TIMESTAMP" and live: "live_t v R"
    and p: "p \<in> set_tree R" "d < 2" and s: "sub p d R = Node l c r" and c: "c \<noteq> troot v"
    and r: "r \<noteq> Leaf" and m: "min_place c r = (ps, sc, rr)"
  shows "live_t (replace_tv v p d c ps sc) (put p d (Node l (tlen v) (min_rest c r)) R)"
proof -
  let ?v = "replace_tv v p d c ps sc" let ?n = "tlen v" let ?R = "put p d (Node l (tlen v) (min_rest c r)) R"
  note lv = live_tD [OF live] and o = tree_okD [OF live_tD(1) [OF live]]
  note sel = replace_tv_sel [of v p d c ps sc] and pl = replace_place [OF live p s c r m]
  have ne: "p \<noteq> ?n" "ps \<noteq> ?n" "ps \<noteq> p" using pl(9,14,15) by auto
  note ch = replace_tv_child [OF ne, where d = d and c = c and sc = sc]
  obtain us ws where i: "inorder R = us @ inorder l @ c # inorder r @ ws @ [troot v]"
    "\<And>S. inorder (put p d S R) = us @ inorder S @ ws @ [troot v]" "\<And>S. \<exists>t. put p d S R = Node t (troot v) Leaf"
    by (rule node_place [OF lv(1) p s c]) blast
  let ?m = "min_rest c r"
  have iR: "inorder R = us @ inorder l @ c # sc # inorder ?m @ ws @ [troot v]" using i(1) pl(16) by simp
  have iR': "inorder ?R = us @ inorder l @ ?n # inorder ?m @ ws @ [troot v]" using i(2) by simp
  have nR: "?n \<notin> set (inorder R)" using o(3) by auto
  have st: "set_tree ?R = insert ?n (set_tree R - {c, sc})"
  proof -
    have "set_tree ?R = set (us @ inorder l @ ?n # inorder ?m @ ws @ [troot v])" by (simp only: set_inorder [symmetric] iR')
    moreover have "set_tree R = set (us @ inorder l @ c # sc # inorder ?m @ ws @ [troot v])" by (simp only: set_inorder [symmetric] iR)
    ultimately show ?thesis using o(5) iR by auto
  qed
  have srt: "ksorted (tkey ?v) (inorder ?R)"
  proof -
    let ?as = "us @ inorder l" let ?bs = "inorder ?m @ ws @ [troot v]"
    have "ksorted (tkey v) (?as @ c # sc # ?bs)" using o(2) iR by simp
    then have a: "ksorted (tkey v) (?as @ sc # ?bs)" by (rule ksorted_remove)
    have nab: "?n \<notin> set ?as" "?n \<notin> set ?bs" using nR iR by auto
    have "ksorted ((tkey v)(?n := tkey v sc)) (?as @ ?n # ?bs)" by (rule ksorted_copy [OF a nab])
    then show ?thesis using iR' by (simp add: sel)
  qed
  have sR: "sc \<in> set_tree R" using pl(7,20) by blast
  have rt: "troot v \<noteq> ?n" using o(3) [OF o(7)] by simp
  have ok: "tree_ok ?v ?R"
    using i(3) srt st o(3,4) rt by (auto simp: tree_ok_def sel intro: less_SucI)
  have nl: "?n \<notin> set_tree l" "?n \<notin> set_tree r" "ps \<notin> set_tree l" using nR pl(4,6,8,20,22) by auto
  have sb: "tree_at (tchild v) (tchild v p d) (Node l c r)" using tree_at_sub [OF lv(2) p] s by simp
  have tl: "tree_at (tchild ?v) (tchild v c 0) l"
  proof (rule tree_at_cong [of "tchild v"])
    show "tchild ?v x e = tchild v x e" if "x \<in> set_tree l" for x e
    proof -
      have "x \<noteq> ?n" "x \<noteq> p" "x \<noteq> ps" using that nl pl(2) by auto
      then show ?thesis by (intro ch(5)) auto
    qed
  qed (use sb in simp)
  have chr: "tchild ?v x e = tchild v x e" if "x \<in> set_tree r" "ps = c \<or> (x, e) \<noteq> (ps, 0)" for x e
  proof -
    have "x \<noteq> ?n" "x \<noteq> p" using that(1) nl pl(3) by auto
    then show ?thesis using that(2) by (intro ch(5)) auto
  qed
  have tm: "tree_at (tchild ?v) (tchild ?v ?n 1) ?m"
  proof (cases "ps = c")
    case True
    then have rN: "r = Node Leaf sc rr" and mr: "?m = rr" using pl(17) m by (simp_all add: min_rest_def)
    then have "tree_at (tchild v) (tchild v sc 1) rr" using sb by simp
    then have "tree_at (tchild ?v) (tchild v sc 1) rr"
      by (rule tree_at_cong) (use rN True in \<open>intro chr; simp\<close>)
    then show ?thesis using True mr ch(2) by simp
  next
    case False
    then have mr: "?m = put ps 0 rr r" and psr: "ps \<in> set_tree r" using m pl(8) by (simp_all add: min_rest_def)
    have sbr: "tree_at (tchild v) (tchild v c 1) r" using sb by simp
    have ssub: "sub ps 0 r = Node Leaf sc rr" by (rule pl(18) [OF False])
    have "tree_at (tchild v) (tchild v ps 0) (Node Leaf sc rr)" using tree_at_sub [OF sbr psr, of 0] ssub by simp
    then have rr: "tree_at (tchild v) (tchild v sc 1) rr" by simp
    have rs: "set_tree rr \<subseteq> set_tree r" "ps \<notin> set_tree rr" using set_sub [of ps 0 r] not_in_sub [OF psr pl(10), of 0] ssub by auto
    have "tree_at (tchild ?v) (tchild v sc 1) rr"
      by (rule tree_at_cong [OF rr], rule chr) (use rs in auto)
    then have "tree_at (tchild ?v) (tchild v c 1) (put ps 0 rr r)"
      using ch(4) [OF False] by (intro tree_at_put [OF sbr psr pl(10)]) (auto intro!: chr)
    then show ?thesis using mr False ch(2) by simp
  qed
  have "tree_at (tchild ?v) (tchild ?v p d) (Node l ?n ?m)" using tl tm ch(1,3) by simp
  then have at: "tree_at (tchild ?v) (Some (troot v)) ?R"
  proof (rule tree_at_put [OF lv(2) p(1) o(5) p(2)])
    fix x e assume x: "x \<in> set_tree R" "x \<notin> set_tree (sub p d R)" "(x, e) \<noteq> (p, d)"
    have "x \<noteq> ?n" using x(1) nR by auto
    moreover have "ps = c \<or> x \<noteq> ps" using x(2) pl(8) s by auto
    ultimately show "tchild ?v x e = tchild v x e" using x(3) by (intro ch(5)) auto
  qed
  have dd: "tdead ?v a \<longleftrightarrow> a \<notin> set_tree ?R" if "a < tlen ?v" for a
    using that lv(3) nR sR pl(12,13) by (auto simp: sel st less_Suc_eq)
  have b: "tbun ?v a e \<noteq> [] \<and> entry_ptr (hd (tbun ?v a e)) = tchild ?v a e" if a: "a \<in> set_tree ?R" "e < 2" for a e
  proof (cases "a = ?n")
    case True
    have "e = 0 \<or> e = 1" using a(2) by auto
    then show ?thesis using True ne ch(1,2) by (auto simp: sel pushed_t_def)
  next
    case False
    then have aR: "a \<in> set_tree R" "a \<noteq> c" "a \<noteq> sc" using a(1) st by auto
    consider "(a, e) = (p, d)" | "(a, e) \<noteq> (p, d)" "ps \<noteq> c" "(a, e) = (ps, 0)" | "(a, e) \<noteq> (p, d)" "ps = c \<or> (a, e) \<noteq> (ps, 0)"
      by blast
    then show ?thesis
    proof cases
      case 1
      then show ?thesis using ch(3) by (simp add: sel pushed_t_def)
    next
      case 2
      then show ?thesis using ch(4) False aR by (auto simp: sel pushed_t_def)
    next
      case 3
      then have "tbun ?v a e = tbun v a e" using False aR by (auto simp: sel pushed_t_def)
      then show ?thesis using lv(4,5) [OF aR(1) a(2)] ch(5) [OF False 3] by simp
    qed
  qed
  have bo: "bundle_ok (tbun ?v a e) \<and> newest_ts (tbun ?v a e) \<le> tnow ?v" for a e
    unfolding sel using bundles_pushed_t [OF live wf clk] by blast
  have fr: "tbun ?v a e = []" if "a \<ge> tlen ?v" for a e
    using that lv(8) [of a] pl(12-15) by (auto simp: sel pushed_t_def)
  have "tree_at (tchild ?v) (Some (troot ?v)) ?R" unfolding sel(6) by (rule at)
  from live_tI [OF ok this dd b bo fr] show ?thesis .
qed

lemma replace_tv_steps:
  assumes wf: "wf_t base v" and clk: "tnow v < BUNDLE_MAX_TIMESTAMP" and live: "live_t v R"
    and p: "p \<in> set_tree R" "d < 2" and s: "sub p d R = Node l c r" and c: "c \<noteq> troot v"
    and r: "r \<noteq> Leaf" and m: "min_place c r = (ps, sc, rr)"
  shows "steps_t base v (del_kv (tkey v c) (contents_t v)) (replace_tv v p d c ps sc)"
proof -
  let ?v = "replace_tv v p d c ps sc" let ?n = "tlen v" let ?R = "put p d (Node l (tlen v) (min_rest c r)) R"
  note o = tree_okD [OF live_tD(1) [OF live]]
  note sel = replace_tv_sel [of v p d c ps sc] and pl = replace_place [OF live p s c r m]
  obtain us ws where i: "inorder R = us @ inorder l @ c # inorder r @ ws @ [troot v]"
    "\<And>S. inorder (put p d S R) = us @ inorder S @ ws @ [troot v]"
    by (rule node_place [OF live_tD(1) [OF live] p s c]) blast
  let ?as = "us @ inorder l" let ?bs = "inorder (min_rest c r) @ ws"
  have iR: "inorder R = (?as @ c # sc # ?bs) @ [troot v]" using i(1) pl(16) by simp
  have nR: "?n \<notin> set ?as" "?n \<notin> set ?bs"
  proof -
    have "?n \<notin> set (inorder R)" using o(3) by auto
    then show "?n \<notin> set ?as" "?n \<notin> set ?bs" unfolding iR by auto
  qed
  have srt: "ksorted (tkey v) (?as @ c # (sc # ?bs))" using o(2) iR by (auto simp: sorted_wrt_append)
  have old: "contents_t v = map (\<lambda>a. (tkey v a, tval v a)) (?as @ c # (sc # ?bs))"
    using contents_t_live(1) [OF live] pairs_t_inorder [OF iR, of v] by simp
  have "pairs_t ?v ?R = map (\<lambda>a. (tkey ?v a, tval ?v a)) (?as @ ?n # ?bs)"
    by (rule pairs_t_inorder [of _ _ "troot v"]) (simp add: i(2))
  also have "\<dots> = map (\<lambda>a. (tkey v a, tval v a)) (?as @ sc # ?bs)" using nR by (auto simp: sel)
  also have "\<dots> = del_kv (tkey v c) (contents_t v)" unfolding old by (rule del_pairs [OF srt])
  finally have "pairs_t ?v ?R = del_kv (tkey v c) (contents_t v)" .
  moreover have "extends_t v ?v" by (rule extends_pushed) (auto simp: sel)
  ultimately show ?thesis using steps_tI [OF wf _ clk replace_tv_live [OF wf clk live p s c r m]] by simp
qed

section \<open>Reclaiming\<close>

definition reclaimed_t :: "timestamp_t \<Rightarrow> tree_view \<Rightarrow> tree_view \<Rightarrow> bool" where
  "reclaimed_t t v v' \<longleftrightarrow> (\<exists>bun'. v' = v\<lparr>tbun := bun'\<rparr>
     \<and> (\<forall>a d. bun' a d = tbun v a d \<or> bun' a d = fst (reclaimEntries t (tbun v a d))))"

lemma reclaimed_tD:
  assumes "reclaimed_t t v v'"
  shows "t \<le> u \<Longrightarrow> read_at (tbun v' a d) u = read_at (tbun v a d) u"
    "bundle_ok (tbun v a d) \<Longrightarrow> bundle_ok (tbun v' a d)" "newest_ts (tbun v' a d) = newest_ts (tbun v a d)"
    "tbun v' a d = [] \<longleftrightarrow> tbun v a d = []" "tbun v a d \<noteq> [] \<Longrightarrow> hd (tbun v' a d) = hd (tbun v a d)"
proof -
  have c: "tbun v' a d = tbun v a d \<or> tbun v' a d = fst (reclaimEntries t (tbun v a d))"
    using assms unfolding reclaimed_t_def by (elim exE conjE) simp
  obtain old where old: "tbun v a d = fst (reclaimEntries t (tbun v a d)) @ old"
    "old \<noteq> [] \<longrightarrow> fst (reclaimEntries t (tbun v a d)) \<noteq> []"
    by (rule reclaimEntries_prefix)
  show "t \<le> u \<Longrightarrow> read_at (tbun v' a d) u = read_at (tbun v a d) u"
    using c reclaimEntries_read by metis
  show "bundle_ok (tbun v a d) \<Longrightarrow> bundle_ok (tbun v' a d)" "newest_ts (tbun v' a d) = newest_ts (tbun v a d)"
    using c reclaimEntries_ok reclaimEntries_newest by metis+
  show e: "tbun v' a d = [] \<longleftrightarrow> tbun v a d = []" using c old by (metis append_is_Nil_conv)
  show "tbun v a d \<noteq> [] \<Longrightarrow> hd (tbun v' a d) = hd (tbun v a d)" using c old e by (metis hd_append2)
qed

lemma reclaimed_t_same:
  assumes "reclaimed_t t v v'"
  shows "tkey v' = tkey v" "tval v' = tval v" "tchild v' = tchild v" "ttag v' = ttag v" "tdead v' = tdead v"
    "tlen v' = tlen v" "troot v' = troot v" "tnow v' = tnow v" "tmax v' = tmax v"
    "pairs_t v' = pairs_t v" "tree_ok v' = tree_ok v" "contents_t v' = contents_t v"
  using assms by (auto simp: reclaimed_t_def pairs_t_def tree_ok_def contents_t_def fun_eq_iff)

lemma reclaimed_steps:
  assumes wf: "wf_t base v" and r: "reclaimed_t t v v'" and t: "t \<le> tnow v"
  shows "wf_t (max base t) v'" "contents_t v' = contents_t v"
    "\<And>u. max base t \<le> u \<Longrightarrow> u \<le> tnow v \<Longrightarrow> snapshot_t v' u = snapshot_t v u"
proof -
  note s = reclaimed_t_same [OF r] and q = reclaimed_tD [OF r]
  obtain R where R: "live_t v R" using wf by (elim wf_tE)
  have live: "live_t v' R"
    using R q unfolding live_t_def s(3,5-9,11) by simp
  have snap: "snap_t v' u S" if "snap_t v u S" "t \<le> u" for u S
  proof -
    have rd: "read_at (tbun v' a d) u = read_at (tbun v a d) u" for a d by (rule q(1) [OF that(2)])
    have "at_time v' u = at_time v u" by (simp add: at_time_def fun_eq_iff rd)
    then show ?thesis using that(1) by (simp add: snap_t_def s rd)
  qed
  have "\<exists>S. snap_t v' u S" if "max base t \<le> u" "u \<le> tnow v" for u
    using wf snap that unfolding wf_t_def by (meson max.boundedE)
  then show "wf_t (max base t) v'" using wf live t by (auto simp: wf_t_def s)
  show "contents_t v' = contents_t v" by (rule s(12))
  show "snapshot_t v' u = snapshot_t v u" if u: "max base t \<le> u" "u \<le> tnow v" for u
  proof -
    obtain S where S: "snap_t v u S" using wf u by (auto simp: wf_t_def)
    have "snap_t v' u S" using snap [OF S] u by simp
    from snapshot_t_tree [OF this] snapshot_t_tree [OF S] s(10) show ?thesis by simp
  qed
qed

lemma reclaimed_t_refl: "reclaimed_t t v v"
  unfolding reclaimed_t_def by (rule exI [of _ "tbun v"]) simp

section \<open>Old searches\<close>

text \<open>
  What the result of a search, taken at any earlier time, still says: unless the place has been
  marked, has been emptied since (its tag has grown), or is occupied, the key belongs there.
\<close>

definition found_t :: "tree_view \<Rightarrow> nat tree \<Rightarrow> int \<Rightarrow> nat \<times> nat \<times> int \<Rightarrow> bool" where
  "found_t v R k = (\<lambda>(p, d, g). p < tlen v \<and> d < 2 \<and> (tdead v p \<or> g < ttag v p d
     \<or> g = ttag v p d \<and> (tchild v p d \<noteq> None \<or> slot_t (tkey v) R p d k)))"

text \<open>The gap of a key only grows when another node is removed.\<close>

lemma two_places:
  assumes "inorder R = us @ x # y # vs" "distinct (inorder R)" "sub x 1 R = Leaf"
  shows "sub y 0 R \<noteq> Leaf"
  using assms
proof (induction R arbitrary: us vs)
  case (Node l a r)
  have dj: "distinct (inorder l)" "distinct (inorder r)" "a \<notin> set_tree l" "a \<notin> set_tree r" "set_tree l \<inter> set_tree r = {}"
    using Node.prems(2) by auto
  consider vs' where "inorder l = us @ x # y # vs'" | "inorder l = us @ [x]" "y = a"
    | "x = a" "us = inorder l" "inorder r = y # vs" | us' where "inorder r = us' @ x # y # vs"
    using Node.prems(1) by (fastforce simp: append_eq_append_conv2 append_eq_Cons_conv Cons_eq_append_conv)
  then show ?case
  proof cases
    case 1
    then have "x \<in> set_tree l" "y \<in> set_tree l" by (metis in_set_conv_decomp set_inorder append_Cons append_assoc append_Nil)+
    moreover from this dj have "a \<noteq> x" "a \<noteq> y" by auto
    ultimately show ?thesis using Node.IH(1) [OF 1 dj(1)] Node.prems(3) by simp
  next
    case 2
    then show ?thesis by (cases l) auto
  next
    case 3
    then show ?thesis using Node.prems(3) by (cases r) auto
  next
    case 4
    then have "x \<in> set_tree r" "y \<in> set_tree r" by (metis in_set_conv_decomp set_inorder append_Cons append_assoc append_Nil)+
    moreover from this dj have "a \<noteq> x" "a \<noteq> y" "x \<notin> set_tree l" "y \<notin> set_tree l" by auto
    ultimately show ?thesis using Node.IH(2) [OF 4 dj(2)] Node.prems(3) by simp
  qed
qed simp

lemma filter_neq: "c \<notin> set xs \<Longrightarrow> filter (\<lambda>a. a \<noteq> c) xs = xs"
  by (auto intro: filter_True)

lemma map_if_neq: "c \<notin> set xs \<Longrightarrow> map (\<lambda>a. if a = c then n else a) xs = xs"
  by (auto intro: map_idI)

lemma slot_tD:
  assumes "slot_t k R p d x"
  shows "p \<in> set_tree R" "d < 2" "sub p d R = Leaf"
    "\<exists>us vs. inorder R = us @ vs \<and> (\<forall>a\<in>set us. k a < x) \<and> (\<forall>a\<in>set vs. x < k a)
       \<and> (if d = 0 then \<exists>ws. vs = p # ws else \<exists>ws. us = ws @ [p])"
  using assms by (simp_all add: slot_t_def)

lemma slot_removed:
  assumes s: "slot_t k R p d x" and p: "p \<in> set_tree R'" "sub p d R' = Leaf" "p \<noteq> c" "f p = p"
    and R': "inorder R' = map f (filter (\<lambda>a. a \<noteq> c) (inorder R))" and k: "\<And>a. a \<in> set_tree R \<Longrightarrow> k' (f a) = k a"
  shows "slot_t k' R' p d x"
proof -
  obtain us vs where u: "inorder R = us @ vs" "\<forall>a\<in>set us. k a < x" "\<forall>a\<in>set vs. x < k a"
    "if d = 0 then \<exists>ws. vs = p # ws else \<exists>ws. us = ws @ [p]"
    using slot_tD(4) [OF s] by blast
  have m: "a \<in> set us \<or> a \<in> set vs \<Longrightarrow> k' (f a) = k a" for a
    using k u(1) by (metis Un_iff set_append set_inorder)
  show ?thesis
    by (rule slot_tI [of _ _ _ "map f (filter (\<lambda>a. a \<noteq> c) us)" "map f (filter (\<lambda>a. a \<noteq> c) vs)"])
      (use u m p slot_tD(2) [OF s] R' in \<open>auto split: if_splits\<close>)
qed

lemma slot_inserted:
  assumes s: "slot_t k R p d x" and s0: "slot_t k R p0 d0 x0" and ne: "(p, d) \<noteq> (p0, d0)"
    and srt: "ksorted k (inorder R)" and n: "n \<notin> set_tree R"
    and p: "sub p d (put p0 d0 (Node Leaf n Leaf) R) = Leaf" "p \<in> set_tree (put p0 d0 (Node Leaf n Leaf) R)"
  shows "slot_t (k(n := x0)) (put p0 d0 (Node Leaf n Leaf) R) p d x"
proof -
  obtain us vs where u: "inorder R = us @ vs" "\<forall>a\<in>set us. k a < x" "\<forall>a\<in>set vs. x < k a"
    "if d = 0 then \<exists>ws. vs = p # ws else \<exists>ws. us = ws @ [p]"
    using slot_tD(4) [OF s] by blast
  obtain us0 vs0 where u0: "inorder R = us0 @ vs0" "\<forall>a\<in>set us0. k a < x0" "\<forall>a\<in>set vs0. x0 < k a"
    "if d0 = 0 then \<exists>ws. vs0 = p0 # ws else \<exists>ws. us0 = ws @ [p0]"
    using slot_tD(4) [OF s0] by blast
  obtain us1 vs1 where u1: "inorder R = us1 @ vs1" "\<And>S. inorder (put p0 d0 S R) = us1 @ inorder S @ vs1"
    "\<forall>a\<in>set us1. k a < x0" "\<forall>a\<in>set vs1. x0 < k a"
    by (rule slot_insert [OF s0 srt]) blast
  have e01: "us1 = us0 \<and> vs1 = vs0"
  proof -
    have "filter (\<lambda>a. k a < x0) (us1 @ vs1) = us1" "filter (\<lambda>a. k a < x0) (us0 @ vs0) = us0"
      using u1(3,4) u0(2,3) by (auto simp: filter_id_conv filter_empty_conv)
    then have "us1 = us0" unfolding u1(1) [symmetric] u0(1) [symmetric] by (rule trans [OF sym])
    then show ?thesis using u1(1) u0(1) by simp
  qed
  have iR: "inorder (put p0 d0 (Node Leaf n Leaf) R) = us0 @ n # vs0" using u1(2) e01 by simp
  have dist: "distinct (inorder R)" by (rule ksorted_distinct [OF srt])
  have nn: "n \<notin> set us" "n \<notin> set vs" using n u(1) by (metis Un_iff set_append set_inorder)+
  have "us0 \<noteq> us"
  proof
    assume e: "us0 = us"
    then have v: "vs0 = vs" using u(1) u0(1) by simp
    show False
    proof (cases "d = 0")
      case True
      then have "\<exists>ws. vs = p # ws" using u(4) by simp
      then obtain ws where w: "vs = p # ws" by blast
      show False
      proof (cases "d0 = 0")
        case d0: True
        then show False using u0(4) v w ne True by auto
      next
        case d0: False
        then have d1: "d0 = 1" using slot_tD(2) [OF s0] by simp
        obtain ws' where "us = ws' @ [p0]" using u0(4) d0 e by auto
        then have "inorder R = ws' @ p0 # p # ws" using u(1) w by simp
        from two_places [OF this dist] slot_tD(3) [OF s0] slot_tD(3) [OF s] show False using d1 True by simp
      qed
    next
      case False
      then have d1: "d = 1" using slot_tD(2) [OF s] by simp
      obtain ws where w: "us = ws @ [p]" using u(4) False by auto
      show False
      proof (cases "d0 = 0")
        case d0: True
        then obtain ws' where "vs = p0 # ws'" using u0(4) v by auto
        then have "inorder R = ws @ p # p0 # ws'" using u(1) w by simp
        from two_places [OF this dist] slot_tD(3) [OF s0] slot_tD(3) [OF s] show False using d1 d0 by simp
      next
        case d0: False
        then show False using u0(4) e w ne d1 slot_tD(2) [OF s0] by auto
      qed
    qed
  qed
  moreover obtain z where "us = us0 @ z \<and> z @ vs = vs0 \<or> us @ z = us0 \<and> vs = z @ vs0"
    using u(1) u0(1) append_eq_append_conv2 [of us vs us0 vs0] by auto
  ultimately consider w ws where "us = us0 @ w # ws" "vs0 = w # ws @ vs" | w ws where "us0 = us @ w # ws" "vs = w # ws @ vs0"
    by (cases z) auto
  then show ?thesis
  proof cases
    case 1
    then have lt: "x0 < x" using u0(3) u(2) by force
    have "\<exists>as. us0 @ n # w # ws = as @ [p]" if "us0 @ w # ws = as' @ [p]" for as'
      using that by (cases ws rule: rev_cases) auto
    then show ?thesis
      by (intro slot_tI [of _ _ _ "us0 @ n # w # ws" vs])
        (use p u 1 iR lt nn slot_tD(2) [OF s] in \<open>auto split: if_splits\<close>)
  next
    case 2
    then have lt: "x < x0" using u0(2) u(3) by force
    show ?thesis
      by (rule slot_tI [of _ _ _ us "w # ws @ n # vs0"])
        (use p u 2 iR lt nn slot_tD(2) [OF s] in \<open>auto split: if_splits\<close>)
  qed
qed

lemma live_leaf:
  assumes "live_t v R" "p \<in> set_tree R" "d < 2" "tchild v p d = None"
  shows "sub p d R = Leaf"
  using tree_at_sub [OF live_tD(2) [OF assms(1)] assms(2,3)] assms(4) by simp

lemma found_insert:
  assumes f: "found_t v R k (p, d, g)" and live: "live_t v R" and s0: "slot_t (tkey v) R p0 d0 k0"
    and live': "live_t (insert_tv v p0 d0 k0 x0) R'" and R': "R' = put p0 d0 (Node Leaf (tlen v) Leaf) R"
  shows "found_t (insert_tv v p0 d0 k0 x0) R' k (p, d, g)"
proof -
  let ?v = "insert_tv v p0 d0 k0 x0"
  note sel = insert_tv_sel [of v p0 d0 k0 x0] and o = tree_okD [OF live_tD(1) [OF live]]
  have pl: "p < tlen v" "d < 2" using f by (simp_all add: found_t_def)
  have same: "tdead ?v p = tdead v p" "ttag ?v p d = ttag v p d" using pl by (simp_all add: sel)
  show ?thesis
  proof (cases "\<not> tdead v p \<and> g = ttag v p d \<and> tchild ?v p d = None")
    case False
    have "tchild v p d = None" if "tchild ?v p d = None" using that pl by (auto simp: sel split: if_splits)
    then show ?thesis using f False same pl by (auto simp: found_t_def sel(7))
  next
    case True
    then have ne: "(p, d) \<noteq> (p0, d0)" "tchild v p d = None" using pl by (auto simp: sel split: if_splits)
    then have s: "slot_t (tkey v) R p d k" using f True by (simp add: found_t_def)
    have pR: "p \<in> set_tree R'" using live_tD(3) [OF live', of p] True same pl by (simp add: sel(7))
    have "sub p d R' = Leaf" by (rule live_leaf [OF live' pR pl(2)]) (use True in simp)
    then have "slot_t ((tkey v)(tlen v := k0)) R' p d k"
      using slot_inserted [OF s s0 ne(1) o(2), of "tlen v"] o(3) pR by (auto simp: R')
    then show ?thesis using True same pl by (simp add: found_t_def sel(1,7))
  qed
qed

lemma found_keeps:
  assumes f: "found_t v R k (p, d, g)" and live': "live_t v' R'" and len: "tlen v \<le> tlen v'"
    and dead: "tdead v p \<Longrightarrow> tdead v' p"
    and tags: "ttag v p d \<le> ttag v' p d" "\<not> tdead v' p \<Longrightarrow> tchild v p d \<noteq> None \<Longrightarrow> tchild v' p d = None \<Longrightarrow> ttag v p d < ttag v' p d"
    and slots: "\<not> tdead v' p \<Longrightarrow> ttag v' p d = ttag v p d \<Longrightarrow> tchild v' p d = None \<Longrightarrow> slot_t (tkey v) R p d k \<Longrightarrow>
      p \<in> set_tree R' \<Longrightarrow> sub p d R' = Leaf \<Longrightarrow> slot_t (tkey v') R' p d k"
  shows "found_t v' R' k (p, d, g)"
proof -
  have pl: "p < tlen v'" "d < 2" "p < tlen v" using f len by (simp_all add: found_t_def)
  show ?thesis
  proof (cases "\<not> tdead v' p \<and> g = ttag v' p d \<and> tchild v' p d = None")
    case False
    then show ?thesis using f dead tags pl by (auto simp: found_t_def)
  next
    case True
    have pR: "p \<in> set_tree R'" using live_tD(3) [OF live' pl(1)] True by simp
    have lf: "sub p d R' = Leaf" by (rule live_leaf [OF live' pR pl(2)]) (use True in simp)
    show ?thesis
      using True f dead tags slots [OF _ _ _ _ pR lf] pl by (auto simp: found_t_def)
  qed
qed

lemma found_bypass:
  assumes f: "found_t v R k (p, d, g)" and live: "live_t v R" and p0: "p0 \<in> set_tree R" "d0 < 2"
    and s0: "sub p0 d0 R = Node l c r" and c: "c \<noteq> troot v"
    and S: "l = Leaf \<and> S = r \<or> r = Leaf \<and> S = l"
    and live': "live_t (bypass_tv v p0 d0 c q) (put p0 d0 S R)"
  shows "found_t (bypass_tv v p0 d0 c q) (put p0 d0 S R) k (p, d, g)"
proof (rule found_keeps [OF f live'])
  note sel = bypass_tv_sel [of v p0 d0 c q]
  obtain us ws where i: "inorder R = us @ inorder l @ c # inorder r @ ws @ [troot v]"
    "\<And>S. inorder (put p0 d0 S R) = us @ inorder S @ ws @ [troot v]"
    by (rule node_place [OF live_tD(1) [OF live] p0 s0 c]) blast
  have di: "distinct (inorder R)" by (rule tree_okD(5) [OF live_tD(1) [OF live]])
  show "tlen v \<le> tlen (bypass_tv v p0 d0 c q)" "tdead v p \<Longrightarrow> tdead (bypass_tv v p0 d0 c q) p" by (simp_all add: sel)
  show "ttag v p d \<le> ttag (bypass_tv v p0 d0 c q) p d" by (simp add: bypass_tv_def)
  show "ttag v p d < ttag (bypass_tv v p0 d0 c q) p d"
    if "tchild v p d \<noteq> None" "tchild (bypass_tv v p0 d0 c q) p d = None"
    using that by (auto simp: bypass_tv_def split: if_splits)
  show "slot_t (tkey (bypass_tv v p0 d0 c q)) (put p0 d0 S R) p d k"
    if "\<not> tdead (bypass_tv v p0 d0 c q) p" "slot_t (tkey v) R p d k" "p \<in> set_tree (put p0 d0 S R)"
      "sub p d (put p0 d0 S R) = Leaf"
  proof -
    have pc: "p \<noteq> c" using that(1) by (auto simp: sel)
    have "filter (\<lambda>a. a \<noteq> c) (inorder R) = us @ inorder l @ inorder r @ ws @ [troot v]"
      using di unfolding i(1) by (simp add: filter_neq)
    moreover have "inorder S = inorder l @ inorder r" using S by auto
    ultimately have "inorder (put p0 d0 S R) = map id (filter (\<lambda>a. a \<noteq> c) (inorder R))" using i(2) by simp
    then show ?thesis using slot_removed [OF that(2-4) pc, of id] by (simp add: sel)
  qed
qed

lemma found_replace:
  assumes f: "found_t v R k (p, d, g)" and live: "live_t v R" and p0: "p0 \<in> set_tree R" "d0 < 2"
    and s0: "sub p0 d0 R = Node l c r" and c: "c \<noteq> troot v" and r: "r \<noteq> Leaf" and m: "min_place c r = (ps, sc, rr)"
    and live': "live_t (replace_tv v p0 d0 c ps sc) (put p0 d0 (Node l (tlen v) (min_rest c r)) R)"
  shows "found_t (replace_tv v p0 d0 c ps sc) (put p0 d0 (Node l (tlen v) (min_rest c r)) R) k (p, d, g)"
proof (rule found_keeps [OF f live'])
  let ?v = "replace_tv v p0 d0 c ps sc" let ?R = "put p0 d0 (Node l (tlen v) (min_rest c r)) R" let ?n = "tlen v"
  note sel = replace_tv_sel [of v p0 d0 c ps sc] and pl = replace_place [OF live p0 s0 c r m]
  obtain us ws where i: "inorder R = us @ inorder l @ c # inorder r @ ws @ [troot v]"
    "\<And>S. inorder (put p0 d0 S R) = us @ inorder S @ ws @ [troot v]"
    by (rule node_place [OF live_tD(1) [OF live] p0 s0 c]) blast
  note o = tree_okD [OF live_tD(1) [OF live]]
  have pn: "p < ?n" using f by (simp add: found_t_def)
  show "tlen v \<le> tlen ?v" "tdead v p \<Longrightarrow> tdead ?v p" using pn by (auto simp: sel)
  show "ttag v p d \<le> ttag ?v p d" using pn pl(14) by (simp add: replace_tv_def Let_def)
  show "ttag v p d < ttag ?v p d" if "tchild v p d \<noteq> None" "tchild ?v p d = None"
    using that pn pl(9,14) by (auto simp: replace_tv_def Let_def split: if_splits)
  show "slot_t (tkey ?v) ?R p d k"
    if a: "\<not> tdead ?v p" "slot_t (tkey v) R p d k" "p \<in> set_tree ?R" "sub p d ?R = Leaf"
  proof -
    have pc: "p \<noteq> c" "p \<noteq> sc" using a(1) pn pl(12,13) by (auto simp: sel split: if_splits)
    let ?f = "\<lambda>a. if a = sc then ?n else a" let ?m = "min_rest c r"
    have iR: "inorder R = us @ inorder l @ c # sc # inorder ?m @ ws @ [troot v]" using i(1) pl(16) by simp
    have di: "distinct (us @ inorder l @ c # sc # inorder ?m @ ws @ [troot v])" using o(5) iR by simp
    have "filter (\<lambda>a. a \<noteq> c) (inorder R) = us @ inorder l @ sc # inorder ?m @ ws @ [troot v]"
      unfolding iR using di by (simp add: filter_neq)
    moreover have "map ?f (us @ inorder l @ sc # inorder ?m @ ws @ [troot v]) = us @ inorder l @ ?n # inorder ?m @ ws @ [troot v]"
      using di by (simp add: map_if_neq)
    ultimately have "inorder ?R = map ?f (filter (\<lambda>a. a \<noteq> c) (inorder R))" using i(2) by simp
    moreover have "tkey ?v (?f a) = tkey v a" if "a \<in> set_tree R" for a using o(3) [OF that] by (simp add: sel)
    ultimately show ?thesis using slot_removed [OF a(2-4) pc(1), of ?f "tkey ?v"] pc(2) by simp
  qed
qed

lemma found_reclaimed:
  assumes "reclaimed_t t v v'" "found_t v R k (p, d, g)"
  shows "found_t v' R k (p, d, g)"
  using assms(2) by (simp add: found_t_def reclaimed_t_same [OF assms(1)])

end
