(* ===== verification/Bundled_Citrus_Steps.thy ===== *)
theory Bundled_Citrus_Steps
  imports Bundled_Citrus Tree_View
begin

text \<open>
  What the locked sections of the bundled Citrus tree do to the heap, by symbolic execution
  over the fields of the nodes, and the correspondence with the transitions of \<open>Tree_View\<close>.
\<close>

section \<open>Fields as functions of the address\<close>

record ct_fields =
  fkey :: "nat \<Rightarrow> int"
  fval :: "nat \<Rightarrow> int"
  fchild :: "nat \<Rightarrow> nat \<Rightarrow> ptr"
  ftag :: "nat \<Rightarrow> nat \<Rightarrow> int"
  flock :: "nat \<Rightarrow> bool"
  fmark :: "nat \<Rightarrow> bool"
  fbun :: "nat \<Rightarrow> nat \<Rightarrow> ptr bundle_t"
  flen :: nat

definition fields_ct :: "ct_node list \<Rightarrow> ct_fields" where
  "fields_ct h = \<lparr>fkey = fld key_ct 0 h, fval = fld val_ct 0 h, fchild = fld child_ct (\<lambda>_. None) h,
     ftag = fld tag_ct (\<lambda>_. 0) h, flock = fld lock_ct False h, fmark = fld marked_ct False h,
     fbun = fld rqbundle_ct (\<lambda>_. []) h, flen = length h\<rparr>"

lemma fields_sel [simp]:
  "fkey (fields_ct h) = fld key_ct 0 h" "fval (fields_ct h) = fld val_ct 0 h"
  "fchild (fields_ct h) = fld child_ct (\<lambda>_. None) h" "ftag (fields_ct h) = fld tag_ct (\<lambda>_. 0) h"
  "flock (fields_ct h) = fld lock_ct False h" "fmark (fields_ct h) = fld marked_ct False h"
  "fbun (fields_ct h) = fld rqbundle_ct (\<lambda>_. []) h" "flen (fields_ct h) = length h"
  by (simp_all add: fields_ct_def)

text \<open>The fields determine the heap.\<close>

lemma fields_inj:
  assumes "fields_ct h = fields_ct h'"
  shows "h = h'"
proof (rule nth_equalityI)
  show len: "length h = length h'" using arg_cong [OF assms, of flen] by simp
  fix i assume i: "i < length h"
  have "fkey (fields_ct h) i = fkey (fields_ct h') i" "fval (fields_ct h) i = fval (fields_ct h') i"
    "fchild (fields_ct h) i = fchild (fields_ct h') i" "ftag (fields_ct h) i = ftag (fields_ct h') i"
    "flock (fields_ct h) i = flock (fields_ct h') i" "fmark (fields_ct h) i = fmark (fields_ct h') i"
    "fbun (fields_ct h) i = fbun (fields_ct h') i"
    by (simp_all only: assms)
  then show "h ! i = h' ! i" using i len by simp
qed

text \<open>The result of a step on the heap, as the fields it leaves.\<close>

definition runs :: "ct_node list res \<Rightarrow> ct_fields \<Rightarrow> bool" where
  "runs m F \<longleftrightarrow> (\<exists>h. m = Inr h \<and> fields_ct h = F)"

lemma runsI: "m = Inr h \<Longrightarrow> fields_ct h = F \<Longrightarrow> runs m F"
  by (simp add: runs_def)

lemma runs_obind:
  assumes "runs m F" "\<And>h. fields_ct h = F \<Longrightarrow> P (f h)"
  shows "P (obind m f)"
  using assms by (auto simp: runs_def)

lemma fields_same:
  assumes "a < length h"
  shows "(fld key_ct 0 h)(a := key_ct (h ! a)) = fld key_ct 0 h" "(fld val_ct 0 h)(a := val_ct (h ! a)) = fld val_ct 0 h"
    "(fld child_ct c h)(a := child_ct (h ! a)) = fld child_ct c h" "(fld tag_ct t h)(a := tag_ct (h ! a)) = fld tag_ct t h"
    "(fld lock_ct b h)(a := lock_ct (h ! a)) = fld lock_ct b h" "(fld marked_ct b h)(a := marked_ct (h ! a)) = fld marked_ct b h"
    "(fld rqbundle_ct e h)(a := rqbundle_ct (h ! a)) = fld rqbundle_ct e h"
  using assms by (auto simp: fun_eq_iff)

lemma update_run:
  assumes F: "fields_ct h = F" and a: "a < flen F"
    and "\<And>n. key_ct (g n) = key_ct n" "\<And>n. val_ct (g n) = val_ct n"
    and G: "G = F\<lparr>fchild := (fchild F)(a := child_ct (g (h ! a))), ftag := (ftag F)(a := tag_ct (g (h ! a))),
      flock := (flock F)(a := lock_ct (g (h ! a))), fmark := (fmark F)(a := marked_ct (g (h ! a))),
      fbun := (fbun F)(a := rqbundle_ct (g (h ! a)))\<rparr>"
  shows "runs (update_at h (Some a) g) G"
proof -
  have "a < length h" using F a by auto
  then show ?thesis using assms(3,4) unfolding G F [symmetric]
    by (intro runsI [of _ "h[a := g (h ! a)]"]) (simp_all add: update_at_Some fields_ct_def fld_update fields_same)
qed

lemma fields_at:
  assumes "fields_ct h = F" "a < flen F"
  shows "a < length h" "deref h (Some a) = Inr (h ! a)" "key_ct (h ! a) = fkey F a" "val_ct (h ! a) = fval F a"
    "child_ct (h ! a) = fchild F a" "tag_ct (h ! a) = ftag F a" "marked_ct (h ! a) = fmark F a"
    "rqbundle_ct (h ! a) = fbun F a" "lock_ct (h ! a) = flock F a"
  using assms by (auto simp: deref_Some)

lemma set_child_run:
  assumes "fields_ct h = F" "a < flen F"
  shows "runs (set_child_ct h (Some a) d q) (F\<lparr>fchild := (fchild F)(a := (fchild F a)(d := q))\<rparr>)"
  unfolding set_child_ct_def by (rule update_run [OF assms]) (simp_all add: fields_at [OF assms])

lemma set_marked_run:
  assumes "fields_ct h = F" "a < flen F"
  shows "runs (set_marked_ct h (Some a)) (F\<lparr>fmark := (fmark F)(a := True)\<rparr>)"
  unfolding set_marked_ct_def by (rule update_run [OF assms]) (simp_all add: fields_at [OF assms])

lemma lock_run:
  assumes "fields_ct h = F" "a < flen F" "\<not> flock F a"
  shows "runs (lock_node_ct h (Some a)) (F\<lparr>flock := (flock F)(a := True)\<rparr>)"
proof -
  have "runs (update_at h (Some a) (\<lambda>n. n\<lparr>lock_ct := True\<rparr>)) (F\<lparr>flock := (flock F)(a := True)\<rparr>)"
    by (rule update_run [OF assms(1,2)]) (simp_all add: fields_at [OF assms(1,2)])
  then show ?thesis using assms(3) by (simp add: lock_node_ct_def acquireLock_def fields_at [OF assms(1,2)])
qed

lemma unlock_run:
  assumes "fields_ct h = F" "a < flen F"
  shows "runs (unlock_node_ct h (Some a)) (F\<lparr>flock := (flock F)(a := False)\<rparr>)"
  unfolding unlock_node_ct_def releaseLock_def by (rule update_run [OF assms]) (simp_all add: fields_at [OF assms])

lemma childof_run:
  assumes "fields_ct h = F" "a < flen F"
  shows "childof_ct h (Some a) d = Inr (fchild F a d)"
  by (simp add: childof_ct_def fields_at [OF assms])

lemma keyof_run:
  assumes "fields_ct h = F" "a < flen F"
  shows "keyof_ct h (Some a) = Inr (fkey F a)"
  by (simp add: keyof_ct_def fields_at [OF assms])

lemma bundleof_run:
  assumes "fields_ct h = F" "a < flen F"
  shows "bundleof_ct h d (Some a) = Inr (fbun F a d)"
  by (simp add: bundleof_ct_def fields_at [OF assms])

lemma bump_tag_run:
  assumes "fields_ct h = F" "a < flen F"
  shows "runs (bump_tag_ct h (Some a) d)
    (if fchild F a d = None then F\<lparr>ftag := (ftag F)(a := (ftag F a)(d := ftag F a d + 1))\<rparr> else F)"
proof -
  have "runs (update_at h (Some a) (\<lambda>n. n\<lparr>tag_ct := (tag_ct n)(d := tag_ct n d + 1)\<rparr>))
      (F\<lparr>ftag := (ftag F)(a := (ftag F a)(d := ftag F a d + 1))\<rparr>)"
    by (rule update_run [OF assms]) (simp_all add: fields_at [OF assms])
  then show ?thesis using runsI [OF refl assms(1)] by (simp add: bump_tag_ct_def childof_run [OF assms])
qed

lemma newNode_run:
  assumes "fields_ct h = F"
  obtains h' where "newNode_ct h k x = (Some (flen F), h')"
    "fields_ct h' = F\<lparr>fkey := (fkey F)(flen F := k), fval := (fval F)(flen F := x),
      fchild := (fchild F)(flen F := (\<lambda>_. None)), ftag := (ftag F)(flen F := (\<lambda>_. 0)),
      flock := (flock F)(flen F := False), fmark := (fmark F)(flen F := False),
      fbun := (fbun F)(flen F := (\<lambda>_. [])), flen := Suc (flen F)\<rparr>"
  using assms by (auto simp: newNode_ct_def fields_ct_def fld_append init_bundle_def)

section \<open>Bundles\<close>

definition peek_ct :: "ct_node list \<Rightarrow> ptr \<times> nat \<Rightarrow> ptr bundle_t option" where
  "peek_ct h r = (case fst r of None \<Rightarrow> None
     | Some a \<Rightarrow> if a < length h then Some (rqbundle_ct (h ! a) (snd r)) else None)"

definition frame_ct :: "ct_node list \<Rightarrow> ct_fields" where
  "frame_ct h = (fields_ct h)\<lparr>fbun := (\<lambda>_ _. [])\<rparr>"

lemma upd_bundle_run:
  assumes F: "fields_ct h = F" "a < flen F" and g: "g (fbun F a d) = Inr b"
  shows "runs (upd_bundle_ct h (Some a, d) g) (F\<lparr>fbun := (fbun F)(a := (fbun F a)(d := b))\<rparr>)"
proof -
  have "runs (update_at h (Some a) (\<lambda>n. n\<lparr>rqbundle_ct := (rqbundle_ct n)(d := b)\<rparr>))
      (F\<lparr>fbun := (fbun F)(a := (fbun F a)(d := b))\<rparr>)"
    by (rule update_run [OF F]) (simp_all add: fields_at [OF F])
  then show ?thesis using g by (simp add: upd_bundle_ct_def fields_at [OF F])
qed

lemma peek_fields: "peek_ct h (Some a, d) = (if a < flen (fields_ct h) then Some (fbun (fields_ct h) a d) else None)"
  by (simp add: peek_ct_def)

lemma peek_None: "peek_ct h (None, d) = None"
  by (simp add: peek_ct_def)

interpretation ctb: bundle_store peek_ct upd_bundle_ct frame_ct
proof
  fix h :: "ct_node list" and r b and g :: "ptr bundle_t \<Rightarrow> ptr bundle_t res" and b'
  assume p: "peek_ct h r = Some b" and g: "g b = Inr b'"
  let ?F = "fields_ct h"
  from p obtain a d where a: "r = (Some a, d)" "a < flen ?F" "b = fbun ?F a d"
    by (cases r) (auto simp: peek_ct_def split: option.splits if_splits)
  have "g (fbun ?F a d) = Inr b'" using a g by simp
  from upd_bundle_run [of h ?F a g d b', OF refl a(2) this] obtain h' where
    h': "upd_bundle_ct h (Some a, d) g = Inr h'" "fields_ct h' = ?F\<lparr>fbun := (fbun ?F)(a := (fbun ?F a)(d := b'))\<rparr>"
    by (auto simp: runs_def)
  have "peek_ct h' (p, e) = ((peek_ct h)(r \<mapsto> b')) (p, e)" for p e
    using a h'(2) by (cases p) (auto simp: peek_None peek_fields simp del: fields_sel)
  then have "peek_ct h' = (peek_ct h)(r \<mapsto> b')" by auto
  moreover have "frame_ct h' = frame_ct h" using h'(2) by (simp add: frame_ct_def)
  ultimately show "\<exists>h'. upd_bundle_ct h r g = Inr h' \<and> peek_ct h' = (peek_ct h)(r \<mapsto> b') \<and> frame_ct h' = frame_ct h"
    using h'(1) a(1) by blast
qed

definition refs :: "((nat \<times> nat) \<times> ptr) list \<Rightarrow> ((ptr \<times> nat) \<times> ptr) list" where
  "refs = map (\<lambda>e. ((Some (fst (fst e)), snd (fst e)), snd e))"

lemma refs_simps: "refs [] = []" "refs (((a, d), q) # bs) = ((Some a, d), q) # refs bs" "refs (xs @ ys) = refs xs @ refs ys"
  by (simp_all add: refs_def)

lemma map_of_refs: "map_of (refs bs) (Some a, d) = map_of bs (a, d)"
  by (induction bs) (auto simp: refs_def)

lemma refs_fst: "map fst (refs bs) = map (\<lambda>r. (Some (fst r), snd r)) (map fst bs)"
  by (simp add: refs_def)

lemma distinct_refs: "distinct (map fst bs) \<Longrightarrow> distinct (map fst (refs bs))"
  unfolding refs_fst distinct_map [of _ "map fst bs"] by (auto intro: inj_onI)

lemma frame_eqD:
  assumes "frame_ct g = frame_ct h" "fields_ct h = F"
  shows "fields_ct g = F\<lparr>fbun := fbun (fields_ct g)\<rparr>"
proof -
  have "fields_ct g = (frame_ct g)\<lparr>fbun := fbun (fields_ct g)\<rparr>" by (simp add: frame_ct_def)
  also have "\<dots> = F\<lparr>fbun := fbun (fields_ct g)\<rparr>" by (simp add: assms(1)) (simp add: frame_ct_def assms(2))
  finally show ?thesis .
qed

lemma fields_outside: "fields_ct h = F \<Longrightarrow> a \<ge> flen F \<Longrightarrow> fbun F a d = []"
  by (auto simp: fields_ct_def fld_def)

text \<open>
  The middle of every update: prepare, take the timestamp and write the child pointer,
  finalize.
\<close>

lemma bundles_write:
  assumes F: "fields_ct h = F" and q: "\<not> cleanup_update q" "clock_ok q" and di: "distinct (map fst bs)"
    and bs: "\<forall>e\<in>set bs. fst (fst e) < flen F" and p: "p < flen F"
  obtains q' h' where "rq_tick q q'" "fields_ct h' = F\<lparr>fchild := (fchild F)(p := (fchild F p)(d := x)),
      fbun := pushed_t (curr_timestamp q + 1) bs (fbun F)\<rparr>"
    "\<And>K. obind (prepare_bundles q upd_bundle_ct (refs bs) h) (\<lambda>h3.
       obind (linearize_update_at_write q tid (\<lambda>h. set_child_ct h (Some p) d x) h3) (\<lambda>(lt, rq', h4).
       obind (finalize_bundles upd_bundle_ct (refs bs) lt h4) (\<lambda>h5. K rq' h5))) = K q' h'"
proof -
  let ?t = "curr_timestamp q + 1" let ?w = "\<lambda>h. set_child_ct h (Some p) d x"
  let ?C = "(fchild F)(p := (fchild F p)(d := x))"
  have t: "?t \<noteq> BUNDLE_PENDING_TIMESTAMP" using q(2) by (auto simp: clock_ok_def timestamp_defs)
  have wr: "\<exists>h2. ?w g = Inr h2 \<and> frame_ct h2 = F\<lparr>fchild := ?C, fbun := (\<lambda>_ _. [])\<rparr> \<and> peek_ct h2 = peek_ct g"
    if "frame_ct g = frame_ct h" for g
  proof -
    let ?G = "F\<lparr>fbun := fbun (fields_ct g)\<rparr>"
    have G: "fields_ct g = ?G" by (rule frame_eqD [OF that F])
    have "p < flen ?G" using p by simp
    from set_child_run [OF G this, of d x] obtain h2 where
      h2: "?w g = Inr h2" "fields_ct h2 = ?G\<lparr>fchild := ?C\<rparr>" by (auto simp: runs_def)
    have "frame_ct h2 = F\<lparr>fchild := ?C, fbun := (\<lambda>_ _. [])\<rparr>" by (simp add: frame_ct_def h2(2))
    moreover have "flen (fields_ct g) = flen F" using G by (metis ct_fields.select_convs(8) ct_fields.update_convs(7) ct_fields.surjective)
    then have "peek_ct h2 (a, e) = peek_ct g (a, e)" for a e
      using h2(2) by (cases a) (simp_all add: peek_None peek_fields del: fields_sel)
    then have "peek_ct h2 = peek_ct g" by auto
    ultimately show ?thesis using h2(1) by blast
  qed
  have rs: "\<forall>r\<in>fst ` set (refs bs). peek_ct h r \<noteq> None"
    using bs F by (auto simp: refs_def peek_fields)
  have "\<exists>h1 h2 h3. prepare_bundles q upd_bundle_ct (refs bs) h = Inr h1 \<and> ?w h1 = Inr h2
    \<and> finalize_bundles upd_bundle_ct (refs bs) ?t h2 = Inr h3 \<and> frame_ct h3 = F\<lparr>fchild := ?C, fbun := (\<lambda>_ _. [])\<rparr>
    \<and> (\<forall>r. peek_ct h3 r = (case map_of (refs bs) r of None \<Rightarrow> peek_ct h r | Some q \<Rightarrow> map_option (push_entry ?t q) (peek_ct h r)))"
    by (rule ctb.update_bundles_ok [OF q(1) t distinct_refs [OF di] rs]) (rule wr)
  then obtain h1 h2 h3 where h: "prepare_bundles q upd_bundle_ct (refs bs) h = Inr h1" "?w h1 = Inr h2"
    "finalize_bundles upd_bundle_ct (refs bs) ?t h2 = Inr h3" "frame_ct h3 = F\<lparr>fchild := ?C, fbun := (\<lambda>_ _. [])\<rparr>"
    "\<forall>r. peek_ct h3 r = (case map_of (refs bs) r of None \<Rightarrow> peek_ct h r | Some q \<Rightarrow> map_option (push_entry ?t q) (peek_ct h r))"
    by (elim exE conjE)
  obtain q' where q': "linearize_update_at_write q tid ?w h1 = Inr (?t, q', h2)" "rq_tick q q'"
    using linearize_ok [of q ?w h1 h2 tid, OF q(2) h(2)] by (elim exE conjE)
  have len: "flen (fields_ct h3) = flen F" using arg_cong [OF h(4), of flen] by (simp add: frame_ct_def)
  have "fbun (fields_ct h3) a e = pushed_t ?t bs (fbun F) a e" for a e
  proof (cases "a < flen F")
    case True
    then have "a < flen (fields_ct h3)" using len by simp
    then show ?thesis using True spec [OF h(5), of "(Some a, e)"] F
      by (simp add: peek_fields map_of_refs pushed_t_def del: fields_sel split: option.splits)
  next
    case False
    then have "map_of bs (a, e) = None" using bs by (force simp: map_of_eq_None_iff)
    then show ?thesis using False fields_outside [OF refl, of h3 a e] fields_outside [OF F, of a e] len
      by (simp add: pushed_t_def)
  qed
  then have b: "fbun (fields_ct h3) = pushed_t ?t bs (fbun F)" by (simp add: fun_eq_iff)
  have "fields_ct h3 = (frame_ct h3)\<lparr>fbun := fbun (fields_ct h3)\<rparr>" by (simp add: frame_ct_def)
  then have "fields_ct h3 = F\<lparr>fchild := ?C, fbun := pushed_t ?t bs (fbun F)\<rparr>" by (simp add: h(4) b del: fields_sel)
  then show thesis using that [OF q'(2)] h(1,3) q'(1) by simp
qed

section \<open>The view of a tree\<close>

definition root_child :: "ct_tree \<Rightarrow> ptr" where
  "root_child s = Option.bind (root_ct s) (\<lambda>r. fld child_ct (\<lambda>_. None) (heap_ct s) r 0)"

definition view_ct :: "ct_tree \<Rightarrow> tree_view" where
  "view_ct s = (let F = fields_ct (heap_ct s) in
     \<lparr>tkey = fkey F, tval = fval F, tchild = fchild F, ttag = ftag F, tbun = fbun F,
      tdead = (\<lambda>a. fmark F a \<or> root_ct s = Some a), tlen = flen F,
      troot = (case root_child s of None \<Rightarrow> 0 | Some c \<Rightarrow> c),
      tnow = curr_timestamp (rq_ct s), tmax = NO_KEY_ct s\<rparr>)"

lemma view_sel [simp]:
  "tkey (view_ct s) = fkey (fields_ct (heap_ct s))" "tval (view_ct s) = fval (fields_ct (heap_ct s))"
  "tchild (view_ct s) = fchild (fields_ct (heap_ct s))" "ttag (view_ct s) = ftag (fields_ct (heap_ct s))"
  "tbun (view_ct s) = fbun (fields_ct (heap_ct s))" "tlen (view_ct s) = length (heap_ct s)"
  "tnow (view_ct s) = curr_timestamp (rq_ct s)" "tmax (view_ct s) = NO_KEY_ct s"
  "tdead (view_ct s) = (\<lambda>a. fmark (fields_ct (heap_ct s)) a \<or> root_ct s = Some a)"
  by (simp_all add: view_ct_def Let_def)

text \<open>
  Well-formed trees: the root is a separate node above the sentinel, nobody holds a lock or is
  inside a read-side critical section, and everything from time \<open>base\<close> on can be read.
\<close>

definition wf_ct :: "timestamp_t \<Rightarrow> ct_tree \<Rightarrow> bool" where
  "wf_ct base s \<longleftrightarrow> mode (rq_ct s) = Update_Clock \<and> \<not> cleanup_update (rq_ct s)
     \<and> (\<exists>rt. root_ct s = Some rt \<and> rt < length (heap_ct s) \<and> root_child s \<noteq> None
          \<and> fld child_ct (\<lambda>_. None) (heap_ct s) rt 1 = None)
     \<and> flock (fields_ct (heap_ct s)) = (\<lambda>_. False) \<and> quiet_u (threads_ct s) (rcu_ct s)
     \<and> wf_t base (view_ct s)"

abbreviation contents_ct :: "ct_tree \<Rightarrow> dict" where
  "contents_ct s \<equiv> contents_t (view_ct s)"

abbreviation snapshot_ct :: "ct_tree \<Rightarrow> timestamp_t \<Rightarrow> dict" where
  "snapshot_ct s \<equiv> snapshot_t (view_ct s)"

lemma wf_ctE:
  assumes "wf_ct base s"
  obtains rt rc R where "root_ct s = Some rt" "rt < length (heap_ct s)" "root_child s = Some rc"
    "fchild (fields_ct (heap_ct s)) rt 0 = Some rc" "fchild (fields_ct (heap_ct s)) rt 1 = None"
    "troot (view_ct s) = rc" "live_t (view_ct s) R" "wf_t base (view_ct s)"
    "rt \<notin> set_tree R" "rc \<noteq> rt" "rc < length (heap_ct s)"
proof -
  obtain rt where rt: "root_ct s = Some rt" "rt < length (heap_ct s)" "root_child s \<noteq> None"
    "fchild (fields_ct (heap_ct s)) rt 1 = None"
    using assms by (auto simp: wf_ct_def)
  then obtain rc where rc: "root_child s = Some rc" by blast
  have c0: "fchild (fields_ct (heap_ct s)) rt 0 = Some rc" using rc rt(1) by (simp add: root_child_def)
  have w: "wf_t base (view_ct s)" using assms by (simp add: wf_ct_def)
  obtain R where R: "live_t (view_ct s) R" using w by (elim wf_tE)
  have tr: "troot (view_ct s) = rc" by (simp add: view_ct_def rc)
  have "tdead (view_ct s) rt" using rt(1) by simp
  then have n: "rt \<notin> set_tree R" using live_tD(3) [OF R, of rt] rt(2) by simp
  have "rc \<in> set_tree R" "rc < length (heap_ct s)" using tree_okD(7,3) [OF live_tD(1) [OF R]] tr by auto
  then show thesis using that [OF rt(1,2) rc c0 rt(4) tr R w n] n by blast
qed

lemma wf_ctD:
  assumes "wf_ct base s"
  shows "mode (rq_ct s) = Update_Clock" "\<not> cleanup_update (rq_ct s)" "flock (fields_ct (heap_ct s)) = (\<lambda>_. False)"
    "quiet_u (threads_ct s) (rcu_ct s)" "wf_t base (view_ct s)"
    "0 < base" "base \<le> curr_timestamp (rq_ct s)" "curr_timestamp (rq_ct s) \<le> BUNDLE_MAX_TIMESTAMP"
    "curr_timestamp (rq_ct s) < BUNDLE_MAX_TIMESTAMP \<Longrightarrow> clock_ok (rq_ct s)"
  using assms by (auto simp: wf_ct_def wf_t_def clock_ok_def timestamp_defs)

text \<open>What the bookkeeping around an operation leaves alone.\<close>

lemma quiescent_ct_sel [simp]:
  "heap_ct (enterQuiescentState_ct s tid) = heap_ct s" "heap_ct (leaveQuiescentState_ct s tid) = heap_ct s"
  "heap_ct (rcu_lock_ct s tid) = heap_ct s" "heap_ct (rcu_unlock_ct s tid) = heap_ct s"
  "root_ct (enterQuiescentState_ct s tid) = root_ct s" "root_ct (leaveQuiescentState_ct s tid) = root_ct s"
  "root_ct (rcu_lock_ct s tid) = root_ct s" "root_ct (rcu_unlock_ct s tid) = root_ct s"
  "rq_ct (enterQuiescentState_ct s tid) = rq_ct s" "rq_ct (leaveQuiescentState_ct s tid) = rq_ct s"
  "rq_ct (rcu_lock_ct s tid) = rq_ct s" "rq_ct (rcu_unlock_ct s tid) = rq_ct s"
  "NO_KEY_ct (enterQuiescentState_ct s tid) = NO_KEY_ct s" "NO_KEY_ct (leaveQuiescentState_ct s tid) = NO_KEY_ct s"
  "NO_KEY_ct (rcu_lock_ct s tid) = NO_KEY_ct s" "NO_KEY_ct (rcu_unlock_ct s tid) = NO_KEY_ct s"
  "NO_VALUE_ct (enterQuiescentState_ct s tid) = NO_VALUE_ct s" "NO_VALUE_ct (leaveQuiescentState_ct s tid) = NO_VALUE_ct s"
  "NO_VALUE_ct (rcu_lock_ct s tid) = NO_VALUE_ct s" "NO_VALUE_ct (rcu_unlock_ct s tid) = NO_VALUE_ct s"
  "retired_ct (enterQuiescentState_ct s tid) = retired_ct s" "retired_ct (leaveQuiescentState_ct s tid) = retired_ct s"
  "retired_ct (rcu_lock_ct s tid) = retired_ct s" "retired_ct (rcu_unlock_ct s tid) = retired_ct s"
  "threads_ct (enterQuiescentState_ct s tid) = threads_ct s" "threads_ct (leaveQuiescentState_ct s tid) = threads_ct s"
  "rcu_ct (enterQuiescentState_ct s tid) = rcu_ct s" "rcu_ct (leaveQuiescentState_ct s tid) = rcu_ct s"
  "quiescent_ct (enterQuiescentState_ct s tid) tid"
  by (simp_all add: enterQuiescentState_ct_def leaveQuiescentState_ct_def rcu_lock_ct_def rcu_unlock_ct_def)

lemma rcu_section_sel:
  "rcu_ct (rcu_unlock_ct (rcu_lock_ct s tid) tid) = readUnlock_u tid (readLock_u tid (rcu_ct s))"
  "threads_ct (rcu_unlock_ct s tid) = threads_ct s" "threads_ct (rcu_lock_ct s tid) = threads_ct s"
  by (simp_all add: rcu_lock_ct_def rcu_unlock_ct_def)

lemma view_quiescent [simp]:
  "view_ct (enterQuiescentState_ct s tid) = view_ct s" "view_ct (leaveQuiescentState_ct s tid) = view_ct s"
  "view_ct (rcu_lock_ct s tid) = view_ct s" "view_ct (rcu_unlock_ct s tid) = view_ct s"
  by (simp_all add: view_ct_def root_child_def)

lemma wf_quiescent [simp]:
  "wf_ct base (enterQuiescentState_ct s tid) = wf_ct base s" "wf_ct base (leaveQuiescentState_ct s tid) = wf_ct base s"
  by (simp_all add: wf_ct_def root_child_def)

lemma wf_rcu_section: "wf_ct base s \<Longrightarrow> wf_ct base (rcu_unlock_ct (rcu_lock_ct s tid) tid)"
  by (simp add: wf_ct_def root_child_def rcu_section_sel read_section_quiet)

lemma wf_rq_change:
  assumes "wf_ct base s" "mode q = mode (rq_ct s)" "cleanup_update q = cleanup_update (rq_ct s)"
    "curr_timestamp q = curr_timestamp (rq_ct s)"
  shows "wf_ct base (s\<lparr>rq_ct := q\<rparr>)" "view_ct (s\<lparr>rq_ct := q\<rparr>) = view_ct s"
  using assms by (simp_all add: wf_ct_def view_ct_def root_child_def)

lemma update_at_clock: "clock_ok q \<Longrightarrow> curr_timestamp q + 1 < LLONG_MAX"
  by (simp add: clock_ok_def timestamp_defs)

section \<open>Searching\<close>

lemma search_loop_run:
  assumes F: "fields_ct h = F"
  shows "tree_at (fchild F) cur T \<Longrightarrow> \<forall>a\<in>set_tree T. a < flen F \<Longrightarrow> height T < n \<Longrightarrow>
    (\<And>a. cur = Some a \<Longrightarrow> ck = fkey F a) \<Longrightarrow>
    search_loop_ct n h x (Some p) cur d ck =
      (case search_tree (fkey F) x p d T of (p', T', d') \<Rightarrow> Inr (Some p', root_ptr T', d'))"
proof (induction T arbitrary: n p cur d ck)
  case Leaf
  then show ?case by (cases n) auto
next
  case (Node l a r)
  obtain m where n: "n = Suc m" using Node.prems(3) by (cases n) auto
  have cur: "cur = Some a" and t: "tree_at (fchild F) (fchild F a 0) l" "tree_at (fchild F) (fchild F a 1) r"
    and al: "a < flen F" and ck: "ck = fkey F a" using Node.prems by auto
  have step: "search_loop_ct n h x (Some p) cur d ck = search_loop_ct m h x (Some a) (fchild F a d') d'
      (case fchild F a d' of None \<Rightarrow> ck | Some b \<Rightarrow> fkey F b)"
    if ne: "ck \<noteq> x" and d': "d' = (if ck > x then 0 else 1)" for d'
  proof -
    have lt: "fchild F a d' = Some b \<Longrightarrow> b < flen F" for b
      using Node.prems(2) t tree_at_root_ptr [OF t(1)] tree_at_root_ptr [OF t(2)] d'
      by (cases l; cases r) (auto split: if_splits)
    show ?thesis
    proof (cases "fchild F a d'")
      case None
      then show ?thesis using ne d' by (simp add: n cur childof_run [OF F al])
    next
      case (Some b)
      then show ?thesis using ne d' fields_at [OF F lt [OF Some]] by (simp add: n cur childof_run [OF F al] keyof_ct_def)
    qed
  qed
  show ?case
  proof (cases "ck = x")
    case True
    then show ?thesis using cur ck by (simp add: n)
  next
    case False
    show ?thesis
    proof (cases "ck > x")
      case True
      have "search_loop_ct m h x (Some a) (fchild F a 0) 0 (case fchild F a 0 of None \<Rightarrow> ck | Some b \<Rightarrow> fkey F b)
          = (case search_tree (fkey F) x a 0 l of (p', T', d') \<Rightarrow> Inr (Some p', root_ptr T', d'))"
        using Node.prems(2,3) n t by (intro Node.IH(1)) auto
      then show ?thesis using step [OF False refl] True ck by simp
    next
      case lt: False
      have "search_loop_ct m h x (Some a) (fchild F a 1) 1 (case fchild F a 1 of None \<Rightarrow> ck | Some b \<Rightarrow> fkey F b)
          = (case search_tree (fkey F) x a 1 r of (p', T', d') \<Rightarrow> Inr (Some p', root_ptr T', d'))"
        using Node.prems(2,3) n t by (intro Node.IH(2)) auto
      then show ?thesis using step [OF False refl] lt False ck by simp
    qed
  qed
qed

text \<open>What a search finds: the node and its parent, or the place where the key belongs.\<close>

lemma SEARCH_run:
  assumes wf: "wf_ct base s" and live: "live_t (view_ct s) R" and x: "x < NO_KEY_ct s"
  obtains p d where "p \<in> set_tree R" "d < 2" "p < length (heap_ct s)"
    "SEARCH_ct s x = Inr (Some p, fchild (fields_ct (heap_ct s)) p d, d)"
    "fchild (fields_ct (heap_ct s)) p d = None \<longrightarrow> slot_t (fkey (fields_ct (heap_ct s))) R p d x"
    "\<forall>c. fchild (fields_ct (heap_ct s)) p d = Some c \<longrightarrow>
       c \<in> set_tree R \<and> fkey (fields_ct (heap_ct s)) c = x \<and> c \<noteq> troot (view_ct s)"
proof -
  let ?F = "fields_ct (heap_ct s)" let ?k = "fkey ?F"
  obtain rt rc R' where w: "root_ct s = Some rt" "rt < length (heap_ct s)" "fchild ?F rt 0 = Some rc"
    "troot (view_ct s) = rc" "live_t (view_ct s) R'" "rt \<notin> set_tree R'" "rc < length (heap_ct s)"
    by (rule wf_ctE [OF wf])
  have RR: "R' = R" by (rule live_unique [OF w(5) live])
  note l = live_tD [OF live] and o = tree_okD [OF live_tD(1) [OF live]]
  obtain t where R: "R = Node t rc Leaf" using o(1) w(4) by auto
  have krc: "?k rc = NO_KEY_ct s" using o(4) w(4) by simp
  have at: "tree_at (fchild ?F) (Some rc) R" using l(2) w(4) by simp
  have bnd: "\<forall>a\<in>set_tree R. a < flen ?F" using o(3) by simp
  obtain p T d where st: "search_tree ?k x rt 0 R = (p, T, d)" by (cases "search_tree ?k x rt 0 R") 
  have "height R < Suc (length (heap_ct s))" using o(6) by simp
  from search_loop_run [OF refl at bnd this, of "?k rc" x rt 0]
  have lp: "search_loop_ct (Suc (length (heap_ct s))) (heap_ct s) x (Some rt) (Some rc) 0 (?k rc) = Inr (Some p, root_ptr T, d)"
    unfolding st by simp
  have "childof_ct (heap_ct s) (Some rt) 0 = Inr (Some rc)" "keyof_ct (heap_ct s) (Some rc) = Inr (?k rc)"
    using childof_run [OF refl, of rt "heap_ct s" 0] keyof_run [OF refl, of rc "heap_ct s"] w(2,3,7) by simp_all
  then have run: "SEARCH_ct s x = Inr (Some p, root_ptr T, d)"
    using lp w(1) by (simp add: SEARCH_ct_def Let_def del: search_loop_ct.simps fields_sel)
  have st': "search_tree ?k x rc 0 t = (p, T, d)" using st R krc x by simp
  have tt: "tree_at (fchild ?F) (fchild ?F rc 0) t" using at R by simp
  show thesis
  proof (cases T)
    case Leaf
    have slot: "slot_t ?k R p d x"
      by (rule search_tree_absent [of _ x rt 0]) (use st Leaf R o(2) in auto)
    have pd: "p \<in> set_tree R" "d < 2" "sub p d R = Leaf" using slot by (auto simp: slot_t_def)
    have "fchild ?F p d = None" using tree_at_sub [OF at pd(1,2)] pd(3) by simp
    then show thesis using that [OF pd(1,2)] slot run Leaf o(3) [OF pd(1)] by simp
  next
    case (Node l' c r')
    from search_tree_found [OF st' [unfolded Node] tt] have f: "?k c = x" "c \<in> set_tree t" "fchild ?F p d = Some c" "d < 2"
      "p = rc \<or> p \<in> set_tree t" by auto
    have pR: "p \<in> set_tree R" using f(5) R by auto
    have "c \<noteq> rc" using f(1) krc x by auto
    then show thesis using that [OF pR f(4)] run Node f R o(3) [OF pR] w(4) by auto
  qed
qed

lemma SEARCH_quiescent [simp]:
  "SEARCH_ct (rcu_lock_ct s tid) x = SEARCH_ct s x" "SEARCH_ct (rcu_unlock_ct s tid) x = SEARCH_ct s x"
  "SEARCH_ct (leaveQuiescentState_ct s tid) x = SEARCH_ct s x"
  by (simp_all add: SEARCH_ct_def)

text \<open>The dictionary at a key that is in the tree, or is not.\<close>

lemma pairs_t_sorted:
  assumes "tree_ok v R"
  shows "ksorted fst (pairs_t v R)"
proof -
  have "ksorted (tkey v) (inorder R)" by (rule tree_okD(2) [OF assms])
  then have "ksorted (tkey v) (butlast (inorder R))"
    by (cases "inorder R" rule: rev_cases) (auto simp: sorted_wrt_append)
  then show ?thesis by (simp add: pairs_t_def sorted_wrt_map)
qed

lemma contents_ct_at:
  assumes live: "live_t v R" and c: "c \<in> set_tree R" "c \<noteq> troot v"
  shows "map_of (contents_t v) (tkey v c) = Some (tval v c)"
proof -
  note o = tree_okD [OF live_tD(1) [OF live]]
  obtain t where R: "R = Node t (troot v) Leaf" using o(1) by blast
  have "(tkey v c, tval v c) \<in> set (pairs_t v R)" using c R by (auto simp: pairs_t_def)
  moreover have "distinct (map fst (pairs_t v R))"
    by (rule ksorted_distinct_keys [OF pairs_t_sorted [OF live_tD(1) [OF live]]])
  ultimately show ?thesis using contents_t_live(1) [OF live] by simp
qed

lemma contents_slot:
  assumes live: "live_t v R" and s: "slot_t (tkey v) R p d x"
  shows "map_of (contents_t v) x = None"
proof -
  obtain us vs where u: "inorder R = us @ vs" "\<forall>a\<in>set us. tkey v a < x" "\<forall>a\<in>set vs. x < tkey v a"
    using slot_tD(4) [OF s] by blast
  have "fst e \<noteq> x" if e: "e \<in> set (pairs_t v R)" for e
  proof -
    obtain a where "a \<in> set (us @ vs)" "e = (tkey v a, tval v a)"
      using e u(1) by (auto simp: pairs_t_def dest!: in_set_butlastD)
    then show ?thesis using u(2,3) by fastforce
  qed
  then show ?thesis using contents_t_live(1) [OF live] by (auto simp: map_of_eq_None_iff)
qed

end
