(* ===== verification/Tree_Stack.thy ===== *)
theory Tree_Stack
  imports Heap_Tree Block_Bag
begin

text \<open>
  The explicit stack of the tree traversals: a block of bounded size that holds the roots of
  the subtrees still to be visited. As every subtree on the stack is lower than the one
  below it, a tree whose height does not exceed the capacity never overflows it.
\<close>

definition stack_of :: "ptr block \<Rightarrow> nat tree list \<Rightarrow> nat \<Rightarrow> bool" where
  "stack_of st Ts H \<longleftrightarrow> items_b st = map root_ptr Ts \<and> Leaf \<notin> set Ts
     \<and> (\<forall>i<length Ts. height (Ts ! i) + i \<le> H) \<and> H \<le> BLOCK_SIZE"

lemma stack_of_empty: "stack_of st Ts H \<Longrightarrow> isEmpty_b st \<longleftrightarrow> Ts = []"
  unfolding stack_of_def isEmpty_b_def by (metis items_b_simps(1) length_0_conv length_map)

lemma stack_of_pop:
  assumes "stack_of st (Ts @ [Node l a r]) H"
  shows "\<exists>st0. pop_b st = Inr (Some a, st0) \<and> stack_of st0 Ts H \<and> height (Node l a r) + length Ts \<le> H"
proof -
  have it: "items_b st = map root_ptr Ts @ [Some a]" using assms by (simp add: stack_of_def)
  then have sz: "size_b st = Suc (length Ts)" by (metis items_b_simps(1) length_append_singleton length_map)
  then obtain st0 where p: "pop_b st = Inr (data_b st (size_b st - 1), st0)"
    "items_b st = items_b st0 @ [data_b st (size_b st - 1)]"
    using pop_b_ok [of st] by auto
  have h: "\<forall>i<Suc (length Ts). height ((Ts @ [Node l a r]) ! i) + i \<le> H" using assms by (simp add: stack_of_def)
  have "height (Ts ! i) + i \<le> H" if "i < length Ts" for i using h that by (auto simp: nth_append dest: spec [of _ i])
  moreover have "height (Node l a r) + length Ts \<le> H" using spec [OF h, of "length Ts"] by simp
  ultimately show ?thesis using p it assms by (auto simp: stack_of_def)
qed

lemma stack_of_push:
  assumes s: "stack_of st Ts H" and h: "height T + length Ts \<le> H"
  shows "\<exists>st'. (if root_ptr T \<noteq> None \<and> b then push_b (root_ptr T) st else Inr st) = Inr st'
    \<and> stack_of st' (Ts @ (if T \<noteq> Leaf \<and> b then [T] else [])) H"
proof (cases "T \<noteq> Leaf \<and> b")
  case True
  have it: "items_b st = map root_ptr Ts" and H: "H \<le> BLOCK_SIZE" using s by (simp_all add: stack_of_def)
  have sz: "size_b st = length Ts" using it by (metis items_b_simps(1) length_map)
  have "0 < height T" using True by (cases T) auto
  then have "size_b st < BLOCK_SIZE" using h H sz by simp
  from push_b_ok [OF this, of "root_ptr T"] obtain st' where
    st': "push_b (root_ptr T) st = Inr st'" "items_b st' = items_b st @ [root_ptr T]"
    by (elim exE conjE)
  have "height ((Ts @ [T]) ! i) + i \<le> H" if "i < Suc (length Ts)" for i
    using s h that by (cases "i = length Ts") (auto simp: stack_of_def nth_append)
  then have "stack_of st' (Ts @ [T]) H" using True s st'(2) it H by (auto simp: stack_of_def)
  then show ?thesis using True st'(1) by (intro exI [of _ st']) simp
next
  case False
  then show ?thesis using s by auto
qed

lemma stack_of_push2:
  assumes s: "stack_of st Ts H" and h: "height (Node l a r) + length Ts \<le> H"
  obtains st1 st2 where "(if root_ptr l \<noteq> None \<and> b then push_b (root_ptr l) st else Inr st) = Inr st1"
    "(if root_ptr r \<noteq> None \<and> b' then push_b (root_ptr r) st1 else Inr st1) = Inr st2"
    "stack_of st2 (Ts @ (if l \<noteq> Leaf \<and> b then [l] else []) @ (if r \<noteq> Leaf \<and> b' then [r] else [])) H"
proof -
  have hl: "height l + length Ts \<le> H" using h by simp
  obtain st1 where st1: "(if root_ptr l \<noteq> None \<and> b then push_b (root_ptr l) st else Inr st) = Inr st1"
    "stack_of st1 (Ts @ (if l \<noteq> Leaf \<and> b then [l] else [])) H"
    using stack_of_push [OF s hl, of b] by (elim exE conjE)
  have "height r + length (Ts @ (if l \<noteq> Leaf \<and> b then [l] else [])) \<le> H" using h by auto
  from stack_of_push [OF st1(2) this, of b'] obtain st2 where
    "(if root_ptr r \<noteq> None \<and> b' then push_b (root_ptr r) st1 else Inr st1) = Inr st2"
    "stack_of st2 ((Ts @ (if l \<noteq> Leaf \<and> b then [l] else [])) @ (if r \<noteq> Leaf \<and> b' then [r] else [])) H"
    by (elim exE conjE)
  then show thesis using that [OF st1(1)] by (simp only: append_assoc)
qed

lemma stack_of_start:
  assumes "T \<noteq> Leaf" "height T \<le> BLOCK_SIZE" "size_b st = 0"
  shows "\<exists>st'. push_b (root_ptr T) st = Inr st' \<and> stack_of st' [T] (height T)"
proof -
  have "size_b st < BLOCK_SIZE" using assms(3) BLOCK_SIZE_pos by simp
  from push_b_ok [OF this, of "root_ptr T"] obtain st' where
    "push_b (root_ptr T) st = Inr st'" "items_b st' = items_b st @ [root_ptr T]"
    by (elim exE conjE)
  moreover have "items_b st = []" using assms(3) by (rule items_b_empty)
  ultimately show ?thesis using assms(1,2) by (intro exI [of _ st']) (simp add: stack_of_def)
qed

end
