(* ===== verification/Bundled_Citrus_Ops.thy ===== *)
theory Bundled_Citrus_Ops
  imports Bundled_Citrus_Steps Tree_Stack
begin

text \<open>
  The locked sections of the bundled Citrus tree run to their end and are the transitions of
  \<open>Tree_View\<close>, for the result of any search whatsoever.
\<close>

lemma runsE:
  assumes "runs m F"
  obtains h where "m = Inr h" "fields_ct h = F"
  using assms by (auto simp: runs_def)

lemma lock_unlock:
  "flock F = (\<lambda>_. False) \<Longrightarrow> F\<lparr>flock := (flock F)(p := True, p := False)\<rparr> = F"
  by (metis fun_upd_triv fun_upd_upd ct_fields.surjective ct_fields.update_convs(5))

lemma validate_run:
  assumes F: "fields_ct h = F" "p < flen F" and c: "\<And>a. c = Some a \<Longrightarrow> a < flen F"
  shows "validate_ct h (Some p) g c d = Inr (case c of
      None \<Rightarrow> \<not> fmark F p \<and> fchild F p d = None \<and> ftag F p d = g
    | Some a \<Rightarrow> \<not> fmark F p \<and> \<not> fmark F a \<and> fchild F p d = c)"
proof (cases c)
  case None
  then show ?thesis by (simp add: validate_ct_def fields_at [OF F])
next
  case (Some a)
  then show ?thesis using fields_at [OF F(1) c [OF Some]] by (simp add: validate_ct_def fields_at [OF F])
qed

section \<open>Insertion\<close>

lemma insert_locked_retry:
  assumes F: "fields_ct (heap_ct s) = F" "p < flen F" and lk: "flock F = (\<lambda>_. False)"
    and inv: "fmark F p \<or> fchild F p d \<noteq> None \<or> ftag F p d \<noteq> g"
  shows "insert_locked_ct s tid (Some p) g None d k x = Inr (enterQuiescentState_ct s tid, None)"
proof -
  obtain h0 where h0: "lock_node_ct (heap_ct s) (Some p) = Inr h0" "fields_ct h0 = F\<lparr>flock := (flock F)(p := True)\<rparr>"
    using lock_run [OF F] lk by (auto elim!: runsE)
  have v: "validate_ct h0 (Some p) g None d = Inr False"
    using validate_run [OF h0(2), of p None g d] F(2) inv by auto
  obtain h1 where h1: "unlock_node_ct h0 (Some p) = Inr h1" "fields_ct h1 = F"
    using unlock_run [OF h0(2), of p] F(2) lock_unlock [OF lk] by (auto elim!: runsE)
  have "h1 = heap_ct s" by (rule fields_inj) (simp only: h1 F)
  then show ?thesis by (simp add: insert_locked_ct_def h0(1) v h1(1))
qed

lemma insert_locked_commit:
  assumes F: "fields_ct (heap_ct s) = F" "p < flen F" and lk: "flock F = (\<lambda>_. False)"
    and valid: "\<not> fmark F p" "fchild F p d = None" "ftag F p d = g"
    and q: "\<not> cleanup_update (rq_ct s)" "clock_ok (rq_ct s)"
  obtains q' h' where "insert_locked_ct s tid (Some p) g None d k x =
      Inr (enterQuiescentState_ct (s\<lparr>heap_ct := h', rq_ct := q'\<rparr>) tid, Some (NO_VALUE_ct s))"
    "rq_tick (rq_ct s) q'"
    "fields_ct h' = F\<lparr>fkey := (fkey F)(flen F := k), fval := (fval F)(flen F := x),
       fchild := ((fchild F)(flen F := (\<lambda>_. None)))(p := (fchild F p)(d := Some (flen F))),
       ftag := (ftag F)(flen F := (\<lambda>_. 0)), fmark := (fmark F)(flen F := False),
       fbun := pushed_t (curr_timestamp (rq_ct s) + 1)
         [((flen F, 0), None), ((flen F, 1), None), ((p, d), Some (flen F))] (fbun F), flen := Suc (flen F)\<rparr>"
proof -
  let ?n = "flen F" let ?bs = "[((?n, 0), None), ((?n, 1), None), ((p, d), Some ?n)]"
  obtain h0 where h0: "lock_node_ct (heap_ct s) (Some p) = Inr h0" "fields_ct h0 = F\<lparr>flock := (flock F)(p := True)\<rparr>"
    using lock_run [OF F] lk by (auto elim!: runsE)
  have v: "validate_ct h0 (Some p) g None d = Inr True"
    using validate_run [OF h0(2), of p None g d] F(2) valid by auto
  obtain h1 where h1: "newNode_ct h0 k x = (Some ?n, h1)"
    "fields_ct h1 = F\<lparr>fkey := (fkey F)(?n := k), fval := (fval F)(?n := x), fchild := (fchild F)(?n := (\<lambda>_. None)),
      ftag := (ftag F)(?n := (\<lambda>_. 0)), flock := (flock F)(p := True, ?n := False), fmark := (fmark F)(?n := False),
      fbun := (fbun F)(?n := (\<lambda>_. [])), flen := Suc ?n\<rparr>" (is "_ = ?F1")
    by (rule newNode_run [OF h0(2), of k x]) simp
  obtain h2 where h2: "lock_node_ct h1 (Some ?n) = Inr h2" "fields_ct h2 = ?F1\<lparr>flock := (flock F)(p := True, ?n := True)\<rparr>" (is "_ = ?F2")
    using lock_run [OF h1(2), of ?n] by (auto elim!: runsE)
  have pn: "p \<noteq> ?n" using F(2) by simp
  have di: "distinct (map fst ?bs)" "\<forall>e\<in>set ?bs. fst (fst e) < flen ?F2" "p < flen ?F2"
    using F(2) pn by auto
  obtain q' h5 where m: "rq_tick (rq_ct s) q'" "fields_ct h5 = ?F2\<lparr>fchild := (fchild ?F2)(p := (fchild ?F2 p)(d := Some ?n)),
      fbun := pushed_t (curr_timestamp (rq_ct s) + 1) ?bs (fbun ?F2)\<rparr>"
    and mid: "\<And>K :: rqp \<Rightarrow> ct_node list \<Rightarrow> (ct_tree \<times> int option) res. obind (prepare_bundles (rq_ct s) upd_bundle_ct (refs ?bs) h2) (\<lambda>h3.
       obind (linearize_update_at_write (rq_ct s) tid (\<lambda>h. set_child_ct h (Some p) d (Some ?n)) h3) (\<lambda>(lt, rq', h4).
       obind (finalize_bundles upd_bundle_ct (refs ?bs) lt h4) (\<lambda>h5. K rq' h5))) = K q' h5"
    by (rule bundles_write [OF h2(2) q di]) blast
  obtain h6 where h6: "unlock_node_ct h5 (Some ?n) = Inr h6" "fields_ct h6 = (fields_ct h5)\<lparr>flock := (flock F)(p := True, ?n := False)\<rparr>"
    using unlock_run [OF m(2), of ?n] by (auto elim!: runsE simp: m(2))
  have lf: "(flock F)(p := True, ?n := False, p := False) = flock F" using lk by (simp add: fun_eq_iff)
  obtain h7 where h7: "unlock_node_ct h6 (Some p) = Inr h7" "fields_ct h7 = (fields_ct h5)\<lparr>flock := flock F\<rparr>"
    using unlock_run [OF h6(2), of p] di(3) by (auto elim!: runsE simp: m(2) lf)
  have run: "insert_locked_ct s tid (Some p) g None d k x =
      Inr (enterQuiescentState_ct (s\<lparr>heap_ct := h7, rq_ct := q'\<rparr>) tid, Some (NO_VALUE_ct s))"
    using mid [of "\<lambda>rq' h5. obind (unlock_node_ct h5 (Some ?n)) (\<lambda>h6. obind (unlock_node_ct h6 (Some p)) (\<lambda>h7.
        Inr (enterQuiescentState_ct (s\<lparr>heap_ct := h7, rq_ct := rq'\<rparr>) tid, Some (NO_VALUE_ct s))))"]
    by (simp add: insert_locked_ct_def h0(1) v h1(1) h2(1) h6(1) h7(1) refs_simps)
  have fb: "(fbun F)(?n := (\<lambda>_. [])) = fbun F" using fields_outside [OF F(1), of ?n] by (auto simp: fun_eq_iff)
  show thesis by (rule that [OF run m(1)]) (simp add: h7(2) m(2) fb pn)
qed

section \<open>Removal of a node with at most one child\<close>

lemma unlock2:
  assumes "flock G = (\<lambda>_. False)(a := True, b := True)"
    and F: "fields_ct h = G" "a < flen G" "b < flen G"
  obtains h1 h2 where "unlock_node_ct h (Some a) = Inr h1" "unlock_node_ct h1 (Some b) = Inr h2"
    "fields_ct h2 = G\<lparr>flock := (\<lambda>_. False)\<rparr>"
proof -
  obtain h1 where h1: "unlock_node_ct h (Some a) = Inr h1" "fields_ct h1 = G\<lparr>flock := (flock G)(a := False)\<rparr>"
    using unlock_run [OF F(1,2)] by (auto elim!: runsE)
  have "(flock G)(a := False, b := False) = (\<lambda>_. False)" using assms(1) by (simp add: fun_eq_iff)
  then obtain h2 where "unlock_node_ct h1 (Some b) = Inr h2" "fields_ct h2 = G\<lparr>flock := (\<lambda>_. False)\<rparr>"
    using unlock_run [OF h1(2), of b] F(3) by (auto elim!: runsE)
  then show thesis using that h1(1) by blast
qed

definition bump_fields :: "nat \<Rightarrow> nat \<Rightarrow> ct_fields \<Rightarrow> ct_fields" where
  "bump_fields a d F = (if fchild F a d = None then F\<lparr>ftag := (ftag F)(a := (ftag F a)(d := ftag F a d + 1))\<rparr> else F)"

lemma bump_fields_sel [simp]:
  "fkey (bump_fields a d F) = fkey F" "fval (bump_fields a d F) = fval F" "fchild (bump_fields a d F) = fchild F"
  "flock (bump_fields a d F) = flock F" "fmark (bump_fields a d F) = fmark F" "fbun (bump_fields a d F) = fbun F"
  "flen (bump_fields a d F) = flen F"
  "ftag (bump_fields a d F) = (if fchild F a d = None then (ftag F)(a := (ftag F a)(d := ftag F a d + 1)) else ftag F)"
  by (simp_all add: bump_fields_def)

lemma fields_eqI:
  fixes F G :: ct_fields
  assumes "fkey F = fkey G" "fval F = fval G" "fchild F = fchild G" "ftag F = ftag G" "flock F = flock G"
    "fmark F = fmark G" "fbun F = fbun G" "flen F = flen G"
  shows "F = G"
  using assms by simp

lemma erase_bypass_run:
  assumes h0: "fields_ct h0 = F\<lparr>flock := (\<lambda>_. False)(p := True, c := True)\<rparr>" and lk: "flock F = (\<lambda>_. False)"
    and pc: "p < flen F" "c < flen F" and e: "q = fchild F c e"
    and rt: "root_ct s = Some rt" "rt < flen F" "fchild F rt 0 = Some rc" and p: "p \<noteq> c"
    and clk: "\<not> cleanup_update (rq_ct s)" "clock_ok (rq_ct s)"
  obtains q' h' where "erase_bypass_ct s tid h0 (Some p) (Some c) d e =
      Inr (enterQuiescentState_ct (s\<lparr>heap_ct := h', rq_ct := q', retired_ct := retired_ct s @ [Some c]\<rparr>) tid,
        Some (fval F c, True))" "rq_tick (rq_ct s) q'"
    "fields_ct h' = F\<lparr>fchild := (fchild F)(p := (fchild F p)(d := q)),
       ftag := (if q = None then (ftag F)(p := (ftag F p)(d := ftag F p d + 1)) else ftag F),
       fmark := (fmark F)(c := True),
       fbun := pushed_t (curr_timestamp (rq_ct s) + 1) [((p, d), q), ((c, 0), Some rc), ((c, 1), Some rc)] (fbun F)\<rparr>"
proof -
  let ?bs = "[((p, d), q), ((c, 0), Some rc), ((c, 1), Some rc)]"
  let ?L = "(\<lambda>_. False)(p := True, c := True)"
  obtain h1 where h1: "set_marked_ct h0 (Some c) = Inr h1" "fields_ct h1 = F\<lparr>flock := ?L, fmark := (fmark F)(c := True)\<rparr>" (is "_ = ?F1")
    using set_marked_run [OF h0, of c] pc by (auto elim!: runsE)
  have ch: "childof_ct h1 (Some c) e = Inr q" "childof_ct h1 (Some rt) 0 = Inr (Some rc)"
    using childof_run [OF h1(2)] pc rt e by simp_all
  have di: "distinct (map fst ?bs)" "\<forall>e\<in>set ?bs. fst (fst e) < flen ?F1" "p < flen ?F1" using pc p by auto
  obtain q' h4 where m: "rq_tick (rq_ct s) q'" "fields_ct h4 = ?F1\<lparr>fchild := (fchild ?F1)(p := (fchild ?F1 p)(d := q)),
      fbun := pushed_t (curr_timestamp (rq_ct s) + 1) ?bs (fbun ?F1)\<rparr>" (is "_ = ?F4")
    and mid: "\<And>K :: rqp \<Rightarrow> ct_node list \<Rightarrow> (ct_tree \<times> (int \<times> bool) option) res.
       obind (prepare_bundles (rq_ct s) upd_bundle_ct (refs ?bs) h1) (\<lambda>h3.
       obind (linearize_update_at_write (rq_ct s) tid (\<lambda>h. set_child_ct h (Some p) d q) h3) (\<lambda>(lt, rq', h4).
       obind (finalize_bundles upd_bundle_ct (refs ?bs) lt h4) (\<lambda>h5. K rq' h5))) = K q' h4"
    by (rule bundles_write [OF h1(2) clk di]) blast
  obtain h5 where h5: "bump_tag_ct h4 (Some p) d = Inr h5" "fields_ct h5 = bump_fields p d ?F4"
    using bump_tag_run [OF m(2), of p d] pc by (auto elim!: runsE simp: bump_fields_def)
  have v: "deref h5 (Some c) = Inr (h5 ! c)" "val_ct (h5 ! c) = fval F c"
    using fields_at [OF h5(2), of c] pc by simp_all
  obtain h6 h7 where u: "unlock_node_ct h5 (Some p) = Inr h6" "unlock_node_ct h6 (Some c) = Inr h7"
    "fields_ct h7 = (bump_fields p d ?F4)\<lparr>flock := (\<lambda>_. False)\<rparr>"
    by (rule unlock2 [OF _ h5(2), of p c]) (use pc in simp_all)
  have run: "erase_bypass_ct s tid h0 (Some p) (Some c) d e =
      Inr (enterQuiescentState_ct (s\<lparr>heap_ct := h7, rq_ct := q', retired_ct := retired_ct s @ [Some c]\<rparr>) tid,
        Some (fval F c, True))"
    using mid [of "\<lambda>rq' h4. obind (bump_tag_ct h4 (Some p) d) (\<lambda>h5. obind (deref h5 (Some c)) (\<lambda>cn.
      obind (unlock_node_ct h5 (Some p)) (\<lambda>h6. obind (unlock_node_ct h6 (Some c)) (\<lambda>h7.
      Inr (enterQuiescentState_ct (s\<lparr>heap_ct := h7, rq_ct := rq',
          retired_ct := physical_deletion_succeeded (retired_ct s) [Some c, None]\<rparr>) tid,
        Some (val_ct cn, True))))))"]
    by (simp add: erase_bypass_ct_def h1(1) ch rt(1) h5(1) v u refs_simps physical_deletion_succeeded_def)
  show thesis by (rule that [OF run m(1)], rule fields_eqI) (simp_all add: u(3) lk)
qed

section \<open>Removal of a node with two children\<close>

lemma succ_loop_run:
  assumes F: "fields_ct h = F"
  shows "tree_at (fchild F) (Some x) (Node l x r) \<Longrightarrow> \<forall>a\<in>set_tree l. a < flen F \<Longrightarrow> height l < n \<Longrightarrow>
    succ_loop_ct n h (Some q) (Some x) (fchild F x 0) =
      (case min_place q (Node l x r) of (ps, sc, rr) \<Rightarrow> Inr (Some ps, Some sc))"
proof (induction l arbitrary: n q x r)
  case Leaf
  then show ?case by (cases n) auto
next
  case (Node l1 y r1)
  obtain m where n: "n = Suc m" using Node.prems(3) by (cases n) auto
  have c: "fchild F x 0 = Some y" and t: "tree_at (fchild F) (Some y) (Node l1 y r1)" and y: "y < flen F"
    using Node.prems(1,2) by auto
  have "succ_loop_ct m h (Some x) (Some y) (fchild F y 0) =
      (case min_place x (Node l1 y r1) of (ps, sc, rr) \<Rightarrow> Inr (Some ps, Some sc))"
    using Node.prems n by (intro Node.IH(1) [OF t]) auto
  then show ?case by (simp add: n c childof_run [OF F y])
qed

definition fields_view :: "ct_fields \<Rightarrow> tree_view \<Rightarrow> bool" where
  "fields_view F V \<longleftrightarrow> fkey F = tkey V \<and> fval F = tval V \<and> fchild F = tchild V \<and> ftag F = ttag V
     \<and> fbun F = tbun V \<and> flen F = tlen V"

lemma fields_viewI:
  assumes "fkey F = tkey V" "fval F = tval V" "fchild F = tchild V" "ftag F = ttag V" "fbun F = tbun V" "flen F = tlen V"
  shows "fields_view F V"
  using assms by (simp add: fields_view_def)

lemma unlocks_run:
  assumes F: "fields_ct h = G" and L: "\<And>a. flock G a \<Longrightarrow> a \<in> {p, n, c, ps, sc}"
    and len: "p < flen G" "n < flen G" "c < flen G" "ps < flen G" "sc < flen G"
  obtains h1 h2 h3 h4 h5 where "unlock_node_ct h (Some p) = Inr h1" "unlock_node_ct h1 (Some n) = Inr h2"
    "unlock_node_ct h2 (Some c) = Inr h3" "(if ps \<noteq> c then unlock_node_ct h3 (Some ps) else Inr h3) = Inr h4"
    "unlock_node_ct h4 (Some sc) = Inr h5" "fields_ct h5 = G\<lparr>flock := (\<lambda>_. False)\<rparr>"
proof -
  obtain h1 where h1: "unlock_node_ct h (Some p) = Inr h1" "fields_ct h1 = G\<lparr>flock := (flock G)(p := False)\<rparr>"
    using unlock_run [OF F len(1)] by (auto elim!: runsE)
  obtain h2 where h2: "unlock_node_ct h1 (Some n) = Inr h2" "fields_ct h2 = G\<lparr>flock := (flock G)(p := False, n := False)\<rparr>"
    using unlock_run [OF h1(2), of n] len by (auto elim!: runsE)
  obtain h3 where h3: "unlock_node_ct h2 (Some c) = Inr h3"
    "fields_ct h3 = G\<lparr>flock := (flock G)(p := False, n := False, c := False)\<rparr>"
    using unlock_run [OF h2(2), of c] len by (auto elim!: runsE)
  obtain h4 where h4: "(if ps \<noteq> c then unlock_node_ct h3 (Some ps) else Inr h3) = Inr h4"
    "fields_ct h4 = G\<lparr>flock := (flock G)(p := False, n := False, c := False, ps := False)\<rparr>"
    using unlock_run [OF h3(2), of ps] h3(2) len by (cases "ps = c") (auto elim!: runsE)
  obtain h5 where h5: "unlock_node_ct h4 (Some sc) = Inr h5"
    "fields_ct h5 = G\<lparr>flock := (flock G)(p := False, n := False, c := False, ps := False, sc := False)\<rparr>"
    using unlock_run [OF h4(2), of sc] len by (auto elim!: runsE)
  have "(flock G)(p := False, n := False, c := False, ps := False, sc := False) = (\<lambda>_. False)"
    using L by (auto simp: fun_eq_iff)
  then show thesis using that h1(1) h2(1) h3(1) h4(1) h5 by simp
qed

text \<open>The writes after the grace period.\<close>

lemma unlink_succ_run:
  assumes F: "fields_ct h = G" and len: "n < flen G" "ps < flen G"
  obtains h1 where "(if Some ps = Some c then obind (set_child_ct h (Some n) 1 q) (\<lambda>h. bump_tag_ct h (Some n) 1)
      else obind (set_child_ct h (Some ps) 0 q) (\<lambda>h. bump_tag_ct h (Some ps) 0)) = Inr h1"
    "fields_ct h1 = (if ps = c then bump_fields n 1 (G\<lparr>fchild := (fchild G)(n := (fchild G n)(1 := q))\<rparr>)
      else bump_fields ps 0 (G\<lparr>fchild := (fchild G)(ps := (fchild G ps)(0 := q))\<rparr>))"
proof (cases "ps = c")
  case True
  obtain h0 where h0: "set_child_ct h (Some n) 1 q = Inr h0" "fields_ct h0 = G\<lparr>fchild := (fchild G)(n := (fchild G n)(1 := q))\<rparr>"
    using set_child_run [OF F len(1), of 1 q] by (auto elim!: runsE)
  obtain h1 where "bump_tag_ct h0 (Some n) 1 = Inr h1" "fields_ct h1 = bump_fields n 1 (G\<lparr>fchild := (fchild G)(n := (fchild G n)(1 := q))\<rparr>)"
    using bump_tag_run [OF h0(2), of n 1] len by (auto elim!: runsE simp: bump_fields_def)
  then show thesis using that True h0(1) by simp
next
  case False
  obtain h0 where h0: "set_child_ct h (Some ps) 0 q = Inr h0" "fields_ct h0 = G\<lparr>fchild := (fchild G)(ps := (fchild G ps)(0 := q))\<rparr>"
    using set_child_run [OF F len(2), of 0 q] by (auto elim!: runsE)
  obtain h1 where "bump_tag_ct h0 (Some ps) 0 = Inr h1" "fields_ct h1 = bump_fields ps 0 (G\<lparr>fchild := (fchild G)(ps := (fchild G ps)(0 := q))\<rparr>)"
    using bump_tag_run [OF h0(2), of ps 0] len by (auto elim!: runsE simp: bump_fields_def)
  then show thesis using that False h0(1) by simp
qed

text \<open>The copy of the successor, linked to the children of the node and locked.\<close>

lemma copy_node_run:
  assumes F: "fields_ct h1 = F"
  obtains h2 h3 h4 h5 where "newNode_ct h1 k x = (Some (flen F), h2)" "set_child_ct h2 (Some (flen F)) 0 q0 = Inr h3"
    "set_child_ct h3 (Some (flen F)) 1 q1 = Inr h4" "lock_node_ct h4 (Some (flen F)) = Inr h5"
    "fields_ct h5 = F\<lparr>fkey := (fkey F)(flen F := k), fval := (fval F)(flen F := x),
      fchild := (fchild F)(flen F := (\<lambda>_. None)(0 := q0, 1 := q1)), ftag := (ftag F)(flen F := (\<lambda>_. 0)),
      flock := (flock F)(flen F := True), fmark := (fmark F)(flen F := False), flen := Suc (flen F)\<rparr>"
proof -
  let ?n = "flen F"
  obtain h2 where h2: "newNode_ct h1 k x = (Some ?n, h2)" "fields_ct h2 = F\<lparr>fkey := (fkey F)(?n := k), fval := (fval F)(?n := x),
      fchild := (fchild F)(?n := (\<lambda>_. None)), ftag := (ftag F)(?n := (\<lambda>_. 0)),
      flock := (flock F)(?n := False), fmark := (fmark F)(?n := False),
      fbun := (fbun F)(?n := (\<lambda>_. [])), flen := Suc ?n\<rparr>" (is "_ = ?F2")
    by (rule newNode_run [OF F])
  obtain h3 where h3: "set_child_ct h2 (Some ?n) 0 q0 = Inr h3"
    "fields_ct h3 = ?F2\<lparr>fchild := (fchild F)(?n := (\<lambda>_. None)(0 := q0))\<rparr>" (is "_ = ?F3")
    using set_child_run [OF h2(2), of ?n 0 q0] by (auto elim!: runsE)
  obtain h4 where h4: "set_child_ct h3 (Some ?n) 1 q1 = Inr h4"
    "fields_ct h4 = ?F2\<lparr>fchild := (fchild F)(?n := (\<lambda>_. None)(0 := q0, 1 := q1))\<rparr>" (is "_ = ?F4")
    using set_child_run [OF h3(2), of ?n 1 q1] by (auto elim!: runsE)
  obtain h5 where h5: "lock_node_ct h4 (Some ?n) = Inr h5" "fields_ct h5 = ?F4\<lparr>flock := (flock F)(?n := True)\<rparr>"
    using lock_run [OF h4(2), of ?n] by (auto elim!: runsE)
  have fb: "(fbun F)(?n := (\<lambda>_. [])) = fbun F" using fields_outside [OF F, of ?n] by (auto simp: fun_eq_iff)
  show thesis by (rule that [OF h2(1) h3(1) h4(1) h5(1)]) (simp add: h5(2) fb)
qed

lemma erase_replace_run:
  assumes h0: "fields_ct h0 = F\<lparr>flock := L\<rparr>" and F: "F = fields_ct (heap_ct s)"
    and L: "\<And>a. L a \<Longrightarrow> a \<in> {p, c, ps, sc}"
    and len: "p < flen F" "c < flen F" "ps < flen F" "sc < flen F"
    and rt: "root_ct s = Some rt" "rt < flen F" "fchild F rt 0 = Some (troot (view_ct s))"
    and ne: "p \<noteq> c" "ps \<noteq> p" "sc \<noteq> c" "sc \<noteq> p" "sc \<noteq> ps"
    and clk: "\<not> cleanup_update (rq_ct s)" "clock_ok (rq_ct s)" and quiet: "quiet_u (threads_ct s) (rcu_ct s)"
  obtains q' h' where "erase_replace_ct s tid h0 (Some p) (Some c) d (Some ps) (Some sc) =
      Inr (enterQuiescentState_ct (s\<lparr>heap_ct := h', rq_ct := q', retired_ct := retired_ct s @ [Some c, Some sc]\<rparr>) tid,
        Some (fval F c, True))" "rq_tick (rq_ct s) q'"
    "fields_view (fields_ct h') (replace_tv (view_ct s) p d c ps sc)"
    "fmark (fields_ct h') = (fmark F)(flen F := False, c := True, sc := True)" "flock (fields_ct h') = (\<lambda>_. False)"
proof -
  let ?n = "flen F" let ?rc = "troot (view_ct s)" let ?t = "curr_timestamp (rq_ct s) + 1"
  let ?bs = "[((p, d), Some ?n), ((?n, 0), fchild F c 0), ((?n, 1), if ps \<noteq> c then fchild F c 1 else fchild F sc 1),
         ((c, 0), Some ?rc), ((c, 1), Some ?rc)] @ (if ps \<noteq> c then [((ps, 0), fchild F sc 1)] else [])"
  have nn: "p \<noteq> ?n" "c \<noteq> ?n" "ps \<noteq> ?n" "sc \<noteq> ?n" "rt \<noteq> ?n" using len rt by auto
  obtain h1 where h1: "set_marked_ct h0 (Some c) = Inr h1" "fields_ct h1 = F\<lparr>flock := L, fmark := (fmark F)(c := True)\<rparr>" (is "_ = ?F1")
    using set_marked_run [OF h0, of c] len by (auto elim!: runsE)
  have d1: "deref h1 (Some sc) = Inr (h1 ! sc)" "key_ct (h1 ! sc) = fkey F sc" "val_ct (h1 ! sc) = fval F sc"
    "child_ct (h1 ! sc) = fchild F sc" "deref h1 (Some c) = Inr (h1 ! c)" "child_ct (h1 ! c) = fchild F c"
    using fields_at [OF h1(2)] len by simp_all
  obtain h2 h3 h4 h5 where cp: "newNode_ct h1 (fkey F sc) (fval F sc) = (Some ?n, h2)"
    "set_child_ct h2 (Some ?n) 0 (fchild F c 0) = Inr h3" "set_child_ct h3 (Some ?n) 1 (fchild F c 1) = Inr h4"
    "lock_node_ct h4 (Some ?n) = Inr h5"
    "fields_ct h5 = F\<lparr>fkey := (fkey F)(?n := fkey F sc), fval := (fval F)(?n := fval F sc),
      fchild := (fchild F)(?n := (\<lambda>_. None)(0 := fchild F c 0, 1 := fchild F c 1)), ftag := (ftag F)(?n := (\<lambda>_. 0)),
      flock := L(?n := True), fmark := (fmark F)(c := True, ?n := False), flen := Suc ?n\<rparr>" (is "_ = ?F5")
    by (rule copy_node_run [OF h1(2), of "fkey F sc" "fval F sc" "fchild F c 0" "fchild F c 1"]) simp
  have rc: "childof_ct h5 (Some rt) 0 = Inr (Some ?rc)" using childof_run [OF cp(5), of rt 0] rt nn by simp
  have di: "distinct (map fst ?bs)" "\<forall>e\<in>set ?bs. fst (fst e) < flen ?F5" "p < flen ?F5"
    using len nn ne by auto
  obtain q' h8 where m: "rq_tick (rq_ct s) q'" "fields_ct h8 = ?F5\<lparr>fchild := (fchild ?F5)(p := (fchild ?F5 p)(d := Some ?n)),
      fbun := pushed_t ?t ?bs (fbun ?F5)\<rparr>" (is "_ = ?F8")
    and mid: "\<And>K :: rqp \<Rightarrow> ct_node list \<Rightarrow> (ct_tree \<times> (int \<times> bool) option) res.
       obind (prepare_bundles (rq_ct s) upd_bundle_ct (refs ?bs) h5) (\<lambda>h3.
       obind (linearize_update_at_write (rq_ct s) tid (\<lambda>h. set_child_ct h (Some p) d (Some ?n)) h3) (\<lambda>(lt, rq', h4).
       obind (finalize_bundles upd_bundle_ct (refs ?bs) lt h4) (\<lambda>h5. K rq' h5))) = K q' h8"
    by (rule bundles_write [OF cp(5) clk di]) blast
  obtain h9 where h9: "set_marked_ct h8 (Some sc) = Inr h9" "fields_ct h9 = ?F8\<lparr>fmark := (fmark F)(c := True, ?n := False, sc := True)\<rparr>" (is "_ = ?F9")
    using set_marked_run [OF m(2), of sc] len by (auto elim!: runsE)
  have q: "childof_ct h9 (Some sc) 1 = Inr (fchild F sc 1)" using childof_run [OF h9(2), of sc 1] len nn ne by simp
  obtain h10 where h10: "(if Some ps = Some c then obind (set_child_ct h9 (Some ?n) 1 (fchild F sc 1)) (\<lambda>h. bump_tag_ct h (Some ?n) 1)
      else obind (set_child_ct h9 (Some ps) 0 (fchild F sc 1)) (\<lambda>h. bump_tag_ct h (Some ps) 0)) = Inr h10"
    "fields_ct h10 = (if ps = c then bump_fields ?n 1 (?F9\<lparr>fchild := (fchild ?F9)(?n := (fchild ?F9 ?n)(1 := fchild F sc 1))\<rparr>)
      else bump_fields ps 0 (?F9\<lparr>fchild := (fchild ?F9)(ps := (fchild ?F9 ps)(0 := fchild F sc 1))\<rparr>))" (is "_ = ?F10")
    by (rule unlink_succ_run [OF h9(2), of ?n ps c "fchild F sc 1"]) (use len in simp_all)
  have F10: "flock ?F10 = L(?n := True)" "flen ?F10 = Suc ?n" "fval ?F10 = (fval F)(?n := fval F sc)" by simp_all
  have v: "deref h10 (Some c) = Inr (h10 ! c)" "val_ct (h10 ! c) = fval F c"
    using fields_at [OF h10(2), of c] F10 len nn by simp_all
  obtain h11 h12 h13 h14 h15 where u: "unlock_node_ct h10 (Some p) = Inr h11" "unlock_node_ct h11 (Some ?n) = Inr h12"
    "unlock_node_ct h12 (Some c) = Inr h13" "(if ps \<noteq> c then unlock_node_ct h13 (Some ps) else Inr h13) = Inr h14"
    "unlock_node_ct h14 (Some sc) = Inr h15" "fields_ct h15 = ?F10\<lparr>flock := (\<lambda>_. False)\<rparr>"
    by (rule unlocks_run [OF h10(2), of p ?n c ps sc]) (use F10 L len in \<open>auto split: if_splits\<close>)
  have run: "erase_replace_ct s tid h0 (Some p) (Some c) d (Some ps) (Some sc) =
      Inr (enterQuiescentState_ct (s\<lparr>heap_ct := h15, rq_ct := q', retired_ct := retired_ct s @ [Some c, Some sc]\<rparr>) tid,
        Some (fval F c, True))"
  proof (cases "ps = c")
    case True
    then show ?thesis using mid h10(1) u(4) unfolding erase_replace_ct_def
      by (simp add: h1(1) d1 cp(1-4) rt(1) rc refs_simps h9(1) q v u(1-3,5) physical_deletion_succeeded_def
          synchronize_quiet [OF quiet] del: prepare_bundles.simps finalize_bundles.simps One_nat_def)
  next
    case False
    then show ?thesis using mid h10(1) u(4) unfolding erase_replace_ct_def
      by (simp add: h1(1) d1 cp(1-4) rt(1) rc refs_simps h9(1) q v u(1-3,5) physical_deletion_succeeded_def
          synchronize_quiet [OF quiet] del: prepare_bundles.simps finalize_bundles.simps One_nat_def)
  qed
  show thesis
  proof (rule that [OF run m(1)])
    have V: "tkey (view_ct s) = fkey F" "tval (view_ct s) = fval F" "tchild (view_ct s) = fchild F"
      "ttag (view_ct s) = ftag F" "tbun (view_ct s) = fbun F" "tlen (view_ct s) = ?n" "tnow (view_ct s) + 1 = ?t"
      unfolding F by simp_all
    show "fields_view (fields_ct h15) (replace_tv (view_ct s) p d c ps sc)"
    proof (rule fields_viewI)
      show "fbun (fields_ct h15) = tbun (replace_tv (view_ct s) p d c ps sc)"
        unfolding replace_tv_sel V u(6) by simp
      show "fchild (fields_ct h15) = tchild (replace_tv (view_ct s) p d c ps sc)"
        unfolding replace_tv_def Let_def V u(6) using nn ne by (auto simp: fun_eq_iff V)
      show "ftag (fields_ct h15) = ttag (replace_tv (view_ct s) p d c ps sc)"
        unfolding replace_tv_def Let_def V u(6) using nn ne by (auto simp: fun_eq_iff V)
    qed (simp_all add: replace_tv_sel V u(6) del: fields_sel view_sel)
  qed (use nn in \<open>auto simp: u(6) fun_eq_iff\<close>)
qed

section \<open>The section of \<open>erase\<close> under the locks\<close>

lemma lock2_run:
  assumes F: "fields_ct h = F" "p < flen F" "c < flen F" and lk: "flock F = (\<lambda>_. False)" and ne: "p \<noteq> c"
  obtains h0 h1 where "lock_node_ct h (Some p) = Inr h0" "lock_node_ct h0 (Some c) = Inr h1"
    "fields_ct h1 = F\<lparr>flock := (\<lambda>_. False)(p := True, c := True)\<rparr>"
proof -
  obtain h0 where h0: "lock_node_ct h (Some p) = Inr h0" "fields_ct h0 = F\<lparr>flock := (\<lambda>_. False)(p := True)\<rparr>"
    using lock_run [OF F(1,2)] lk by (auto elim!: runsE)
  obtain h1 where "lock_node_ct h0 (Some c) = Inr h1" "fields_ct h1 = F\<lparr>flock := (\<lambda>_. False)(p := True, c := True)\<rparr>"
    using lock_run [OF h0(2), of c] F(3) ne by (auto elim!: runsE)
  then show thesis using that h0(1) by blast
qed

lemma erase_locked_retry:
  assumes F: "fields_ct (heap_ct s) = F" "p < flen F" "c < flen F" and lk: "flock F = (\<lambda>_. False)" and ne: "p \<noteq> c"
    and inv: "fmark F p \<or> fmark F c \<or> fchild F p d \<noteq> Some c"
  shows "erase_locked_ct s tid (Some p) (Some c) d = Inr (enterQuiescentState_ct s tid, None)"
proof -
  obtain h0 h1 where h: "lock_node_ct (heap_ct s) (Some p) = Inr h0" "lock_node_ct h0 (Some c) = Inr h1"
    "fields_ct h1 = F\<lparr>flock := (\<lambda>_. False)(p := True, c := True)\<rparr>"
    by (rule lock2_run [OF F lk ne])
  have v: "validate_ct h1 (Some p) 0 (Some c) d = Inr False"
    using validate_run [OF h(3), of p "Some c" 0 d] F(2,3) inv by auto
  obtain h2 h3 where u: "unlock_node_ct h1 (Some p) = Inr h2" "unlock_node_ct h2 (Some c) = Inr h3" "fields_ct h3 = F"
    by (rule unlock2 [OF _ h(3), of p c]) (use F lk in \<open>auto intro: fields_eqI\<close>)
  have "h3 = heap_ct s" by (rule fields_inj) (simp only: u F)
  then show ?thesis by (simp add: erase_locked_ct_def h(1,2) v u(1,2))
qed

lemma erase_locked_bypass:
  assumes F: "fields_ct (heap_ct s) = F" "p < flen F" "c < flen F" and lk: "flock F = (\<lambda>_. False)" and ne: "p \<noteq> c"
    and v: "\<not> fmark F p" "\<not> fmark F c" "fchild F p d = Some c"
    and rt: "root_ct s = Some rt" "rt < flen F" "fchild F rt 0 = Some (troot (view_ct s))"
    and clk: "\<not> cleanup_update (rq_ct s)" "clock_ok (rq_ct s)"
    and q: "fchild F c 0 = None \<and> q = fchild F c 1 \<or> fchild F c 0 \<noteq> None \<and> fchild F c 1 = None \<and> q = fchild F c 0"
  obtains q' h' where "erase_locked_ct s tid (Some p) (Some c) d =
      Inr (enterQuiescentState_ct (s\<lparr>heap_ct := h', rq_ct := q', retired_ct := retired_ct s @ [Some c]\<rparr>) tid,
        Some (fval F c, True))" "rq_tick (rq_ct s) q'"
    "fields_view (fields_ct h') (bypass_tv (view_ct s) p d c q)"
    "fmark (fields_ct h') = (fmark F)(c := True)" "flock (fields_ct h') = (\<lambda>_. False)"
proof -
  obtain h0 h1 where h: "lock_node_ct (heap_ct s) (Some p) = Inr h0" "lock_node_ct h0 (Some c) = Inr h1"
    "fields_ct h1 = F\<lparr>flock := (\<lambda>_. False)(p := True, c := True)\<rparr>"
    by (rule lock2_run [OF F lk ne])
  have val: "validate_ct h1 (Some p) 0 (Some c) d = Inr True"
    using validate_run [OF h(3), of p "Some c" 0 d] F(2,3) v by auto
  have cn: "deref h1 (Some c) = Inr (h1 ! c)" "child_ct (h1 ! c) = fchild F c"
    using fields_at [OF h(3), of c] F(3) by simp_all
  let ?e = "if fchild F c 0 = None then 1 else 0 :: nat"
  have qe: "q = fchild F c ?e" using q by auto
  have V: "tkey (view_ct s) = fkey F" "tval (view_ct s) = fval F" "tchild (view_ct s) = fchild F"
    "ttag (view_ct s) = ftag F" "tbun (view_ct s) = fbun F" "tlen (view_ct s) = flen F"
    "tnow (view_ct s) = curr_timestamp (rq_ct s)" using F(1) by auto
  obtain q' h' where r: "erase_bypass_ct s tid h1 (Some p) (Some c) d ?e =
      Inr (enterQuiescentState_ct (s\<lparr>heap_ct := h', rq_ct := q', retired_ct := retired_ct s @ [Some c]\<rparr>) tid,
        Some (fval F c, True))" "rq_tick (rq_ct s) q'"
    "fields_ct h' = F\<lparr>fchild := (fchild F)(p := (fchild F p)(d := q)),
       ftag := (if q = None then (ftag F)(p := (ftag F p)(d := ftag F p d + 1)) else ftag F),
       fmark := (fmark F)(c := True),
       fbun := pushed_t (curr_timestamp (rq_ct s) + 1)
         [((p, d), q), ((c, 0), Some (troot (view_ct s))), ((c, 1), Some (troot (view_ct s)))] (fbun F)\<rparr>"
    by (rule erase_bypass_run [OF h(3) lk F(2,3) qe rt ne clk, where tid = tid and d = d])
  have "erase_locked_ct s tid (Some p) (Some c) d = erase_bypass_ct s tid h1 (Some p) (Some c) d ?e"
    using q by (auto simp: erase_locked_ct_def h(1,2) val cn)
  moreover have "fields_view (fields_ct h') (bypass_tv (view_ct s) p d c q)"
    by (rule fields_viewI) (simp_all add: r(3) bypass_tv_def V del: fields_sel view_sel)
  moreover have "fmark (fields_ct h') = (fmark F)(c := True)" "flock (fields_ct h') = (\<lambda>_. False)"
    by (simp_all add: r(3) lk del: fields_sel)
  ultimately show thesis using r(1,2) by (intro that) (simp_all only:)
qed

lemma erase_locked_replace:
  assumes F: "fields_ct (heap_ct s) = F" "p < flen F" "c < flen F" and lk: "flock F = (\<lambda>_. False)" and ne: "p \<noteq> c"
    and v: "\<not> fmark F p" "\<not> fmark F c" "fchild F p d = Some c"
    and rt: "root_ct s = Some rt" "rt < flen F" "fchild F rt 0 = Some (troot (view_ct s))"
    and clk: "\<not> cleanup_update (rq_ct s)" "clock_ok (rq_ct s)" and quiet: "quiet_u (threads_ct s) (rcu_ct s)"
    and l: "fchild F c 0 \<noteq> None" and r: "tree_at (fchild F) (fchild F c 1) r" "r \<noteq> Leaf" "\<forall>a\<in>set_tree r. a < flen F"
    "height r \<le> flen F" and m: "min_place c r = (ps, sc, rr)"
    and sm: "\<not> fmark F ps" "\<not> fmark F sc" "ps < flen F" "sc < flen F" "fchild F sc 0 = None"
    "fchild F ps (if ps = c then 1 else 0) = Some sc" and dj: "ps \<noteq> p" "sc \<noteq> c" "sc \<noteq> p" "sc \<noteq> ps"
  obtains q' h' where "erase_locked_ct s tid (Some p) (Some c) d =
      Inr (enterQuiescentState_ct (s\<lparr>heap_ct := h', rq_ct := q', retired_ct := retired_ct s @ [Some c, Some sc]\<rparr>) tid,
        Some (fval F c, True))" "rq_tick (rq_ct s) q'"
    "fields_view (fields_ct h') (replace_tv (view_ct s) p d c ps sc)"
    "fmark (fields_ct h') = (fmark F)(flen F := False, c := True, sc := True)" "flock (fields_ct h') = (\<lambda>_. False)"
proof -
  obtain h0 h1 where h: "lock_node_ct (heap_ct s) (Some p) = Inr h0" "lock_node_ct h0 (Some c) = Inr h1"
    "fields_ct h1 = F\<lparr>flock := (\<lambda>_. False)(p := True, c := True)\<rparr>" (is "_ = ?F1")
    by (rule lock2_run [OF F lk ne])
  have val: "validate_ct h1 (Some p) 0 (Some c) d = Inr True"
    using validate_run [OF h(3), of p "Some c" 0 d] F(2,3) v by auto
  have cn: "deref h1 (Some c) = Inr (h1 ! c)" "child_ct (h1 ! c) = fchild F c"
    using fields_at [OF h(3), of c] F(3) by simp_all
  obtain rl x rx where rN: "r = Node rl x rx" using r(2) by (cases r) auto
  have c1: "fchild F c 1 = Some x" using r(1) rN by simp
  have len1: "length h1 = flen F" using arg_cong [OF h(3), of flen] by simp
  have nx: "childof_ct h1 (Some x) 0 = Inr (fchild F x 0)" using childof_run [OF h(3), of x 0] r(3) rN by simp
  have sl: "succ_loop_ct (Suc (length h1)) h1 (Some c) (Some x) (fchild F x 0) = Inr (Some ps, Some sc)"
    using succ_loop_run [OF h(3), of x rl rx "Suc (length h1)" c] r rN c1 m len1 by simp
  obtain h2 where h2: "(if ps \<noteq> c then lock_node_ct h1 (Some ps) else Inr h1) = Inr h2"
    "fields_ct h2 = F\<lparr>flock := (\<lambda>_. False)(p := True, c := True, ps := True)\<rparr>" (is "_ = ?F2")
    using lock_run [OF h(3), of ps] sm(3) dj(1) h(3) by (cases "ps = c") (auto elim!: runsE)
  obtain h3 where h3: "lock_node_ct h2 (Some sc) = Inr h3"
    "fields_ct h3 = F\<lparr>flock := (\<lambda>_. False)(p := True, c := True, ps := True, sc := True)\<rparr>" (is "_ = F\<lparr>flock := ?L\<rparr>")
    using lock_run [OF h2(2), of sc] sm(4) dj by (auto elim!: runsE)
  have v1: "validate_ct h3 (Some ps) 0 (Some sc) (if ps \<noteq> c then 0 else 1) = Inr True"
    using validate_run [OF h3(2), of ps "Some sc" 0 "if ps \<noteq> c then 0 else 1"] sm by auto
  have dsc: "deref h3 (Some sc) = Inr (h3 ! sc)" "tag_ct (h3 ! sc) = ftag F sc"
    using fields_at [OF h3(2), of sc] sm(4) by simp_all
  have v2: "validate_ct h3 (Some sc) (ftag F sc 0) None 0 = Inr True"
    using validate_run [OF h3(2), of sc None "ftag F sc 0" 0] sm by auto
  have "erase_locked_ct s tid (Some p) (Some c) d = erase_replace_ct s tid h3 (Some p) (Some c) d (Some ps) (Some sc)"
  proof (cases "ps = c")
    case True
    then have "h2 = h1" using h2(1) by simp
    then show ?thesis using True v1 h3(1) by (simp add: erase_locked_ct_def h(1,2) val cn l c1 nx sl dsc v2
      del: succ_loop_ct.simps One_nat_def)
  next
    case False
    then show ?thesis using v1 h2(1) by (simp add: erase_locked_ct_def h(1,2) val cn l c1 nx sl h3(1) dsc v2
      del: succ_loop_ct.simps One_nat_def)
  qed
  moreover obtain q' h' where e: "erase_replace_ct s tid h3 (Some p) (Some c) d (Some ps) (Some sc) =
      Inr (enterQuiescentState_ct (s\<lparr>heap_ct := h', rq_ct := q', retired_ct := retired_ct s @ [Some c, Some sc]\<rparr>) tid,
        Some (fval F c, True))" "rq_tick (rq_ct s) q'"
    "fields_view (fields_ct h') (replace_tv (view_ct s) p d c ps sc)"
    "fmark (fields_ct h') = (fmark F)(flen F := False, c := True, sc := True)" "flock (fields_ct h') = (\<lambda>_. False)"
    by (rule erase_replace_run [OF h3(2) F(1) [symmetric] _ F(2,3) sm(3,4) rt ne dj clk quiet, where tid = tid and d = d])
      (auto split: if_splits)
  ultimately show thesis using e(2-5) by (intro that) (simp_all only:)
qed

end
