(* ===== verification/Bundled_Citrus_Correct.thy ===== *)
theory Bundled_Citrus_Correct
  imports Bundled_Citrus_Ops
begin

text \<open>
  Correctness of the updates of the bundled Citrus tree: what the locked sections do on the
  results of searches of any age, and the methods as a whole.
\<close>

section \<open>Steps between well-formed trees\<close>

lemma wf_ct_step:
  assumes wf: "wf_ct base s" and tick: "rq_tick (rq_ct s) (rq_ct s')"
    and fv: "fields_view (fields_ct (heap_ct s')) V" and lk: "flock (fields_ct (heap_ct s')) = (\<lambda>_. False)"
    and dead: "tdead V = (\<lambda>a. fmark (fields_ct (heap_ct s')) a \<or> root_ct s = Some a)"
    and V: "troot V = troot (view_ct s)" "tmax V = tmax (view_ct s)" "tnow V = tnow (view_ct s) + 1"
    and root: "\<And>rt. root_ct s = Some rt \<Longrightarrow> tchild V rt = tchild (view_ct s) rt" and len: "tlen (view_ct s) \<le> tlen V"
    and frame: "root_ct s' = root_ct s" "NO_KEY_ct s' = NO_KEY_ct s" "threads_ct s' = threads_ct s" "rcu_ct s' = rcu_ct s"
    and wfV: "wf_t base V"
  shows "wf_ct base s'" "view_ct s' = V"
proof -
  let ?F = "fields_ct (heap_ct s)" let ?F' = "fields_ct (heap_ct s')"
  obtain rt rc where rt: "root_ct s = Some rt" "rt < length (heap_ct s)" "root_child s = Some rc"
    "fchild ?F rt 0 = Some rc" "fchild ?F rt 1 = None" "troot (view_ct s) = rc"
    by (rule wf_ctE [OF wf])
  have ch: "fchild ?F' rt = fchild ?F rt" using fv root [OF rt(1)] by (simp add: fields_view_def)
  have rcs: "root_child s' = Some rc" using frame(1) rt(1,4) ch by (simp add: root_child_def)
  have "flen ?F' = tlen V" using fv by (simp add: fields_view_def)
  then have len': "length (heap_ct s) \<le> length (heap_ct s')" using len by simp
  show v: "view_ct s' = V"
    using fv dead V rcs rt(6) frame(1,2) rq_tickD(1) [OF tick]
    by (simp add: view_ct_def Let_def fields_view_def del: fields_sel)
  show "wf_ct base s'"
    unfolding wf_ct_def v using wf wfV lk rq_tickD(2,3) [OF tick] frame rt rcs ch len' wf_ctD [OF wf] by simp
qed

lemma insert_tv_root:
  assumes "p \<noteq> rt" "rt < tlen v"
  shows "tchild (insert_tv v p d k x) rt = tchild v rt" "tchild (bypass_tv v p d c q) rt = tchild v rt"
    "ps \<noteq> rt \<Longrightarrow> tchild (replace_tv v p d c ps sc) rt = tchild v rt"
  using assms by (auto simp: insert_tv_sel bypass_tv_sel replace_tv_def Let_def)

text \<open>
  The result of an old search of an insertion (\<open>found_ct\<close>) and of a removal (\<open>edge_ct\<close>), as far
  as it stays true whatever happens in between.
\<close>

definition found_ct :: "ct_tree \<Rightarrow> int \<Rightarrow> nat \<Rightarrow> nat \<Rightarrow> int \<Rightarrow> bool" where
  "found_ct s k p d g \<longleftrightarrow> root_ct s \<noteq> Some p \<and> (\<exists>R. live_t (view_ct s) R \<and> found_t (view_ct s) R k (p, d, g))"

definition edge_ct :: "ct_tree \<Rightarrow> int \<Rightarrow> nat \<Rightarrow> nat \<Rightarrow> nat \<Rightarrow> bool" where
  "edge_ct s k p c d \<longleftrightarrow> root_ct s \<noteq> Some p \<and> p < length (heap_ct s) \<and> c < length (heap_ct s) \<and> p \<noteq> c \<and> d < 2
     \<and> fkey (fields_ct (heap_ct s)) c = k"

text \<open>One update seen from outside.\<close>

definition updates_ct :: "timestamp_t \<Rightarrow> ct_tree \<Rightarrow> dict \<Rightarrow> ct_tree \<Rightarrow> bool" where
  "updates_ct base s d s' \<longleftrightarrow> wf_ct base s' \<and> contents_ct s' = d
     \<and> snapshot_ct s' (curr_timestamp (rq_ct s')) = d \<and> curr_timestamp (rq_ct s) \<le> curr_timestamp (rq_ct s')
     \<and> (\<forall>u. base \<le> u \<and> u \<le> curr_timestamp (rq_ct s) \<longrightarrow> snapshot_ct s' u = snapshot_ct s u)"

lemma updates_ctI:
  assumes "steps_t base (view_ct s) d (view_ct s')" "wf_ct base s'"
  shows "updates_ct base s d s'"
  using assms by (simp add: steps_t_def updates_ct_def)

definition inserted_ct :: "timestamp_t \<Rightarrow> ct_tree \<Rightarrow> nat \<Rightarrow> nat \<Rightarrow> nat \<Rightarrow> int \<Rightarrow> int \<Rightarrow> ct_tree \<Rightarrow> bool" where
  "inserted_ct base s tid p d k x s' \<longleftrightarrow> (\<exists>R. live_t (view_ct s) R \<and> slot_t (tkey (view_ct s)) R p d k)
     \<and> view_ct s' = insert_tv (view_ct s) p d k x \<and> root_ct s' = root_ct s \<and> NO_KEY_ct s' = NO_KEY_ct s
     \<and> updates_ct base s (ins_kv k x (contents_ct s)) s' \<and> map_of (contents_ct s) k = None
     \<and> retired_ct s' = retired_ct s \<and> quiescent_ct s' tid"

lemma insert_valid_step:
  assumes wf: "wf_ct base s" and clk: "curr_timestamp (rq_ct s) < BUNDLE_MAX_TIMESTAMP" and k: "k < NO_KEY_ct s"
    and rt: "root_ct s \<noteq> Some p" and p: "p < length (heap_ct s)"
    and v: "\<not> fmark (fields_ct (heap_ct s)) p" "fchild (fields_ct (heap_ct s)) p d = None" "ftag (fields_ct (heap_ct s)) p d = g"
    and live: "live_t (view_ct s) R" and slot: "slot_t (tkey (view_ct s)) R p d k"
  shows "\<exists>s'. insert_locked_ct s tid (Some p) g None d k x = Inr (s', Some (NO_VALUE_ct s)) \<and> inserted_ct base s tid p d k x s'"
proof -
  let ?F = "fields_ct (heap_ct s)" let ?V = "insert_tv (view_ct s) p d k x" let ?n = "flen ?F"
  obtain rt rc where w: "root_ct s = Some rt" "rt < length (heap_ct s)"
    by (rule wf_ctE [OF wf])
  have pn: "p < ?n" "p \<noteq> rt" using p rt w(1) by auto
  note wfd = wf_ctD [OF wf]
  obtain q' h' where run: "insert_locked_ct s tid (Some p) g None d k x =
      Inr (enterQuiescentState_ct (s\<lparr>heap_ct := h', rq_ct := q'\<rparr>) tid, Some (NO_VALUE_ct s))"
    and tick: "rq_tick (rq_ct s) q'"
    and F': "fields_ct h' = ?F\<lparr>fkey := (fkey ?F)(?n := k), fval := (fval ?F)(?n := x),
       fchild := ((fchild ?F)(?n := (\<lambda>_. None)))(p := (fchild ?F p)(d := Some ?n)),
       ftag := (ftag ?F)(?n := (\<lambda>_. 0)), fmark := (fmark ?F)(?n := False),
       fbun := pushed_t (curr_timestamp (rq_ct s) + 1)
         [((?n, 0), None), ((?n, 1), None), ((p, d), Some ?n)] (fbun ?F), flen := Suc ?n\<rparr>"
    by (rule insert_locked_commit [OF refl pn(1) wfd(3) v wfd(2) wfd(9) [OF clk], where tid = tid and k = k and x = x])
  let ?s = "enterQuiescentState_ct (s\<lparr>heap_ct := h', rq_ct := q'\<rparr>) tid"
  have fv: "fields_view (fields_ct h') ?V"
    by (rule fields_viewI) (simp_all add: F' insert_tv_sel)
  have clk': "tnow (view_ct s) < BUNDLE_MAX_TIMESTAMP" and k': "k < tmax (view_ct s)" using clk k by simp_all
  note st = insert_tv_steps(1) [OF wfd(5) clk' live slot k', where x = x]
    insert_tv_steps(2) [OF wfd(5) clk' live slot k']
  have wfV: "wf_t base ?V" using st(1) by (simp add: steps_t_def)
  have dead: "tdead ?V = (\<lambda>a. fmark (fields_ct h') a \<or> root_ct s = Some a)"
    using w(1,2) by (auto simp: insert_tv_sel F' fun_eq_iff)
  have s': "wf_ct base ?s" "view_ct ?s = ?V"
    using wf_ct_step [OF wf, of ?s ?V] tick fv dead wfV insert_tv_root(1) [of p rt "view_ct s" d k x] pn w wfd(3) F'
    by (simp_all add: insert_tv_sel enterQuiescentState_ct_def del: fields_sel)
  have "updates_ct base s (ins_kv k x (contents_ct s)) ?s"
    by (rule updates_ctI) (use st s' in simp_all)
  then show ?thesis using run live slot s' st(2) unfolding inserted_ct_def
    by (intro exI [of _ ?s] conjI exI [of _ R]) (simp_all add: enterQuiescentState_ct_def)
qed

lemma insert_ct_step:
  assumes wf: "wf_ct base s" and clk: "curr_timestamp (rq_ct s) < BUNDLE_MAX_TIMESTAMP"
    and f: "found_ct s k p d g" and k: "k < NO_KEY_ct s"
  shows "insert_locked_ct s tid (Some p) g None d k x = Inr (enterQuiescentState_ct s tid, None) \<or>
    (\<exists>s'. insert_locked_ct s tid (Some p) g None d k x = Inr (s', Some (NO_VALUE_ct s)) \<and> inserted_ct base s tid p d k x s')"
proof -
  let ?F = "fields_ct (heap_ct s)"
  obtain R where R: "live_t (view_ct s) R" "found_t (view_ct s) R k (p, d, g)" "root_ct s \<noteq> Some p"
    using f unfolding found_ct_def by (elim exE conjE)
  have p: "p < flen ?F" using R(2) by (auto simp: found_t_def)
  show ?thesis
  proof (cases "fmark ?F p \<or> fchild ?F p d \<noteq> None \<or> ftag ?F p d \<noteq> g")
    case True
    then show ?thesis using insert_locked_retry [OF refl p wf_ctD(3) [OF wf]] by blast
  next
    case False
    then have v: "\<not> fmark ?F p" "fchild ?F p d = None" "ftag ?F p d = g" by auto
    have "slot_t (tkey (view_ct s)) R p d k" using R(2,3) v by (simp add: found_t_def del: fields_sel)
    from insert_valid_step [OF wf clk k R(3) _ v R(1) this] p show ?thesis by simp
  qed
qed

text \<open>Old searches survive every update.\<close>

definition keeps_ct :: "ct_tree \<Rightarrow> ct_tree \<Rightarrow> bool" where
  "keeps_ct s s' \<longleftrightarrow> (\<forall>k p d g. found_ct s k p d g \<longrightarrow> found_ct s' k p d g)
     \<and> (\<forall>k p c d. edge_ct s k p c d \<longrightarrow> edge_ct s' k p c d) \<and> NO_KEY_ct s' = NO_KEY_ct s"

lemma keeps_ctI:
  assumes root: "root_ct s' = root_ct s" "NO_KEY_ct s' = NO_KEY_ct s" and live: "live_t (view_ct s) R"
    and live': "live_t (view_ct s') R'"
    and f: "\<And>k p d g. found_t (view_ct s) R k (p, d, g) \<Longrightarrow> found_t (view_ct s') R' k (p, d, g)"
    and len: "tlen (view_ct s) \<le> tlen (view_ct s')"
    and key: "\<And>a. a < tlen (view_ct s) \<Longrightarrow> tkey (view_ct s') a = tkey (view_ct s) a"
  shows "keeps_ct s s'"
proof -
  have "found_ct s' k p d g" if "found_ct s k p d g" for k p d g
  proof -
    obtain S where S: "live_t (view_ct s) S" "found_t (view_ct s) S k (p, d, g)" "root_ct s \<noteq> Some p"
      using \<open>found_ct s k p d g\<close> unfolding found_ct_def by (elim exE conjE)
    have "S = R" by (rule live_unique [OF S(1) live])
    then have "found_t (view_ct s') R' k (p, d, g)" using f S(2) by simp
    then show ?thesis using live' S(3) root(1) unfolding found_ct_def by auto
  qed
  moreover have "edge_ct s' k p c d" if "edge_ct s k p c d" for k p c d
    using that root len key [of c] by (auto simp: edge_ct_def simp del: fields_sel)
  ultimately show ?thesis using root(2) unfolding keeps_ct_def by blast
qed

lemma keeps_ct_refl: "keeps_ct s s"
  by (simp add: keeps_ct_def)

lemma keeps_ct_trans: "keeps_ct s s' \<Longrightarrow> keeps_ct s' s'' \<Longrightarrow> keeps_ct s s''"
  unfolding keeps_ct_def by metis

lemma keeps_ct_quiescent: "keeps_ct s (enterQuiescentState_ct s tid)"
  by (simp add: keeps_ct_def found_ct_def edge_ct_def)

lemma insert_keeps:
  assumes wf: "wf_ct base s" "curr_timestamp (rq_ct s) < BUNDLE_MAX_TIMESTAMP" and k: "k < NO_KEY_ct s"
    and s': "inserted_ct base s tid p d k x s'"
  shows "keeps_ct s s'"
proof -
  obtain R where R: "live_t (view_ct s) R" "slot_t (tkey (view_ct s)) R p d k" "view_ct s' = insert_tv (view_ct s) p d k x"
    "root_ct s' = root_ct s" "NO_KEY_ct s' = NO_KEY_ct s"
    using s' unfolding inserted_ct_def by (elim exE conjE)
  have w: "wf_t base (view_ct s)" "tnow (view_ct s) < BUNDLE_MAX_TIMESTAMP" "k < tmax (view_ct s)"
    using wf_ctD(5) [OF wf(1)] wf(2) k by simp_all
  note live' = insert_tv_live [OF w(1,2) R(1,2) w(3), where x = x]
  show ?thesis
  proof (rule keeps_ctI [OF R(4,5,1)])
    show "live_t (view_ct s') (put p d (Node Leaf (tlen (view_ct s)) Leaf) R)" using live' R(3) by simp
    show "found_t (view_ct s') (put p d (Node Leaf (tlen (view_ct s)) Leaf) R) k' (p', d', g)"
      if "found_t (view_ct s) R k' (p', d', g)" for k' p' d' g
      unfolding R(3) by (rule found_insert [OF that R(1,2) live' refl])
  qed (simp_all add: R(3) insert_tv_sel del: view_sel)
qed

text \<open>The nodes handed to the reclaimer are exactly those that an update removes.\<close>

definition retires_ct :: "ct_tree \<Rightarrow> ct_tree \<Rightarrow> bool" where
  "retires_ct s s' \<longleftrightarrow> (\<exists>gone. retired_ct s' = retired_ct s @ map Some gone \<and> distinct gone
     \<and> set gone = {a. tdead (view_ct s') a \<and> \<not> tdead (view_ct s) a})"

definition erased_ct :: "timestamp_t \<Rightarrow> ct_tree \<Rightarrow> nat \<Rightarrow> int \<Rightarrow> int \<Rightarrow> ct_tree \<Rightarrow> bool" where
  "erased_ct base s tid k v s' \<longleftrightarrow> map_of (contents_ct s) k = Some v
     \<and> updates_ct base s (del_kv k (contents_ct s)) s' \<and> keeps_ct s s' \<and> retires_ct s s' \<and> quiescent_ct s' tid"

lemma erased_ctI:
  assumes wf: "wf_ct base s" and live: "live_t (view_ct s) R" and rt: "root_ct s = Some rt"
    and tick: "rq_tick (rq_ct s) q'" and fv: "fields_view (fields_ct h') V" and lk: "flock (fields_ct h') = (\<lambda>_. False)"
    and dead: "tdead V = (\<lambda>a. fmark (fields_ct h') a \<or> root_ct s = Some a)"
    and V: "troot V = troot (view_ct s)" "tmax V = tmax (view_ct s)" "tnow V = tnow (view_ct s) + 1"
      "tchild V rt = tchild (view_ct s) rt" "tlen (view_ct s) \<le> tlen V"
      "\<And>a. a < tlen (view_ct s) \<Longrightarrow> tkey V a = tkey (view_ct s) a"
    and st: "steps_t base (view_ct s) (del_kv k (contents_ct s)) V" and live': "live_t V R'"
    and f: "\<And>k p d g. found_t (view_ct s) R k (p, d, g) \<Longrightarrow> found_t V R' k (p, d, g)"
    and gone: "distinct gone" "set gone = {a. tdead V a \<and> \<not> tdead (view_ct s) a}"
    and x: "map_of (contents_ct s) k = Some x"
  shows "erased_ct base s tid k x (enterQuiescentState_ct
    (s\<lparr>heap_ct := h', rq_ct := q', retired_ct := retired_ct s @ map Some gone\<rparr>) tid)"
proof -
  let ?s = "enterQuiescentState_ct (s\<lparr>heap_ct := h', rq_ct := q', retired_ct := retired_ct s @ map Some gone\<rparr>) tid"
  have "wf_t base V" using st by (simp add: steps_t_def)
  then have s': "wf_ct base ?s" "view_ct ?s = V"
    using wf_ct_step [OF wf, of ?s V] tick fv dead V(1-5) rt lk by (simp_all add: enterQuiescentState_ct_def del: fields_sel)
  have "keeps_ct s ?s"
    by (rule keeps_ctI [of ?s s R R']) (use live live' f V s'(2) in \<open>simp_all add: enterQuiescentState_ct_def del: view_sel fields_sel\<close>)
  moreover have "updates_ct base s (del_kv k (contents_ct s)) ?s" by (rule updates_ctI) (use st s' in simp_all)
  moreover have "retires_ct s ?s"
    unfolding retires_ct_def s'(2) using gone by (intro exI [of _ gone]) (simp add: enterQuiescentState_ct_def)
  ultimately show ?thesis using x by (simp add: erased_ct_def)
qed

text \<open>What the view says about an edge that has passed the validation.\<close>

lemma edge_valid:
  assumes wf: "wf_ct base s" and live: "live_t (view_ct s) R" and e: "edge_ct s k p c d" and k: "k < NO_KEY_ct s"
    and v: "\<not> fmark (fields_ct (heap_ct s)) p" "fchild (fields_ct (heap_ct s)) p d = Some c"
  obtains rt l r where "root_ct s = Some rt" "rt < length (heap_ct s)" "p \<noteq> rt"
    "fchild (fields_ct (heap_ct s)) rt 0 = Some (troot (view_ct s))" "p \<in> set_tree R" "d < 2" "sub p d R = Node l c r"
    "p < length (heap_ct s)" "c < length (heap_ct s)" "p \<noteq> c" "c \<noteq> troot (view_ct s)" "c \<in> set_tree R"
    "tree_at (tchild (view_ct s)) (tchild (view_ct s) c 0) l" "tree_at (tchild (view_ct s)) (tchild (view_ct s) c 1) r"
    "\<not> tdead (view_ct s) c" "map_of (contents_ct s) k = Some (fval (fields_ct (heap_ct s)) c)"
proof -
  let ?v = "view_ct s"
  obtain rt rc where w: "root_ct s = Some rt" "rt < length (heap_ct s)" "fchild (fields_ct (heap_ct s)) rt 0 = Some rc" "troot ?v = rc"
    by (rule wf_ctE [OF wf])
  note lv = live_tD [OF live] and o = tree_okD [OF live_tD(1) [OF live]]
  have pc: "p < length (heap_ct s)" "c < length (heap_ct s)" "p \<noteq> c" "p \<noteq> rt" "tkey ?v c = k" "d < 2"
    using e w(1) by (auto simp: edge_ct_def)
  have pR: "p \<in> set_tree R" using lv(3) [of p] pc v(1) w(1) by (simp del: fields_sel)
  have sb: "tree_at (tchild ?v) (Some c) (sub p d R)" using tree_at_sub [OF lv(2) pR pc(6)] v(2) by (simp del: fields_sel)
  then obtain l r where s: "sub p d R = Node l c r" by (cases "sub p d R") auto
  have cR: "c \<in> set_tree R" using set_sub [of p d R] s by auto
  have c: "c \<noteq> troot ?v" using o(4) pc(5) k by auto
  have "\<not> tdead ?v c" using lv(3) [of c] cR pc(2) by simp
  moreover have "map_of (contents_ct s) k = Some (fval (fields_ct (heap_ct s)) c)"
    using contents_ct_at [OF live cR c] pc(5) by (simp del: fields_sel)
  ultimately show thesis using that [OF w(1,2) pc(4) _ pR pc(6) s pc(1,2,3) c cR] sb s w(3,4) by (simp del: fields_sel)
qed

lemma erase_bypass_step:
  assumes wf: "wf_ct base s" and clk: "curr_timestamp (rq_ct s) < BUNDLE_MAX_TIMESTAMP" and live: "live_t (view_ct s) R"
    and e: "edge_ct s k p c d" and k: "k < NO_KEY_ct s"
    and v: "\<not> fmark (fields_ct (heap_ct s)) p" "fchild (fields_ct (heap_ct s)) p d = Some c"
    and b: "fchild (fields_ct (heap_ct s)) c 0 = None \<or> fchild (fields_ct (heap_ct s)) c 1 = None"
  shows "\<exists>s'. erase_locked_ct s tid (Some p) (Some c) d = Inr (s', Some (fval (fields_ct (heap_ct s)) c, True))
    \<and> erased_ct base s tid k (fval (fields_ct (heap_ct s)) c) s'"
proof -
  let ?F = "fields_ct (heap_ct s)" let ?v = "view_ct s"
  obtain rt l r where w: "root_ct s = Some rt" "rt < flen ?F" "p \<noteq> rt" "fchild ?F rt 0 = Some (troot ?v)"
    "p \<in> set_tree R" "d < 2" "sub p d R = Node l c r" "p < flen ?F" "c < flen ?F" "p \<noteq> c" "c \<noteq> troot ?v" "c \<in> set_tree R"
    "tree_at (tchild ?v) (tchild ?v c 0) l" "tree_at (tchild ?v) (tchild ?v c 1) r" "\<not> tdead ?v c"
    "map_of (contents_ct s) k = Some (fval ?F c)"
    by (rule edge_valid [OF wf live e k v]) simp
  note wfd = wf_ctD [OF wf]
  have ch: "l = Leaf \<longleftrightarrow> fchild ?F c 0 = None" "r = Leaf \<longleftrightarrow> fchild ?F c 1 = None"
    using w(13,14) by (cases l; cases r; simp)+
  let ?S = "if l = Leaf then r else l" let ?q = "if l = Leaf then tchild ?v c 1 else tchild ?v c 0"
  have q: "fchild ?F c 0 = None \<and> ?q = fchild ?F c 1 \<or> fchild ?F c 0 \<noteq> None \<and> fchild ?F c 1 = None \<and> ?q = fchild ?F c 0"
    using b ch by auto
  have S: "l = Leaf \<and> ?S = r \<and> ?q = tchild ?v c 1 \<or> r = Leaf \<and> ?S = l \<and> ?q = tchild ?v c 0" using b ch by auto
  then have S': "l = Leaf \<and> ?S = r \<or> r = Leaf \<and> ?S = l" by auto
  have mk: "\<not> fmark ?F c" using w(15) by simp
  let ?V = "bypass_tv ?v p d c ?q"
  obtain q' h' where run: "erase_locked_ct s tid (Some p) (Some c) d =
      Inr (enterQuiescentState_ct (s\<lparr>heap_ct := h', rq_ct := q', retired_ct := retired_ct s @ [Some c]\<rparr>) tid,
        Some (fval ?F c, True))" and tick: "rq_tick (rq_ct s) q'" and fv: "fields_view (fields_ct h') ?V"
    and h': "fmark (fields_ct h') = (fmark ?F)(c := True)" "flock (fields_ct h') = (\<lambda>_. False)"
    by (rule erase_locked_bypass [OF refl w(8,9) wfd(3) w(10) v(1) mk v(2) w(1,2,4) wfd(2) wfd(9) [OF clk] q, where tid = tid])
  have clk': "tnow ?v < BUNDLE_MAX_TIMESTAMP" using clk by simp
  note st = bypass_tv_steps [OF wfd(5) clk' live w(5-7,11) S] and live' = bypass_tv_live [OF wfd(5) clk' live w(5-7,11) S]
  have kc: "tkey ?v c = k" using e by (simp add: edge_ct_def)
  have "erased_ct base s tid k (fval ?F c) (enterQuiescentState_ct
      (s\<lparr>heap_ct := h', rq_ct := q', retired_ct := retired_ct s @ map Some [c]\<rparr>) tid)"
  proof (rule erased_ctI [OF wf live w(1) tick fv h'(2)])
    show "tdead ?V = (\<lambda>a. fmark (fields_ct h') a \<or> root_ct s = Some a)"
      using h'(1) by (auto simp: bypass_tv_sel fun_eq_iff simp del: fields_sel)
    show "tchild ?V rt = tchild ?v rt" using insert_tv_root(2) [OF w(3)] w(2) by simp
    show "steps_t base ?v (del_kv k (contents_ct s)) ?V" using st kc by (simp del: view_sel)
    show "live_t ?V (put p d ?S R)" by (rule live')
    show "found_t ?V (put p d ?S R) k' (p', d', g)" if "found_t ?v R k' (p', d', g)" for k' p' d' g
      by (rule found_bypass [OF that live w(5-7,11) S' live'])
    show "set [c] = {a. tdead ?V a \<and> \<not> tdead ?v a}" using w(15) by (auto simp: bypass_tv_sel simp del: view_sel)
  qed (simp_all add: bypass_tv_sel w(16) del: view_sel fields_sel)
  then show ?thesis using run by auto
qed

text \<open>The successor of a node with two children, as the code's walk finds it.\<close>

lemma successor_facts:
  assumes live: "live_t v R" and p: "p \<in> set_tree R" "d < 2" and s: "sub p d R = Node l c r"
    and c: "c \<noteq> troot v" and r: "r \<noteq> Leaf" and m: "min_place c r = (ps, sc, rr)"
    and tr: "tree_at (tchild v) (tchild v c 1) r"
  shows "tchild v sc 0 = None" "tchild v ps (if ps = c then 1 else 0) = Some sc" "ps \<in> set_tree R" "sc \<in> set_tree R"
proof -
  note pl = replace_place [OF live p s c r m]
  show "ps \<in> set_tree R" "sc \<in> set_tree R" using pl(7,8,20,21) by auto
  have "tchild v sc 0 = None \<and> tchild v ps (if ps = c then 1 else 0) = Some sc"
  proof (cases "ps = c")
    case True
    then show ?thesis using tr pl(17) by simp
  next
    case False
    then have "ps \<in> set_tree r" "sub ps 0 r = Node Leaf sc rr" using pl(8,18) by auto
    then show ?thesis using tree_at_sub [OF tr, of ps 0] False by simp
  qed
  then show "tchild v sc 0 = None" "tchild v ps (if ps = c then 1 else 0) = Some sc" by simp_all
qed

lemma erase_replace_step:
  assumes wf: "wf_ct base s" and clk: "curr_timestamp (rq_ct s) < BUNDLE_MAX_TIMESTAMP" and live: "live_t (view_ct s) R"
    and e: "edge_ct s k p c d" and k: "k < NO_KEY_ct s"
    and v: "\<not> fmark (fields_ct (heap_ct s)) p" "fchild (fields_ct (heap_ct s)) p d = Some c"
    and b: "fchild (fields_ct (heap_ct s)) c 0 \<noteq> None" "fchild (fields_ct (heap_ct s)) c 1 \<noteq> None"
  shows "\<exists>s'. erase_locked_ct s tid (Some p) (Some c) d = Inr (s', Some (fval (fields_ct (heap_ct s)) c, True))
    \<and> erased_ct base s tid k (fval (fields_ct (heap_ct s)) c) s'"
proof -
  let ?F = "fields_ct (heap_ct s)" let ?v = "view_ct s"
  obtain rt l r where w: "root_ct s = Some rt" "rt < flen ?F" "p \<noteq> rt" "fchild ?F rt 0 = Some (troot ?v)"
    "p \<in> set_tree R" "d < 2" "sub p d R = Node l c r" "p < flen ?F" "c < flen ?F" "p \<noteq> c" "c \<noteq> troot ?v" "c \<in> set_tree R"
    "tree_at (tchild ?v) (tchild ?v c 0) l" "tree_at (tchild ?v) (tchild ?v c 1) r" "\<not> tdead ?v c"
    "map_of (contents_ct s) k = Some (fval ?F c)"
    by (rule edge_valid [OF wf live e k v]) simp
  note wfd = wf_ctD [OF wf] and lv = live_tD [OF live] and o = tree_okD [OF live_tD(1) [OF live]]
  have r: "r \<noteq> Leaf" using w(14) b(2) by auto
  obtain ps sc rr where m: "min_place c r = (ps, sc, rr)" by (cases "min_place c r")
  note pl = replace_place [OF live w(5-7,11) r m] and sf = successor_facts [OF live w(5-7,11) r m w(14)]
  have nd: "\<not> tdead ?v ps" "\<not> tdead ?v sc" using lv(3) [OF pl(14)] lv(3) [OF pl(13)] sf(3,4) by blast+
  have mk: "\<not> fmark ?F c" "\<not> fmark ?F ps" "\<not> fmark ?F sc" and psrt: "ps \<noteq> rt" using w(1,15) nd by auto
  have tr: "tree_at (fchild ?F) (fchild ?F c 1) r" using w(14) by simp
  have rl: "\<forall>a\<in>set_tree r. a < flen ?F" "height r \<le> flen ?F"
  proof -
    show "\<forall>a\<in>set_tree r. a < flen ?F" using pl(20) o(3) by auto
    then have "length (inorder r) \<le> flen ?F" using pl(10) by (intro distinct_bounded_length) auto
    then show "height r \<le> flen ?F" using height_inorder [of r] by simp
  qed
  have sm: "ps < flen ?F" "sc < flen ?F" "fchild ?F sc 0 = None" "fchild ?F ps (if ps = c then 1 else 0) = Some sc"
    using pl(13,14) sf(1,2) by simp_all
  have dj: "ps \<noteq> p" "sc \<noteq> c" "sc \<noteq> p" "sc \<noteq> ps" using pl(3,5,7,9,19) by auto
  let ?V = "replace_tv ?v p d c ps sc" let ?n = "flen ?F"
  obtain q' h' where run: "erase_locked_ct s tid (Some p) (Some c) d =
      Inr (enterQuiescentState_ct (s\<lparr>heap_ct := h', rq_ct := q', retired_ct := retired_ct s @ [Some c, Some sc]\<rparr>) tid,
        Some (fval ?F c, True))" and tick: "rq_tick (rq_ct s) q'" and fv: "fields_view (fields_ct h') ?V"
    and h': "fmark (fields_ct h') = (fmark ?F)(?n := False, c := True, sc := True)" "flock (fields_ct h') = (\<lambda>_. False)"
    by (rule erase_locked_replace [OF refl w(8,9) wfd(3) w(10) v(1) mk(1) v(2) w(1,2,4) wfd(2) wfd(9) [OF clk] wfd(4) b(1)
        tr r rl m mk(2,3) sm dj, where tid = tid])
  have clk': "tnow ?v < BUNDLE_MAX_TIMESTAMP" using clk by simp
  note st = replace_tv_steps [OF wfd(5) clk' live w(5-7,11) r m] and live' = replace_tv_live [OF wfd(5) clk' live w(5-7,11) r m]
  have kc: "tkey ?v c = k" using e by (simp add: edge_ct_def)
  have "erased_ct base s tid k (fval ?F c) (enterQuiescentState_ct
      (s\<lparr>heap_ct := h', rq_ct := q', retired_ct := retired_ct s @ map Some [c, sc]\<rparr>) tid)"
  proof (rule erased_ctI [OF wf live w(1) tick fv h'(2)])
    have rn: "rt \<noteq> tlen ?v" using w(2) by simp
    show "tdead ?V = (\<lambda>a. fmark (fields_ct h') a \<or> root_ct s = Some a)"
      using h'(1) w(1) rn by (auto simp: replace_tv_sel fun_eq_iff fields_sel(8) simp del: fields_sel(1-7))
    show "tchild ?V rt = tchild ?v rt" using insert_tv_root(3) [OF w(3)] w(2) psrt by simp
    show "steps_t base ?v (del_kv k (contents_ct s)) ?V" using st kc by (simp del: view_sel)
    show "live_t ?V (put p d (Node l (tlen ?v) (min_rest c r)) R)" by (rule live')
    show "found_t ?V (put p d (Node l (tlen ?v) (min_rest c r)) R) k' (p', d', g)" if "found_t ?v R k' (p', d', g)" for k' p' d' g
      by (rule found_replace [OF that live w(5-7,11) r m live'])
    show "set [c, sc] = {a. tdead ?V a \<and> \<not> tdead ?v a}"
      using w(15) nd(2) by (auto simp: replace_tv_sel simp del: view_sel)
    show "distinct [c, sc]" using dj(2) by simp
    show "tkey ?V a = tkey ?v a" if "a < tlen ?v" for a using that by (simp add: replace_tv_sel del: view_sel)
  qed (simp_all add: replace_tv_sel w(16) del: view_sel fields_sel)
  then show ?thesis using run by auto
qed

lemma erase_ct_step:
  assumes wf: "wf_ct base s" and clk: "curr_timestamp (rq_ct s) < BUNDLE_MAX_TIMESTAMP"
    and e: "edge_ct s k p c d" and k: "k < NO_KEY_ct s"
  shows "erase_locked_ct s tid (Some p) (Some c) d = Inr (enterQuiescentState_ct s tid, None) \<or>
    (\<exists>s' x. erase_locked_ct s tid (Some p) (Some c) d = Inr (s', Some (x, True)) \<and> erased_ct base s tid k x s')"
proof -
  let ?F = "fields_ct (heap_ct s)"
  obtain R where live: "live_t (view_ct s) R" by (rule wf_ctE [OF wf])
  have pc: "p < flen ?F" "c < flen ?F" "p \<noteq> c" using e by (auto simp: edge_ct_def)
  consider "fmark ?F p \<or> fmark ?F c \<or> fchild ?F p d \<noteq> Some c"
    | "\<not> fmark ?F p" "fchild ?F p d = Some c" "fchild ?F c 0 = None \<or> fchild ?F c 1 = None"
    | "\<not> fmark ?F p" "fchild ?F p d = Some c" "fchild ?F c 0 \<noteq> None" "fchild ?F c 1 \<noteq> None"
    by blast
  then show ?thesis
  proof cases
    case 1
    then show ?thesis using erase_locked_retry [OF refl pc(1,2) wf_ctD(3) [OF wf] pc(3)] by blast
  next
    case 2
    then show ?thesis using erase_bypass_step [OF wf clk live e k 2] by blast
  next
    case 3
    then show ?thesis using erase_replace_step [OF wf clk live e k 3] by blast
  qed
qed

section \<open>The cleaner\<close>

definition reclaimed_in :: "nat set \<Rightarrow> timestamp_t \<Rightarrow> (nat \<Rightarrow> nat \<Rightarrow> ptr bundle_t) \<Rightarrow> nat \<Rightarrow> nat \<Rightarrow> ptr bundle_t" where
  "reclaimed_in A t b = (\<lambda>a d. if a \<in> A \<and> d < 2 then fst (reclaimEntries t (b a d)) else b a d)"

lemma reclaim_node_run:
  assumes F: "fields_ct h = F" "a < flen F"
  obtains h1 h2 where "upd_bundle_ct h (Some a, 0) (\<lambda>b. Inr (fst (reclaimEntries t b))) = Inr h1"
    "upd_bundle_ct h1 (Some a, 1) (\<lambda>b. Inr (fst (reclaimEntries t b))) = Inr h2"
    "fields_ct h2 = F\<lparr>fbun := reclaimed_in {a} t (fbun F)\<rparr>"
proof -
  let ?g = "\<lambda>b. Inr (fst (reclaimEntries t b))"
  obtain h1 where h1: "upd_bundle_ct h (Some a, 0) ?g = Inr h1"
    "fields_ct h1 = F\<lparr>fbun := (fbun F)(a := (fbun F a)(0 := fst (reclaimEntries t (fbun F a 0))))\<rparr>" (is "_ = ?F1")
    using upd_bundle_run [OF F, of ?g 0] by (auto elim!: runsE)
  obtain h2 where h2: "upd_bundle_ct h1 (Some a, 1) ?g = Inr h2"
    "fields_ct h2 = F\<lparr>fbun := (fbun F)(a := (fbun F a)(0 := fst (reclaimEntries t (fbun F a 0)),
       1 := fst (reclaimEntries t (fbun F a 1))))\<rparr>"
    using upd_bundle_run [OF h1(2), of a ?g 1] F(2) by (auto elim!: runsE)
  have "(fbun F)(a := (fbun F a)(0 := fst (reclaimEntries t (fbun F a 0)), 1 := fst (reclaimEntries t (fbun F a 1))))
      = reclaimed_in {a} t (fbun F)"
    by (auto simp: reclaimed_in_def fun_eq_iff less_2_cases_iff)
  then show thesis using that h1(1) h2 by simp
qed

abbreviation nodes_of :: "nat tree list \<Rightarrow> nat list" where
  "nodes_of Ts \<equiv> concat (map inorder Ts)"

lemma clean_dfs_run:
  assumes "stack_of st Ts H" "\<forall>T\<in>set Ts. tree_at (fchild F) (root_ptr T) T" "distinct (nodes_of Ts)"
    "\<forall>a\<in>set (nodes_of Ts). a < flen F" "length (nodes_of Ts) < n" "fields_ct h = F"
  shows "runs (clean_dfs_ct n t h st) (F\<lparr>fbun := reclaimed_in (set (nodes_of Ts)) t (fbun F)\<rparr>)"
  using assms
proof (induction n arbitrary: st Ts h F)
  case (Suc n)
  show ?case
  proof (cases Ts rule: rev_cases)
    case Nil
    then have "reclaimed_in (set (nodes_of Ts)) t (fbun F) = fbun F" by (simp add: reclaimed_in_def fun_eq_iff)
    then show ?thesis using Suc.prems stack_of_empty [OF Suc.prems(1)] Nil by (auto intro: runsI)
  next
    case (snoc Us T)
    then have "T \<noteq> Leaf" using Suc.prems(1) by (auto simp: stack_of_def)
    then obtain l a r where T: "T = Node l a r" by (cases T) auto
    have ne: "\<not> isEmpty_b st" using stack_of_empty [OF Suc.prems(1)] snoc by simp
    obtain st0 where st0: "pop_b st = Inr (Some a, st0)" "stack_of st0 Us H" "height (Node l a r) + length Us \<le> H"
      using stack_of_pop Suc.prems(1) unfolding snoc T by blast
    have al: "a < flen F" using Suc.prems(4) snoc T by simp
    have dn: "deref h (Some a) = Inr (h ! a)" "child_ct (h ! a) = fchild F a" using fields_at [OF Suc.prems(6) al] by simp_all
    have ta: "tree_at (fchild F) (fchild F a 0) l" "tree_at (fchild F) (fchild F a 1) r" using Suc.prems(2) snoc T by auto
    have ch: "fchild F a 0 = root_ptr l" "fchild F a 1 = root_ptr r" using ta tree_at_root_ptr by blast+
    let ?Vs = "Us @ (if l \<noteq> Leaf \<and> True then [l] else []) @ (if r \<noteq> Leaf \<and> True then [r] else [])"
    obtain st1 st2 where st2: "(if root_ptr l \<noteq> None \<and> True then push_b (root_ptr l) st0 else Inr st0) = Inr st1"
      "(if root_ptr r \<noteq> None \<and> True then push_b (root_ptr r) st1 else Inr st1) = Inr st2" "stack_of st2 ?Vs H"
      by (rule stack_of_push2 [OF st0(2,3)])
    obtain h1 h2 where h2: "upd_bundle_ct h (Some a, 0) (\<lambda>b. Inr (fst (reclaimEntries t b))) = Inr h1"
      "upd_bundle_ct h1 (Some a, 1) (\<lambda>b. Inr (fst (reclaimEntries t b))) = Inr h2"
      "fields_ct h2 = F\<lparr>fbun := reclaimed_in {a} t (fbun F)\<rparr>" (is "_ = ?F2")
      by (rule reclaim_node_run [OF Suc.prems(6) al])
    have nV: "nodes_of ?Vs = nodes_of Us @ inorder l @ inorder r" by (cases l; cases r) simp_all
    have nT: "nodes_of Ts = nodes_of Us @ inorder l @ a # inorder r" by (simp add: snoc T)
    have step: "clean_dfs_ct (Suc n) t h st = clean_dfs_ct n t h2 st2"
      using ne st2(1,2) by (simp add: st0(1) dn ch h2(1,2) del: One_nat_def not_None_eq
          split del: if_split cong: if_cong)
    have "runs (clean_dfs_ct n t h2 st2) (?F2\<lparr>fbun := reclaimed_in (set (nodes_of ?Vs)) t (fbun ?F2)\<rparr>)"
    proof (rule Suc.IH [OF st2(3) _ _ _ _ h2(3)])
      show "\<forall>T\<in>set ?Vs. tree_at (fchild ?F2) (root_ptr T) T" using Suc.prems(2) snoc ta ch by auto
      show "distinct (nodes_of ?Vs)" "\<forall>a\<in>set (nodes_of ?Vs). a < flen ?F2" "length (nodes_of ?Vs) < n"
        unfolding nV using Suc.prems(3-5) unfolding nT by auto
    qed
    moreover have "a \<notin> set (nodes_of ?Vs)" unfolding nV using Suc.prems(3) unfolding nT by auto
    then have "reclaimed_in (set (nodes_of ?Vs)) t (reclaimed_in {a} t (fbun F)) = reclaimed_in (set (nodes_of Ts)) t (fbun F)"
      unfolding nV nT by (auto simp: reclaimed_in_def fun_eq_iff)
    ultimately show ?thesis using step by simp
  qed
qed simp

lemma cleanup_ct_step:
  assumes wf: "wf_ct base s" and t: "get_oldest_active_rq (rq_ct s) = Inr t"
    and live: "live_t (view_ct s) R" and H: "height R \<le> BLOCK_SIZE"
  shows "\<exists>s'. cleanup_ct s tid = Inr s' \<and> wf_ct (max base t) s' \<and> reclaimed_t t (view_ct s) (view_ct s')
    \<and> live_t (view_ct s') R \<and> keeps_ct s s' \<and> rq_ct s' = rq_ct s \<and> retired_ct s' = retired_ct s \<and> quiescent_ct s' tid"
proof -
  let ?F = "fields_ct (heap_ct s)" let ?v = "view_ct s"
  obtain rt rc R0 where w: "root_ct s = Some rt" "rt < length (heap_ct s)" "root_child s = Some rc"
    "fchild ?F rt 0 = Some rc" "fchild ?F rt 1 = None" "troot ?v = rc"
    by (rule wf_ctE [OF wf])
  note wfd = wf_ctD [OF wf] and lv = live_tD [OF live] and o = tree_okD [OF live_tD(1) [OF live]]
  obtain T where RT: "R = Node T rc Leaf" using o(1) w(6) by auto
  have rp: "root_ptr R = Some rc" "R \<noteq> Leaf" using RT by simp_all
  have at: "tree_at (fchild ?F) (root_ptr R) R" using lv(2) w(6) rp by simp
  have "size_b new_stack = 0" by (simp add: new_stack_def)
  from stack_of_start [OF rp(2) H this] obtain st where st: "push_b (Some rc) new_stack = Inr st" "stack_of st [R] (height R)"
    unfolding rp(1) by blast
  have len: "length (inorder R) \<le> length (heap_ct s)"
    by (rule distinct_bounded_length [OF o(5)]) (use o(3) in auto)
  have "runs (clean_dfs_ct (Suc (length (heap_ct s))) t (heap_ct s) st) (?F\<lparr>fbun := reclaimed_in (set (nodes_of [R])) t (fbun ?F)\<rparr>)"
    by (rule clean_dfs_run [OF st(2)]) (use at o(3,5) len in auto)
  then obtain h' where h': "clean_dfs_ct (Suc (length (heap_ct s))) t (heap_ct s) st = Inr h'"
    "fields_ct h' = ?F\<lparr>fbun := reclaimed_in (set_tree R) t (fbun ?F)\<rparr>" by (auto elim!: runsE)
  let ?s = "enterQuiescentState_ct ((leaveQuiescentState_ct s tid)\<lparr>heap_ct := h'\<rparr>) tid"
  have run: "cleanup_ct s tid = Inr ?s"
    using childof_run [OF refl, of rt "heap_ct s" 0] w t st(1) h'(1)
    by (simp add: cleanup_ct_def Let_def del: clean_dfs_ct.simps fields_sel(3))
  have v': "view_ct ?s = ?v\<lparr>tbun := reclaimed_in (set_tree R) t (fbun ?F)\<rparr>"
  proof -
    have "fchild (fields_ct h') rt = fchild ?F rt" by (simp add: h'(2) del: fields_sel)
    then have rc': "fld child_ct (\<lambda>_. None) h' rt 0 = Some rc" using w(4) by simp
    show ?thesis using w(1,3) rc'
      by (simp add: view_ct_def Let_def root_child_def h'(2) enterQuiescentState_ct_def leaveQuiescentState_ct_def del: fields_sel)
  qed
  have rec: "reclaimed_t t ?v (view_ct ?s)"
    unfolding reclaimed_t_def v' by (rule exI [of _ "reclaimed_in (set_tree R) t (fbun ?F)"]) (simp add: reclaimed_in_def)
  have tn: "t \<le> tnow ?v" using t oldest_scan_sound [of "rq_ct s"] by (auto simp: get_oldest_active_rq_def)
  note rs = reclaimed_steps [OF wfd(5) rec tn] and same = reclaimed_t_same [OF rec] and q = reclaimed_tD [OF rec]
  have live': "live_t (view_ct ?s) R"
    using live q unfolding live_t_def same(3,5-9,11) by simp
  have "keeps_ct s ?s"
  proof (rule keeps_ctI [OF _ _ live live'])
    show "found_t (view_ct ?s) R k (p, d, g)" if "found_t ?v R k (p, d, g)" for k p d g
      by (rule found_reclaimed [OF rec that])
    show "tlen ?v \<le> tlen (view_ct ?s)" "\<And>a. a < tlen ?v \<Longrightarrow> tkey (view_ct ?s) a = tkey ?v a"
      unfolding same by (rule le_refl) (rule refl)
  qed (simp_all add: enterQuiescentState_ct_def leaveQuiescentState_ct_def)
  moreover have "wf_ct (max base t) ?s"
  proof -
    have l: "flock (fields_ct h') = flock ?F" "fchild (fields_ct h') = fchild ?F" by (simp_all add: h'(2) del: fields_sel)
    have "length h' = length (heap_ct s)" using arg_cong [OF h'(2), of flen] by simp
    note l = this l
    then have "fld child_ct (\<lambda>_. None) h' = fld child_ct (\<lambda>_. None) (heap_ct s)" by simp
    then show ?thesis using wf rs(1) l w
      by (simp add: wf_ct_def root_child_def enterQuiescentState_ct_def leaveQuiescentState_ct_def)
  qed
  ultimately show ?thesis using run rec live'
    by (intro exI [of _ ?s]) (simp add: enterQuiescentState_ct_def leaveQuiescentState_ct_def)
qed

end
