(* ===== verification/Bundled_Citrus_Methods.thy ===== *)
theory Bundled_Citrus_Methods
  imports Bundled_Citrus_Correct
begin

text \<open>
  The methods of the bundled Citrus tree as a whole, run without interference, and its updates
  under interference: whatever other updates and cleaners do between the search of an update
  and the acquisition of its locks, the locked section retries or performs the abstract update.
\<close>

section \<open>Searching\<close>

definition tree_ct :: "ct_tree \<Rightarrow> nat tree" where
  "tree_ct s = (let v = view_ct s in build (tlen v) (tchild v) (Some (troot v)))"

lemma tree_ct_live: "live_t (view_ct s) R \<Longrightarrow> tree_ct s = R"
  using tree_at_build [OF live_tD(2) tree_okD(6) [OF live_tD(1)]] by (simp add: tree_ct_def Let_def del: view_sel)

lemma SEARCH_found:
  assumes wf: "wf_ct base s" and x: "x < NO_KEY_ct s"
  obtains p d where "p < length (heap_ct s)" "d < 2" "\<forall>R. live_t (view_ct s) R \<longrightarrow> p \<in> set_tree R"
    "SEARCH_ct s x = Inr (Some p, fchild (fields_ct (heap_ct s)) p d, d)"
    "fchild (fields_ct (heap_ct s)) p d = None \<longrightarrow>
       found_ct s x p d (ftag (fields_ct (heap_ct s)) p d) \<and> map_of (contents_ct s) x = None"
    "\<forall>c. fchild (fields_ct (heap_ct s)) p d = Some c \<longrightarrow> edge_ct s x p c d \<and> c < length (heap_ct s)
       \<and> map_of (contents_ct s) x = Some (fval (fields_ct (heap_ct s)) c)"
proof -
  let ?F = "fields_ct (heap_ct s)"
  obtain rt R where w: "root_ct s = Some rt" "live_t (view_ct s) R" "rt \<notin> set_tree R"
    by (rule wf_ctE [OF wf])
  note o = tree_okD [OF live_tD(1) [OF w(2)]] and lv = live_tD [OF w(2)]
  obtain p d where p: "p \<in> set_tree R" "d < 2" "p < length (heap_ct s)" "SEARCH_ct s x = Inr (Some p, fchild ?F p d, d)"
    "fchild ?F p d = None \<longrightarrow> slot_t (fkey ?F) R p d x"
    "\<forall>c. fchild ?F p d = Some c \<longrightarrow> c \<in> set_tree R \<and> fkey ?F c = x \<and> c \<noteq> troot (view_ct s)"
    by (rule SEARCH_run [OF wf w(2) x])
  have rp: "rt \<noteq> p" using p(1) w(3) by auto
  show thesis
  proof (rule that [OF p(3,2) _ p(4)])
    show "\<forall>S. live_t (view_ct s) S \<longrightarrow> p \<in> set_tree S" using live_unique [OF _ w(2)] p(1) by blast
  next
    show "fchild ?F p d = None \<longrightarrow> found_ct s x p d (ftag ?F p d) \<and> map_of (contents_ct s) x = None"
    proof
    assume n: "fchild ?F p d = None"
    have sl: "slot_t (tkey (view_ct s)) R p d x" using p(5) n by simp
    have "found_t (view_ct s) R x (p, d, ftag ?F p d)" using sl p(2,3) by (simp add: found_t_def del: fields_sel)
    then have "found_ct s x p d (ftag ?F p d)" using w(1,2) rp unfolding found_ct_def by auto
    then show "found_ct s x p d (ftag ?F p d) \<and> map_of (contents_ct s) x = None" using contents_slot [OF w(2) sl] by simp
    qed
  next
    show "\<forall>c. fchild ?F p d = Some c \<longrightarrow> edge_ct s x p c d \<and> c < length (heap_ct s)
       \<and> map_of (contents_ct s) x = Some (fval ?F c)"
    proof (intro allI impI)
    fix c assume c: "fchild ?F p d = Some c"
    have f: "c \<in> set_tree R \<and> fkey ?F c = x \<and> c \<noteq> troot (view_ct s)" using p(6) c by blast
    have cl: "c < length (heap_ct s)" using o(3) [of c] f by simp
    have "tree_at (tchild (view_ct s)) (Some c) (sub p d R)" using tree_at_sub [OF lv(2) p(1,2)] c by (simp del: fields_sel)
    then have "c \<in> set_tree (sub p d R)" by (cases "sub p d R") auto
    then have "p \<noteq> c" using not_in_sub [OF p(1) o(5), of d] by auto
    then have "edge_ct s x p c d" using w(1) rp p(2,3) cl f by (simp add: edge_ct_def del: fields_sel)
    moreover have "map_of (contents_ct s) x = Some (fval ?F c)" using contents_ct_at [OF w(2), of c] f by (simp del: fields_sel)
    ultimately show "edge_ct s x p c d \<and> c < length (heap_ct s) \<and> map_of (contents_ct s) x = Some (fval ?F c)" using cl by simp
    qed
  qed
qed

text \<open>The read-side section around a search leaves everything but the clocks of the readers alone.\<close>

definition searched_ct :: "ct_tree \<Rightarrow> nat \<Rightarrow> ct_tree" where
  "searched_ct s tid = rcu_unlock_ct (rcu_lock_ct (leaveQuiescentState_ct s tid) tid) tid"

lemma searched_ct_sel [simp]:
  "heap_ct (searched_ct s tid) = heap_ct s" "root_ct (searched_ct s tid) = root_ct s" "rq_ct (searched_ct s tid) = rq_ct s"
  "NO_KEY_ct (searched_ct s tid) = NO_KEY_ct s" "NO_VALUE_ct (searched_ct s tid) = NO_VALUE_ct s"
  "retired_ct (searched_ct s tid) = retired_ct s" "view_ct (searched_ct s tid) = view_ct s"
  by (simp_all add: searched_ct_def)

lemma wf_searched [simp]: "wf_ct base s \<Longrightarrow> wf_ct base (searched_ct s tid)"
  by (simp add: searched_ct_def wf_rcu_section)

lemma insert_search_ok:
  assumes wf: "wf_ct base s" and x: "x < NO_KEY_ct s"
  obtains p d where "insert_search_ct s tid x = Inr (searched_ct s tid, Some p, fchild (fields_ct (heap_ct s)) p d, d,
      ftag (fields_ct (heap_ct s)) p d)" "p < length (heap_ct s)" "d < 2" "\<forall>R. live_t (view_ct s) R \<longrightarrow> p \<in> set_tree R"
    "fchild (fields_ct (heap_ct s)) p d = None \<longrightarrow>
       found_ct (searched_ct s tid) x p d (ftag (fields_ct (heap_ct s)) p d) \<and> map_of (contents_ct s) x = None"
    "\<forall>c. fchild (fields_ct (heap_ct s)) p d = Some c \<longrightarrow> edge_ct (searched_ct s tid) x p c d \<and> c < length (heap_ct s)
       \<and> map_of (contents_ct s) x = Some (fval (fields_ct (heap_ct s)) c)"
proof -
  let ?F = "fields_ct (heap_ct s)"
  obtain p d where p: "p < length (heap_ct s)" "d < 2" "\<forall>R. live_t (view_ct s) R \<longrightarrow> p \<in> set_tree R" "SEARCH_ct s x = Inr (Some p, fchild ?F p d, d)"
    "fchild ?F p d = None \<longrightarrow> found_ct s x p d (ftag ?F p d) \<and> map_of (contents_ct s) x = None"
    "\<forall>c. fchild ?F p d = Some c \<longrightarrow> edge_ct s x p c d \<and> c < length (heap_ct s) \<and> map_of (contents_ct s) x = Some (fval ?F c)"
    by (rule SEARCH_found [OF wf x])
  have fe: "found_ct (searched_ct s tid) = found_ct s" "edge_ct (searched_ct s tid) = edge_ct s"
    by (simp_all add: found_ct_def edge_ct_def fun_eq_iff)
  have pf: "p < flen ?F" using p(1) by simp
  have "insert_search_ct s tid x = Inr (searched_ct s tid, Some p, fchild ?F p d, d, ftag ?F p d)"
    using p(4) by (simp add: insert_search_ct_def searched_ct_def Let_def fields_at [OF refl pf] del: fields_sel)
  then show thesis by (rule that) (use p(1-3,5,6) in \<open>simp_all only: fe\<close>)
qed

section \<open>Construction\<close>

text \<open>A sentinel with its two bundles.\<close>

definition fresh_ct :: "int \<Rightarrow> int \<Rightarrow> (nat \<Rightarrow> ptr) \<Rightarrow> (nat \<Rightarrow> ptr) \<Rightarrow> ct_node" where
  "fresh_ct k v c b = \<lparr>key_ct = k, val_ct = v, child_ct = c, tag_ct = (\<lambda>_. 0), lock_ct = False, marked_ct = False,
     rqbundle_ct = (\<lambda>_. [])(0 := [BundleEntry 2 (b 0)], 1 := [BundleEntry 2 (b 1)])\<rparr>"

lemma linearize_root:
  assumes "RQProvider mt np Update_Clock False = Inr q"
  shows "\<exists>q'. linearize_update_at_write (rq_initThread q 0) 0 (\<lambda>(h, _). Inr (h, r)) (h, None) = Inr (2, q', h, r)
    \<and> rq_tick (rq_initThread q 0) q'"
  using linearize_ok [OF linearize_init(1) [OF assms], of "\<lambda>(h, _). Inr (h, r)" "(h, None)" "(h, r)" 0]
    linearize_init(2) [OF assms] by simp

lemma bundle_citrustree_run:
  assumes "np \<le> mt"
  obtains q where "mode q = Update_Clock" "\<not> cleanup_update q" "curr_timestamp q = 2"
    "bundle_citrustree mt np Update_Clock False K nv = Inr
      \<lparr>heap_ct = [fresh_ct K nv (\<lambda>_. None) (\<lambda>_. None), fresh_ct K nv ((\<lambda>_. None)(0 := Some 0)) ((\<lambda>_. None)(0 := Some 0))],
       root_ct = Some 1, rq_ct = q, rcu_ct = init_u, threads_ct = np, retired_ct = [], quiescent_ct = (\<lambda>_. True),
       init_ct = (\<lambda>_. False)(0 := True), NO_KEY_ct = K, NO_VALUE_ct = nv\<rparr>"
proof -
  obtain p where p: "RQProvider mt np Update_Clock False = Inr p" using assms by (simp add: RQProvider_def)
  let ?p = "rq_initThread p 0" let ?h0 = "[fresh_ct K nv (\<lambda>_. None) (\<lambda>_. None), fresh_ct K nv ((\<lambda>_. None)(0 := Some 0)) ((\<lambda>_. None)(0 := Some 0))]"
  have pm: "mode ?p = Update_Clock" "\<not> cleanup_update ?p" using p by (auto simp: RQProvider_def rq_initThread_def split: if_splits)
  let ?n = "\<lambda>c b. \<lparr>key_ct = K, val_ct = nv, child_ct = c, tag_ct = (\<lambda>_. 0), lock_ct = False, marked_ct = False, rqbundle_ct = b\<rparr>"
  let ?bs = "[((Some 1, 0), Some 0), ((Some 1, 1), None), ((Some 0, 0), None), ((Some 0, 1), None)] :: ((ptr \<times> nat) \<times> ptr) list"
  let ?h2 = "[?n (\<lambda>_. None) (\<lambda>_. []), ?n ((\<lambda>_. None)(0 := Some 0)) (\<lambda>_. [])]"
  have f0: "finalize 2 (prepare q []) = Inr [BundleEntry 2 q]" for q :: ptr
    by (simp add: prepare_def finalize_def BundleEntry_def timestamp_defs)
  have pr: "obind (prepare_bundles ?p upd_bundle_ct ?bs ?h2) (finalize_bundles upd_bundle_ct ?bs 2) = Inr ?h0"
    using pm by (simp add: upd_bundle_ct_def update_at_def deref_def fresh_ct_def fun_upd_def f0 cong: if_cong)
  obtain h3 where h3: "prepare_bundles ?p upd_bundle_ct ?bs ?h2 = Inr h3" "finalize_bundles upd_bundle_ct ?bs 2 h3 = Inr ?h0"
    using pr by (cases "prepare_bundles ?p upd_bundle_ct ?bs ?h2") auto
  obtain q where q: "linearize_update_at_write ?p 0 (\<lambda>(h, _). Inr (h, Some 1)) (h3, None) = Inr (2, q, h3, Some 1 :: ptr)" "rq_tick ?p q"
    using linearize_root [OF p, of "Some 1" h3] by (elim exE conjE)
  have qs: "mode q = Update_Clock" "\<not> cleanup_update q" "curr_timestamp q = 2"
    using rq_tickD [OF q(2)] pm linearize_init(2) [OF p] by simp_all
  have sc: "set_child_ct [?n (\<lambda>_. None) (\<lambda>_. []), ?n (\<lambda>_. None) (\<lambda>_. [])] (Some 1) 0 (Some 0) = Inr ?h2"
    by (simp add: set_child_ct_def update_at_def)
  show thesis
    by (rule that [OF qs]) (simp add: bundle_citrustree_def p Let_def newNode_ct_def initThread_ct_def init_bundle_def
        sc [unfolded One_nat_def] h3 [unfolded One_nat_def] q(1) [unfolded One_nat_def] del: prepare_bundles.simps finalize_bundles.simps)
qed

lemma wf_ctI:
  assumes "mode (rq_ct s) = Update_Clock" "\<not> cleanup_update (rq_ct s)" "root_ct s = Some rt" "rt < length (heap_ct s)"
    "root_child s = Some rc" "fld child_ct (\<lambda>_. None) (heap_ct s) rt 1 = None" "\<forall>n\<in>set (heap_ct s). \<not> lock_ct n"
    "quiet_u (threads_ct s) (rcu_ct s)" "live_t (view_ct s) R" "0 < curr_timestamp (rq_ct s)"
    "curr_timestamp (rq_ct s) \<le> BUNDLE_MAX_TIMESTAMP"
  shows "wf_ct (curr_timestamp (rq_ct s)) s" "contents_ct s = pairs_t (view_ct s) R"
    "snapshot_ct s (curr_timestamp (rq_ct s)) = pairs_t (view_ct s) R"
proof -
  let ?t = "curr_timestamp (rq_ct s)"
  have "\<exists>R. snap_t (view_ct s) u R" if "?t \<le> u \<and> u \<le> ?t" for u
    using live_snap [OF assms(9)] that by auto
  then have "wf_t ?t (view_ct s)" using assms(9-11) unfolding wf_t_def view_sel by blast
  moreover have "flock (fields_ct (heap_ct s)) = (\<lambda>_. False)"
    using assms(7) by (simp add: fld_def fun_eq_iff)
  ultimately show "wf_ct ?t s" using assms(1-6,8) by (simp add: wf_ct_def)
  show "contents_ct s = pairs_t (view_ct s) R" "snapshot_ct s ?t = pairs_t (view_ct s) R"
    using contents_t_live [OF assms(9)] by simp_all
qed

lemma live_ctI:
  assumes "tree_ok (view_ct s) R" "tree_at (fchild (fields_ct (heap_ct s))) (Some (troot (view_ct s))) R"
    "\<forall>a<length (heap_ct s). (marked_ct (heap_ct s ! a) \<or> root_ct s = Some a) \<longleftrightarrow> a \<notin> set_tree R"
    "\<forall>a\<in>set_tree R. \<forall>d<2. fbun (fields_ct (heap_ct s)) a d \<noteq> []
       \<and> entry_ptr (hd (fbun (fields_ct (heap_ct s)) a d)) = fchild (fields_ct (heap_ct s)) a d"
    "\<forall>n\<in>set (heap_ct s). \<forall>d. bundle_ok (rqbundle_ct n d) \<and> newest_ts (rqbundle_ct n d) \<le> curr_timestamp (rq_ct s)"
    "0 \<le> curr_timestamp (rq_ct s)"
  shows "live_t (view_ct s) R"
proof (rule live_tI [OF assms(1)])
  fix a d
  show "tdead (view_ct s) a \<longleftrightarrow> a \<notin> set_tree R" if "a < tlen (view_ct s)" using assms(3) that by simp
  show "bundle_ok (tbun (view_ct s) a d) \<and> newest_ts (tbun (view_ct s) a d) \<le> tnow (view_ct s)"
  proof (cases "a < length (heap_ct s)")
    case True
    then show ?thesis using bspec [OF assms(5) nth_mem [OF True]] by simp
  next
    case False
    then show ?thesis using assms(6) by (simp add: fld_def bundle_ok_def newest_ts_def timestamp_defs)
  qed
  show "tbun (view_ct s) a d = []" if "a \<ge> tlen (view_ct s)" using that by (simp add: fld_def)
qed (use assms(2,4) in simp_all)

text \<open>
  C31: The constructor establishes the invariant of the tree with an empty dictionary: it is well
  formed from time 2 on, the clock and the only snapshot are at that time, and no node is retired.
\<close>

theorem bundle_citrustree_wf:
  assumes "np \<le> mt"
  shows "\<exists>s. bundle_citrustree mt np Update_Clock False K nv = Inr s \<and> wf_ct 2 s
    \<and> contents_ct s = [] \<and> snapshot_ct s 2 = [] \<and> curr_timestamp (rq_ct s) = 2
    \<and> NO_KEY_ct s = K \<and> NO_VALUE_ct s = nv \<and> retired_ct s = []"
proof -
  obtain q where q: "mode q = Update_Clock" "\<not> cleanup_update q" "curr_timestamp q = 2" and
    run: "bundle_citrustree mt np Update_Clock False K nv = Inr
      \<lparr>heap_ct = [fresh_ct K nv (\<lambda>_. None) (\<lambda>_. None), fresh_ct K nv ((\<lambda>_. None)(0 := Some 0)) ((\<lambda>_. None)(0 := Some 0))],
       root_ct = Some 1, rq_ct = q, rcu_ct = init_u, threads_ct = np, retired_ct = [], quiescent_ct = (\<lambda>_. True),
       init_ct = (\<lambda>_. False)(0 := True), NO_KEY_ct = K, NO_VALUE_ct = nv\<rparr>" (is "_ = Inr ?s")
    by (rule bundle_citrustree_run [OF assms])
  have c: "curr_timestamp (rq_ct ?s) = 2" using q(3) by simp
  let ?R = "Node Leaf 0 Leaf :: nat tree"
  have live: "live_t (view_ct ?s) ?R"
  proof (rule live_ctI)
    show "tree_ok (view_ct ?s) ?R" by (simp add: tree_ok_def) (simp add: view_ct_def root_child_def fresh_ct_def)
    show "tree_at (fchild (fields_ct (heap_ct ?s))) (Some (troot (view_ct ?s))) ?R"
      by (simp add: view_ct_def root_child_def fresh_ct_def)
  qed (simp_all add: q fresh_ct_def less_Suc_eq less_2_cases_iff bundle_ok_def newest_ts_def timestamp_defs)
  have "wf_ct 2 ?s \<and> contents_ct ?s = pairs_t (view_ct ?s) ?R \<and> snapshot_ct ?s 2 = pairs_t (view_ct ?s) ?R"
    unfolding c [symmetric]
    by (intro conjI wf_ctI [of _ 1 0 ?R] live)
      (simp_all add: q root_child_def fresh_ct_def quiet_u_def init_u_def timestamp_defs)
  then show ?thesis using run q(3) by (simp add: pairs_t_def)
qed

theorem bundle_citrustree_wf_witness:
  "\<exists>s. bundle_citrustree 64 4 Update_Clock False 100 0 = Inr s \<and> wf_ct 2 s \<and> contents_ct s = []"
  using bundle_citrustree_wf [of 4 64 100 0] by auto

section \<open>An example\<close>

text \<open>A tree with the keys 5, 10 and 20 below the sentinel 100, at time 5.\<close>

definition example_ct :: ct_tree where
  "example_ct = \<lparr>heap_ct =
     [\<lparr>key_ct = 100, val_ct = 0, child_ct = (\<lambda>_. None)(0 := Some 2), tag_ct = (\<lambda>_. 0), lock_ct = False, marked_ct = False,
        rqbundle_ct = (\<lambda>_. [])(0 := [BundleEntry 3 (Some 2), BundleEntry 2 None], 1 := [BundleEntry 2 None])\<rparr>,
      \<lparr>key_ct = 100, val_ct = 0, child_ct = (\<lambda>_. None)(0 := Some 0), tag_ct = (\<lambda>_. 0), lock_ct = False, marked_ct = False,
        rqbundle_ct = (\<lambda>_. [])(0 := [BundleEntry 2 (Some 0)], 1 := [BundleEntry 2 None])\<rparr>,
      \<lparr>key_ct = 10, val_ct = 101, child_ct = (\<lambda>_. None)(0 := Some 3, 1 := Some 4), tag_ct = (\<lambda>_. 0), lock_ct = False,
        marked_ct = False, rqbundle_ct = (\<lambda>_. [])(0 := [BundleEntry 4 (Some 3), BundleEntry 3 None],
          1 := [BundleEntry 5 (Some 4), BundleEntry 3 None])\<rparr>,
      \<lparr>key_ct = 5, val_ct = 51, child_ct = (\<lambda>_. None), tag_ct = (\<lambda>_. 0), lock_ct = False, marked_ct = False,
        rqbundle_ct = (\<lambda>_. [])(0 := [BundleEntry 4 None], 1 := [BundleEntry 4 None])\<rparr>,
      \<lparr>key_ct = 20, val_ct = 201, child_ct = (\<lambda>_. None), tag_ct = (\<lambda>_. 0), lock_ct = False, marked_ct = False,
        rqbundle_ct = (\<lambda>_. [])(0 := [BundleEntry 5 None], 1 := [BundleEntry 5 None])\<rparr>],
     root_ct = Some 1,
     rq_ct = \<lparr>num_processes = 4, curr_timestamp = 5, rq_lin_time = (\<lambda>_. 0), rq_flag = (\<lambda>_. False),
       local_timestamp = (\<lambda>_. 0), backoff_amt = (\<lambda>_. 1), rq_init = (\<lambda>i. i = 0), mode = Update_Clock,
       cleanup_update = False\<rparr>,
     rcu_ct = init_u, threads_ct = 4, retired_ct = [], quiescent_ct = (\<lambda>_. True), init_ct = (\<lambda>i. i = 0),
     NO_KEY_ct = 100, NO_VALUE_ct = 0\<rparr>"

lemma example_ct_sel:
  "root_ct example_ct = Some 1" "length (heap_ct example_ct) = 5" "curr_timestamp (rq_ct example_ct) = 5"
  "mode (rq_ct example_ct) = Update_Clock" "\<not> cleanup_update (rq_ct example_ct)" "NO_KEY_ct example_ct = 100"
  "NO_VALUE_ct example_ct = 0" "retired_ct example_ct = []" "rcu_ct example_ct = init_u" "threads_ct example_ct = 4"
  "num_processes (rq_ct example_ct) = 4" "rq_flag (rq_ct example_ct) i = False"
  by (simp_all add: example_ct_def)

abbreviation example_tree :: "nat tree" where
  "example_tree \<equiv> Node (Node (Node Leaf 3 Leaf) 2 (Node Leaf 4 Leaf)) 0 Leaf"

lemma example_ct_live: "live_t (view_ct example_ct) example_tree"
proof (rule live_ctI)
  have tr: "troot (view_ct example_ct) = 0" by (simp add: view_ct_def root_child_def example_ct_def)
  show "tree_ok (view_ct example_ct) example_tree"
    by (simp add: tree_ok_def tr) (simp add: example_ct_def)
  show "tree_at (fchild (fields_ct (heap_ct example_ct))) (Some (troot (view_ct example_ct))) example_tree"
    unfolding tr by (simp add: example_ct_def)
qed (simp_all add: example_ct_def numeral_eq_Suc less_Suc_eq bundle_ok_def newest_ts_def timestamp_defs)

lemma example_ct_wf: "wf_ct 5 example_ct"
  and example_ct_contents: "contents_ct example_ct = [(5, 51), (10, 101), (20, 201)]"
proof -
  note w = wf_ctI [OF example_ct_sel(4,5,1) _ _ _ _ _ example_ct_live, of 0]
  have "wf_ct 5 example_ct \<and> contents_ct example_ct = pairs_t (view_ct example_ct) example_tree"
    by (intro conjI w [unfolded example_ct_sel(3)])
      (simp_all add: example_ct_sel root_child_def quiet_u_def init_u_def timestamp_defs, simp_all add: example_ct_def)
  moreover have "pairs_t (view_ct example_ct) example_tree = [(5, 51), (10, 101), (20, 201)]"
    by (simp add: pairs_t_def) (simp add: example_ct_def)
  ultimately show "wf_ct 5 example_ct" "contents_ct example_ct = [(5, 51), (10, 101), (20, 201)]" by simp_all
qed

section \<open>Updates among other updates\<close>

text \<open>
  Threads between the search of an update and the acquisition of its locks: \<open>To_insert\<close> holds
  the key, the value, the place and its tag, \<open>To_erase\<close> the key, the parent, the node and the
  direction. A thread whose locked section has said \<open>goto retry\<close> is idle again.
\<close>

datatype ct_pc = Idle_ct | To_insert int int nat nat int | To_erase int nat nat nat

type_synonym ct_sys = "ct_tree \<times> (nat \<Rightarrow> ct_pc)"

inductive ct_step :: "ct_sys \<Rightarrow> ct_sys \<Rightarrow> bool" where
  search_insert: "pc i = Idle_ct \<Longrightarrow> k < NO_KEY_ct s \<Longrightarrow>
    insert_search_ct s i k = Inr (s', Some p, None, d, g) \<Longrightarrow>
    ct_step (s, pc) (s', pc(i := To_insert k x p d g))"
| search_erase: "pc i = Idle_ct \<Longrightarrow> k < NO_KEY_ct s \<Longrightarrow>
    insert_search_ct s i k = Inr (s', Some p, Some c, d, g) \<Longrightarrow>
    ct_step (s, pc) (s', pc(i := To_erase k p c d))"
| commit_insert: "pc i = To_insert k x p d g \<Longrightarrow> curr_timestamp (rq_ct s) < BUNDLE_MAX_TIMESTAMP \<Longrightarrow>
    insert_locked_ct s i (Some p) g None d k x = Inr (s', r) \<Longrightarrow> ct_step (s, pc) (s', pc(i := Idle_ct))"
| commit_erase: "pc i = To_erase k p c d \<Longrightarrow> curr_timestamp (rq_ct s) < BUNDLE_MAX_TIMESTAMP \<Longrightarrow>
    erase_locked_ct s i (Some p) (Some c) d = Inr (s', r) \<Longrightarrow> ct_step (s, pc) (s', pc(i := Idle_ct))"
| clean: "height (tree_ct s) \<le> BLOCK_SIZE \<Longrightarrow> cleanup_ct s i = Inr s' \<Longrightarrow> ct_step (s, pc) (s', pc)"

text \<open>What each thread has found stays usable.\<close>

definition pc_ok :: "ct_tree \<Rightarrow> ct_pc \<Rightarrow> bool" where
  "pc_ok s c \<longleftrightarrow> (case c of Idle_ct \<Rightarrow> True
     | To_insert k x p d g \<Rightarrow> k < NO_KEY_ct s \<and> found_ct s k p d g
     | To_erase k p c d \<Rightarrow> k < NO_KEY_ct s \<and> edge_ct s k p c d)"

definition ct_inv :: "timestamp_t \<Rightarrow> ct_sys \<Rightarrow> bool" where
  "ct_inv base = (\<lambda>(s, pc). (\<exists>b\<ge>base. wf_ct b s) \<and> (\<forall>i. pc_ok s (pc i)))"

lemma pc_ok_keeps: "pc_ok s c \<Longrightarrow> keeps_ct s s' \<Longrightarrow> pc_ok s' c"
  by (auto simp: pc_ok_def keeps_ct_def split: ct_pc.splits)

lemma ct_inv_keeps:
  assumes "ct_inv base (s, pc)" "keeps_ct s s'" "wf_ct b s'" "b \<ge> base" "pc_ok s' c"
  shows "ct_inv base (s', pc(i := c))"
  using assms pc_ok_keeps unfolding ct_inv_def by auto

lemma keeps_searched: "keeps_ct s (searched_ct s i)"
  by (simp add: keeps_ct_def found_ct_def edge_ct_def)

lemma insert_ct_commit:
  assumes wf: "wf_ct b s" and clk: "curr_timestamp (rq_ct s) < BUNDLE_MAX_TIMESTAMP" and pc: "pc_ok s (To_insert k x p d g)"
    and run: "insert_locked_ct s i (Some p) g None d k x = Inr (s', r)"
  shows "wf_ct b s' \<and> keeps_ct s s'"
proof -
  have f: "found_ct s k p d g" "k < NO_KEY_ct s" using pc by (simp_all add: pc_ok_def)
  from insert_ct_step [OF wf clk f, of i x] show ?thesis
  proof
    assume "insert_locked_ct s i (Some p) g None d k x = Inr (enterQuiescentState_ct s i, None)"
    then show ?thesis using run wf keeps_ct_quiescent by auto
  next
    assume "\<exists>s'. insert_locked_ct s i (Some p) g None d k x = Inr (s', Some (NO_VALUE_ct s)) \<and> inserted_ct b s i p d k x s'"
    then have ins: "inserted_ct b s i p d k x s'" using run by auto
    then have "wf_ct b s'" by (simp add: inserted_ct_def updates_ct_def)
    then show ?thesis using insert_keeps [OF wf clk f(2) ins] by simp
  qed
qed

lemma erase_ct_commit:
  assumes wf: "wf_ct b s" and clk: "curr_timestamp (rq_ct s) < BUNDLE_MAX_TIMESTAMP" and pc: "pc_ok s (To_erase k p c d)"
    and run: "erase_locked_ct s i (Some p) (Some c) d = Inr (s', r)"
  shows "wf_ct b s' \<and> keeps_ct s s'"
proof -
  have e: "edge_ct s k p c d" "k < NO_KEY_ct s" using pc by (simp_all add: pc_ok_def)
  from erase_ct_step [OF wf clk e, of i] show ?thesis
  proof
    assume "erase_locked_ct s i (Some p) (Some c) d = Inr (enterQuiescentState_ct s i, None)"
    then show ?thesis using run wf keeps_ct_quiescent by auto
  next
    assume "\<exists>s' x. erase_locked_ct s i (Some p) (Some c) d = Inr (s', Some (x, True)) \<and> erased_ct b s i k x s'"
    then obtain x where "erased_ct b s i k x s'" using run by auto
    then show ?thesis by (simp add: erased_ct_def updates_ct_def)
  qed
qed

lemma search_pc:
  assumes wf: "wf_ct b s" and k: "k < NO_KEY_ct s" and run: "insert_search_ct s i k = Inr (s', Some p, q, d, g)"
  shows "s' = searched_ct s i" "q = None \<Longrightarrow> pc_ok s' (To_insert k x p d g)" "q = Some c \<Longrightarrow> pc_ok s' (To_erase k p c d)"
proof -
  let ?F = "fields_ct (heap_ct s)"
  obtain p' d' where f: "insert_search_ct s i k = Inr (searched_ct s i, Some p', fchild ?F p' d', d', ftag ?F p' d')"
    "fchild ?F p' d' = None \<longrightarrow> found_ct (searched_ct s i) k p' d' (ftag ?F p' d') \<and> map_of (contents_ct s) k = None"
    "\<forall>c. fchild ?F p' d' = Some c \<longrightarrow> edge_ct (searched_ct s i) k p' c d' \<and> c < length (heap_ct s)
       \<and> map_of (contents_ct s) k = Some (fval ?F c)"
    by (rule insert_search_ok [OF wf k])
  have e: "s' = searched_ct s i" "p = p'" "d = d'" "q = fchild ?F p' d'" "g = ftag ?F p' d'" using f(1) run by simp_all
  show "s' = searched_ct s i" by (rule e(1))
  show "q = None \<Longrightarrow> pc_ok s' (To_insert k x p d g)" using f(2) k by (simp add: e pc_ok_def del: fields_sel)
  show "q = Some c \<Longrightarrow> pc_ok s' (To_erase k p c d)" using f(3) k by (simp add: e pc_ok_def del: fields_sel)
qed

lemma ct_inv_step:
  assumes "ct_step x y" "ct_inv base x"
  shows "ct_inv base y"
  using assms
proof induction
  case (search_insert pc i k s s' p d g x)
  then obtain b where b: "b \<ge> base" "wf_ct b s" by (auto simp: ct_inv_def)
  note f = search_pc [OF b(2) search_insert(2,3)]
  show ?case
    by (rule ct_inv_keeps [OF search_insert(4) _ _ b(1) f(2)]) (use b(2) keeps_searched in \<open>simp_all add: f(1)\<close>)
next
  case (search_erase pc i k s s' p c d g)
  then obtain b where b: "b \<ge> base" "wf_ct b s" by (auto simp: ct_inv_def)
  note f = search_pc [OF b(2) search_erase(2,3)]
  show ?case
    by (rule ct_inv_keeps [OF search_erase(4) _ _ b(1) f(3)]) (use b(2) keeps_searched in \<open>simp_all add: f(1)\<close>)
next
  case (commit_insert pc i k x p d g s s' r)
  from commit_insert(4) obtain b where b: "b \<ge> base" "wf_ct b s" "pc_ok s (pc i)" by (auto simp: ct_inv_def)
  note c = insert_ct_commit [OF b(2) commit_insert(2) _ commit_insert(3)]
  show ?case
    by (rule ct_inv_keeps [OF commit_insert(4) _ _ b(1)]) (use c b(3) commit_insert(1) in \<open>simp_all add: pc_ok_def\<close>)
next
  case (commit_erase pc i k p c d s s' r)
  from commit_erase(4) obtain b where b: "b \<ge> base" "wf_ct b s" "pc_ok s (pc i)" by (auto simp: ct_inv_def)
  note c = erase_ct_commit [OF b(2) commit_erase(2) _ commit_erase(3)]
  show ?case
    by (rule ct_inv_keeps [OF commit_erase(4) _ _ b(1)]) (use c b(3) commit_erase(1) in \<open>simp_all add: pc_ok_def\<close>)
next
  case (clean s i s' pc)
  then obtain b where b: "b \<ge> base" "wf_ct b s" by (auto simp: ct_inv_def)
  obtain R where R: "live_t (view_ct s) R" by (rule wf_ctE [OF b(2)])
  obtain t where t: "get_oldest_active_rq (rq_ct s) = Inr t"
    using clean(2) by (cases "get_oldest_active_rq (rq_ct s)") (auto simp: cleanup_ct_def Let_def)
  have H: "height R \<le> BLOCK_SIZE" using clean(1) tree_ct_live [OF R] by simp
  have w: "wf_ct (max b t) s'" "keeps_ct s s'"
    using cleanup_ct_step [OF b(2) t R H, of i] clean(2) by auto
  have "\<forall>i. pc_ok s' (pc i)" using clean(3) pc_ok_keeps [OF _ w(2)] by (simp add: ct_inv_def)
  moreover have "base \<le> max b t" using b(1) by simp
  ultimately show ?case using w(1) unfolding ct_inv_def by blast
qed

text \<open>
  C23: Whatever updates and cleaners run between the search of an update and the acquisition
  of its locks, the tree stays well formed, and the locked section of the update either
  retries, leaving the tree as it was, or performs the abstract update at one new
  timestamp: \<open>insertIfAbsent\<close> adds the pair, \<open>erase\<close> removes the key and returns the value
  it had and hands exactly the removed nodes to the reclaimer; earlier snapshots stay.
\<close>

theorem ct_optimistic_updates:
  assumes "wf_ct base s0" "ct_step\<^sup>*\<^sup>* (s0, \<lambda>_. Idle_ct) (s, pc)" "curr_timestamp (rq_ct s) < BUNDLE_MAX_TIMESTAMP"
  shows "\<exists>b\<ge>base. wf_ct b s \<and> (case pc i of Idle_ct \<Rightarrow> True
    | To_insert k x p d g \<Rightarrow>
        insert_locked_ct s i (Some p) g None d k x = Inr (enterQuiescentState_ct s i, None)
        \<or> (\<exists>s'. insert_locked_ct s i (Some p) g None d k x = Inr (s', Some (NO_VALUE_ct s))
             \<and> map_of (contents_ct s) k = None \<and> updates_ct b s (ins_kv k x (contents_ct s)) s' \<and> retired_ct s' = retired_ct s)
    | To_erase k p c d \<Rightarrow>
        erase_locked_ct s i (Some p) (Some c) d = Inr (enterQuiescentState_ct s i, None)
        \<or> (\<exists>s' x. erase_locked_ct s i (Some p) (Some c) d = Inr (s', Some (x, True))
             \<and> map_of (contents_ct s) k = Some x \<and> updates_ct b s (del_kv k (contents_ct s)) s' \<and> retires_ct s s'))"
proof -
  have "ct_inv base (s0, \<lambda>_. Idle_ct)" using assms(1) by (auto simp: ct_inv_def pc_ok_def)
  with assms(2) have "ct_inv base (s, pc)"
    by (induction rule: rtranclp_induct) (blast intro: ct_inv_step)+
  then obtain b where b: "b \<ge> base" "wf_ct b s" "pc_ok s (pc i)" by (auto simp: ct_inv_def)
  show ?thesis
  proof (intro exI conjI)
    show "b \<ge> base" "wf_ct b s" using b by simp_all
  next
    show "case pc i of Idle_ct \<Rightarrow> True
      | To_insert k x p d g \<Rightarrow>
          insert_locked_ct s i (Some p) g None d k x = Inr (enterQuiescentState_ct s i, None)
          \<or> (\<exists>s'. insert_locked_ct s i (Some p) g None d k x = Inr (s', Some (NO_VALUE_ct s))
               \<and> map_of (contents_ct s) k = None \<and> updates_ct b s (ins_kv k x (contents_ct s)) s' \<and> retired_ct s' = retired_ct s)
      | To_erase k p c d \<Rightarrow>
          erase_locked_ct s i (Some p) (Some c) d = Inr (enterQuiescentState_ct s i, None)
          \<or> (\<exists>s' x. erase_locked_ct s i (Some p) (Some c) d = Inr (s', Some (x, True))
               \<and> map_of (contents_ct s) k = Some x \<and> updates_ct b s (del_kv k (contents_ct s)) s' \<and> retires_ct s s')"
    proof (cases "pc i")
      case (To_insert k x p d g)
      then show ?thesis using insert_ct_step [OF b(2) assms(3), of k p d g i x] b(3)
        by (auto simp: pc_ok_def inserted_ct_def)
    next
      case (To_erase k p c d)
      then show ?thesis using erase_ct_step [OF b(2) assms(3), of k p c d i] b(3)
        by (auto simp: pc_ok_def erased_ct_def)
    qed simp
  qed
qed

lemma example_search: "insert_search_ct example_ct 0 15 = Inr (searched_ct example_ct 0, Some 4, None, 0, 0)"
  by (simp add: insert_search_ct_def SEARCH_ct_def Let_def childof_ct_def keyof_ct_def deref_Some example_ct_sel
    flip: searched_ct_def) (simp add: example_ct_def deref_Some childof_ct_def keyof_ct_def)

theorem ct_optimistic_updates_witness:
  "\<exists>s b. insert_search_ct example_ct 0 15 = Inr (s, Some 4, None, 0, 0) \<and> wf_ct b s"
proof -
  let ?s = "searched_ct example_ct 0" let ?pc = "(\<lambda>_. Idle_ct)(0 := To_insert 15 151 4 0 0)"
  have "ct_step (example_ct, \<lambda>_. Idle_ct) (?s, ?pc)"
    by (rule search_insert [OF refl _ example_search]) (simp add: example_ct_sel)
  then have "ct_step\<^sup>*\<^sup>* (example_ct, \<lambda>_. Idle_ct) (?s, ?pc)" by blast
  from ct_optimistic_updates [OF example_ct_wf this, of 0] show ?thesis
    using example_search by (auto simp: example_ct_sel timestamp_defs)
qed

section \<open>The methods without interference\<close>

lemma updates_ct_same:
  assumes "wf_ct base s'" "view_ct s' = view_ct s" "wf_ct base s"
  shows "updates_ct base s (contents_ct s) s'"
  by (rule updates_ctI) (use steps_t_refl [OF wf_ctD(5) [OF assms(3)]] assms(1,2) in simp_all)

lemma updates_ct_searched:
  "updates_ct base (searched_ct s tid) d s' \<longleftrightarrow> updates_ct base s d s'"
  by (simp add: updates_ct_def)

lemma contents_ct_sorted:
  assumes "wf_ct base s"
  shows "ksorted fst (contents_ct s)"
proof -
  obtain R where "live_t (view_ct s) R" by (rule wf_ctE [OF assms])
  then show ?thesis using contents_t_live(1) pairs_t_sorted live_tD(1) by metis
qed

lemma live_unmarked:
  assumes "live_t (view_ct s) R" "p \<in> set_tree R"
  shows "\<not> fmark (fields_ct (heap_ct s)) p"
  using live_tD(3) [OF assms(1), of p] tree_okD(3) [OF live_tD(1) [OF assms(1)] assms(2)] assms(2) by simp

text \<open>The first attempt of an insertion of a key that is not there commits.\<close>

lemma insert_now:
  assumes wf: "wf_ct base s" and clk: "curr_timestamp (rq_ct s) < BUNDLE_MAX_TIMESTAMP" and k: "k < NO_KEY_ct s"
    and no: "map_of (contents_ct s) k = None"
  shows "\<exists>s' p d g. insert_search_ct s tid k = Inr (searched_ct s tid, Some p, None, d, g)
    \<and> insert_locked_ct (searched_ct s tid) tid (Some p) g None d k x = Inr (s', Some (NO_VALUE_ct s))
    \<and> updates_ct base s (ins_kv k x (contents_ct s)) s' \<and> retired_ct s' = retired_ct s \<and> quiescent_ct s' tid"
proof -
  let ?F = "fields_ct (heap_ct s)" let ?s = "searched_ct s tid"
  obtain R where R: "live_t (view_ct s) R" by (rule wf_ctE [OF wf])
  obtain p d where p: "insert_search_ct s tid k = Inr (?s, Some p, fchild ?F p d, d, ftag ?F p d)"
    "p < length (heap_ct s)" "\<forall>R. live_t (view_ct s) R \<longrightarrow> p \<in> set_tree R"
    "fchild ?F p d = None \<longrightarrow> found_ct ?s k p d (ftag ?F p d) \<and> map_of (contents_ct s) k = None"
    "\<forall>c. fchild ?F p d = Some c \<longrightarrow> edge_ct ?s k p c d \<and> c < length (heap_ct s) \<and> map_of (contents_ct s) k = Some (fval ?F c)"
    by (rule insert_search_ok [OF wf k])
  have n: "fchild ?F p d = None" using p(5) no by (cases "fchild ?F p d") auto
  have "found_ct ?s k p d (ftag ?F p d)" using p(4) n by blast
  then obtain S where S: "live_t (view_ct ?s) S" "found_t (view_ct ?s) S k (p, d, ftag ?F p d)" "root_ct ?s \<noteq> Some p"
    unfolding found_ct_def by (elim exE conjE)
  have mk: "\<not> fmark (fields_ct (heap_ct ?s)) p" using live_unmarked [OF R] p(3) R by simp
  have sl: "slot_t (tkey (view_ct ?s)) S p d k" using S(2,3) mk n by (simp add: found_t_def del: fields_sel)
  have "\<exists>s'. insert_locked_ct ?s tid (Some p) (ftag ?F p d) None d k x = Inr (s', Some (NO_VALUE_ct ?s))
      \<and> inserted_ct base ?s tid p d k x s'"
    by (rule insert_valid_step [OF wf_searched [OF wf] _ _ S(3) _ mk _ _ S(1) sl]) (use clk k p(2) n in simp_all)
  then show ?thesis using p(1) n by (auto simp: inserted_ct_def updates_ct_searched)
qed

lemma insert_ct_present:
  assumes wf: "wf_ct base s" and k: "k < NO_KEY_ct s" and yes: "map_of (contents_ct s) k = Some v"
  shows "\<exists>p c d g. insert_search_ct s tid k = Inr (searched_ct s tid, Some p, Some c, d, g)
    \<and> deref (heap_ct s) (Some c) = Inr (heap_ct s ! c) \<and> val_ct (heap_ct s ! c) = v"
proof -
  let ?F = "fields_ct (heap_ct s)" let ?s = "searched_ct s tid"
  obtain p d where p: "insert_search_ct s tid k = Inr (?s, Some p, fchild ?F p d, d, ftag ?F p d)"
    "fchild ?F p d = None \<longrightarrow> found_ct ?s k p d (ftag ?F p d) \<and> map_of (contents_ct s) k = None"
    "\<forall>c. fchild ?F p d = Some c \<longrightarrow> edge_ct ?s k p c d \<and> c < length (heap_ct s) \<and> map_of (contents_ct s) k = Some (fval ?F c)"
    by (rule insert_search_ok [OF wf k])
  obtain c where c: "fchild ?F p d = Some c" using p(2) yes by (cases "fchild ?F p d") auto
  then have c': "c < length (heap_ct s)" "fval ?F c = v" using p(3) yes by simp_all
  then have "deref (heap_ct s) (Some c) = Inr (heap_ct s ! c)" "val_ct (heap_ct s ! c) = v" by (simp_all add: deref_Some)
  then show ?thesis using p(1) unfolding c by blast
qed

text \<open>
  C24: \<open>insertIfAbsent\<close>, run without interference, needs one attempt: it returns the value
  already bound to the key, or \<open>NO_VALUE\<close> when the key was absent, the dictionary becomes
  the old one with the pair added if the key was absent, earlier snapshots stay and nothing is
  retired. \<open>insert\<close> does the same for an absent key and exits on a key that is there.
\<close>

theorem doInsert_ct_correct:
  assumes "wf_ct base s" "curr_timestamp (rq_ct s) < BUNDLE_MAX_TIMESTAMP" "k < NO_KEY_ct s" "0 < tries"
    and "map_of (contents_ct s) k \<noteq> Some (NO_VALUE_ct s)"
  shows "\<exists>s'. insertIfAbsent_ct tries s tid k x =
      Inr (s', case map_of (contents_ct s) k of None \<Rightarrow> NO_VALUE_ct s | Some v \<Rightarrow> v)
    \<and> insert_ct tries s tid k x = (if map_of (contents_ct s) k = None then Inr (s', NO_VALUE_ct s) else Inl Exit)
    \<and> updates_ct base s (ins_kv k x (contents_ct s)) s' \<and> retired_ct s' = retired_ct s \<and> quiescent_ct s' tid"
proof -
  obtain t where t: "tries = Suc t" using assms(4) by (cases tries) auto
  show ?thesis
  proof (cases "map_of (contents_ct s) k")
    case None
    from insert_now [OF assms(1-3) None, of tid x] obtain s' p d g where
      "insert_search_ct s tid k = Inr (searched_ct s tid, Some p, None, d, g)"
      "insert_locked_ct (searched_ct s tid) tid (Some p) g None d k x = Inr (s', Some (NO_VALUE_ct s))"
      "updates_ct base s (ins_kv k x (contents_ct s)) s'" "retired_ct s' = retired_ct s" "quiescent_ct s' tid"
      by (elim exE conjE)
    then show ?thesis using None by (simp add: t insertIfAbsent_ct_def insert_ct_def)
  next
    case (Some v)
    from insert_ct_present [OF assms(1,3) Some, of tid] obtain p c d g where
      f: "insert_search_ct s tid k = Inr (searched_ct s tid, Some p, Some c, d, g)"
      "deref (heap_ct s) (Some c) = Inr (heap_ct s ! c)" "val_ct (heap_ct s ! c) = v" by (elim exE conjE)
    let ?s = "enterQuiescentState_ct (searched_ct s tid) tid"
    have "k \<in> fst ` set (contents_ct s)" using Some by (metis map_of_eq_None_iff option.distinct(1))
    then have "ins_kv k x (contents_ct s) = contents_ct s" by (simp add: ins_kv_present contents_ct_sorted [OF assms(1)])
    moreover have "updates_ct base s (contents_ct s) ?s" by (rule updates_ct_same) (use assms(1) in simp_all)
    ultimately show ?thesis using f Some assms(5)
      by (simp add: t insertIfAbsent_ct_def insert_ct_def require_def Let_def)
  qed
qed

theorem doInsert_ct_correct_witness:
  "\<exists>s'. insertIfAbsent_ct 1 example_ct 0 15 151 = Inr (s', 0) \<and> contents_ct s' = [(5, 51), (10, 101), (15, 151), (20, 201)]"
  using doInsert_ct_correct [OF example_ct_wf, of 15 1 0 151]
  by (auto simp: example_ct_sel example_ct_contents updates_ct_def timestamp_defs)

lemma SEARCH_methods:
  assumes wf: "wf_ct base s" and k: "k < NO_KEY_ct s"
  obtains (absent) p d where "SEARCH_ct s k = Inr (Some p, None, d)" "map_of (contents_ct s) k = None"
      "p < length (heap_ct s)" "d < 2" "\<forall>R. live_t (view_ct s) R \<longrightarrow> p \<in> set_tree R" "fchild (fields_ct (heap_ct s)) p d = None"
  | (present) p c d where "SEARCH_ct s k = Inr (Some p, Some c, d)" "edge_ct s k p c d" "c < length (heap_ct s)"
      "map_of (contents_ct s) k = Some (fval (fields_ct (heap_ct s)) c)" "d < 2" "p < length (heap_ct s)"
      "\<forall>R. live_t (view_ct s) R \<longrightarrow> p \<in> set_tree R" "fchild (fields_ct (heap_ct s)) p d = Some c"
proof -
  let ?F = "fields_ct (heap_ct s)"
  obtain p d where p: "p < length (heap_ct s)" "d < 2" "\<forall>R. live_t (view_ct s) R \<longrightarrow> p \<in> set_tree R"
    "SEARCH_ct s k = Inr (Some p, fchild ?F p d, d)"
    "fchild ?F p d = None \<longrightarrow> found_ct s k p d (ftag ?F p d) \<and> map_of (contents_ct s) k = None"
    "\<forall>c. fchild ?F p d = Some c \<longrightarrow> edge_ct s k p c d \<and> c < length (heap_ct s) \<and> map_of (contents_ct s) k = Some (fval ?F c)"
    by (rule SEARCH_found [OF wf k])
  show thesis
  proof (cases "fchild ?F p d")
    case None
    show thesis by (rule absent) (use p None in \<open>simp_all del: fields_sel\<close>)
  next
    case (Some c)
    show thesis by (rule present) (use p Some in \<open>simp_all del: fields_sel\<close>)
  qed
qed

text \<open>The first attempt of a removal of a key that is there commits.\<close>

lemma erase_now:
  assumes wf: "wf_ct base s" and clk: "curr_timestamp (rq_ct s) < BUNDLE_MAX_TIMESTAMP" and k: "k < NO_KEY_ct s"
    and e: "edge_ct s k p c d" and p: "\<not> fmark (fields_ct (heap_ct s)) p" "fchild (fields_ct (heap_ct s)) p d = Some c"
  shows "\<exists>s' v. erase_locked_ct s tid (Some p) (Some c) d = Inr (s', Some (v, True)) \<and> erased_ct base s tid k v s'"
proof -
  obtain R where R: "live_t (view_ct s) R" by (rule wf_ctE [OF wf])
  show ?thesis
    using erase_bypass_step [OF wf clk R e k p] erase_replace_step [OF wf clk R e k p] by blast
qed

text \<open>
  C25: \<open>erase\<close>, run without interference, needs one attempt: it returns the value bound to the
  key, or \<open>NO_VALUE\<close> and false when there is none; the key is gone from the dictionary, also
  when the node has two children and is replaced by a copy of its successor; exactly the
  nodes that left the tree have been handed to the reclaimer, and earlier snapshots stay.
\<close>

theorem erase_ct_correct:
  assumes "wf_ct base s" "curr_timestamp (rq_ct s) < BUNDLE_MAX_TIMESTAMP" "k < NO_KEY_ct s" "0 < tries"
  shows "\<exists>s'. erase_ct tries s tid k = Inr (s', case map_of (contents_ct s) k of None \<Rightarrow> (NO_VALUE_ct s, False) | Some v \<Rightarrow> (v, True))
    \<and> updates_ct base s (del_kv k (contents_ct s)) s' \<and> retires_ct s s' \<and> quiescent_ct s' tid"
proof -
  let ?s = "searched_ct s tid"
  obtain t where t: "tries = Suc t" using assms(4) by (cases tries) auto
  have wf': "wf_ct base ?s" by (rule wf_searched [OF assms(1)])
  have same: "edge_ct ?s = edge_ct s" "erased_ct base ?s tid k v s' \<longleftrightarrow> map_of (contents_ct s) k = Some v
     \<and> updates_ct base s (del_kv k (contents_ct s)) s' \<and> keeps_ct ?s s' \<and> retires_ct s s' \<and> quiescent_ct s' tid" for v s'
    by (simp_all add: edge_ct_def erased_ct_def updates_ct_searched retires_ct_def fun_eq_iff)
  from assms(1,3) show ?thesis
  proof (cases rule: SEARCH_methods)
    case (absent p d)
    have "del_kv k (contents_ct s) = contents_ct s" using absent(2) by (simp add: del_kv_absent map_of_eq_None_iff)
    moreover have "updates_ct base s (contents_ct s) (enterQuiescentState_ct ?s tid)"
      by (rule updates_ct_same) (use assms(1) in simp_all)
    moreover have "retires_ct s (enterQuiescentState_ct ?s tid)" unfolding retires_ct_def by (intro exI [of _ "[]"]) auto
    ultimately show ?thesis using absent(1,2) by (simp add: t Let_def flip: searched_ct_def)
  next
    case (present p c d)
    obtain R where R: "live_t (view_ct s) R" by (rule wf_ctE [OF assms(1)])
    have mk: "\<not> fmark (fields_ct (heap_ct s)) p" using live_unmarked [OF R] present(7) R by blast
    obtain s' v where e: "erase_locked_ct ?s tid (Some p) (Some c) d = Inr (s', Some (v, True))" "erased_ct base ?s tid k v s'"
      using erase_now [OF wf' _ _ _ _ _, of k p c d tid] assms(2,3) present(2,8) mk same(1) by auto
    then show ?thesis using present(1) same(2) by (simp add: t Let_def flip: searched_ct_def)
  qed
qed

theorem erase_ct_correct_witness:
  "\<exists>s'. erase_ct 1 example_ct 0 10 = Inr (s', 101, True) \<and> contents_ct s' = [(5, 51), (20, 201)]"
  using erase_ct_correct [OF example_ct_wf, of 10 1 0]
  by (auto simp: example_ct_sel example_ct_contents updates_ct_def del_kv_def timestamp_defs)

lemma getPtr_newest:
  assumes "live_t (view_ct s) R" "a \<in> set_tree R" "d < 2"
  shows "getPtr (fbun (fields_ct (heap_ct s)) a d) = Inr (fchild (fields_ct (heap_ct s)) a d)"
proof -
  note l = live_tD [OF assms(1)]
  have "tbun (view_ct s) a d \<noteq> []" "bundle_ok (tbun (view_ct s) a d)"
    "entry_ptr (hd (tbun (view_ct s) a d)) = tchild (view_ct s) a d"
    using l(4,5,6) assms(2,3) by blast+
  then have "getPtr (tbun (view_ct s) a d) = Inr (tchild (view_ct s) a d)"
    by (cases "tbun (view_ct s) a d") (auto simp: getPtr_def bundle_ok_def)
  then show ?thesis by (simp del: fields_sel)
qed

lemma wf_end_traversal:
  assumes "wf_ct base s"
  shows "wf_ct base (s\<lparr>rq_ct := end_traversal (rq_ct s) tid\<rparr>)" "view_ct (s\<lparr>rq_ct := end_traversal (rq_ct s) tid\<rparr>) = view_ct s"
  using wf_rq_change [OF assms, of "end_traversal (rq_ct s) tid"] wf_ctD(1) [OF assms] by (simp_all add: end_traversal_def)

text \<open>
  C26: \<open>contains\<close>, which reads the last pointer of its search from the bundle and goes on along
  the newest entries, and \<open>find\<close>, which uses the links alone, agree with the dictionary.
\<close>

theorem contains_ct_correct:
  assumes "wf_ct base s" "k < NO_KEY_ct s"
  shows "(\<exists>s'. contains_ct s tid k = Inr (s', map_of (contents_ct s) k \<noteq> None) \<and> updates_ct base s (contents_ct s) s'
      \<and> quiescent_ct s' tid)
    \<and> (\<exists>s'. find_ct s tid k = Inr (s', case map_of (contents_ct s) k of None \<Rightarrow> (NO_VALUE_ct s, False) | Some v \<Rightarrow> (v, True))
      \<and> updates_ct base s (contents_ct s) s' \<and> quiescent_ct s' tid)"
proof -
  let ?s = "searched_ct s tid" let ?F = "fields_ct (heap_ct s)"
  let ?e = "enterQuiescentState_ct ?s tid" let ?c = "enterQuiescentState_ct (?s\<lparr>rq_ct := end_traversal (rq_ct ?s) tid\<rparr>) tid"
  have e: "updates_ct base s (contents_ct s) ?e" by (rule updates_ct_same) (use assms(1) in simp_all)
  have c: "updates_ct base s (contents_ct s) ?c"
    by (rule updates_ct_same) (use assms(1) wf_end_traversal [OF wf_searched [OF assms(1)], of tid tid] in simp_all)
  obtain R where R: "live_t (view_ct s) R" by (rule wf_ctE [OF assms(1)])
  have bun: "bundleof_ct (heap_ct s) d (Some p) = Inr (fbun ?F p d)" if "p < length (heap_ct s)" for p d
    using bundleof_run [OF refl, of p "heap_ct s" d] that by simp
  from assms show ?thesis
  proof (cases rule: SEARCH_methods)
    case (absent p d)
    have "p \<in> set_tree R" using absent(5) R by blast
    then have "getPtr (fbun ?F p d) = Inr None" using getPtr_newest [OF R _ absent(4)] absent(6) by simp
    then show ?thesis using absent e c bun [OF absent(3), of d]
      by (simp add: contains_ct_def find_ct_def Let_def del: fields_sel flip: searched_ct_def)
  next
    case (present p x d)
    have "p \<in> set_tree R" using present(7) R by blast
    then have g: "getPtr (fbun ?F p d) = Inr (Some x)" using getPtr_newest [OF R _ present(5)] present(8) by simp
    have k: "keyof_ct (heap_ct s) (Some x) = Inr k" "deref (heap_ct s) (Some x) = Inr (heap_ct s ! x)"
      "val_ct (heap_ct s ! x) = fval ?F x"
      using present(2,3) by (simp_all add: keyof_ct_def deref_Some edge_ct_def)
    show ?thesis using present g e c bun [OF present(6), of d] k
      by (simp add: contains_ct_def find_ct_def Let_def del: fields_sel flip: searched_ct_def)
  qed
qed

theorem contains_ct_correct_witness:
  "\<exists>s'. contains_ct example_ct 0 20 = Inr (s', True) \<and> contents_ct s' = contents_ct example_ct"
  using contains_ct_correct [OF example_ct_wf, of 20 0]
  by (auto simp: example_ct_sel example_ct_contents updates_ct_def)

end
