(* ===== verification/Bundled_Citrus_Queries.thy ===== *)
theory Bundled_Citrus_Queries
  imports Bundled_Citrus_Methods
begin

text \<open>
  Range queries and the cleaner of the bundled Citrus tree: the depth-first search along the
  bundles, the descent to its entry, and what the cleaner keeps.
\<close>

section \<open>The depth-first search\<close>

text \<open>The pairs of some nodes whose keys lie in a range.\<close>

definition hits :: "(nat \<Rightarrow> int) \<Rightarrow> (nat \<Rightarrow> int) \<Rightarrow> int \<Rightarrow> int \<Rightarrow> nat list \<Rightarrow> dict" where
  "hits k v lo hi as = range_kv lo hi (map (\<lambda>a. (k a, v a)) as)"

lemma hits_simps [simp]:
  "hits k v lo hi [] = []" "hits k v lo hi (as @ bs) = hits k v lo hi as @ hits k v lo hi bs"
  "hits k v lo hi (a # as) = (if lo \<le> k a \<and> k a \<le> hi then (k a, v a) # hits k v lo hi as else hits k v lo hi as)"
  by (simp_all add: hits_def range_kv_def)

lemma hits_outside: "(\<And>a. a \<in> set as \<Longrightarrow> k a < lo \<or> hi < k a) \<Longrightarrow> hits k v lo hi as = []"
  by (induction as) force+

text \<open>Every bundle on the subtrees can be read at the time of the query.\<close>

definition readable :: "ct_node list \<Rightarrow> timestamp_t \<Rightarrow> (nat \<Rightarrow> nat \<Rightarrow> ptr) \<Rightarrow> nat set \<Rightarrow> bool" where
  "readable h ts c A \<longleftrightarrow> (\<forall>a\<in>A. a < length h \<and> (\<forall>d<2. follow (bundleof_ct h d) ts (Some a) = Inr (c a d)))"

lemma rq_dfs_run:
  assumes "stack_of st Ts H" "\<forall>T\<in>set Ts. tree_at c (root_ptr T) T \<and> ksorted (fkey (fields_ct h)) (inorder T)"
    "readable h ts c (set (nodes_of Ts))" "\<forall>a\<in>set (nodes_of Ts). fkey (fields_ct h) a < nk" "length (nodes_of Ts) < n"
  shows "\<exists>res. rq_dfs_ct n h nk ts lo hi st result = Inr (result @ res)
    \<and> mset res = mset (hits (fkey (fields_ct h)) (fval (fields_ct h)) lo hi (nodes_of Ts))"
  using assms
proof (induction n arbitrary: st Ts result)
  case (Suc n)
  let ?F = "fields_ct h" let ?k = "fkey ?F" let ?v = "fval ?F"
  show ?case
  proof (cases Ts rule: rev_cases)
    case Nil
    then show ?thesis using stack_of_empty [OF Suc.prems(1)] by (intro exI [of _ "[]"]) simp
  next
    case (snoc Us T)
    then have "T \<noteq> Leaf" using Suc.prems(1) by (auto simp: stack_of_def)
    then obtain l a r where T: "T = Node l a r" by (cases T) auto
    have ne: "\<not> isEmpty_b st" using stack_of_empty [OF Suc.prems(1)] snoc by simp
    obtain st0 where st0: "pop_b st = Inr (Some a, st0)" "stack_of st0 Us H" "height (Node l a r) + length Us \<le> H"
      using stack_of_pop Suc.prems(1) unfolding snoc T by blast
    have al: "a < flen ?F" "\<And>d. d < 2 \<Longrightarrow> follow (bundleof_ct h d) ts (Some a) = Inr (c a d)" "?k a < nk"
      using Suc.prems(3,4) snoc T by (auto simp: readable_def simp del: fields_sel) simp
    have dn: "deref h (Some a) = Inr (h ! a)" "key_ct (h ! a) = ?k a" "val_ct (h ! a) = ?v a"
      using fields_at [OF refl al(1)] by simp_all
    have ta: "tree_at c (c a 0) l" "tree_at c (c a 1) r" "ksorted ?k (inorder l @ a # inorder r)" using Suc.prems(2) snoc T by auto
    have ch: "c a 0 = root_ptr l" "c a 1 = root_ptr r" using ta tree_at_root_ptr by blast+
    let ?b = "lo < ?k a" let ?b' = "hi > ?k a"
    let ?l = "if l \<noteq> Leaf \<and> ?b then [l] else []" let ?r = "if r \<noteq> Leaf \<and> ?b' then [r] else []"
    obtain st1 st2 where st2: "(if root_ptr l \<noteq> None \<and> ?b then push_b (root_ptr l) st0 else Inr st0) = Inr st1"
      "(if root_ptr r \<noteq> None \<and> ?b' then push_b (root_ptr r) st1 else Inr st1) = Inr st2" "stack_of st2 (Us @ ?l @ ?r) H"
      by (rule stack_of_push2 [OF st0(2,3)])
    let ?own = "hits ?k ?v lo hi [a]"
    have add: "traversal_try_add (getKeys_ct nk) (isInRange_ct nk) (h ! a) result lo hi = Inr (result @ ?own)"
      using al(3) by (simp add: traversal_try_add_eq RQ_DEBUGGING_MAX_KEYS_PER_NODE_def getKeys_ct_def isInRange_ct_def dn del: fields_sel)
    have step: "rq_dfs_ct (Suc n) h nk ts lo hi st result = rq_dfs_ct n h nk ts lo hi st2 (result @ ?own)"
      using ne st2(1,2) by (simp add: st0(1) dn ch al(2) add Let_def del: One_nat_def not_None_eq hits_simps fields_sel
          split del: if_split cong: if_cong)
    have nT: "nodes_of Ts = nodes_of Us @ inorder l @ a # inorder r" by (simp add: snoc T)
    have sub: "set (nodes_of (Us @ ?l @ ?r)) \<subseteq> set (nodes_of Ts)" unfolding nT by auto
    have "\<exists>res. rq_dfs_ct n h nk ts lo hi st2 (result @ ?own) = Inr ((result @ ?own) @ res)
        \<and> mset res = mset (hits ?k ?v lo hi (nodes_of (Us @ ?l @ ?r)))"
    proof (rule Suc.IH [OF st2(3)])
      show "\<forall>T\<in>set (Us @ ?l @ ?r). tree_at c (root_ptr T) T \<and> ksorted ?k (inorder T)"
        using Suc.prems(2) snoc ta ch by (auto simp: sorted_wrt_append)
      show "readable h ts c (set (nodes_of (Us @ ?l @ ?r)))" "\<forall>a\<in>set (nodes_of (Us @ ?l @ ?r)). ?k a < nk"
        using Suc.prems(3,4) sub by (auto simp: readable_def simp del: fields_sel)
      show "length (nodes_of (Us @ ?l @ ?r)) < n" using Suc.prems(5) unfolding nT by (auto split: if_splits)
    qed
    then obtain res where res: "rq_dfs_ct n h nk ts lo hi st2 (result @ ?own) = Inr ((result @ ?own) @ res)"
      "mset res = mset (hits ?k ?v lo hi (nodes_of (Us @ ?l @ ?r)))" by (elim exE conjE)
    have "hits ?k ?v lo hi (inorder l) = []" if "\<not> ?b"
      by (rule hits_outside) (use that ta(3) in \<open>fastforce simp: sorted_wrt_append simp del: fields_sel\<close>)
    then have hl: "hits ?k ?v lo hi (nodes_of ?l) = hits ?k ?v lo hi (inorder l)" by (cases "l = Leaf"; cases ?b) (simp_all del: fields_sel)
    have "hits ?k ?v lo hi (inorder r) = []" if "\<not> ?b'"
      by (rule hits_outside) (use that ta(3) in \<open>fastforce simp: sorted_wrt_append simp del: fields_sel\<close>)
    then have hr: "hits ?k ?v lo hi (nodes_of ?r) = hits ?k ?v lo hi (inorder r)" by (cases "r = Leaf"; cases ?b') (simp_all del: fields_sel)
    have "mset (?own @ res) = mset (hits ?k ?v lo hi (nodes_of Ts))"
      unfolding nT using res(2) hl hr by (simp del: fields_sel)
    then show ?thesis using step res(1) by (intro exI [of _ "?own @ res"]) simp
  qed
qed simp

section \<open>The descent\<close>

text \<open>Where phase 1 ends, as a subtree: everything in the range lies below.\<close>

fun descend_t :: "(nat \<Rightarrow> int) \<Rightarrow> int \<Rightarrow> int \<Rightarrow> nat \<Rightarrow> nat \<Rightarrow> nat tree \<Rightarrow> nat \<times> nat \<times> nat tree" where
  "descend_t k lo hi p d Leaf = (p, d, Leaf)"
| "descend_t k lo hi p d (Node l a r) = (if k a \<ge> lo \<and> k a \<le> hi then (p, d, Node l a r)
     else if k a < lo then descend_t k lo hi a 1 r else descend_t k lo hi a 0 l)"

lemma rq_descend_run:
  assumes F: "fields_ct h = F"
  shows "tree_at (fchild F) cur T \<Longrightarrow> \<forall>a\<in>set_tree T. a < flen F \<Longrightarrow> height T < n \<Longrightarrow>
    rq_descend_ct n h lo hi (Some p) cur d =
      (case descend_t (fkey F) lo hi p d T of (p', d', T') \<Rightarrow> Inr (Some p', d'))"
proof (induction T arbitrary: n p cur d)
  case Leaf
  then show ?case by (cases n) auto
next
  case (Node l a r)
  obtain m where n: "n = Suc m" using Node.prems(3) by (cases n) auto
  have cur: "cur = Some a" and t: "tree_at (fchild F) (fchild F a 0) l" "tree_at (fchild F) (fchild F a 1) r"
    and al: "a < flen F" using Node.prems by auto
  have "rq_descend_ct m h lo hi (Some a) (fchild F a 0) 0 = (case descend_t (fkey F) lo hi a 0 l of (p', d', T') \<Rightarrow> Inr (Some p', d'))"
    "rq_descend_ct m h lo hi (Some a) (fchild F a 1) 1 = (case descend_t (fkey F) lo hi a 1 r of (p', d', T') \<Rightarrow> Inr (Some p', d'))"
    using Node.prems(2,3) n t by (intro Node.IH; simp)+
  then show ?case by (auto simp: n cur keyof_run [OF F al] childof_run [OF F al] Let_def)
qed

lemma descend_t_spec:
  assumes "descend_t k lo hi p d T = (p', d', T')" "ksorted k (inorder T)"
  shows "(T' = Leaf \<or> (\<exists>l a r. T' = Node l a r \<and> lo \<le> k a \<and> k a \<le> hi))
    \<and> hits k v lo hi (inorder T) = hits k v lo hi (inorder T') \<and> set_tree T' \<subseteq> set_tree T \<and> height T' \<le> height T
    \<and> ksorted k (inorder T') \<and> distinct (inorder T') \<and> (p' = p \<and> d' = d \<and> T' = T \<or> p' \<in> set_tree T \<and> d' < 2)
    \<and> (tree_at f (f p d) T \<longrightarrow> tree_at f (f p' d') T')"
  using assms
proof (induction T arbitrary: p d)
  case Leaf
  then show ?case by simp
next
  case (Node l a r)
  have srt: "ksorted k (inorder l)" "ksorted k (inorder r)" "\<And>b. b \<in> set_tree l \<Longrightarrow> k b < k a" "\<And>b. b \<in> set_tree r \<Longrightarrow> k a < k b"
    using Node.prems(2) by (auto simp: sorted_wrt_append)
  consider "k a \<ge> lo \<and> k a \<le> hi" | "k a < lo" | "\<not> k a < lo" "hi < k a" by linarith
  then show ?case
  proof cases
    case 1
    then have "p' = p" "d' = d" "T' = Node l a r" using Node.prems(1) by simp_all
    then show ?thesis using 1 Node.prems(2) ksorted_distinct [OF Node.prems(2)] by auto
  next
    case 2
    then have "descend_t k lo hi a 1 r = (p', d', T')" using Node.prems(1) by simp
    note ih = Node.IH(2) [OF this srt(2)]
    have "hits k v lo hi (inorder l) = []" by (rule hits_outside) (use srt(3) 2 in force)
    then have "hits k v lo hi (inorder \<langle>l, a, r\<rangle>) = hits k v lo hi (inorder T')" using 2 ih by simp
    then show ?thesis using ih by auto
  next
    case 3
    then have "descend_t k lo hi a 0 l = (p', d', T')" using Node.prems(1) by simp
    note ih = Node.IH(1) [OF this srt(1)]
    have "hits k v lo hi (inorder r) = []" by (rule hits_outside) (use srt(4) 3 in force)
    then have "hits k v lo hi (inorder \<langle>l, a, r\<rangle>) = hits k v lo hi (inorder T')" using 3 ih by simp
    then show ?thesis using ih by auto
  qed
qed

section \<open>Range queries\<close>

lemma follow_snap_ct:
  assumes wf: "wf_ct base s" and S: "snap_t (view_ct s) ts S" and a: "a \<in> set_tree S" "d < 2"
  shows "follow (bundleof_ct (heap_ct s) d) ts (Some a) = Inr (at_time (view_ct s) ts a d)"
proof -
  let ?v = "view_ct s"
  obtain R where R: "live_t ?v R" by (rule wf_ctE [OF wf])
  have ok: "tree_ok ?v S" using S by (simp add: snap_t_def)
  have al: "a < length (heap_ct s)" using tree_okD(3) [OF ok a(1)] by simp
  have r: "read_at (tbun ?v a d) ts \<noteq> None" using S a by (simp add: snap_t_def)
  then have ne: "tbun ?v a d \<noteq> []" by auto
  have "getPtrByTimestamp ts (tbun ?v a d) = Inr (read_at (tbun ?v a d) ts)"
    by (rule getPtrByTimestamp_read [OF live_tD(6) [OF R] ne])
  moreover have "bundleof_ct (heap_ct s) d (Some a) = Inr (tbun ?v a d)"
    using bundleof_run [OF refl, of a "heap_ct s" d] al by simp
  moreover obtain q where "read_at (tbun ?v a d) ts = Some q" using r by blast
  ultimately show ?thesis by (simp add: follow_def at_time_def succ_of_def)
qed

text \<open>
  Phase 3 collects the range of the snapshot, when the edge at which phase 1 has ended still
  led to a node of the range (or to nothing) at the time of the query, with the whole range below.
\<close>

lemma rq_phases_ct_snapshot:
  assumes wf: "wf_ct base s" and ts: "curr_timestamp (rq_ct s) = ts" and S: "snap_t (view_ct s) ts S"
    and p: "p \<in> set_tree S" "d < 2" and T: "tree_at (at_time (view_ct s) ts) (at_time (view_ct s) ts p d) T"
    and entry: "T = Leaf \<or> (\<exists>l a r. T = Node l a r \<and> lo \<le> tkey (view_ct s) a \<and> tkey (view_ct s) a \<le> hi)"
    and T': "set_tree T \<subseteq> set_tree S" "ksorted (tkey (view_ct s)) (inorder T)" "distinct (inorder T)"
    and nk: "\<forall>a\<in>set_tree T. tkey (view_ct s) a < NO_KEY_ct s" and H: "height T \<le> BLOCK_SIZE"
  shows "\<exists>s' res. rq_phases_ct s tid (Some p) d lo hi = Inr (s', res) \<and> updates_ct base s (contents_ct s) s'
    \<and> heap_ct s' = heap_ct s \<and> quiescent_ct s' tid \<and> rq_lin_time (rq_ct s') tid = BUNDLE_NULL_TIMESTAMP
    \<and> mset res = mset (hits (tkey (view_ct s)) (tval (view_ct s)) lo hi (inorder T))"
proof -
  let ?v = "view_ct s" let ?h = "heap_ct s" let ?n = "Suc (length ?h)" let ?F = "fields_ct ?h"
  let ?q = "(rq_ct s)\<lparr>rq_lin_time := (rq_lin_time (rq_ct s))(tid := BUNDLE_NULL_TIMESTAMP), rq_flag := (rq_flag (rq_ct s))(tid := False)\<rparr>"
  let ?s = "enterQuiescentState_ct (s\<lparr>rq_ct := ?q\<rparr>) tid"
  obtain q' where q': "start_traversal (rq_ct s) tid = (ts, q')" "end_traversal q' tid = ?q"
    using start_end_traversal [OF wf_ctD(1) [OF wf], of tid] ts by blast
  have up: "updates_ct base s (contents_ct s) ?s"
    by (rule updates_ct_same) (use wf wf_rq_change [OF wf, of ?q] in simp_all)
  have f: "follow (bundleof_ct ?h d) ts (Some a) = Inr (at_time ?v ts a d)" if "a \<in> set_tree S" "d < 2" for a d
    by (rule follow_snap_ct [OF wf S that])
  have bnd: "a < length ?h" if "a \<in> set_tree S" for a
    using S tree_okD(3) [of ?v S a] that by (simp add: snap_t_def)
  have run: "rq_phases_ct s tid (Some p) d lo hi =
      obind (rq_enter_ct (Suc ?n) ?h ts lo hi (Some p) (root_ptr T)) (\<lambda>cur.
        if cur = None then Inr (?s, []) else obind (push_b cur new_stack) (\<lambda>stack.
          obind (rq_dfs_ct ?n ?h (NO_KEY_ct s) ts lo hi stack []) (\<lambda>result. Inr (?s, result))))"
    using f [OF p] tree_at_root_ptr [OF T] by (simp add: rq_phases_ct_def q' Let_def del: rq_enter_ct.simps rq_dfs_ct.simps cong: if_cong)
  show ?thesis
  proof (cases T)
    case Leaf
    then show ?thesis using run up by (intro exI [of _ ?s] exI [of _ "[]"]) (simp del: rq_dfs_ct.simps)
  next
    case (Node l a r)
    have a: "a < flen ?F" "lo \<le> fkey ?F a" "fkey ?F a \<le> hi" using entry Node T'(1) bnd by auto
    then have en: "rq_enter_ct (Suc ?n) ?h ts lo hi (Some p) (root_ptr T) = Inr (Some a)"
      by (simp add: Node keyof_run [OF refl a(1)] del: fields_sel)
    have "T \<noteq> Leaf" "size_b new_stack = 0" by (simp_all add: Node new_stack_def)
    from stack_of_start [OF this(1) H this(2)] obtain st where st: "push_b (root_ptr T) new_stack = Inr st" "stack_of st [T] (height T)"
      by (elim exE conjE)
    have len: "length (nodes_of [T]) < ?n"
    proof -
      have "length (inorder T) \<le> length ?h" by (rule distinct_bounded_length [OF T'(3)]) (use T'(1) bnd in auto)
      then show ?thesis by simp
    qed
    have "\<exists>res. rq_dfs_ct ?n ?h (NO_KEY_ct s) ts lo hi st [] = Inr ([] @ res)
        \<and> mset res = mset (hits (fkey ?F) (fval ?F) lo hi (nodes_of [T]))"
    proof (rule rq_dfs_run [OF st(2) _ _ _ len])
      show "\<forall>U\<in>set [T]. tree_at (at_time ?v ts) (root_ptr U) U \<and> ksorted (fkey ?F) (inorder U)"
        using T tree_at_root_ptr [OF T] T'(2) by simp
      show "readable ?h ts (at_time ?v ts) (set (nodes_of [T]))"
        using f bnd T'(1) by (auto simp: readable_def)
      show "\<forall>a\<in>set (nodes_of [T]). fkey ?F a < NO_KEY_ct s" using nk by simp
    qed
    then obtain res where "rq_dfs_ct ?n ?h (NO_KEY_ct s) ts lo hi st [] = Inr res"
      "mset res = mset (hits (fkey ?F) (fval ?F) lo hi (inorder T))" by auto
    then show ?thesis using run en st(1) up Node by (intro exI [of _ ?s] exI [of _ res]) (simp del: rq_dfs_ct.simps rq_enter_ct.simps)
  qed
qed

lemma rq_entry:
  assumes wf: "wf_ct base s" and live: "live_t (view_ct s) R" and hi: "hi < NO_KEY_ct s"
  obtains p d T where "rq_descend_ct (Suc (length (heap_ct s))) (heap_ct s) lo hi (Some (troot (view_ct s))) (Some (troot (view_ct s))) 0
      = Inr (Some p, d)" "p \<in> set_tree R" "d < 2" "tree_at (tchild (view_ct s)) (tchild (view_ct s) p d) T"
    "T = Leaf \<or> (\<exists>l a r. T = Node l a r \<and> lo \<le> tkey (view_ct s) a \<and> tkey (view_ct s) a \<le> hi)"
    "set_tree T \<subseteq> set_tree R" "ksorted (tkey (view_ct s)) (inorder T)" "distinct (inorder T)" "height T \<le> height R"
    "\<forall>a\<in>set_tree T. tkey (view_ct s) a < NO_KEY_ct s"
    "range_kv lo hi (contents_ct s) = hits (tkey (view_ct s)) (tval (view_ct s)) lo hi (inorder T)"
proof -
  let ?v = "view_ct s" let ?F = "fields_ct (heap_ct s)" let ?k = "tkey ?v"
  note o = tree_okD [OF live_tD(1) [OF live]] and lv = live_tD [OF live]
  obtain t where R: "R = Node t (troot ?v) Leaf" using o(1) by blast
  have st: "ksorted ?k (inorder t)" "\<forall>a\<in>set_tree t. ?k a < NO_KEY_ct s" "?k (troot ?v) = NO_KEY_ct s"
    using o(2,4) R by (auto simp: sorted_wrt_append)
  have tt: "tree_at (tchild ?v) (tchild ?v (troot ?v) 0) t" "tchild ?v (troot ?v) 1 = None" using lv(2) R by auto
  have at: "tree_at (fchild ?F) (Some (troot ?v)) R" using lv(2) by simp
  have bnd: "\<forall>a\<in>set_tree R. a < flen ?F" "height R < Suc (length (heap_ct s))" using o(3,6) by simp_all
  obtain p d T where D: "descend_t ?k lo hi (troot ?v) 0 R = (p, d, T)" by (cases "descend_t ?k lo hi (troot ?v) 0 R")
  have run: "rq_descend_ct (Suc (length (heap_ct s))) (heap_ct s) lo hi (Some (troot ?v)) (Some (troot ?v)) 0 = Inr (Some p, d)"
    using rq_descend_run [OF refl at bnd, of lo hi "troot ?v" 0] D by simp
  have "butlast (inorder R) = inorder t" using R by simp
  then have ct: "range_kv lo hi (contents_ct s) = hits ?k (tval ?v) lo hi (inorder t)"
    using contents_t_live(1) [OF live] by (simp add: hits_def pairs_t_def)
  show thesis
  proof (cases "NO_KEY_ct s < lo")
    case True
    then have e: "p = troot ?v" "d = 1" "T = Leaf" using D hi by (simp_all add: R st(3) del: view_sel)
    have "hits ?k (tval ?v) lo hi (inorder t) = []" by (rule hits_outside) (use st(2) True in \<open>fastforce simp del: view_sel\<close>)
    then show thesis using run ct o(7) tt(2) unfolding e by (intro that [of "troot ?v" 1 Leaf]) simp_all
  next
    case False
    then have "descend_t ?k lo hi (troot ?v) 0 t = (p, d, T)" using D hi by (simp add: R st(3) del: view_sel)
    note sp = descend_t_spec [OF this st(1), of "tval ?v" "tchild ?v"]
    show thesis
    proof (rule that [OF run])
      show "range_kv lo hi (contents_ct s) = hits ?k (tval ?v) lo hi (inorder T)" using ct sp by simp
      show "set_tree T \<subseteq> set_tree R" "\<forall>a\<in>set_tree T. ?k a < NO_KEY_ct s" using sp st(2) R by auto
      show "height T \<le> height R" using sp R by simp
      show "tree_at (tchild ?v) (tchild ?v p d) T" using sp tt(1) by blast
      show "T = Leaf \<or> (\<exists>l a r. T = Node l a r \<and> lo \<le> ?k a \<and> ?k a \<le> hi)"
        "ksorted ?k (inorder T)" "distinct (inorder T)" using sp by blast+
      have "(p, d) = (troot ?v, 0) \<or> p \<in> set_tree t \<and> d < 2" using sp by blast
      then show "p \<in> set_tree R" "d < 2" using R by auto
    qed
  qed
qed

text \<open>
  C27: A range query run without interference returns exactly the pairs of the dictionary
  whose keys lie in the range, each once, in the order of the depth-first search; no node is
  written and the announcement is withdrawn. The stack of the search holds 256 pointers,
  which is enough while the tree is no deeper than that.
\<close>

theorem rangeQuery_ct_correct:
  assumes "wf_ct base s" "hi < NO_KEY_ct s" "height (tree_ct s) \<le> BLOCK_SIZE"
  shows "\<exists>s' res. rangeQuery_ct s tid lo hi = Inr (s', res) \<and> mset res = mset (range_kv lo hi (contents_ct s))
    \<and> updates_ct base s (contents_ct s) s' \<and> heap_ct s' = heap_ct s \<and> quiescent_ct s' tid
    \<and> rq_lin_time (rq_ct s') tid = BUNDLE_NULL_TIMESTAMP"
proof -
  let ?s = "leaveQuiescentState_ct s tid" let ?v = "view_ct s" let ?t = "curr_timestamp (rq_ct s)"
  obtain rt rc R where w: "root_ct s = Some rt" "rt < length (heap_ct s)" "fchild (fields_ct (heap_ct s)) rt 0 = Some rc"
    "troot ?v = rc" "live_t ?v R" by (rule wf_ctE [OF assms(1)])
  have H: "height R \<le> BLOCK_SIZE" using assms(3) tree_ct_live [OF w(5)] by simp
  note l = live_tD [OF w(5)] and now = live_snap [OF w(5)]
  obtain p d T where e: "rq_descend_ct (Suc (length (heap_ct s))) (heap_ct s) lo hi (Some (troot ?v)) (Some (troot ?v)) 0 = Inr (Some p, d)"
    "p \<in> set_tree R" "d < 2" "tree_at (tchild ?v) (tchild ?v p d) T"
    "T = Leaf \<or> (\<exists>l a r. T = Node l a r \<and> lo \<le> tkey ?v a \<and> tkey ?v a \<le> hi)"
    "set_tree T \<subseteq> set_tree R" "ksorted (tkey ?v) (inorder T)" "distinct (inorder T)" "height T \<le> height R"
    "\<forall>a\<in>set_tree T. tkey ?v a < NO_KEY_ct s" "range_kv lo hi (contents_ct s) = hits (tkey ?v) (tval ?v) lo hi (inorder T)"
    by (rule rq_entry [OF assms(1) w(5) assms(2)])
  have at: "at_time ?v ?t a b = tchild ?v a b" if "a \<in> set_tree R" "b < 2" for a b
    using read_at_newest [OF l(4) [OF that], of "tnow ?v"] l(5) [OF that] l(7) [of a b] by (simp add: at_time_def succ_of_def)
  have "tree_at (at_time ?v ?t) (at_time ?v ?t p d) T"
    unfolding at [OF e(2,3)] by (rule tree_at_cong [OF e(4)]) (use at e(6) in blast)
  then obtain s' res where "rq_phases_ct ?s tid (Some p) d lo hi = Inr (s', res)" "updates_ct base ?s (contents_ct ?s) s'"
    "heap_ct s' = heap_ct ?s" "quiescent_ct s' tid" "rq_lin_time (rq_ct s') tid = BUNDLE_NULL_TIMESTAMP"
    "mset res = mset (hits (tkey ?v) (tval ?v) lo hi (inorder T))"
    using rq_phases_ct_snapshot [of base ?s ?t R p d T lo hi tid] assms(1) now e H by auto
  then show ?thesis using e(1,11) w childof_run [OF refl, of rt "heap_ct s" 0]
    by (simp add: rangeQuery_ct_def Let_def updates_ct_def del: rq_descend_ct.simps fields_sel(3))
qed

theorem rangeQuery_ct_correct_witness:
  "\<exists>s' res. rangeQuery_ct example_ct 0 6 50 = Inr (s', res) \<and> mset res = {#(10, 101), (20, 201)#}"
proof -
  have "height (tree_ct example_ct) \<le> BLOCK_SIZE" by (simp add: tree_ct_live [OF example_ct_live] BLOCK_SIZE_def)
  from rangeQuery_ct_correct [OF example_ct_wf _ this, of 50 0 6] show ?thesis
    by (auto simp: example_ct_sel example_ct_contents range_kv_def)
qed

text \<open>
  C28: The cleaner keeps the tree, its dictionary and every snapshot from the time of the oldest
  announced query on, in particular the snapshots of all announced queries, and hands nothing
  to the reclaimer; it needs a tree that is no deeper than its stack.
\<close>

theorem cleanup_ct_safe:
  assumes "wf_ct base s" "get_oldest_active_rq (rq_ct s) = Inr t" "height (tree_ct s) \<le> BLOCK_SIZE"
  shows "\<exists>s'. cleanup_ct s tid = Inr s' \<and> wf_ct (max base t) s' \<and> contents_ct s' = contents_ct s
    \<and> rq_ct s' = rq_ct s \<and> retired_ct s' = retired_ct s \<and> quiescent_ct s' tid
    \<and> (\<forall>u. max base t \<le> u \<and> u \<le> curr_timestamp (rq_ct s) \<longrightarrow> snapshot_ct s' u = snapshot_ct s u)
    \<and> (\<forall>i<num_processes (rq_ct s). base \<le> rq_lin_time (rq_ct s) i \<and> rq_lin_time (rq_ct s) i \<le> curr_timestamp (rq_ct s)
         \<longrightarrow> snapshot_ct s' (rq_lin_time (rq_ct s) i) = snapshot_ct s (rq_lin_time (rq_ct s) i))"
proof -
  obtain R where R: "live_t (view_ct s) R" by (rule wf_ctE [OF assms(1)])
  have H: "height R \<le> BLOCK_SIZE" using assms(3) tree_ct_live [OF R] by simp
  obtain s' where s': "cleanup_ct s tid = Inr s'" "wf_ct (max base t) s'" "reclaimed_t t (view_ct s) (view_ct s')"
    "rq_ct s' = rq_ct s" "retired_ct s' = retired_ct s" "quiescent_ct s' tid"
    using cleanup_ct_step [OF assms(1,2) R H, of tid] by (elim exE conjE)
  have o: "t \<le> tnow (view_ct s)" "\<And>i. i < num_processes (rq_ct s) \<Longrightarrow> rq_lin_time (rq_ct s) i \<noteq> BUNDLE_NULL_TIMESTAMP
      \<Longrightarrow> t \<le> rq_lin_time (rq_ct s) i"
    using assms(2) oldest_scan_sound [of "rq_ct s"] by (auto simp: get_oldest_active_rq_def)
  note r = reclaimed_steps [OF wf_ctD(5) [OF assms(1)] s'(3) o(1)]
  have snap: "snapshot_ct s' u = snapshot_ct s u" if "max base t \<le> u" "u \<le> curr_timestamp (rq_ct s)" for u
    using r(3) [OF that(1)] that(2) by simp
  have "snapshot_ct s' (rq_lin_time (rq_ct s) i) = snapshot_ct s (rq_lin_time (rq_ct s) i)"
    if i: "i < num_processes (rq_ct s)" "base \<le> rq_lin_time (rq_ct s) i" "rq_lin_time (rq_ct s) i \<le> curr_timestamp (rq_ct s)" for i
  proof -
    have "rq_lin_time (rq_ct s) i \<noteq> BUNDLE_NULL_TIMESTAMP" using i(2) wf_ctD(6) [OF assms(1)] by (auto simp: timestamp_defs)
    then show ?thesis using snap i(2,3) o(2) [OF i(1)] by simp
  qed
  then show ?thesis using s' r(2) snap by blast
qed

theorem cleanup_ct_safe_witness:
  "\<exists>s'. cleanup_ct example_ct 0 = Inr s' \<and> wf_ct 5 s' \<and> contents_ct s' = [(5, 51), (10, 101), (20, 201)]"
proof -
  have "get_oldest_active_rq (rq_ct example_ct) = Inr 5"
    by (simp add: get_oldest_active_rq_def example_ct_sel) (simp add: example_ct_def timestamp_defs upt_rec)
  moreover have "height (tree_ct example_ct) \<le> BLOCK_SIZE" by (simp add: tree_ct_live [OF example_ct_live] BLOCK_SIZE_def)
  ultimately show ?thesis using cleanup_ct_safe [OF example_ct_wf, of 5 0] by (auto simp: example_ct_contents)
qed

section \<open>Two errors of the range query\<close>

lemmas run_ct = insertIfAbsent_ct_def insert_search_ct_def SEARCH_ct_def leaveQuiescentState_ct_def
  enterQuiescentState_ct_def rcu_lock_ct_def rcu_unlock_ct_def insert_locked_ct_def Let_def lock_node_ct_def
  unlock_node_ct_def acquireLock_def releaseLock_def newNode_ct_def validate_ct_def childof_ct_def keyof_ct_def
  deref_Some update_at_def set_child_ct_def upd_bundle_ct_def linearize_update_at_write_def get_update_lin_time_def
  getNextTS_def getNextTS_env_def fetch_add_ts_def clamp_backoff_def prepare_def finalize_def timestamp_defs
  ll_wrap_def init_bundle_def BundleEntry_def erase_locked_ct_def erase_bypass_ct_def set_marked_ct_def
  bump_tag_ct_def erase_replace_ct_def physical_deletion_succeeded_def

lemmas query_ct = rq_phases_ct_def start_traversal_def announce_def end_traversal_def follow_def bundleof_ct_def
  getPtrByTimestamp_def

lemmas dfs_ct = require_def push_b_def pop_b_def isEmpty_b_def new_stack_def BLOCK_SIZE_def traversal_try_add_eq
  RQ_DEBUGGING_MAX_KEYS_PER_NODE_def getKeys_ct_def isInRange_ct_def

lemmas contents_run = contents_t_def pairs_t_def view_ct_def root_child_def range_kv_def fields_ct_def

lemma quiet_init: "quiet_u n init_u"
  by (simp add: quiet_u_def init_u_def)

text \<open>
  C29: Phase 3 may miss a key that is in the tree all the time: it looks for the way down from
  the first node it finds in the bundles of \<open>pred\<close>, the parent of that node. Below the node 5 of the example
  hang 7, to its right 9, and to its left 8. Phase 1 of a query for the keys 7 and 8 ends at the
  right of 5; then 7 is erased; the snapshot is taken, 9 hangs there and is out of the range; the query
  reads the left bundle of 5 instead of that of 9 and returns nothing.
\<close>

theorem rangeQuery_ct_misses_counterexample:
  "obind (insertIfAbsent_ct 1 example_ct 1 7 71) (\<lambda>(s1, _). obind (insertIfAbsent_ct 1 s1 1 9 91) (\<lambda>(s2, _).
   obind (insertIfAbsent_ct 1 s2 1 8 81) (\<lambda>(s3, _).
   obind (rq_descend_ct 9 (heap_ct s3) 7 8 (Some 0) (Some 0) 0) (\<lambda>(pred, d). obind (erase_ct 1 s3 1 7) (\<lambda>(s4, _).
   obind (rq_phases_ct s4 0 pred d 7 8) (\<lambda>(_, result).
   Inr (range_kv 7 8 (contents_ct s3), pred, d, range_kv 7 8 (contents_ct s4), result)))))))
   = Inr ([(7, 71), (8, 81)], Some 3, 1, [(8, 81)], [])"
  apply (simp add: example_ct_def run_ct)
  apply (simp add: run_ct numeral_eq_Suc)
  apply (simp add: query_ct run_ct numeral_eq_Suc)
  apply (simp add: contents_run numeral_eq_Suc)
  done

text \<open>
  C30: A query may return a deleted key, and a key twice: \<open>erase\<close> of a node with two children
  takes its successor out of the tree without an entry in the bundles of the successor. Phase 1 of a query for the
  keys from 25 to 50 ends at the right of 20; then 10 is erased, which moves 20, and 30 is erased; the query that starts
  its snapshot afterwards reaches 30 through the stale bundle of the old node 20, and from there
  both bundles of 30 lead to the root child, so that 40 is collected twice.
\<close>

theorem rangeQuery_ct_stale_counterexample:
  "obind (insertIfAbsent_ct 1 example_ct 1 30 301) (\<lambda>(s1, _). obind (insertIfAbsent_ct 1 s1 1 40 401) (\<lambda>(s2, _).
   obind (rq_descend_ct 8 (heap_ct s2) 25 50 (Some 0) (Some 0) 0) (\<lambda>(pred, d).
   obind (erase_ct 1 s2 1 10) (\<lambda>(s3, _). obind (erase_ct 1 s3 1 30) (\<lambda>(s4, _).
   obind (rq_phases_ct s4 0 pred d 25 50) (\<lambda>(_, result).
   Inr (pred, d, range_kv 25 50 (contents_ct s4), result)))))))
   = Inr (Some 4, 1, [(40, 401)], [(30, 301), (40, 401), (40, 401)])"
  apply (simp add: example_ct_def run_ct)
  apply (simp add: run_ct numeral_eq_Suc)
  apply (simp add: synchronize_quiet read_section_quiet quiet_init run_ct numeral_eq_Suc)
  apply (simp add: query_ct run_ct numeral_eq_Suc)
  apply (simp add: dfs_ct query_ct run_ct numeral_eq_Suc)
  apply (simp add: contents_run numeral_eq_Suc)
  done

end
