(* ===== verification/Bit_Fields.thy ===== *)
theory Bit_Fields
  imports Main
begin

text \<open>
  Counters whose lowest bit is a flag: the writer bit of the reader-writer locks, the quiescent
  bit of an announced epoch.
\<close>

unbundle bit_operations_syntax

lemma bits_lock:
  fixes l :: int
  shows "l AND 1 = l mod 2" "l AND NOT 1 = l - l mod 2" "even l \<Longrightarrow> l OR 1 = l + 1"
proof -
  show "l AND 1 = l mod 2" by (simp add: and_one_eq)
  have "(l AND NOT b) + (l AND b) = (l AND NOT b) OR (l AND b)" for b
    by (rule disjunctive_add_eq_or) (auto intro: bit_eqI simp: bit_simps)
  moreover have "(l AND NOT b) OR (l AND b) = l" for b by (rule bit_eqI) (auto simp: bit_simps)
  ultimately have "(l AND NOT 1) + (l AND 1) = l" by metis
  then show "l AND NOT 1 = l - l mod 2" by (simp add: and_one_eq)
  show "even l \<Longrightarrow> l OR 1 = l + 1" by (simp add: or_one_eq)
qed

end
