(* ===== verification/Debra.thy ===== *)
theory Debra
  imports Bit_Fields Block_Bag
begin

text \<open>
  Epoch based reclamation, \<open>recordmgr/reclaimer_debra.h\<close>, with the pool and allocator of the
  benchmarks (\<open>recordmgr/pool_none.h\<close>, \<open>recordmgr/allocator_new_segregated.h\<close>): every thread announces the epoch it has read when
  it leaves its quiescent state, keeps what it retires in nine block bags, and frees a bag when it
  has announced six newer epochs. Threads are interleaved access by access on a sequentially consistent memory; a
  thread calls \<open>leaveQuiescentState\<close> and \<open>enterQuiescentState\<close> alternately and retires an object
  in between. There is one record type, and epochs do not overflow.
\<close>

section \<open>Freeing a bag\<close>

text \<open>The pointers that are passed to \<open>deallocate\<close>, in order; with fuel.\<close>

fun deallocateAndClear :: "nat \<Rightarrow> 'a bag \<Rightarrow> 'a pool \<Rightarrow> ('a list \<times> 'a bag \<times> 'a pool) res" where
  "deallocateAndClear 0 g p = Inl Timeout"
| "deallocateAndClear (Suc n) g p = obind (isEmpty_g g) (\<lambda>e.
     if e then Inr ([], g, p)
     else obind (remove_g g p) (\<lambda>(x, g', p'). obind (deallocateAndClear n g' p') (\<lambda>(xs, g'', p'').
       Inr (x # xs, g'', p''))))"

definition addMoveFullBlocks :: "'a bag \<Rightarrow> 'a pool \<Rightarrow> ('a list \<times> 'a bag \<times> 'a pool) res" where
  "addMoveFullBlocks g p = deallocateAndClear (Suc (computeSize_g g)) g p"

lemma computeSize_items: "computeSize_g g = size (items_g g)"
  by (simp add: computeSize_g_def computeSize_b_def [abs_def] items_g_def comp_def length_concat)

lemma deallocateAndClear_ok:
  assumes "bag_ok g" "apart (chain_g g @ X) p" "size (items_g g) < n"
  shows "\<exists>xs g' p'. deallocateAndClear n g p = Inr (xs, g', p') \<and> mset xs = items_g g \<and> items_g g' = {#}
    \<and> bag_ok g' \<and> apart (chain_g g' @ X) p'"
  using assms
proof (induction n arbitrary: g p)
  case (Suc n)
  note e = isEmpty_g_ok [OF Suc.prems(1)]
  show ?case
  proof (cases "items_g g = {#}")
    case True
    then show ?thesis using e Suc.prems by simp
  next
    case False
    obtain x g1 p1 where r: "remove_g g p = Inr (x, g1, p1)" "bag_ok g1" "apart (chain_g g1 @ X) p1"
      "items_g g = add_mset x (items_g g1)"
      using remove_g_ok [OF Suc.prems(1,2) False] by blast
    have sz: "size (items_g g1) < n" using Suc.prems(3) r(4) by simp
    obtain xs g' p' where "deallocateAndClear n g1 p1 = Inr (xs, g', p')" "mset xs = items_g g1" "items_g g' = {#}"
      "bag_ok g'" "apart (chain_g g' @ X) p'"
      using Suc.IH [OF r(2,3) sz] by blast
    then show ?thesis using e False r(1,4) by simp
  qed
qed simp

section \<open>The operations of one thread\<close>

definition EPOCH_INCREMENT :: int where
  "EPOCH_INCREMENT = 2"

definition BITS_EPOCH :: "int \<Rightarrow> int" where
  "BITS_EPOCH ann = ann AND NOT (EPOCH_INCREMENT - 1)"

definition QUIESCENT :: "int \<Rightarrow> bool" where
  "QUIESCENT ann \<longleftrightarrow> ann AND 1 \<noteq> 0"

definition GET_WITH_QUIESCENT :: "int \<Rightarrow> int" where
  "GET_WITH_QUIESCENT ann = ann OR 1"

definition MIN_OPS_BEFORE_READ :: nat where
  "MIN_OPS_BEFORE_READ = 20"

definition NUMBER_OF_EPOCH_BAGS :: nat where
  "NUMBER_OF_EPOCH_BAGS = 9"

definition NUMBER_OF_ALWAYS_EMPTY_EPOCH_BAGS :: nat where
  "NUMBER_OF_ALWAYS_EMPTY_EPOCH_BAGS = 3"

text \<open>
  Where a thread is: quiescent; in \<open>leaveQuiescentState\<close> before the store of the epoch it has read, before
  the rotation of its bags, before the scan of one announcement, or before the compare-and-swap of
  the epoch; in its operation; or stopped by a fault. The flag is \<open>readOnly\<close>.
\<close>

datatype debra_pc = Quiescent_d | Announce_d int bool | Rotate_d int bool | Scan_d int bool | Cas_d int
  | Running_d | Fault_d fault

text \<open>
  \<open>currentBag\<close> is the bag at \<open>index\<close>. History variables: the epoch when the thread announced
  last, and what had been retired by then.
\<close>

record 'a thread_data =
  announcedEpoch :: int
  localvar_announcedEpoch :: int
  epochbags :: "'a bag list"
  index_td :: nat
  checked_td :: nat
  opsSinceRead :: nat
  blockpool_td :: "'a pool"
  pc_td :: debra_pc
  entered_td :: int
  view_td :: "'a set"

definition isQuiescent :: "'a thread_data \<Rightarrow> bool" where
  "isQuiescent td = QUIESCENT (announcedEpoch td)"

definition announce_d :: "int \<Rightarrow> bool \<Rightarrow> 'a thread_data \<Rightarrow> 'a thread_data" where
  "announce_d readEpoch readOnly td = (let ann = localvar_announcedEpoch td in
     td\<lparr>localvar_announcedEpoch := readEpoch, announcedEpoch := readEpoch,
       checked_td := (if readEpoch \<noteq> ann then 0 else checked_td td),
       pc_td := (if readEpoch \<noteq> ann then Rotate_d readEpoch readOnly else Scan_d readEpoch readOnly)\<rparr>)"

definition rotateEpochBags :: "'a thread_data \<Rightarrow> ('a list \<times> 'a thread_data) res" where
  "rotateEpochBags td = (let nextIndex = (index_td td + 1) mod NUMBER_OF_EPOCH_BAGS;
       f = (nextIndex + NUMBER_OF_ALWAYS_EMPTY_EPOCH_BAGS) mod NUMBER_OF_EPOCH_BAGS in
     obind (aref (epochbags td) f) (\<lambda>freeable.
     obind (addMoveFullBlocks freeable (blockpool_td td)) (\<lambda>(xs, g, p).
       Inr (xs, td\<lparr>epochbags := (epochbags td)[f := g], blockpool_td := p, index_td := nextIndex\<rparr>))))"

text \<open>The scan of one announcement; \<open>other\<close> is the announcement of the thread \<open>checked\<close> of \<open>n\<close> threads.\<close>

definition scan_d :: "nat \<Rightarrow> int \<Rightarrow> bool \<Rightarrow> int \<Rightarrow> 'a thread_data \<Rightarrow> 'a thread_data" where
  "scan_d n readEpoch readOnly otherAnnounce td =
     (if readOnly then td\<lparr>pc_td := Running_d\<rparr>
      else (let ops = opsSinceRead td + 1 in
        if ops \<noteq> MIN_OPS_BEFORE_READ then td\<lparr>opsSinceRead := ops, pc_td := Running_d\<rparr>
        else if checked_td td \<ge> n then td\<lparr>opsSinceRead := 0, pc_td := Fault_d OutOfBounds\<rparr>
        else if BITS_EPOCH otherAnnounce = readEpoch \<or> QUIESCENT otherAnnounce
        then (let c = checked_td td + 1 in td\<lparr>opsSinceRead := 0, checked_td := c,
                pc_td := (if c \<ge> n then Cas_d readEpoch else Running_d)\<rparr>)
        else td\<lparr>opsSinceRead := 0, pc_td := Running_d\<rparr>))"

definition enterQuiescentState_d :: "'a thread_data \<Rightarrow> 'a thread_data" where
  "enterQuiescentState_d td =
     td\<lparr>announcedEpoch := GET_WITH_QUIESCENT (localvar_announcedEpoch td), pc_td := Quiescent_d\<rparr>"

definition retire_d :: "(nat \<Rightarrow> 'a) \<Rightarrow> 'a \<Rightarrow> 'a thread_data \<Rightarrow> 'a thread_data res" where
  "retire_d junk x td = obind (aref (epochbags td) (index_td td)) (\<lambda>currentBag.
     obind (add_g junk x currentBag (blockpool_td td)) (\<lambda>(g, p).
       Inr (td\<lparr>epochbags := (epochbags td)[index_td td := g], blockpool_td := p\<rparr>)))"

fun new_bags :: "nat \<Rightarrow> (nat \<Rightarrow> 'a) \<Rightarrow> int \<Rightarrow> 'a pool \<Rightarrow> 'a bag list \<times> 'a pool" where
  "new_bags 0 junk tid p = ([], p)"
| "new_bags (Suc k) junk tid p = (let (g, p1) = blockbag junk tid p; (gs, p2) = new_bags k junk tid p1 in (g # gs, p2))"

definition init_td :: "(nat \<Rightarrow> 'a) \<Rightarrow> nat \<Rightarrow> 'a thread_data" where
  "init_td junk tid = (let (gs, p) = new_bags NUMBER_OF_EPOCH_BAGS junk (int tid) (blockpool 0) in
     \<lparr>announcedEpoch = GET_WITH_QUIESCENT 0, localvar_announcedEpoch = GET_WITH_QUIESCENT 0, epochbags = gs,
      index_td = 0, checked_td = 0, opsSinceRead = 0, blockpool_td = p, pc_td = Quiescent_d,
      entered_td = 0, view_td = {}\<rparr>)"

section \<open>All threads\<close>

text \<open>History variables: what has been freed and retired, and the epoch when it was retired.\<close>

record 'a debra =
  epoch_d :: int
  threadData :: "nat \<Rightarrow> 'a thread_data"
  freed_d :: "'a list"
  retired_d :: "'a set"
  when_d :: "'a \<Rightarrow> int"

definition reclaimer_debra :: "(nat \<Rightarrow> 'a) \<Rightarrow> 'a debra" where
  "reclaimer_debra junk = \<lparr>epoch_d = 0, threadData = init_td junk, freed_d = [], retired_d = {}, when_d = (\<lambda>_. 0)\<rparr>"

definition set_td :: "nat \<Rightarrow> 'a thread_data \<Rightarrow> 'a debra \<Rightarrow> 'a debra" where
  "set_td tid td s = s\<lparr>threadData := (threadData s)(tid := td)\<rparr>"

abbreviation pc_of :: "'a debra \<Rightarrow> nat \<Rightarrow> debra_pc" where
  "pc_of s tid \<equiv> pc_td (threadData s tid)"

inductive debra_step :: "nat \<Rightarrow> 'a debra \<Rightarrow> 'a debra \<Rightarrow> bool" for n where
  leave: "tid < n \<Longrightarrow> pc_of s tid = Quiescent_d \<Longrightarrow>
    debra_step n s (set_td tid ((threadData s tid)\<lparr>pc_td := Announce_d (epoch_d s) ro\<rparr>) s)"
| announce: "tid < n \<Longrightarrow> pc_of s tid = Announce_d r ro \<Longrightarrow>
    debra_step n s (set_td tid ((announce_d r ro (threadData s tid))\<lparr>entered_td := epoch_d s, view_td := retired_d s\<rparr>) s)"
| rotate: "tid < n \<Longrightarrow> pc_of s tid = Rotate_d r ro \<Longrightarrow> debra_step n s (case rotateEpochBags (threadData s tid) of
      Inl e \<Rightarrow> set_td tid ((threadData s tid)\<lparr>pc_td := Fault_d e\<rparr>) s
    | Inr (xs, td) \<Rightarrow> set_td tid (td\<lparr>pc_td := Scan_d r ro\<rparr>) (s\<lparr>freed_d := freed_d s @ xs\<rparr>))"
| scan: "tid < n \<Longrightarrow> pc_of s tid = Scan_d r ro \<Longrightarrow> debra_step n s (set_td tid
    (scan_d n r ro (announcedEpoch (threadData s (checked_td (threadData s tid)))) (threadData s tid)) s)"
| cas: "tid < n \<Longrightarrow> pc_of s tid = Cas_d r \<Longrightarrow> debra_step n s (set_td tid ((threadData s tid)\<lparr>pc_td := Running_d\<rparr>)
    (s\<lparr>epoch_d := (if epoch_d s = r then r + EPOCH_INCREMENT else epoch_d s)\<rparr>))"
| retire: "tid < n \<Longrightarrow> pc_of s tid = Running_d \<Longrightarrow> x \<notin> retired_d s \<Longrightarrow> debra_step n s
    (case retire_d junk x (threadData s tid) of
      Inl e \<Rightarrow> set_td tid ((threadData s tid)\<lparr>pc_td := Fault_d e\<rparr>) s
    | Inr td \<Rightarrow> set_td tid td (s\<lparr>retired_d := insert x (retired_d s), when_d := (when_d s)(x := epoch_d s)\<rparr>))"
| enter: "tid < n \<Longrightarrow> pc_of s tid = Running_d \<Longrightarrow>
    debra_step n s (set_td tid (enterQuiescentState_d (threadData s tid)) s)"

text \<open>The thread is in an operation: it has announced and may hold pointers to what was not retired by then.\<close>

definition in_op :: "'a thread_data \<Rightarrow> bool" where
  "in_op td \<longleftrightarrow> (case pc_td td of Quiescent_d \<Rightarrow> False | Announce_d r ro \<Rightarrow> False | _ \<Rightarrow> True)"

section \<open>The invariant\<close>

text \<open>The bags of one thread are well formed and share its block pool.\<close>

definition bags_ok :: "'a thread_data \<Rightarrow> bool" where
  "bags_ok td \<longleftrightarrow> length (epochbags td) = NUMBER_OF_EPOCH_BAGS \<and> index_td td < NUMBER_OF_EPOCH_BAGS
     \<and> (\<forall>g\<in>set (epochbags td). bag_ok g) \<and> apart (concat (map chain_g (epochbags td))) (blockpool_td td)"

text \<open>How many rotations ago a bag was the current one.\<close>

definition age :: "'a thread_data \<Rightarrow> nat \<Rightarrow> nat" where
  "age td i = (index_td td + NUMBER_OF_EPOCH_BAGS - i) mod NUMBER_OF_EPOCH_BAGS"

text \<open>
  What lies in the bags was retired at an epoch that the announcements since have left behind, by
  two for each rotation but one.
\<close>

definition items_ok :: "int \<Rightarrow> 'a set \<Rightarrow> ('a \<Rightarrow> int) \<Rightarrow> 'a thread_data \<Rightarrow> bool" where
  "items_ok e R W td \<longleftrightarrow> (\<forall>i<NUMBER_OF_EPOCH_BAGS. \<forall>x\<in>#items_g (epochbags td ! i).
     x \<in> R \<and> W x \<le> e \<and> age td i \<le> 5 \<and> localvar_announcedEpoch td \<noteq> 1
     \<and> (age td i \<noteq> 0 \<longrightarrow> W x + 2 * int (age td i) \<le> localvar_announcedEpoch td + 2)
     \<and> (case pc_td td of Announce_d r ro \<Rightarrow> W x \<le> r
        | Rotate_d r ro \<Rightarrow> W x + 2 * int (age td i) \<le> localvar_announcedEpoch td | _ \<Rightarrow> True))"

definition local_ok :: "nat \<Rightarrow> int \<Rightarrow> 'a set \<Rightarrow> ('a \<Rightarrow> int) \<Rightarrow> 'a thread_data \<Rightarrow> bool" where
  "local_ok n e R W td \<longleftrightarrow>
     (localvar_announcedEpoch td \<noteq> 1 \<longrightarrow> even (localvar_announcedEpoch td) \<and> localvar_announcedEpoch td \<le> e)
   \<and> (localvar_announcedEpoch td = 1 \<longrightarrow> checked_td td = 0)
   \<and> checked_td td \<le> n \<and> (checked_td td = n \<longrightarrow> pc_td td = Cas_d (localvar_announcedEpoch td) \<or> localvar_announcedEpoch td < e)
   \<and> (case pc_td td of
        Announce_d r ro \<Rightarrow> even r \<and> r \<le> e \<and> (localvar_announcedEpoch td \<noteq> 1 \<longrightarrow> localvar_announcedEpoch td \<le> r)
          \<and> (checked_td td = n \<longrightarrow> localvar_announcedEpoch td \<noteq> r)
      | Rotate_d r ro \<Rightarrow> r = localvar_announcedEpoch td \<and> checked_td td < n
      | Scan_d r ro \<Rightarrow> r = localvar_announcedEpoch td \<and> checked_td td < n
      | Cas_d r \<Rightarrow> r = localvar_announcedEpoch td \<and> checked_td td = n
      | Fault_d f \<Rightarrow> False | _ \<Rightarrow> True)
   \<and> (if in_op td then announcedEpoch td = localvar_announcedEpoch td \<and> localvar_announcedEpoch td \<noteq> 1
        \<and> localvar_announcedEpoch td \<le> entered_td td
        \<and> entered_td td \<le> e \<and> e \<le> entered_td td + 2 \<and> (\<forall>x\<in>R - view_td td. entered_td td \<le> W x)
      else odd (announcedEpoch td))"

definition debra_inv :: "nat \<Rightarrow> 'a debra \<Rightarrow> bool" where
  "debra_inv n s \<longleftrightarrow> even (epoch_d s)
     \<and> (\<forall>p<n. bags_ok (threadData s p) \<and> items_ok (epoch_d s) (retired_d s) (when_d s) (threadData s p)
          \<and> local_ok n (epoch_d s) (retired_d s) (when_d s) (threadData s p))
     \<and> (\<forall>p<n. \<forall>q<checked_td (threadData s p). in_op (threadData s q) \<longrightarrow>
          localvar_announcedEpoch (threadData s p) \<le> entered_td (threadData s q))
     \<and> (\<forall>q<n. in_op (threadData s q) \<longrightarrow> set (freed_d s) \<subseteq> view_td (threadData s q)) \<and> set (freed_d s) \<subseteq> retired_d s"

lemma items_epoch: "items_ok e R W td \<Longrightarrow> e \<le> e' \<Longrightarrow> items_ok e' R W td"
  by (fastforce simp: items_ok_def)

lemma items_retire:
  assumes "items_ok e R W td" "x \<notin> R"
  shows "items_ok e (insert x R) (W(x := e)) td"
  unfolding items_ok_def
proof (intro allI impI ballI)
  fix i y
  assume "i < NUMBER_OF_EPOCH_BAGS" "y \<in># items_g (epochbags td ! i)"
  note i = assms(1) [unfolded items_ok_def, rule_format, OF this]
  then have "y \<noteq> x" using assms(2) by blast
  then show "y \<in> insert x R \<and> (W(x := e)) y \<le> e \<and> age td i \<le> 5 \<and> localvar_announcedEpoch td \<noteq> 1
     \<and> (age td i \<noteq> 0 \<longrightarrow> (W(x := e)) y + 2 * int (age td i) \<le> localvar_announcedEpoch td + 2)
     \<and> (case pc_td td of Announce_d r ro \<Rightarrow> (W(x := e)) y \<le> r
        | Rotate_d r ro \<Rightarrow> (W(x := e)) y + 2 * int (age td i) \<le> localvar_announcedEpoch td | _ \<Rightarrow> True)"
    using i unfolding fun_upd_other [OF \<open>y \<noteq> x\<close>] by blast
qed

lemma local_epoch: "local_ok n e R W td \<Longrightarrow> e \<le> e' \<Longrightarrow> (in_op td \<Longrightarrow> e' \<le> entered_td td + 2) \<Longrightarrow> local_ok n e' R W td"
  unfolding local_ok_def by (auto split: debra_pc.splits)

lemma local_retire: "local_ok n e R W td \<Longrightarrow> x \<notin> R \<Longrightarrow> local_ok n e (insert x R) (W(x := e)) td"
  unfolding local_ok_def by (auto split: debra_pc.splits)

lemma debra_invD:
  assumes "debra_inv n s"
  shows "even (epoch_d s)" "p < n \<Longrightarrow> bags_ok (threadData s p)"
    "p < n \<Longrightarrow> items_ok (epoch_d s) (retired_d s) (when_d s) (threadData s p)"
    "p < n \<Longrightarrow> local_ok n (epoch_d s) (retired_d s) (when_d s) (threadData s p)"
    "p < n \<Longrightarrow> q < checked_td (threadData s p) \<Longrightarrow> in_op (threadData s q) \<Longrightarrow>
      localvar_announcedEpoch (threadData s p) \<le> entered_td (threadData s q)"
    "q < n \<Longrightarrow> in_op (threadData s q) \<Longrightarrow> set (freed_d s) \<subseteq> view_td (threadData s q)" "set (freed_d s) \<subseteq> retired_d s"
  using assms unfolding debra_inv_def by blast+

lemma inv_set:
  assumes tid: "tid < n" and T: "threadData s' = threadData s" and ev: "even (epoch_d s')"
    and oth: "\<And>p. p < n \<Longrightarrow> p \<noteq> tid \<Longrightarrow> bags_ok (threadData s p)
      \<and> items_ok (epoch_d s') (retired_d s') (when_d s') (threadData s p) \<and> local_ok n (epoch_d s') (retired_d s') (when_d s') (threadData s p)"
    and me: "bags_ok td" "items_ok (epoch_d s') (retired_d s') (when_d s') td" "local_ok n (epoch_d s') (retired_d s') (when_d s') td"
    and pairs: "\<And>p q. p < n \<Longrightarrow> p \<noteq> tid \<Longrightarrow> q \<noteq> tid \<Longrightarrow> q < checked_td (threadData s p) \<Longrightarrow> in_op (threadData s q) \<Longrightarrow>
      localvar_announcedEpoch (threadData s p) \<le> entered_td (threadData s q)"
    and mine: "\<And>q. q < checked_td td \<Longrightarrow> q \<noteq> tid \<Longrightarrow> in_op (threadData s q) \<Longrightarrow> localvar_announcedEpoch td \<le> entered_td (threadData s q)"
    and yours: "\<And>p. p < n \<Longrightarrow> p \<noteq> tid \<Longrightarrow> tid < checked_td (threadData s p) \<Longrightarrow> in_op td \<Longrightarrow>
      localvar_announcedEpoch (threadData s p) \<le> entered_td td"
    and fr: "set (freed_d s') \<subseteq> retired_d s'" "in_op td \<Longrightarrow> set (freed_d s') \<subseteq> view_td td"
      "\<And>q. q < n \<Longrightarrow> q \<noteq> tid \<Longrightarrow> in_op (threadData s q) \<Longrightarrow> set (freed_d s') \<subseteq> view_td (threadData s q)"
  shows "debra_inv n (set_td tid td s')"
proof -
  have own: "localvar_announcedEpoch td \<le> entered_td td" if "in_op td" using me(3) that by (simp add: local_ok_def)
  have T': "threadData (set_td tid td s') = (threadData s)(tid := td)" by (simp add: set_td_def T)
  have g: "epoch_d (set_td tid td s') = epoch_d s'" "retired_d (set_td tid td s') = retired_d s'"
    "when_d (set_td tid td s') = when_d s'" "freed_d (set_td tid td s') = freed_d s'" by (simp_all add: set_td_def)
  have "localvar_announcedEpoch (((threadData s)(tid := td)) p) \<le> entered_td (((threadData s)(tid := td)) q)"
    if "p < n" "q < checked_td (((threadData s)(tid := td)) p)" "in_op (((threadData s)(tid := td)) q)" for p q
    using that own pairs mine yours by (cases "p = tid"; cases "q = tid") simp_all
  then show ?thesis unfolding debra_inv_def T' g using ev oth me fr by simp
qed

text \<open>Replacing one bag and the pool.\<close>

lemma bags_replace:
  assumes "bags_ok td" "i < NUMBER_OF_EPOCH_BAGS"
  obtains X where "bag_ok (epochbags td ! i)" "apart (chain_g (epochbags td ! i) @ X) (blockpool_td td)"
    "\<And>g p. bag_ok g \<Longrightarrow> apart (chain_g g @ X) p \<Longrightarrow> bags_ok (td\<lparr>epochbags := (epochbags td)[i := g], blockpool_td := p\<rparr>)"
proof -
  let ?bs = "epochbags td"
  let ?A = "concat (map chain_g (take i ?bs))" let ?B = "concat (map chain_g (drop (Suc i) ?bs))"
  have i: "i < length ?bs" "length ?bs = NUMBER_OF_EPOCH_BAGS" and ok: "\<forall>g\<in>set ?bs. bag_ok g" using assms by (simp_all add: bags_ok_def)
  have swap: "apart (as @ bs @ cs) p = apart (bs @ as @ cs) p" for as bs cs :: "'a block list" and p by (auto simp: apart_def)
  have c: "concat (map chain_g (?bs[i := g])) = ?A @ chain_g g @ ?B" for g
    using i(1) by (simp add: upd_conv_take_nth_drop)
  have "apart (?A @ chain_g (?bs ! i) @ ?B) (blockpool_td td)"
    using assms(1) c [of "?bs ! i"] by (simp add: bags_ok_def)
  then have "apart (chain_g (?bs ! i) @ ?A @ ?B) (blockpool_td td)" by (simp only: swap)
  moreover have "bags_ok (td\<lparr>epochbags := ?bs[i := g], blockpool_td := p\<rparr>)" if g: "bag_ok g" "apart (chain_g g @ ?A @ ?B) p" for g p
  proof -
    have "apart (?A @ chain_g g @ ?B) p" using g(2) by (simp only: swap)
    moreover have "\<forall>b\<in>set (?bs[i := g]). bag_ok b" using ok g(1) set_update_subset_insert [of ?bs i g] by blast
    ultimately show ?thesis using assms(1) by (simp add: bags_ok_def c)
  qed
  moreover have "bag_ok (?bs ! i)" using ok i(1) by simp
  ultimately show ?thesis using that by blast
qed

lemma retire_ok:
  assumes "bags_ok td"
  shows "\<exists>g p. retire_d junk x td = Inr (td\<lparr>epochbags := (epochbags td)[index_td td := g], blockpool_td := p\<rparr>)
    \<and> bags_ok (td\<lparr>epochbags := (epochbags td)[index_td td := g], blockpool_td := p\<rparr>)
    \<and> items_g g = add_mset x (items_g (epochbags td ! index_td td))"
proof -
  have i: "index_td td < NUMBER_OF_EPOCH_BAGS" "index_td td < length (epochbags td)" using assms by (simp_all add: bags_ok_def)
  obtain X where X: "bag_ok (epochbags td ! index_td td)" "apart (chain_g (epochbags td ! index_td td) @ X) (blockpool_td td)"
    "\<And>g p. bag_ok g \<Longrightarrow> apart (chain_g g @ X) p \<Longrightarrow> bags_ok (td\<lparr>epochbags := (epochbags td)[index_td td := g], blockpool_td := p\<rparr>)"
    using bags_replace [OF assms i(1)] by blast
  obtain g p where g: "add_g junk x (epochbags td ! index_td td) (blockpool_td td) = Inr (g, p)" "bag_ok g"
    "apart (chain_g g @ X) p" "items_g g = add_mset x (items_g (epochbags td ! index_td td))"
    using add_g_ok [OF X(1,2), of junk x] by blast
  show ?thesis
    by (intro exI [of _ g] exI [of _ p]) (use g X(3) [OF g(2,3)] i(2) in \<open>simp add: retire_d_def aref_in\<close>)
qed

lemma rotate_ok:
  assumes "bags_ok td"
  shows "\<exists>xs g p td'. rotateEpochBags td = Inr (xs, td') \<and> bags_ok td'
    \<and> td' = td\<lparr>epochbags := (epochbags td)[(index_td td + 4) mod 9 := g], blockpool_td := p, index_td := (index_td td + 1) mod 9\<rparr>
    \<and> items_g g = {#} \<and> mset xs = items_g (epochbags td ! ((index_td td + 4) mod 9))"
proof -
  let ?f = "(index_td td + 4) mod 9"
  have N: "NUMBER_OF_EPOCH_BAGS = 9" "(Suc (index_td td) mod 9 + 3) mod 9 = ?f"
    by (simp_all add: NUMBER_OF_EPOCH_BAGS_def mod_simps ac_simps)
  have i: "?f < NUMBER_OF_EPOCH_BAGS" "?f < length (epochbags td)" using assms by (simp_all add: bags_ok_def N)
  obtain X where X: "bag_ok (epochbags td ! ?f)" "apart (chain_g (epochbags td ! ?f) @ X) (blockpool_td td)"
    "\<And>g p. bag_ok g \<Longrightarrow> apart (chain_g g @ X) p \<Longrightarrow> bags_ok (td\<lparr>epochbags := (epochbags td)[?f := g], blockpool_td := p\<rparr>)"
    using bags_replace [OF assms i(1)] by blast
  obtain xs g p where d: "addMoveFullBlocks (epochbags td ! ?f) (blockpool_td td) = Inr (xs, g, p)"
    "mset xs = items_g (epochbags td ! ?f)" "items_g g = {#}" "bag_ok g" "apart (chain_g g @ X) p"
    using deallocateAndClear_ok [OF X(1,2), of "Suc (computeSize_g (epochbags td ! ?f))"]
    by (auto simp: addMoveFullBlocks_def computeSize_items)
  let ?td = "td\<lparr>epochbags := (epochbags td)[?f := g], blockpool_td := p, index_td := (index_td td + 1) mod 9\<rparr>"
  have "bags_ok ?td" using X(3) [OF d(4,5)] by (simp add: bags_ok_def N)
  moreover have "rotateEpochBags td = Inr (xs, ?td)"
    using d(1) i(2) by (simp add: rotateEpochBags_def Let_def N NUMBER_OF_ALWAYS_EMPTY_EPOCH_BAGS_def aref_in)
  ultimately show ?thesis using d(2,3) by blast
qed

lemma age_current: "index_td td < 9 \<Longrightarrow> age td (index_td td) = 0"
  by (simp add: age_def NUMBER_OF_EPOCH_BAGS_def)

lemma age_cases:
  assumes "index_td td < 9" "i < 9"
  shows "age td i = (if i \<le> index_td td then index_td td - i else index_td td + 9 - i)"
proof (cases "i \<le> index_td td")
  case True
  then have "index_td td + 9 - i = (index_td td - i) + 9" by simp
  then have "age td i = (index_td td - i) mod 9" unfolding age_def NUMBER_OF_EPOCH_BAGS_def by (simp only: mod_add_self2)
  then show ?thesis using True assms by simp
qed (use assms in \<open>simp add: age_def NUMBER_OF_EPOCH_BAGS_def\<close>)

lemma age_rotate:
  assumes "index_td td < 9" "i < 9"
  shows "age (td\<lparr>index_td := (index_td td + 1) mod 9\<rparr>) i = (age td i + 1) mod 9" "age td i = 5 \<longleftrightarrow> i = (index_td td + 4) mod 9"
proof -
  let ?a = "index_td td"
  have s: "(?a + 1) mod 9 = (if ?a = 8 then 0 else ?a + 1)" using assms(1) by auto
  have "(?a + 4) mod 9 = (if ?a < 5 then ?a + 4 else ?a - 5)" using assms(1) by (simp add: mod_if)
  then show "age td i = 5 \<longleftrightarrow> i = (?a + 4) mod 9" using assms age_cases [OF assms] by auto
  have "age (td\<lparr>index_td := (?a + 1) mod 9\<rparr>) i = (if i \<le> (?a + 1) mod 9 then (?a + 1) mod 9 - i else (?a + 1) mod 9 + 9 - i)"
    using age_cases [of "td\<lparr>index_td := (?a + 1) mod 9\<rparr>" i] assms(2) by simp
  then show "age (td\<lparr>index_td := (?a + 1) mod 9\<rparr>) i = (age td i + 1) mod 9"
    using assms unfolding s age_cases [OF assms] by (auto simp: mod_if)
qed

section \<open>Every step keeps the invariant\<close>

lemma EPOCH_INCREMENT_even: "EPOCH_INCREMENT = 2"
  by (simp add: EPOCH_INCREMENT_def)

lemma ann_bits:
  "BITS_EPOCH a = a - a mod 2" "QUIESCENT a \<longleftrightarrow> odd a" "odd (GET_WITH_QUIESCENT a)"
proof -
  have "EPOCH_INCREMENT - 1 = 1" by (simp add: EPOCH_INCREMENT_def)
  then show "BITS_EPOCH a = a - a mod 2" by (simp only: BITS_EPOCH_def bits_lock)
  show "QUIESCENT a \<longleftrightarrow> odd a" by (auto simp: QUIESCENT_def bits_lock odd_iff_mod_2_eq_one)
  show "odd (GET_WITH_QUIESCENT a)" by (simp add: GET_WITH_QUIESCENT_def or_one_eq) 
qed

text \<open>A thread that only moves: its bags and the shared state stay.\<close>

lemma bags_move: "bags_ok td \<Longrightarrow> epochbags td' = epochbags td \<Longrightarrow> index_td td' = index_td td \<Longrightarrow>
    blockpool_td td' = blockpool_td td \<Longrightarrow> bags_ok td'"
  by (simp add: bags_ok_def)

lemma items_move:
  assumes "items_ok e R W td" "epochbags td' = epochbags td" "index_td td' = index_td td"
    "localvar_announcedEpoch td' = localvar_announcedEpoch td"
    "\<And>r ro. pc_td td' = Announce_d r ro \<Longrightarrow> e \<le> r" "\<And>r ro. pc_td td' \<noteq> Rotate_d r ro"
  shows "items_ok e R W td'"
  unfolding items_ok_def
proof (intro allI impI ballI)
  fix i x
  assume "i < NUMBER_OF_EPOCH_BAGS" "x \<in># items_g (epochbags td' ! i)"
  note i = assms(1) [unfolded items_ok_def, rule_format, OF this [unfolded assms(2)]]
  have a: "age td' i = age td i" by (simp add: age_def assms(3))
  show "x \<in> R \<and> W x \<le> e \<and> age td' i \<le> 5 \<and> localvar_announcedEpoch td' \<noteq> 1
     \<and> (age td' i \<noteq> 0 \<longrightarrow> W x + 2 * int (age td' i) \<le> localvar_announcedEpoch td' + 2)
     \<and> (case pc_td td' of Announce_d r ro \<Rightarrow> W x \<le> r
        | Rotate_d r ro \<Rightarrow> W x + 2 * int (age td' i) \<le> localvar_announcedEpoch td' | _ \<Rightarrow> True)"
    using i assms(4-6) unfolding a by (cases "pc_td td'") (auto intro: order_trans)
qed

lemma items_announce:
  assumes it: "items_ok e R W td" and pc: "pc_td td = Announce_d r ro" and lo: "local_ok n e R W td"
  shows "items_ok e R W ((announce_d r ro td)\<lparr>entered_td := e0, view_td := V\<rparr>)"
  unfolding items_ok_def
proof (intro allI impI ballI)
  let ?td = "(announce_d r ro td)\<lparr>entered_td := e0, view_td := V\<rparr>" and ?l = "localvar_announcedEpoch td"
  have f: "epochbags ?td = epochbags td" "age ?td i = age td i" "localvar_announcedEpoch ?td = r"
    "pc_td ?td = (if r \<noteq> ?l then Rotate_d r ro else Scan_d r ro)" for i by (simp_all add: announce_d_def age_def Let_def)
  fix i x
  assume "i < NUMBER_OF_EPOCH_BAGS" "x \<in># items_g (epochbags ?td ! i)"
  note i = it [unfolded items_ok_def, rule_format, OF this [unfolded f]]
  have r: "even r" "?l \<noteq> 1 \<longrightarrow> even ?l \<and> ?l \<le> r" using lo pc by (auto simp: local_ok_def)
  moreover have "?l \<noteq> 1" using i by blast
  ultimately have l: "r \<noteq> ?l \<Longrightarrow> ?l + 2 \<le> r" by presburger
  have "W x + 2 * int (age td i) \<le> r" if "r \<noteq> ?l" using l [OF that] i pc by (cases "age td i") auto
  moreover have "r \<noteq> 1" using r(1) by auto
  ultimately show "x \<in> R \<and> W x \<le> e \<and> age ?td i \<le> 5 \<and> localvar_announcedEpoch ?td \<noteq> 1
     \<and> (age ?td i \<noteq> 0 \<longrightarrow> W x + 2 * int (age ?td i) \<le> localvar_announcedEpoch ?td + 2)
     \<and> (case pc_td ?td of Announce_d r ro \<Rightarrow> W x \<le> r
        | Rotate_d r ro \<Rightarrow> W x + 2 * int (age ?td i) \<le> localvar_announcedEpoch ?td | _ \<Rightarrow> True)"
    using i unfolding f by (cases "r = ?l") auto
qed

lemma items_rotate:
  assumes it: "items_ok e R W td" and pc: "pc_td td = Rotate_d r ro" and b: "bags_ok td" and g: "items_g g = {#}"
  shows "items_ok e R W (td\<lparr>epochbags := (epochbags td)[(index_td td + 4) mod 9 := g], blockpool_td := p,
    index_td := (index_td td + 1) mod 9, pc_td := Scan_d r ro\<rparr>)" (is "items_ok e R W ?td")
  unfolding items_ok_def
proof (intro allI impI ballI)
  have ix: "index_td td < 9" "length (epochbags td) = 9" using b by (simp_all add: bags_ok_def NUMBER_OF_EPOCH_BAGS_def)
  fix i x
  assume i: "i < NUMBER_OF_EPOCH_BAGS" and x: "x \<in># items_g (epochbags ?td ! i)"
  then have i9: "i < 9" by (simp add: NUMBER_OF_EPOCH_BAGS_def)
  have "i \<noteq> (index_td td + 4) mod 9" using x g ix i9 by auto
  then have "age td i \<noteq> 5" and x': "x \<in># items_g (epochbags td ! i)" using age_rotate(2) [OF ix(1) i9] x by auto
  note h = it [unfolded items_ok_def, rule_format, OF i x']
  then have "age ?td i = age td i + 1" using age_rotate(1) [OF ix(1) i9] \<open>age td i \<noteq> 5\<close> by (simp add: age_def)
  then show "x \<in> R \<and> W x \<le> e \<and> age ?td i \<le> 5 \<and> localvar_announcedEpoch ?td \<noteq> 1
     \<and> (age ?td i \<noteq> 0 \<longrightarrow> W x + 2 * int (age ?td i) \<le> localvar_announcedEpoch ?td + 2)
     \<and> (case pc_td ?td of Announce_d r ro \<Rightarrow> W x \<le> r
        | Rotate_d r ro \<Rightarrow> W x + 2 * int (age ?td i) \<le> localvar_announcedEpoch ?td | _ \<Rightarrow> True)"
    using h pc \<open>age td i \<noteq> 5\<close> by simp
qed

lemma items_add:
  assumes it: "items_ok e R W td" and pc: "pc_td td = Running_d" and b: "bags_ok td" and x: "x \<notin> R"
    and g: "items_g g = add_mset x (items_g (epochbags td ! index_td td))" and l: "localvar_announcedEpoch td \<noteq> 1"
  shows "items_ok e (insert x R) (W(x := e)) (td\<lparr>epochbags := (epochbags td)[index_td td := g], blockpool_td := p\<rparr>)"
    (is "items_ok e _ _ ?td")
  unfolding items_ok_def
proof (intro allI impI ballI)
  have ix: "index_td td < 9" "length (epochbags td) = 9" using b by (simp_all add: bags_ok_def NUMBER_OF_EPOCH_BAGS_def)
  have a: "age ?td i = age td i" for i by (simp add: age_def)
  fix i y
  assume i: "i < NUMBER_OF_EPOCH_BAGS" and y: "y \<in># items_g (epochbags ?td ! i)"
  have "y = x \<and> i = index_td td \<or> y \<in># items_g (epochbags td ! i)" using y g ix by (cases "i = index_td td") auto
  then show "y \<in> insert x R \<and> (W(x := e)) y \<le> e \<and> age ?td i \<le> 5 \<and> localvar_announcedEpoch ?td \<noteq> 1
     \<and> (age ?td i \<noteq> 0 \<longrightarrow> (W(x := e)) y + 2 * int (age ?td i) \<le> localvar_announcedEpoch ?td + 2)
     \<and> (case pc_td ?td of Announce_d r ro \<Rightarrow> (W(x := e)) y \<le> r
        | Rotate_d r ro \<Rightarrow> (W(x := e)) y + 2 * int (age ?td i) \<le> localvar_announcedEpoch ?td | _ \<Rightarrow> True)"
  proof
    assume "y = x \<and> i = index_td td"
    then show ?thesis using age_current [OF ix(1)] pc l by (simp add: a)
  next
    assume "y \<in># items_g (epochbags td ! i)"
    note h = items_retire [OF it x, unfolded items_ok_def, rule_format, OF i this]
    then show ?thesis using pc unfolding a by simp
  qed
qed


lemma local_freed:
  assumes lo: "local_ok n e R W td" and q: "in_op td" and x: "x \<in> R" "W x + 10 \<le> e"
  shows "x \<in> view_td td"
proof (rule ccontr)
  assume "x \<notin> view_td td"
  then have "entered_td td \<le> W x" "e \<le> entered_td td + 2" using lo q x(1) by (auto simp: local_ok_def)
  then show False using x(2) by simp
qed

text \<open>A step of one thread that leaves the shared state.\<close>

lemma inv_here:
  assumes inv: "debra_inv n s" and "tid < n" and "bags_ok td" "items_ok (epoch_d s) (retired_d s) (when_d s) td"
    "local_ok n (epoch_d s) (retired_d s) (when_d s) td"
    and "\<And>q. q < checked_td td \<Longrightarrow> q \<noteq> tid \<Longrightarrow> in_op (threadData s q) \<Longrightarrow> localvar_announcedEpoch td \<le> entered_td (threadData s q)"
    and "\<And>p. p < n \<Longrightarrow> p \<noteq> tid \<Longrightarrow> tid < checked_td (threadData s p) \<Longrightarrow> in_op td \<Longrightarrow>
      localvar_announcedEpoch (threadData s p) \<le> entered_td td"
    and "in_op td \<Longrightarrow> set (freed_d s) \<subseteq> view_td td"
  shows "debra_inv n (set_td tid td s)"
  using debra_invD [OF inv] assms(2-) by (intro inv_set [where s = s and s' = s]) simp_all

lemma inv_leave:
  assumes inv: "debra_inv n s" and st: "tid < n" "pc_of s tid = Quiescent_d"
  shows "debra_inv n (set_td tid ((threadData s tid)\<lparr>pc_td := Announce_d (epoch_d s) ro\<rparr>) s)"
proof -
  let ?T = "threadData s"
  note I = debra_invD [OF inv]
  let ?td = "(?T tid)\<lparr>pc_td := Announce_d (epoch_d s) ro\<rparr>"
  have "bags_ok ?td" by (rule bags_move [OF I(2) [OF st(1)]]) simp_all
  moreover have "items_ok (epoch_d s) (retired_d s) (when_d s) ?td" by (rule items_move [OF I(3) [OF st(1)]]) simp_all
  moreover have "local_ok n (epoch_d s) (retired_d s) (when_d s) ?td"
    using I(4) [OF st(1)] st(2) I(1) by (auto simp: local_ok_def in_op_def)
  moreover have "\<not> in_op ?td" by (simp add: in_op_def)
  ultimately show ?thesis using st(1) I(5) by (intro inv_here [OF inv]) simp_all
qed

lemma inv_announce:
  assumes inv: "debra_inv n s" and st: "tid < n" "pc_of s tid = Announce_d r ro"
  shows "debra_inv n (set_td tid ((announce_d r ro (threadData s tid))\<lparr>entered_td := epoch_d s, view_td := retired_d s\<rparr>) s)"
proof -
  let ?T = "threadData s"
  note I = debra_invD [OF inv]
  let ?td = "(announce_d r ro (?T tid))\<lparr>entered_td := epoch_d s, view_td := retired_d s\<rparr>"
  note lo = I(4) [OF st(1)]
  have "bags_ok ?td" by (rule bags_move [OF I(2) [OF st(1)]]) (simp_all add: announce_d_def Let_def)
  moreover have "items_ok (epoch_d s) (retired_d s) (when_d s) ?td"
    by (rule items_announce [OF I(3) [OF st(1)] st(2) lo])
  moreover have "local_ok n (epoch_d s) (retired_d s) (when_d s) ?td"
    using lo st(1,2) by (auto simp: local_ok_def in_op_def announce_d_def Let_def)
  moreover have "localvar_announcedEpoch ?td \<le> entered_td (?T q)"
    if "q < checked_td ?td" "in_op (?T q)" for q
    using that I(5) [OF st(1), of q] by (auto simp: announce_d_def Let_def split: if_splits)
  moreover have "localvar_announcedEpoch (?T p) \<le> epoch_d s" if "p < n" "tid < checked_td (?T p)" for p
    using I(4) [OF that(1)] that(2) by (auto simp: local_ok_def)
  ultimately show ?thesis using st(1) I(7)
    by (intro inv_here [OF inv]) simp_all
qed

lemma inv_rotate:
  assumes inv: "debra_inv n s" and st: "tid < n" "pc_of s tid = Rotate_d r ro"
  shows "debra_inv n (case rotateEpochBags (threadData s tid) of
      Inl e \<Rightarrow> set_td tid ((threadData s tid)\<lparr>pc_td := Fault_d e\<rparr>) s
    | Inr (xs, td) \<Rightarrow> set_td tid (td\<lparr>pc_td := Scan_d r ro\<rparr>) (s\<lparr>freed_d := freed_d s @ xs\<rparr>))"
proof -
  let ?T = "threadData s"
  note I = debra_invD [OF inv]
  let ?f = "(index_td (?T tid) + 4) mod 9"
  obtain xs g p td where ro: "rotateEpochBags (?T tid) = Inr (xs, td)" "bags_ok td"
    "td = (?T tid)\<lparr>epochbags := (epochbags (?T tid))[?f := g], blockpool_td := p, index_td := (index_td (?T tid) + 1) mod 9\<rparr>"
    "items_g g = {#}" "mset xs = items_g (epochbags (?T tid) ! ?f)" using rotate_ok [OF I(2) [OF st(1)]] by blast
  let ?td = "td\<lparr>pc_td := Scan_d r ro\<rparr>" let ?s = "s\<lparr>freed_d := freed_d s @ xs\<rparr>"
  have ix: "index_td (?T tid) < 9" "?f < NUMBER_OF_EPOCH_BAGS" using I(2) [OF st(1)]
    by (simp_all add: bags_ok_def NUMBER_OF_EPOCH_BAGS_def)
  have old: "x \<in> retired_d s \<and> when_d s x + 10 \<le> epoch_d s" if "x \<in> set xs" for x
  proof -
    have "x \<in># items_g (epochbags (?T tid) ! ?f)" using that ro(5) by (metis set_mset_mset)
    moreover have "age (?T tid) ?f = 5" using age_rotate(2) [OF ix(1), of ?f] by simp
    ultimately show ?thesis using I(3,4) [OF st(1)] ix(2) st(2) unfolding items_ok_def local_ok_def
      by fastforce
  qed
  have fx: "set (freed_d ?s) \<subseteq> view_td (?T q)" if "q < n" "in_op (?T q)" for q
    using I(6) [OF that] local_freed [OF I(4) [OF that(1)] that(2)] old by auto
  have "bags_ok ?td" by (rule bags_move [OF ro(2)]) simp_all
  moreover have "items_ok (epoch_d s) (retired_d s) (when_d s) ?td"
    using items_rotate [OF I(3) [OF st(1)] st(2) I(2) [OF st(1)] ro(4)] unfolding ro(3) by simp
  moreover have "local_ok n (epoch_d s) (retired_d s) (when_d s) ?td"
    using I(4) [OF st(1)] st(2) unfolding ro(3) by (auto simp: local_ok_def in_op_def)
  moreover have iop: "in_op (?T tid)" "checked_td ?td = checked_td (?T tid)" "entered_td ?td = entered_td (?T tid)"
    "localvar_announcedEpoch ?td = localvar_announcedEpoch (?T tid)" "view_td ?td = view_td (?T tid)"
    using st(2) unfolding ro(3) by (simp_all add: in_op_def)
  ultimately have "debra_inv n (set_td tid ?td ?s)"
    using st(1) I(1-5,7) fx old by (intro inv_set [where s = s and s' = ?s]) (auto simp: subset_iff)
  then show ?thesis using ro(1) by simp
qed

lemma inv_scan:
  assumes inv: "debra_inv n s" and st: "tid < n" "pc_of s tid = Scan_d r ro"
  shows "debra_inv n (set_td tid
    (scan_d n r ro (announcedEpoch (threadData s (checked_td (threadData s tid)))) (threadData s tid)) s)"
proof -
  let ?T = "threadData s"
  note I = debra_invD [OF inv]
  let ?o = "threadData s (checked_td (?T tid))"
  let ?td = "scan_d n r ro (announcedEpoch ?o) (?T tid)"
  note lo = I(4) [OF st(1)]
  have c: "checked_td (?T tid) < n" "r = localvar_announcedEpoch (?T tid)" "in_op (?T tid)"
    using lo st(2) by (simp_all add: local_ok_def in_op_def)
  have f: "epochbags ?td = epochbags (?T tid)" "index_td ?td = index_td (?T tid)" "blockpool_td ?td = blockpool_td (?T tid)"
    "localvar_announcedEpoch ?td = localvar_announcedEpoch (?T tid)" "entered_td ?td = entered_td (?T tid)"
    "view_td ?td = view_td (?T tid)" "announcedEpoch ?td = announcedEpoch (?T tid)"
    by (simp_all add: scan_d_def Let_def)
  have pc: "pc_td ?td = Running_d \<and> checked_td ?td = checked_td (?T tid)
    \<or> (BITS_EPOCH (announcedEpoch ?o) = r \<or> QUIESCENT (announcedEpoch ?o)) \<and> checked_td ?td = checked_td (?T tid) + 1
      \<and> pc_td ?td = (if checked_td (?T tid) + 1 = n then Cas_d r else Running_d)"
    using c(1) by (auto simp: scan_d_def Let_def)
  then have io: "in_op ?td" by (auto simp: in_op_def)
  have "bags_ok ?td" by (rule bags_move [OF I(2) [OF st(1)] f(1-3)])
  moreover have "items_ok (epoch_d s) (retired_d s) (when_d s) ?td"
    by (rule items_move [OF I(3) [OF st(1)] f(1,2,4)]) (use pc in \<open>auto split: if_splits\<close>)
  moreover have "local_ok n (epoch_d s) (retired_d s) (when_d s) ?td"
    using lo pc c io unfolding local_ok_def f by (auto split: if_splits)
  moreover have "localvar_announcedEpoch ?td \<le> entered_td (?T q)" if q: "q < checked_td ?td" "in_op (?T q)" for q
  proof (cases "q < checked_td (?T tid)")
    case True
    then show ?thesis using I(5) [OF st(1) _ q(2)] f(4) by simp
  next
    case False
    then have c1: "checked_td ?td = checked_td (?T tid) + 1" using pc q(1) by auto
    then have qc: "checked_td (?T tid) = q" using q(1) False by simp
    have ob: "BITS_EPOCH (announcedEpoch (?T q)) = r \<or> QUIESCENT (announcedEpoch (?T q))"
      using pc c1 unfolding qc by auto
    have lq: "local_ok n (epoch_d s) (retired_d s) (when_d s) (?T q)" using I(4) c(1) qc by simp
    then have "announcedEpoch (?T q) = localvar_announcedEpoch (?T q)" "even (announcedEpoch (?T q))"
      "localvar_announcedEpoch (?T q) \<le> entered_td (?T q)" using q(2) by (simp_all add: local_ok_def)
    then show ?thesis using ob c(2) f(4) by (simp add: ann_bits)
  qed
  ultimately show ?thesis using st(1) I(5) [of _ tid] I(6) [OF st(1) c(3)] c(3) f(5,6)
    by (intro inv_here [OF inv]) simp_all
qed

lemma inv_cas:
  assumes inv: "debra_inv n s" and st: "tid < n" "pc_of s tid = Cas_d r"
  shows "debra_inv n (set_td tid ((threadData s tid)\<lparr>pc_td := Running_d\<rparr>)
    (s\<lparr>epoch_d := (if epoch_d s = r then r + EPOCH_INCREMENT else epoch_d s)\<rparr>))"
proof -
  let ?T = "threadData s"
  note I = debra_invD [OF inv]
  let ?td = "(?T tid)\<lparr>pc_td := Running_d\<rparr>"
  let ?e = "if epoch_d s = r then r + EPOCH_INCREMENT else epoch_d s" let ?s = "s\<lparr>epoch_d := ?e\<rparr>"
  have c: "checked_td (?T tid) = n" "r = localvar_announcedEpoch (?T tid)" "in_op (?T tid)"
    using I(4) [OF st(1)] st(2) by (simp_all add: local_ok_def in_op_def)
  have e: "epoch_d s \<le> ?e" "even ?e" using I(1) by (auto simp: EPOCH_INCREMENT_def)
  have top: "?e \<le> entered_td (?T q) + 2" if q: "q < n" "in_op (?T q)" for q
  proof -
    have "r \<le> entered_td (?T q)" using I(5) [OF st(1) _ q(2)] c(1,2) q(1) by simp
    moreover have "epoch_d s \<le> entered_td (?T q) + 2" using I(4) [OF q(1)] q(2) by (simp add: local_ok_def)
    ultimately show ?thesis by (simp add: EPOCH_INCREMENT_def)
  qed
  have oth: "items_ok ?e (retired_d s) (when_d s) (?T p) \<and> local_ok n ?e (retired_d s) (when_d s) (?T p)" if "p < n" for p
    using items_epoch [OF I(3) [OF that] e(1)] local_epoch [OF I(4) [OF that] e(1) top [OF that]] by blast
  have "bags_ok ?td" by (rule bags_move [OF I(2) [OF st(1)]]) simp_all
  moreover have "items_ok ?e (retired_d s) (when_d s) ?td"
    by (rule items_move [OF conjunct1 [OF oth [OF st(1)]]]) simp_all
  moreover have "local_ok n ?e (retired_d s) (when_d s) ?td"
    using conjunct2 [OF oth [OF st(1)]] I(4) [OF st(1)] st(2) c
    by (auto simp: local_ok_def in_op_def EPOCH_INCREMENT_def)
  moreover have "in_op ?td" "checked_td ?td = checked_td (?T tid)" "localvar_announcedEpoch ?td = localvar_announcedEpoch (?T tid)"
    "entered_td ?td = entered_td (?T tid)" "view_td ?td = view_td (?T tid)" by (simp_all add: in_op_def)
  moreover have "epoch_d ?s = ?e" "retired_d ?s = retired_d s" "when_d ?s = when_d s" "freed_d ?s = freed_d s" "threadData ?s = ?T" by simp_all
  ultimately show ?thesis using e(2) st(1) c(3)
    by (intro inv_set [where s = s and s' = ?s]) (simp_all only: I(2,5,6,7) oth simp_thms)
qed

lemma inv_retire:
  assumes inv: "debra_inv n s" and st: "tid < n" "pc_of s tid = Running_d" "x \<notin> retired_d s"
  shows "debra_inv n (case retire_d junk x (threadData s tid) of
      Inl e \<Rightarrow> set_td tid ((threadData s tid)\<lparr>pc_td := Fault_d e\<rparr>) s
    | Inr td \<Rightarrow> set_td tid td (s\<lparr>retired_d := insert x (retired_d s), when_d := (when_d s)(x := epoch_d s)\<rparr>))"
proof -
  let ?T = "threadData s"
  note I = debra_invD [OF inv]
  let ?R = "insert x (retired_d s)" and ?W = "(when_d s)(x := epoch_d s)"
  obtain g p where a: "retire_d junk x (?T tid) = Inr ((?T tid)\<lparr>epochbags := (epochbags (?T tid))[index_td (?T tid) := g], blockpool_td := p\<rparr>)"
    "bags_ok ((?T tid)\<lparr>epochbags := (epochbags (?T tid))[index_td (?T tid) := g], blockpool_td := p\<rparr>)"
    "items_g g = add_mset x (items_g (epochbags (?T tid) ! index_td (?T tid)))"
    using retire_ok [OF I(2) [OF st(1)]] by blast
  let ?s = "s\<lparr>retired_d := ?R, when_d := ?W\<rparr>"
    and ?td = "(?T tid)\<lparr>epochbags := (epochbags (?T tid))[index_td (?T tid) := g], blockpool_td := p\<rparr>"
  have io: "in_op (?T tid)" using st(2) by (simp add: in_op_def)
  have oth: "items_ok (epoch_d s) ?R ?W (?T p) \<and> local_ok n (epoch_d s) ?R ?W (?T p)" if "p < n" for p
    using items_retire [OF I(3) [OF that] st(3)] local_retire [OF I(4) [OF that] st(3)] by blast
  have "localvar_announcedEpoch (?T tid) \<noteq> 1" using I(4) [OF st(1)] io by (simp add: local_ok_def)
  then have "items_ok (epoch_d s) ?R ?W ?td"
    by (rule items_add [OF I(3) [OF st(1)] st(2) I(2) [OF st(1)] st(3) a(3)])
  moreover have "local_ok n (epoch_d s) ?R ?W ?td"
    using conjunct2 [OF oth [OF st(1)]] st(2) by (simp add: local_ok_def in_op_def)
  ultimately have "debra_inv n (set_td tid ?td ?s)"
    using st(1) a(2) I(1,2,5,7) oth I(6) io by (intro inv_set [where s = s and s' = ?s]) (auto simp: in_op_def)
  then show ?thesis using a(1) by simp
qed

lemma inv_enter:
  assumes inv: "debra_inv n s" and st: "tid < n" "pc_of s tid = Running_d"
  shows "debra_inv n (set_td tid (enterQuiescentState_d (threadData s tid)) s)"
proof -
  let ?T = "threadData s"
  note I = debra_invD [OF inv]
  let ?td = "enterQuiescentState_d (?T tid)"
  have "bags_ok ?td" by (rule bags_move [OF I(2) [OF st(1)]]) (simp_all add: enterQuiescentState_d_def)
  moreover have "items_ok (epoch_d s) (retired_d s) (when_d s) ?td"
    by (rule items_move [OF I(3) [OF st(1)]]) (simp_all add: enterQuiescentState_d_def)
  moreover have "local_ok n (epoch_d s) (retired_d s) (when_d s) ?td" "\<not> in_op ?td"
    using I(4) [OF st(1)] st(2) by (auto simp: local_ok_def in_op_def enterQuiescentState_d_def ann_bits)
  ultimately show ?thesis using st(1) I(5) [OF st(1)]
    by (intro inv_here [OF inv]) (simp_all add: enterQuiescentState_d_def)
qed

lemma debra_step_inv:
  assumes "debra_step n s s'" "debra_inv n s"
  shows "debra_inv n s'"
  using assms(1)
proof cases
  case (leave tid ro)
  show ?thesis unfolding leave(1) by (rule inv_leave [OF assms(2) leave(2,3)])
next
  case (announce tid r ro)
  show ?thesis unfolding announce(1) by (rule inv_announce [OF assms(2) announce(2,3)])
next
  case (rotate tid r ro)
  show ?thesis unfolding rotate(1) by (rule inv_rotate [OF assms(2) rotate(2,3)])
next
  case (scan tid r ro)
  show ?thesis unfolding scan(1) by (rule inv_scan [OF assms(2) scan(2,3)])
next
  case (cas tid r)
  show ?thesis unfolding cas(1) by (rule inv_cas [OF assms(2) cas(2,3)])
next
  case (retire tid x junk)
  show ?thesis unfolding retire(1) by (rule inv_retire [OF assms(2) retire(2-4)])
next
  case (enter tid)
  show ?thesis unfolding enter(1) by (rule inv_enter [OF assms(2) enter(2,3)])
qed


lemma new_bags_ok:
  assumes "apart X p" "new_bags k junk tid p = (gs, p')"
  shows "length gs = k \<and> (\<forall>g\<in>set gs. bag_ok g \<and> items_g g = {#}) \<and> apart (concat (map chain_g gs) @ X) p'"
  using assms
proof (induction k arbitrary: p X gs p')
  case (Suc k)
  obtain b p1 where b: "allocateBlock junk p = (b, p1)" "size_b b = 0" "apart (b # X) p1"
    using allocateBlock_ok [OF Suc.prems(1)] by blast
  let ?g = "\<lparr>owner = tid, reclaimCount = 0, sizeInBlocks = 1, chain_g = [b], tail_g = bid b\<rparr>"
  obtain hs p2 where n: "new_bags k junk tid p1 = (hs, p2)" by fastforce
  have e: "gs = ?g # hs" "p' = p2" using Suc.prems(2) n b(1) by (simp_all add: blockbag_def)
  have "bag_ok ?g" "items_g ?g = {#}" using b(2) BLOCK_SIZE_pos by (simp_all add: bag_ok_def items_g_def items_b_empty)
  moreover have "apart (b # concat (map chain_g hs) @ X) p2"
    using Suc.IH [OF b(3) n] by (auto simp: apart_def)
  ultimately show ?case using Suc.IH [OF b(3) n] by (simp add: e)
qed simp

lemma init_td_ok:
  "bags_ok (init_td junk tid)" "\<forall>g\<in>set (epochbags (init_td junk tid)). items_g g = {#}"
  "localvar_announcedEpoch (init_td junk tid) = 1" "announcedEpoch (init_td junk tid) = 1"
  "checked_td (init_td junk tid) = 0" "pc_td (init_td junk tid) = Quiescent_d"
proof -
  obtain gs p where n: "new_bags NUMBER_OF_EPOCH_BAGS junk (int tid) (blockpool 0) = (gs, p)" by fastforce
  have "apart [] (blockpool 0)" by (simp add: apart_def blockpool_def)
  note b = new_bags_ok [OF this n]
  show "bags_ok (init_td junk tid)" "\<forall>g\<in>set (epochbags (init_td junk tid)). items_g g = {#}"
    using b unfolding init_td_def n by (simp_all add: bags_ok_def) (simp add: NUMBER_OF_EPOCH_BAGS_def)
qed (simp_all add: init_td_def GET_WITH_QUIESCENT_def split: prod.splits)

lemma debra_inv_start:
  assumes "0 < n"
  shows "debra_inv n (reclaimer_debra junk)"
proof -
  have i: "in_op (init_td junk p) = False" for p by (simp add: in_op_def init_td_ok)
  have "items_g (epochbags (init_td junk p) ! j) = {#}" if "j < NUMBER_OF_EPOCH_BAGS" for p j
    using init_td_ok(1,2) [of junk p] that by (simp add: bags_ok_def)
  then have "items_ok e R W (init_td junk p)" for e R W p by (simp add: items_ok_def)
  moreover have "local_ok n 0 {} (\<lambda>_. 0) (init_td junk p)" for p
    using assms by (simp add: local_ok_def i init_td_ok)
  ultimately show ?thesis by (simp add: debra_inv_def reclaimer_debra_def i init_td_ok(1))
qed

lemma debra_reach: "(debra_step n)\<^sup>*\<^sup>* (reclaimer_debra junk) s \<Longrightarrow> 0 < n \<Longrightarrow> debra_inv n s"
  by (induction rule: rtranclp_induct) (auto intro: debra_inv_start debra_step_inv)

section \<open>Nothing is lost or freed twice\<close>

definition bagged :: "'a thread_data \<Rightarrow> 'a multiset" where
  "bagged td = sum_list (map items_g (epochbags td))"

lemma bagged_replace:
  assumes "i < length bs"
  shows "sum_list (map items_g (bs[i := g])) + items_g (bs ! i) = sum_list (map items_g bs) + items_g g"
proof -
  have "sum_list (map items_g bs) = sum_list (map items_g (take i bs)) + items_g (bs ! i) + sum_list (map items_g (drop (Suc i) bs))"
    by (subst (1) id_take_nth_drop [OF assms]) simp
  then show ?thesis by (simp add: upd_conv_take_nth_drop [OF assms])
qed

lemma sum_move:
  fixes f :: "'b \<Rightarrow> 'a multiset" and T :: "nat \<Rightarrow> 'b"
  assumes "tid < n"
  shows "(\<Sum>p<n. f ((T(tid := td)) p)) + f (T tid) = (\<Sum>p<n. f (T p)) + f td"
proof -
  have "(\<Sum>p\<in>{..<n} - {tid}. f ((T(tid := td)) p)) = (\<Sum>p\<in>{..<n} - {tid}. f (T p))" by (rule sum.cong) auto
  moreover have r: "(\<Sum>p<n. F p) = F tid + (\<Sum>p\<in>{..<n} - {tid}. F p)" for F :: "nat \<Rightarrow> 'a multiset"
    by (rule sum.remove) (use assms in simp_all)
  ultimately show ?thesis using r [of "\<lambda>p. f (T p)"] r [of "\<lambda>p. f ((T(tid := td)) p)"] by (simp only: fun_upd_same ac_simps)
qed

definition accounts :: "nat \<Rightarrow> 'a debra \<Rightarrow> bool" where
  "accounts n s \<longleftrightarrow> finite (retired_d s)
     \<and> mset (freed_d s) + (\<Sum>p<n. bagged (threadData s p)) = mset_set (retired_d s)"

lemma accounts_move:
  assumes "accounts n s" "tid < n" "threadData s' = threadData s" "finite (retired_d s')"
    and "mset (freed_d s') + mset_set (retired_d s) + bagged td
      = mset (freed_d s) + mset_set (retired_d s') + bagged (threadData s tid)"
  shows "accounts n (set_td tid td s')"
proof -
  note m = sum_move [OF assms(2), of bagged "threadData s" td]
  let ?S = "\<Sum>p<n. bagged (threadData s p)" and ?S' = "\<Sum>p<n. bagged (((threadData s)(tid := td)) p)"
  have "(mset (freed_d s') + ?S') + (bagged (threadData s tid) + mset_set (retired_d s))
      = mset (freed_d s') + mset_set (retired_d s) + (?S' + bagged (threadData s tid))" by (simp only: ac_simps)
  also have "\<dots> = (mset (freed_d s') + mset_set (retired_d s) + bagged td) + ?S" unfolding m by (simp only: ac_simps)
  also have "\<dots> = (mset (freed_d s) + ?S) + mset_set (retired_d s') + bagged (threadData s tid)"
    unfolding assms(5) by (simp only: ac_simps)
  also have "\<dots> = mset_set (retired_d s') + (bagged (threadData s tid) + mset_set (retired_d s))"
    using assms(1) by (simp add: accounts_def)
  finally have "mset (freed_d s') + ?S' = mset_set (retired_d s')" by simp
  then show ?thesis using assms(3,4) by (simp add: accounts_def set_td_def)
qed


lemma accounts_step:
  assumes step: "debra_step n s s'" and inv: "debra_inv n s" and acc: "accounts n s"
  shows "accounts n s'"
proof -
  let ?T = "threadData s"
  have fin: "finite (retired_d s)" using acc by (simp add: accounts_def)
  have same: "accounts n (set_td tid td s1)" if "tid < n" "threadData s1 = ?T" "freed_d s1 = freed_d s" "retired_d s1 = retired_d s"
    "epochbags td = epochbags (?T tid)" for tid td s1
    by (rule accounts_move [OF acc that(1,2)]) (simp_all add: that fin bagged_def)
  show ?thesis using step
  proof cases
    case (rotate tid r ro)
    let ?f = "(index_td (?T tid) + 4) mod 9"
    note b = debra_invD(2) [OF inv rotate(2)]
    obtain xs g p td where o: "rotateEpochBags (?T tid) = Inr (xs, td)"
      "td = (?T tid)\<lparr>epochbags := (epochbags (?T tid))[?f := g], blockpool_td := p, index_td := (index_td (?T tid) + 1) mod 9\<rparr>"
      "items_g g = {#}" "mset xs = items_g (epochbags (?T tid) ! ?f)" using rotate_ok [OF b] by blast
    have "?f < length (epochbags (?T tid))" using b by (simp add: bags_ok_def NUMBER_OF_EPOCH_BAGS_def)
    note r = bagged_replace [OF this, of g]
    have "accounts n (set_td tid (td\<lparr>pc_td := Scan_d r ro\<rparr>) (s\<lparr>freed_d := freed_d s @ xs\<rparr>))"
      by (rule accounts_move [OF acc rotate(2)])
        (use r o(3,4) in \<open>simp_all add: fin bagged_def o(2) ac_simps\<close>)
    then show ?thesis using rotate(1) o(1) by simp
  next
    case (retire tid x junk)
    note b = debra_invD(2) [OF inv retire(2)]
    obtain g p where a: "retire_d junk x (?T tid) = Inr ((?T tid)\<lparr>epochbags := (epochbags (?T tid))[index_td (?T tid) := g], blockpool_td := p\<rparr>)"
      "items_g g = add_mset x (items_g (epochbags (?T tid) ! index_td (?T tid)))" using retire_ok [OF b] by blast
    let ?td = "(?T tid)\<lparr>epochbags := (epochbags (?T tid))[index_td (?T tid) := g], blockpool_td := p\<rparr>"
    have "index_td (?T tid) < length (epochbags (?T tid))" using b by (simp add: bags_ok_def)
    note r = bagged_replace [OF this, of g]
    have "bagged ?td = add_mset x (bagged (?T tid))" using r a(2) by (simp add: bagged_def)
    then have "accounts n (set_td tid ?td (s\<lparr>retired_d := insert x (retired_d s), when_d := (when_d s)(x := epoch_d s)\<rparr>))"
      by (intro accounts_move [OF acc retire(2)]) (use fin retire(4) in simp_all)
    then show ?thesis using retire(1) a(1) by simp
  next
    case (announce tid r ro)
    show ?thesis unfolding announce(1) by (rule same [OF announce(2)]) (simp_all add: announce_d_def Let_def)
  next
    case (scan tid r ro)
    show ?thesis unfolding scan(1) by (rule same [OF scan(2)]) (simp_all add: scan_d_def Let_def)
  next
    case (enter tid)
    show ?thesis unfolding enter(1) by (rule same [OF enter(2)]) (simp_all add: enterQuiescentState_d_def)
  next
    case (leave tid ro)
    show ?thesis unfolding leave(1) by (rule same [OF leave(2)]) simp_all
  next
    case (cas tid r)
    show ?thesis unfolding cas(1) by (rule same [OF cas(2)]) simp_all
  qed
qed

lemma accounts_reach:
  assumes "(debra_step n)\<^sup>*\<^sup>* (reclaimer_debra junk) s" "0 < n"
  shows "accounts n s"
  using assms(1)
proof (induction rule: rtranclp_induct)
  case base
  have "bagged (init_td junk p) = {#}" for p
  proof -
    have "map items_g (epochbags (init_td junk p)) = map (\<lambda>_. {#}) (epochbags (init_td junk p))"
      using init_td_ok(2) [of junk p] by simp
    then show ?thesis unfolding bagged_def by (simp only: sum_list_0)
  qed
  then show ?case by (simp add: accounts_def reclaimer_debra_def)
next
  case (step s1 s2)
  then show ?case using accounts_step debra_reach assms(2) by blast
qed

section \<open>Sizes and the destructor\<close>

definition getSafeBlockbags :: "'a thread_data \<Rightarrow> 'a bag list res" where
  "getSafeBlockbags td = (let ix = index_td td; N = NUMBER_OF_EPOCH_BAGS in
     obind (aref (epochbags td) ix) (\<lambda>b0. obind (aref (epochbags td) ((ix + N - 1) mod N)) (\<lambda>b1.
     obind (aref (epochbags td) ((ix + N - 2) mod N)) (\<lambda>b2. Inr [b0, b1, b2]))))"

definition getSizeInNodes_d :: "nat \<Rightarrow> 'a debra \<Rightarrow> nat" where
  "getSizeInNodes_d n s = sum_list (map (\<lambda>tid. sum_list (map computeSize_g (epochbags (threadData s tid)))) [0..<n])"

text \<open>The destructor for one thread: \<open>addMoveAll\<close> and \<open>delete\<close> of each bag; what is freed, in order.\<close>

fun destroy_bags :: "'a bag list \<Rightarrow> 'a pool \<Rightarrow> ('a list \<times> 'a pool) res" where
  "destroy_bags [] p = Inr ([], p)"
| "destroy_bags (g # gs) p = obind (addMoveFullBlocks g p) (\<lambda>(xs, g', p1).
     obind (destroy_bag g' p1) (\<lambda>p2. obind (destroy_bags gs p2) (\<lambda>(ys, p3). Inr (xs @ ys, p3))))"

lemma getSizeInNodes_bagged: "getSizeInNodes_d n s = size (\<Sum>p<n. bagged (threadData s p))"
proof -
  have b: "sum_list (map computeSize_g gs) = size (sum_list (map items_g gs))" for gs :: "'a bag list"
    by (induction gs) (simp_all add: computeSize_items)
  show ?thesis unfolding getSizeInNodes_d_def bagged_def b by (induction n) simp_all
qed

lemma destroy_bag_ok:
  assumes "bag_ok g" "items_g g = {#}" "apart (chain_g g @ X) p"
  shows "\<exists>p'. destroy_bag g p = Inr p' \<and> apart X p'"
proof -
  obtain hb rest where g: "chain_g g = hb # rest" "\<forall>b\<in>set rest. isFull_b b" using assms(1) by (rule bag_okE)
  have "items_b b = []" if "b \<in> set (chain_g g)" for b using assms(2) that by (auto simp: items_g_def)
  then have z: "size_b b = 0" if "b \<in> set (chain_g g)" for b using that items_b_simps(1) [of b] by simp
  then have "rest = []" using g BLOCK_SIZE_pos by (cases rest) (auto simp: isFull_b_def)
  moreover obtain p' where "deallocateBlock hb p = Inr p'" "apart X p'"
    using deallocateBlock_ok [of hb X p] assms(3) z g(1) \<open>rest = []\<close> by auto
  ultimately show ?thesis using isEmpty_g_ok [OF assms(1)] assms(2) g(1) by (simp add: destroy_bag_def require_def)
qed

lemma destroy_bags_ok:
  assumes "\<forall>g\<in>set gs. bag_ok g" "apart (concat (map chain_g gs)) p"
  shows "\<exists>xs p'. destroy_bags gs p = Inr (xs, p') \<and> mset xs = sum_list (map items_g gs)"
  using assms
proof (induction gs arbitrary: p)
  case (Cons g gs)
  obtain xs g' p1 where m: "addMoveFullBlocks g p = Inr (xs, g', p1)" "mset xs = items_g g" "items_g g' = {#}" "bag_ok g'"
    "apart (chain_g g' @ concat (map chain_g gs)) p1"
    using deallocateAndClear_ok [of g "concat (map chain_g gs)" p "Suc (computeSize_g g)"] Cons.prems
    by (auto simp: addMoveFullBlocks_def computeSize_items)
  obtain p2 where d: "destroy_bag g' p1 = Inr p2" "apart (concat (map chain_g gs)) p2"
    using destroy_bag_ok [OF m(4,3,5)] by blast
  then show ?case using m(1,2) Cons.IH [OF _ d(2)] Cons.prems(1) by auto
qed simp

text \<open>A short execution: the only thread leaves its quiescent state and retires an object.\<close>

lemma debra_run:
  "\<exists>s. (debra_step 1)\<^sup>*\<^sup>* (reclaimer_debra junk) s \<and> in_op (threadData s 0) \<and> retired_d s = {x} \<and> view_td (threadData s 0) = {}"
proof -
  let ?S = "debra_step 1"
  define s0 where "s0 = reclaimer_debra junk"
  define s1 where "s1 = set_td 0 ((threadData s0 0)\<lparr>pc_td := Announce_d 0 False\<rparr>) s0"
  define s2 where "s2 = set_td 0 ((announce_d 0 False (threadData s1 0))\<lparr>entered_td := 0, view_td := {}\<rparr>) s1"
  have t0: "threadData s0 0 = init_td junk 0" "epoch_d s0 = 0" "retired_d s0 = {}"
    by (simp_all add: s0_def reclaimer_debra_def)
  have "?S s0 s1" using debra_step.leave [of 0 1 s0 False] by (simp add: t0 init_td_ok s1_def)
  moreover have "?S s1 s2" using debra_step.announce [of 0 1 s1 0 False] by (simp add: s2_def s1_def set_td_def t0)
  ultimately have r2: "?S\<^sup>*\<^sup>* s0 s2" by (meson rtranclp.rtrancl_refl rtranclp.rtrancl_into_rtrancl)
  have p2: "pc_of s2 0 = Rotate_d 0 False" "view_td (threadData s2 0) = {}" "retired_d s2 = {}" "opsSinceRead (threadData s2 0) = 0"
    by (simp_all add: s2_def s1_def set_td_def announce_d_def Let_def t0 init_td_ok)
      (simp add: init_td_def split: prod.splits)
  have b2: "bags_ok (threadData s2 0)" by (rule debra_invD(2) [OF debra_reach [OF r2 [unfolded s0_def]]]) simp_all
  obtain xs g p td where ro: "rotateEpochBags (threadData s2 0) = Inr (xs, td)"
    "td = (threadData s2 0)\<lparr>epochbags := (epochbags (threadData s2 0))[(index_td (threadData s2 0) + 4) mod 9 := g],
      blockpool_td := p, index_td := (index_td (threadData s2 0) + 1) mod 9\<rparr>"
    using rotate_ok [OF b2] by blast
  define s3 where "s3 = set_td 0 (td\<lparr>pc_td := Scan_d 0 False\<rparr>) (s2\<lparr>freed_d := freed_d s2 @ xs\<rparr>)"
  define s4 where "s4 = set_td 0 (scan_d 1 0 False (announcedEpoch (threadData s3 (checked_td (threadData s3 0)))) (threadData s3 0)) s3"
  have "?S s2 s3" using debra_step.rotate [of 0 1 s2 0 False] p2(1) by (simp add: ro(1) s3_def)
  moreover have "?S s3 s4" using debra_step.scan [of 0 1 s3 0 False] by (simp add: s4_def s3_def set_td_def)
  ultimately have r4: "?S\<^sup>*\<^sup>* s0 s4" using r2 by (meson rtranclp.rtrancl_into_rtrancl)
  have p4: "pc_of s4 0 = Running_d" "view_td (threadData s4 0) = {}" "retired_d s4 = {}"
    using p2 by (simp_all add: s4_def s3_def set_td_def scan_d_def MIN_OPS_BEFORE_READ_def ro(2))
  have b4: "bags_ok (threadData s4 0)" by (rule debra_invD(2) [OF debra_reach [OF r4 [unfolded s0_def]]]) simp_all
  obtain g' p' where re: "retire_d junk x (threadData s4 0) = Inr ((threadData s4 0)\<lparr>epochbags :=
      (epochbags (threadData s4 0))[index_td (threadData s4 0) := g'], blockpool_td := p'\<rparr>)" (is "_ = Inr ?td")
    using retire_ok [OF b4] by blast
  define s5 where "s5 = set_td 0 ?td (s4\<lparr>retired_d := {x}, when_d := (when_d s4)(x := epoch_d s4)\<rparr>)"
  have "?S s4 s5" using debra_step.retire [of 0 1 s4 x junk] p4 by (simp add: re s5_def)
  then have "?S\<^sup>*\<^sup>* s0 s5" using r4 by (meson rtranclp.rtrancl_into_rtrancl)
  moreover have "in_op (threadData s5 0)" "retired_d s5 = {x}" "view_td (threadData s5 0) = {}"
    using p4 by (simp_all add: s5_def set_td_def in_op_def)
  ultimately show ?thesis unfolding s0_def by blast
qed

section \<open>Safety\<close>

text \<open>
  C35: No object is freed under the feet of an operation, in every interleaving of any number of
  threads: while a thread is between \<open>leaveQuiescentState\<close> and \<open>enterQuiescentState\<close>, everything that has been
  freed had already been retired when the thread announced its epoch, also when the epoch
  it has announced was stale by then.
\<close>

theorem debra_safe:
  assumes "(debra_step n)\<^sup>*\<^sup>* (reclaimer_debra junk) s" "tid < n" "in_op (threadData s tid)"
  shows "set (freed_d s) \<subseteq> view_td (threadData s tid)"
  using debra_invD(6) [OF debra_reach [OF assms(1)] assms(2,3)] assms(2) by simp

theorem debra_safe_witness:
  "\<exists>s. (debra_step 1)\<^sup>*\<^sup>* (reclaimer_debra (\<lambda>_. 0 :: nat)) s \<and> retired_d s = {7} \<and> freed_d s = []"
proof -
  obtain s where "(debra_step 1)\<^sup>*\<^sup>* (reclaimer_debra (\<lambda>_. 0 :: nat)) s" "in_op (threadData s 0)" "retired_d s = {7}"
    "view_td (threadData s 0) = {}" using debra_run [of "\<lambda>_. 0 :: nat" 7] by blast
  then show ?thesis using debra_safe [of 1 "\<lambda>_. 0 :: nat" s 0] by auto
qed

text \<open>
  C36: Every retired object lies in exactly one block bag or has been freed exactly once: nothing
  is lost and nothing is freed twice, and \<open>getSizeInNodes\<close> counts what is left; no call ends in a
  fault, and no announcement outside the array of the threads is read; the destructor frees the rest.
\<close>

theorem debra_accounts:
  assumes "(debra_step n)\<^sup>*\<^sup>* (reclaimer_debra junk) s" "tid < n"
  shows "mset (freed_d s) + (\<Sum>p<n. bagged (threadData s p)) = mset_set (retired_d s) \<and> pc_of s tid \<noteq> Fault_d f
    \<and> getSizeInNodes_d n s + length (freed_d s) = card (retired_d s)
    \<and> (\<exists>xs p. destroy_bags (epochbags (threadData s tid)) (blockpool_td (threadData s tid)) = Inr (xs, p)
         \<and> mset xs = bagged (threadData s tid))"
proof -
  have n: "0 < n" using assms(2) by simp
  have "local_ok n (epoch_d s) (retired_d s) (when_d s) (threadData s tid)"
    by (rule debra_invD(4) [OF debra_reach [OF assms(1) n] assms(2)])
  then have "pc_of s tid \<noteq> Fault_d f" by (auto simp: local_ok_def)
  moreover have m: "mset (freed_d s) + (\<Sum>p<n. bagged (threadData s p)) = mset_set (retired_d s)"
    using accounts_reach [OF assms(1) n] by (simp add: accounts_def)
  moreover have "getSizeInNodes_d n s + length (freed_d s) = card (retired_d s)"
    using arg_cong [OF m, of size] by (simp add: getSizeInNodes_bagged)
  moreover have "bags_ok (threadData s tid)" by (rule debra_invD(2) [OF debra_reach [OF assms(1) n] assms(2)])
  then have "\<exists>xs p. destroy_bags (epochbags (threadData s tid)) (blockpool_td (threadData s tid)) = Inr (xs, p)
      \<and> mset xs = bagged (threadData s tid)"
    unfolding bagged_def by (intro destroy_bags_ok) (simp_all add: bags_ok_def)
  ultimately show ?thesis by blast
qed

theorem debra_accounts_witness:
  "\<exists>s. (debra_step 1)\<^sup>*\<^sup>* (reclaimer_debra (\<lambda>_. 0 :: nat)) s \<and> mset (freed_d s) + bagged (threadData s 0) = {#7#}"
proof -
  obtain s where s: "(debra_step 1)\<^sup>*\<^sup>* (reclaimer_debra (\<lambda>_. 0 :: nat)) s" "retired_d s = {7}"
    using debra_run [of "\<lambda>_. 0 :: nat" 7] by blast
  then show ?thesis using debra_accounts [OF s(1), of 0] by auto
qed

end
