(* ===== verification/VCAS_Provider.thy ===== *)
theory VCAS_Provider
  imports Prelude
begin

text \<open>
  The versioned compare-and-swap objects of \<open>rq/rq_vcas.h\<close> (the variant with
  \<open>NVCAS_OPTIMIZATION\<close>, which the other competitor of the bundles is built on), interleaved access
  by access. The versions of an object are numbered from the oldest; \<open>nextv\<close> of version
  \<open>k\<close> is version \<open>k - 1\<close>, and the head is the last one. \<open>born_v\<close> and \<open>snaps_v\<close> are history
  variables: the clock when a version was installed, and the timestamps that \<open>traversal_start\<close> has returned. All objects exist
  from the start, each with one version that has been given the first timestamp; a thread reads
  at any timestamp that a snapshot has returned. The clock is a \<open>long long\<close> and counts without a bound
  here, but versions and snapshots keep their timestamps in an \<open>int\<close>: the conversions are written out, reads
  are repeatable as long as the clock stays in the range of an \<open>int\<close>, and beyond it they are not.
\<close>

section \<open>The operations, access by access\<close>

definition TBD :: int where
  "TBD = -1"

text \<open>What a thread does after \<open>initTS\<close>: go on with \<open>cas_vcas\<close>, return from it, or walk the versions.\<close>

datatype 'v vcas_next = To_compare 'v 'v | To_result bool | To_walk int

datatype 'v vcas_pc = Idle_v | Snap_check int | Snap_inc int
  | Init_test nat nat "'v vcas_next" | Init_load nat nat "'v vcas_next" | Init_cas nat nat int "'v vcas_next"
  | Compare nat nat 'v 'v | Swap nat nat 'v | Reload nat | Walk nat nat int
  | Done_cas bool | Done_read nat int 'v | Failed_v

record 'v vcas =
  clock_v :: int
  len_v :: "nat \<Rightarrow> nat"
  val_v :: "nat \<Rightarrow> nat \<Rightarrow> 'v"
  ts_v :: "nat \<Rightarrow> nat \<Rightarrow> int"
  pc_v :: "nat \<Rightarrow> 'v vcas_pc"
  born_v :: "nat \<Rightarrow> nat \<Rightarrow> int"
  snaps_v :: "int set"

definition vcas_start :: "(nat \<Rightarrow> 'v) \<Rightarrow> 'v vcas" where
  "vcas_start f = \<lparr>clock_v = 1, len_v = (\<lambda>_. 1), val_v = (\<lambda>x _. f x), ts_v = (\<lambda>_ _. 1), pc_v = (\<lambda>_. Idle_v),
     born_v = (\<lambda>_ _. 1), snaps_v = {}\<rparr>"

definition goto_v :: "nat \<Rightarrow> 'v vcas_pc \<Rightarrow> 'v vcas \<Rightarrow> 'v vcas" where
  "goto_v i p s = s\<lparr>pc_v := (pc_v s)(i := p)\<rparr>"

fun after_init :: "nat \<Rightarrow> nat \<Rightarrow> 'v vcas_next \<Rightarrow> 'v vcas_pc" where
  "after_init x k (To_compare old new) = Compare x k old new"
| "after_init x k (To_result r) = Done_cas r"
| "after_init x k (To_walk t) = Walk x k t"

definition idle_v :: "'v vcas_pc \<Rightarrow> bool" where
  "idle_v p \<longleftrightarrow> (case p of Idle_v \<Rightarrow> True | Done_cas r \<Rightarrow> True | Done_read x t v \<Rightarrow> True | _ \<Rightarrow> False)"

definition install_v :: "nat \<Rightarrow> 'v \<Rightarrow> 'v vcas \<Rightarrow> 'v vcas" where
  "install_v x new s = (let k = len_v s x in s\<lparr>len_v := (len_v s)(x := Suc k),
     val_v := (val_v s)(x := (val_v s x)(k := new)), ts_v := (ts_v s)(x := (ts_v s x)(k := TBD)),
     born_v := (born_v s)(x := (born_v s x)(k := clock_v s))\<rparr>)"

definition set_ts_v :: "nat \<Rightarrow> nat \<Rightarrow> int \<Rightarrow> 'v vcas \<Rightarrow> 'v vcas" where
  "set_ts_v x k t s = (if ts_v s x k = TBD then s\<lparr>ts_v := (ts_v s)(x := (ts_v s x)(k := int_wrap t))\<rparr> else s)"

text \<open>\<open>traversal_start\<close> returns what \<open>takeSnapshot\<close> has read, as an \<open>int\<close>.\<close>

definition return_snapshot_v :: "nat \<Rightarrow> int \<Rightarrow> 'v vcas \<Rightarrow> 'v vcas" where
  "return_snapshot_v i t s = goto_v i Idle_v (s\<lparr>snaps_v := insert (int_wrap t) (snaps_v s)\<rparr>)"

text \<open>The second access of \<open>takeSnapshot\<close>, and one iteration of the loop of \<open>read_vcas\<close> at a timestamp.\<close>

definition snap_check_v :: "nat \<Rightarrow> int \<Rightarrow> 'v vcas \<Rightarrow> 'v vcas" where
  "snap_check_v i t s =
     (if clock_v s = t then goto_v i (Snap_inc t) s else return_snapshot_v i t s)"

definition walk_v :: "nat \<Rightarrow> nat \<Rightarrow> nat \<Rightarrow> int \<Rightarrow> 'v vcas \<Rightarrow> 'v vcas" where
  "walk_v i x k t s =
     goto_v i (if ts_v s x k > t then (if k = 0 then Failed_v else Walk x (k - 1) t) else Done_read x t (val_v s x k)) s"

inductive vcas_step :: "'v vcas \<Rightarrow> 'v vcas \<Rightarrow> bool" where
  snap_load: "idle_v (pc_v s i) \<Longrightarrow> vcas_step s (goto_v i (Snap_check (clock_v s)) s)"
| snap_check: "pc_v s i = Snap_check t \<Longrightarrow> vcas_step s (snap_check_v i t s)"
| snap_inc: "pc_v s i = Snap_inc t \<Longrightarrow> vcas_step s
    (return_snapshot_v i t (s\<lparr>clock_v := clock_v s + 1\<rparr>))"
| cas_load: "idle_v (pc_v s i) \<Longrightarrow> vcas_step s (goto_v i (Init_test x (len_v s x - 1) (To_compare old new)) s)"
| read_load: "idle_v (pc_v s i) \<Longrightarrow> t \<in> snaps_v s \<Longrightarrow>
    vcas_step s (goto_v i (Init_test x (len_v s x - 1) (To_walk t)) s)"
| init_test: "pc_v s i = Init_test x k nx \<Longrightarrow> vcas_step s
    (goto_v i (if ts_v s x k = TBD then Init_load x k nx else after_init x k nx) s)"
| init_load: "pc_v s i = Init_load x k nx \<Longrightarrow> vcas_step s (goto_v i (Init_cas x k (clock_v s) nx) s)"
| init_cas: "pc_v s i = Init_cas x k cur nx \<Longrightarrow> vcas_step s (goto_v i (after_init x k nx) (set_ts_v x k cur s))"
| compare: "pc_v s i = Compare x k old new \<Longrightarrow> vcas_step s
    (goto_v i (if val_v s x k \<noteq> old then Done_cas False else if new = old then Done_cas True else Swap x k new) s)"
| swap: "pc_v s i = Swap x k new \<Longrightarrow> vcas_step s
    (if len_v s x = Suc k then goto_v i (Init_test x (Suc k) (To_result True)) (install_v x new s) else goto_v i (Reload x) s)"
| reload: "pc_v s i = Reload x \<Longrightarrow> vcas_step s (goto_v i (Init_test x (len_v s x - 1) (To_result False)) s)"
| walk: "pc_v s i = Walk x k t \<Longrightarrow> vcas_step s (walk_v i x k t s)"

section \<open>Versions and their timestamps\<close>

text \<open>
  The timestamps of one object: all but the newest are set, none is older than the installation
  of its version, which is not older than the version below.
\<close>

definition obj_ok :: "'v vcas \<Rightarrow> nat \<Rightarrow> bool" where
  "obj_ok s x \<longleftrightarrow> 0 < len_v s x \<and> ts_v s x 0 = 1
     \<and> (\<forall>k. Suc k < len_v s x \<longrightarrow> ts_v s x k \<noteq> TBD \<and> ts_v s x k \<le> born_v s x (Suc k))
     \<and> (\<forall>k<len_v s x. born_v s x k \<le> clock_v s \<and> 1 \<le> born_v s x k
          \<and> (ts_v s x k \<noteq> TBD \<longrightarrow> born_v s x k \<le> ts_v s x k \<and> ts_v s x k \<le> clock_v s))"

text \<open>Version \<open>j\<close> is not visible at time \<open>t\<close>, and never will be.\<close>

definition late_v :: "'v vcas \<Rightarrow> nat \<Rightarrow> int \<Rightarrow> nat \<Rightarrow> bool" where
  "late_v s x t j \<longleftrightarrow> (if ts_v s x j = TBD then t < born_v s x j else t < ts_v s x j)"

definition next_ok :: "'v vcas \<Rightarrow> nat \<Rightarrow> nat \<Rightarrow> 'v vcas_next \<Rightarrow> bool" where
  "next_ok s x k nx \<longleftrightarrow> k < len_v s x
     \<and> (\<forall>t. nx = To_walk t \<longrightarrow> t \<in> snaps_v s \<and> (\<forall>j. k < j \<and> j < len_v s x \<longrightarrow> late_v s x t j))"

definition pc_ok_v :: "'v vcas \<Rightarrow> 'v vcas_pc \<Rightarrow> bool" where
  "pc_ok_v s p \<longleftrightarrow> (case p of
     Snap_check t \<Rightarrow> 1 \<le> t \<and> t \<le> clock_v s
   | Snap_inc t \<Rightarrow> 1 \<le> t \<and> t \<le> clock_v s
   | Init_test x k nx \<Rightarrow> next_ok s x k nx
   | Init_load x k nx \<Rightarrow> next_ok s x k nx
   | Init_cas x k cur nx \<Rightarrow> next_ok s x k nx \<and> cur \<le> clock_v s \<and> born_v s x k \<le> cur
   | Compare x k old new \<Rightarrow> k < len_v s x \<and> ts_v s x k \<noteq> TBD
   | Swap x k new \<Rightarrow> k < len_v s x \<and> ts_v s x k \<noteq> TBD
   | Walk x k t \<Rightarrow> next_ok s x k (To_walk t) \<and> ts_v s x k \<noteq> TBD
   | Done_read x t v \<Rightarrow> t \<in> snaps_v s \<and> (\<exists>k<len_v s x. v = val_v s x k \<and> ts_v s x k \<noteq> TBD \<and> ts_v s x k \<le> t
       \<and> (\<forall>j. k < j \<and> j < len_v s x \<longrightarrow> late_v s x t j))
   | Failed_v \<Rightarrow> False
   | _ \<Rightarrow> True)"

definition vcas_inv :: "'v vcas \<Rightarrow> bool" where
  "vcas_inv s \<longleftrightarrow> (\<forall>x. obj_ok s x) \<and> (\<forall>i. pc_ok_v s (pc_v s i)) \<and> (\<forall>t\<in>snaps_v s. 1 \<le> t \<and> t < clock_v s) \<and> 1 \<le> clock_v s"

text \<open>How the shared state may change: the clock advances, versions are added on top, timestamps are set once.\<close>

definition grows_v :: "'v vcas \<Rightarrow> 'v vcas \<Rightarrow> bool" where
  "grows_v s s' \<longleftrightarrow> clock_v s \<le> clock_v s' \<and> snaps_v s \<subseteq> snaps_v s' \<and> (\<forall>x. len_v s x \<le> len_v s' x)
     \<and> (\<forall>x k. k < len_v s x \<longrightarrow> val_v s' x k = val_v s x k \<and> born_v s' x k = born_v s x k
          \<and> (ts_v s x k \<noteq> TBD \<longrightarrow> ts_v s' x k = ts_v s x k)
          \<and> (ts_v s x k = TBD \<and> ts_v s' x k \<noteq> TBD \<longrightarrow> born_v s x k \<le> ts_v s' x k))
     \<and> (\<forall>x k. len_v s x \<le> k \<and> k < len_v s' x \<longrightarrow> clock_v s \<le> born_v s' x k
          \<and> (ts_v s' x k \<noteq> TBD \<longrightarrow> born_v s' x k \<le> ts_v s' x k))"

lemma late_grows:
  assumes g: "grows_v s s'" and t: "t < clock_v s" and j: "j < len_v s' x"
    and l: "j < len_v s x \<Longrightarrow> late_v s x t j"
  shows "late_v s' x t j"
proof (cases "j < len_v s x")
  case True
  then show ?thesis using g l [OF True] unfolding grows_v_def late_v_def
    by (metis dual_order.strict_trans1)
next
  case False
  then have "clock_v s \<le> born_v s' x j" "ts_v s' x j \<noteq> TBD \<longrightarrow> born_v s' x j \<le> ts_v s' x j"
    using g j by (simp_all add: grows_v_def)
  then show ?thesis using t by (auto simp: late_v_def)
qed

lemma next_ok_grows:
  assumes "grows_v s s'" "next_ok s x k nx" "\<forall>t\<in>snaps_v s. t < clock_v s"
  shows "next_ok s' x k nx"
proof -
  have "k < len_v s x" "len_v s x \<le> len_v s' x" using assms(1,2) by (auto simp: next_ok_def grows_v_def)
  moreover have "t \<in> snaps_v s' \<and> (\<forall>j. k < j \<and> j < len_v s' x \<longrightarrow> late_v s' x t j)" if "nx = To_walk t" for t
  proof -
    have t: "t \<in> snaps_v s" "\<forall>j. k < j \<and> j < len_v s x \<longrightarrow> late_v s x t j" using assms(2) that by (simp_all add: next_ok_def)
    then show ?thesis using late_grows [OF assms(1)] assms(1,3) by (auto simp: grows_v_def)
  qed
  ultimately show ?thesis by (simp add: next_ok_def)
qed

lemma pc_ok_grows:
  assumes "grows_v s s'" "pc_ok_v s p" "\<forall>t\<in>snaps_v s. t < clock_v s"
  shows "pc_ok_v s' p"
proof -
  have g: "clock_v s \<le> clock_v s'" "snaps_v s \<subseteq> snaps_v s'" "\<And>x. len_v s x \<le> len_v s' x"
    "\<And>x k. k < len_v s x \<Longrightarrow> val_v s' x k = val_v s x k \<and> born_v s' x k = born_v s x k
      \<and> (ts_v s x k \<noteq> TBD \<longrightarrow> ts_v s' x k = ts_v s x k)"
    using assms(1) by (simp_all add: grows_v_def)
  note n = next_ok_grows [OF assms(1) _ assms(3)]
  have nl: "k < len_v s x" if "next_ok s x k nx" for x k nx using that by (simp add: next_ok_def)
  show ?thesis
  proof (cases p)
    case (Done_read x t v)
    then obtain k where k: "t \<in> snaps_v s" "k < len_v s x" "v = val_v s x k" "ts_v s x k \<noteq> TBD" "ts_v s x k \<le> t"
      "\<forall>j. k < j \<and> j < len_v s x \<longrightarrow> late_v s x t j" using assms(2) by (auto simp: pc_ok_v_def)
    have "late_v s' x t j" if "k < j" "j < len_v s' x" for j
      by (rule late_grows [OF assms(1)]) (use k assms(3) that in auto)
    moreover have "k < len_v s' x" using k(2) g(3) [of x] by simp
    ultimately show ?thesis using Done_read k g(2) g(4) [OF k(2)] by (auto simp: pc_ok_v_def)
  next
    case (Init_cas x k cur nx)
    then have a: "next_ok s x k nx" "cur \<le> clock_v s" "born_v s x k \<le> cur" using assms(2) by (simp_all add: pc_ok_v_def)
    then show ?thesis using Init_cas n [OF a(1)] g(1) g(4) [OF nl [OF a(1)]] by (simp add: pc_ok_v_def)
  next
    case (Walk x k t)
    then have a: "next_ok s x k (To_walk t)" "ts_v s x k \<noteq> TBD" using assms(2) by (simp_all add: pc_ok_v_def)
    then show ?thesis using Walk n [OF a(1)] g(4) [OF nl [OF a(1)]] by (simp add: pc_ok_v_def)
  next
    case (Compare x k old new)
    then have "k < len_v s x" "ts_v s x k \<noteq> TBD" using assms(2) by (simp_all add: pc_ok_v_def)
    then show ?thesis using Compare g(3) [of x] g(4) [of k x] by (simp add: pc_ok_v_def)
  next
    case (Swap x k new)
    then have "k < len_v s x" "ts_v s x k \<noteq> TBD" using assms(2) by (simp_all add: pc_ok_v_def)
    then show ?thesis using Swap g(3) [of x] g(4) [of k x] by (simp add: pc_ok_v_def)
  next
    case (Init_test x k nx)
    then show ?thesis using assms(2) n by (simp add: pc_ok_v_def)
  next
    case (Init_load x k nx)
    then show ?thesis using assms(2) n by (simp add: pc_ok_v_def)
  qed (use assms(2) g(1) in \<open>simp_all add: pc_ok_v_def\<close>)
qed

section \<open>Every step keeps the versions in order\<close>

lemma grows_refl: "grows_v s s"
  by (simp add: grows_v_def)

lemma grows_trans:
  assumes "grows_v s s'" "grows_v s' s''"
  shows "grows_v s s''"
proof -
  have l: "len_v s x \<le> len_v s' x" "len_v s' x \<le> len_v s'' x" for x using assms by (simp_all add: grows_v_def)
  have old: "val_v s'' x k = val_v s x k \<and> born_v s'' x k = born_v s x k
      \<and> (ts_v s x k \<noteq> TBD \<longrightarrow> ts_v s'' x k = ts_v s x k)
      \<and> (ts_v s x k = TBD \<and> ts_v s'' x k \<noteq> TBD \<longrightarrow> born_v s x k \<le> ts_v s'' x k)" if "k < len_v s x" for x k
    using assms that l [of x] unfolding grows_v_def by (metis order_less_le_trans)
  have new: "clock_v s \<le> born_v s'' x k \<and> (ts_v s'' x k \<noteq> TBD \<longrightarrow> born_v s'' x k \<le> ts_v s'' x k)"
    if "len_v s x \<le> k" "k < len_v s'' x" for x k
  proof (cases "k < len_v s' x")
    case True
    then show ?thesis using assms that(1) unfolding grows_v_def by metis
  next
    case False
    then have "clock_v s' \<le> born_v s'' x k \<and> (ts_v s'' x k \<noteq> TBD \<longrightarrow> born_v s'' x k \<le> ts_v s'' x k)"
      using assms(2) that(2) by (simp add: grows_v_def)
    then show ?thesis using assms(1) by (auto simp: grows_v_def)
  qed
  have "clock_v s \<le> clock_v s''" "snaps_v s \<subseteq> snaps_v s''" using assms by (auto simp: grows_v_def)
  then show ?thesis using l old new unfolding grows_v_def by (meson order_trans)
qed

text \<open>A change of the shared state that keeps the objects in order, followed by a move of one thread.\<close>

lemma vcas_inv_move:
  assumes inv: "vcas_inv s" and g: "grows_v s s'" and o: "\<And>x. obj_ok s' x" and pc: "pc_v s' = pc_v s"
    and sn: "\<forall>t\<in>snaps_v s'. 1 \<le> t \<and> t < clock_v s'" and p: "pc_ok_v s' p"
  shows "vcas_inv (goto_v i p s')" "grows_v s (goto_v i p s')"
proof -
  have st: "\<forall>t\<in>snaps_v s. t < clock_v s" "1 \<le> clock_v s'" using inv g by (auto simp: vcas_inv_def grows_v_def)
  have ob: "obj_ok (goto_v i p s') x = obj_ok s' x" for x by (simp add: obj_ok_def goto_v_def)
  have lt: "late_v (goto_v i p s') = late_v s'" by (simp add: late_v_def goto_v_def fun_eq_iff)
  have nx: "next_ok (goto_v i p s') = next_ok s'" unfolding next_ok_def fun_eq_iff lt by (simp add: goto_v_def)
  have pk: "pc_ok_v (goto_v i p s') q = pc_ok_v s' q" for q
    unfolding pc_ok_v_def nx lt by (simp add: goto_v_def split: vcas_pc.split)
  have "pc_ok_v s' (pc_v (goto_v i p s') j)" for j
    using p pc_ok_grows [OF g _ st(1), of "pc_v s j"] inv pc by (simp add: goto_v_def vcas_inv_def)
  then show "vcas_inv (goto_v i p s')" using o sn st(2) unfolding vcas_inv_def ob pk by (simp add: goto_v_def)
  show "grows_v s (goto_v i p s')" using g by (simp add: grows_v_def goto_v_def)
qed


lemma obj_okD:
  assumes "obj_ok s x"
  shows "0 < len_v s x" "ts_v s x 0 = 1" "Suc k < len_v s x \<Longrightarrow> ts_v s x k \<noteq> TBD"
    "Suc k < len_v s x \<Longrightarrow> ts_v s x k \<le> born_v s x (Suc k)"
    "k < len_v s x \<Longrightarrow> born_v s x k \<le> clock_v s" "k < len_v s x \<Longrightarrow> 1 \<le> born_v s x k"
    "k < len_v s x \<Longrightarrow> ts_v s x k \<noteq> TBD \<Longrightarrow> born_v s x k \<le> ts_v s x k"
    "k < len_v s x \<Longrightarrow> ts_v s x k \<noteq> TBD \<Longrightarrow> ts_v s x k \<le> clock_v s"
  using assms by (simp_all add: obj_ok_def)

lemma set_ts_step:
  assumes o: "\<And>x. obj_ok s x" and k: "k < len_v s x" "born_v s x k \<le> cur" "cur \<le> clock_v s" and b: "clock_v s \<le> INT_MAX"
  shows "grows_v s (set_ts_v x k cur s)" "obj_ok (set_ts_v x k cur s) y" "ts_v (set_ts_v x k cur s) x k \<noteq> TBD"
proof -
  have c: "cur \<noteq> TBD" "int_wrap cur = cur" using obj_okD(6) [OF o k(1)] k(2,3) b int_wrap_id [of cur] by (simp_all add: TBD_def)
  then show "ts_v (set_ts_v x k cur s) x k \<noteq> TBD" by (simp add: set_ts_v_def)
  show "grows_v s (set_ts_v x k cur s)" using k c by (auto simp: set_ts_v_def grows_v_def)
  show "obj_ok (set_ts_v x k cur s) y"
  proof (cases "y = x \<and> ts_v s x k = TBD")
    case True
    have "\<not> Suc k < len_v s x" using obj_okD(3) [OF o, of k x] True by blast
    moreover have "k \<noteq> 0" using obj_okD(2) [OF o, of x] True by (metis TBD_def one_neq_neg_one)
    ultimately show ?thesis using o [of x] True k c by (auto simp: set_ts_v_def obj_ok_def)
  next
    case False
    then show ?thesis using o [of y] by (auto simp: set_ts_v_def obj_ok_def)
  qed
qed

lemma install_step:
  assumes o: "\<And>x. obj_ok s x" and k: "len_v s x = Suc k" "ts_v s x k \<noteq> TBD" and c: "1 \<le> clock_v s"
  shows "grows_v s (install_v x new s)" "obj_ok (install_v x new s) y"
proof -
  show "grows_v s (install_v x new s)" by (auto simp: install_v_def grows_v_def Let_def)
  show "obj_ok (install_v x new s) y"
  proof (cases "y = x")
    case True
    have "ts_v s x k \<le> clock_v s" using obj_okD(8) [OF o, of k x] k by simp
    then show ?thesis using o [of x] True k c by (auto simp: install_v_def obj_ok_def Let_def less_Suc_eq)
  next
    case False
    then show ?thesis using o [of y] by (simp add: install_v_def obj_ok_def Let_def)
  qed
qed

lemma clock_step:
  assumes o: "\<And>x. obj_ok s x"
  shows "grows_v s (s\<lparr>clock_v := clock_v s + 1, snaps_v := insert t (snaps_v s)\<rparr>)"
    "obj_ok (s\<lparr>clock_v := clock_v s + 1, snaps_v := insert t (snaps_v s)\<rparr>) y"
  using o [of y] by (auto simp: grows_v_def obj_ok_def intro: order_trans)

lemma after_init_ok:
  assumes "next_ok s x k nx" "ts_v s x k \<noteq> TBD"
  shows "pc_ok_v s (after_init x k nx)"
  using assms by (cases nx) (auto simp: pc_ok_v_def next_ok_def)

lemma next_ok_head:
  assumes "obj_ok s x" "\<And>t. nx = To_walk t \<Longrightarrow> t \<in> snaps_v s"
  shows "next_ok s x (len_v s x - 1) nx"
  using obj_okD(1) [OF assms(1)] assms(2) by (auto simp: next_ok_def)

lemma vcas_step_clock: "vcas_step s s' \<Longrightarrow> clock_v s \<le> clock_v s'"
  by (erule vcas_step.cases)
    (auto simp: goto_v_def snap_check_v_def return_snapshot_v_def set_ts_v_def install_v_def walk_v_def Let_def)

lemma vcas_step_inv:
  assumes "vcas_step s s'" "vcas_inv s" "clock_v s' \<le> INT_MAX"
  shows "vcas_inv s' \<and> grows_v s s'"
proof -
  have b: "clock_v s \<le> INT_MAX" using vcas_step_clock [OF assms(1)] assms(3) by simp
  have o: "\<And>x. obj_ok s x" and sn: "\<forall>t\<in>snaps_v s. 1 \<le> t \<and> t < clock_v s" and c: "1 \<le> clock_v s"
    and pcs: "\<And>i p. pc_v s i = p \<Longrightarrow> pc_ok_v s p"
    using assms(2) by (auto simp: vcas_inv_def)
  note move = vcas_inv_move [OF assms(2)] and stay = vcas_inv_move [OF assms(2) grows_refl o refl sn]
  show ?thesis using assms(1)
  proof cases
    case (snap_load i)
    show ?thesis unfolding snap_load(1) by (intro conjI stay) (use c in \<open>simp_all add: pc_ok_v_def\<close>)
  next
    case (snap_check i t)
    have t: "1 \<le> t" "t \<le> clock_v s" using pcs [OF snap_check(2)] by (simp_all add: pc_ok_v_def)
    show ?thesis
    proof (cases "clock_v s = t")
      case True
      then have "s' = goto_v i (Snap_inc t) s" using snap_check(1) unfolding snap_check_v_def by simp
      then show ?thesis using t stay [of "Snap_inc t" i] by (simp add: pc_ok_v_def)
    next
      case False
      let ?s = "s\<lparr>snaps_v := insert t (snaps_v s)\<rparr>"
      have "s' = goto_v i Idle_v ?s"
        using snap_check(1) False int_wrap_id [of t] t b unfolding snap_check_v_def return_snapshot_v_def by simp
      moreover have "grows_v s ?s" "\<And>x. obj_ok ?s x" using o by (auto simp: grows_v_def obj_ok_def)
      ultimately show ?thesis using move [of ?s Idle_v i] t False sn by (simp add: pc_ok_v_def)
    qed
  next
    case (snap_inc i t)
    have t: "1 \<le> t" "t \<le> clock_v s" using pcs [OF snap_inc(2)] by (simp_all add: pc_ok_v_def)
    let ?s = "s\<lparr>clock_v := clock_v s + 1, snaps_v := insert t (snaps_v s)\<rparr>"
    have sn': "\<forall>u\<in>snaps_v ?s. 1 \<le> u \<and> u < clock_v ?s" using t sn by auto
    have w: "int_wrap t = t" using int_wrap_id [of t] t b by simp
    have "s' = goto_v i Idle_v ?s" unfolding snap_inc(1) return_snapshot_v_def w by simp
    moreover have "vcas_inv (goto_v i Idle_v ?s) \<and> grows_v s (goto_v i Idle_v ?s)"
      by (intro conjI move [OF clock_step(1) [OF o] clock_step(2) [OF o] _ sn']) (simp_all add: pc_ok_v_def)
    ultimately show ?thesis by simp
  next
    case (cas_load i x old new)
    show ?thesis unfolding cas_load(1)
      by (intro conjI stay) (simp_all add: pc_ok_v_def next_ok_def obj_okD(1) [OF o])
  next
    case (read_load i t x)
    have "next_ok s x (len_v s x - 1) (To_walk t)" by (rule next_ok_head [OF o]) (use read_load(3) in simp)
    then show ?thesis unfolding read_load(1)
      by (intro conjI stay) (simp_all add: pc_ok_v_def del: One_nat_def)
  next
    case (init_test i x k nx)
    have "next_ok s x k nx" using pcs [OF init_test(2)] by (simp add: pc_ok_v_def)
    then have "pc_ok_v s (if ts_v s x k = TBD then Init_load x k nx else after_init x k nx)"
      using after_init_ok [of s x k nx] by (simp add: pc_ok_v_def)
    then show ?thesis unfolding init_test(1) by (intro conjI stay)
  next
    case (init_load i x k nx)
    have "next_ok s x k nx" using pcs [OF init_load(2)] by (simp add: pc_ok_v_def)
    then have "pc_ok_v s (Init_cas x k (clock_v s) nx)"
      using obj_okD(5) [OF o, of k x] by (simp add: pc_ok_v_def next_ok_def)
    then show ?thesis unfolding init_load(1) by (intro conjI stay)
  next
    case (init_cas i x k cur nx)
    have n: "next_ok s x k nx" "cur \<le> clock_v s" "born_v s x k \<le> cur"
      using pcs [OF init_cas(2)] by (simp_all add: pc_ok_v_def)
    have k: "k < len_v s x" using n(1) by (simp add: next_ok_def)
    note st = set_ts_step [OF o k n(3,2) b]
    have "pc_ok_v (set_ts_v x k cur s) (after_init x k nx)"
      by (rule after_init_ok [OF next_ok_grows [OF st(1) n(1)] st(3)]) (use sn in simp)
    moreover have "pc_v (set_ts_v x k cur s) = pc_v s" "snaps_v (set_ts_v x k cur s) = snaps_v s"
      "clock_v (set_ts_v x k cur s) = clock_v s" by (simp_all add: set_ts_v_def)
    ultimately show ?thesis unfolding init_cas(1) using move [OF st(1,2), of "after_init x k nx" i] sn by simp
  next
    case (compare i x k old new)
    have "k < len_v s x" "ts_v s x k \<noteq> TBD" using pcs [OF compare(2)] by (simp_all add: pc_ok_v_def)
    then have "pc_ok_v s (if val_v s x k \<noteq> old then Done_cas False else if new = old then Done_cas True else Swap x k new)"
      by (simp add: pc_ok_v_def)
    then show ?thesis unfolding compare(1) by (intro conjI stay)
  next
    case (swap i x k new)
    have k: "k < len_v s x" "ts_v s x k \<noteq> TBD" using pcs [OF swap(2)] by (simp_all add: pc_ok_v_def)
    show ?thesis
    proof (cases "len_v s x = Suc k")
      case True
      note st = install_step [OF o True k(2) c, of new]
      have "pc_ok_v (install_v x new s) (Init_test x (Suc k) (To_result True))"
        using True by (simp add: pc_ok_v_def next_ok_def install_v_def Let_def)
      moreover have "pc_v (install_v x new s) = pc_v s" "snaps_v (install_v x new s) = snaps_v s"
        "clock_v (install_v x new s) = clock_v s" by (simp_all add: install_v_def Let_def)
      moreover have "s' = goto_v i (Init_test x (Suc k) (To_result True)) (install_v x new s)" using swap(1) True by simp
      ultimately show ?thesis using move [OF st, of "Init_test x (Suc k) (To_result True)" i] sn by simp
    next
      case False
      then have "s' = goto_v i (Reload x) s" using swap(1) by simp
      then show ?thesis using stay [of "Reload x" i] by (simp add: pc_ok_v_def)
    qed
  next
    case (reload i x)
    show ?thesis unfolding reload(1) by (intro conjI stay) (simp_all add: pc_ok_v_def next_ok_def obj_okD(1) [OF o])
  next
    case (walk i x k t)
    have k: "next_ok s x k (To_walk t)" "ts_v s x k \<noteq> TBD" using pcs [OF walk(2)] by (simp_all add: pc_ok_v_def)
    then have w: "k < len_v s x" "t \<in> snaps_v s" "\<forall>j. k < j \<and> j < len_v s x \<longrightarrow> late_v s x t j"
      by (simp_all add: next_ok_def)
    have "pc_ok_v s (if ts_v s x k > t then (if k = 0 then Failed_v else Walk x (k - 1) t) else Done_read x t (val_v s x k))"
    proof (cases "ts_v s x k > t")
      case True
      have "1 \<le> t" using sn w(2) by blast
      then have k0: "k \<noteq> 0" using True obj_okD(2) [OF o, of x] by (cases k) auto
      then obtain j where j: "k = Suc j" by (cases k) auto
      have "late_v s x t k" using True k(2) by (simp add: late_v_def)
      then have "\<forall>i. j < i \<and> i < len_v s x \<longrightarrow> late_v s x t i" using w(3) j by (metis Suc_lessI)
      moreover have "ts_v s x j \<noteq> TBD" using obj_okD(3) [OF o, of j x] w(1) j by simp
      ultimately show ?thesis using True j w by (simp add: pc_ok_v_def next_ok_def)
    next
      case False
      then show ?thesis using w k(2) by (auto simp: pc_ok_v_def)
    qed
    then show ?thesis unfolding walk(1) walk_v_def by (intro conjI stay)
  qed
qed


lemma vcas_inv_start: "vcas_inv (vcas_start f)"
  by (simp add: vcas_inv_def vcas_start_def obj_ok_def pc_ok_v_def TBD_def)

lemma vcas_steps_inv:
  assumes "vcas_step\<^sup>*\<^sup>* s s'" "vcas_inv s" "clock_v s' \<le> INT_MAX"
  shows "vcas_inv s' \<and> grows_v s s'"
  using assms
proof (induction rule: rtranclp_induct)
  case base
  then show ?case using grows_refl by blast
next
  case (step s1 s2)
  have "clock_v s1 \<le> INT_MAX" using vcas_step_clock [OF step.hyps(2)] step.prems(2) by simp
  then have i: "vcas_inv s1" "grows_v s s1" using step.IH step.prems(1) by blast+
  show ?case using vcas_step_inv [OF step.hyps(2) i(1) step.prems(2)] grows_trans [OF i(2)] by blast
qed

lemma vcas_steps_clock: "vcas_step\<^sup>*\<^sup>* s s' \<Longrightarrow> clock_v s \<le> clock_v s'"
  by (induction rule: rtranclp_induct) (use vcas_step_clock in force)+

section \<open>Snapshots\<close>

text \<open>
  C37: As long as the clock has not left the range of an \<open>int\<close>, reads at a timestamp that a snapshot has returned are
  repeatable in every interleaving of snapshots, reads and updates: all reads of an object at the same timestamp return the same value, which is that of the
  newest version whose timestamp is not later; all newer versions, then and ever after, have
  later timestamps or were installed later, and the walk never runs off the end of the versions.
\<close>

theorem vcas_snapshot:
  assumes "vcas_step\<^sup>*\<^sup>* (vcas_start f) s" "vcas_step\<^sup>*\<^sup>* s s'"
    and "pc_v s i = Done_read x t v" "pc_v s' j = Done_read x t w" "clock_v s' \<le> INT_MAX"
  shows "w = v \<and> pc_v s' l \<noteq> Failed_v
    \<and> (\<exists>k<len_v s x. v = val_v s x k \<and> ts_v s x k \<in> {born_v s x k..t} \<and> list_all (late_v s' x t) [Suc k..<len_v s' x])"
proof -
  have "clock_v s \<le> INT_MAX" using vcas_steps_clock [OF assms(2)] assms(5) by simp
  then have inv: "vcas_inv s" using vcas_steps_inv [OF assms(1) vcas_inv_start] by blast
  then have inv': "vcas_inv s'" and g: "grows_v s s'" using vcas_steps_inv [OF assms(2) inv assms(5)] by blast+
  have ok: "pc_ok_v s (Done_read x t v)" "pc_ok_v s' (Done_read x t w)" and o: "obj_ok s x"
    using inv inv' assms(3,4) unfolding vcas_inv_def by metis+
  obtain k where k: "k < len_v s x" "v = val_v s x k" "ts_v s x k \<noteq> TBD" "ts_v s x k \<le> t" "t \<in> snaps_v s"
    "\<forall>j. k < j \<and> j < len_v s x \<longrightarrow> late_v s x t j" using ok(1) by (auto simp: pc_ok_v_def)
  obtain m where m: "m < len_v s' x" "w = val_v s' x m" "ts_v s' x m \<noteq> TBD" "ts_v s' x m \<le> t"
    "\<forall>j. m < j \<and> j < len_v s' x \<longrightarrow> late_v s' x t j" using ok(2) by (auto simp: pc_ok_v_def)
  have same: "k < len_v s' x" "val_v s' x k = val_v s x k" "ts_v s' x k = ts_v s x k"
    using g k(1,3) by (auto simp: grows_v_def intro: order_less_le_trans)
  have lt: "late_v s' x t j" if "k < j" "j < len_v s' x" for j
    by (rule late_grows [OF g]) (use k inv that in \<open>auto simp: vcas_inv_def\<close>)
  have "k = m"
  proof (rule linorder_cases [of k m])
    assume "k < m"
    then show ?thesis using lt [of m] m by (simp add: late_v_def)
  next
    assume "m < k"
    then have "late_v s' x t k" using m(5) same(1) by blast
    then show ?thesis using same(3) k(3,4) by (simp add: late_v_def)
  qed
  moreover have "pc_v s' l \<noteq> Failed_v" 
  proof
    assume "pc_v s' l = Failed_v"
    moreover have "pc_ok_v s' (pc_v s' l)" using inv' by (simp add: vcas_inv_def)
    ultimately show False by (simp add: pc_ok_v_def)
  qed
  moreover have "born_v s x k \<le> ts_v s x k" using obj_okD(7) [OF o k(1,3)] .
  ultimately show ?thesis using k m(2) same lt by (auto simp: list_all_iff)
qed

text \<open>A snapshot, an update that is done after it, and two reads at the timestamp of the snapshot.\<close>

theorem vcas_snapshot_witness:
  "\<exists>s. vcas_step\<^sup>*\<^sup>* (vcas_start (\<lambda>_. 0 :: int)) s \<and> len_v s 0 = 2 \<and> val_v s 0 1 = 5
    \<and> pc_v s 0 = Done_read 0 1 0"
proof -
  let ?w = "To_walk 1 :: int vcas_next"
  define s0 where "s0 = (vcas_start (\<lambda>_. 0) :: int vcas)"
  define s1 where "s1 = goto_v 0 (Snap_check 1) s0"
  define s2 where "s2 = goto_v 0 (Snap_inc 1) s1"
  define s3 where "s3 = goto_v 0 Idle_v (s2\<lparr>clock_v := 2, snaps_v := {1}\<rparr>)"
  define s4 where "s4 = goto_v 1 (Init_test 0 0 (To_compare 0 5)) s3"
  define s5 where "s5 = goto_v 1 (Compare 0 0 0 5) s4"
  define s6 where "s6 = goto_v 1 (Swap 0 0 5) s5"
  define s7 where "s7 = goto_v 1 (Init_test 0 1 (To_result True)) (install_v 0 5 s6)"
  define s8 where "s8 = goto_v 0 (Init_test 0 1 ?w) s7"
  define s9 where "s9 = goto_v 0 (Init_load 0 1 ?w) s8"
  define s10 where "s10 = goto_v 0 (Init_cas 0 1 2 ?w) s9"
  define s11 where "s11 = goto_v 0 (Walk 0 1 1) (set_ts_v 0 1 2 s10)"
  define s12 where "s12 = goto_v 0 (Walk 0 0 1) s11"
  define s13 where "s13 = goto_v 0 (Done_read 0 1 0) s12"
  have w: "int_wrap 1 = 1" "int_wrap 2 = 2" by (simp_all add: int_wrap_def)
  note d = s0_def s1_def s2_def s3_def s4_def s5_def s6_def s7_def s8_def s9_def s10_def s11_def s12_def s13_def
    goto_v_def vcas_start_def install_v_def set_ts_v_def TBD_def idle_v_def snap_check_v_def walk_v_def return_snapshot_v_def w
  have "vcas_step s0 s1" using snap_load [of s0 0] by (simp add: d)
  moreover have "vcas_step s1 s2" using snap_check [of s1 0 1] by (simp add: d)
  moreover have "vcas_step s2 s3" using snap_inc [of s2 0 1] by (simp add: d)
  moreover have "vcas_step s3 s4" using cas_load [of s3 1 0 0 5] by (simp add: d)
  moreover have "vcas_step s4 s5" using init_test [of s4 1 0 0 "To_compare 0 5"] by (simp add: d)
  moreover have "vcas_step s5 s6" using compare [of s5 1 0 0 0 5] by (simp add: d)
  moreover have "vcas_step s6 s7" using swap [of s6 1 0 0 5] by (simp add: d)
  moreover have "vcas_step s7 s8" using read_load [of s7 0 1 0] by (simp add: d)
  moreover have "vcas_step s8 s9" using init_test [of s8 0 0 1 ?w] by (simp add: d)
  moreover have "vcas_step s9 s10" using init_load [of s9 0 0 1 ?w] by (simp add: d)
  moreover have "vcas_step s10 s11" using init_cas [of s10 0 0 1 2 ?w] by (simp add: d)
  moreover have "vcas_step s11 s12" using walk [of s11 0 0 1 1] by (simp add: d)
  moreover have "vcas_step s12 s13" using walk [of s12 0 0 0 1] by (simp add: d)
  ultimately have r: "vcas_step\<^sup>*\<^sup>* (vcas_start (\<lambda>_. 0)) s13"
    unfolding s0_def [symmetric] by (meson rtranclp.rtrancl_refl rtranclp.rtrancl_into_rtrancl)
  have p: "pc_v s13 0 = Done_read 0 1 0" "len_v s13 0 = 2" "val_v s13 0 1 = 5" "clock_v s13 \<le> INT_MAX" by (simp_all add: d INT_MAX_def)
  from vcas_snapshot [OF r rtranclp.rtrancl_refl p(1) p(1) p(4)] show ?thesis using r p by blast
qed

section \<open>Past the range of an int\<close>

text \<open>One thread takes \<open>n\<close> snapshots, one after the other.\<close>

definition ticked_v :: "nat \<Rightarrow> int vcas" where
  "ticked_v n = (vcas_start (\<lambda>_. 0))\<lparr>clock_v := 1 + int n, snaps_v := int_wrap ` int ` {1..n}\<rparr>"

lemma ticked_reach: "vcas_step\<^sup>*\<^sup>* (vcas_start (\<lambda>_. 0)) (ticked_v n)"
proof (induction n)
  case 0
  have "ticked_v 0 = vcas_start (\<lambda>_. 0)" by (simp add: ticked_v_def vcas_start_def)
  then show ?case by simp
next
  case (Suc n)
  let ?t = "1 + int n"
  define s1 where "s1 = goto_v 0 (Snap_check ?t) (ticked_v n)"
  define s2 where "s2 = goto_v 0 (Snap_inc ?t) s1"
  note d = s1_def s2_def ticked_v_def goto_v_def vcas_start_def idle_v_def snap_check_v_def return_snapshot_v_def
  have "vcas_step (ticked_v n) s1" using snap_load [of "ticked_v n" 0] by (simp add: d)
  moreover have "vcas_step s1 s2" using snap_check [of s1 0 ?t] by (simp add: d)
  moreover have "vcas_step s2 (ticked_v (Suc n))"
  proof -
    have "{1..Suc n} = insert (Suc n) {1..n}" by auto
    then have "return_snapshot_v 0 ?t (s2\<lparr>clock_v := clock_v s2 + 1\<rparr>) = ticked_v (Suc n)"
      by (simp add: d add.commute fun_upd_idem)
    then show ?thesis using snap_inc [of s2 0 ?t] by (simp add: d)
  qed
  ultimately show ?case using Suc.IH by (meson rtranclp.rtrancl_into_rtrancl)
qed

text \<open>
  The bound on the clock is needed: after \<open>2 ^ 31 - 1\<close> snapshots the next version gets the timestamp
  \<open>- (2 ^ 31)\<close>, which is older than every snapshot, and a second read at the first timestamp returns it.
\<close>

theorem vcas_narrow_counterexample:
  "\<exists>s s'. vcas_step\<^sup>*\<^sup>* (vcas_start (\<lambda>_. 0 :: int)) s \<and> vcas_step\<^sup>*\<^sup>* s s'
     \<and> pc_v s 0 = Done_read 0 1 0 \<and> pc_v s' 0 = Done_read 0 1 5"
proof -
  define n :: nat where "n = 2 ^ 31 - 1"
  let ?w = "To_walk 1 :: int vcas_next" and ?t = "2 ^ 31 :: int"
  define s0 where "s0 = ticked_v n"
  define s1 where "s1 = goto_v 0 (Init_test 0 0 ?w) s0"
  define s2 where "s2 = goto_v 0 (Walk 0 0 1) s1"
  define s3 where "s3 = goto_v 0 (Done_read 0 1 0) s2"
  define s4 where "s4 = goto_v 1 (Init_test 0 0 (To_compare 0 5)) s3"
  define s5 where "s5 = goto_v 1 (Compare 0 0 0 5) s4"
  define s6 where "s6 = goto_v 1 (Swap 0 0 5) s5"
  define s7 where "s7 = goto_v 1 (Init_test 0 1 (To_result True)) (install_v 0 5 s6)"
  define s8 where "s8 = goto_v 0 (Init_test 0 1 ?w) s7"
  define s9 where "s9 = goto_v 0 (Init_load 0 1 ?w) s8"
  define s10 where "s10 = goto_v 0 (Init_cas 0 1 ?t ?w) s9"
  define s11 where "s11 = goto_v 0 (Walk 0 1 1) (set_ts_v 0 1 ?t s10)"
  define s12 where "s12 = goto_v 0 (Done_read 0 1 5) s11"
  have c: "clock_v s0 = ?t" by (simp add: s0_def n_def ticked_v_def)
  have sn: "1 \<in> snaps_v s0"
    unfolding s0_def ticked_v_def n_def by (simp add: image_iff) (rule bexI [of _ 1], simp_all add: int_wrap_def)
  have o: "len_v s0 = (\<lambda>_. 1)" "ts_v s0 = (\<lambda>_ _. 1)" "val_v s0 = (\<lambda>_ _. 0)" "pc_v s0 = (\<lambda>_. Idle_v)"
    by (simp_all add: s0_def ticked_v_def vcas_start_def)
  have w: "int_wrap 2147483648 = - 2147483648" by (simp add: int_wrap_def)
  note d = s1_def s2_def s3_def s4_def s5_def s6_def s7_def s8_def s9_def s10_def s11_def s12_def
    goto_v_def install_v_def set_ts_v_def TBD_def idle_v_def walk_v_def c sn o w
  have "vcas_step s0 s1" using read_load [of s0 0 1 0] by (simp add: d)
  moreover have "vcas_step s1 s2" using init_test [of s1 0 0 0 ?w] by (simp add: d)
  moreover have "vcas_step s2 s3" using walk [of s2 0 0 0 1] by (simp add: d)
  ultimately have r: "vcas_step\<^sup>*\<^sup>* (vcas_start (\<lambda>_. 0)) s3"
    using ticked_reach [of n] unfolding s0_def by (meson rtranclp.rtrancl_into_rtrancl)
  have "vcas_step s3 s4" using cas_load [of s3 1 0 0 5] by (simp add: d)
  moreover have "vcas_step s4 s5" using init_test [of s4 1 0 0 "To_compare 0 5"] by (simp add: d)
  moreover have "vcas_step s5 s6" using compare [of s5 1 0 0 0 5] by (simp add: d)
  moreover have "vcas_step s6 s7" using swap [of s6 1 0 0 5] by (simp add: d)
  moreover have "vcas_step s7 s8" using read_load [of s7 0 1 0] by (simp add: d)
  moreover have "vcas_step s8 s9" using init_test [of s8 0 0 1 ?w] by (simp add: d)
  moreover have "vcas_step s9 s10" using init_load [of s9 0 0 1 ?w] by (simp add: d)
  moreover have "vcas_step s10 s11" using init_cas [of s10 0 0 1 ?t ?w] by (simp add: d)
  moreover have "vcas_step s11 s12" using walk [of s11 0 0 1 1] by (simp add: d)
  ultimately have r': "vcas_step\<^sup>*\<^sup>* s3 s12" by (meson rtranclp.rtrancl_refl rtranclp.rtrancl_into_rtrancl)
  have "pc_v s3 0 = Done_read 0 1 0" "pc_v s12 0 = Done_read 0 1 5" by (simp_all add: d)
  then show ?thesis using r r' by blast
qed

end
