(* ===== verification/RW_Lock.thy ===== *)
theory RW_Lock
  imports Bit_Fields
begin

text \<open>
  The two reader-writer locks of \<open>common/rwlock.h\<close> that are written out there (for
  \<open>RWLOCK_FAVOR_WRITERS\<close> and \<open>RWLOCK_FAVOR_READERS\<close>): one counter holds twice the number of readers
  plus the writer bit. The calls of the threads are interleaved access by access; the
  memory is sequentially consistent, and the counter does not overflow.
\<close>

section \<open>The calls\<close>

definition isWriteLocked :: "int \<Rightarrow> bool" where
  "isWriteLocked l \<longleftrightarrow> l AND 1 \<noteq> 0"

definition isReadLocked :: "int \<Rightarrow> bool" where
  "isReadLocked l \<longleftrightarrow> l AND NOT 1 \<noteq> 0"

definition isLocked :: "int \<Rightarrow> bool" where
  "isLocked l \<longleftrightarrow> l \<noteq> 0"

datatype rw_policy = Favor_Writers | Favor_Readers

text \<open>
  Where a thread is: outside; in \<open>readLock\<close> before the increment, before the decrement that
  takes a tentative read lock back, or waiting for the writer to leave; reading; in \<open>writeLock\<close> before the
  load or the compare-and-swap with the value it has loaded, or waiting for readers to leave; writing.
\<close>

datatype rw_pc = Outside_rw | R_add | R_back | R_wait | Reading | W_load | W_cas int | W_wait int | Writing

record rw_state =
  lock_rw :: int
  pc_rw :: "nat \<Rightarrow> rw_pc"

definition rw_start :: rw_state where
  "rw_start = \<lparr>lock_rw = 0, pc_rw = (\<lambda>_. Outside_rw)\<rparr>"

definition goto_rw :: "nat \<Rightarrow> rw_pc \<Rightarrow> int \<Rightarrow> rw_state \<Rightarrow> rw_state" where
  "goto_rw i p l s = \<lparr>lock_rw = l, pc_rw = (pc_rw s)(i := p)\<rparr>"

inductive rw_step :: "rw_policy \<Rightarrow> nat \<Rightarrow> rw_state \<Rightarrow> rw_state \<Rightarrow> bool" for pol n where
  fw_read_seen_free: "pol = Favor_Writers \<Longrightarrow> i < n \<Longrightarrow> pc_rw s i = Outside_rw \<Longrightarrow> \<not> isLocked (lock_rw s) \<Longrightarrow>
    rw_step pol n s (goto_rw i R_add (lock_rw s) s)"
| fw_read_add: "pol = Favor_Writers \<Longrightarrow> i < n \<Longrightarrow> pc_rw s i = R_add \<Longrightarrow>
    rw_step pol n s (goto_rw i (if (lock_rw s + 2) AND 1 = 0 then Reading else R_back) (lock_rw s + 2) s)"
| fw_read_back: "pol = Favor_Writers \<Longrightarrow> i < n \<Longrightarrow> pc_rw s i = R_back \<Longrightarrow>
    rw_step pol n s (goto_rw i Outside_rw (lock_rw s - 2) s)"
| fr_read_add: "pol = Favor_Readers \<Longrightarrow> i < n \<Longrightarrow> pc_rw s i = Outside_rw \<Longrightarrow>
    rw_step pol n s (goto_rw i R_wait (lock_rw s + 2) s)"
| fr_read_enter: "pol = Favor_Readers \<Longrightarrow> i < n \<Longrightarrow> pc_rw s i = R_wait \<Longrightarrow> \<not> isWriteLocked (lock_rw s) \<Longrightarrow>
    rw_step pol n s (goto_rw i Reading (lock_rw s) s)"
| read_unlock: "i < n \<Longrightarrow> pc_rw s i = Reading \<Longrightarrow> rw_step pol n s (goto_rw i Outside_rw (lock_rw s - 2) s)"
| fw_write_load: "pol = Favor_Writers \<Longrightarrow> i < n \<Longrightarrow> pc_rw s i = Outside_rw \<or> pc_rw s i = W_load \<Longrightarrow>
    rw_step pol n s (goto_rw i (W_cas (lock_rw s)) (lock_rw s) s)"
| fw_write_cas: "pol = Favor_Writers \<Longrightarrow> i < n \<Longrightarrow> pc_rw s i = W_cas v \<Longrightarrow>
    rw_step pol n s (if lock_rw s = v AND NOT 1 then goto_rw i (W_wait v) (v OR 1) s
      else goto_rw i W_load (lock_rw s) s)"
| fw_write_wait: "pol = Favor_Writers \<Longrightarrow> i < n \<Longrightarrow> pc_rw s i = W_wait v \<Longrightarrow>
    rw_step pol n s (if v AND NOT 1 \<noteq> 0 then goto_rw i (W_wait (lock_rw s)) (lock_rw s) s
      else goto_rw i Writing (lock_rw s) s)"
| fr_write_seen_free: "pol = Favor_Readers \<Longrightarrow> i < n \<Longrightarrow> pc_rw s i = Outside_rw \<or> pc_rw s i = W_load \<Longrightarrow>
    \<not> isLocked (lock_rw s) \<Longrightarrow> rw_step pol n s (goto_rw i (W_cas 0) (lock_rw s) s)"
| fr_write_cas: "pol = Favor_Readers \<Longrightarrow> i < n \<Longrightarrow> pc_rw s i = W_cas v \<Longrightarrow>
    rw_step pol n s (if lock_rw s = 0 then goto_rw i Writing 1 s else goto_rw i W_load (lock_rw s) s)"
| write_unlock: "i < n \<Longrightarrow> pc_rw s i = Writing \<Longrightarrow> rw_step pol n s (goto_rw i Outside_rw (lock_rw s - 1) s)"

section \<open>The counter\<close>

text \<open>Who is counted as a reader, and who has set the writer bit.\<close>

definition counted :: "rw_pc \<Rightarrow> bool" where
  "counted p \<longleftrightarrow> p \<in> {R_back, R_wait, Reading}"

definition owning :: "rw_pc \<Rightarrow> bool" where
  "owning p \<longleftrightarrow> p = Writing \<or> (\<exists>v. p = W_wait v)"

abbreviation readers :: "nat \<Rightarrow> (nat \<Rightarrow> rw_pc) \<Rightarrow> nat set" where
  "readers n p \<equiv> {i. i < n \<and> counted (p i)}"

abbreviation writers :: "nat \<Rightarrow> (nat \<Rightarrow> rw_pc) \<Rightarrow> nat set" where
  "writers n p \<equiv> {i. i < n \<and> owning (p i)}"

definition count_rw :: "nat \<Rightarrow> (nat \<Rightarrow> rw_pc) \<Rightarrow> int" where
  "count_rw n p = 2 * int (card (readers n p)) + int (card (writers n p))"

text \<open>Moving one thread changes the two numbers by its own contribution.\<close>

lemma card_move:
  fixes n :: nat
  assumes "i < n"
  shows "int (card {j. j < n \<and> P ((f(i := q)) j)}) =
    int (card {j. j < n \<and> P (f j)}) + (if P q then 1 else 0) - (if P (f i) then 1 else 0)"
proof -
  let ?A = "{j. j < n \<and> P (f j)}" let ?R = "?A - {i}"
  have fin: "finite ?A" by (rule finite_subset [of _ "{..<n}"]) auto
  have A: "card ?A = card ?R + (if P (f i) then 1 else 0)"
    using assms card_Suc_Diff1 [OF fin, of i] by (cases "P (f i)") simp_all
  have "{j. j < n \<and> P ((f(i := q)) j)} = (if P q then insert i ?R else ?R)" using assms by auto
  moreover have "card (insert i ?R) = Suc (card ?R)" using fin by (intro card_insert_disjoint) auto
  ultimately have "card {j. j < n \<and> P ((f(i := q)) j)} = card ?R + (if P q then 1 else 0)"
    by (simp del: insert_Diff_single)
  with A show ?thesis by simp
qed

lemma count_move:
  assumes "i < n"
  shows "count_rw n (f(i := q)) = count_rw n f + (2 * (if counted q then 1 else 0) + (if owning q then 1 else 0))
    - (2 * (if counted (f i) then 1 else 0) + (if owning (f i) then 1 else 0))"
  unfolding count_rw_def card_move [OF assms] by simp

section \<open>Exclusion\<close>

text \<open>
  The counter counts; at most one thread has set the writer bit; it writes, or has seen that no
  reader was left, only when nobody reads; only the threads below \<open>n\<close> take part.
\<close>

definition no_reader :: "nat \<Rightarrow> rw_state \<Rightarrow> bool" where
  "no_reader n s \<longleftrightarrow> (\<forall>j<n. pc_rw s j \<noteq> Reading)"

definition rw_inv :: "rw_policy \<Rightarrow> nat \<Rightarrow> rw_state \<Rightarrow> bool" where
  "rw_inv pol n s \<longleftrightarrow> lock_rw s = count_rw n (pc_rw s) \<and> (\<forall>i\<ge>n. pc_rw s i = Outside_rw)
     \<and> card (writers n (pc_rw s)) \<le> 1
     \<and> (\<forall>i<n. pc_rw s i = Writing \<longrightarrow> no_reader n s)
     \<and> (\<forall>i<n. \<forall>v. pc_rw s i = W_wait v \<longrightarrow> pol = Favor_Writers \<and> (v AND NOT 1 = 0 \<longrightarrow> no_reader n s))
     \<and> (pol = Favor_Writers \<longrightarrow> (\<forall>i<n. pc_rw s i \<noteq> R_wait)) 
     \<and> (pol = Favor_Readers \<longrightarrow> (\<forall>i<n. pc_rw s i \<noteq> R_back))"

lemma rw_inv_start: "rw_inv pol n rw_start"
  by (simp add: rw_inv_def rw_start_def count_rw_def counted_def owning_def)

text \<open>What the bits of the counter say.\<close>

lemma count_bits:
  assumes "card (writers n p) \<le> 1"
  shows "count_rw n p AND 1 = int (card (writers n p))" "count_rw n p AND NOT 1 = 2 * int (card (readers n p))"
proof -
  have w: "int (card (writers n p)) mod 2 = int (card (writers n p))"
    using assms by (intro mod_pos_pos_trivial) simp_all
  then have m: "count_rw n p mod 2 = int (card (writers n p))" by (simp add: count_rw_def)
  then show "count_rw n p AND 1 = int (card (writers n p))" by (simp add: bits_lock)
  show "count_rw n p AND NOT 1 = 2 * int (card (readers n p))" unfolding bits_lock m by (simp add: count_rw_def)
qed

lemma no_readers:
  assumes "card (readers n (pc_rw s)) = 0"
  shows "no_reader n s"
  using assms by (auto simp: no_reader_def counted_def)

lemma one_writer:
  assumes "card (writers n p) \<le> 1" "i < n" "owning (p i)" "j < n" "owning (p j)"
  shows "i = j"
  using assms card_le_Suc0_iff_eq [of "writers n p"] by auto


lemma writers_zero:
  assumes "i < n" "card (writers n p) = 0"
  shows "\<not> owning (p i)"
  using assms by auto

lemma rw_inv_goto:
  assumes inv: "rw_inv pol n s" and i: "i < n"
    and l: "l = lock_rw s + (2 * (if counted q then 1 else 0) + (if owning q then 1 else 0))
      - (2 * (if counted (pc_rw s i) then 1 else 0) + (if owning (pc_rw s i) then 1 else 0))"
    and own: "owning q \<Longrightarrow> owning (pc_rw s i) \<or> card (writers n (pc_rw s)) = 0"
    and alone: "q = Writing \<or> (\<exists>v. q = W_wait v \<and> v AND NOT 1 = 0) \<Longrightarrow> \<forall>j<n. j \<noteq> i \<longrightarrow> pc_rw s j \<noteq> Reading"
    and ww: "\<And>v. q = W_wait v \<Longrightarrow> pol = Favor_Writers"
    and rd: "q = Reading \<Longrightarrow> card (writers n (pc_rw s)) = 0"
    and pc: "pol = Favor_Writers \<Longrightarrow> q \<noteq> R_wait" "pol = Favor_Readers \<Longrightarrow> q \<noteq> R_back"
  shows "rw_inv pol n (goto_rw i q l s)"
proof -
  let ?p = "pc_rw s" let ?p' = "(pc_rw s)(i := q)"
  have I: "lock_rw s = count_rw n ?p" "\<And>j. j \<ge> n \<Longrightarrow> ?p j = Outside_rw" "card (writers n ?p) \<le> 1"
    "\<And>j. j < n \<Longrightarrow> ?p j = Writing \<Longrightarrow> no_reader n s"
    "\<And>j v. j < n \<Longrightarrow> ?p j = W_wait v \<Longrightarrow> pol = Favor_Writers \<and> (v AND NOT 1 = 0 \<longrightarrow> no_reader n s)"
    "\<And>j. pol = Favor_Writers \<Longrightarrow> j < n \<Longrightarrow> ?p j \<noteq> R_wait" "\<And>j. pol = Favor_Readers \<Longrightarrow> j < n \<Longrightarrow> ?p j \<noteq> R_back"
    using inv by (auto simp: rw_inv_def)
  have nw: "\<not> owning (?p j)" if "q = Reading" "j < n" for j using writers_zero [OF that(2) rd [OF that(1)]] .
  have keep: "no_reader n (goto_rw i q l s)" if "no_reader n s" "q \<noteq> Reading"
    using that by (simp add: no_reader_def goto_rw_def)
  have "l = count_rw n ?p'" unfolding count_move [OF i] l I(1) by simp
  moreover have "card (writers n ?p') \<le> 1"
  proof -
    define w w' where "w = card (writers n ?p)" and "w' = card (writers n ?p')"
    have "int w' = int w + (if owning q then 1 else 0) - (if owning (?p i) then 1 else 0)"
      unfolding w_def w'_def by (rule card_move [OF i])
    then have "w' \<le> 1" using I(3) own unfolding w_def [symmetric] by (cases "owning q"; cases "owning (?p i)") auto
    then show ?thesis by (simp only: w'_def)
  qed
  moreover have "no_reader n (goto_rw i q l s)" if "j < n" "?p' j = Writing \<or> (\<exists>v. ?p' j = W_wait v \<and> v AND NOT 1 = 0)" for j
  proof (cases "j = i")
    case True
    then have "q = Writing \<or> (\<exists>v. q = W_wait v \<and> v AND NOT 1 = 0)" using that by simp
    moreover from this have "q \<noteq> Reading" by auto
    ultimately show ?thesis using alone by (simp add: no_reader_def goto_rw_def)
  next
    case False
    then have "no_reader n s" "owning (?p j)" using that I(4,5) by (auto simp: owning_def)
    then show ?thesis using keep nw that(1) by blast
  qed
  moreover have "pol = Favor_Writers" if "j < n" "?p' j = W_wait v" for j v
    using that I(5) ww by (cases "j = i") auto
  ultimately show ?thesis using I(2,6,7) i pc unfolding rw_inv_def
    by (auto simp: goto_rw_def)
qed


lemmas pc_simps = counted_def owning_def

lemma rw_inv_step:
  assumes "rw_step pol n s s'" "rw_inv pol n s"
  shows "rw_inv pol n s'"
proof -
  let ?W = "card (writers n (pc_rw s))" let ?R = "card (readers n (pc_rw s))"
  have lk: "lock_rw s = 2 * int ?R + int ?W" and W: "?W \<le> 1"
    using assms(2) by (simp_all add: rw_inv_def count_rw_def)
  have b: "lock_rw s AND 1 = int ?W" "lock_rw s AND NOT 1 = 2 * int ?R"
    using count_bits [OF W] assms(2) by (simp_all add: rw_inv_def)
  have no: "pc_rw s j \<noteq> Reading" if "?R = 0" "j < n" for j
    using no_readers [OF that(1)] that(2) by (simp add: no_reader_def)
  have wr: "\<forall>j<n. pc_rw s j \<noteq> Reading" if "i < n" "pc_rw s i = W_wait v" "v AND NOT 1 = 0" for i v
    using assms(2) that by (simp add: rw_inv_def no_reader_def)
  show ?thesis using assms(1)
  proof cases
    case (fw_read_seen_free i)
    show ?thesis unfolding fw_read_seen_free(1)
      by (rule rw_inv_goto [OF assms(2)]) (use fw_read_seen_free in \<open>simp_all add: pc_simps\<close>)
  next
    case (fw_read_add i)
    have "(lock_rw s + 2) AND 1 = int ?W" using b(1) by (simp add: bits_lock)
    then have W0: "?W = 0" if "(lock_rw s + 2) AND 1 = 0" using that by simp
    show ?thesis
    proof (cases "(lock_rw s + 2) AND 1 = 0")
      case True
      have e: "s' = goto_rw i Reading (lock_rw s + 2) s" using fw_read_add(1) True by simp
      show ?thesis using fw_read_add(2-4) W0 [OF True] unfolding e
        by (intro rw_inv_goto [OF assms(2)]) (auto simp: pc_simps)
    next
      case False
      have e: "s' = goto_rw i R_back (lock_rw s + 2) s" using fw_read_add(1) False by simp
      show ?thesis using fw_read_add(2-4) unfolding e
        by (intro rw_inv_goto [OF assms(2)]) (auto simp: pc_simps)
    qed
  next
    case (fw_read_back i)
    show ?thesis unfolding fw_read_back(1)
      by (rule rw_inv_goto [OF assms(2)]) (use fw_read_back in \<open>simp_all add: pc_simps\<close>)
  next
    case (fr_read_add i)
    show ?thesis unfolding fr_read_add(1)
      by (rule rw_inv_goto [OF assms(2)]) (use fr_read_add in \<open>simp_all add: pc_simps\<close>)
  next
    case (fr_read_enter i)
    then have "?W = 0" using b(1) by (simp add: isWriteLocked_def)
    then show ?thesis unfolding fr_read_enter(1)
      by (intro rw_inv_goto [OF assms(2)]) (use fr_read_enter in \<open>simp_all add: pc_simps\<close>)
  next
    case (read_unlock i)
    show ?thesis unfolding read_unlock(1)
      by (rule rw_inv_goto [OF assms(2)]) (use read_unlock in \<open>simp_all add: pc_simps\<close>)
  next
    case (fw_write_load i)
    show ?thesis unfolding fw_write_load(1)
      by (rule rw_inv_goto [OF assms(2)]) (use fw_write_load in \<open>auto simp: pc_simps\<close>)
  next
    case (fw_write_cas i v)
    show ?thesis
    proof (cases "lock_rw s = v AND NOT 1")
      case True
      then have v: "lock_rw s = v - v mod 2" by (simp only: bits_lock)
      then have "even (lock_rw s)" by (simp add: minus_mod_eq_mult_div)
      then have "?W = 0" using lk W by (cases ?W) auto
      moreover have "v OR 1 = lock_rw s + 1" unfolding v or_one_eq by (cases "even v") (auto simp: odd_iff_mod_2_eq_one)
      moreover have "v AND NOT 1 = 0 \<longrightarrow> (\<forall>j<n. pc_rw s j \<noteq> Reading)"
      proof
        assume "v AND NOT 1 = 0"
        then have "2 * int ?R + int ?W = 0" using True lk by simp
        then have "?R = 0" by linarith
        then show "\<forall>j<n. pc_rw s j \<noteq> Reading" using no by blast
      qed
      moreover have e: "s' = goto_rw i (W_wait v) (v OR 1) s" using fw_write_cas(1) True by simp
      ultimately show ?thesis using True fw_write_cas(2-4) unfolding e
        by (intro rw_inv_goto [OF assms(2)]) (auto simp: pc_simps)
    next
      case False
      have e: "s' = goto_rw i W_load (lock_rw s) s" using fw_write_cas(1) False by simp
      show ?thesis using fw_write_cas(2-4) unfolding e
        by (intro rw_inv_goto [OF assms(2)]) (auto simp: pc_simps)
    qed
  next
    case (fw_write_wait i v)
    show ?thesis
    proof (cases "v AND NOT 1 = 0")
      case True
      have e: "s' = goto_rw i Writing (lock_rw s) s" using fw_write_wait(1) True by simp
      show ?thesis using fw_write_wait(2-4) wr [of i v] True unfolding e
        by (intro rw_inv_goto [OF assms(2)]) (auto simp: pc_simps)
    next
      case False
      have R0: "?R = 0" if "lock_rw s AND NOT 1 = 0" using that b(2) by simp
      have e: "s' = goto_rw i (W_wait (lock_rw s)) (lock_rw s) s" using fw_write_wait(1) False by simp
      show ?thesis using fw_write_wait(2-4) no R0 unfolding e
        by (intro rw_inv_goto [OF assms(2)]) (auto simp: pc_simps)
    qed
  next
    case (fr_write_seen_free i)
    show ?thesis unfolding fr_write_seen_free(1)
      by (rule rw_inv_goto [OF assms(2)]) (use fr_write_seen_free in \<open>auto simp: pc_simps\<close>)
  next
    case (fr_write_cas i v)
    show ?thesis
    proof (cases "lock_rw s = 0")
      case True
      then have RW0: "?R = 0" "?W = 0" using lk by linarith+
      have e: "s' = goto_rw i Writing 1 s" using fr_write_cas(1) True by simp
      show ?thesis using True fr_write_cas(2-4) no RW0 unfolding e
        by (intro rw_inv_goto [OF assms(2)]) (auto simp: pc_simps)
    next
      case False
      have e: "s' = goto_rw i W_load (lock_rw s) s" using fr_write_cas(1) False by simp
      show ?thesis using fr_write_cas(2-4) unfolding e
        by (intro rw_inv_goto [OF assms(2)]) (auto simp: pc_simps)
    qed
  next
    case (write_unlock i)
    show ?thesis unfolding write_unlock(1)
      by (rule rw_inv_goto [OF assms(2)]) (use write_unlock in \<open>simp_all add: pc_simps\<close>)
  qed
qed


lemma rw_inv_reach: "(rw_step pol n)\<^sup>*\<^sup>* rw_start s \<Longrightarrow> rw_inv pol n s"
  by (induction rule: rtranclp_induct) (auto intro: rw_inv_start rw_inv_step)

text \<open>
  C38: Both locks exclude: in every interleaving of \<open>readLock\<close>, \<open>readUnlock\<close>, \<open>writeLock\<close>
  and \<open>writeUnlock\<close> by any number of threads, while one thread writes no other thread writes or
  reads, and the writer bit of the counter is set.
\<close>

theorem rwlock_exclusion:
  assumes "(rw_step pol n)\<^sup>*\<^sup>* rw_start s" "pc_rw s i = Writing"
  shows "pc_rw s j \<noteq> Reading \<and> (pc_rw s j = Writing) = (j = i) \<and> isWriteLocked (lock_rw s)"
proof -
  have inv: "rw_inv pol n s" by (rule rw_inv_reach [OF assms(1)])
  then have i: "i < n" using assms(2) by (auto simp: rw_inv_def not_le [symmetric])
  have W: "card (writers n (pc_rw s)) \<le> 1" "lock_rw s = count_rw n (pc_rw s)" using inv by (simp_all add: rw_inv_def)
  have o: "owning (pc_rw s i)" using assms(2) by (simp add: owning_def)
  then have "card (writers n (pc_rw s)) \<noteq> 0" using i by (auto simp: card_eq_0_iff)
  then have "isWriteLocked (lock_rw s)" using count_bits(1) [OF W(1)] W(2) by (simp add: isWriteLocked_def)
  moreover have "pc_rw s j = Outside_rw" if "j \<ge> n" using inv that by (simp add: rw_inv_def)
  moreover have "pc_rw s j \<noteq> Reading" if "j < n" using inv i assms(2) that by (simp add: rw_inv_def no_reader_def)
  moreover have "j = i" if "j < n" "pc_rw s j = Writing"
    using one_writer [OF W(1) that(1) _ i o] that(2) by (simp add: owning_def)
  ultimately show ?thesis using assms(2) by (cases "j < n") (auto simp: not_less)
qed

text \<open>A writer gets in while a reader holds a tentative lock, which it gives back.\<close>

theorem rwlock_exclusion_witness:
  "\<exists>s. (rw_step Favor_Writers 2)\<^sup>*\<^sup>* rw_start s \<and> pc_rw s 0 = Writing \<and> pc_rw s 1 = R_back \<and> isWriteLocked (lock_rw s)"
proof -
  let ?S = "rw_step Favor_Writers 2"
  define s1 where "s1 = goto_rw 1 R_add 0 rw_start"
  define s2 where "s2 = goto_rw 0 (W_cas 0) 0 s1"
  define s3 where "s3 = goto_rw 0 (W_wait 0) 1 s2"
  define s4 where "s4 = goto_rw 1 R_back 3 s3"
  define s5 where "s5 = goto_rw 0 Writing 3 s4"
  note d = s1_def s2_def s3_def s4_def s5_def goto_rw_def rw_start_def
  have "?S rw_start s1" using fw_read_seen_free [of Favor_Writers 1 2 rw_start] by (simp add: d isLocked_def)
  moreover have "?S s1 s2" using fw_write_load [of Favor_Writers 0 2 s1] by (simp add: d)
  moreover have "?S s2 s3" using fw_write_cas [of Favor_Writers 0 2 s2 0] by (simp add: d)
  moreover have "?S s3 s4" using fw_read_add [of Favor_Writers 1 2 s3] by (simp add: d)
  moreover have "?S s4 s5" using fw_write_wait [of Favor_Writers 0 2 s4 0] by (simp add: d)
  ultimately have r: "?S\<^sup>*\<^sup>* rw_start s5" by (meson rtranclp.rtrancl_refl rtranclp.rtrancl_into_rtrancl)
  have p: "pc_rw s5 0 = Writing" "pc_rw s5 1 = R_back" by (simp_all add: d)
  from rwlock_exclusion [OF r p(1), of 1] show ?thesis using r p by blast
qed

end
