(* ===== verification/Hash_Set.thy ===== *)
theory Hash_Set
  imports Prelude "HOL-Library.Word"
begin

text \<open>
  The sets of pointers of \<open>recordmgr/hashtable.h\<close>, with open addressing and linear probing: \<open>hashset_new\<close>,
  in which the reclaimers with hazard pointers collect the announced pointers, and the older
  \<open>hashset\<close>. A pointer is a 64-bit word, the null pointer marks an empty cell. Table sizes
  and indices are natural numbers; they stay below \<open>2 ^ 30\<close>.
\<close>

unbundle bit_operations_syntax

type_synonym hkey = "64 word"

definition EMPTY_CELL :: hkey where
  "EMPTY_CELL = 0"

text \<open>The finalizer of MurmurHash3, on \<open>long long\<close>: the shifts are arithmetic.\<close>

definition hash_h :: "hkey \<Rightarrow> hkey" where
  "hash_h k = (let k1 = k XOR signed_drop_bit 33 k; k2 = k1 * 0xff51afd7ed558ccd; k3 = k2 XOR signed_drop_bit 33 k2;
     k4 = k3 * 0xc4ceb9fe1a85ec53 in k4 XOR signed_drop_bit 33 k4)"

section \<open>The newer set\<close>

record hashset =
  tableSize :: nat
  keys_h :: "hkey list"
  size_h :: int

definition firstIndex :: "hashset \<Rightarrow> hkey \<Rightarrow> nat" where
  "firstIndex h key = unat (hash_h key AND of_nat (tableSize h - 1))"

definition nextIndex :: "hashset \<Rightarrow> nat \<Rightarrow> nat" where
  "nextIndex h ix = (ix + 1) AND (tableSize h - 1)"

text \<open>The loop of \<open>getIndex\<close>, with fuel.\<close>

fun getIndex_from :: "nat \<Rightarrow> hashset \<Rightarrow> hkey \<Rightarrow> nat \<Rightarrow> nat res" where
  "getIndex_from 0 h key ix = Inl Timeout"
| "getIndex_from (Suc n) h key ix = obind (aref (keys_h h) ix) (\<lambda>c.
     if c = EMPTY_CELL \<or> c = key then Inr ix
     else obind (require AssertFail (nextIndex h ix < tableSize h)) (\<lambda>_. getIndex_from n h key (nextIndex h ix)))"

definition getIndex_h :: "hashset \<Rightarrow> hkey \<Rightarrow> nat res" where
  "getIndex_h h key = obind (require AssertFail (firstIndex h key < tableSize h)) (\<lambda>_.
     getIndex_from (tableSize h) h key (firstIndex h key))"

definition get_h :: "hashset \<Rightarrow> hkey \<Rightarrow> hkey res" where
  "get_h h key = obind (getIndex_h h key) (aref (keys_h h))"

definition contains_h :: "hashset \<Rightarrow> hkey \<Rightarrow> bool res" where
  "contains_h h key = obind (get_h h key) (\<lambda>c. Inr (c \<noteq> EMPTY_CELL))"

definition insert_h :: "hkey \<Rightarrow> hashset \<Rightarrow> hashset res" where
  "insert_h key h = obind (getIndex_h h key) (\<lambda>ix. obind (aref (keys_h h) ix) (\<lambda>c.
     if c = EMPTY_CELL
     then (let h' = h\<lparr>keys_h := (keys_h h)[ix := key], size_h := size_h h + 1\<rparr> in
       obind (require AssertFail (size_h h' < int (tableSize h'))) (\<lambda>_. Inr h'))
     else Inr h))"

definition clear_h :: "hashset \<Rightarrow> hashset" where
  "clear_h h = (if size_h h \<noteq> 0 then h\<lparr>keys_h := replicate (tableSize h) EMPTY_CELL, size_h := 0\<rparr> else h)"

text \<open>The doubling loop of the constructor, with fuel; the new array has indeterminate contents.\<close>

fun double_until :: "nat \<Rightarrow> nat \<Rightarrow> nat \<Rightarrow> nat res" where
  "double_until 0 ts m = Inl Timeout"
| "double_until (Suc n) ts m = (if ts < m then double_until n (ts * 2) m else Inr ts)"

definition hashset_new :: "(nat \<Rightarrow> hkey) \<Rightarrow> nat \<Rightarrow> hashset res" where
  "hashset_new junk numberOfElements = obind (double_until 26 32 (numberOfElements * 2)) (\<lambda>ts.
     Inr (clear_h \<lparr>tableSize = ts, keys_h = map junk [0..<ts], size_h = -1\<rparr>))"

section \<open>The set it holds\<close>

definition elems_h :: "hashset \<Rightarrow> hkey set" where
  "elems_h h = set (keys_h h) - {EMPTY_CELL}"

text \<open>
  The cell at distance \<open>d\<close> from the first index of a key; a key lies behind cells that are in
  use, no key lies twice, and a cell is free.
\<close>

definition cell_h :: "hashset \<Rightarrow> hkey \<Rightarrow> nat \<Rightarrow> nat" where
  "cell_h h key d = (firstIndex h key + d) mod tableSize h"

definition wf_h :: "hashset \<Rightarrow> bool" where
  "wf_h h \<longleftrightarrow> (\<exists>m\<le>30. tableSize h = 2 ^ m) \<and> length (keys_h h) = tableSize h
     \<and> (\<forall>i<tableSize h. keys_h h ! i \<noteq> EMPTY_CELL \<longrightarrow> (\<exists>d<tableSize h. i = cell_h h (keys_h h ! i) d
          \<and> (\<forall>e<d. keys_h h ! cell_h h (keys_h h ! i) e \<noteq> EMPTY_CELL)))
     \<and> (\<forall>i<tableSize h. \<forall>j<tableSize h. keys_h h ! i = keys_h h ! j \<and> keys_h h ! i \<noteq> EMPTY_CELL \<longrightarrow> i = j)
     \<and> size_h h = int (card (elems_h h)) \<and> card (elems_h h) < tableSize h"

lemma wf_hD:
  assumes "wf_h h"
  shows "\<exists>m\<le>30. tableSize h = 2 ^ m" "length (keys_h h) = tableSize h"
    "i < tableSize h \<Longrightarrow> keys_h h ! i \<noteq> EMPTY_CELL \<Longrightarrow> \<exists>d<tableSize h. i = cell_h h (keys_h h ! i) d
          \<and> (\<forall>e<d. keys_h h ! cell_h h (keys_h h ! i) e \<noteq> EMPTY_CELL)"
    "i < tableSize h \<Longrightarrow> j < tableSize h \<Longrightarrow> keys_h h ! i = keys_h h ! j \<Longrightarrow> keys_h h ! i \<noteq> EMPTY_CELL \<Longrightarrow> i = j"
    "size_h h = int (card (elems_h h))" "card (elems_h h) < tableSize h" "0 < tableSize h"
  using assms by (auto simp: wf_h_def)

lemma index_simps:
  assumes "tableSize h = 2 ^ m" "m \<le> 30"
  shows "firstIndex h key < tableSize h" "nextIndex h ix = (ix + 1) mod tableSize h"
proof -
  have "(of_nat (tableSize h - 1) :: hkey) = mask m"
    unfolding assms(1) by (simp add: mask_eq_exp_minus_1 of_nat_diff)
  then have "hash_h key AND of_nat (tableSize h - 1) = take_bit m (hash_h key)" by (simp add: take_bit_eq_mask)
  then have "firstIndex h key = take_bit m (unat (hash_h key))" by (simp add: firstIndex_def unsigned_take_bit_eq)
  then show "firstIndex h key < tableSize h" by (simp add: assms(1))
  have "nextIndex h ix = (ix + 1) AND mask m" by (simp only: nextIndex_def assms(1) mask_eq_exp_minus_1)
  then show "nextIndex h ix = (ix + 1) mod tableSize h" by (simp only: assms(1) take_bit_eq_mask [symmetric] take_bit_eq_mod)
qed

lemma cell_next:
  assumes "wf_h h"
  shows "cell_h h key d < tableSize h" "nextIndex h (cell_h h key d) = cell_h h key (Suc d)" "cell_h h key 0 = firstIndex h key"
  using wf_hD(1,7) [OF assms] index_simps [of h] by (auto simp: cell_h_def mod_simps)

lemma cell_inj:
  assumes "wf_h h" "d < tableSize h" "e < tableSize h" "cell_h h key d = cell_h h key e"
  shows "d = e"
proof -
  let ?n = "tableSize h" and ?f = "firstIndex h key"
  have "?f < ?n" using wf_hD(1) [OF assms(1)] index_simps(1) by blast
  moreover have "(?f + x) mod ?n = (if ?f + x < ?n then ?f + x else ?f + x - ?n)" if "x < ?n" "?f < ?n" for x
    using that by (simp add: mod_if)
  ultimately show ?thesis using assms(2-4) by (auto simp: cell_h_def split: if_splits)
qed

text \<open>Probing stops at the first cell that is free or holds the key.\<close>

definition stops_h :: "hashset \<Rightarrow> hkey \<Rightarrow> nat \<Rightarrow> bool" where
  "stops_h h key d \<longleftrightarrow> keys_h h ! cell_h h key d \<in> {EMPTY_CELL, key}"

lemma getIndex_from_ok:
  assumes "wf_h h" "stops_h h key (d + k)" "\<forall>e<k. \<not> stops_h h key (d + e)" "k < n"
  shows "getIndex_from n h key (cell_h h key d) = Inr (cell_h h key (d + k))"
  using assms(2-4)
proof (induction n arbitrary: d k)
  case (Suc n)
  note c = cell_next [OF assms(1)]
  have a: "aref (keys_h h) (cell_h h key d) = Inr (keys_h h ! cell_h h key d)"
    using c(1) [of key d] wf_hD(2) [OF assms(1)] by (simp add: aref_in)
  show ?case
  proof (cases k)
    case 0
    then show ?thesis using a Suc.prems(1) by (auto simp: stops_h_def)
  next
    case (Suc j)
    have "\<not> stops_h h key d" using Suc.prems(2) Suc by force
    moreover have "\<forall>e<j. \<not> stops_h h key (Suc d + e)" using Suc.prems(2) Suc by auto
    ultimately show ?thesis using a c(1) [of key "Suc d"] c(2) [of key d] Suc.IH [of "Suc d" j] Suc.prems(1,3) Suc
      by (auto simp: stops_h_def require_def)
  qed
qed simp

lemma getIndex_ok:
  assumes "wf_h h" "stops_h h key k" "\<forall>e<k. \<not> stops_h h key e" "k < tableSize h"
  shows "getIndex_h h key = Inr (cell_h h key k)"
  using getIndex_from_ok [OF assms(1), of key 0 k "tableSize h"] assms(2-) cell_next(1) [OF assms(1), of key 0]
  by (simp add: getIndex_h_def require_def cell_next(3) [OF assms(1)])

text \<open>All cells are visited within one round.\<close>

lemma cell_surj:
  assumes "wf_h h" "i < tableSize h"
  shows "\<exists>d<tableSize h. cell_h h key d = i"
proof -
  have "inj_on (cell_h h key) {..<tableSize h}" using cell_inj [OF assms(1)] by (auto intro: inj_onI)
  then have "cell_h h key ` {..<tableSize h} = {..<tableSize h}"
    using cell_next(1) [OF assms(1)] by (intro endo_inj_surj) auto
  then show ?thesis using assms(2) by (metis imageE lessThan_iff)
qed

lemma free_cell:
  assumes "wf_h h"
  shows "\<exists>i<tableSize h. keys_h h ! i = EMPTY_CELL"
proof (rule ccontr)
  assume "\<not> ?thesis"
  then have n: "keys_h h ! i \<noteq> EMPTY_CELL" if "i < tableSize h" for i using that by blast
  then have "distinct (keys_h h)" "EMPTY_CELL \<notin> set (keys_h h)"
    using wf_hD(2,4) [OF assms] by (auto simp: distinct_conv_nth in_set_conv_nth)
  then have "card (elems_h h) = tableSize h" using wf_hD(2) [OF assms] by (simp add: elems_h_def distinct_card)
  then show False using wf_hD(6) [OF assms] by simp
qed

text \<open>Where \<open>getIndex\<close> ends: at the key, or at a free cell behind cells in use.\<close>

lemma getIndex_cases:
  assumes "wf_h h" "key \<noteq> EMPTY_CELL"
  shows "\<exists>k<tableSize h. getIndex_h h key = Inr (cell_h h key k) \<and> (\<forall>e<k. keys_h h ! cell_h h key e \<noteq> EMPTY_CELL)
    \<and> keys_h h ! cell_h h key k = (if key \<in> elems_h h then key else EMPTY_CELL)"
proof -
  obtain i where i: "i < tableSize h" "keys_h h ! i = EMPTY_CELL" using free_cell [OF assms(1)] by blast
  obtain d where d: "d < tableSize h" "cell_h h key d = i" using cell_surj [OF assms(1) i(1)] by blast
  define k where "k = (LEAST k. stops_h h key k)"
  have st: "stops_h h key d" using d i by (simp add: stops_h_def)
  then have k: "stops_h h key k" "k \<le> d" "\<forall>e<k. \<not> stops_h h key e"
    unfolding k_def by (rule LeastI, rule Least_le) (use not_less_Least in blast)
  have g: "getIndex_h h key = Inr (cell_h h key k)" using getIndex_ok [OF assms(1) k(1,3)] k(2) d(1) by simp
  have ne: "\<forall>e<k. keys_h h ! cell_h h key e \<noteq> EMPTY_CELL" using k(3) by (simp add: stops_h_def)
  have "keys_h h ! cell_h h key k = key" if mem: "key \<in> elems_h h"
  proof -
    obtain j where j: "j < tableSize h" "keys_h h ! j = key"
      using mem wf_hD(2) [OF assms(1)] by (auto simp: elems_h_def in_set_conv_nth)
    obtain c where c: "c < tableSize h" "j = cell_h h key c" "\<forall>e<c. keys_h h ! cell_h h key e \<noteq> EMPTY_CELL"
      using wf_hD(3) [OF assms(1) j(1)] j(2) assms(2) by auto
    have "stops_h h key c" using c(2) j(2) by (simp add: stops_h_def)
    then have "k \<le> c" unfolding k_def by (rule Least_le)
    show ?thesis
    proof (cases "k = c")
      case False
      then have "keys_h h ! cell_h h key k \<noteq> EMPTY_CELL" using c(3) \<open>k \<le> c\<close> by simp
      then show ?thesis using k(1) by (simp add: stops_h_def)
    qed (use c(2) j(2) in simp)
  qed
  moreover have "keys_h h ! cell_h h key k = EMPTY_CELL" if "key \<notin> elems_h h"
  proof -
    have "keys_h h ! cell_h h key k \<noteq> key"
      using that assms(2) cell_next(1) [OF assms(1)] wf_hD(2) [OF assms(1)] by (auto simp: elems_h_def in_set_conv_nth)
    then show ?thesis using k(1) by (simp add: stops_h_def)
  qed
  ultimately show ?thesis using g ne k(2) d(1) by (intro exI [of _ k]) auto
qed

section \<open>Refinement\<close>

lemma elems_iff:
  assumes "length (keys_h h) = tableSize h"
  shows "x \<in> elems_h h \<longleftrightarrow> x \<noteq> EMPTY_CELL \<and> (\<exists>i<tableSize h. keys_h h ! i = x)"
  using assms by (auto simp: elems_h_def in_set_conv_nth)

lemma insert_absent:
  assumes wf: "wf_h h" and k: "k < tableSize h" "keys_h h ! cell_h h key k = EMPTY_CELL" "key \<noteq> EMPTY_CELL" "key \<notin> elems_h h"
    and ne: "\<forall>e<k. keys_h h ! cell_h h key e \<noteq> EMPTY_CELL" and c: "card (elems_h h) + 1 < tableSize h"
    and h': "h' = h\<lparr>keys_h := (keys_h h)[cell_h h key k := key], size_h := size_h h + 1\<rparr>"
  shows "wf_h h' \<and> elems_h h' = insert key (elems_h h)"
proof -
  let ?c = "cell_h h key k"
  note W = wf_hD [OF wf]
  have ix: "?c < tableSize h" by (rule cell_next(1) [OF wf])
  have n: "keys_h h' ! i = (if i = ?c then key else keys_h h ! i)" for i
    using ix W(2) by (simp add: h' nth_list_update)
  have cl: "cell_h h' = cell_h h" by (simp add: h' cell_h_def firstIndex_def fun_eq_iff)
  have t: "tableSize h' = tableSize h" "length (keys_h h') = tableSize h'" "size_h h' = size_h h + 1"
    using W(2) by (simp_all add: h')
  have absent: "keys_h h ! i \<noteq> key" if "i < tableSize h" for i using k(3,4) that elems_iff [OF W(2)] by blast
  have el: "elems_h h' = insert key (elems_h h)"
  proof (rule set_eqI)
    fix x
    show "x \<in> elems_h h' \<longleftrightarrow> x \<in> insert key (elems_h h)"
      unfolding elems_iff [OF t(2)] insert_iff elems_iff [OF W(2)] t(1) n using ix k(2,3) by metis
  qed
  have "\<exists>d<tableSize h. i = cell_h h (keys_h h' ! i) d \<and> (\<forall>e<d. keys_h h' ! cell_h h (keys_h h' ! i) e \<noteq> EMPTY_CELL)"
    if i: "i < tableSize h" "keys_h h' ! i \<noteq> EMPTY_CELL" for i
  proof (cases "i = ?c")
    case True
    then show ?thesis using k(1,3) ne n by (intro exI [of _ k]) simp
  next
    case False
    then have "keys_h h ! i \<noteq> EMPTY_CELL" "keys_h h' ! i = keys_h h ! i" using i(2) n by simp_all
    then show ?thesis using W(3) [OF i(1)] n k(3) by fastforce
  qed
  moreover have "\<forall>i<tableSize h. \<forall>j<tableSize h. keys_h h' ! i = keys_h h' ! j \<and> keys_h h' ! i \<noteq> EMPTY_CELL \<longrightarrow> i = j"
    using W(4) absent unfolding n by (auto split: if_splits)
  moreover have "card (elems_h h') = card (elems_h h) + 1"
    unfolding el using k(4) by (simp add: elems_h_def)
  ultimately show ?thesis using W(1,5) c el unfolding wf_h_def t cl by simp
qed

lemma insert_h_ok:
  assumes wf: "wf_h h" and key: "key \<noteq> EMPTY_CELL" and c: "card (insert key (elems_h h)) < tableSize h"
  shows "\<exists>h'. insert_h key h = Inr h' \<and> wf_h h' \<and> elems_h h' = insert key (elems_h h) \<and> tableSize h' = tableSize h"
proof -
  note W = wf_hD [OF wf]
  obtain k where k: "k < tableSize h" "getIndex_h h key = Inr (cell_h h key k)" "\<forall>e<k. keys_h h ! cell_h h key e \<noteq> EMPTY_CELL"
    "keys_h h ! cell_h h key k = (if key \<in> elems_h h then key else EMPTY_CELL)" using getIndex_cases [OF wf key] by blast
  have a: "aref (keys_h h) (cell_h h key k) = Inr (keys_h h ! cell_h h key k)"
    using cell_next(1) [OF wf] W(2) by (simp add: aref_in)
  show ?thesis
  proof (cases "key \<in> elems_h h")
    case True
    then show ?thesis using k(2,4) a key wf by (simp add: insert_h_def insert_absorb)
  next
    case False
    let ?h = "h\<lparr>keys_h := (keys_h h)[cell_h h key k := key], size_h := size_h h + 1\<rparr>"
    have c': "card (elems_h h) + 1 < tableSize h" using c False by (simp add: elems_h_def)
    have "keys_h h ! cell_h h key k = EMPTY_CELL" using k(4) False by simp
    note i = insert_absent [OF wf k(1) this key False k(3) c' refl]
    have "size_h h + 1 < int (tableSize h)" using W(5) c' by simp
    then have "insert_h key h = Inr ?h" using k(2,4) a False by (simp add: insert_h_def Let_def require_def)
    then show ?thesis using i by simp
  qed
qed

lemma contains_h_ok:
  assumes wf: "wf_h h" and key: "key \<noteq> EMPTY_CELL"
  shows "contains_h h key = Inr (key \<in> elems_h h)"
proof -
  obtain k where k: "getIndex_h h key = Inr (cell_h h key k)"
    "keys_h h ! cell_h h key k = (if key \<in> elems_h h then key else EMPTY_CELL)" using getIndex_cases [OF wf key] by blast
  have "aref (keys_h h) (cell_h h key k) = Inr (keys_h h ! cell_h h key k)"
    using cell_next(1) [OF wf] wf_hD(2) [OF wf] by (simp add: aref_in)
  then show ?thesis using k key by (simp add: contains_h_def get_h_def)
qed

lemma cleared_ok:
  assumes "\<exists>m\<le>30. tableSize h = 2 ^ m" "keys_h h = replicate (tableSize h) EMPTY_CELL" "size_h h = 0"
  shows "wf_h h \<and> elems_h h = {}"
  using assms by (auto simp: wf_h_def elems_h_def)

lemma clear_h_ok:
  assumes "wf_h h"
  shows "wf_h (clear_h h) \<and> elems_h (clear_h h) = {} \<and> tableSize (clear_h h) = tableSize h"
proof (cases "size_h h = 0")
  case True
  then have "elems_h h = {}" using wf_hD(5) [OF assms] by (simp add: elems_h_def)
  then show ?thesis using True assms by (simp add: clear_h_def)
next
  case False
  have "wf_h (clear_h h) \<and> elems_h (clear_h h) = {}"
    by (rule cleared_ok) (use wf_hD(1) [OF assms] False in \<open>simp_all add: clear_h_def\<close>)
  then show ?thesis using False by (simp add: clear_h_def)
qed

lemma double_until_ok:
  assumes "m \<le> 2 ^ (i + n)" "i + n \<le> 30" "2 ^ i < 2 * m \<or> i = 5"
  shows "\<exists>j\<le>30. double_until (Suc n) (2 ^ i) m = Inr (2 ^ j) \<and> m \<le> 2 ^ j \<and> i \<le> j \<and> (2 ^ j < 2 * m \<or> j = 5)"
  using assms
proof (induction n arbitrary: i)
  case 0
  then show ?case by (intro exI [of _ i]) simp
next
  case (Suc n)
  show ?case
  proof (cases "2 ^ i < m")
    case True
    have "\<exists>j\<le>30. double_until (Suc n) (2 ^ Suc i) m = Inr (2 ^ j) \<and> m \<le> 2 ^ j \<and> Suc i \<le> j \<and> (2 ^ j < 2 * m \<or> j = 5)"
      by (rule Suc.IH) (use Suc.prems True in simp_all)
    then show ?thesis using True by (auto simp: mult.commute Suc_le_eq less_imp_le simp del: double_until.simps(2) simp: double_until.simps(2) [of "Suc n"])
  next
    case False
    then show ?thesis using Suc.prems by (intro exI [of _ i]) simp
  qed
qed

lemma hashset_new_ok:
  assumes "m \<le> 2 ^ 29"
  shows "\<exists>h. hashset_new junk m = Inr h \<and> wf_h h \<and> elems_h h = {} \<and> 2 * m \<le> tableSize h \<and> 32 \<le> tableSize h
    \<and> tableSize h \<le> 2 ^ 30"
proof -
  have "m * 2 \<le> 2 ^ (5 + 25)" using assms by simp
  then obtain j where j: "j \<le> 30" "double_until 26 32 (m * 2) = Inr (2 ^ j)" "m * 2 \<le> 2 ^ j" "5 \<le> j"
    using double_until_ok [of "m * 2" 5 25] by auto
  let ?h = "\<lparr>tableSize = 2 ^ j, keys_h = replicate (2 ^ j) EMPTY_CELL, size_h = 0\<rparr>"
  have "wf_h ?h \<and> elems_h ?h = {}" by (rule cleared_ok) (use j(1) in auto)
  moreover have "hashset_new junk m = Inr ?h" by (simp add: hashset_new_def j(2) clear_h_def)
  moreover have "(2 :: nat) ^ 5 \<le> 2 ^ j" "(2 :: nat) ^ j \<le> 2 ^ 30" using j(1,4) by (intro power_increasing; simp)+
  ultimately show ?thesis using j(3) by simp
qed

text \<open>
  C39: \<open>hashset_new\<close> implements a finite set of non-null pointers: the constructor gives the empty
  set in a table that is a power of two and at least twice as large as requested; probing always ends, within one
  round; \<open>contains\<close> answers membership, \<open>insert\<close> adds the pointer as long as one cell stays free,
  \<open>clear\<close> empties the set, and \<open>size\<close> is the number of elements; no assertion fails.
\<close>

theorem hashset_refines:
  assumes "wf_h h" "key \<noteq> EMPTY_CELL" "m \<le> 2 ^ 29"
  shows "(\<exists>h0. hashset_new junk m = Inr h0 \<and> wf_h h0 \<and> elems_h h0 = {} \<and> 2 * m \<le> tableSize h0)
    \<and> contains_h h key = Inr (key \<in> elems_h h) \<and> size_h h = int (card (elems_h h))
    \<and> (card (insert key (elems_h h)) < tableSize h \<longrightarrow> (\<exists>h'. insert_h key h = Inr h' \<and> wf_h h'
         \<and> elems_h h' = insert key (elems_h h) \<and> tableSize h' = tableSize h))
    \<and> wf_h (clear_h h) \<and> elems_h (clear_h h) = {}"
  using hashset_new_ok [OF assms(3), of junk] contains_h_ok [OF assms(1,2)] wf_hD(5) [OF assms(1)]
    insert_h_ok [OF assms(1,2)] clear_h_ok [OF assms(1)]
  by blast

definition empty_h :: hashset where
  "empty_h = \<lparr>tableSize = 32, keys_h = replicate 32 EMPTY_CELL, size_h = 0\<rparr>"

lemma empty_h_ok: "wf_h empty_h \<and> elems_h empty_h = {}"
  by (rule cleared_ok) (auto simp: empty_h_def intro: exI [of _ 5])

theorem hashset_refines_witness:
  "\<exists>h. insert_h 16 empty_h = Inr h \<and> elems_h h = {16} \<and> contains_h empty_h 16 = Inr False"
  using hashset_refines [of empty_h 16 1 undefined] empty_h_ok
  by (simp add: EMPTY_CELL_def) (auto simp: empty_h_def)

section \<open>The older set\<close>

text \<open>
  \<open>TABLE_SIZE\<close> is 32. In \<open>NEXT_INDEX(ix)\<close>, which expands to \<open>(ix)+1 % TABLE_SIZE\<close>, the remainder
  binds tighter than the sum.
\<close>

definition TABLE_SIZE :: nat where
  "TABLE_SIZE = 32"

definition FIRST_INDEX :: "hkey \<Rightarrow> nat" where
  "FIRST_INDEX key = unat (hash_h key AND of_nat (TABLE_SIZE - 1))"

definition NEXT_INDEX :: "nat \<Rightarrow> nat" where
  "NEXT_INDEX ix = ix + 1 mod TABLE_SIZE"

record hashset_old =
  cleared_o :: bool
  keys_o :: "hkey list"

fun getIndex_o :: "nat \<Rightarrow> hashset_old \<Rightarrow> hkey \<Rightarrow> nat \<Rightarrow> nat res" where
  "getIndex_o 0 h key ix = Inl Timeout"
| "getIndex_o (Suc n) h key ix = obind (aref (keys_o h) ix) (\<lambda>c.
     if c \<noteq> EMPTY_CELL \<and> c \<noteq> key
     then obind (require AssertFail (ix < TABLE_SIZE)) (\<lambda>_. getIndex_o n h key (NEXT_INDEX ix))
     else Inr ix)"

definition index_o :: "hashset_old \<Rightarrow> hkey \<Rightarrow> nat res" where
  "index_o h key = getIndex_o (TABLE_SIZE + 1) h key (FIRST_INDEX key)"

definition clear_o :: "hashset_old \<Rightarrow> hashset_old" where
  "clear_o h = (if \<not> cleared_o h then \<lparr>cleared_o = True, keys_o = replicate TABLE_SIZE EMPTY_CELL\<rparr> else h)"

definition new_o :: "(nat \<Rightarrow> hkey) \<Rightarrow> hashset_old" where
  "new_o junk = clear_o \<lparr>cleared_o = False, keys_o = map junk [0..<TABLE_SIZE]\<rparr>"

definition contains_o :: "hashset_old \<Rightarrow> hkey \<Rightarrow> bool res" where
  "contains_o h key = obind (index_o h key) (\<lambda>ix. obind (aref (keys_o h) ix) (\<lambda>c. Inr (c \<noteq> EMPTY_CELL)))"

definition insert_o :: "hkey \<Rightarrow> hashset_old \<Rightarrow> hashset_old res" where
  "insert_o key h = obind (index_o h key) (\<lambda>ix. obind (aset (keys_o h) ix key) (\<lambda>ks. Inr (h\<lparr>keys_o := ks\<rparr>)))"

definition erase_o :: "hkey \<Rightarrow> hashset_old \<Rightarrow> hashset_old res" where
  "erase_o key h = obind (index_o h key) (\<lambda>ix. obind (aset (keys_o h) ix EMPTY_CELL) (\<lambda>ks. Inr (h\<lparr>keys_o := ks\<rparr>)))"

lemma hash_examples:
  "FIRST_INDEX 16 = 28" "FIRST_INDEX 240 = 28" "FIRST_INDEX 976 = 31" "FIRST_INDEX 1024 = 31"
  unfolding FIRST_INDEX_def TABLE_SIZE_def by code_simp+

lemma new_o_keys: "new_o junk = \<lparr>cleared_o = True, keys_o = replicate 32 0\<rparr>"
  by (simp add: new_o_def clear_o_def TABLE_SIZE_def EMPTY_CELL_def)

text \<open>
  C40: The older \<open>hashset\<close> is not a set: \<open>erase\<close> of one pointer makes another one with the same first index
  unreachable; an insertion whose probing passes the last cell leaves the array, because \<open>NEXT_INDEX\<close> does not wrap
  around; and \<open>clear\<close> does nothing after the constructor has called it.
\<close>

theorem hashset_old_counterexample:
  "obind (insert_o 16 (new_o junk)) (\<lambda>h. obind (insert_o 240 h) (\<lambda>h1. obind (erase_o 16 h1) (\<lambda>h2. contains_o h2 240))) = Inr False
   \<and> obind (insert_o 976 (new_o junk)) (insert_o 1024) = Inl OutOfBounds
   \<and> obind (insert_o 16 (new_o junk)) (\<lambda>h. contains_o (clear_o h) 16) = Inr True"
proof -
  have "TABLE_SIZE + 1 = Suc (Suc (Suc 30))" by (simp add: TABLE_SIZE_def)
  then obtain n where "TABLE_SIZE + 1 = Suc (Suc (Suc n))" by blast
  then have ix: "index_o h key = getIndex_o (Suc (Suc (Suc n))) h key (FIRST_INDEX key)" "NEXT_INDEX ix = Suc ix" for h key ix
    by (simp_all only: index_o_def) (simp add: TABLE_SIZE_def NEXT_INDEX_def)
  note d = new_o_keys insert_o_def erase_o_def contains_o_def clear_o_def ix hash_examples EMPTY_CELL_def
    aref_def aset_def require_def TABLE_SIZE_def
  have "obind (insert_o 16 (new_o junk)) (\<lambda>h. obind (insert_o 240 h) (\<lambda>h1. obind (erase_o 16 h1) (\<lambda>h2. contains_o h2 240))) = Inr False"
    by (simp add: d)
  moreover have "obind (insert_o 976 (new_o junk)) (insert_o 1024) = Inl OutOfBounds" by (simp add: d)
  moreover have "obind (insert_o 16 (new_o junk)) (\<lambda>h. contains_o (clear_o h) 16) = Inr True" by (simp add: d)
  ultimately show ?thesis by simp
qed

end
