(* ===== verification/Spec2Isabelle.thy ===== *)
theory Spec2Isabelle
  imports Bundled_List_Concurrent Bundled_Skiplist_Search Bundled_Skiplist_Concurrent Circular_Bundle Bundled_Citrus_Queries
    Debra VCAS_Provider RW_Lock Hash_Set
begin

text \<open>
  Bundled references: linearizable range queries in concurrent linked structures. Every link of
  a structure is paired with a bundle, the history of its values with the timestamps at which
  they were written; an update writes the link and prepends the entries of all bundles it touches
  under one timestamp, and a range query takes a timestamp and follows the entries that were
  valid then.

  \<^bold>\<open>Parts and theories.\<close>
  \<^item> \<open>Prelude\<close>: results (\<open>fault + 'a\<close>; a failed assertion, a null dereference, an exit, a
    wait that can only end when another thread moves, and exhausted fuel are different faults),
    heaps as lists of nodes addressed by position, dictionaries as sorted association lists,
    the wrap-around of the 64-bit clock. \<open>Versioned_Cell\<close> and \<open>Bundle_Path\<close> hold the two interface
    locales (what a cell with a history promises, what an indexed store of bundles promises to
    the code that prepares and finalizes them) and the walks along links and bundles that list and skip list share.
  \<^item> \<open>Linked_Bundle\<close> (\<open>bundle/linked_bundle.h\<close>, \<open>bundle/common_bundle.h\<close>) and
    \<open>Circular_Bundle\<close> (\<open>bundle/circular_bundle.h\<close>): the two histories, as an interpretation of the
    versioned cell each. A read at a time is the newest old enough entry; reclaiming keeps every
    read that is still needed.
  \<^item> \<open>RQ_Provider\<close> (\<open>rq/rq_bundle.h\<close>): the clock, the announcements of the queries, the update
    protocol prepare, linearize, finalize, and the collection of results. \<open>Locks\<close> is
    \<open>common/locks_impl.h\<close>.
  \<^item> \<open>Bundle_View\<close>, \<open>Bundle_Chain\<close>: the abstract state machine of an ordered chain with bundles (insert,
    unlink, reclaim); \<open>Bundled_List\<close> and its four companions (\<open>bundle_lazylist/\<close>) and \<open>Bundled_Skiplist\<close> with its companions
    (\<open>bundle_skiplist_lock/\<close>, levels in \<open>Skip_Levels\<close>, random levels from \<open>common/random.h\<close>)
    refine it. \<open>Snapshot_Reader\<close> is the range query on such a chain, hop by hop (one iteration of a loop of the code each), with the
    interface a structure has to provide for it as a locale; \<open>Bundled_Skiplist_Steps\<close>, \<open>Bundled_Skiplist_Search\<close> and
    \<open>Bundled_Skiplist_Concurrent\<close> put the skip list's searches and queries among the steps of other threads.
  \<^item> \<open>Heap_Tree\<close>, \<open>Tree_View\<close>: the same for search trees (link a leaf, bypass a node, replace a
    node by a copy of its successor, reclaim), refined by \<open>Bundled_Citrus\<close> and its companions
    (\<open>bundle_citrus/\<close>), which use \<open>Urcu\<close> (\<open>citrus/urcu_impl.h\<close>) and, as the stack of their
    traversals, the blocks of \<open>Block_Bag\<close> (\<open>recordmgr/blockbag.h\<close>, \<open>recordmgr/blockpool.h\<close>); \<open>Tree_Stack\<close> relates the two.
  \<^item> \<open>Debra\<close> (\<open>recordmgr/reclaimer_debra.h\<close>): the epoch based reclamation behind \<open>leaveQuiescentState\<close>,
    \<open>enterQuiescentState\<close> and \<open>retire\<close>, which keeps retired nodes in the bags of \<open>Block_Bag\<close>. \<open>Hash_Set\<close>
    (\<open>recordmgr/hashtable.h\<close>): the pointer sets of the other reclaimers.
  \<^item> \<open>VCAS_Provider\<close> (\<open>rq/rq_vcas.h\<close>): the versioned objects of the competitor with
    snapshots; \<open>RW_Lock\<close> (\<open>common/rwlock.h\<close>). \<open>Bit_Fields\<close> is shared by the counters with a flag bit.

  \<^bold>\<open>State and operations.\<close> Each structure is a record with the heap, the sentinels, the provider,
  the list of retired nodes and the flags of the record manager; each method is one definition
  with the name it has in the code and a suffix (\<open>bl\<close>, \<open>sk\<close>, \<open>ct\<close>, \<open>c\<close>, \<open>g\<close>, \<open>b\<close>, \<open>u\<close>). An
  optimistic update is split where the code is: the search without locks, and the section from
  the acquisition of the locks to their release, which is one definition and runs as one
  step. Other threads never see the inside of such a section in these models, except for its pending bundle entries,
  which the hops of range queries are checked against separately (below). A lock that is held and a pending bundle entry that must be waited for are the result \<open>Blocked\<close>.

  \<^bold>\<open>What is shown.\<close> For each of the three structures: an invariant (sorted, links and newest entries agree,
  marked nodes are exactly the ones that were unlinked, every snapshot since a base time can be read), the
  effect of each method without interference on the dictionary and on all earlier snapshots, and that
  the locked section of an update started from a search of any age either retries or performs
  the abstract update at one new timestamp. For the list and the tree the age is made precise by a step relation
  of interleaved updates and cleaners. For the skip list the search itself is interleaved
  hop by hop with everything else, and its arrays are shown to be what the locked sections assume. For the list and the skip list a
  range query is interleaved hop by hop with everything else; it returns the dictionary of the moment it took its
  timestamp. Range queries are not wait-free: at a bundle with a pending head a query spins until the updating thread has
  finalized it. It is shown that this is all they wait for: on a heap in which any set of bundles is between
  \<open>prepare_bundles\<close> and \<open>finalize_bundles\<close>, the hop of a query either is the hop it takes without them, nearer to its end, or
  waits at a pending head in front of entries older than its timestamp. That sections which overlap in time can be taken one
  after the other, as their locks and timestamps suggest, is not proved. The cleaner keeps what announced queries need. For the tree two executions
  show that the corresponding statement about range queries is false. For the bundles: equivalence
  of the shortcuts with the plain search, waiting exactly where needed, ring buffer refinement.
  For the RCU: the grace period, in every interleaving. For the block bags: refinement of multisets,
  termination and completeness of iteration. For the reclamation: in every interleaving nothing is freed that
  was retired after the announcement of a running operation, and nothing is lost or freed twice. For the versioned
  objects: reads at a snapshot are repeatable, in every interleaving, while the clock is in the range of the \<open>int\<close> in which
  timestamps are kept; a run past it breaks them. For the locks: exclusion.

  \<^bold>\<open>Bounds and fuel.\<close> A walk over a heap of \<open>n\<close> nodes has fuel \<open>Suc n\<close>; the theorems show that it is enough, as
  chains and trees have distinct nodes. The number of retries of an update is a parameter, and one attempt is
  enough without interference. The clock is the 64-bit counter of the code; updates are
  considered while it is below \<open>BUNDLE_MAX_TIMESTAMP\<close>. Cleaner and range query of the tree keep their
  stack in one block of 256 pointers: their theorems assume a tree that is not deeper. Seeds and
  counters of the RCU are machine words; indices of the circular bundle, tags and epochs are unbounded, and so is the clock of the versioned
  objects, but not its conversion to the timestamps of versions and snapshots. Probing of the hash set has fuel for one round, the doubling of its table 26 iterations, enough for \<open>2 ^ 29\<close> elements.

  \<^bold>\<open>Not modelled.\<close> Assertions are faults here, although the Makefile defines \<open>NDEBUG\<close>; the theorems
  show that they do not fire. In the models of the structures the memory of retired nodes is never reused; \<open>Debra\<close>
  shows why this is sound for nodes that a running operation may still reach, but the two are not composed
  formally. The other reclaimers, pools and the allocators are outside the model. Memory orders are sequentially consistent. The
  lock-free structures (\<open>bst\<close>, \<open>bslack\<close>, \<open>lockfree_list\<close>), RLU, the other range-query
  providers, the structures they are combined with, benchmarks, statistics and platform
  glue are not modelled; the manifest lists them with the reasons.
\<close>

end
